(* ===== verification/Prelude.thy ===== *)
theory Prelude
  imports Main "HOL-Library.Word" "HOL-Library.Char_ord" "HOL-Library.List_Lexorder"
    "HOL-Library.Product_Lexorder"
begin

text \<open>
  The vocabulary the component theories share: the machine types of the LP64 target the program
  is built for, the members of \<^verbatim>\<open>std::string\<close> and the C library routines the sources
  call, the ordered associative containers (\<^verbatim>\<open>std::map\<close>) as sorted association lists
  together with the interface (\<open>std_map\<close>) their clients rely on, and the ways an operation of
  the program can fail.
\<close>

section \<open>Machine types and failures\<close>

text \<open>\<^verbatim>\<open>size_t\<close> has 64 bits and \<^verbatim>\<open>int\<close>/\<^verbatim>\<open>unsigned\<close> 32 bits.\<close>

type_synonym size_t = "64 word"
type_synonym uint32 = "32 word"

text \<open>
  What ends an operation other than by returning: a failed \<^verbatim>\<open>assert\<close>, an exception of the
  standard library, of Boost.Filesystem, or of json\_spirit (\<^verbatim>\<open>std::runtime_error\<close>). A loop that is
  given a bound on its rounds ends with \<open>Out_of_fuel\<close> when they are used up, which stands for not returning.
\<close>

datatype failure =
    Assertion_failed
  | Out_of_range
  | Filesystem_error string
  | Runtime_error string
  | Out_of_fuel

text \<open>The statements after one that may fail.\<close>

fun and_then :: "failure + 'a \<Rightarrow> ('a \<Rightarrow> failure + 'b) \<Rightarrow> failure + 'b" where
  "and_then (Inl f) k = Inl f"
| "and_then (Inr x) k = k x"

definition assertion :: "bool \<Rightarrow> failure + unit" where
  "assertion p = (if p then Inr () else Inl Assertion_failed)"

lemma assertion_iff [simp]: "assertion p = Inr u \<longleftrightarrow> p" "p \<Longrightarrow> assertion p = Inr ()"
  by (simp_all add: assertion_def)

lemma and_then_Inr: "and_then r k = Inr y \<longleftrightarrow> (\<exists>x. r = Inr x \<and> k x = Inr y)"
  by (cases r) simp_all

lemma and_then_cong [fundef_cong]:
  "r = r' \<Longrightarrow> (\<And>x. r' = Inr x \<Longrightarrow> k x = k' x) \<Longrightarrow> and_then r k = and_then r' k'"
  by (cases r') simp_all

section \<open>Characters\<close>

text \<open>A plain \<^verbatim>\<open>char\<close> is signed: bytes from 128 on convert to negative \<^verbatim>\<open>int\<close>s.\<close>

definition schar :: "char \<Rightarrow> int" where
  "schar c = (let n = int (of_char c) in if n < 128 then n else n - 256)"

definition is_digit_char :: "char \<Rightarrow> bool" where
  "is_digit_char c \<longleftrightarrow> CHR ''0'' \<le> c \<and> c \<le> CHR ''9''"

abbreviation CR :: char where "CR \<equiv> CHR 0x0D"
abbreviation LF :: char where "LF \<equiv> CHR 0x0A"
abbreviation TAB :: char where "TAB \<equiv> CHR 0x09"
abbreviation SP :: char where "SP \<equiv> CHR '' ''"
abbreviation NUL :: char where "NUL \<equiv> CHR 0x00"
abbreviation crlf :: string where "crlf \<equiv> [CR, LF]"

definition is_space_char :: "char \<Rightarrow> bool" where
  "is_space_char c \<longleftrightarrow> c \<in> {SP, TAB, LF, CHR 0x0B, CHR 0x0C, CR}"

text \<open>\<^verbatim>\<open>tolower\<close> in the C locale, and \<^verbatim>\<open>boost::to_lower_copy\<close>.\<close>

definition tolower :: "char \<Rightarrow> char" where
  "tolower c = (if CHR ''A'' \<le> c \<and> c \<le> CHR ''Z'' then char_of ((of_char c :: nat) + 32) else c)"

definition to_lower_copy :: "string \<Rightarrow> string" where
  "to_lower_copy s = map tolower s"

lemma le_char_iff: "c \<le> d \<longleftrightarrow> (of_char c :: nat) \<le> of_char d"
  by (rule less_eq_char_def)

lemma less_char_iff: "c < d \<longleftrightarrow> (of_char c :: nat) < of_char d"
  by (rule less_char_def)

lemma tolower_idem [simp]: "tolower (tolower c) = tolower c"
proof (cases "CHR ''A'' \<le> c \<and> c \<le> CHR ''Z''")
  case True
  then have "(of_char c :: nat) + 32 < 256" by (simp add: le_char_iff)
  moreover have "(65::nat) \<le> of_char c" "(of_char c :: nat) \<le> 90"
    using True by (simp_all add: le_char_iff)
  ultimately show ?thesis
    by (simp add: tolower_def le_char_iff del: less_eq_char_simp)
next
  case False
  then show ?thesis unfolding tolower_def by (simp only: if_False)
qed

lemma to_lower_copy_idem [simp]: "to_lower_copy (to_lower_copy s) = to_lower_copy s"
  by (simp add: to_lower_copy_def)

section \<open>Strings\<close>

subsection \<open>Searching\<close>

definition starts_with :: "string \<Rightarrow> string \<Rightarrow> bool" where
  "starts_with s p \<longleftrightarrow> take (length p) s = p"

definition ends_with :: "string \<Rightarrow> string \<Rightarrow> bool" where
  "ends_with s p \<longleftrightarrow> length p \<le> length s \<and> drop (length s - length p) s = p"

text \<open>The index of the first occurrence of a pattern, and of the last occurrence of a character.\<close>

fun find_str :: "string \<Rightarrow> string \<Rightarrow> nat option" where
  "find_str pat [] = (if pat = [] then Some 0 else None)"
| "find_str pat (c # cs) =
     (if starts_with (c # cs) pat then Some 0 else map_option Suc (find_str pat cs))"

fun find_last :: "char \<Rightarrow> string \<Rightarrow> nat option" where
  "find_last c [] = None"
| "find_last c (x # xs) =
     (case find_last c xs of Some i \<Rightarrow> Some (Suc i) | None \<Rightarrow> (if x = c then Some 0 else None))"

text \<open>\<^verbatim>\<open>std::string::npos\<close>, \<^verbatim>\<open>find\<close>, \<^verbatim>\<open>find_last_of\<close> and \<^verbatim>\<open>substr\<close>.\<close>

definition npos :: size_t where "npos = -1"

definition str_find :: "string \<Rightarrow> string \<Rightarrow> size_t" where
  "str_find s pat = (case find_str pat s of None \<Rightarrow> npos | Some i \<Rightarrow> of_nat i)"

definition str_find_last_of :: "string \<Rightarrow> char \<Rightarrow> size_t" where
  "str_find_last_of s c = (case find_last c s of None \<Rightarrow> npos | Some i \<Rightarrow> of_nat i)"

text \<open>\<^verbatim>\<open>substr\<close> throws \<^verbatim>\<open>std::out_of_range\<close> when the position is past the end.\<close>

definition substr :: "string \<Rightarrow> size_t \<Rightarrow> size_t \<Rightarrow> failure + string" where
  "substr s pos n = (if unat pos \<le> length s then Inr (take (unat n) (drop (unat pos) s)) else Inl Out_of_range)"

definition substr_from :: "string \<Rightarrow> size_t \<Rightarrow> failure + string" where
  "substr_from s pos = (if unat pos \<le> length s then Inr (drop (unat pos) s) else Inl Out_of_range)"

lemma substr_start [simp]: "substr s 0 n = Inr (take (unat n) s)"
  by (simp add: substr_def)

text \<open>\<^verbatim>\<open>boost::erase_last\<close>: drop the last occurrence of the pattern, if there is one.\<close>

fun erase_last :: "string \<Rightarrow> string \<Rightarrow> string" where
  "erase_last pat [] = []"
| "erase_last pat (c # cs) =
     (if find_str pat cs \<noteq> None then c # erase_last pat cs
      else if starts_with (c # cs) pat then drop (length pat) (c # cs) else c # cs)"

lemma starts_with_append [simp]: "starts_with (p @ s) p"
  by (simp add: starts_with_def)

lemma starts_with_Nil [simp]: "starts_with s []"
  by (simp add: starts_with_def)

lemma starts_with_Cons [simp]:
  "starts_with (c # cs) (d # ds) \<longleftrightarrow> c = d \<and> starts_with cs ds"
  "\<not> starts_with [] (d # ds)"
  by (auto simp: starts_with_def)

lemma starts_withE: "starts_with s p \<Longrightarrow> \<exists>t. s = p @ t"
  unfolding starts_with_def by (metis append_take_drop_id)

lemma find_str_char: "find_str [c] s = None \<longleftrightarrow> c \<notin> set s"
  by (induction s) auto

lemma find_str_char_append [simp]:
  "c \<notin> set xs \<Longrightarrow> find_str [c] (xs @ c # ys) = Some (length xs)"
  by (induction xs) auto

lemma find_str_bound: "find_str pat s = Some i \<Longrightarrow> i + length pat \<le> length s"
proof (induction s arbitrary: i)
  case Nil
  then show ?case by (simp split: if_splits)
next
  case (Cons c cs)
  show ?case
  proof (cases "starts_with (c # cs) pat")
    case True
    then have "length pat \<le> length (c # cs)"
      by (metis starts_withE length_append le_add1)
    with True Cons.prems show ?thesis by simp
  next
    case False
    with Cons show ?thesis by auto
  qed
qed

lemma find_str_Some_split:
  "find_str [c] s = Some i \<Longrightarrow> s = take i s @ c # drop (Suc i) s \<and> c \<notin> set (take i s)"
proof (induction s arbitrary: i)
  case Nil
  then show ?case by simp
next
  case (Cons d s)
  then show ?case by (cases i) (auto split: if_splits)
qed

lemma find_str_none_append:
  "find_str pat s = None \<Longrightarrow> find_str pat (drop n s) = None"
proof (induction s arbitrary: n)
  case Nil
  then show ?case by simp
next
  case (Cons c cs)
  then show ?case by (cases n) (auto split: if_splits)
qed

subsection \<open>Positions squeezed through \<^verbatim>\<open>unsigned\<close>\<close>

text \<open>
  The sources keep the result of \<^verbatim>\<open>find\<close> in an \<^verbatim>\<open>unsigned\<close>. On this target that truncates
  a 64-bit position to 32 bits, so that \<^verbatim>\<open>npos\<close> becomes \<open>2\<^sup>3\<^sup>2 - 1\<close> and no longer compares
  equal to \<^verbatim>\<open>std::string::npos\<close>; adding one then wraps to zero.
\<close>

definition unsigned_pos :: "size_t \<Rightarrow> uint32" where
  "unsigned_pos p = ucast p"

definition unsigned_is_npos :: "uint32 \<Rightarrow> bool" where
  "unsigned_is_npos p \<longleftrightarrow> (ucast p :: size_t) = npos"

definition size_of_unsigned :: "uint32 \<Rightarrow> size_t" where
  "size_of_unsigned p = ucast p"

lemma unat_size_of_unsigned [simp]: "unat (size_of_unsigned p) = unat p"
  by (simp add: size_of_unsigned_def unsigned_ucast_eq take_bit_nat_eq_self unsigned_less [THEN less_le_trans])

lemma unsigned_never_npos [simp]: "\<not> unsigned_is_npos p"
proof
  assume "unsigned_is_npos p"
  then have "unat (size_of_unsigned p) = unat npos"
    by (simp add: unsigned_is_npos_def size_of_unsigned_def)
  moreover have "unat p < 2 ^ 32"
    using unsigned_less [of p] by simp
  moreover have "unat npos = 2 ^ 64 - 1"
    by (simp add: npos_def unsigned_minus_1_eq_mask mask_eq_exp_minus_1)
  ultimately show False by simp
qed

lemma unsigned_pos_npos [simp]: "unsigned_pos npos = -1"
  unfolding unsigned_pos_def npos_def by (rule bit_word_eqI) (simp add: bit_simps)

lemma unsigned_pos_of_nat: "unsigned_pos (of_nat i) = of_nat i"
proof -
  have "unat (unsigned_pos (of_nat i)) = unat (of_nat i :: uint32)"
    by (simp add: unsigned_pos_def unsigned_ucast_eq unsigned_of_nat take_bit_take_bit)
  then show ?thesis by (rule unsigned_word_eqI)
qed

lemma unat_unsigned_pos_of_nat [simp]:
  "i < 2 ^ 32 \<Longrightarrow> unat (unsigned_pos (of_nat i)) = i"
  by (simp add: unsigned_pos_of_nat unat_of_nat)

lemma unat_unsigned_pos_succ [simp]:
  assumes "Suc i < 2 ^ 32"
  shows "unat (unsigned_pos (of_nat i) + 1) = Suc i"
proof -
  have "unsigned_pos (of_nat i) + 1 = of_nat (Suc i)" by (simp add: unsigned_pos_of_nat)
  then have "unat (unsigned_pos (of_nat i) + 1) = Suc i mod 2 ^ 32"
    by (simp only: unat_of_nat) simp
  then show ?thesis using assms by simp
qed

text \<open>The truncated position never lies past the end of the string it was found in.\<close>

lemma unat_unsigned_pos_le: "unat (unsigned_pos p) \<le> unat p"
  by (simp add: unsigned_pos_def unsigned_ucast_eq take_bit_nat_less_eq_self)

text \<open>Nor does the one after it, which is 0 when nothing was found: \<^verbatim>\<open>substr\<close> from there does not throw.\<close>

lemma substr_after_found:
  assumes "pat \<noteq> []"
  shows "substr_from s (size_of_unsigned (unsigned_pos (str_find s pat) + 1)) =
    Inr (drop (unat (unsigned_pos (str_find s pat) + 1)) s)"
proof -
  have "unat (unsigned_pos (str_find s pat) + 1) \<le> length s"
  proof (cases "find_str pat s")
    case (Some i)
    have "unat (unsigned_pos (of_nat i) + 1) \<le> Suc (unat (unsigned_pos (of_nat i)))"
      by (simp add: unsigned_pos_of_nat unat_plus_if') linarith
    also have "\<dots> \<le> Suc i"
      by (simp add: unsigned_pos_of_nat unat_of_nat)
    also have "\<dots> \<le> length s" using find_str_bound [OF Some] assms by (cases pat) simp_all
    finally show ?thesis using Some by (simp add: str_find_def)
  qed (simp add: str_find_def)
  then show ?thesis by (simp add: substr_from_def)
qed

lemma find_last_bound: "find_last c s = Some i \<Longrightarrow> i < length s"
  by (induction s arbitrary: i) (auto split: option.splits if_splits)

section \<open>Numbers as text\<close>

definition digit_char :: "nat \<Rightarrow> char" where
  "digit_char d = char_of (48 + d)"

text \<open>
  Decimal output, as \<^verbatim>\<open>boost::lexical_cast<std::string>\<close> and the stream inserters produce it.
\<close>

fun show_nat :: "nat \<Rightarrow> string" where
  "show_nat n = (if n < 10 then [digit_char n] else show_nat (n div 10) @ [digit_char (n mod 10)])"

declare show_nat.simps [simp del]

definition show_int :: "int \<Rightarrow> string" where
  "show_int i = (if i < 0 then CHR ''-'' # show_nat (nat (- i)) else show_nat (nat i))"

text \<open>The part of a byte buffer a \<^verbatim>\<open>const char*\<close> interface sees: up to the first NUL.\<close>

definition c_str :: "string \<Rightarrow> string" where
  "c_str s = takeWhile (\<lambda>c. c \<noteq> NUL) s"

definition dec_val :: "string \<Rightarrow> nat" where
  "dec_val s = foldl (\<lambda>a c. a * 10 + (of_char c - 48)) 0 s"

text \<open>
  \<^verbatim>\<open>strtol\<close> in base ten on a 64-bit \<^verbatim>\<open>long\<close>, saturating, and \<^verbatim>\<open>atoi\<close>, which is its
  conversion to a 32-bit \<^verbatim>\<open>int\<close>.
\<close>

definition strtol10 :: "string \<Rightarrow> int" where
  "strtol10 s =
     (let t = dropWhile is_space_char s;
          neg = (case t of c # _ \<Rightarrow> c = CHR ''-'' | [] \<Rightarrow> False);
          u = (case t of c # r \<Rightarrow> if c = CHR ''-'' \<or> c = CHR ''+'' then r else t | [] \<Rightarrow> t);
          m = int (dec_val (takeWhile is_digit_char u));
          v = (if neg then - m else m)
      in max (- (2 ^ 63)) (min (2 ^ 63 - 1) v))"

definition atoi :: "string \<Rightarrow> uint32" where
  "atoi s = word_of_int (strtol10 (c_str s))"

lemma of_char_digit_char [simp]: "d < 10 \<Longrightarrow> of_char (digit_char d) = (48 + d :: nat)"
  by (simp add: digit_char_def)

lemma is_digit_digit_char [simp]: "d < 10 \<Longrightarrow> is_digit_char (digit_char d)"
  by (simp add: is_digit_char_def le_char_iff del: less_eq_char_simp)

lemma digit_char_range:
  assumes "is_digit_char c"
  shows "48 \<le> (of_char c :: nat)" "(of_char c :: nat) \<le> 57"
  using assms by (simp_all add: is_digit_char_def le_char_iff del: less_eq_char_simp)

lemma show_nat_digits: "c \<in> set (show_nat n) \<Longrightarrow> is_digit_char c"
proof (induction n rule: show_nat.induct)
  case (1 n)
  then show ?case
    by (subst (asm) show_nat.simps [of n]) (auto split: if_splits)
qed

lemma show_nat_nonempty [simp]: "show_nat n \<noteq> []"
  by (subst show_nat.simps) simp

lemma dec_val_snoc: "dec_val (s @ [c]) = dec_val s * 10 + (of_char c - 48)"
  by (simp add: dec_val_def)

lemma dec_val_show_nat [simp]: "dec_val (show_nat n) = n"
proof (induction n rule: show_nat.induct)
  case (1 n)
  show ?case
  proof (cases "n < 10")
    case True
    then show ?thesis by (subst show_nat.simps) (simp add: dec_val_def)
  next
    case False
    with 1 show ?thesis by (subst show_nat.simps) (simp add: dec_val_snoc)
  qed
qed

lemma digit_char_plain:
  assumes "is_digit_char c"
  shows "\<not> is_space_char c" "c \<noteq> CHR ''-''" "c \<noteq> CHR ''+''" "c \<noteq> NUL"
  using digit_char_range [OF assms] by (auto simp: is_space_char_def)

lemma takeWhile_show_nat [simp]: "takeWhile is_digit_char (show_nat n) = show_nat n"
  by (simp add: show_nat_digits)

lemma c_str_show_nat [simp]: "c_str (show_nat n) = show_nat n"
  unfolding c_str_def using digit_char_plain(4) show_nat_digits by (simp add: takeWhile_eq_all_conv)

lemma strtol10_show_nat: "int n < 2 ^ 63 \<Longrightarrow> strtol10 (show_nat n) = int n"
proof -
  assume n: "int n < 2 ^ 63"
  obtain c r where cr: "show_nat n = c # r" by (cases "show_nat n") auto
  have "is_digit_char c" using show_nat_digits [of c n] cr by simp
  note plain = digit_char_plain [OF this]
  have "takeWhile is_digit_char (c # r) = c # r" using takeWhile_show_nat [of n] cr by simp
  moreover have "dec_val (c # r) = n" using dec_val_show_nat [of n] cr by simp
  ultimately show ?thesis using n plain
    by (simp add: strtol10_def cr Let_def)
qed

lemma atoi_show_nat: "n < 2 ^ 31 \<Longrightarrow> sint (atoi (show_nat n)) = int n"
  by (simp add: atoi_def strtol10_show_nat signed_of_nat signed_take_bit_int_eq_self)

lemma unat_atoi_show_nat: "n < 2 ^ 31 \<Longrightarrow> unat (atoi (show_nat n)) = n"
  by (simp add: atoi_def strtol10_show_nat unsigned_of_nat take_bit_nat_eq_self)

end
