(* ===== verification/Http_Message.thy ===== *)
theory Http_Message
  imports Prelude
begin

text \<open>
  HTTP messages: \<^verbatim>\<open>header.hpp/.cpp\<close>, the request (\<^verbatim>\<open>request.hpp\<close>), the reply and its wire
  form (\<^verbatim>\<open>reply.hpp/.cpp\<close>) and the MIME table (\<^verbatim>\<open>mime_types.cpp\<close>).
\<close>

section \<open>Headers\<close>

record header =
  hdr_name :: string
  hdr_value :: string

definition empty_header :: header where
  "empty_header = \<lparr>hdr_name = [], hdr_value = []\<rparr>"

definition make_header :: "string \<Rightarrow> string \<Rightarrow> header" where
  "make_header n v = \<lparr>hdr_name = n, hdr_value = v\<rparr>"

text \<open>The overloads of \<^verbatim>\<open>name\<close> and \<^verbatim>\<open>value\<close> that take a character append it.\<close>

definition name_push :: "char \<Rightarrow> header \<Rightarrow> header" where
  "name_push c h = h\<lparr>hdr_name := hdr_name h @ [c]\<rparr>"

definition value_push :: "char \<Rightarrow> header \<Rightarrow> header" where
  "value_push c h = h\<lparr>hdr_value := hdr_value h @ [c]\<rparr>"

lemma make_header_sel [simp]: "hdr_name (make_header n v) = n" "hdr_value (make_header n v) = v"
  by (simp_all add: make_header_def)

section \<open>Requests\<close>

text \<open>
  The version numbers are \<^verbatim>\<open>int\<close>s and wrap at 32 bits. The members \<^verbatim>\<open>query_string\<close> and
  \<^verbatim>\<open>tstamp\<close> are never used.
\<close>

record request =
  req_method :: string
  req_uri :: string
  http_version_major :: uint32
  http_version_minor :: uint32
  req_headers :: "header list"
  req_content :: string

definition clear_request :: "request \<Rightarrow> request" where
  "clear_request r =
     r\<lparr>req_method := [], req_uri := [], http_version_major := 0, http_version_minor := 0,
       req_headers := [], req_content := []\<rparr>"

fun find_header :: "header list \<Rightarrow> string \<Rightarrow> string" where
  "find_header [] n = []"
| "find_header (h # hs) n = (if hdr_name h = n then hdr_value h else find_header hs n)"

definition request_get_header :: "request \<Rightarrow> string \<Rightarrow> string" where
  "request_get_header r n = find_header (req_headers r) n"

definition is_http11 :: "request \<Rightarrow> bool" where
  "is_http11 r =
     (if sint (http_version_major r) > 1 \<or>
         (sint (http_version_major r) = 1 \<and> sint (http_version_minor r) > 0)
      then True else False)"

definition want_keepalive :: "request \<Rightarrow> bool" where
  "want_keepalive r =
     (let rc = is_http11 r;
          cxn_hdr = to_lower_copy (request_get_header r ''connection'')
      in if cxn_hdr = ''close'' then False
         else if cxn_hdr = ''keep-alive'' then True
         else rc)"

section \<open>Replies\<close>

datatype status_type =
    ok
  | created
  | accepted
  | no_content
  | multiple_choices
  | moved_permanently
  | moved_temporarily
  | not_modified
  | bad_request
  | unauthorized
  | forbidden
  | not_found
  | internal_server_error
  | not_implemented
  | bad_gateway
  | service_unavailable

fun status_code :: "status_type \<Rightarrow> nat" where
  "status_code ok = 200"
| "status_code created = 201"
| "status_code accepted = 202"
| "status_code no_content = 204"
| "status_code multiple_choices = 300"
| "status_code moved_permanently = 301"
| "status_code moved_temporarily = 302"
| "status_code not_modified = 304"
| "status_code bad_request = 400"
| "status_code unauthorized = 401"
| "status_code forbidden = 403"
| "status_code not_found = 404"
| "status_code internal_server_error = 500"
| "status_code not_implemented = 501"
| "status_code bad_gateway = 502"
| "status_code service_unavailable = 503"

text \<open>\<^verbatim>\<open>status_strings::to_buffer\<close>: the status line.\<close>

fun status_string :: "status_type \<Rightarrow> string" where
  "status_string ok = ''HTTP/1.0 200 OK'' @ crlf"
| "status_string created = ''HTTP/1.0 201 Created'' @ crlf"
| "status_string accepted = ''HTTP/1.0 202 Accepted'' @ crlf"
| "status_string no_content = ''HTTP/1.0 204 No Content'' @ crlf"
| "status_string multiple_choices = ''HTTP/1.0 300 Multiple Choices'' @ crlf"
| "status_string moved_permanently = ''HTTP/1.0 301 Moved Permanently'' @ crlf"
| "status_string moved_temporarily = ''HTTP/1.0 302 Moved Temporarily'' @ crlf"
| "status_string not_modified = ''HTTP/1.0 304 Not Modified'' @ crlf"
| "status_string bad_request = ''HTTP/1.0 400 Bad Request'' @ crlf"
| "status_string unauthorized = ''HTTP/1.0 401 Unauthorized'' @ crlf"
| "status_string forbidden = ''HTTP/1.0 403 Forbidden'' @ crlf"
| "status_string not_found = ''HTTP/1.0 404 Not Found'' @ crlf"
| "status_string internal_server_error = ''HTTP/1.0 500 Internal Server Error'' @ crlf"
| "status_string not_implemented = ''HTTP/1.0 501 Not Implemented'' @ crlf"
| "status_string bad_gateway = ''HTTP/1.0 502 Bad Gateway'' @ crlf"
| "status_string service_unavailable = ''HTTP/1.0 503 Service Unavailable'' @ crlf"

text \<open>\<^verbatim>\<open>stock_replies::to_string\<close>: the body of a stock reply.\<close>

fun stock_string :: "status_type \<Rightarrow> string" where
  "stock_string ok = ''''"
| "stock_string created = 
     ''<html><head><title>Created</title></head>'' @
     ''<body><h1>201 Created</h1></body></html>''"
| "stock_string accepted = 
     ''<html><head><title>Accepted</title></head>'' @
     ''<body><h1>202 Accepted</h1></body></html>''"
| "stock_string no_content = 
     ''<html><head><title>No Content</title></head>'' @
     ''<body><h1>204 Content</h1></body></html>''"
| "stock_string multiple_choices = 
     ''<html><head><title>Multiple Choices</title></head>'' @
     ''<body><h1>300 Multiple Choices</h1></body></html>''"
| "stock_string moved_permanently = 
     ''<html><head><title>Moved Permanently</title></head>'' @
     ''<body><h1>301 Moved Permanently</h1></body></html>''"
| "stock_string moved_temporarily = 
     ''<html><head><title>Moved Temporarily</title></head>'' @
     ''<body><h1>302 Moved Temporarily</h1></body></html>''"
| "stock_string not_modified = 
     ''<html><head><title>Not Modified</title></head>'' @
     ''<body><h1>304 Not Modified</h1></body></html>''"
| "stock_string bad_request = 
     ''<html><head><title>Bad Request</title></head>'' @
     ''<body><h1>400 Bad Request</h1></body></html>''"
| "stock_string unauthorized = 
     ''<html><head><title>Unauthorized</title></head>'' @
     ''<body><h1>401 Unauthorized</h1></body></html>''"
| "stock_string forbidden = 
     ''<html><head><title>Forbidden</title></head>'' @
     ''<body><h1>403 Forbidden</h1></body></html>''"
| "stock_string not_found = 
     ''<html><head><title>Not Found</title></head>'' @
     ''<body><h1>404 Not Found</h1></body></html>''"
| "stock_string internal_server_error = 
     ''<html><head><title>Internal Server Error</title></head>'' @
     ''<body><h1>500 Internal Server Error</h1></body></html>''"
| "stock_string not_implemented = 
     ''<html><head><title>Not Implemented</title></head>'' @
     ''<body><h1>501 Not Implemented</h1></body></html>''"
| "stock_string bad_gateway = 
     ''<html><head><title>Bad Gateway</title></head>'' @
     ''<body><h1>502 Bad Gateway</h1></body></html>''"
| "stock_string service_unavailable = 
     ''<html><head><title>Service Unavailable</title></head>'' @
     ''<body><h1>503 Service Unavailable</h1></body></html>''"

record reply =
  rep_status :: status_type
  rep_headers :: "header list"
  rep_content :: string

definition name_value_separator :: string where
  "name_value_separator = '': ''"

text \<open>
  A buffer refers to memory that belongs to someone else. Those of the status line, the separators and the content refer
  to objects that live until the write is done. \<^verbatim>\<open>header::name\<close> and \<^verbatim>\<open>header::value\<close> return by value, so that the buffers
  made of them refer to temporaries, which are destroyed before \<^verbatim>\<open>to_buffers\<close> returns: the text is that of the temporary.
\<close>

datatype const_buffer = Live string | Temporary string

definition to_buffers :: "reply \<Rightarrow> const_buffer list" where
  "to_buffers r =
     [Live (status_string (rep_status r))] @
     concat (map (\<lambda>h. [Temporary (hdr_name h), Live name_value_separator, Temporary (hdr_value h), Live crlf]) (rep_headers r)) @
     [Live crlf, Live (rep_content r)]"

text \<open>
  What a write of the buffers may send. A buffer keeps its length; of a destroyed temporary the memory may hold
  anything by then.
\<close>

fun buffer_text :: "const_buffer \<Rightarrow> string" where
  "buffer_text (Live s) = s"
| "buffer_text (Temporary s) = s"

fun sent :: "const_buffer list \<Rightarrow> string \<Rightarrow> bool" where
  "sent [] out \<longleftrightarrow> out = []"
| "sent (b # bs) out \<longleftrightarrow>
     length (buffer_text b) \<le> length out \<and>
     (case b of Live s \<Rightarrow> take (length s) out = s | Temporary s \<Rightarrow> True) \<and>
     sent bs (drop (length (buffer_text b)) out)"

definition push_header :: "string \<Rightarrow> string \<Rightarrow> reply \<Rightarrow> reply" where
  "push_header n v r = r\<lparr>rep_headers := rep_headers r @ [make_header n v]\<rparr>"

definition stock_reply :: "status_type \<Rightarrow> reply" where
  "stock_reply s =
     (let content = stock_string s
      in \<lparr>rep_status = s,
          rep_headers = [make_header ''Content-Length'' (show_nat (length content)),
                         make_header ''Content-Type'' ''text/html''],
          rep_content = content\<rparr>)"

section \<open>MIME types\<close>

definition mappings :: "(string \<times> string) list" where
  "mappings =
     [(''gif'', ''image/gif''), (''htm'', ''text/html''), (''html'', ''text/html''),
      (''jpg'', ''image/jpeg''), (''png'', ''image/png''), (''css'', ''text/css'')]"

fun extension_to_type_loop :: "(string \<times> string) list \<Rightarrow> string \<Rightarrow> string" where
  "extension_to_type_loop [] extension = ''text/plain''"
| "extension_to_type_loop ((e, t) # ms) extension =
     (if e = extension then t else extension_to_type_loop ms extension)"

definition extension_to_type :: "string \<Rightarrow> string" where
  "extension_to_type extension = extension_to_type_loop mappings extension"

section \<open>The wire form of a reply\<close>

text \<open>The reply as HTTP has it.\<close>

definition header_line :: "header \<Rightarrow> string" where
  "header_line h = hdr_name h @ name_value_separator @ hdr_value h @ crlf"

definition wire :: "reply \<Rightarrow> string" where
  "wire r = status_string (rep_status r) @ concat (map header_line (rep_headers r)) @ crlf @ rep_content r"

text \<open>It is what is sent when the memory of the temporaries has not been used again.\<close>

lemma sent_text: "sent bs (concat (map buffer_text bs))"
  by (induction bs) (auto split: const_buffer.split)

lemma buffers_wire: "concat (map buffer_text (to_buffers r)) = wire r"
proof -
  have "concat (map buffer_text (concat (map (\<lambda>h. [Temporary (hdr_name h), Live name_value_separator,
      Temporary (hdr_value h), Live crlf]) hs))) = concat (map header_line hs)" for hs
    by (induction hs) (simp_all add: header_line_def)
  then show ?thesis by (simp add: wire_def to_buffers_def)
qed

lemma sent_wire: "sent (to_buffers r) (wire r)"
  using sent_text [of "to_buffers r"] by (simp only: buffers_wire)

text \<open>Whatever the memory of the temporaries holds, everything else is sent in its place.\<close>

lemma sent_append:
  "sent (bs @ cs) out \<longleftrightarrow> (\<exists>u v. out = u @ v \<and> sent bs u \<and> sent cs v)"
proof (induction bs arbitrary: out)
  case (Cons b bs)
  let ?n = "length (buffer_text b)"
  show ?case
  proof
    assume "sent ((b # bs) @ cs) out"
    then obtain u v where "drop ?n out = u @ v" "sent bs u" "sent cs v" "?n \<le> length out"
        "case b of Live s \<Rightarrow> take (length s) out = s | Temporary s \<Rightarrow> True" using Cons by auto
    moreover from this have "out = (take ?n out @ u) @ v" by (metis append.assoc append_take_drop_id)
    ultimately show "\<exists>u v. out = u @ v \<and> sent (b # bs) u \<and> sent cs v"
      by (intro exI [of _ "take ?n out @ u"] exI [of _ v]) (auto split: const_buffer.splits)
  next
    assume "\<exists>u v. out = u @ v \<and> sent (b # bs) u \<and> sent cs v"
    then obtain u v where "out = u @ v" "sent (b # bs) u" "sent cs v" by blast
    with Cons [of "drop ?n u @ v"] show "sent ((b # bs) @ cs) out" by (auto split: const_buffer.splits)
  qed
qed simp

lemma sent_length: "sent bs out \<Longrightarrow> length out = length (concat (map buffer_text bs))"
proof (induction bs arbitrary: out)
  case (Cons b bs)
  then show ?case using Cons.IH [of "drop (length (buffer_text b)) out"] by auto
qed simp

lemma sent_live: "sent [Live s] out \<longleftrightarrow> out = s"
proof
  assume "sent [Live s] out"
  then have "take (length s) out = s" "drop (length s) out = []" by simp_all
  then show "out = s" by (metis append_Nil2 append_take_drop_id)
qed simp

lemma sent_two_live: "sent [Live s, Live t] out \<longleftrightarrow> out = s @ t"
proof -
  have "sent ([Live s] @ [Live t]) out \<longleftrightarrow> out = s @ t" unfolding sent_append sent_live by blast
  then show ?thesis by simp
qed

text \<open>
  How a client reads a reply: lines up to CRLF, until an empty line, then the body.
\<close>

fun cut_crlf :: "string \<Rightarrow> (string \<times> string) option" where
  "cut_crlf (c # d # s) =
     (if c = CR \<and> d = LF then Some ([], s)
      else map_option (\<lambda>(l, r). (c # l, r)) (cut_crlf (d # s)))"
| "cut_crlf s = None"

lemma cut_crlf_shorter: "cut_crlf s = Some (l, r) \<Longrightarrow> length r < length s"
  by (induction s arbitrary: l r rule: cut_crlf.induct) (auto split: if_splits)

function read_head :: "string \<Rightarrow> (string list \<times> string) option" where
  "read_head s =
     (case cut_crlf s of
        None \<Rightarrow> None
      | Some (l, r) \<Rightarrow>
          if l = [] then Some ([], r)
          else map_option (\<lambda>(ls, body). (l # ls, body)) (read_head r))"
  by pat_completeness auto
termination
  by (relation "measure length") (auto simp: cut_crlf_shorter)

declare read_head.simps [simp del]

definition plain_header :: "header \<Rightarrow> bool" where
  "plain_header h \<longleftrightarrow> CR \<notin> set (hdr_name h) \<and> CR \<notin> set (hdr_value h)"

lemma cut_crlf_line: "CR \<notin> set l \<Longrightarrow> cut_crlf (l @ CR # LF # s) = Some (l, s)"
proof (induction l)
  case Nil
  then show ?case by simp
next
  case (Cons c l)
  then show ?case by (cases l) auto
qed

lemma read_head_line:
  assumes "CR \<notin> set l" and "l \<noteq> []"
  shows "read_head (l @ CR # LF # s) = map_option (\<lambda>(ls, b). (l # ls, b)) (read_head s)"
  using assms by (subst read_head.simps) (simp add: cut_crlf_line)

lemma read_head_empty_line: "read_head (CR # LF # s) = Some ([], s)"
  using cut_crlf_line [of "[]" s] by (subst read_head.simps) simp

lemma read_head_headers:
  assumes "\<forall>h \<in> set hs. plain_header h"
  shows "read_head (concat (map header_line hs) @ CR # LF # body) =
    Some (map (\<lambda>h. hdr_name h @ name_value_separator @ hdr_value h) hs, body)"
  using assms
proof (induction hs)
  case Nil
  then show ?case by (simp add: read_head_empty_line)
next
  case (Cons h hs)
  have "CR \<notin> set (hdr_name h @ name_value_separator @ hdr_value h)"
    using Cons.prems by (simp add: plain_header_def name_value_separator_def)
  from read_head_line [OF this] Cons show ?case
    by (simp add: header_line_def name_value_separator_def)
qed

text \<open>The reason phrase: the status line without protocol, three-digit code and CRLF.\<close>

definition reason_phrase :: "status_type \<Rightarrow> string" where
  "reason_phrase s = drop 13 (take (length (status_string s) - 2) (status_string s))"

lemma status_string_line:
  "status_string s = ''HTTP/1.0 '' @ show_nat (status_code s) @ '' '' @ reason_phrase s @ crlf"
  by (cases s; simp only:; code_simp)

lemma reason_phrase_plain: "CR \<notin> set (reason_phrase s)"
  by (cases s; simp only:; code_simp)

lemma show_nat_plain [simp]: "CR \<notin> set (show_nat n)"
  using show_nat_digits [of CR n] by (auto simp: is_digit_char_def)

lemma stock_reply_headers_plain: "h \<in> set (rep_headers (stock_reply s)) \<Longrightarrow> plain_header h"
  by (auto simp: stock_reply_def Let_def plain_header_def)

definition status_line :: "status_type \<Rightarrow> string" where
  "status_line s = ''HTTP/1.0 '' @ show_nat (status_code s) @ '' '' @ reason_phrase s"

lemma status_line_plain: "CR \<notin> set (status_line s)" "status_line s \<noteq> []"
  using reason_phrase_plain by (simp_all add: status_line_def)

lemma wire_status_line:
  "wire r = status_line (rep_status r) @ CR # LF #
     (concat (map header_line (rep_headers r)) @ CR # LF # rep_content r)"
  by (simp add: wire_def status_line_def status_string_line)

lemma read_head_wire:
  assumes "\<forall>h \<in> set (rep_headers r). plain_header h"
  shows "read_head (wire r) =
    Some (status_line (rep_status r) #
          map (\<lambda>h. hdr_name h @ name_value_separator @ hdr_value h) (rep_headers r),
          rep_content r)"
  unfolding wire_status_line
  by (simp add: read_head_line status_line_plain read_head_headers [OF assms])

lemma sent_reply:
  assumes "sent (to_buffers r) out"
  obtains fields where "out = status_line (rep_status r) @ crlf @ fields @ crlf @ rep_content r"
    and "length fields = length (concat (map header_line (rep_headers r)))"
proof -
  let ?fields = "concat (map (\<lambda>h. [Temporary (hdr_name h), Live name_value_separator, Temporary (hdr_value h), Live crlf]) (rep_headers r))"
  have "sent ([Live (status_string (rep_status r))] @ ?fields @ [Live crlf, Live (rep_content r)]) out"
    using assms by (simp add: to_buffers_def)
  then obtain fields where out: "out = status_string (rep_status r) @ fields @ crlf @ rep_content r"
    unfolding sent_append sent_live sent_two_live by auto
  have "length out = length (wire r)" using sent_length [OF assms] by (simp only: buffers_wire)
  then have "length fields = length (concat (map header_line (rep_headers r)))" using out by (simp add: wire_def)
  with out that show thesis by (simp add: status_line_def status_string_line)
qed

section \<open>Properties\<close>



text \<open>
  The dangling buffers can reach the client: of any reply whose first header field has a name the write may send bytes
  from which the client does not read the reply's header lines, although every buffer has its length and everything
  but the names and values is sent as it should be.
\<close>

theorem stale_header_sent:
  assumes "rep_headers r = h # hs" and "hdr_name h \<noteq> []" and "\<forall>h \<in> set (rep_headers r). plain_header h"
  shows "\<exists>out. sent (to_buffers r) out \<and> read_head out \<noteq> read_head (wire r)"
proof -
  obtain c n where name: "hdr_name h = c # n" using assms(2) by (cases "hdr_name h") auto
  define d where "d = (if c = CHR ''a'' then CHR ''b'' else CHR ''a'')"
  let ?h = "h\<lparr>hdr_name := d # n\<rparr>"
  let ?r = "r\<lparr>rep_headers := ?h # hs\<rparr>"
  have d: "d \<noteq> c" "d \<noteq> CR" by (simp_all add: d_def)
  have "sent (to_buffers r) (wire ?r)"
    using sent_wire [of ?r] assms(1) name by (simp add: to_buffers_def)
  moreover have "\<forall>g \<in> set (rep_headers ?r). plain_header g"
    using assms(1,3) name d(2) by (simp add: plain_header_def)
  note read_head_wire [OF this]
  then have "read_head (wire ?r) \<noteq> read_head (wire r)"
    using read_head_wire [OF assms(3)] assms(1) name d(1) by simp
  ultimately show ?thesis by blast
qed

theorem stale_header_sent_witness:
  "\<exists>out. sent (to_buffers (stock_reply ok)) out \<and> read_head out \<noteq> read_head (wire (stock_reply ok))"
proof -
  have plain: "\<forall>h \<in> set (rep_headers (stock_reply ok)). plain_header h" using stock_reply_headers_plain by blast
  show ?thesis
    by (rule stale_header_sent [OF _ _ plain, where h = "make_header ''Content-Length'' (show_nat 0)" and hs = "[make_header ''Content-Type'' ''text/html'']"])
      (simp_all add: stock_reply_def Let_def)
qed

end
