(* ===== verification/Request_Parser.thy ===== *)
theory Request_Parser
  imports Http_Message
begin

text \<open>
  The incremental request parser (\<^verbatim>\<open>request_parser.hpp\<close>, \<^verbatim>\<open>request_parser.cpp\<close>): a state
  machine that consumes one character at a time and fills in a request.
\<close>

section \<open>The machine\<close>

datatype tribool = TTrue | TFalse | Indeterminate

datatype parser_state =
    st_method_start
  | st_method
  | st_uri
  | st_http_version_h
  | st_http_version_t_1
  | st_http_version_t_2
  | st_http_version_p
  | st_http_version_slash
  | st_http_version_major_start
  | st_http_version_major
  | st_http_version_minor_start
  | st_http_version_minor
  | st_expecting_newline_1
  | st_header_line_start
  | st_header_lws
  | st_header_name
  | st_space_before_header_value
  | st_header_value
  | st_expecting_newline_2
  | st_expecting_newline_3
  | st_body

record request_parser =
  p_state :: parser_state
  body_bytes :: uint32

text \<open>
  The constructor sets the state only, so \<^verbatim>\<open>body_bytes_\<close> starts with an arbitrary value.
\<close>

definition new_parser :: "uint32 \<Rightarrow> request_parser" where
  "new_parser b0 = \<lparr>p_state = st_method_start, body_bytes = b0\<rparr>"

definition reset_parser :: "request_parser \<Rightarrow> request_parser" where
  "reset_parser p = p\<lparr>p_state := st_method_start\<rparr>"

definition is_char :: "int \<Rightarrow> bool" where
  "is_char c \<longleftrightarrow> c \<ge> 0 \<and> c \<le> 127"

definition is_ctl :: "int \<Rightarrow> bool" where
  "is_ctl c \<longleftrightarrow> (c \<ge> 0 \<and> c \<le> 31) \<or> c = 127"

definition is_tspecial :: "int \<Rightarrow> bool" where
  "is_tspecial c \<longleftrightarrow> c \<in> (\<lambda>x. int (of_char x)) ` set ([TAB, CHR 0x22, CHR 0x5C] @ ''()<>@,;:/[]?={} '')"

definition is_digit :: "int \<Rightarrow> bool" where
  "is_digit c \<longleftrightarrow> c \<ge> 48 \<and> c \<le> 57"

text \<open>\<^verbatim>\<open>!is_char(input) || is_ctl(input) || is_tspecial(input)\<close>\<close>

definition no_token :: "char \<Rightarrow> bool" where
  "no_token c \<longleftrightarrow> \<not> is_char (schar c) \<or> is_ctl (schar c) \<or> is_tspecial (schar c)"

definition upd_last :: "('a \<Rightarrow> 'a) \<Rightarrow> 'a list \<Rightarrow> 'a list" where
  "upd_last f xs = (if xs = [] then [] else butlast xs @ [f (last xs)])"

definition add_digit :: "uint32 \<Rightarrow> char \<Rightarrow> uint32" where
  "add_digit v c = v * 10 + of_int (schar c) - 48"

text \<open>The largest body, \<^verbatim>\<open>16 * 1024 * 1024\<close>.\<close>

definition max_body :: nat where "max_body = 16 * 1024 * 1024"

abbreviation goto :: "parser_state \<Rightarrow> request_parser \<Rightarrow> request_parser" where
  "goto s p \<equiv> p\<lparr>p_state := s\<rparr>"

definition expect ::
  "char \<Rightarrow> parser_state \<Rightarrow> request_parser \<Rightarrow> request \<Rightarrow> char \<Rightarrow> tribool \<times> request_parser \<times> request" where
  "expect c s p r input = (if input = c then (Indeterminate, goto s p, r) else (TFalse, p, r))"

text \<open>
  The switch of \<^verbatim>\<open>consume\<close>, in three parts: the states of the header lines, those of the empty line
  and the body, and the whole of it with the states of the request line.
\<close>

definition consume_header ::
  "request_parser \<Rightarrow> request \<Rightarrow> char \<Rightarrow> tribool \<times> request_parser \<times> request" where
  "consume_header p r input = (case p_state p of
     st_header_line_start \<Rightarrow>
       if input = CR then (Indeterminate, goto st_expecting_newline_3 p, r)
       else if req_headers r \<noteq> [] \<and> (input = SP \<or> input = TAB)
       then (Indeterminate, goto st_header_lws p, r)
       else if no_token input then (TFalse, p, r)
       else (Indeterminate, goto st_header_name p,
             r\<lparr>req_headers := upd_last (name_push (tolower input)) (req_headers r @ [empty_header])\<rparr>)
   | st_header_lws \<Rightarrow>
       if input = CR then (Indeterminate, goto st_expecting_newline_2 p, r)
       else if input = SP \<or> input = TAB then (Indeterminate, p, r)
       else if is_ctl (schar input) then (TFalse, p, r)
       else (Indeterminate, goto st_header_value p,
             r\<lparr>req_headers := upd_last (value_push input) (req_headers r)\<rparr>)
   | st_header_name \<Rightarrow>
       if input = CHR '':'' then (Indeterminate, goto st_space_before_header_value p, r)
       else if no_token input then (TFalse, p, r)
       else (Indeterminate, p,
             r\<lparr>req_headers := upd_last (name_push (tolower input)) (req_headers r)\<rparr>)
   | st_space_before_header_value \<Rightarrow> expect SP st_header_value p r input
   | st_header_value \<Rightarrow>
       if input = CR then (Indeterminate, goto st_expecting_newline_2 p, r)
       else if is_ctl (schar input) then (TFalse, p, r)
       else (Indeterminate, p, r\<lparr>req_headers := upd_last (value_push input) (req_headers r)\<rparr>)
   | st_expecting_newline_2 \<Rightarrow> expect LF st_header_line_start p r input
   | _ \<Rightarrow> (TFalse, p, r))"

definition consume_content ::
  "request_parser \<Rightarrow> request \<Rightarrow> char \<Rightarrow> tribool \<times> request_parser \<times> request" where
  "consume_content p r input = (case p_state p of
     st_expecting_newline_3 \<Rightarrow>
       if input = LF
       then let clen = atoi (request_get_header r ''content-length'')
            in if sint clen > 0
               then (if sint clen > int max_body then (TFalse, p, r)
                     else (Indeterminate, p\<lparr>body_bytes := clen, p_state := st_body\<rparr>, r))
               else (TTrue, p, r)
       else (TFalse, p, r)
   | st_body \<Rightarrow>
       let r' = r\<lparr>req_content := req_content r @ [input]\<rparr>;
           p' = p\<lparr>body_bytes := body_bytes p - 1\<rparr>
       in if body_bytes p' = 0 then (TTrue, p', r') else (Indeterminate, p', r')
   | _ \<Rightarrow> (TFalse, p, r))"

definition consume ::
  "request_parser \<Rightarrow> request \<Rightarrow> char \<Rightarrow> tribool \<times> request_parser \<times> request" where
  "consume p r input = (case p_state p of
     st_method_start \<Rightarrow>
       if no_token input then (TFalse, p, r)
       else (Indeterminate, goto st_method p, r\<lparr>req_method := req_method r @ [input]\<rparr>)
   | st_method \<Rightarrow>
       if input = SP then (Indeterminate, goto st_uri p, r)
       else if no_token input then (TFalse, p, r)
       else (Indeterminate, p, r\<lparr>req_method := req_method r @ [input]\<rparr>)
   | st_uri \<Rightarrow>
       if input = SP then (Indeterminate, goto st_http_version_h p, r)
       else if is_ctl (schar input) then (TFalse, p, r)
       else (Indeterminate, p, r\<lparr>req_uri := req_uri r @ [input]\<rparr>)
   | st_http_version_h \<Rightarrow> expect (CHR ''H'') st_http_version_t_1 p r input
   | st_http_version_t_1 \<Rightarrow> expect (CHR ''T'') st_http_version_t_2 p r input
   | st_http_version_t_2 \<Rightarrow> expect (CHR ''T'') st_http_version_p p r input
   | st_http_version_p \<Rightarrow> expect (CHR ''P'') st_http_version_slash p r input
   | st_http_version_slash \<Rightarrow>
       if input = CHR ''/''
       then (Indeterminate, goto st_http_version_major_start p,
             r\<lparr>http_version_major := 0, http_version_minor := 0\<rparr>)
       else (TFalse, p, r)
   | st_http_version_major_start \<Rightarrow>
       if is_digit (schar input)
       then (Indeterminate, goto st_http_version_major p,
             r\<lparr>http_version_major := add_digit (http_version_major r) input\<rparr>)
       else (TFalse, p, r)
   | st_http_version_major \<Rightarrow>
       if input = CHR ''.'' then (Indeterminate, goto st_http_version_minor_start p, r)
       else if is_digit (schar input)
       then (Indeterminate, p, r\<lparr>http_version_major := add_digit (http_version_major r) input\<rparr>)
       else (TFalse, p, r)
   | st_http_version_minor_start \<Rightarrow>
       if is_digit (schar input)
       then (Indeterminate, goto st_http_version_minor p,
             r\<lparr>http_version_minor := add_digit (http_version_minor r) input\<rparr>)
       else (TFalse, p, r)
   | st_http_version_minor \<Rightarrow>
       if input = CR then (Indeterminate, goto st_expecting_newline_1 p, r)
       else if is_digit (schar input)
       then (Indeterminate, p, r\<lparr>http_version_minor := add_digit (http_version_minor r) input\<rparr>)
       else (TFalse, p, r)
   | st_expecting_newline_1 \<Rightarrow> expect LF st_header_line_start p r input
   | st_expecting_newline_3 \<Rightarrow> consume_content p r input
   | st_body \<Rightarrow> consume_content p r input
   | _ \<Rightarrow> consume_header p r input)"

lemmas consume_defs = consume_def consume_header_def consume_content_def

text \<open>
  \<^verbatim>\<open>parse\<close> feeds a buffer until the machine decides; it returns what is left of the buffer.
\<close>

fun parse :: "request_parser \<Rightarrow> request \<Rightarrow> string \<Rightarrow> tribool \<times> request_parser \<times> request \<times> string" where
  "parse p r [] = (Indeterminate, p, r, [])"
| "parse p r (c # cs) =
     (case consume p r c of
        (Indeterminate, p', r') \<Rightarrow> parse p' r' cs
      | (res, p', r') \<Rightarrow> (res, p', r', cs))"

section \<open>Feeding the machine\<close>

text \<open>
  \<open>feeds p r s p' r'\<close>: the machine takes all of \<open>s\<close> without deciding and ends in \<open>p'\<close>, \<open>r'\<close>.
\<close>

definition feeds ::
  "request_parser \<Rightarrow> request \<Rightarrow> string \<Rightarrow> request_parser \<Rightarrow> request \<Rightarrow> bool" where
  "feeds p r s p' r' \<longleftrightarrow> (\<forall>rest. parse p r (s @ rest) = parse p' r' rest)"

lemma feeds_Nil: "feeds p r [] p r"
  by (simp add: feeds_def)

lemma feeds_append [trans]: "feeds p r s p' r' \<Longrightarrow> feeds p' r' t p'' r'' \<Longrightarrow> feeds p r (s @ t) p'' r''"
  by (simp add: feeds_def)

lemma feeds_Cons:
  assumes "consume p r c = (Indeterminate, p', r')" and "feeds p' r' s p'' r''"
  shows "feeds p r (c # s) p'' r''"
  using assms by (simp add: feeds_def)

lemma feeds_single: "consume p r c = (Indeterminate, p', r') \<Longrightarrow> feeds p r [c] p' r'"
  by (erule feeds_Cons) (rule feeds_Nil)

lemma feeds_fold:
  assumes "\<And>c r. c \<in> set s \<Longrightarrow> consume p r c = (Indeterminate, p, f c r)"
  shows "feeds p r s p (fold f s r)"
  using assms
proof (induction s arbitrary: r)
  case Nil
  then show ?case by (simp add: feeds_Nil)
next
  case (Cons c s)
  then have "feeds p (f c r) s p (fold f s (f c r))" by simp
  with Cons.prems [of c r] show ?case by (simp add: feeds_Cons)
qed

lemma parse_append:
  "parse p r (xs @ ys) =
     (case parse p r xs of
        (Indeterminate, p', r', _) \<Rightarrow> parse p' r' ys
      | (res, p', r', rest) \<Rightarrow> (res, p', r', rest @ ys))"
  by (induction p r xs rule: parse.induct) (auto split: prod.splits tribool.splits)

lemma upd_last_snoc [simp]: "upd_last f (xs @ [x]) = xs @ [f x]"
  by (simp add: upd_last_def)

lemma no_token_simps [simp]:
  "no_token SP" "no_token TAB" "no_token CR" "no_token LF" "no_token (CHR '':'')"
  by (simp_all add: no_token_def schar_def is_char_def is_ctl_def is_tspecial_def)

lemma is_ctl_simps [simp]: "is_ctl (schar CR)" "is_ctl (schar LF)" "is_ctl (schar NUL)"
  by (simp_all add: is_ctl_def schar_def)

section \<open>Rendering and parsing\<close>

text \<open>The wire form of a request, and the requests the grammar of the machine can carry.\<close>

definition render_header :: "header \<Rightarrow> string" where
  "render_header h = hdr_name h @ '': '' @ hdr_value h @ crlf"

definition render_request :: "request \<Rightarrow> nat \<Rightarrow> nat \<Rightarrow> string" where
  "render_request r major minor =
     req_method r @ '' '' @ req_uri r @ '' HTTP/'' @ show_nat major @ ''.'' @ show_nat minor @ crlf @
     concat (map render_header (req_headers r)) @ crlf @ req_content r"

definition token :: "string \<Rightarrow> bool" where
  "token s \<longleftrightarrow> s \<noteq> [] \<and> (\<forall>c \<in> set s. \<not> no_token c)"

definition no_ctl :: "string \<Rightarrow> bool" where
  "no_ctl s \<longleftrightarrow> (\<forall>c \<in> set s. \<not> is_ctl (schar c))"

definition wf_header :: "header \<Rightarrow> bool" where
  "wf_header h \<longleftrightarrow> token (hdr_name h) \<and> no_ctl (hdr_value h)"

definition lower_header :: "header \<Rightarrow> header" where
  "lower_header h = h\<lparr>hdr_name := to_lower_copy (hdr_name h)\<rparr>"

text \<open>The declared length of the body: what the first Content-Length header says, read by \<^verbatim>\<open>atoi\<close>.\<close>

definition declared_length :: "header list \<Rightarrow> uint32" where
  "declared_length hs = atoi (find_header (map lower_header hs) ''content-length'')"

definition wf_request :: "request \<Rightarrow> bool" where
  "wf_request r \<longleftrightarrow>
     token (req_method r) \<and> no_ctl (req_uri r) \<and> SP \<notin> set (req_uri r) \<and>
     (\<forall>h \<in> set (req_headers r). wf_header h) \<and>
     (if req_content r = [] then sint (declared_length (req_headers r)) \<le> 0
      else sint (declared_length (req_headers r)) = int (length (req_content r)) \<and>
           length (req_content r) \<le> max_body)"

definition parsed :: "request \<Rightarrow> nat \<Rightarrow> nat \<Rightarrow> request" where
  "parsed r major minor =
     r\<lparr>http_version_major := of_nat major, http_version_minor := of_nat minor,
       req_headers := map lower_header (req_headers r)\<rparr>"

lemma feeds_method:
  assumes "token m" and "p_state p = st_method_start"
  shows "feeds p r (m @ '' '') (goto st_uri p) (r\<lparr>req_method := req_method r @ m\<rparr>)"
proof -
  obtain c s where m: "m = c # s" using assms(1) by (cases m) (auto simp: token_def)
  let ?f = "\<lambda>c r. r\<lparr>req_method := req_method r @ [c]\<rparr>"
  let ?q = "goto st_method p"
  have "feeds ?q (?f c r) s ?q (fold ?f s (?f c r))"
    using assms(1) by (intro feeds_fold) (auto simp: consume_defs token_def m)
  moreover have "fold ?f s r = r\<lparr>req_method := req_method r @ s\<rparr>" for r :: request
    by (induction s arbitrary: r) auto
  moreover have "consume ?q r SP = (Indeterminate, goto st_uri p, r)" for r
    by (simp add: consume_defs)
  ultimately have "feeds ?q (?f c r) (s @ '' '') (goto st_uri p) (r\<lparr>req_method := req_method r @ m\<rparr>)"
    using m by (auto intro: feeds_append feeds_single)
  then show ?thesis using assms m by (auto intro!: feeds_Cons simp: consume_defs token_def)
qed

lemma feeds_uri:
  assumes "no_ctl u" and "SP \<notin> set u" and "p_state p = st_uri"
  shows "feeds p r (u @ '' '') (goto st_http_version_h p) (r\<lparr>req_uri := req_uri r @ u\<rparr>)"
proof -
  let ?f = "\<lambda>c r. r\<lparr>req_uri := req_uri r @ [c]\<rparr>"
  have "feeds p r u p (fold ?f u r)"
    using assms by (intro feeds_fold) (auto simp: consume_defs no_ctl_def)
  moreover have "fold ?f u r = r\<lparr>req_uri := req_uri r @ u\<rparr>" for r :: request
    by (induction u arbitrary: r) auto
  moreover have "consume p r SP = (Indeterminate, goto st_http_version_h p, r)" for r
    using assms(3) by (simp add: consume_defs)
  ultimately show ?thesis by (auto intro: feeds_append feeds_single)
qed

lemma schar_digit: "is_digit_char c \<Longrightarrow> schar c = int (of_char c)"
  using digit_char_range [of c] by (simp add: schar_def Let_def)

lemma is_digit_schar: "is_digit_char c \<Longrightarrow> is_digit (schar c)"
  using digit_char_range [of c] by (simp add: is_digit_def schar_digit)

lemma add_digit_of_nat:
  assumes "is_digit_char c"
  shows "add_digit (of_nat a) c = of_nat (a * 10 + (of_char c - 48))"
proof -
  have "of_int (schar c) - 48 = (of_nat (of_char c - 48) :: uint32)"
    using digit_char_range(1) [OF assms] by (simp add: schar_digit [OF assms] of_nat_diff)
  then show ?thesis by (simp add: add_digit_def algebra_simps)
qed

lemma foldl_add_digit:
  "\<forall>c \<in> set ds. is_digit_char c \<Longrightarrow>
     foldl add_digit (of_nat a) ds = of_nat (foldl (\<lambda>a c. a * 10 + (of_char c - 48)) a ds)"
  by (induction ds arbitrary: a) (simp_all add: add_digit_of_nat del: of_nat_add of_nat_mult)

lemma add_digits_show_nat: "foldl add_digit 0 (show_nat n) = of_nat n"
  using foldl_add_digit [of "show_nat n" 0] show_nat_digits [of _ n]
  by (simp add: dec_val_def [symmetric])

lemma feeds_digits:
  assumes digits: "\<forall>c \<in> set ds. is_digit_char c" and "ds \<noteq> []"
    and start: "\<And>c r. is_digit (schar c) \<Longrightarrow> consume p r c = (Indeterminate, q, f c r)"
    and loop: "\<And>c r. is_digit_char c \<Longrightarrow> consume q r c = (Indeterminate, q, f c r)"
  shows "feeds p r ds q (fold f ds r)"
proof -
  obtain d es where ds: "ds = d # es" using assms(2) by (cases ds) auto
  have "feeds q (f d r) es q (fold f es (f d r))"
    using digits loop by (intro feeds_fold) (auto simp: ds)
  then show ?thesis
    using start [of d r] digits by (simp add: ds feeds_Cons is_digit_schar)
qed

lemma feeds_version:
  assumes "p_state p = st_http_version_h"
  shows "feeds p r (''HTTP/'' @ show_nat major @ ''.'' @ show_nat minor @ crlf)
    (goto st_header_line_start p)
    (r\<lparr>http_version_major := of_nat major, http_version_minor := of_nat minor\<rparr>)"
proof -
  let ?maj = "\<lambda>c r. r\<lparr>http_version_major := add_digit (http_version_major r) c\<rparr>"
  let ?min = "\<lambda>c r. r\<lparr>http_version_minor := add_digit (http_version_minor r) c\<rparr>"
  let ?r0 = "r\<lparr>http_version_major := 0, http_version_minor := 0\<rparr>"
  have maj: "fold ?maj ds r = r\<lparr>http_version_major := foldl add_digit (http_version_major r) ds\<rparr>"
    and min: "fold ?min ds r = r\<lparr>http_version_minor := foldl add_digit (http_version_minor r) ds\<rparr>"
    for ds and r :: request
    by (induction ds arbitrary: r) auto
  have dot: "\<not> is_digit_char (CHR ''.'')" and cr: "\<not> is_digit_char CR"
    by (simp_all add: is_digit_char_def)
  have http: "feeds p r ''HTTP/'' (goto st_http_version_major_start p) ?r0"
    using assms by (auto intro!: feeds_Cons feeds_single simp: consume_defs expect_def)
  have one: "feeds (goto st_http_version_major_start p) r (show_nat major)
      (goto st_http_version_major p) (fold ?maj (show_nat major) r)" for r
    using dot by (intro feeds_digits) (auto simp: consume_defs is_digit_schar show_nat_digits)
  have two: "feeds (goto st_http_version_major p) r ''.'' (goto st_http_version_minor_start p) r" for r
    by (rule feeds_single) (simp add: consume_defs)
  have three: "feeds (goto st_http_version_minor_start p) r (show_nat minor)
      (goto st_http_version_minor p) (fold ?min (show_nat minor) r)" for r
    using cr by (intro feeds_digits) (auto simp: consume_defs is_digit_schar show_nat_digits)
  have four: "feeds (goto st_http_version_minor p) r crlf (goto st_header_line_start p) r" for r
    by (auto intro!: feeds_Cons feeds_single simp: consume_defs expect_def)
  show ?thesis
    using feeds_append [OF http feeds_append [OF one feeds_append [OF two feeds_append [OF three four]]]]
    by (simp add: maj min add_digits_show_nat)
qed

lemma feeds_header:
  assumes "wf_header h" and "p_state p = st_header_line_start"
  shows "feeds p r (render_header h) p (r\<lparr>req_headers := req_headers r @ [lower_header h]\<rparr>)"
proof -
  obtain c s where name: "hdr_name h = c # s"
    using assms(1) by (cases "hdr_name h") (auto simp: wf_header_def token_def)
  let ?n = "\<lambda>c r. r\<lparr>req_headers := upd_last (name_push (tolower c)) (req_headers r)\<rparr>"
  let ?v = "\<lambda>c r. r\<lparr>req_headers := upd_last (value_push c) (req_headers r)\<rparr>"
  let ?hdr = "\<lambda>n v. r\<lparr>req_headers := req_headers r @ [\<lparr>hdr_name = n, hdr_value = v\<rparr>]\<rparr>"
  have c: "\<not> no_token c" and s: "\<forall>c \<in> set s. \<not> no_token c" and v: "no_ctl (hdr_value h)"
    using assms(1) name by (auto simp: wf_header_def token_def)
  have "c \<noteq> CR" "c \<noteq> SP" "c \<noteq> TAB" using c by auto
  then have first: "consume p r c = (Indeterminate, goto st_header_name p, ?hdr [tolower c] [])"
    using c assms(2) by (simp add: consume_defs name_push_def empty_header_def)
  have names: "fold ?n s (?hdr n []) = ?hdr (n @ map tolower s) []" for n
    by (induction s arbitrary: n) (simp_all add: name_push_def)
  have vals: "fold ?v w (?hdr n v) = ?hdr n (v @ w)" for n v w
    by (induction w arbitrary: v) (simp_all add: value_push_def)
  have "feeds (goto st_header_name p) (?hdr [tolower c] []) s (goto st_header_name p)
      (fold ?n s (?hdr [tolower c] []))"
    using s by (intro feeds_fold) (auto simp: consume_defs)
  also have "feeds (goto st_header_name p) r' '': '' (goto st_header_value p) r'" for r'
    by (auto intro!: feeds_Cons feeds_single simp: consume_defs expect_def)
  also have "feeds (goto st_header_value p) r' (hdr_value h) (goto st_header_value p)
      (fold ?v (hdr_value h) r')" for r'
    using v by (intro feeds_fold) (auto simp: consume_defs no_ctl_def)
  also have "feeds (goto st_header_value p) r' crlf p r'" for r'
    using assms(2) by (auto intro!: feeds_Cons feeds_single simp: consume_defs expect_def)
  finally have "feeds (goto st_header_name p) (?hdr [tolower c] [])
      (((s @ '': '') @ hdr_value h) @ crlf) p (?hdr (tolower c # map tolower s) (hdr_value h))"
    by (simp only: names vals append_Cons append_Nil)
  from feeds_Cons [OF first this] name show ?thesis
    by (cases h) (simp add: render_header_def name lower_header_def to_lower_copy_def)
qed

lemma feeds_headers:
  assumes "\<forall>h \<in> set hs. wf_header h" and "p_state p = st_header_line_start"
  shows "feeds p r (concat (map render_header hs)) p
    (r\<lparr>req_headers := req_headers r @ map lower_header hs\<rparr>)"
  using assms(1)
proof (induction hs arbitrary: r)
  case Nil
  then show ?case by (simp add: feeds_Nil)
next
  case (Cons h hs)
  have "feeds p r (render_header h) p (r\<lparr>req_headers := req_headers r @ [lower_header h]\<rparr>)"
    using Cons.prems assms(2) by (simp add: feeds_header)
  from feeds_append [OF this Cons.IH] Cons.prems show ?case by simp
qed

lemma parse_body:
  assumes "p_state p = st_body" and "unat (body_bytes p) = length c" and "c \<noteq> []"
  shows "parse p r (c @ rest) =
    (TTrue, p\<lparr>body_bytes := 0\<rparr>, r\<lparr>req_content := req_content r @ c\<rparr>, rest)"
  using assms
proof (induction c arbitrary: p r)
  case Nil
  then show ?case by simp
next
  case (Cons x c)
  let ?p = "p\<lparr>body_bytes := body_bytes p - 1\<rparr>"
  have "body_bytes p \<noteq> 0" using Cons.prems by auto
  then have n: "unat (body_bytes p - 1) = length c"
    using Cons.prems(2) by (simp add: unat_minus_one)
  show ?case
  proof (cases "c = []")
    case True
    then have "body_bytes p - 1 = 0" using n by (simp add: unat_eq_zero)
    with True Cons.prems(1) show ?thesis by (simp add: consume_defs Let_def)
  next
    case False
    then have "body_bytes p - 1 \<noteq> 0" using n by auto
    moreover have "parse ?p r' (c @ rest) = (TTrue, ?p\<lparr>body_bytes := 0\<rparr>,
        r'\<lparr>req_content := req_content r' @ c\<rparr>, rest)" for r'
      using Cons.IH [of ?p r'] Cons.prems(1) n False by simp
    ultimately show ?thesis using Cons.prems(1) by (simp add: consume_defs Let_def)
  qed
qed

lemma uint_of_sint: "0 \<le> sint (w :: uint32) \<Longrightarrow> uint w = sint w"
  using sint_lt [of w] by (simp only: uint_sint) (simp add: take_bit_int_eq_self)

lemma unat_of_sint: "sint (w :: uint32) = int n \<Longrightarrow> unat w = n"
  using uint_of_sint [of w] by (simp only: unat_eq_nat_uint nat_int of_nat_0_le_iff)

lemma parse_after_headers:
  assumes "p_state p = st_header_line_start"
    and "if c = [] then sint (atoi (request_get_header r ''content-length'')) \<le> 0
         else sint (atoi (request_get_header r ''content-length'')) = int (length c) \<and>
              length c \<le> max_body"
  shows "\<exists>p'. parse p r (crlf @ c @ rest) = (TTrue, p', r\<lparr>req_content := req_content r @ c\<rparr>, rest)"
proof (cases "c = []")
  case True
  with assms show ?thesis by (simp add: consume_defs Let_def)
next
  case False
  let ?clen = "atoi (request_get_header r ''content-length'')"
  have clen: "sint ?clen = int (length c)" "length c \<le> max_body" using assms(2) False by auto
  then have "unat ?clen = length c"
    by (intro unat_of_sint)
  then have "parse (p\<lparr>body_bytes := ?clen, p_state := st_body\<rparr>) r (c @ rest) =
      (TTrue, p\<lparr>body_bytes := 0, p_state := st_body\<rparr>, r\<lparr>req_content := req_content r @ c\<rparr>, rest)"
    using False by (simp add: parse_body)
  with assms(1) False clen show ?thesis by (simp add: consume_defs Let_def)
qed

definition blank_request :: request where
  "blank_request =
     \<lparr>req_method = [], req_uri = [], http_version_major = 0, http_version_minor = 0,
      req_headers = [], req_content = []\<rparr>"

text \<open>The version numbers of the request need not be initialised.\<close>

definition no_request :: "request \<Rightarrow> bool" where
  "no_request r \<longleftrightarrow> req_method r = [] \<and> req_uri r = [] \<and> req_headers r = [] \<and> req_content r = []"

lemma parse_render_from:
  assumes "wf_request r" and "no_request r0"
  shows "\<exists>p'. parse (new_parser b0) r0 (render_request r major minor @ rest) =
    (TTrue, p', parsed r major minor, rest)"
proof -
  let ?p = "new_parser b0"
  let ?r1 = "r0\<lparr>req_method := req_method r\<rparr>"
  let ?r2 = "?r1\<lparr>req_uri := req_uri r\<rparr>"
  let ?r3 = "?r2\<lparr>http_version_major := of_nat major, http_version_minor := of_nat minor\<rparr>"
  let ?r4 = "?r3\<lparr>req_headers := map lower_header (req_headers r)\<rparr>"
  let ?q = "goto st_header_line_start ?p"
  let ?head = "concat (map render_header (req_headers r))"
  have "feeds ?p r0 (req_method r @ '' '') (goto st_uri ?p) ?r1"
    using feeds_method [of "req_method r" ?p r0] assms
    by (simp add: wf_request_def new_parser_def no_request_def)
  also have "feeds (goto st_uri ?p) ?r1 (req_uri r @ '' '') (goto st_http_version_h ?p) ?r2"
    using feeds_uri [of "req_uri r" "goto st_uri ?p" ?r1] assms
    by (simp add: wf_request_def no_request_def)
  also have "feeds (goto st_http_version_h ?p) ?r2
      (''HTTP/'' @ show_nat major @ ''.'' @ show_nat minor @ crlf) ?q ?r3"
    using feeds_version [of "goto st_http_version_h ?p" ?r2] by simp
  also have "feeds ?q ?r3 ?head ?q ?r4"
    using feeds_headers [of "req_headers r" ?q ?r3] assms
    by (simp add: wf_request_def no_request_def)
  finally have "parse ?p r0 (render_request r major minor @ rest) =
      parse ?q ?r4 (crlf @ req_content r @ rest)"
    by (simp add: feeds_def render_request_def)
  moreover have "\<exists>p'. parse ?q ?r4 (crlf @ req_content r @ rest) =
      (TTrue, p', ?r4\<lparr>req_content := req_content ?r4 @ req_content r\<rparr>, rest)"
    using assms
    by (intro parse_after_headers)
      (auto simp: wf_request_def declared_length_def request_get_header_def split: if_splits)
  moreover have "?r4\<lparr>req_content := req_content ?r4 @ req_content r\<rparr> = parsed r major minor"
    using assms(2) by (cases r; cases r0) (simp add: parsed_def no_request_def)
  ultimately show ?thesis by simp
qed

lemma parse_render:
  assumes "wf_request r"
  shows "\<exists>p'. parse (new_parser b0) blank_request (render_request r major minor @ rest) =
    (TTrue, p', parsed r major minor, rest)"
  using assms by (rule parse_render_from) (simp add: no_request_def blank_request_def)

section \<open>What the machine has read so far\<close>

definition declared :: "request \<Rightarrow> uint32" where
  "declared r = atoi (request_get_header r ''content-length'')"

definition parser_inv :: "request_parser \<Rightarrow> request \<Rightarrow> bool" where
  "parser_inv p r \<longleftrightarrow>
     (\<forall>c \<in> set (req_method r). \<not> no_token c) \<and>
     (p_state p \<noteq> st_method_start \<longrightarrow> req_method r \<noteq> []) \<and>
     no_ctl (req_uri r) \<and> SP \<notin> set (req_uri r) \<and>
     (\<forall>h \<in> set (req_headers r). wf_header h \<and> lower_header h = h) \<and>
     (p_state p \<in> {st_header_lws, st_header_name, st_space_before_header_value, st_header_value,
                   st_expecting_newline_2} \<longrightarrow> req_headers r \<noteq> []) \<and>
     (p_state p \<noteq> st_body \<longrightarrow> req_content r = []) \<and>
     (p_state p = st_body \<longrightarrow>
        body_bytes p \<noteq> 0 \<and> sint (declared r) \<le> int max_body \<and>
        sint (declared r) = int (length (req_content r)) + int (unat (body_bytes p)))"

lemma lower_letter_token:
  assumes "97 \<le> (of_char c :: nat)" and "(of_char c :: nat) \<le> 122"
  shows "\<not> no_token c"
proof -
  have "schar c = int (of_char c)" using assms by (simp add: schar_def Let_def)
  with assms show ?thesis
    by (auto simp: no_token_def is_char_def is_ctl_def is_tspecial_def)
qed

lemma no_token_tolower: "\<not> no_token c \<Longrightarrow> \<not> no_token (tolower c)"
proof (cases "CHR ''A'' \<le> c \<and> c \<le> CHR ''Z''")
  case True
  then have "65 \<le> (of_char c :: nat)" "(of_char c :: nat) \<le> 90"
    by (simp_all add: le_char_iff del: less_eq_char_simp)
  then have "(of_char (tolower c) :: nat) = of_char c + 32"
    using True unfolding tolower_def by (simp del: less_eq_char_simp)
  with \<open>65 \<le> (of_char c :: nat)\<close> \<open>(of_char c :: nat) \<le> 90\<close> show ?thesis
    by (intro lower_letter_token) simp_all
next
  case False
  then have "tolower c = c" unfolding tolower_def by (simp only: if_False)
  then show "\<not> no_token c \<Longrightarrow> \<not> no_token (tolower c)" by simp
qed

lemma wf_new_header: "\<not> no_token c \<Longrightarrow> wf_header (name_push (tolower c) empty_header)"
  by (simp add: wf_header_def token_def no_ctl_def name_push_def empty_header_def no_token_tolower)

lemma wf_name_push: "wf_header h \<Longrightarrow> \<not> no_token c \<Longrightarrow> wf_header (name_push (tolower c) h)"
  by (auto simp: wf_header_def token_def name_push_def no_token_tolower)

lemma wf_value_push: "wf_header h \<Longrightarrow> \<not> is_ctl (schar c) \<Longrightarrow> wf_header (value_push c h)"
  by (auto simp: wf_header_def no_ctl_def value_push_def)

lemma lower_pushes:
  "lower_header h = h \<Longrightarrow> lower_header (name_push (tolower c) h) = name_push (tolower c) h"
  "lower_header h = h \<Longrightarrow> lower_header (value_push c h) = value_push c h"
  "lower_header empty_header = empty_header"
  by (cases h; simp add: lower_header_def name_push_def value_push_def to_lower_copy_def empty_header_def)+

lemma set_upd_last: "xs \<noteq> [] \<Longrightarrow> x \<in> set (upd_last f xs) \<Longrightarrow> x \<in> set xs \<or> x = f (last xs)"
  by (auto simp: upd_last_def dest: in_set_butlastD)

lemma upd_last_nonempty [simp]: "upd_last f xs = [] \<longleftrightarrow> xs = []"
  by (simp add: upd_last_def)

lemma upd_last_inv:
  assumes "\<forall>h \<in> set hs. P h" and "hs \<noteq> []" and "P (last hs) \<Longrightarrow> P (f (last hs))"
  shows "\<forall>h \<in> set (upd_last f hs). P h"
  using assms set_upd_last [of hs _ f] by auto

lemma parser_inv_init: "parser_inv (new_parser b0) blank_request"
  by (simp add: parser_inv_def new_parser_def blank_request_def no_ctl_def)

lemma parser_inv_start: "no_request r \<Longrightarrow> parser_inv (new_parser b0) r"
  by (simp add: parser_inv_def new_parser_def no_request_def no_ctl_def)

lemmas parser_inv_simps = consume_defs expect_def parser_inv_def no_ctl_def

lemma declared_content [simp]: "declared (r\<lparr>req_content := x\<rparr>) = declared r"
  by (simp add: declared_def request_get_header_def)

lemma parser_inv_headers:
  assumes "parser_inv p r" and "p_state p \<notin> {st_method_start, st_body}"
    and "\<forall>h \<in> set hs. wf_header h \<and> lower_header h = h" and "hs \<noteq> []"
    and "s \<notin> {st_method_start, st_body}"
  shows "parser_inv (p\<lparr>p_state := s\<rparr>) (r\<lparr>req_headers := hs\<rparr>)"
  using assms by (simp add: parser_inv_def)

lemma parser_inv_headers_stay:
  assumes "parser_inv p r" and "p_state p \<notin> {st_method_start, st_body}"
    and "\<forall>h \<in> set hs. wf_header h \<and> lower_header h = h" and "hs \<noteq> []"
  shows "parser_inv p (r\<lparr>req_headers := hs\<rparr>)"
  using assms by (simp add: parser_inv_def)

lemma parser_inv_goto:
  assumes "parser_inv p r" and "p_state p \<notin> {st_method_start, st_body}"
    and "s \<notin> {st_method_start, st_body}" and "req_headers r \<noteq> [] \<or> s = st_expecting_newline_3"
  shows "parser_inv (p\<lparr>p_state := s\<rparr>) r"
  using assms by (auto simp: parser_inv_def)

lemma consume_body_inv:
  assumes "parser_inv p r" and "p_state p = st_body" and "consume p r c = (res, p', r')"
  shows "(res = TTrue \<and> sint (declared r') = int (length (req_content r')) \<and>
            int (length (req_content r')) \<le> int max_body) \<or>
         (res = Indeterminate \<and> p_state p' = st_body \<and> body_bytes p' \<noteq> 0 \<and>
            sint (declared r') = int (length (req_content r')) + int (unat (body_bytes p')))"
proof -
  have "unat (body_bytes p) = Suc (unat (body_bytes p - 1))"
    using assms(1,2) by (metis parser_inv_def Suc_pred' unat_gt_0 unat_minus_one)
  then show ?thesis
    using assms by (auto simp: parser_inv_def consume_defs Let_def split: if_splits)
qed

lemma consume_header_inv:
  assumes "parser_inv p r" and "consume p r c = (Indeterminate, p', r')"
    and "p_state p \<in> {st_header_line_start, st_header_lws, st_header_name, st_header_value}"
  shows "parser_inv p' r'"
proof -
  let ?P = "\<lambda>h. wf_header h \<and> lower_header h = h"
  have hs: "\<forall>h \<in> set (req_headers r). ?P h" using assms(1) by (simp add: parser_inv_def)
  have push: "\<forall>h \<in> set (upd_last (value_push c) (req_headers r)). ?P h"
    if "\<not> is_ctl (schar c)" "req_headers r \<noteq> []"
    using hs that by (intro upd_last_inv) (auto simp: wf_value_push lower_pushes)
  have name: "\<forall>h \<in> set (upd_last (name_push (tolower c)) (req_headers r)). ?P h"
    if "\<not> no_token c" "req_headers r \<noteq> []"
    using hs that by (intro upd_last_inv) (auto simp: wf_name_push lower_pushes)
  have new: "?P (name_push (tolower c) empty_header)" if "\<not> no_token c"
    using that by (simp add: wf_new_header lower_pushes)
  consider "p_state p = st_header_line_start" | "p_state p = st_header_lws"
    | "p_state p = st_header_name" | "p_state p = st_header_value" using assms(3) by blast
  then show ?thesis
  proof cases
    case 1
    with assms(1,2) hs new show ?thesis
      by (auto simp: consume_defs split: if_splits intro!: parser_inv_headers intro: parser_inv_goto)
  next
    case 2
    then have ne: "req_headers r \<noteq> []" using assms(1) by (simp add: parser_inv_def)
    with 2 assms(1,2) push show ?thesis
      by (auto simp: consume_defs split: if_splits intro!: parser_inv_headers intro: parser_inv_goto)
  next
    case 3
    then have ne: "req_headers r \<noteq> []" using assms(1) by (simp add: parser_inv_def)
    with 3 name have "parser_inv p (r\<lparr>req_headers := upd_last (name_push (tolower c)) (req_headers r)\<rparr>)"
      if "\<not> no_token c"
      using that by (intro parser_inv_headers_stay [OF assms(1)]) auto
    with 3 ne assms(1,2) show ?thesis
      by (auto simp: consume_defs split: if_splits intro!: parser_inv_goto)
  next
    case 4
    then have ne: "req_headers r \<noteq> []" using assms(1) by (simp add: parser_inv_def)
    with 4 push have "parser_inv p (r\<lparr>req_headers := upd_last (value_push c) (req_headers r)\<rparr>)"
      if "\<not> is_ctl (schar c)"
      using that by (intro parser_inv_headers_stay [OF assms(1)]) auto
    with 4 ne assms(1,2) show ?thesis
      by (auto simp: consume_defs split: if_splits intro!: parser_inv_goto)
  qed
qed

lemma consume_inv:
  assumes "parser_inv p r" and "consume p r c = (Indeterminate, p', r')"
  shows "parser_inv p' r'"
proof (cases "p_state p \<in> {st_header_line_start, st_header_lws, st_header_name, st_header_value}")
  case True
  with assms show ?thesis by (rule consume_header_inv)
next
  case False
  show ?thesis
  proof (cases "p_state p")
    case st_body
    with consume_body_inv [OF assms(1) _ assms(2)] assms show ?thesis
      by (auto simp: parser_inv_def consume_defs Let_def split: if_splits)
  next
    case st_expecting_newline_3
    let ?clen = "declared r"
    have "0 < sint ?clen \<Longrightarrow> uint ?clen = sint ?clen" by (rule uint_of_sint) simp
    with st_expecting_newline_3 assms show ?thesis
      by (auto simp: parser_inv_def consume_defs Let_def declared_def split: if_splits)
  qed (use assms False in \<open>auto simp: parser_inv_simps split: if_splits\<close>)
qed

text \<open>A request the machine accepts.\<close>

definition accepted_request :: "request \<Rightarrow> bool" where
  "accepted_request r \<longleftrightarrow> wf_request r \<and> map lower_header (req_headers r) = req_headers r"

lemma accepted_requestI:
  assumes "token (req_method r)" "no_ctl (req_uri r)" "SP \<notin> set (req_uri r)"
    and hs: "\<forall>h \<in> set (req_headers r). wf_header h \<and> lower_header h = h"
    and "if req_content r = [] then sint (declared r) \<le> 0
         else sint (declared r) = int (length (req_content r)) \<and> length (req_content r) \<le> max_body"
  shows "accepted_request r"
proof -
  have lower: "map lower_header (req_headers r) = req_headers r"
    using hs by (simp add: map_idI)
  then have "declared_length (req_headers r) = declared r"
    by (simp add: declared_length_def declared_def request_get_header_def)
  with lower assms show ?thesis by (simp add: accepted_request_def wf_request_def)
qed

lemma consume_accepts:
  assumes "parser_inv p r" and "consume p r c = (TTrue, p', r')"
  shows "accepted_request r'"
proof (cases "p_state p")
  case st_body
  have "req_content r' \<noteq> []" "req_method r' = req_method r" "req_uri r' = req_uri r"
      "req_headers r' = req_headers r"
    using assms(2) st_body by (auto simp: consume_defs Let_def split: if_splits)
  with consume_body_inv [OF assms(1) st_body assms(2)] assms(1) st_body show ?thesis
    by (intro accepted_requestI) (auto simp: parser_inv_def token_def)
next
  case st_expecting_newline_3
  with assms show ?thesis
    by (intro accepted_requestI)
      (auto simp: parser_inv_def consume_defs token_def Let_def declared_def split: if_splits)
qed (use assms in \<open>auto simp: consume_defs expect_def split: if_splits\<close>)

lemma parse_accepts:
  "parser_inv p r \<Longrightarrow> parse p r s = (TTrue, p', r', rest) \<Longrightarrow> accepted_request r'"
proof (induction p r s rule: parse.induct)
  case (1 p r)
  then show ?case by simp
next
  case (2 p r c cs)
  show ?case
  proof (cases "consume p r c")
    case (fields res q r1)
    then show ?thesis using 2 consume_accepts [of p r c q r1] consume_inv [of p r c q r1]
      by (cases res) auto
  qed
qed

lemma parse_inv:
  "parser_inv p r \<Longrightarrow> parse p r s = (Indeterminate, p', r', rest) \<Longrightarrow> parser_inv p' r'"
proof (induction p r s rule: parse.induct)
  case (1 p r)
  then show ?case by simp
next
  case (2 p r c cs)
  show ?case
  proof (cases "consume p r c")
    case (fields res q r1)
    then show ?thesis using 2 consume_inv [of p r c q r1] by (cases res) auto
  qed
qed

section \<open>The uninitialised counter\<close>

text \<open>Two machines that can differ only in a counter that is not in use.\<close>

definition same_view :: "request_parser \<Rightarrow> request_parser \<Rightarrow> bool" where
  "same_view p q \<longleftrightarrow> p_state p = p_state q \<and> (p_state p = st_body \<longrightarrow> body_bytes p = body_bytes q)"

lemma consume_same_view:
  assumes "same_view p q"
  shows "fst (consume p r c) = fst (consume q r c) \<and>
         same_view (fst (snd (consume p r c))) (fst (snd (consume q r c))) \<and>
         snd (snd (consume p r c)) = snd (snd (consume q r c))"
  using assms by (cases "p_state p") (auto simp: same_view_def consume_defs expect_def Let_def)

lemma parse_same_view:
  assumes "same_view p q" and "parse p r s = (res, p', r', rest)"
  shows "\<exists>q'. same_view p' q' \<and> parse q r s = (res, q', r', rest)"
  using assms
proof (induction s arbitrary: p q r)
  case Nil
  then show ?case by simp
next
  case (Cons c cs)
  obtain res1 p1 r1 where p1: "consume p r c = (res1, p1, r1)" by (cases "consume p r c") auto
  obtain q1 where q1: "consume q r c = (res1, q1, r1)" "same_view p1 q1"
    using consume_same_view [OF Cons.prems(1), of r c] p1 by (cases "consume q r c") auto
  show ?case
  proof (cases "res1 = Indeterminate")
    case True
    then have "parse p1 r1 cs = (res, p', r', rest)" using Cons.prems(2) p1 by simp
    from Cons.IH [OF q1(2) this] True show ?thesis using q1 by auto
  next
    case False
    with Cons.prems(2) p1 q1 show ?thesis by (cases res1) auto
  qed
qed

section \<open>Properties\<close>

text \<open>
  C19. Parsing inverts rendering: from the wire form of any well-formed request, whatever bytes
  follow it, the machine returns true with that request (header names in lower case, the version
  numbers at 32 bits) and leaves exactly the bytes that follow.
\<close>

theorem parse_render_roundtrip:
  assumes "wf_request r"
  shows "\<exists>p'. parse (new_parser b0) blank_request (render_request r major minor @ rest) =
    (TTrue, p', parsed r major minor, rest)"
  using assms by (rule parse_render)

definition sample_request :: request where
  "sample_request =
     \<lparr>req_method = ''PUT'', req_uri = ''/upload'', http_version_major = 1, http_version_minor = 1,
      req_headers = [make_header ''Content-Length'' (show_nat 2)],
      req_content = ''hi''\<rparr>"

lemma sample_request_wf: "wf_request sample_request"
proof -
  have "to_lower_copy ''Content-Length'' = ''content-length''" by code_simp
  then have "sint (declared_length (req_headers sample_request)) = 2"
    using atoi_show_nat [of 2]
    by (simp add: declared_length_def sample_request_def lower_header_def)
  moreover have "token ''PUT''" "token ''Content-Length''" "no_ctl ''/upload''"
    by (simp_all add: token_def no_token_def no_ctl_def is_char_def is_ctl_def is_tspecial_def schar_def)
  moreover have "no_ctl (show_nat 2)" by code_simp
  ultimately show ?thesis
    by (simp add: wf_request_def sample_request_def wf_header_def max_body_def)
qed

theorem parse_render_roundtrip_witness:
  "\<exists>p'. parse (new_parser 7) blank_request (render_request sample_request 1 1 @ ''GET'') =
    (TTrue, p', parsed sample_request 1 1, ''GET'')"
  using sample_request_wf by (rule parse_render_roundtrip)

text \<open>
  C20. Whatever bytes arrive, a request the machine accepts is well formed: the method is a token,
  the URI has no space and no control character, header names are lower-case tokens and header values
  have no control character, and the body has exactly the declared length, at most 16 MiB. Rendering
  it and parsing the result gives the same request again.
\<close>

theorem parse_accepts_wellformed:
  assumes "parse (new_parser b0) blank_request s = (TTrue, p', r, rest)"
  shows "accepted_request r \<and> length (req_content r) \<le> max_body \<and>
    (\<exists>q. parse (new_parser b0) blank_request
            (render_request r (unat (http_version_major r)) (unat (http_version_minor r))) =
          (TTrue, q, r, []))"
proof -
  let ?major = "unat (http_version_major r)" and ?minor = "unat (http_version_minor r)"
  have acc: "accepted_request r"
    using parser_inv_init assms by (rule parse_accepts)
  then have "parsed r ?major ?minor = r"
    by (cases r) (simp add: parsed_def accepted_request_def)
  moreover have "wf_request r" using acc by (simp add: accepted_request_def)
  ultimately have "\<exists>q. parse (new_parser b0) blank_request (render_request r ?major ?minor) =
      (TTrue, q, r, [])"
    using parse_render [of r b0 ?major ?minor "[]"] by simp
  moreover have "length (req_content r) \<le> max_body"
    using \<open>wf_request r\<close> by (cases "req_content r = []") (simp_all add: wf_request_def)
  ultimately show ?thesis using acc by blast
qed

theorem parse_accepts_wellformed_witness:
  "\<exists>s p' r rest. parse (new_parser 0) blank_request s = (TTrue, p', r, rest) \<and>
     accepted_request r \<and> req_content r = ''hi''"
proof -
  obtain p' where run: "parse (new_parser 0) blank_request (render_request sample_request 1 1 @ []) =
      (TTrue, p', parsed sample_request 1 1, [])"
    using parse_render [OF sample_request_wf] by blast
  moreover have "req_content (parsed sample_request 1 1) = ''hi''"
    by (simp add: parsed_def sample_request_def)
  ultimately show ?thesis using parse_accepts_wellformed [OF run] by blast
qed

text \<open>
  The constructor leaves \<^verbatim>\<open>body_bytes_\<close> uninitialised, and so does \<^verbatim>\<open>reset\<close>, but no behaviour
  depends on it: whatever value it starts with, the machine gives the same verdict on the same request
  with the same bytes left over, and a counter still in use at the end is the same.
\<close>

theorem uninitialised_counter_unread:
  assumes "parse (new_parser b0) r s = (res, p', r', rest)"
  shows "\<exists>q'. parse (reset_parser q) r s = (res, q', r', rest) \<and> p_state q' = p_state p' \<and>
    (p_state p' = st_body \<longrightarrow> body_bytes q' = body_bytes p')"
proof -
  have "same_view (new_parser b0) (reset_parser q)"
    by (simp add: same_view_def new_parser_def reset_parser_def)
  from parse_same_view [OF this assms] show ?thesis by (auto simp: same_view_def)
qed

theorem uninitialised_counter_unread_witness:
  "\<exists>q'. parse (reset_parser \<lparr>p_state = st_body, body_bytes = 5\<rparr>) blank_request ''G'' =
     (Indeterminate, q', blank_request\<lparr>req_method := ''G''\<rparr>, []) \<and> p_state q' = st_method"
proof -
  have "parse (new_parser 0) blank_request ''G'' =
      (Indeterminate, goto st_method (new_parser 0), blank_request\<lparr>req_method := ''G''\<rparr>, [])"
    by (simp add: consume_defs new_parser_def blank_request_def no_token_def is_char_def is_ctl_def
        is_tspecial_def schar_def)
  from uninitialised_counter_unread [OF this] show ?thesis by (auto simp: new_parser_def)
qed

end
