(* ===== verification/Containers.thy ===== *)
theory Containers
  imports Prelude
begin

text \<open>
  \<^verbatim>\<open>std::map\<close> as the program uses it: an association list sorted strictly by key. The locale
  \<open>std_map\<close> states what its clients rely on (what \<^verbatim>\<open>find\<close> returns after an assignment through
  \<^verbatim>\<open>operator[]\<close>, that iteration is in key order, where \<^verbatim>\<open>lower_bound\<close> starts), and the
  clients' lemmas, pagination among them, are proved from that interface only.
\<close>

section \<open>Sorted association lists\<close>

text \<open>\<^verbatim>\<open>m[k] = v\<close>\<close>

fun map_put :: "'k::linorder \<Rightarrow> 'v \<Rightarrow> ('k \<times> 'v) list \<Rightarrow> ('k \<times> 'v) list" where
  "map_put k v [] = [(k, v)]"
| "map_put k v ((k', v') # m) =
     (if k < k' then (k, v) # (k', v') # m
      else if k' < k then (k', v') # map_put k v m
      else (k, v) # m)"

text \<open>\<^verbatim>\<open>m.insert(std::make_pair(k, v))\<close>: a key that is present keeps its value.\<close>

fun map_insert :: "'k::linorder \<Rightarrow> 'v \<Rightarrow> ('k \<times> 'v) list \<Rightarrow> ('k \<times> 'v) list" where
  "map_insert k v [] = [(k, v)]"
| "map_insert k v ((k', v') # m) =
     (if k < k' then (k, v) # (k', v') # m
      else if k' < k then (k', v') # map_insert k v m
      else (k', v') # m)"

text \<open>\<^verbatim>\<open>m.find(k)\<close>\<close>

fun map_find :: "('k::linorder \<times> 'v) list \<Rightarrow> 'k \<Rightarrow> 'v option" where
  "map_find [] k = None"
| "map_find ((k', v') # m) k =
     (if k' < k then map_find m k else if k < k' then None else Some v')"

text \<open>The range from \<^verbatim>\<open>m.lower_bound(k)\<close> to \<^verbatim>\<open>m.end()\<close>.\<close>

fun map_lower_bound :: "('k::linorder \<times> 'v) list \<Rightarrow> 'k \<Rightarrow> ('k \<times> 'v) list" where
  "map_lower_bound [] k = []"
| "map_lower_bound ((k', v') # m) k =
     (if k' < k then map_lower_bound m k else (k', v') # m)"

definition map_ok :: "('k::linorder \<times> 'v) list \<Rightarrow> bool" where
  "map_ok m \<longleftrightarrow> sorted_wrt (<) (map fst m)"

lemma map_ok_Nil [simp]: "map_ok []"
  by (simp add: map_ok_def)

lemma map_ok_Cons [simp]: "map_ok (e # m) \<longleftrightarrow> (\<forall>x \<in> set m. fst e < fst x) \<and> map_ok m"
  by (auto simp: map_ok_def)

lemma map_put_keys: "fst ` set (map_put k v m) = insert k (fst ` set m)"
  by (induction k v m rule: map_put.induct) auto

lemma map_insert_keys: "fst ` set (map_insert k v m) = insert k (fst ` set m)"
  by (induction k v m rule: map_insert.induct) auto

lemma map_put_ok [simp]: "map_ok m \<Longrightarrow> map_ok (map_put k v m)"
proof (induction k v m rule: map_put.induct)
  case (1 k v)
  then show ?case by simp
next
  case (2 k v k' v' m)
  have "\<forall>x \<in> fst ` set (map_put k v m). k' < x" if "k' < k"
    using 2 that by (auto simp: map_put_keys)
  with 2 show ?case by auto
qed

lemma map_insert_ok [simp]: "map_ok m \<Longrightarrow> map_ok (map_insert k v m)"
proof (induction k v m rule: map_insert.induct)
  case (1 k v)
  then show ?case by simp
next
  case (2 k v k' v' m)
  have "\<forall>x \<in> fst ` set (map_insert k v m). k' < x" if "k' < k"
    using 2 that by (auto simp: map_insert_keys)
  with 2 show ?case by auto
qed

lemma map_find_put: "map_find (map_put k v m) k' = (if k' = k then Some v else map_find m k')"
  by (induction k v m rule: map_put.induct) auto

lemma map_find_insert:
  "map_find (map_insert k v m) k' =
     (if k' = k then Some (case map_find m k of None \<Rightarrow> v | Some w \<Rightarrow> w) else map_find m k')"
  by (induction k v m rule: map_insert.induct) auto

lemma map_find_iff: "map_ok m \<Longrightarrow> map_find m k = Some v \<longleftrightarrow> (k, v) \<in> set m"
  by (induction m k rule: map_find.induct) (auto simp: less_not_sym)

lemma map_lower_bound_filter:
  "map_ok m \<Longrightarrow> map_lower_bound m k = filter (\<lambda>e. k \<le> fst e) m"
proof (induction m k rule: map_lower_bound.induct)
  case (1 k)
  then show ?case by simp
next
  case (2 k' v' m k)
  show ?case
  proof (cases "k' < k")
    case True
    with 2 show ?thesis by auto
  next
    case False
    then have "k \<le> fst x" if "x \<in> set m" for x
      using 2 that by force
    with False 2 show ?thesis by (simp add: filter_id_conv)
  qed
qed

section \<open>The interface\<close>

text \<open>
  A page of a container is what one listing request returns: the entries from a starting point on,
  cut after a number of them, together with the key to continue from when entries are left. Reading
  \<open>pages\<close> follows the continuation keys from one page to the next, with a bound on the number of
  requests.
\<close>

definition page_of :: "nat \<Rightarrow> ('k \<times> 'v) list \<Rightarrow> ('k \<times> 'v) list \<times> 'k option" where
  "page_of n rest = (take n rest, if n < length rest then Some (fst (rest ! n)) else None)"

text \<open>A listing request that answers from the lower bound of its starting key.\<close>

definition listing ::
  "('k \<times> 'v) list \<Rightarrow> ('k \<Rightarrow> ('k \<times> 'v) list) \<Rightarrow> nat \<Rightarrow> 'k option \<Rightarrow> ('k \<times> 'v) list \<times> 'k option"
where
  "listing es lb n after = page_of n (case after of None \<Rightarrow> es | Some k \<Rightarrow> lb k)"

fun pages :: "('k option \<Rightarrow> 'e list \<times> 'k option) \<Rightarrow> nat \<Rightarrow> 'k option \<Rightarrow> 'e list option" where
  "pages req 0 after = None"
| "pages req (Suc fuel) after =
     (case req after of
        (es, None) \<Rightarrow> Some es
      | (es, Some k) \<Rightarrow> map_option (\<lambda>rest. es @ rest) (pages req fuel (Some k)))"

locale std_map =
  fixes put :: "'k::linorder \<Rightarrow> 'v \<Rightarrow> 'm \<Rightarrow> 'm"
    and lookup :: "'m \<Rightarrow> 'k \<Rightarrow> 'v option"
    and lower_bound :: "'m \<Rightarrow> 'k \<Rightarrow> ('k \<times> 'v) list"
    and entries :: "'m \<Rightarrow> ('k \<times> 'v) list"
    and invar :: "'m \<Rightarrow> bool"
  assumes lookup_put: "lookup (put k v m) k' = (if k' = k then Some v else lookup m k')"
    and invar_put: "invar m \<Longrightarrow> invar (put k v m)"
    and entries_sorted: "invar m \<Longrightarrow> sorted_wrt (<) (map fst (entries m))"
    and entries_lookup: "invar m \<Longrightarrow> (k, v) \<in> set (entries m) \<longleftrightarrow> lookup m k = Some v"
    and lower_bound_entries: "invar m \<Longrightarrow> lower_bound m k = filter (\<lambda>e. k \<le> fst e) (entries m)"
begin

text \<open>Assigning one value under several keys, as the blob index does.\<close>

lemma lookup_put_all:
  "lookup (fold (\<lambda>k. put k v) ks m) k' = (if k' \<in> set ks then Some v else lookup m k')"
  by (induction ks arbitrary: m) (auto simp: lookup_put)

lemma invar_put_all: "invar m \<Longrightarrow> invar (fold (\<lambda>k. put k v) ks m)"
  by (induction ks arbitrary: m) (auto simp: invar_put)

lemma entries_distinct: "invar m \<Longrightarrow> distinct (map fst (entries m))"
  using entries_sorted strict_sorted_iff by blast

lemma set_entries_put:
  assumes "invar m"
  shows "set (entries (put k v m)) = insert (k, v) {e \<in> set (entries m). fst e \<noteq> k}"
  using assms by (auto simp: entries_lookup invar_put lookup_put split: if_splits)

text \<open>From the \<open>n\<close>-th key on, the lower bound is the rest of the iteration.\<close>

lemma lower_bound_nth:
  assumes "invar m" and "n < length (entries m)"
  shows "lower_bound m (fst (entries m ! n)) = drop n (entries m)"
proof -
  let ?es = "entries m"
  have sorted: "fst (?es ! i) < fst (?es ! j)" if "i < j" "j < length ?es" for i j
    using sorted_wrt_nth_less [OF entries_sorted [OF assms(1)], of i j] that by simp
  have split: "?es = take n ?es @ drop n ?es" by simp
  have "\<not> fst (?es ! n) \<le> fst e" if "e \<in> set (take n ?es)" for e
    using that sorted [of _ n] assms(2) by (fastforce simp: in_set_conv_nth)
  then have low: "filter (\<lambda>e. fst (?es ! n) \<le> fst e) (take n ?es) = []"
    by (simp add: filter_empty_conv)
  have "fst (?es ! n) \<le> fst e" if "e \<in> set (drop n ?es)" for e
  proof -
    from that obtain i where "e = ?es ! (n + i)" "n + i < length ?es"
      by (auto simp: in_set_conv_nth)
    then show ?thesis using sorted [of n "n + i"] by (cases "i = 0") auto
  qed
  then have high: "filter (\<lambda>e. fst (?es ! n) \<le> fst e) (drop n ?es) = drop n ?es"
    by (simp add: filter_id_conv)
  have "lower_bound m (fst (?es ! n)) =
      filter (\<lambda>e. fst (?es ! n) \<le> fst e) (take n ?es @ drop n ?es)"
    using assms(1) by (simp add: lower_bound_entries)
  with low high show ?thesis by (simp only: filter_append append_Nil)
qed

lemma listing_from:
  assumes m: "invar m" and n: "0 < n" and i: "i < length (entries m)"
    and fuel: "length (entries m) - i < fuel * n"
  shows "pages (listing (entries m) (lower_bound m) n) fuel (Some (fst (entries m ! i))) = Some (drop i (entries m))"
  using i fuel
proof (induction fuel arbitrary: i)
  case 0
  then show ?case by simp
next
  case (Suc fuel)
  let ?rest = "drop i (entries m)"
  have page: "listing (entries m) (lower_bound m) n (Some (fst (entries m ! i))) = page_of n ?rest"
    using m Suc.prems(1) by (simp add: listing_def lower_bound_nth)
  show ?case
  proof (cases "n < length ?rest")
    case True
    with Suc.prems have j: "i + n < length (entries m)" by simp
    moreover have "length (entries m) - (i + n) < fuel * n" using Suc.prems n True by simp
    ultimately have "pages (listing (entries m) (lower_bound m) n) fuel (Some (fst (entries m ! (i + n)))) =
        Some (drop (i + n) (entries m))"
      by (rule Suc.IH)
    with True page j show ?thesis
      by (simp add: page_of_def) (metis add.commute append_take_drop_id drop_drop)
  next
    case False
    with page show ?thesis by (simp add: page_of_def)
  qed
qed

lemma listing_complete:
  assumes "invar m" and "0 < n" and "length (entries m) < fuel * n"
  shows "pages (listing (entries m) (lower_bound m) n) fuel None = Some (entries m)"
proof (cases "n < length (entries m)")
  case True
  then obtain f where f: "fuel = Suc f" using assms by (cases fuel) auto
  have "length (entries m) - n < f * n" using assms f True by simp
  then have "pages (listing (entries m) (lower_bound m) n) f (Some (fst (entries m ! n))) = Some (drop n (entries m))"
    using assms True by (intro listing_from) auto
  with f True show ?thesis by (simp add: listing_def page_of_def)
next
  case False
  moreover obtain f where "fuel = Suc f" using assms by (cases fuel) auto
  ultimately show ?thesis by (simp add: listing_def page_of_def)
qed

end

interpretation amap: std_map map_put map_find map_lower_bound "\<lambda>m. m" map_ok
  by unfold_locales
    (auto simp: map_find_put map_find_iff map_lower_bound_filter map_ok_def [symmetric])

end
