(* ===== verification/Config.thy ===== *)
theory Config
  imports Prelude
begin

text \<open>
  The daemon's configuration (\<^verbatim>\<open>Config.hpp\<close>, \<^verbatim>\<open>Config.cpp\<close>) and the way the command line
  of \<^verbatim>\<open>main\<close> (\<^verbatim>\<open>blobserver.cpp\<close>) sets it.
\<close>

datatype SyncMode = get_only | send_only | get_and_send

text \<open>The enumerators' values in the source.\<close>

fun SyncMode_value :: "SyncMode \<Rightarrow> int" where
  "SyncMode_value get_only = 1"
| "SyncMode_value send_only = 2"
| "SyncMode_value get_and_send = 4"

record SyncConfig =
  sync_host_name :: string
  sync_mode :: SyncMode

definition SyncConfig_host_mode :: "string \<Rightarrow> SyncMode \<Rightarrow> SyncConfig" where
  "SyncConfig_host_mode h m = \<lparr>sync_host_name = h, sync_mode = m\<rparr>"

definition SyncConfig_host :: "string \<Rightarrow> SyncConfig" where
  "SyncConfig_host h = SyncConfig_host_mode h get_and_send"

definition SyncConfig_get :: "SyncConfig \<Rightarrow> bool" where
  "SyncConfig_get c = (if sync_mode c = get_only \<or> sync_mode c = get_and_send then True else False)"

definition SyncConfig_send :: "SyncConfig \<Rightarrow> bool" where
  "SyncConfig_send c = (if sync_mode c = send_only \<or> sync_mode c = get_and_send then True else False)"

record Config =
  directory :: string
  ip :: string
  port :: string
  threads :: int
  validate :: bool
  sync_delay :: int
  sync_servers :: "SyncConfig list"
  static_directory :: string

definition Config_default :: Config where
  "Config_default =
     \<lparr>directory = ''/tmp/'', ip = ''0.0.0.0'', port = ''8080'', threads = 2, validate = True,
      sync_delay = 60, sync_servers = [], static_directory = ''''\<rparr>"

text \<open>The setter of the synchronisation peers appends to those already there.\<close>

fun Config_add_sync_servers :: "string list \<Rightarrow> Config \<Rightarrow> Config" where
  "Config_add_sync_servers [] c = c"
| "Config_add_sync_servers (s # ss) c =
     Config_add_sync_servers ss (c\<lparr>sync_servers := sync_servers c @ [SyncConfig_host s]\<rparr>)"

text \<open>
  The parsed command line: what \<^verbatim>\<open>variables_map\<close> holds for each option of \<^verbatim>\<open>main\<close>.
\<close>

record options =
  opt_help :: bool
  opt_directory :: "string option"
  opt_ip :: "string option"
  opt_port :: "string option"
  opt_threads :: "int option"
  opt_sync :: "string list option"
  opt_sync_delay :: "int option"
  opt_static_directory :: "string option"

definition set_opt :: "'a option \<Rightarrow> ('a \<Rightarrow> Config \<Rightarrow> Config) \<Rightarrow> Config \<Rightarrow> Config" where
  "set_opt v f c = (case v of None \<Rightarrow> c | Some x \<Rightarrow> f x c)"

text \<open>
  The configuration \<^verbatim>\<open>main\<close> builds, in its order; \<open>None\<close> is the early \<^verbatim>\<open>return 1\<close> after the
  help text. (\<^verbatim>\<open>ENABLE_STATIC\<close> is on by default and \<^verbatim>\<open>ENABLE_DEBUG_LOAD\<close> is off.)
\<close>

definition main_config :: "options \<Rightarrow> Config option" where
  "main_config vm =
     (let c1 = set_opt (opt_directory vm) (\<lambda>d c. c\<lparr>directory := d\<rparr>) Config_default;
          c2 = (case opt_static_directory vm of
                  Some d \<Rightarrow> c1\<lparr>static_directory := d\<rparr>
                | None \<Rightarrow> c1\<lparr>static_directory := ''./static/''\<rparr>);
          c3 = set_opt (opt_ip vm) (\<lambda>i c. c\<lparr>ip := i\<rparr>) c2;
          c4 = set_opt (opt_port vm) (\<lambda>p c. c\<lparr>port := p\<rparr>) c3;
          c5 = set_opt (opt_sync vm) Config_add_sync_servers c4;
          c6 = set_opt (opt_threads vm) (\<lambda>t c. c\<lparr>threads := t\<rparr>) c5;
          c7 = set_opt (opt_sync_delay vm) (\<lambda>d c. c\<lparr>sync_delay := d\<rparr>) c6
      in if opt_help vm then None else Some c7)"

lemma Config_add_sync_servers_eq:
  "Config_add_sync_servers ss c = c\<lparr>sync_servers := sync_servers c @ map SyncConfig_host ss\<rparr>"
  by (induction ss arbitrary: c) simp_all

lemma set_opt_simps [simp]: "set_opt None f c = c" "set_opt (Some x) f c = f x c"
  by (simp_all add: set_opt_def)

lemma main_config_sync_servers:
  "main_config vm = Some c \<Longrightarrow>
     sync_servers c = map SyncConfig_host (case opt_sync vm of None \<Rightarrow> [] | Some ss \<Rightarrow> ss)"
  by (auto simp: main_config_def set_opt_def Let_def Config_default_def Config_add_sync_servers_eq
      split: if_splits option.splits)

lemma SyncConfig_host_both: "SyncConfig_get (SyncConfig_host h)" "SyncConfig_send (SyncConfig_host h)"
  by (simp_all add: SyncConfig_host_def SyncConfig_host_mode_def SyncConfig_get_def SyncConfig_send_def)

end
