(* ===== verification/Blob_Key.thy ===== *)
theory Blob_Key
  imports Prelude
begin

text \<open>
  Blob references (\<^verbatim>\<open>BlobKey.hpp/.cpp\<close>), the digests they name (\<^verbatim>\<open>Hash.hpp/.cpp\<close>) and the
  in-memory description of a stored blob (\<^verbatim>\<open>Blob.hpp/.cpp\<close>).
\<close>

section \<open>BlobKey\<close>

datatype blob_key = BlobKey (hash_type: string) (hash_value: string)

text \<open>The order of the index: by digest type, then by digest value.\<close>

definition blob_key_less :: "blob_key \<Rightarrow> blob_key \<Rightarrow> bool" where
  "blob_key_less mk1 mk2 \<longleftrightarrow>
     (if hash_type mk1 \<noteq> hash_type mk2 then hash_type mk1 < hash_type mk2
      else hash_value mk1 < hash_value mk2)"

instantiation blob_key :: linorder
begin

definition less_blob_key :: "blob_key \<Rightarrow> blob_key \<Rightarrow> bool" where
  "less_blob_key = blob_key_less"

definition less_eq_blob_key :: "blob_key \<Rightarrow> blob_key \<Rightarrow> bool" where
  "less_eq_blob_key mk1 mk2 \<longleftrightarrow> mk1 < mk2 \<or> mk1 = mk2"

instance
proof
  fix x y z :: blob_key
  show "(x < y) = (x \<le> y \<and> \<not> y \<le> x)"
    by (auto simp: less_blob_key_def blob_key_less_def less_eq_blob_key_def split: if_splits)
  show "x \<le> x" by (simp add: less_eq_blob_key_def)
  show "x \<le> y \<Longrightarrow> y \<le> z \<Longrightarrow> x \<le> z"
    by (auto simp: less_blob_key_def blob_key_less_def less_eq_blob_key_def split: if_splits)
  show "x \<le> y \<Longrightarrow> y \<le> x \<Longrightarrow> x = y"
    by (auto simp: less_blob_key_def blob_key_less_def less_eq_blob_key_def split: if_splits)
  show "x \<le> y \<or> y \<le> x"
    by (cases x; cases y) (auto simp: less_blob_key_def blob_key_less_def less_eq_blob_key_def split: if_splits)
qed

end

definition cmpr_BlobKey :: "blob_key \<Rightarrow> blob_key \<Rightarrow> bool" where
  "cmpr_BlobKey mk1 mk2 \<longleftrightarrow> hash_type mk1 = hash_type mk2 \<and> hash_value mk1 = hash_value mk2"

definition blobref :: "blob_key \<Rightarrow> string" where
  "blobref k = hash_type k @ ''-'' @ hash_value k"

text \<open>Splitting a reference at its first dash, with the position held in an \<^verbatim>\<open>unsigned\<close>.\<close>

definition try_create_blob_key :: "string \<Rightarrow> failure + blob_key option" where
  "try_create_blob_key hash =
     (let split_pos = unsigned_pos (str_find hash ''-'')
      in if \<not> unsigned_is_npos split_pos
         then and_then (substr hash 0 (size_of_unsigned split_pos)) (\<lambda>hash_type.
              and_then (substr_from hash (size_of_unsigned (split_pos + 1))) (\<lambda>encoded_hash.
              Inr (Some (BlobKey hash_type encoded_hash))))
         else Inr None)"

text \<open>\<^verbatim>\<open>substr\<close> never throws there (\<open>try_create_blob_key_returns\<close>), so callers have its value.\<close>

definition create_blob_key :: "string \<Rightarrow> blob_key option" where
  "create_blob_key hash = projr (try_create_blob_key hash)"

lemma create_blob_key_eq:
  "try_create_blob_key hash = Inr (Some (BlobKey (take (unat (unsigned_pos (str_find hash ''-''))) hash)
     (drop (unat (unsigned_pos (str_find hash ''-'') + 1)) hash)))"
  by (simp add: try_create_blob_key_def Let_def substr_after_found)

lemma try_create_blob_key_returns: "try_create_blob_key hash = Inr (create_blob_key hash)"
  by (simp add: create_blob_key_def create_blob_key_eq)

lemma cmpr_BlobKey_eq: "cmpr_BlobKey k1 k2 \<longleftrightarrow> k1 = k2"
  by (cases k1; cases k2) (simp add: cmpr_BlobKey_def)

lemma create_blob_key_split:
  assumes "CHR ''-'' \<notin> set t" and "length t < 2 ^ 32 - 1"
  shows "create_blob_key (t @ CHR ''-'' # v) = Some (BlobKey t v)"
  using assms
  by (simp add: create_blob_key_def create_blob_key_eq str_find_def)

lemma create_blob_key_blobref [simp]:
  assumes "CHR ''-'' \<notin> set (hash_type k)" and "length (hash_type k) < 2 ^ 32 - 1"
  shows "create_blob_key (blobref k) = Some k"
  using create_blob_key_split [OF assms, of "hash_value k"] by (simp add: blobref_def)

lemma blobref_inject:
  assumes "CHR ''-'' \<notin> set (hash_type k)" and "CHR ''-'' \<notin> set (hash_type k')"
    and "blobref k = blobref k'"
  shows "k = k'"
proof -
  have "find_str ''-'' (blobref k) = Some (length (hash_type k))"
    using assms(1) by (simp add: blobref_def)
  moreover have "find_str ''-'' (blobref k') = Some (length (hash_type k'))"
    using assms(2) by (simp add: blobref_def)
  ultimately show ?thesis using assms(3)
    by (cases k; cases k') (simp add: blobref_def)
qed

lemma create_blob_key_no_dash:
  assumes "CHR ''-'' \<notin> set s" and "length s < 2 ^ 32"
  shows "create_blob_key s = Some (BlobKey s s)"
proof -
  have "str_find s ''-'' = npos"
    using assms(1) find_str_char [of "CHR ''-''" s] by (simp add: str_find_def)
  moreover have "unat (- 1 :: uint32) = 2 ^ 32 - 1"
    by (simp add: unsigned_minus_1_eq_mask mask_eq_exp_minus_1)
  ultimately show ?thesis using assms(2)
    by (simp add: create_blob_key_def create_blob_key_eq)
qed

section \<open>Hash\<close>

datatype HashType = sha1 | sha256

text \<open>
  Crypto++'s hex-encoded digests are parameters: \<open>sha1_hex\<close> and \<open>sha256_hex\<close> of a message. The
  functors of \<^verbatim>\<open>Hash.cpp\<close> hand the buffer to \<^verbatim>\<open>CryptoPP::StringSource\<close> as a C string and
  ignore the length they are given, so what is digested ends at the first NUL byte. The other two
  parameters are the host's file system: for which directories \<^verbatim>\<open>create_directories\<close> succeeds and
  which paths can be opened for writing.
\<close>

record host =
  sha1_hex :: "string \<Rightarrow> string"
  sha256_hex :: "string \<Rightarrow> string"
  mkdir_ok :: "string \<Rightarrow> bool"
  open_ok :: "string \<Rightarrow> bool"

definition Sha1 :: "host \<Rightarrow> string \<Rightarrow> string" where
  "Sha1 d buffer = sha1_hex d (c_str buffer)"

definition Sha256 :: "host \<Rightarrow> string \<Rightarrow> string" where
  "Sha256 d buffer = sha256_hex d (c_str buffer)"

definition hash_type_for_name :: "string \<Rightarrow> HashType option" where
  "hash_type_for_name n = None"

definition name_for_hash_type :: "HashType \<Rightarrow> string option" where
  "name_for_hash_type t = None"

text \<open>
  What the program relies on of Crypto++: a digest is printed as a fixed number of upper-case
  hexadecimal digits.
\<close>

definition hex_alphabet :: string where
  "hex_alphabet = ''0123456789ABCDEF''"

definition is_hex :: "nat \<Rightarrow> string \<Rightarrow> bool" where
  "is_hex n s \<longleftrightarrow> length s = n \<and> set s \<subseteq> set hex_alphabet"

definition hex_digests :: "host \<Rightarrow> bool" where
  "hex_digests d \<longleftrightarrow> (\<forall>m. is_hex 40 (sha1_hex d m) \<and> is_hex 64 (sha256_hex d m))"

text \<open>
  A concrete host for examples: the digest of a message is its bytes in hexadecimal, cut or padded
  to the digest's width.
\<close>

definition hex_digit :: "nat \<Rightarrow> char" where
  "hex_digit n = hex_alphabet ! (n mod 16)"

definition sample_digest :: "nat \<Rightarrow> string \<Rightarrow> string" where
  "sample_digest n m =
     take n (concat (map (\<lambda>c. [hex_digit (of_char c div 16), hex_digit (of_char c)]) m) @
             replicate n (CHR ''0''))"

definition sample_host :: host where
  "sample_host =
     \<lparr>sha1_hex = sample_digest 40, sha256_hex = sample_digest 64,
      mkdir_ok = (\<lambda>_. True), open_ok = (\<lambda>_. True)\<rparr>"

lemma hex_digit_in [simp]: "hex_digit n \<in> set hex_alphabet"
  unfolding hex_digit_def by (rule nth_mem) (simp add: hex_alphabet_def)

lemma zero_in_hex [simp]: "CHR ''0'' \<in> set hex_alphabet"
  by (simp add: hex_alphabet_def)

lemma hex_digests_sample: "hex_digests sample_host"
proof -
  have "is_hex n (sample_digest n m)" for n m
    by (auto simp: is_hex_def sample_digest_def dest!: in_set_takeD)
  then show ?thesis by (simp add: hex_digests_def sample_host_def)
qed

section \<open>Blob\<close>

text \<open>
  The set of a blob's references is ordered by \<^verbatim>\<open>strcmp\<close>: strings that agree up to their first
  NUL are the same element.
\<close>

definition strcmp_less :: "string \<Rightarrow> string \<Rightarrow> bool" where
  "strcmp_less a b \<longleftrightarrow> c_str a < c_str b"

fun sset_insert :: "string \<Rightarrow> string list \<Rightarrow> string list" where
  "sset_insert h [] = [h]"
| "sset_insert h (x # xs) =
     (if strcmp_less h x then h # x # xs
      else if strcmp_less x h then x # sset_insert h xs
      else x # xs)"

fun sset_find :: "string \<Rightarrow> string list \<Rightarrow> bool" where
  "sset_find h [] = False"
| "sset_find h (x # xs) =
     (if strcmp_less x h then sset_find h xs else \<not> strcmp_less h x)"

record Blob =
  filePath :: string
  blob_size :: uint32
  hashes :: "string list"

definition new_Blob :: "string \<Rightarrow> Blob" where
  "new_Blob path = \<lparr>filePath = path, blob_size = 0, hashes = []\<rparr>"

definition set_size :: "uint32 \<Rightarrow> Blob \<Rightarrow> Blob" where
  "set_size n b = b\<lparr>blob_size := n\<rparr>"

definition add_hash :: "string \<Rightarrow> Blob \<Rightarrow> Blob" where
  "add_hash h b = b\<lparr>hashes := sset_insert h (hashes b)\<rparr>"

definition is_match :: "Blob \<Rightarrow> string \<Rightarrow> bool" where
  "is_match b h = (if \<not> sset_find h (hashes b) then False else True)"

definition sset_ok :: "string list \<Rightarrow> bool" where
  "sset_ok S \<longleftrightarrow> sorted_wrt strcmp_less S"

lemma strcmp_less_trans: "strcmp_less a b \<Longrightarrow> strcmp_less b c \<Longrightarrow> strcmp_less a c"
  by (simp add: strcmp_less_def)

lemma sset_insert_elem: "x \<in> set (sset_insert h S) \<Longrightarrow> x = h \<or> x \<in> set S"
  by (induction h S rule: sset_insert.induct) (auto split: if_splits)

lemma sset_ok_insert [simp]: "sset_ok S \<Longrightarrow> sset_ok (sset_insert h S)"
  unfolding sset_ok_def
  by (induction h S rule: sset_insert.induct)
    (auto dest: sset_insert_elem intro: strcmp_less_trans)

lemma sset_find_insert:
  "sset_find g (sset_insert h S) \<longleftrightarrow> c_str g = c_str h \<or> sset_find g S"
  by (induction h S rule: sset_insert.induct) (auto simp: strcmp_less_def)

lemma is_match_add_hash:
  "is_match (add_hash h b) g \<longleftrightarrow> c_str g = c_str h \<or> is_match b g"
  by (simp add: is_match_def add_hash_def sset_find_insert)

lemma add_hash_frame [simp]:
  "filePath (add_hash h b) = filePath b" "blob_size (add_hash h b) = blob_size b"
  by (simp_all add: add_hash_def)

lemma fold_add_hash:
  "filePath (fold add_hash hs b) = filePath b"
  "blob_size (fold add_hash hs b) = blob_size b"
  "is_match (fold add_hash hs b) g \<longleftrightarrow> (\<exists>h \<in> set hs. c_str g = c_str h) \<or> is_match b g"
  by (induction hs arbitrary: b) (auto simp: is_match_add_hash)

end
