(* ===== verification/Blob_Index.thy ===== *)
theory Blob_Index
  imports Containers Config Blob_Key
begin

text \<open>
  The index of stored blobs (\<^verbatim>\<open>BlobIndex.hpp\<close>, \<^verbatim>\<open>BlobIndex.cpp\<close>). Its state is the ordered
  map from blob keys to \<^verbatim>\<open>Blob*\<close>, the heap those pointers refer to, and the files below the
  configured directory. Every operation that takes the mutex is one atomic step.
\<close>

section \<open>State\<close>

text \<open>
  A pointer is the position of its object in the heap, which \<^verbatim>\<open>new Blob\<close> extends. \<open>files\<close> maps
  the path of a regular file to its contents.
\<close>

record store =
  blobs :: "(blob_key \<times> nat) list"
  heap :: "Blob list"
  files :: "string \<Rightarrow> string option"

definition empty_store :: "(string \<Rightarrow> string option) \<Rightarrow> store" where
  "empty_store fs = \<lparr>blobs = [], heap = [], files = fs\<rparr>"

section \<open>Operations\<close>

text \<open>The position 0 is in range of every string, so this \<^verbatim>\<open>substr\<close> does not throw.\<close>

definition blob_directory :: "Config \<Rightarrow> string \<Rightarrow> string" where
  "blob_directory cfg hash =
     (let directory = directory cfg;
          directory = (if \<not> ends_with directory ''/'' then directory @ ''/'' else directory);
          first = projr (substr hash 0 3)
      in directory @ first @ ''/'')"

definition create_path :: "host \<Rightarrow> Config \<Rightarrow> string \<Rightarrow> failure + string" where
  "create_path h cfg hash =
     (let directory = blob_directory cfg hash
      in if mkdir_ok h directory then Inr (directory @ hash @ ''.dat'')
         else Inl (Filesystem_error directory))"

fun key_for :: "host \<Rightarrow> string \<Rightarrow> HashType \<Rightarrow> blob_key" where
  "key_for d buffer sha1 = BlobKey ''sha1'' (Sha1 d buffer)"
| "key_for d buffer sha256 = BlobKey ''sha256'' (Sha256 d buffer)"

text \<open>One turn of the loop that files the blob under a key.\<close>

definition register :: "nat \<Rightarrow> blob_key \<Rightarrow> store \<Rightarrow> store" where
  "register b key st =
     st\<lparr>heap := (heap st)[b := add_hash (blobref key) (heap st ! b)],
        blobs := map_put key b (blobs st)\<rparr>"

text \<open>Whether the caller's reference names the content: the check made when one is given.\<close>

definition provided_hash_found :: "string \<Rightarrow> blob_key list \<Rightarrow> bool" where
  "provided_hash_found provided blob_keys =
     (case create_blob_key provided of
        Some _ \<Rightarrow> list_ex (\<lambda>key. blobref key = provided) blob_keys
      | None \<Rightarrow> False)"

definition write_if_absent :: "host \<Rightarrow> string \<Rightarrow> string \<Rightarrow> store \<Rightarrow> store" where
  "write_if_absent h path buffer st =
     (if files st path = None
      then (if open_ok h path then st\<lparr>files := (files st)(path := Some buffer)\<rparr> else st)
      else st)"

text \<open>
  \<^verbatim>\<open>add_blob\<close> with the digest types to file under. The size is stored in an \<^verbatim>\<open>int\<close>. A result
  \<open>Inr None\<close> is the empty optional of a reference that does not match; the object allocated before
  the check stays in the heap.
\<close>

definition add_blob_types ::
  "host \<Rightarrow> Config \<Rightarrow> string option \<Rightarrow> string \<Rightarrow> HashType list \<Rightarrow> store \<Rightarrow>
   (failure + nat option) \<times> store" where
  "add_blob_types h cfg provided_hash bytes hash_types st =
     (if bytes = [] then (Inl Assertion_failed, st)
      else case create_path h cfg (Sha256 h bytes) of
        Inl f \<Rightarrow> (Inl f, st)
      | Inr path \<Rightarrow>
          let b = length (heap st);
              blob = set_size (of_nat (length bytes)) (new_Blob path);
              st1 = st\<lparr>heap := heap st @ [blob]\<rparr>;
              blob_keys = map (key_for h bytes) hash_types
          in if (case provided_hash of
                   Some p \<Rightarrow> \<not> provided_hash_found p blob_keys
                 | None \<Rightarrow> False)
             then (Inr None, st1)
             else (Inr (Some b), write_if_absent h path bytes (fold (register b) blob_keys st1)))"

definition add_blob ::
  "host \<Rightarrow> Config \<Rightarrow> string option \<Rightarrow> string \<Rightarrow> store \<Rightarrow>
   (failure + nat option) \<times> store" where
  "add_blob h cfg provided_hash bytes st =
     add_blob_types h cfg provided_hash bytes [sha1, sha256] st"

definition get_blob :: "store \<Rightarrow> string \<Rightarrow> nat option" where
  "get_blob st hash =
     (case create_blob_key hash of
        Some key \<Rightarrow> map_find (blobs st) key
      | None \<Rightarrow> None)"

definition index_empty :: "store \<Rightarrow> bool" where
  "index_empty st \<longleftrightarrow> blobs st = []"

definition index_size :: "store \<Rightarrow> uint32" where
  "index_size st = of_nat (length (blobs st))"

text \<open>
  \<^verbatim>\<open>paginate\<close> appends to the caller's vector and stops once that holds \<open>count\<close> entries, checking
  after each append; \<^verbatim>\<open>count\<close> is an \<^verbatim>\<open>int\<close> compared with a \<^verbatim>\<open>size_t\<close>.
\<close>

fun paginate_loop ::
  "('e list) \<Rightarrow> size_t \<Rightarrow> 'e list \<Rightarrow> 'e list" where
  "paginate_loop acc count [] = acc"
| "paginate_loop acc count (e # rest) =
     (let acc = acc @ [e]
      in if (of_nat (length acc) :: size_t) \<ge> count then acc else paginate_loop acc count rest)"

definition paginate ::
  "store \<Rightarrow> string option \<Rightarrow> uint32 \<Rightarrow> (blob_key \<times> nat) list \<Rightarrow> (blob_key \<times> nat) list" where
  "paginate st after count acc =
     paginate_loop acc (scast count)
       (case after of
          Some l \<Rightarrow> (case create_blob_key l of
                        Some b \<Rightarrow> map_lower_bound (blobs st) b
                      | None \<Rightarrow> blobs st)
        | None \<Rightarrow> blobs st)"

text \<open>
  The destructor deletes every object the map still refers to, each once: the addresses it frees.
\<close>

definition destroyed :: "store \<Rightarrow> nat set" where
  "destroyed st = snd ` set (blobs st)"

section \<open>Characteristic equations\<close>

definition blob_path :: "Config \<Rightarrow> string \<Rightarrow> string" where
  "blob_path cfg hash = blob_directory cfg hash @ hash @ ''.dat''"

definition keys_of :: "host \<Rightarrow> string \<Rightarrow> blob_key set" where
  "keys_of h content = {key_for h content sha1, key_for h content sha256}"

lemma create_path_Inr: "create_path h cfg d = Inr p \<longleftrightarrow> mkdir_ok h (blob_directory cfg d) \<and> p = blob_path cfg d"
  by (auto simp: create_path_def blob_path_def Let_def)

lemma key_for_in_keys_of [simp]: "key_for h content t \<in> keys_of h content"
  by (cases t) (simp_all add: keys_of_def)

lemma keys_of_dash [simp]: "k \<in> keys_of h content \<Longrightarrow> CHR ''-'' \<notin> set (hash_type k)"
  by (auto simp: keys_of_def)

lemma keys_of_short [simp]: "k \<in> keys_of h content \<Longrightarrow> length (hash_type k) < 2 ^ 32 - 1"
  by (auto simp: keys_of_def)

lemma create_blob_key_keys_of [simp]:
  "k \<in> keys_of h content \<Longrightarrow> create_blob_key (blobref k) = Some k"
  by (intro create_blob_key_blobref keys_of_dash keys_of_short)

lemma register_blobs [simp]: "blobs (register b k st) = map_put k b (blobs st)"
  and register_files [simp]: "files (register b k st) = files st"
  and register_length [simp]: "length (heap (register b k st)) = length (heap st)"
  and register_heap: "heap (register b k st) = (heap st)[b := add_hash (blobref k) (heap st ! b)]"
  by (simp_all add: register_def)

lemma fold_register_frame [simp]:
  "blobs (fold (register b) ks st) = fold (\<lambda>k. map_put k b) ks (blobs st)"
  "files (fold (register b) ks st) = files st"
  "length (heap (fold (register b) ks st)) = length (heap st)"
  by (induction ks arbitrary: st) simp_all

lemma fold_register_heap:
  "b < length (heap st) \<Longrightarrow>
     heap (fold (register b) ks st) = (heap st)[b := fold add_hash (map blobref ks) (heap st ! b)]"
  by (induction ks arbitrary: st) (simp_all add: register_heap)

lemma write_if_absent_frame [simp]:
  "blobs (write_if_absent h p c st) = blobs st"
  "heap (write_if_absent h p c st) = heap st"
  by (simp_all add: write_if_absent_def)

lemma write_if_absent_files:
  "files (write_if_absent h p c st) q =
     (if q = p \<and> files st p = None \<and> open_ok h p then Some c else files st q)"
  by (simp add: write_if_absent_def)

text \<open>The object a successful call leaves behind.\<close>

definition stored_blob :: "host \<Rightarrow> Config \<Rightarrow> string \<Rightarrow> HashType list \<Rightarrow> Blob" where
  "stored_blob h cfg bytes tys =
     fold add_hash (map (\<lambda>t. blobref (key_for h bytes t)) tys)
       (set_size (of_nat (length bytes)) (new_Blob (blob_path cfg (Sha256 h bytes))))"

lemma stored_blob_simps [simp]:
  "filePath (stored_blob h cfg bytes tys) = blob_path cfg (Sha256 h bytes)"
  "blob_size (stored_blob h cfg bytes tys) = of_nat (length bytes)"
  by (simp_all add: stored_blob_def fold_add_hash set_size_def new_Blob_def)

lemma is_match_stored_blob:
  "t \<in> set tys \<Longrightarrow> is_match (stored_blob h cfg bytes tys) (blobref (key_for h bytes t))"
  by (auto simp: stored_blob_def fold_add_hash)

text \<open>Acceptance of the caller's reference.\<close>

definition accepts :: "string option \<Rightarrow> blob_key list \<Rightarrow> bool" where
  "accepts provided ks \<longleftrightarrow>
     (case provided of None \<Rightarrow> True | Some p \<Rightarrow> provided_hash_found p ks)"

lemma provided_hash_found_iff:
  "provided_hash_found p ks \<longleftrightarrow> (\<exists>k \<in> set ks. blobref k = p)"
  by (simp add: provided_hash_found_def create_blob_key_def create_blob_key_eq list_ex_iff)

lemma accepts_None: "accepts None ks"
  by (simp add: accepts_def)

lemma accepts_iff: "accepts provided ks \<longleftrightarrow> (\<forall>p. provided = Some p \<longrightarrow> (\<exists>k \<in> set ks. blobref k = p))"
  by (auto simp: accepts_def provided_hash_found_iff split: option.splits)

lemma add_blob_types_accept:
  assumes "bytes \<noteq> []" and "mkdir_ok h (blob_directory cfg (Sha256 h bytes))"
    and "accepts provided (map (key_for h bytes) tys)"
  shows "add_blob_types h cfg provided bytes tys st =
    (Inr (Some (length (heap st))),
     write_if_absent h (blob_path cfg (Sha256 h bytes)) bytes
       (st\<lparr>heap := heap st @ [stored_blob h cfg bytes tys],
           blobs := fold (\<lambda>k. map_put k (length (heap st))) (map (key_for h bytes) tys) (blobs st)\<rparr>))"
proof -
  let ?b = "length (heap st)"
  let ?blob = "set_size (of_nat (length bytes)) (new_Blob (blob_path cfg (Sha256 h bytes)))"
  let ?st1 = "st\<lparr>heap := heap st @ [?blob]\<rparr>"
  let ?ks = "map (key_for h bytes) tys"
  have reg: "fold (register ?b) ?ks ?st1 =
      st\<lparr>heap := heap st @ [stored_blob h cfg bytes tys],
         blobs := fold (\<lambda>k. map_put k ?b) ?ks (blobs st)\<rparr>"
    by (rule store.equality)
      (simp_all add: fold_register_heap stored_blob_def comp_def del: fold_map)
  have "create_path h cfg (Sha256 h bytes) = Inr (blob_path cfg (Sha256 h bytes))"
    using assms(2) by (simp add: create_path_Inr)
  moreover have "\<not> (case provided of Some p \<Rightarrow> \<not> provided_hash_found p ?ks | None \<Rightarrow> False)"
    using assms(3) by (auto simp: accepts_def split: option.splits)
  ultimately show ?thesis
    using assms(1) reg by (simp add: add_blob_types_def Let_def)
qed

lemma add_blob_types_reject:
  assumes "bytes \<noteq> []" and "mkdir_ok h (blob_directory cfg (Sha256 h bytes))"
    and "\<not> accepts provided (map (key_for h bytes) tys)"
  shows "add_blob_types h cfg provided bytes tys st =
    (Inr None, st\<lparr>heap := heap st @
       [set_size (of_nat (length bytes)) (new_Blob (blob_path cfg (Sha256 h bytes)))]\<rparr>)"
proof -
  have "create_path h cfg (Sha256 h bytes) = Inr (blob_path cfg (Sha256 h bytes))"
    using assms(2) by (simp add: create_path_Inr)
  moreover have "(case provided of Some p \<Rightarrow> \<not> provided_hash_found p (map (key_for h bytes) tys) | None \<Rightarrow> False)"
    using assms(3) by (auto simp: accepts_def split: option.splits)
  ultimately show ?thesis
    using assms(1) by (simp add: add_blob_types_def Let_def)
qed

lemma add_blob_types_fail:
  assumes "bytes = [] \<or> \<not> mkdir_ok h (blob_directory cfg (Sha256 h bytes))"
  shows "\<exists>f. add_blob_types h cfg provided bytes tys st = (Inl f, st)"
  using assms by (auto simp: add_blob_types_def create_path_def Let_def)

text \<open>Every call falls under one of the three.\<close>

lemma add_blob_types_cases:
  obtains (fail) f where "add_blob_types h cfg provided bytes tys st = (Inl f, st)"
  | (reject) "bytes \<noteq> []" "mkdir_ok h (blob_directory cfg (Sha256 h bytes))"
      "\<not> accepts provided (map (key_for h bytes) tys)"
  | (accept) "bytes \<noteq> []" "mkdir_ok h (blob_directory cfg (Sha256 h bytes))"
      "accepts provided (map (key_for h bytes) tys)"
  using add_blob_types_fail by metis

section \<open>Invariants\<close>

text \<open>
  A pointer in the index refers to an allocated object that carries the key's reference, and the
  object describes content with that key: its path is the path of the content's SHA-256 digest.
\<close>

definition entry_ok :: "host \<Rightarrow> Config \<Rightarrow> store \<Rightarrow> blob_key \<Rightarrow> nat \<Rightarrow> bool" where
  "entry_ok h cfg st k a \<longleftrightarrow>
     a < length (heap st) \<and> is_match (heap st ! a) (blobref k) \<and>
     (\<exists>content. content \<noteq> [] \<and> k \<in> keys_of h content \<and>
        filePath (heap st ! a) = blob_path cfg (Sha256 h content) \<and>
        blob_size (heap st ! a) = of_nat (length content))"

definition index_ok :: "host \<Rightarrow> Config \<Rightarrow> store \<Rightarrow> bool" where
  "index_ok h cfg st \<longleftrightarrow>
     map_ok (blobs st) \<and> (\<forall>k a. map_find (blobs st) k = Some a \<longrightarrow> entry_ok h cfg st k a)"

text \<open>A file at the path of a digest holds content with that digest.\<close>

definition files_ok :: "host \<Rightarrow> Config \<Rightarrow> store \<Rightarrow> bool" where
  "files_ok h cfg st \<longleftrightarrow> (\<forall>d c. files st (blob_path cfg d) = Some c \<longrightarrow> Sha256 h c = d)"

text \<open>Every indexed blob has its file.\<close>

definition backed :: "store \<Rightarrow> bool" where
  "backed st \<longleftrightarrow>
     (\<forall>k a. map_find (blobs st) k = Some a \<longrightarrow> files st (filePath (heap st ! a)) \<noteq> None)"

lemma blob_path_inject [simp]: "blob_path cfg d = blob_path cfg d' \<longleftrightarrow> d = d'"
proof
  assume eq: "blob_path cfg d = blob_path cfg d'"
  have three: "unat (3::size_t) = 3" by simp
  have "length (blob_path cfg d) = length (blob_path cfg d')" using eq by simp
  then have "min (length d) 3 + length d = min (length d') 3 + length d'"
    by (simp add: blob_path_def blob_directory_def Let_def three split: if_splits)
  then have len: "length d = length d'" by (simp add: min_def split: if_splits)
  with eq show "d = d'"
    by (simp add: blob_path_def blob_directory_def Let_def three)
qed simp

lemma entry_ok_extend:
  assumes "entry_ok h cfg st k a" and "heap st' = heap st @ new"
  shows "entry_ok h cfg st' k a"
  using assms unfolding entry_ok_def by (auto simp: nth_append)

lemma index_ok_entry: "index_ok h cfg st \<Longrightarrow> map_find (blobs st) k = Some a \<Longrightarrow> entry_ok h cfg st k a"
  by (simp add: index_ok_def)

lemma entry_ok_sha256_path:
  "entry_ok h cfg st (BlobKey ''sha256'' d) a \<Longrightarrow> filePath (heap st ! a) = blob_path cfg d"
  by (auto simp: entry_ok_def keys_of_def)

lemma add_blob_types_index_ok:
  assumes "index_ok h cfg st"
  shows "index_ok h cfg (snd (add_blob_types h cfg provided bytes tys st))"
proof (cases rule: add_blob_types_cases [of h cfg provided bytes tys st])
  case (fail f)
  with assms show ?thesis by simp
next
  case reject
  show ?thesis
    using assms unfolding add_blob_types_reject [OF reject] index_ok_def
    by (auto intro: entry_ok_extend [of h cfg st])
next
  case accept
  let ?st' = "snd (add_blob_types h cfg provided bytes tys st)"
  let ?b = "length (heap st)"
  have heap': "heap ?st' = heap st @ [stored_blob h cfg bytes tys]"
    and blobs': "blobs ?st' = fold (\<lambda>k. map_put k ?b) (map (key_for h bytes) tys) (blobs st)"
    by (simp_all add: add_blob_types_accept [OF accept])
  have "map_ok (blobs ?st')"
    using assms unfolding blobs' by (intro amap.invar_put_all) (simp add: index_ok_def)
  moreover have "entry_ok h cfg ?st' k a" if "map_find (blobs ?st') k = Some a" for k a
  proof (cases "k \<in> set (map (key_for h bytes) tys)")
    case True
    then obtain t where t: "t \<in> set tys" "k = key_for h bytes t" by auto
    have "a = ?b" using that True unfolding blobs' amap.lookup_put_all by simp
    with t accept(1) show ?thesis
      by (auto simp: entry_ok_def heap' is_match_stored_blob intro!: exI [of _ bytes])
  next
    case False
    then have "map_find (blobs st) k = Some a"
      using that unfolding blobs' amap.lookup_put_all by simp
    with assms have "entry_ok h cfg st k a" by (rule index_ok_entry)
    then show ?thesis by (rule entry_ok_extend) (rule heap')
  qed
  ultimately show ?thesis by (simp add: index_ok_def)
qed

lemma add_blob_types_files:
  assumes "bytes \<noteq> []" and "mkdir_ok h (blob_directory cfg (Sha256 h bytes))"
    and "accepts provided (map (key_for h bytes) tys)"
  shows "files (snd (add_blob_types h cfg provided bytes tys st)) q =
    (if q = blob_path cfg (Sha256 h bytes) \<and> files st q = None \<and> open_ok h q
     then Some bytes else files st q)"
  unfolding add_blob_types_accept [OF assms] by (auto simp: write_if_absent_files)

lemma add_blob_types_files_ok:
  assumes "files_ok h cfg st"
  shows "files_ok h cfg (snd (add_blob_types h cfg provided bytes tys st))"
proof (cases rule: add_blob_types_cases [of h cfg provided bytes tys st])
  case (fail f)
  with assms show ?thesis by simp
next
  case reject
  with assms show ?thesis by (simp add: add_blob_types_reject files_ok_def)
next
  case accept
  with assms show ?thesis
    by (auto simp: files_ok_def add_blob_types_files split: if_splits)
qed

lemma add_blob_types_keeps_files:
  assumes "files st p = Some c"
  shows "files (snd (add_blob_types h cfg provided bytes tys st)) p = Some c"
proof (cases rule: add_blob_types_cases [of h cfg provided bytes tys st])
  case (fail f)
  with assms show ?thesis by simp
next
  case reject
  with assms show ?thesis by (simp add: add_blob_types_reject)
next
  case accept
  with assms show ?thesis by (simp add: add_blob_types_files)
qed

lemma add_blob_types_backed:
  assumes "index_ok h cfg st" and "backed st" and "\<And>p. open_ok h p"
  shows "backed (snd (add_blob_types h cfg provided bytes tys st))"
proof (cases rule: add_blob_types_cases [of h cfg provided bytes tys st])
  case (fail f)
  with assms show ?thesis by simp
next
  case reject
  show ?thesis
    using assms unfolding backed_def add_blob_types_reject [OF reject]
    by (auto simp: nth_append dest: index_ok_entry simp: entry_ok_def)
next
  case accept
  let ?st' = "snd (add_blob_types h cfg provided bytes tys st)"
  have heap': "heap ?st' = heap st @ [stored_blob h cfg bytes tys]"
    by (simp add: add_blob_types_accept [OF accept])
  show ?thesis unfolding backed_def
  proof (intro allI impI)
    fix k a assume find: "map_find (blobs ?st') k = Some a"
    show "files ?st' (filePath (heap ?st' ! a)) \<noteq> None"
    proof (cases "k \<in> set (map (key_for h bytes) tys)")
      case True
      then have "a = length (heap st)"
        using find unfolding add_blob_types_accept [OF accept]
        by (simp add: amap.lookup_put_all del: set_map fold_map)
      then show ?thesis using assms(3) by (simp add: heap' add_blob_types_files [OF accept])
    next
      case False
      then have old: "map_find (blobs st) k = Some a"
        using find unfolding add_blob_types_accept [OF accept]
        by (simp add: amap.lookup_put_all del: set_map fold_map)
      have "a < length (heap st)" using index_ok_entry [OF assms(1) old] by (simp add: entry_ok_def)
      moreover obtain c where "files st (filePath (heap st ! a)) = Some c"
        using assms(2) old by (auto simp: backed_def)
      ultimately show ?thesis
        by (simp add: heap' nth_append add_blob_types_keeps_files)
    qed
  qed
qed

section \<open>Reachable indexes\<close>

text \<open>
  The index changes by calls of \<^verbatim>\<open>add_blob\<close> only, whatever their outcome. A reachable index started empty over files
  of which each one at the path of a digest has that digest, as an earlier run of the server leaves them: the server does
  not check this.
\<close>

inductive index_step :: "host \<Rightarrow> Config \<Rightarrow> store \<Rightarrow> store \<Rightarrow> bool" for h cfg where
  add: "add_blob h cfg provided bytes st = (r, st') \<Longrightarrow> index_step h cfg st st'"

inductive reachable :: "host \<Rightarrow> Config \<Rightarrow> store \<Rightarrow> bool" for h cfg where
  init: "files_ok h cfg (empty_store fs) \<Longrightarrow> reachable h cfg (empty_store fs)"
| step: "reachable h cfg st \<Longrightarrow> index_step h cfg st st' \<Longrightarrow> reachable h cfg st'"

inductive_simps index_step_iff: "index_step h cfg st st'"

lemma index_stepE:
  assumes "index_step h cfg st st'"
  obtains provided bytes where "st' = snd (add_blob_types h cfg provided bytes [sha1, sha256] st)"
proof -
  obtain provided bytes r where "add_blob h cfg provided bytes st = (r, st')"
    using assms by (auto simp: index_step_iff)
  then have "st' = snd (add_blob_types h cfg provided bytes [sha1, sha256] st)"
    by (simp add: add_blob_def)
  then show ?thesis by (rule that)
qed

lemma index_step_inv:
  assumes "index_step h cfg st st'" and "index_ok h cfg st" and "files_ok h cfg st"
  shows "index_ok h cfg st' \<and> files_ok h cfg st'"
  using assms(1)
proof (rule index_stepE)
  fix provided bytes
  assume "st' = snd (add_blob_types h cfg provided bytes [sha1, sha256] st)"
  with assms(2,3) show ?thesis
    by (simp add: add_blob_types_index_ok add_blob_types_files_ok)
qed

lemma reachable_inv: "reachable h cfg st \<Longrightarrow> index_ok h cfg st \<and> files_ok h cfg st"
proof (induction rule: reachable.induct)
  case (init fs)
  then show ?case by (simp add: index_ok_def empty_store_def)
next
  case (step st st')
  then show ?case using index_step_inv by blast
qed

text \<open>Without that assumption: a file at the path of a digest has the digest, or was there at the start.\<close>

definition files_from :: "host \<Rightarrow> Config \<Rightarrow> (string \<Rightarrow> string option) \<Rightarrow> store \<Rightarrow> bool" where
  "files_from h cfg fs st \<longleftrightarrow>
     (\<forall>d c. files st (blob_path cfg d) = Some c \<longrightarrow> Sha256 h c = d \<or> fs (blob_path cfg d) = Some c)"

lemma add_blob_types_files_from:
  assumes "files_from h cfg fs st"
  shows "files_from h cfg fs (snd (add_blob_types h cfg provided bytes tys st))"
proof (cases rule: add_blob_types_cases [of h cfg provided bytes tys st])
  case (fail f)
  with assms show ?thesis by simp
next
  case reject
  with assms show ?thesis by (simp add: add_blob_types_reject files_from_def)
next
  case accept
  with assms show ?thesis
    by (auto simp: files_from_def add_blob_types_files split: if_splits)
qed

lemma index_steps_from:
  "(index_step h cfg)\<^sup>*\<^sup>* (empty_store fs) st \<Longrightarrow> index_ok h cfg st \<and> files_from h cfg fs st"
proof (induction rule: rtranclp_induct)
  case base
  then show ?case by (simp add: index_ok_def files_from_def empty_store_def)
next
  case (step s s')
  from step(2) obtain provided bytes where "s' = snd (add_blob_types h cfg provided bytes [sha1, sha256] s)"
    by (rule index_stepE)
  with step(3) show ?case by (simp add: add_blob_types_index_ok add_blob_types_files_from)
qed

section \<open>The content-addressed store\<close>

text \<open>
  The protocol's view of the server: a partial map from keys to contents
  (\<^verbatim>\<open>store\<close>, \<^verbatim>\<open>check\<close>, \<^verbatim>\<open>get\<close>, \<^verbatim>\<open>list\<close> of \<^verbatim>\<open>docs/protocol.markdown\<close>).
\<close>

definition contents :: "store \<Rightarrow> blob_key \<Rightarrow> string option" where
  "contents st k =
     (case map_find (blobs st) k of
        None \<Rightarrow> None
      | Some a \<Rightarrow> files st (filePath (heap st ! a)))"

definition abs_store :: "host \<Rightarrow> string \<Rightarrow> (blob_key \<Rightarrow> string option) \<Rightarrow> blob_key \<Rightarrow> string option" where
  "abs_store h content m k = (if k \<in> keys_of h content then Some content else m k)"

lemma set_key_for [simp]: "key_for h bytes ` set [sha1, sha256] = keys_of h bytes"
  by (simp add: keys_of_def)

lemma add_blob_find:
  assumes "add_blob h cfg provided bytes st = (Inr (Some b), st')"
  shows "map_find (blobs st') k = (if k \<in> keys_of h bytes then Some b else map_find (blobs st) k)"
    and "b = length (heap st)" and "heap st' = heap st @ [stored_blob h cfg bytes [sha1, sha256]]"
proof -
  have "bytes \<noteq> []" "mkdir_ok h (blob_directory cfg (Sha256 h bytes))"
      "accepts provided (map (key_for h bytes) [sha1, sha256])"
    using assms add_blob_types_cases [of h cfg provided bytes "[sha1, sha256]" st]
    by (force simp: add_blob_def add_blob_types_reject)+
  note accept = add_blob_types_accept [OF this, of st]
  from accept assms show "b = length (heap st)"
    and "heap st' = heap st @ [stored_blob h cfg bytes [sha1, sha256]]"
    by (auto simp: add_blob_def simp del: fold_map)
  from accept assms show "map_find (blobs st') k =
      (if k \<in> keys_of h bytes then Some b else map_find (blobs st) k)"
    by (auto simp: add_blob_def keys_of_def map_find_put)
qed

lemma add_blob_success:
  assumes "bytes \<noteq> []" and "mkdir_ok h (blob_directory cfg (Sha256 h bytes))"
    and "accepts provided (map (key_for h bytes) [sha1, sha256])"
  shows "\<exists>st'. add_blob h cfg provided bytes st = (Inr (Some (length (heap st))), st')"
  using add_blob_types_accept [OF assms] by (simp add: add_blob_def del: fold_map)

lemma add_blob_lookup:
  assumes "add_blob h cfg provided bytes st = (Inr (Some b), st')"
  shows "(\<forall>t. get_blob st' (blobref (key_for h bytes t)) = Some b \<and>
              is_match (heap st' ! b) (blobref (key_for h bytes t))) \<and>
         blob_size (heap st' ! b) = of_nat (length bytes) \<and>
         filePath (heap st' ! b) = blob_path cfg (Sha256 h bytes) \<and>
         (\<forall>k. k \<notin> keys_of h bytes \<longrightarrow> map_find (blobs st') k = map_find (blobs st) k)"
proof -
  note after = add_blob_find [OF assms]
  have "t \<in> set [sha1, sha256]" for t by (cases t) simp_all
  then have "is_match (stored_blob h cfg bytes [sha1, sha256]) (blobref (key_for h bytes t))" for t
    by (rule is_match_stored_blob)
  moreover have "create_blob_key (blobref (key_for h bytes t)) = Some (key_for h bytes t)" for t
    by (rule create_blob_key_keys_of [OF key_for_in_keys_of])
  ultimately show ?thesis using after by (simp add: get_blob_def)
qed

lemma paginate_loop_take:
  "length acc < unat c \<Longrightarrow> paginate_loop acc c xs = acc @ take (unat c - length acc) xs"
proof (induction acc c xs rule: paginate_loop.induct)
  case (1 acc count)
  then show ?case by simp
next
  case (2 acc count e rest)
  have "unat (of_nat (length (acc @ [e])) :: size_t) = length (acc @ [e])"
  proof -
    have "unat count < 2 ^ 64" using unsigned_less [of count] by simp
    with "2.prems" have "length (acc @ [e]) < 2 ^ 64" by simp
    then show ?thesis by (simp only: unat_of_nat) simp
  qed
  then have ge: "(of_nat (length (acc @ [e])) :: size_t) \<ge> count \<longleftrightarrow> unat count \<le> length (acc @ [e])"
    by (simp only: word_le_nat_alt)
  show ?case
  proof (cases "unat count \<le> length (acc @ [e])")
    case True
    with "2.prems" have "unat count - length acc = 1" by simp
    with True ge show ?thesis by (simp add: Let_def)
  next
    case False
    have "unat count - length acc = Suc (unat count - length (acc @ [e]))"
      using "2.prems" by simp
    with "2.IH" [OF refl] False ge show ?thesis by (simp add: Let_def)
  qed
qed

lemma unat_scast_pos:
  assumes "0 \<le> sint (c :: uint32)"
  shows "unat (scast c :: size_t) = unat c"
proof -
  have lt: "sint c < 2 ^ 31" using sint_lt [of c] by simp
  have "uint c = sint c"
    using assms lt by (simp only: uint_sint) (simp add: take_bit_int_eq_self)
  moreover have "uint (scast c :: size_t) = sint c mod 2 ^ 64"
    by (simp only: scast_eq uint_word_of_int) simp
  moreover have "sint c mod 2 ^ 64 = sint c" using assms lt by simp
  ultimately show ?thesis by (simp only: unat_eq_nat_uint)
qed

lemma add_blob_contents:
  assumes ok: "index_ok h cfg st" and "backed st"
    and add: "add_blob h cfg provided bytes st = (Inr (Some b), st')"
    and path: "files st (blob_path cfg (Sha256 h bytes)) \<in> {None, Some bytes}"
    and "open_ok h (blob_path cfg (Sha256 h bytes))"
  shows "contents st' = abs_store h bytes (contents st)"
proof
  fix k
  note after = add_blob_find [OF add]
  have args: "bytes \<noteq> []" "mkdir_ok h (blob_directory cfg (Sha256 h bytes))"
      "accepts provided (map (key_for h bytes) [sha1, sha256])"
    using add add_blob_types_cases [of h cfg provided bytes "[sha1, sha256]" st]
    by (force simp: add_blob_def add_blob_types_reject)+
  have st': "st' = snd (add_blob_types h cfg provided bytes [sha1, sha256] st)"
    using add by (simp add: add_blob_def)
  have files': "files st' q = (if q = blob_path cfg (Sha256 h bytes) then Some bytes else files st q)" for q
    using path assms(5) by (auto simp: st' add_blob_types_files [OF args])
  show "contents st' k = abs_store h bytes (contents st) k"
  proof (cases "k \<in> keys_of h bytes")
    case True
    then show ?thesis by (simp add: contents_def abs_store_def after files')
  next
    case False
    have "files st' (filePath (heap st' ! a)) = files st (filePath (heap st ! a))"
      if "map_find (blobs st) k = Some a" for a
    proof -
      have "a < length (heap st)" using index_ok_entry [OF ok that] by (simp add: entry_ok_def)
      moreover have "files st (filePath (heap st ! a)) \<noteq> None"
        using \<open>backed st\<close> that by (auto simp: backed_def)
      ultimately show ?thesis using path by (auto simp: after nth_append files')
    qed
    with False show ?thesis
      by (auto simp: contents_def abs_store_def after split: option.splits)
  qed
qed

lemma add_blob_stores_accepted:
  assumes "index_ok h cfg st" and "backed st" and "bytes \<noteq> []"
    and "\<And>d. mkdir_ok h d" and "\<And>q. open_ok h q"
    and "files st (blob_path cfg (Sha256 h bytes)) \<in> {None, Some bytes}"
    and acc: "accepts provided (map (key_for h bytes) [sha1, sha256])"
  shows "\<exists>b st'. add_blob h cfg provided bytes st = (Inr (Some b), st') \<and>
    index_ok h cfg st' \<and> backed st' \<and> contents st' = abs_store h bytes (contents st) \<and>
    files st' = (files st)(blob_path cfg (Sha256 h bytes) := Some bytes)"
proof -
  obtain b st' where add: "add_blob h cfg provided bytes st = (Inr (Some b), st')"
    using add_blob_success [OF assms(3,4) acc] by blast
  then have st': "st' = snd (add_blob_types h cfg provided bytes [sha1, sha256] st)"
    by (simp add: add_blob_def)
  have "files st' = (files st)(blob_path cfg (Sha256 h bytes) := Some bytes)"
    unfolding st' using assms(5,6) by (auto simp: add_blob_types_files [OF assms(3,4) acc])
  moreover have "index_ok h cfg st'" "backed st'"
    unfolding st' by (intro add_blob_types_index_ok add_blob_types_backed assms)+
  moreover have "contents st' = abs_store h bytes (contents st)"
    using assms add by (intro add_blob_contents) auto
  ultimately show ?thesis using add by blast
qed

lemmas add_blob_stores = add_blob_stores_accepted [OF _ _ _ _ _ _ accepts_None]

lemma contents_get_blob:
  "create_blob_key r = Some k \<Longrightarrow>
     contents st k = (case get_blob st r of None \<Rightarrow> None | Some a \<Rightarrow> files st (filePath (heap st ! a)))"
  by (simp add: contents_def get_blob_def)

lemma paginate_take:
  assumes "map_ok (blobs st)" and "0 < sint count" and "create_blob_key r = Some b"
  shows "paginate st None count [] = take (unat count) (blobs st)"
    and "paginate st (Some r) count [] = take (unat count) (map_lower_bound (blobs st) b)"
proof -
  have "unat (scast count :: size_t) = unat count" using assms(2) by (simp add: unat_scast_pos)
  moreover have "0 < unat count" using assms(2) by (metis gr0I less_irrefl signed_0 unat_eq_zero)
  ultimately show "paginate st None count [] = take (unat count) (blobs st)"
    and "paginate st (Some r) count [] = take (unat count) (map_lower_bound (blobs st) b)"
    using assms(3) by (simp_all add: paginate_def paginate_loop_take)
qed

section \<open>An example\<close>

definition sample_store :: store where
  "sample_store = snd (add_blob sample_host Config_default None ''hi'' (empty_store (\<lambda>_. None)))"

lemma reachable_sample_store: "reachable sample_host Config_default sample_store"
proof (rule reachable.step)
  show "reachable sample_host Config_default (empty_store (\<lambda>_. None))"
    by (rule reachable.init) (simp add: files_ok_def empty_store_def)
  show "index_step sample_host Config_default (empty_store (\<lambda>_. None)) sample_store"
    unfolding sample_store_def by (rule index_step.add) (rule prod.collapse [symmetric])
qed

section \<open>Properties\<close>

text \<open>
  Printing and parsing of references are inverse: the reference of a key whose digest type has
  no dash parses back to the key, and whatever key a string with a dash parses to prints as that
  string (positions up to \<open>2\<^sup>3\<^sup>2 - 2\<close>, which the 32-bit position can hold).
\<close>

theorem blob_key_roundtrip:
  assumes "CHR ''-'' \<notin> set (hash_type k)" and "length (hash_type k) < 2 ^ 32 - 1"
    and "CHR ''-'' \<in> set s" and "length s < 2 ^ 32 - 1"
  shows "create_blob_key (blobref k) = Some k \<and>
    (\<exists>k'. create_blob_key s = Some k' \<and> blobref k' = s)"
proof
  show "create_blob_key (blobref k) = Some k" using assms(1,2) by simp
  obtain i where i: "find_str ''-'' s = Some i"
    using assms(3) find_str_char [of "CHR ''-''" s] by auto
  from find_str_Some_split [OF this]
  have s: "s = take i s @ CHR ''-'' # drop (Suc i) s" and "CHR ''-'' \<notin> set (take i s)" by auto
  then have "create_blob_key s = Some (BlobKey (take i s) (drop (Suc i) s))"
    using assms(4) create_blob_key_split [of "take i s" "drop (Suc i) s"] by simp
  with s show "\<exists>k'. create_blob_key s = Some k' \<and> blobref k' = s"
    by (simp add: blobref_def)
qed

theorem blob_key_roundtrip_witness:
  "create_blob_key (blobref (BlobKey ''sha1'' ''0A'')) = Some (BlobKey ''sha1'' ''0A'') \<and>
   (\<exists>k'. create_blob_key ''sha256-FF'' = Some k' \<and> blobref k' = ''sha256-FF'')"
  using blob_key_roundtrip [of "BlobKey ''sha1'' ''0A''" "''sha256-FF''"] by simp

text \<open>
  A string without a dash is no reference, and \<^verbatim>\<open>create_blob_key\<close> is meant to return an empty
  optional for it. It never does: the truncated \<^verbatim>\<open>npos\<close> passes the test, and the key it builds
  has the whole string as its type and as its value.
\<close>

theorem create_blob_key_without_dash:
  assumes "CHR ''-'' \<notin> set s" and "length s < 2 ^ 32"
  shows "create_blob_key s = Some (BlobKey s s)"
  using assms by (rule create_blob_key_no_dash)

theorem create_blob_key_without_dash_witness:
  "create_blob_key ''index.html'' = Some (BlobKey ''index.html'' ''index.html'')"
  using create_blob_key_without_dash [of "''index.html''"] by simp

text \<open>
  C21. Every index reachable from an empty one over files that match their digests is well formed: the map is sorted by key, no pointer dangles, each
  object carries the references it is filed under, and each file at the path of a digest holds
  content with that digest, as the server computes it.
\<close>

theorem reachable_index_ok:
  assumes "reachable h cfg st"
  shows "index_ok h cfg st \<and> files_ok h cfg st"
  using assms by (rule reachable_inv)

theorem reachable_index_ok_witness:
  "index_ok sample_host Config_default sample_store \<and> files_ok sample_host Config_default sample_store"
  using reachable_index_ok [OF reachable_sample_store] .

text \<open>
  C24. What is served under a \<^verbatim>\<open>sha256\<close> reference: after any calls of \<^verbatim>\<open>add_blob\<close> on a store that started over any
  files whatever, content served under \<^verbatim>\<open>sha256-d\<close> has \<^verbatim>\<open>d\<close> as the server's digest of it (of its bytes up to the first
  NUL), or else it is a file that was at the path of \<^verbatim>\<open>d\<close> before the start and was never checked.
\<close>

theorem served_content_has_digest:
  assumes "(index_step h cfg)\<^sup>*\<^sup>* (empty_store fs) st" and "get_blob st (''sha256-'' @ d) = Some a"
    and "files st (filePath (heap st ! a)) = Some c"
  shows "Sha256 h c = d \<or> fs (blob_path cfg d) = Some c"
proof -
  have inv: "index_ok h cfg st" "files_from h cfg fs st"
    using index_steps_from [OF assms(1)] by simp_all
  have "create_blob_key (''sha256-'' @ d) = Some (BlobKey ''sha256'' d)"
    using create_blob_key_split [of "''sha256''" d] by simp
  with assms(2) have "map_find (blobs st) (BlobKey ''sha256'' d) = Some a"
    by (simp add: get_blob_def)
  then have "filePath (heap st ! a) = blob_path cfg d"
    using entry_ok_sha256_path index_ok_entry [OF inv(1)] by blast
  with assms(3) inv(2) show ?thesis by (simp add: files_from_def)
qed

theorem served_content_has_digest_witness:
  "Sha256 sample_host ''hi'' = sample_digest 64 ''hi'' \<or>
   (\<lambda>_. None) (blob_path Config_default (sample_digest 64 ''hi'')) = Some ''hi''"
proof -
  have "(index_step sample_host Config_default)\<^sup>*\<^sup>* (empty_store (\<lambda>_. None)) sample_store"
    unfolding sample_store_def by (rule r_into_rtranclp, rule index_step.add) (rule prod.collapse [symmetric])
  moreover have "get_blob sample_store (''sha256-'' @ sample_digest 64 ''hi'') = Some 0"
    by code_simp
  moreover have "files sample_store (filePath (heap sample_store ! 0)) = Some ''hi''"
    by code_simp
  ultimately show ?thesis by (rule served_content_has_digest)
qed

text \<open>
  A successful \<^verbatim>\<open>add_blob\<close> files one and the same object under the SHA-1 and the SHA-256
  reference of the bytes; the object has the bytes' size, the path of the SHA-256 digest and matches
  both references. Every other key keeps what it had.
\<close>

theorem add_blob_then_get:
  assumes "add_blob h cfg provided bytes st = (Inr (Some b), st')"
  shows "(\<forall>t. get_blob st' (blobref (key_for h bytes t)) = Some b \<and>
              is_match (heap st' ! b) (blobref (key_for h bytes t))) \<and>
         blob_size (heap st' ! b) = of_nat (length bytes) \<and>
         filePath (heap st' ! b) = blob_path cfg (Sha256 h bytes) \<and>
         (\<forall>k. k \<notin> keys_of h bytes \<longrightarrow> map_find (blobs st') k = map_find (blobs st) k)"
  using assms by (rule add_blob_lookup)

theorem add_blob_then_get_witness:
  "get_blob sample_store (blobref (key_for sample_host ''hi'' sha1)) = Some 0 \<and>
   blob_size (heap sample_store ! 0) = 2"
proof -
  have "add_blob sample_host Config_default None ''hi'' (empty_store (\<lambda>_. None)) =
      (Inr (Some 0), sample_store)"
    by (simp add: sample_store_def prod_eq_iff) code_simp
  from add_blob_then_get [OF this] show ?thesis by (simp del: key_for.simps)
qed

text \<open>
  C35. With a reference given, nonempty bytes whose directory can be made are accepted exactly when the reference is one of the two
  they have; otherwise the call returns an empty optional and neither the index nor any file
  changes.
\<close>

theorem add_blob_verifies_reference:
  assumes "bytes \<noteq> []" and "mkdir_ok h (blob_directory cfg (Sha256 h bytes))"
  shows "(if p \<in> blobref ` keys_of h bytes
          then fst (add_blob h cfg (Some p) bytes st) = Inr (Some (length (heap st)))
          else fst (add_blob h cfg (Some p) bytes st) = Inr None \<and>
               blobs (snd (add_blob h cfg (Some p) bytes st)) = blobs st \<and>
               files (snd (add_blob h cfg (Some p) bytes st)) = files st)"
proof (cases "p \<in> blobref ` keys_of h bytes")
  case True
  then have "accepts (Some p) (map (key_for h bytes) [sha1, sha256])"
    by (auto simp: accepts_iff keys_of_def)
  from add_blob_success [OF assms this, of st] True show ?thesis by auto
next
  case False
  then have "\<not> accepts (Some p) (map (key_for h bytes) [sha1, sha256])"
    by (auto simp: accepts_iff keys_of_def)
  from add_blob_types_reject [OF assms this, of st] False show ?thesis
    by (simp add: add_blob_def)
qed

theorem add_blob_verifies_reference_witness:
  "fst (add_blob sample_host Config_default (Some ''sha1-00'') ''hi'' sample_store) = Inr None"
proof -
  have "''sha1-00'' \<notin> blobref ` keys_of sample_host ''hi''"
    unfolding keys_of_def by code_simp
  with add_blob_verifies_reference [of "''hi''" sample_host Config_default "''sha1-00''" sample_store]
  show ?thesis by (simp add: sample_host_def)
qed

text \<open>
  C22. The store refines the protocol's immutable content-addressed map: over a well-formed index of which every blob has
  its file, if the file of the bytes' digest is absent or already holds the bytes, and can be written, a successful
  \<^verbatim>\<open>add_blob\<close> makes exactly the two keys of the bytes map to them and leaves every other key's content as it was.
\<close>

theorem add_blob_refines_store:
  assumes ok: "index_ok h cfg st" and "backed st"
    and add: "add_blob h cfg provided bytes st = (Inr (Some b), st')"
    and path: "files st (blob_path cfg (Sha256 h bytes)) \<in> {None, Some bytes}"
    and "open_ok h (blob_path cfg (Sha256 h bytes))"
  shows "contents st' = abs_store h bytes (contents st)"
  using assms by (rule add_blob_contents)

theorem add_blob_refines_store_witness:
  "contents sample_store = abs_store sample_host ''hi'' (contents (empty_store (\<lambda>_. None)))"
proof (rule add_blob_refines_store)
  show "index_ok sample_host Config_default (empty_store (\<lambda>_. None))"
    by (simp add: index_ok_def empty_store_def)
  show "backed (empty_store (\<lambda>_. None))" by (simp add: backed_def empty_store_def)
  show "add_blob sample_host Config_default None ''hi'' (empty_store (\<lambda>_. None)) =
      (Inr (Some 0), sample_store)"
    by (simp add: sample_store_def prod_eq_iff) code_simp
  show "files (empty_store (\<lambda>_. None)) (blob_path Config_default (Sha256 sample_host ''hi''))
      \<in> {None, Some ''hi''}" by (simp add: empty_store_def)
  show "open_ok sample_host (blob_path Config_default (Sha256 sample_host ''hi''))"
    by (simp add: sample_host_def)
qed

text \<open>
  The content under a \<^verbatim>\<open>sha256\<close> key never changes once it is there, whatever calls follow.
\<close>

theorem sha256_content_immutable:
  assumes "(index_step h cfg)\<^sup>*\<^sup>* st st'" and "index_ok h cfg st"
    and "contents st (BlobKey ''sha256'' d) = Some c"
  shows "contents st' (BlobKey ''sha256'' d) = Some c"
proof -
  let ?k = "BlobKey ''sha256'' d"
  have "index_ok h cfg st' \<and> files st' (blob_path cfg d) = Some c \<and> map_find (blobs st') ?k \<noteq> None"
    using assms(1)
  proof (induction rule: rtranclp_induct)
    case base
    then show ?case using assms(2,3)
      by (auto simp: contents_def split: option.splits dest!: index_ok_entry entry_ok_sha256_path)
  next
    case (step s s')
    from step(2) obtain provided bytes
      where s': "s' = snd (add_blob_types h cfg provided bytes [sha1, sha256] s)"
      by (rule index_stepE)
    have "map_find (blobs s') ?k \<noteq> None"
      using step(3) unfolding s'
      by (cases rule: add_blob_types_cases [of h cfg provided bytes "[sha1, sha256]" s])
        (auto simp: add_blob_types_reject add_blob_types_accept map_find_put)
    with step show ?case unfolding s'
      by (simp add: add_blob_types_index_ok add_blob_types_keeps_files)
  qed
  then obtain a where "map_find (blobs st') ?k = Some a" "entry_ok h cfg st' ?k a"
      "files st' (blob_path cfg d) = Some c"
    by (auto dest: index_ok_entry)
  then show ?thesis by (auto simp: contents_def dest: entry_ok_sha256_path)
qed

theorem sha256_content_immutable_witness:
  "contents (snd (add_blob sample_host Config_default None ''other'' sample_store))
     (BlobKey ''sha256'' (sample_digest 64 ''hi'')) = Some ''hi''"
proof (rule sha256_content_immutable)
  show "(index_step sample_host Config_default)\<^sup>*\<^sup>* sample_store
      (snd (add_blob sample_host Config_default None ''other'' sample_store))"
    by (rule r_into_rtranclp, rule index_step.add) (rule prod.collapse [symmetric])
  show "index_ok sample_host Config_default sample_store"
    using reachable_inv [OF reachable_sample_store] ..
  show "contents sample_store (BlobKey ''sha256'' (sample_digest 64 ''hi'')) = Some ''hi''"
    by code_simp
qed

text \<open>
  C38. Two different byte strings that agree up to their first NUL byte are the same blob to the
  index, although no digest collides: after uploading one and then the other, both references of
  the second lead to the first one's bytes, under the second one's size.
\<close>

theorem nul_bytes_collide:
  assumes "c_str x = c_str y" and "x \<noteq> []" and "y \<noteq> []"
    and "\<And>d. mkdir_ok h d" and "\<And>p. open_ok h p"
    and "files st (blob_path cfg (Sha256 h x)) = None"
    and "st2 = snd (add_blob h cfg None y (snd (add_blob h cfg None x st)))"
  shows "\<exists>b. get_blob st2 (blobref (key_for h y t)) = Some b \<and>
             files st2 (filePath (heap st2 ! b)) = Some x \<and>
             blob_size (heap st2 ! b) = of_nat (length y)"
proof -
  let ?tys = "[sha1, sha256]"
  let ?st1 = "snd (add_blob h cfg None x st)"
  have same: "Sha256 h y = Sha256 h x" using assms(1) by (simp add: Sha256_def)
  have acc: "accepts None ks" for ks by (simp add: accepts_def)
  have x: "files ?st1 (blob_path cfg (Sha256 h x)) = Some x"
    using add_blob_types_files [OF assms(2) assms(4) acc, of cfg ?tys st] assms(5,6)
    by (simp add: add_blob_def)
  obtain st' where add: "add_blob h cfg None y ?st1 = (Inr (Some (length (heap ?st1))), st')"
    using add_blob_success [OF assms(3) assms(4) acc] by blast
  then have st2: "st2 = st'" using assms(7) by simp
  have "files st' (blob_path cfg (Sha256 h x)) = Some x"
    using add_blob_types_keeps_files [OF x, of h cfg None y ?tys] add by (simp add: add_blob_def)
  with add_blob_lookup [OF add] same show ?thesis by (auto simp: st2)
qed

theorem nul_bytes_collide_witness:
  "\<exists>b. get_blob (snd (add_blob sample_host Config_default None [CHR ''a'', NUL, CHR ''c'']
             (snd (add_blob sample_host Config_default None [CHR ''a'', NUL] (empty_store (\<lambda>_. None))))))
          (blobref (key_for sample_host [CHR ''a'', NUL, CHR ''c''] sha1)) = Some b \<and>
       files (snd (add_blob sample_host Config_default None [CHR ''a'', NUL, CHR ''c'']
             (snd (add_blob sample_host Config_default None [CHR ''a'', NUL] (empty_store (\<lambda>_. None))))))
         (filePath (heap (snd (add_blob sample_host Config_default None [CHR ''a'', NUL, CHR ''c'']
             (snd (add_blob sample_host Config_default None [CHR ''a'', NUL] (empty_store (\<lambda>_. None)))))) ! b)) =
       Some [CHR ''a'', NUL]"
proof -
  let ?st2 = "snd (add_blob sample_host Config_default None [CHR ''a'', NUL, CHR ''c'']
             (snd (add_blob sample_host Config_default None [CHR ''a'', NUL] (empty_store (\<lambda>_. None)))))"
  have "\<exists>b. get_blob ?st2 (blobref (key_for sample_host [CHR ''a'', NUL, CHR ''c''] sha1)) = Some b \<and>
      files ?st2 (filePath (heap ?st2 ! b)) = Some [CHR ''a'', NUL] \<and>
      blob_size (heap ?st2 ! b) = of_nat (length [CHR ''a'', NUL, CHR ''c''])"
    by (rule nul_bytes_collide [where st = "empty_store (\<lambda>_. None)" and cfg = Config_default])
      (simp_all add: c_str_def sample_host_def empty_store_def)
  then show ?thesis by blast
qed

text \<open>
  A rejected upload leaks: the object allocated for it stays in the heap, and the index's
  destructor frees the same objects as before the call, not that one.
\<close>

theorem rejected_blob_leaks:
  assumes "index_ok h cfg st" and "add_blob h cfg provided bytes st = (Inr None, st')"
  shows "length (heap st') = Suc (length (heap st)) \<and> destroyed st' = destroyed st \<and>
         length (heap st) \<notin> destroyed st'"
proof -
  have args: "bytes \<noteq> []" "mkdir_ok h (blob_directory cfg (Sha256 h bytes))"
      "\<not> accepts provided (map (key_for h bytes) [sha1, sha256])"
    using assms(2) add_blob_types_cases [of h cfg provided bytes "[sha1, sha256]" st]
    by (force simp: add_blob_def add_blob_types_accept)+
  have "a < length (heap st)" if "(k, a) \<in> set (blobs st)" for k a
    using assms(1) that amap.entries_lookup [of "blobs st" k a] index_ok_entry [OF assms(1), of k a]
    by (simp add: index_ok_def entry_ok_def)
  then show ?thesis
    using add_blob_types_reject [OF args, of st] assms(2) by (fastforce simp: add_blob_def destroyed_def)
qed

theorem rejected_blob_leaks_witness:
  "length (heap sample_store) \<notin>
     destroyed (snd (add_blob sample_host Config_default (Some ''sha1-00'') ''hi'' sample_store))"
proof -
  have "index_ok sample_host Config_default sample_store"
    using reachable_inv [OF reachable_sample_store] ..
  moreover have "fst (add_blob sample_host Config_default (Some ''sha1-00'') ''hi'' sample_store) = Inr None"
    by code_simp
  then have "add_blob sample_host Config_default (Some ''sha1-00'') ''hi'' sample_store =
      (Inr None, snd (add_blob sample_host Config_default (Some ''sha1-00'') ''hi'' sample_store))"
    by (simp add: prod_eq_iff)
  ultimately show ?thesis by (blast dest: rejected_blob_leaks)
qed

text \<open>
  A page holds the first \<^verbatim>\<open>count\<close> entries, in key order, of those not before the reference
  it starts from; the entry of that reference itself is the first one.
\<close>

theorem paginate_spec:
  assumes "map_ok (blobs st)" and "0 < sint count" and "create_blob_key r = Some b"
  shows "paginate st None count [] = take (unat count) (blobs st) \<and>
         paginate st (Some r) count [] = take (unat count) (filter (\<lambda>e. b \<le> fst e) (blobs st))"
  using paginate_take [OF assms] assms(1) by (simp add: amap.lower_bound_entries)

theorem paginate_spec_witness:
  "paginate sample_store None 1 [] = take 1 (blobs sample_store)"
proof -
  have "map_ok (blobs sample_store)"
    using reachable_inv [OF reachable_sample_store] by (simp add: index_ok_def)
  moreover have "create_blob_key ''sha1-0'' = Some (BlobKey ''sha1'' ''0'')" by code_simp
  ultimately show ?thesis using paginate_spec [of sample_store 1 "''sha1-0''"] by simp
qed

end
