(* ===== verification/Qi.thy ===== *)
theory Qi
  imports Prelude Containers
begin

text \<open>
  The parser generator the sources use for query strings and multi-part bodies is Boost.Spirit.Qi,
  whose code is not part of the repository. The grammars of the sources are values of the type \<open>qi\<close>
  below; the engine that runs them is an argument \<open>run\<close> of every operation that parses, and
  \<open>qi_engine run\<close> states what its documentation promises of each combinator: a parsing expression
  either succeeds, with the attribute it synthesises and the unread rest, or fails without consuming.
  The attribute is the sequence of items put into the caller's container. A part that fails in the
  middle leaves what it already put there (the documentation of \<^verbatim>\<open>qi::hold\<close>); the repetitions parse
  each element into a fresh value, which a failing element does not add.
\<close>

section \<open>Grammars and attributes\<close>

datatype qi =
    QLit string
  | QSet string
  | QAscii
  | QEol
  | QSeq qi qi
  | QAlt qi qi
  | QStar qi
  | QPlus qi
  | QOpt qi
  | QDiff qi qi
  | QStr qi
  | QPair qi

text \<open>
  \<open>QStr\<close> and \<open>QPair\<close> are rules whose attribute is a \<^verbatim>\<open>std::string\<close> and a pair of strings. What a
  rule's body puts into a string are characters and other strings, appended.
\<close>

datatype item = Ch char | Str string | Pr string string

fun item_chars :: "item \<Rightarrow> string" where
  "item_chars (Ch c) = [c]"
| "item_chars (Str s) = s"
| "item_chars (Pr k v) = []"

definition as_string :: "item list \<Rightarrow> string" where
  "as_string xs = concat (map item_chars xs)"

fun as_strings :: "item list \<Rightarrow> string list" where
  "as_strings [] = []"
| "as_strings (Str s # xs) = s # as_strings xs"
| "as_strings (x # xs) = as_strings xs"

definition as_pair :: "item list \<Rightarrow> item" where
  "as_pair xs = (case as_strings xs of [] \<Rightarrow> Pr [] [] | [k] \<Rightarrow> Pr k [] | k # v # _ \<Rightarrow> Pr k v)"

text \<open>Pairs go into a \<^verbatim>\<open>std::map\<close> by \<^verbatim>\<open>insert\<close>: the first of two equal keys stays.\<close>

fun as_map :: "item list \<Rightarrow> (string \<times> string) list \<Rightarrow> (string \<times> string) list" where
  "as_map [] m = m"
| "as_map (Pr k v # xs) m = as_map xs (map_insert k v m)"
| "as_map (x # xs) m = as_map xs m"

text \<open>The sets of \<^verbatim>\<open>qi::char_\<close>: single characters and ranges.\<close>

fun in_spec :: "string \<Rightarrow> char \<Rightarrow> bool" where
  "in_spec [] c = False"
| "in_spec [a] c = (a = c)"
| "in_spec [a, b] c = (a = c \<or> b = c)"
| "in_spec (a # d # b # cs) c =
     (if d = CHR ''-'' then (a \<le> c \<and> c \<le> b) \<or> in_spec cs c else a = c \<or> in_spec (d # b # cs) c)"

definition is_ascii :: "char \<Rightarrow> bool" where
  "is_ascii c \<longleftrightarrow> (of_char c :: nat) < 128"

text \<open>\<^verbatim>\<open>eol\<close>: CRLF, CR or LF; the rest after it, if there is one.\<close>

fun eol_rest :: "string \<Rightarrow> string option" where
  "eol_rest [] = None"
| "eol_rest (c # cs) =
     (if c = LF then Some cs
      else if c = CR then Some (case cs of d # ds \<Rightarrow> if d = LF then ds else cs | [] \<Rightarrow> cs)
      else None)"

type_synonym outcome = "bool \<times> item list \<times> string"
type_synonym engine = "qi \<Rightarrow> string \<Rightarrow> outcome"

definition one_char :: "(char \<Rightarrow> bool) \<Rightarrow> string \<Rightarrow> outcome" where
  "one_char P s = (case s of c # cs \<Rightarrow> if P c then (True, [Ch c], cs) else (False, [], s) | [] \<Rightarrow> (False, [], s))"

definition q_lit :: "string \<Rightarrow> string \<Rightarrow> outcome" where
  "q_lit t s = (if starts_with s t then (True, [], drop (length t) s) else (False, [], s))"

definition q_eol :: "string \<Rightarrow> outcome" where
  "q_eol s = (case eol_rest s of Some r \<Rightarrow> (True, [], r) | None \<Rightarrow> (False, [], s))"

definition q_seq :: "(string \<Rightarrow> outcome) \<Rightarrow> (string \<Rightarrow> outcome) \<Rightarrow> string \<Rightarrow> outcome" where
  "q_seq f g s =
     (case f s of
        (False, xs, _) \<Rightarrow> (False, xs, s)
      | (True, xs, r) \<Rightarrow> (case g r of (False, ys, _) \<Rightarrow> (False, xs @ ys, s)
                                  | (True, ys, r') \<Rightarrow> (True, xs @ ys, r')))"

definition q_alt :: "(string \<Rightarrow> outcome) \<Rightarrow> (string \<Rightarrow> outcome) \<Rightarrow> string \<Rightarrow> outcome" where
  "q_alt f g s =
     (case f s of
        (True, xs, r) \<Rightarrow> (True, xs, r)
      | (False, xs, _) \<Rightarrow> (case g s of (True, ys, r) \<Rightarrow> (True, xs @ ys, r)
                                   | (False, ys, _) \<Rightarrow> (False, xs @ ys, s)))"

definition q_opt :: "(string \<Rightarrow> outcome) \<Rightarrow> string \<Rightarrow> outcome" where
  "q_opt f s = (case f s of (True, xs, r) \<Rightarrow> (True, xs, r) | (False, xs, _) \<Rightarrow> (True, xs, s))"

definition q_diff :: "(string \<Rightarrow> outcome) \<Rightarrow> (string \<Rightarrow> outcome) \<Rightarrow> string \<Rightarrow> outcome" where
  "q_diff f g s = (if fst (g s) then (False, [], s) else f s)"

definition q_rule :: "(item list \<Rightarrow> item) \<Rightarrow> (string \<Rightarrow> outcome) \<Rightarrow> string \<Rightarrow> outcome" where
  "q_rule h f s = (case f s of (b, xs, r) \<Rightarrow> (b, [h xs], r))"

text \<open>One turn of a repetition: \<open>k\<close> continues after an element that consumed something.\<close>

definition q_turn :: "(string \<Rightarrow> outcome) \<Rightarrow> (string \<Rightarrow> outcome) \<Rightarrow> string \<Rightarrow> outcome" where
  "q_turn f k s =
     (case f s of
        (False, _, _) \<Rightarrow> (True, [], s)
      | (True, xs, r) \<Rightarrow> (case k r of (_, ys, r') \<Rightarrow> (True, xs @ ys, r')))"

section \<open>What the engine promises\<close>

text \<open>
  The clause for the repetition is limited to elements that consume something: one that succeeds
  without consuming makes the engine loop forever.
\<close>

definition qi_engine :: "engine \<Rightarrow> bool" where
  "qi_engine run \<longleftrightarrow>
     (\<forall>t. run (QLit t) = q_lit t) \<and>
     (\<forall>spec. run (QSet spec) = one_char (in_spec spec)) \<and>
     run QAscii = one_char is_ascii \<and>
     run QEol = q_eol \<and>
     (\<forall>a b. run (QSeq a b) = q_seq (run a) (run b)) \<and>
     (\<forall>a b. run (QAlt a b) = q_alt (run a) (run b)) \<and>
     (\<forall>a. run (QOpt a) = q_opt (run a)) \<and>
     (\<forall>a b. run (QDiff a b) = q_diff (run a) (run b)) \<and>
     (\<forall>a. run (QPlus a) = q_seq (run a) (run (QStar a))) \<and>
     (\<forall>a. run (QStr a) = q_rule (\<lambda>xs. Str (as_string xs)) (run a)) \<and>
     (\<forall>a. run (QPair a) = q_rule as_pair (run a)) \<and>
     (\<forall>a s. (fst (run a s) \<longrightarrow> length (snd (snd (run a s))) < length s) \<longrightarrow>
        run (QStar a) s = q_turn (run a) (run (QStar a)) s)"

section \<open>An engine\<close>

text \<open>A direct evaluator, which stops a repetition at an element that consumes nothing.\<close>

fun star_loop :: "nat \<Rightarrow> (string \<Rightarrow> outcome) \<Rightarrow> string \<Rightarrow> outcome" where
  "star_loop 0 f s = (True, [], s)"
| "star_loop (Suc n) f s =
     (if fst (f s) \<and> length (snd (snd (f s))) \<ge> length s then (True, [], s)
      else q_turn f (star_loop n f) s)"

primrec peg :: engine where
  "peg (QLit t) = q_lit t"
| "peg (QSet spec) = one_char (in_spec spec)"
| "peg QAscii = one_char is_ascii"
| "peg QEol = q_eol"
| "peg (QSeq a b) = q_seq (peg a) (peg b)"
| "peg (QAlt a b) = q_alt (peg a) (peg b)"
| "peg (QStar a) = (\<lambda>s. star_loop (Suc (length s)) (peg a) s)"
| "peg (QPlus a) = q_seq (peg a) (\<lambda>s. star_loop (Suc (length s)) (peg a) s)"
| "peg (QOpt a) = q_opt (peg a)"
| "peg (QDiff a b) = q_diff (peg a) (peg b)"
| "peg (QStr a) = q_rule (\<lambda>xs. Str (as_string xs)) (peg a)"
| "peg (QPair a) = q_rule as_pair (peg a)"

lemma star_loop_enough:
  "length s < n \<Longrightarrow> length s < m \<Longrightarrow> star_loop n f s = star_loop m f s"
proof (induction n arbitrary: m s)
  case 0
  then show ?case by simp
next
  case (Suc n)
  obtain m' where m: "m = Suc m'" using Suc.prems by (cases m) auto
  have "star_loop n f (snd (snd (f s))) = star_loop m' f (snd (snd (f s)))"
    if "length (snd (snd (f s))) < length s"
    using that Suc.prems m by (intro Suc.IH) auto
  then show ?case by (auto simp: m q_turn_def split: prod.splits bool.splits)
qed

lemma qi_engine_peg: "qi_engine peg"
proof -
  have "peg (QStar a) s = q_turn (peg a) (peg (QStar a)) s"
    if "fst (peg a s) \<longrightarrow> length (snd (snd (peg a s))) < length s" for a s
  proof -
    have "star_loop (length s) (peg a) (snd (snd (peg a s))) =
        star_loop (Suc (length (snd (snd (peg a s))))) (peg a) (snd (snd (peg a s)))"
      if "length (snd (snd (peg a s))) < length s"
      using that by (intro star_loop_enough) auto
    with that show ?thesis by (auto simp: q_turn_def not_le split: prod.splits bool.splits)
  qed
  then show ?thesis unfolding qi_engine_def by (intro conjI allI impI) (simp_all del: star_loop.simps)
qed

section \<open>Running grammars\<close>

lemma qi_engineD:
  assumes "qi_engine run"
  shows "run (QLit t) = q_lit t" "run (QSet spec) = one_char (in_spec spec)"
    "run QAscii = one_char is_ascii" "run QEol = q_eol"
    "run (QSeq a b) = q_seq (run a) (run b)" "run (QAlt a b) = q_alt (run a) (run b)"
    "run (QOpt a) = q_opt (run a)" "run (QDiff a b) = q_diff (run a) (run b)"
    "run (QPlus a) = q_seq (run a) (run (QStar a))"
    "run (QStr a) = q_rule (\<lambda>xs. Str (as_string xs)) (run a)" "run (QPair a) = q_rule as_pair (run a)"
  using assms unfolding qi_engine_def by blast+

lemma run_star_stop:
  assumes "qi_engine run" and "\<not> fst (run a s)"
  shows "run (QStar a) s = (True, [], s)"
proof -
  have "run (QStar a) s = q_turn (run a) (run (QStar a)) s"
    using assms unfolding qi_engine_def by blast
  with assms(2) show ?thesis by (auto simp: q_turn_def split: prod.splits bool.splits)
qed

lemma run_star_step:
  assumes "qi_engine run" and "run a s = (True, xs, r)" and "length r < length s"
    and "run (QStar a) r = (True, ys, r')"
  shows "run (QStar a) s = (True, xs @ ys, r')"
proof -
  have "run (QStar a) s = q_turn (run a) (run (QStar a)) s"
    using assms unfolding qi_engine_def by (metis fst_conv snd_conv)
  with assms(2,4) show ?thesis by (simp add: q_turn_def)
qed

text \<open>A repetition over a list of pieces, each of which gives its own items.\<close>

lemma run_star_pieces:
  assumes "qi_engine run"
    and piece: "\<And>p qs. p \<in> set ps \<Longrightarrow> set qs \<subseteq> set ps \<Longrightarrow>
        run a (txt p @ concat (map txt qs) @ rest) = (True, val p, concat (map txt qs) @ rest)"
    and "\<And>p. p \<in> set ps \<Longrightarrow> txt p \<noteq> []" and "\<not> fst (run a rest)"
  shows "run (QStar a) (concat (map txt ps) @ rest) = (True, concat (map val ps), rest)"
proof -
  have "run (QStar a) (concat (map txt qs) @ rest) = (True, concat (map val qs), rest)"
    if "set qs \<subseteq> set ps" for qs
    using that
  proof (induction qs)
    case Nil
    then show ?case using run_star_stop [OF assms(1,4)] by simp
  next
    case (Cons q qs)
    have "run a (txt q @ concat (map txt qs) @ rest) = (True, val q, concat (map txt qs) @ rest)"
      using Cons.prems by (intro piece) auto
    moreover have "txt q \<noteq> []" using Cons.prems assms(3) by auto
    ultimately show ?case
      using Cons run_star_step [OF assms(1), of a "txt q @ concat (map txt qs) @ rest" "val q"]
      by simp
  qed
  then show ?thesis by simp
qed

text \<open>A repetition over characters: each is taken wherever it stands in the text.\<close>

lemma run_star_chars:
  assumes "qi_engine run"
    and "\<And>u c v. t = u @ c # v \<Longrightarrow> run a (c # v @ rest) = (True, [Ch c], v @ rest)"
    and "\<not> fst (run a rest)"
  shows "run (QStar a) (t @ rest) = (True, map Ch t, rest)"
  using assms(2)
proof (induction t)
  case Nil
  then show ?case using run_star_stop [OF assms(1,3)] by simp
next
  case (Cons c t)
  have "run (QStar a) (t @ rest) = (True, map Ch t, rest)"
  proof (rule Cons.IH)
    fix u d v
    assume "t = u @ d # v"
    then show "run a (d # v @ rest) = (True, [Ch d], v @ rest)" using Cons.prems [of "c # u"] by simp
  qed
  moreover have "run a (c # t @ rest) = (True, [Ch c], t @ rest)" using Cons.prems [of "[]"] by simp
  ultimately show ?case
    using run_star_step [OF assms(1), of a "c # t @ rest" "[Ch c]" "t @ rest"] by simp
qed

lemma run_plus_chars:
  assumes "qi_engine run" and "t \<noteq> []"
    and "\<And>u c v. t = u @ c # v \<Longrightarrow> run a (c # v @ rest) = (True, [Ch c], v @ rest)"
    and "\<not> fst (run a rest)"
  shows "run (QPlus a) (t @ rest) = (True, map Ch t, rest)"
proof -
  obtain c u where t: "t = c # u" using assms(2) by (cases t) auto
  have "run (QStar a) (u @ rest) = (True, map Ch u, rest)"
  proof (rule run_star_chars [OF assms(1)])
    fix w d v
    assume "u = w @ d # v"
    then show "run a (d # v @ rest) = (True, [Ch d], v @ rest)" using assms(3) [of "c # w"] t by simp
  qed (rule assms(4))
  moreover have "run a (c # u @ rest) = (True, [Ch c], u @ rest)" using assms(3) [of "[]"] t by simp
  ultimately show ?thesis using t by (simp add: qi_engineD [OF assms(1)] q_seq_def)
qed

lemma as_string_chars [simp]: "as_string (map Ch t) = t"
  by (induction t) (simp_all add: as_string_def)

lemma as_string_append [simp]: "as_string (xs @ ys) = as_string xs @ as_string ys"
  by (simp add: as_string_def)

lemma as_string_simps [simp]:
  "as_string [] = []" "as_string (x # xs) = item_chars x @ as_string xs"
  by (simp_all add: as_string_def)

lemma as_strings_append [simp]: "as_strings (xs @ ys) = as_strings xs @ as_strings ys"
  by (induction xs rule: as_strings.induct) simp_all

lemma as_strings_Str [simp]: "as_strings (map Str ss) = ss"
  by (induction ss) simp_all

lemma q_lit_append [simp]: "q_lit t (t @ s) = (True, [], s)"
  by (simp add: q_lit_def)

lemma q_rule_fst [simp]: "fst (q_rule h f s) = fst (f s)"
  by (simp add: q_rule_def split: prod.splits)

lemma q_ruleI: "f s = (b, xs, r) \<Longrightarrow> q_rule h f s = (b, [h xs], r)"
  by (simp add: q_rule_def)

lemma q_seqI: "f s = (True, xs, r) \<Longrightarrow> g r = (True, ys, r') \<Longrightarrow> q_seq f g s = (True, xs @ ys, r')"
  by (simp add: q_seq_def)

lemma q_seq_fst: "fst (q_seq f g s) \<longleftrightarrow> fst (f s) \<and> fst (g (snd (snd (f s))))"
  by (auto simp: q_seq_def split: prod.splits bool.splits)

lemma q_diff_taken: "\<not> fst (g s) \<Longrightarrow> q_diff f g s = f s"
  by (simp add: q_diff_def)

lemma q_diff_refused: "fst (g s) \<Longrightarrow> q_diff f g s = (False, [], s)"
  by (simp add: q_diff_def)

lemma one_char_simps [simp]:
  "one_char P [] = (False, [], [])"
  "one_char P (c # cs) = (if P c then (True, [Ch c], cs) else (False, [], c # cs))"
  by (simp_all add: one_char_def)

end
