(* ===== verification/Multipart.thy ===== *)
theory Multipart
  imports Qi
begin

text \<open>
  Multi-part form bodies (\<^verbatim>\<open>boost-multipart-form.h\<close>, \<^verbatim>\<open>boost-multipart-form.cpp\<close>): the grammars
  that cut a body into parts, a part into header lines and payload, and a header value into tokens,
  and the classes built from what they return.
\<close>

section \<open>Grammars\<close>

text \<open>\<^verbatim>\<open>header_tokens\<close>: \<^verbatim>\<open>key[=value]\<close> pairs separated by semicolons.\<close>

definition header_tokens_key :: qi where
  "header_tokens_key = QStr (QPlus (QDiff QAscii (QSet ''=;'')))"

definition header_tokens_value :: qi where
  "header_tokens_value =
     QStr (QAlt (QSeq (QLit [CHR 0x22]) (QSeq (QPlus (QDiff QAscii (QLit [CHR 0x22]))) (QLit [CHR 0x22])))
                (QPlus QAscii))"

definition header_tokens_pair :: qi where
  "header_tokens_pair = QPair (QSeq header_tokens_key (QOpt (QSeq (QLit ''='') header_tokens_value)))"

definition header_tokens :: qi where
  "header_tokens =
     QSeq header_tokens_pair
       (QSeq (QStar (QSeq (QLit '';'') (QSeq (QStar (QLit '' '')) header_tokens_pair)))
             (QOpt QEol))"

text \<open>\<^verbatim>\<open>chunks\<close>: what lies between the boundary lines.\<close>

definition chunk_boundry :: "string \<Rightarrow> qi" where
  "chunk_boundry boundry = QStr (QSeq (QLit ''--'') (QSeq (QLit boundry) QEol))"

definition end_boundry :: "string \<Rightarrow> qi" where
  "end_boundry boundry = QStr (QSeq (QLit ''--'') (QSeq (QLit boundry) (QSeq (QLit ''--'') (QOpt QEol))))"

definition chunks_value :: "string \<Rightarrow> qi" where
  "chunks_value boundry =
     QStr (QPlus (QDiff (QDiff QAscii (end_boundry boundry)) (chunk_boundry boundry)))"

definition chunks_chunk :: "string \<Rightarrow> qi" where
  "chunks_chunk boundry = QStr (QSeq (chunk_boundry boundry) (chunks_value boundry))"

definition chunks :: "string \<Rightarrow> qi" where
  "chunks boundry =
     QSeq (chunks_chunk boundry) (QSeq (QStar (chunks_chunk boundry)) (end_boundry boundry))"

text \<open>\<^verbatim>\<open>chunk_tokens\<close>: the header lines, an empty line and the payload.\<close>

definition chunk_header :: qi where
  "chunk_header = QStr (QSeq (QPlus (QDiff QAscii QEol)) QEol)"

definition chunk_body :: qi where
  "chunk_body = QStr (QPlus (QAlt QAscii QEol))"

definition chunk_tokens :: qi where
  "chunk_tokens = QSeq (QStar chunk_header) (QSeq QEol (QStar chunk_body))"

section \<open>Headers and parts\<close>

record form_header =
  fh_name :: string
  fh_attributes :: "(string \<times> string) list"

text \<open>\<^verbatim>\<open>Header::attributeValue\<close>: the first attribute, in key order, of that name up to case.\<close>

fun attribute_loop :: "(string \<times> string) list \<Rightarrow> string \<Rightarrow> string option" where
  "attribute_loop [] lower_name = None"
| "attribute_loop ((k, v) # m) lower_name =
     (if to_lower_copy k = lower_name then Some v else attribute_loop m lower_name)"

definition attributeValue :: "form_header \<Rightarrow> string \<Rightarrow> string option" where
  "attributeValue h name = attribute_loop (fh_attributes h) (to_lower_copy name)"

record part =
  part_headers :: "form_header list"
  part_payload :: string

definition new_part :: part where
  "new_part = \<lparr>part_headers = [], part_payload = []\<rparr>"

definition set_payload :: "string \<Rightarrow> part \<Rightarrow> part" where
  "set_payload s p = p\<lparr>part_payload := s\<rparr>"

definition push_form_header :: "form_header \<Rightarrow> part \<Rightarrow> part" where
  "push_form_header h p = p\<lparr>part_headers := part_headers p @ [h]\<rparr>"

text \<open>
  \<^verbatim>\<open>Part::add_header(std::string)\<close>; the position of the colon is held in an \<^verbatim>\<open>unsigned\<close>.
\<close>

definition try_add_header :: "engine \<Rightarrow> string \<Rightarrow> part \<Rightarrow> failure + part" where
  "try_add_header run input p =
     (let split = unsigned_pos (str_find input '':'')
      in if unsigned_is_npos split then Inr p
         else and_then (substr input 0 (size_of_unsigned split)) (\<lambda>header_name.
              and_then (substr_from input (size_of_unsigned (split + 1))) (\<lambda>header_value.
              (case run header_tokens header_value of
                 (False, _, _) \<Rightarrow> Inr p
               | (True, xs, _) \<Rightarrow>
                   Inr (push_form_header \<lparr>fh_name = header_name, fh_attributes = as_map xs []\<rparr> p)))))"

text \<open>\<^verbatim>\<open>substr\<close> never throws there (\<open>try_add_header_returns\<close>), so callers have its value.\<close>

definition add_header :: "engine \<Rightarrow> string \<Rightarrow> part \<Rightarrow> part" where
  "add_header run input p = projr (try_add_header run input p)"

lemma try_add_header_returns: "try_add_header run input p = Inr (add_header run input p)"
  by (simp add: add_header_def try_add_header_def Let_def substr_after_found split: prod.split bool.split)

section \<open>The form\<close>

record form_data =
  boundry :: string
  parts :: "part list"

text \<open>The loop over the tokens of a chunk, last first: the last is the payload, the others headers.\<close>

fun chunk_loop :: "engine \<Rightarrow> string list \<Rightarrow> bool \<Rightarrow> part \<Rightarrow> part" where
  "chunk_loop run [] handled_last p = p"
| "chunk_loop run (chunk # cs) handled_last p =
     chunk_loop run cs True
       (if handled_last then add_header run chunk p
        else set_payload (erase_last crlf chunk) p)"

fun parts_loop :: "engine \<Rightarrow> string list \<Rightarrow> part list \<Rightarrow> part list" where
  "parts_loop run [] ps = ps"
| "parts_loop run (chunk_data # cs) ps =
     (case run chunk_tokens chunk_data of
        (True, xs, _) \<Rightarrow>
          parts_loop run cs (ps @ [chunk_loop run (rev (as_strings xs)) False new_part])
      | (False, _, _) \<Rightarrow> parts_loop run cs ps)"

definition MultiPartFormData :: "engine \<Rightarrow> string \<Rightarrow> string \<Rightarrow> form_data" where
  "MultiPartFormData run b input =
     (case run (chunks b) input of
        (False, _, _) \<Rightarrow> \<lparr>boundry = [], parts = []\<rparr>
      | (True, xs, _) \<Rightarrow> \<lparr>boundry = b, parts = parts_loop run (as_strings xs) []\<rparr>)"

section \<open>Forms as clients send them\<close>

text \<open>
  A part as a client writes it: header lines, an empty line, the payload, and a line break before
  the next boundary.
\<close>

definition part_text :: "string list \<times> string \<Rightarrow> string" where
  "part_text p = concat (map (\<lambda>h. h @ crlf) (fst p)) @ crlf @ snd p @ crlf"

definition render_part :: "string \<Rightarrow> string list \<times> string \<Rightarrow> string" where
  "render_part b p = ''--'' @ b @ crlf @ part_text p"

definition last_line :: "string \<Rightarrow> string" where
  "last_line b = ''--'' @ b @ ''--'' @ crlf"

definition render_form :: "string \<Rightarrow> (string list \<times> string) list \<Rightarrow> string" where
  "render_form b ps = concat (map (render_part b) ps) @ last_line b"

text \<open>
  Parts this grammar can carry: header lines without line breaks, nothing but 7-bit characters, and no occurrence of the
  boundary. The protocol allows any bytes in a part; a part with a byte from 128 on is lost (\<open>multipart_not_ascii\<close>).
\<close>

definition wf_part :: "string \<Rightarrow> string list \<times> string \<Rightarrow> bool" where
  "wf_part b p \<longleftrightarrow>
     (\<forall>h \<in> set (fst p). h \<noteq> [] \<and> CR \<notin> set h \<and> LF \<notin> set h) \<and>
     (\<forall>c \<in> set (part_text p). is_ascii c) \<and> find_str (''--'' @ b) (part_text p) = None"

lemma part_text_nonempty [simp]: "part_text p \<noteq> []"
  by (simp add: part_text_def)

lemma find_str_None_suffix:
  "find_str pat (u @ v) = None \<Longrightarrow> \<not> starts_with v pat"
proof (induction u)
  case Nil
  then show ?case by (cases v; cases pat) (auto split: if_splits)
next
  case (Cons c u)
  then show ?case by (simp split: if_splits)
qed

lemma starts_with_append_cases:
  "starts_with (v @ rest) pat \<Longrightarrow> starts_with v pat \<or> set v \<subseteq> set pat"
proof (induction v arbitrary: pat)
  case Nil
  then show ?case by simp
next
  case (Cons c v)
  then show ?case by (cases pat) auto
qed

lemma no_boundary_inside:
  assumes "find_str (''--'' @ b) t = None" and "t = u @ c # v" and "last t = LF" and "LF \<notin> set b"
  shows "\<not> starts_with (c # v @ rest) (''--'' @ b)"
proof
  assume "starts_with (c # v @ rest) (''--'' @ b)"
  then have "starts_with ((c # v) @ rest) (''--'' @ b)" by simp
  moreover have "\<not> starts_with (c # v) (''--'' @ b)"
    using assms(1,2) find_str_None_suffix [of "''--'' @ b" u "c # v"] by simp
  ultimately have "set (c # v) \<subseteq> set (''--'' @ b)"
    using starts_with_append_cases by blast
  moreover have "LF \<in> set (c # v)"
    using assms(2,3) by (metis last_appendR last_in_set list.distinct(1))
  ultimately show False using assms(4) by auto
qed

lemma boundary_needs_dashes:
  assumes "qi_engine run" and "\<not> starts_with s (''--'' @ b)"
  shows "\<not> fst (run (chunk_boundry b) s)" "\<not> fst (run (end_boundry b) s)"
proof -
  have "\<not> fst (q_seq (q_lit ''--'') (q_seq (q_lit b) f) s)" for f
  proof (cases "starts_with s ''--''")
    case True
    then obtain t where s: "s = ''--'' @ t" using starts_withE by blast
    then have "\<not> starts_with t b" using assms(2) by simp
    then show ?thesis using s by (simp add: q_seq_def q_lit_def)
  next
    case False
    then show ?thesis by (simp add: q_seq_def q_lit_def)
  qed
  then show "\<not> fst (run (chunk_boundry b) s)" "\<not> fst (run (end_boundry b) s)"
    unfolding chunk_boundry_def end_boundry_def qi_engineD [OF assms(1)] q_rule_fst by blast+
qed

lemma q_eol_simps [simp]:
  "q_eol (CR # LF # s) = (True, [], s)"
  "c \<noteq> CR \<Longrightarrow> c \<noteq> LF \<Longrightarrow> q_eol (c # s) = (False, [], c # s)"
  "q_eol [] = (False, [], [])"
  by (simp_all add: q_eol_def)

lemma q_lit_Cons [simp]:
  "q_lit (c # cs) (d # s) = (if c = d \<and> fst (q_lit cs s) then (True, [], snd (snd (q_lit cs s))) else (False, [], d # s))"
  "q_lit [] s = (True, [], s)"
  by (auto simp: q_lit_def)

lemma run_chunk_boundry:
  assumes "qi_engine run"
  shows "run (chunk_boundry b) (''--'' @ b @ crlf @ s) = (True, [Str []], s)"
    and "\<not> fst (run (chunk_boundry b) (last_line b))"
    and "run (end_boundry b) (last_line b) = (True, [Str []], [])"
  by (simp_all add: chunk_boundry_def end_boundry_def last_line_def qi_engineD [OF assms]
      q_rule_def q_seq_def q_opt_def)

text \<open>What may follow a part: another part or the last line.\<close>

definition follows :: "string \<Rightarrow> string \<Rightarrow> bool" where
  "follows b s \<longleftrightarrow> (\<exists>t. s = ''--'' @ b @ crlf @ t) \<or> s = last_line b"

lemma run_chunk:
  assumes "qi_engine run" and "wf_part b p" and "LF \<notin> set b" and "follows b rest"
  shows "run (chunks_chunk b) (render_part b p @ rest) = (True, [Str (part_text p)], rest)"
proof -
  note qrun = qi_engineD [OF assms(1)]
  let ?a = "QDiff (QDiff QAscii (end_boundry b)) (chunk_boundry b)"
  have "run (QPlus ?a) (part_text p @ rest) = (True, map Ch (part_text p), rest)"
  proof (rule run_plus_chars [OF assms(1) part_text_nonempty])
    fix u c v
    assume split: "part_text p = u @ c # v"
    have "is_ascii c" using assms(2) split by (simp add: wf_part_def)
    moreover have "last (part_text p) = LF" by (simp add: part_text_def)
    with assms(2,3) split have "\<not> starts_with (c # v @ rest) (''--'' @ b)"
      by (intro no_boundary_inside) (auto simp: wf_part_def)
    ultimately show "run ?a (c # v @ rest) = (True, [Ch c], v @ rest)"
      by (simp add: qrun q_diff_taken boundary_needs_dashes [OF assms(1)])
  next
    show "\<not> fst (run ?a rest)"
      using assms(4) run_chunk_boundry [OF assms(1), of b]
      by (auto simp: follows_def qrun q_diff_def)
  qed
  then have "run (chunks_value b) (part_text p @ rest) = (True, [Str (part_text p)], rest)"
    by (simp add: chunks_value_def qrun q_rule_def)
  then show ?thesis
    using run_chunk_boundry(1) [OF assms(1), of b "part_text p @ rest"]
    by (simp add: chunks_chunk_def render_part_def qrun q_rule_def q_seq_def)
qed

lemma run_chunks:
  assumes "qi_engine run" and "LF \<notin> set b" and "ps \<noteq> []" and "\<forall>p \<in> set ps. wf_part b p"
  shows "run (chunks b) (render_form b ps) = (True, map Str (map part_text ps) @ [Str []], [])"
proof -
  note qrun = qi_engineD [OF assms(1)]
  obtain p qs where ps: "ps = p # qs" using assms(3) by (cases ps) auto
  have follows: "follows b (concat (map (render_part b) rs) @ last_line b)" for rs
    by (cases rs) (auto simp: follows_def render_part_def)
  let ?rest = "concat (map (render_part b) qs) @ last_line b"
  have "run (QStar (chunks_chunk b)) ?rest = (True, concat (map (\<lambda>q. [Str (part_text q)]) qs), last_line b)"
  proof (rule run_star_pieces [OF assms(1)])
    fix q rs
    assume "q \<in> set qs"
    then show "run (chunks_chunk b) (render_part b q @ concat (map (render_part b) rs) @ last_line b) =
        (True, [Str (part_text q)], concat (map (render_part b) rs) @ last_line b)"
      using assms(2,4) ps follows by (intro run_chunk [OF assms(1)]) auto
  next
    show "\<not> fst (run (chunks_chunk b) (last_line b))"
      using run_chunk_boundry(2) [OF assms(1), of b] by (simp add: chunks_chunk_def qrun q_seq_fst)
  qed (simp add: render_part_def)
  moreover have "run (chunks_chunk b) (render_part b p @ ?rest) = (True, [Str (part_text p)], ?rest)"
    using assms(2,4) ps follows by (intro run_chunk [OF assms(1)]) auto
  ultimately show ?thesis
    by (simp add: chunks_def render_form_def ps qrun q_seq_def run_chunk_boundry(3) [OF assms(1)]
        concat_map_singleton comp_def)
qed

lemma run_chunk_header:
  assumes "qi_engine run" and "h \<noteq> []" and "\<forall>c \<in> set h. is_ascii c" and "CR \<notin> set h" and "LF \<notin> set h"
  shows "run chunk_header (h @ crlf @ rest) = (True, [Str h], rest)"
proof -
  note qrun = qi_engineD [OF assms(1)]
  have "run (QPlus (QDiff QAscii QEol)) (h @ crlf @ rest) = (True, map Ch h, crlf @ rest)"
  proof (rule run_plus_chars [OF assms(1,2)])
    fix u c v
    assume "h = u @ c # v"
    then show "run (QDiff QAscii QEol) (c # v @ crlf @ rest) = (True, [Ch c], v @ crlf @ rest)"
      using assms(3-5) by (auto simp: qrun q_diff_def)
  qed (simp add: qrun q_diff_def)
  then show ?thesis by (simp add: chunk_header_def qrun q_rule_def q_seq_def)
qed

lemma run_chunk_tokens:
  assumes "qi_engine run" and "wf_part b p"
  shows "run chunk_tokens (part_text p) = (True, map Str (fst p @ [snd p @ crlf]), [])"
proof -
  note qrun = qi_engineD [OF assms(1)]
  let ?rest = "crlf @ snd p @ crlf" and ?body = "snd p @ crlf"
  have ascii: "\<forall>c \<in> set (part_text p). is_ascii c"
    and lines: "\<forall>h \<in> set (fst p). h \<noteq> [] \<and> CR \<notin> set h \<and> LF \<notin> set h"
    using assms(2) by (simp_all add: wf_part_def)
  have "run (QStar chunk_header) (concat (map (\<lambda>h. h @ crlf) (fst p)) @ ?rest) =
      (True, concat (map (\<lambda>h. [Str h]) (fst p)), ?rest)"
  proof (rule run_star_pieces [OF assms(1)])
    fix h qs
    assume h: "h \<in> set (fst p)"
    then have "set h \<subseteq> set (part_text p)" by (force simp: part_text_def)
    then have "\<forall>c \<in> set h. is_ascii c" using ascii by blast
    with h lines run_chunk_header [OF assms(1), of h] show
      "run chunk_header ((h @ crlf) @ concat (map (\<lambda>h. h @ crlf) qs) @ ?rest) =
        (True, [Str h], concat (map (\<lambda>h. h @ crlf) qs) @ ?rest)"
      by simp
  qed (simp_all add: chunk_header_def qrun q_seq_def q_diff_def)
  moreover have "run (QPlus (QAlt QAscii QEol)) (?body @ []) = (True, map Ch ?body, [])"
  proof (rule run_plus_chars [OF assms(1)])
    fix u c v
    assume "?body = u @ c # v"
    then have "c \<in> set ?body" by (metis in_set_conv_decomp)
    then have "is_ascii c" using ascii by (auto simp: part_text_def)
    then show "run (QAlt QAscii QEol) (c # v @ []) = (True, [Ch c], v @ [])"
      by (simp add: qrun q_alt_def)
  qed (simp_all add: qrun q_alt_def)
  then have body: "run chunk_body ?body = (True, [Str ?body], [])"
    by (simp add: chunk_body_def qrun q_rule_def)
  have "\<not> fst (run chunk_body [])" by (simp add: chunk_body_def qrun q_seq_def q_alt_def)
  from run_star_step [OF assms(1) body _ run_star_stop [OF assms(1) this]]
  have "run (QStar chunk_body) ?body = (True, [Str ?body], [])" by simp
  ultimately show ?thesis
    by (simp add: chunk_tokens_def part_text_def qrun q_seq_def concat_map_singleton)
qed

lemma add_header_payload [simp]: "part_payload (add_header run h p) = part_payload p"
  by (simp add: add_header_def try_add_header_def Let_def substr_after_found push_form_header_def split: prod.splits bool.splits)

lemma chunk_loop_payload [simp]: "part_payload (chunk_loop run cs True p) = part_payload p"
  by (induction cs arbitrary: p) simp_all

lemma erase_last_crlf [simp]: "erase_last crlf (s @ crlf) = s"
proof (induction s)
  case Nil
  then show ?case by simp
next
  case (Cons c s)
  have "find_str crlf (s @ crlf) \<noteq> None" by (induction s) simp_all
  with Cons show ?case by simp
qed

lemma parts_loop_payloads:
  assumes "qi_engine run" and "\<forall>p \<in> set ps. wf_part b p"
  shows "map part_payload (parts_loop run (map part_text ps @ [[]]) acc) = map part_payload acc @ map snd ps"
  using assms(2)
proof (induction ps arbitrary: acc)
  case Nil
  have "\<not> fst (run chunk_tokens [])"
    using assms(1) run_star_stop [OF assms(1), of chunk_header "[]"]
    by (simp add: chunk_tokens_def chunk_header_def qi_engineD q_seq_def q_diff_def)
  then show ?case by (auto split: prod.splits bool.splits)
next
  case (Cons p ps)
  then show ?case
    using run_chunk_tokens [OF assms(1), of b p]
    by (simp add: set_payload_def new_part_def)
qed

lemma form_payloads:
  assumes "qi_engine run" and "LF \<notin> set b" and "ps \<noteq> []" and "\<forall>p \<in> set ps. wf_part b p"
  shows "map part_payload (parts (MultiPartFormData run b (render_form b ps))) = map snd ps"
  using parts_loop_payloads [OF assms(1,4), of "[]"]
  by (simp add: MultiPartFormData_def run_chunks [OF assms] flip: map_map)

subsection \<open>Bytes the grammar refuses\<close>

lemma run_chunk_not_ascii:
  assumes "qi_engine run" and "\<not> is_ascii c" and "\<forall>d \<in> set t. is_ascii d" and "c \<notin> set b"
    and "find_str (''--'' @ b) (t @ [c]) = None"
  shows "run (chunks_chunk b) (''--'' @ b @ crlf @ t @ c # rest) =
    (if t = [] then (False, [Str []], ''--'' @ b @ crlf @ t @ c # rest) else (True, [Str t], c # rest))"
proof -
  note qrun = qi_engineD [OF assms(1)]
  let ?a = "QDiff (QDiff QAscii (end_boundry b)) (chunk_boundry b)"
  have stop: "run ?a (c # rest) = (False, [], c # rest)"
    using assms(2) by (simp add: qrun q_diff_def)
  have "run (QPlus ?a) (t @ c # rest) = (True, map Ch t, c # rest)" if "t \<noteq> []"
  proof (rule run_plus_chars [OF assms(1) that])
    fix u d v
    assume t: "t = u @ d # v"
    have "\<not> starts_with (d # v @ [c]) (''--'' @ b)"
      using assms(5) t find_str_None_suffix [of "''--'' @ b" u "d # v @ [c]"] by simp
    moreover have "\<not> set (d # v @ [c]) \<subseteq> set (''--'' @ b)"
      using assms(2,4) by (auto simp: is_ascii_def)
    ultimately have "\<not> starts_with (d # v @ c # rest) (''--'' @ b)"
      using starts_with_append_cases [of "d # v @ [c]" rest "''--'' @ b"] by auto
    then show "run ?a (d # v @ c # rest) = (True, [Ch d], v @ c # rest)"
      using assms(3) t by (simp add: qrun q_diff_taken boundary_needs_dashes [OF assms(1)])
  qed (simp add: stop)
  then show ?thesis
    using run_chunk_boundry(1) [OF assms(1), of b "t @ c # rest"] stop
    by (simp add: chunks_chunk_def chunks_value_def qrun q_rule_def q_seq_def)
qed

lemma run_chunks_not_ascii:
  assumes "qi_engine run" and "\<not> is_ascii c" and "\<forall>d \<in> set t. is_ascii d" and "c \<notin> set b"
    and "find_str (''--'' @ b) (t @ [c]) = None"
  shows "\<not> fst (run (chunks b) (''--'' @ b @ crlf @ t @ c # rest))"
proof -
  note qrun = qi_engineD [OF assms(1)]
  have c: "\<not> starts_with (c # rest) (''--'' @ b)" using assms(2) by (auto simp: is_ascii_def)
  have "\<not> fst (run (chunks_chunk b) (c # rest))"
    using boundary_needs_dashes(1) [OF assms(1) c] by (simp add: chunks_chunk_def qrun q_seq_fst)
  from run_star_stop [OF assms(1) this] boundary_needs_dashes(2) [OF assms(1) c]
  show ?thesis
    unfolding chunks_def qrun q_seq_fst run_chunk_not_ascii [OF assms] by (simp split: if_splits)
qed

section \<open>Properties\<close>

text \<open>
  C25. Every form a client renders from parts of 7-bit characters, which do not contain the boundary, is taken apart
  again: for any engine that behaves as documented, the parts of the constructed object carry exactly the payloads, in
  order and byte for byte (line breaks inside a payload included). Parts with other bytes are not covered: they are lost.
\<close>

theorem multipart_roundtrip:
  assumes "qi_engine run" and "LF \<notin> set b" and "ps \<noteq> []" and "\<forall>p \<in> set ps. wf_part b p"
  shows "boundry (MultiPartFormData run b (render_form b ps)) = b \<and>
    map part_payload (parts (MultiPartFormData run b (render_form b ps))) = map snd ps"
  using form_payloads [OF assms] run_chunks [OF assms] by (simp add: MultiPartFormData_def)

definition sample_part :: "string list \<times> string" where
  "sample_part = ([''A: b''], ''x'' @ crlf @ ''y'')"

lemma sample_part_wf: "wf_part ''B'' sample_part"
  unfolding wf_part_def sample_part_def by code_simp

theorem multipart_roundtrip_witness:
  "map part_payload (parts (MultiPartFormData peg ''B'' (render_form ''B'' [sample_part]))) =
     [''x'' @ crlf @ ''y'']"
  using multipart_roundtrip [OF qi_engine_peg, of "''B''" "[sample_part]"] sample_part_wf
  by (simp add: sample_part_def)

text \<open>
  The grammars take 7-bit characters only. A form with a byte from 128 on in its first part yields
  no part at all, whatever the rest of it holds, and the constructor does not say so.
\<close>

theorem multipart_not_ascii:
  assumes "qi_engine run" and "\<not> is_ascii c" and "\<forall>d \<in> set t. is_ascii d" and "c \<notin> set b"
    and "find_str (''--'' @ b) (t @ [c]) = None"
  shows "parts (MultiPartFormData run b (''--'' @ b @ crlf @ t @ c # rest)) = []"
  using run_chunks_not_ascii [OF assms, of rest]
  by (auto simp: MultiPartFormData_def split: prod.splits bool.splits)

theorem multipart_not_ascii_witness:
  "parts (MultiPartFormData peg ''B'' (''--'' @ ''B'' @ crlf @ (''A: b'' @ crlf @ crlf) @ CHR 0xFF # crlf @ ''--B--'' @ crlf)) = []"
proof (rule multipart_not_ascii [OF qi_engine_peg])
  show "find_str (''--'' @ ''B'') ((''A: b'' @ crlf @ crlf) @ [CHR 0xFF]) = None" by code_simp
qed (simp_all add: is_ascii_def)

end
