(* ===== verification/Json.thy ===== *)
theory Json
  imports Prelude
begin

text \<open>
  The vendored JSON library json\_spirit: values and their accessors (\<^verbatim>\<open>json_spirit_value.h\<close>), the
  writer (\<^verbatim>\<open>json_spirit_writer_template.h\<close>) and the string decoder of the reader
  (\<^verbatim>\<open>json_spirit_reader_template.h\<close>), at the instance the program uses (\<^verbatim>\<open>std::string\<close>, objects as
  vectors of pairs).
\<close>

section \<open>Values\<close>

text \<open>
  A finite \<^verbatim>\<open>double\<close> is a sign, a mantissa \<open>m\<close> and an exponent \<open>e\<close>, standing for \<open>m * 2 ^ e\<close>.
\<close>

datatype double = Finite bool nat int | Infinite bool | NaN

datatype Value_type = obj_type | array_type | str_type | bool_type | int_type | real_type | null_type

text \<open>An integer keeps its 64 bits and whether it was given as unsigned (\<^verbatim>\<open>is_uint64_\<close>).\<close>

datatype json =
    Obj "(string \<times> json) list"
  | Arr "json list"
  | JStr string
  | JBool bool
  | JInt size_t bool
  | JReal double
  | JNull

fun type_of :: "json \<Rightarrow> Value_type" where
  "type_of (Obj _) = obj_type"
| "type_of (Arr _) = array_type"
| "type_of (JStr _) = str_type"
| "type_of (JBool _) = bool_type"
| "type_of (JInt _ _) = int_type"
| "type_of (JReal _) = real_type"
| "type_of JNull = null_type"

fun is_uint64 :: "json \<Rightarrow> bool" where
  "is_uint64 (JInt _ u) = u"
| "is_uint64 _ = False"

definition is_null :: "json \<Rightarrow> bool" where
  "is_null v \<longleftrightarrow> type_of v = null_type"

text \<open>The constructors from an \<^verbatim>\<open>int\<close>, a signed and an unsigned 64-bit integer.\<close>

definition value_of_int :: "uint32 \<Rightarrow> json" where
  "value_of_int i = JInt (scast i) False"

definition value_of_int64 :: "size_t \<Rightarrow> json" where
  "value_of_int64 i = JInt i False"

definition value_of_uint64 :: "size_t \<Rightarrow> json" where
  "value_of_uint64 i = JInt i True"

fun Value_type_name :: "Value_type \<Rightarrow> string" where
  "Value_type_name obj_type = ''obj''"
| "Value_type_name array_type = ''array''"
| "Value_type_name str_type = ''str''"
| "Value_type_name bool_type = ''bool''"
| "Value_type_name int_type = ''int''"
| "Value_type_name real_type = ''real''"
| "Value_type_name null_type = ''null''"

text \<open>\<open>checked t v a\<close> is \<open>a\<close> unless \<^verbatim>\<open>check_type\<close> throws.\<close>

definition check_type :: "Value_type \<Rightarrow> json \<Rightarrow> failure option" where
  "check_type vtype v =
     (if type_of v \<noteq> vtype
      then Some (Runtime_error (''value is type '' @ Value_type_name (type_of v) @
                                '', expected '' @ Value_type_name vtype))
      else None)"

definition checked :: "Value_type \<Rightarrow> json \<Rightarrow> 'a \<Rightarrow> failure + 'a" where
  "checked t v a = (case check_type t v of Some e \<Rightarrow> Inl e | None \<Rightarrow> Inr a)"

definition get_str :: "json \<Rightarrow> failure + string" where
  "get_str v = checked str_type v (case v of JStr s \<Rightarrow> s | _ \<Rightarrow> [])"

definition get_obj :: "json \<Rightarrow> failure + (string \<times> json) list" where
  "get_obj v = checked obj_type v (case v of Obj ms \<Rightarrow> ms | _ \<Rightarrow> [])"

definition get_array :: "json \<Rightarrow> failure + json list" where
  "get_array v = checked array_type v (case v of Arr xs \<Rightarrow> xs | _ \<Rightarrow> [])"

definition get_bool :: "json \<Rightarrow> failure + bool" where
  "get_bool v = checked bool_type v (case v of JBool b \<Rightarrow> b | _ \<Rightarrow> False)"

definition get_int64 :: "json \<Rightarrow> failure + size_t" where
  "get_int64 v = checked int_type v (case v of JInt i _ \<Rightarrow> i | _ \<Rightarrow> 0)"

definition get_int :: "json \<Rightarrow> failure + uint32" where
  "get_int v = map_sum id (\<lambda>i. ucast i) (get_int64 v)"

definition get_uint64 :: "json \<Rightarrow> failure + size_t" where
  "get_uint64 v = get_int64 v"

text \<open>
  \<^verbatim>\<open>get_real\<close> also takes integers; the conversion rounds to the 53 bits of a \<^verbatim>\<open>double\<close>, ties to even.
\<close>

definition round_div :: "nat \<Rightarrow> nat \<Rightarrow> nat" where
  "round_div n d =
     (let q = n div d; r = n mod d
      in if 2 * r > d \<or> (2 * r = d \<and> odd q) then q + 1 else q)"

fun bit_length :: "nat \<Rightarrow> nat" where
  "bit_length n = (if n = 0 then 0 else Suc (bit_length (n div 2)))"

declare bit_length.simps [simp del]

definition double_of_nat :: "bool \<Rightarrow> nat \<Rightarrow> double" where
  "double_of_nat neg n = (let k = bit_length n - 53 in Finite neg (round_div n (2 ^ k)) (int k))"

definition get_real :: "json \<Rightarrow> failure + double" where
  "get_real v =
     (case v of
        JInt i u \<Rightarrow> Inr (if u then double_of_nat False (unat i)
                         else double_of_nat (sint i < 0) (nat \<bar>sint i\<bar>))
      | _ \<Rightarrow> checked real_type v (case v of JReal d \<Rightarrow> d | _ \<Rightarrow> NaN))"

lemma accessors [simp]:
  "get_str (JStr s) = Inr s" "get_obj (Obj ms) = Inr ms" "get_array (Arr xs) = Inr xs"
  "get_bool (JBool b) = Inr b" "get_int64 (JInt i u) = Inr i"
  by (simp_all add: get_str_def get_obj_def get_array_def get_bool_def get_int64_def checked_def
      check_type_def)

lemma ucast_scast [simp]: "(ucast (scast (i :: uint32) :: size_t) :: uint32) = i"
  by (rule bit_word_eqI) (simp add: bit_simps)

lemma get_int_value [simp]: "get_int (value_of_int i) = Inr i"
  by (simp add: get_int_def value_of_int_def)

text \<open>\<^verbatim>\<open>find_value\<close> of \<^verbatim>\<open>json_spirit_utils.h\<close>: the first member of that name, or null.\<close>

fun find_value :: "(string \<times> json) list \<Rightarrow> string \<Rightarrow> json" where
  "find_value [] name = JNull"
| "find_value ((n, v) # ms) name = (if n = name then v else find_value ms name)"

section \<open>The writer\<close>

definition to_hex_char :: "nat \<Rightarrow> char" where
  "to_hex_char c = (if c < 10 then char_of (48 + c) else char_of (65 - 10 + c))"

abbreviation backslash :: char where "backslash \<equiv> CHR 0x5C"
abbreviation dquote :: char where "dquote \<equiv> CHR 0x22"

definition non_printable_to_string :: "nat \<Rightarrow> string" where
  "non_printable_to_string c =
     [backslash, CHR ''u'', to_hex_char (c div 4096 mod 16), to_hex_char (c div 256 mod 16),
      to_hex_char (c div 16 mod 16), to_hex_char (c mod 16)]"

definition add_esc_char :: "char \<Rightarrow> string option" where
  "add_esc_char c =
     (if c = dquote then Some [backslash, dquote]
      else if c = backslash then Some [backslash, backslash]
      else if c = CHR 0x08 then Some [backslash, CHR ''b'']
      else if c = CHR 0x0C then Some [backslash, CHR ''f'']
      else if c = LF then Some [backslash, CHR ''n'']
      else if c = CR then Some [backslash, CHR ''r'']
      else if c = TAB then Some [backslash, CHR ''t'']
      else None)"

text \<open>\<^verbatim>\<open>iswprint\<close> in the C locale (the program never calls \<^verbatim>\<open>setlocale\<close>).\<close>

definition iswprint :: "nat \<Rightarrow> bool" where
  "iswprint c \<longleftrightarrow> 32 \<le> c \<and> c \<le> 126"

fun add_esc_chars :: "string \<Rightarrow> string" where
  "add_esc_chars [] = []"
| "add_esc_chars (c # s) =
     (case add_esc_char c of
        Some e \<Rightarrow> e
      | None \<Rightarrow> if iswprint (of_char c) then [c] else non_printable_to_string (of_char c)) @
     add_esc_chars s"

text \<open>
  \<^verbatim>\<open>std::fixed\<close> with eight decimals: the exact value rounded to the nearest, ties to even.
\<close>

definition scaled :: "nat \<Rightarrow> int \<Rightarrow> nat" where
  "scaled m e =
     (if e \<ge> 0 then m * 2 ^ nat e * 10 ^ 8 else round_div (m * 10 ^ 8) (2 ^ nat (- e)))"

definition pad_left :: "nat \<Rightarrow> string \<Rightarrow> string" where
  "pad_left n s = replicate (n - length s) (CHR ''0'') @ s"

fun show_double :: "double \<Rightarrow> string" where
  "show_double (Finite neg m e) =
     (let n = scaled m e
      in (if neg then ''-'' else []) @ show_nat (n div 10 ^ 8) @ ''.'' @ pad_left 8 (show_nat (n mod 10 ^ 8)))"
| "show_double (Infinite neg) = (if neg then ''-inf'' else ''inf'')"
| "show_double NaN = ''nan''"

definition output_int :: "size_t \<Rightarrow> bool \<Rightarrow> string" where
  "output_int i u = (if u then show_nat (unat i) else show_int (sint i))"

definition output_str :: "string \<Rightarrow> string" where
  "output_str s = [dquote] @ add_esc_chars s @ [dquote]"

definition output_bool :: "bool \<Rightarrow> string" where
  "output_bool b = (if b then ''true'' else ''false'')"

text \<open>The layout: \<open>pretty\<close> is the flag of the generator, \<open>level\<close> its indentation level.\<close>

definition indent :: "bool \<Rightarrow> nat \<Rightarrow> string" where
  "indent pretty level = (if \<not> pretty then [] else concat (replicate level ''    ''))"

definition space :: "bool \<Rightarrow> string" where
  "space pretty = (if pretty then '' '' else [])"

definition new_line :: "bool \<Rightarrow> string" where
  "new_line pretty = (if pretty then [LF] else [])"

fun output_elements :: "bool \<Rightarrow> nat \<Rightarrow> ('a \<Rightarrow> string) \<Rightarrow> 'a list \<Rightarrow> string" where
  "output_elements pretty level out [] = []"
| "output_elements pretty level out (x # xs) =
     indent pretty level @ out x @ (if xs \<noteq> [] then '','' else []) @ new_line pretty @
     output_elements pretty level out xs"

definition output_array_or_obj ::
  "bool \<Rightarrow> nat \<Rightarrow> char \<Rightarrow> char \<Rightarrow> (nat \<Rightarrow> 'a \<Rightarrow> string) \<Rightarrow> 'a list \<Rightarrow> string" where
  "output_array_or_obj pretty level start_char end_char out xs =
     [start_char] @ new_line pretty @ output_elements pretty (Suc level) (out (Suc level)) xs @
     indent pretty level @ [end_char]"

lemma output_elements_cong [fundef_cong]:
  assumes "xs = ys" and "\<And>y. y \<in> set ys \<Longrightarrow> f y = g y"
  shows "output_elements pretty level f xs = output_elements pretty level g ys"
  unfolding assms(1) using assms(2) by (induction ys) auto

lemma output_array_or_obj_cong [fundef_cong]:
  assumes "xs = ys" and "\<And>n y. y \<in> set ys \<Longrightarrow> f n y = g n y"
  shows "output_array_or_obj pretty level c d f xs = output_array_or_obj pretty level c d g ys"
  unfolding output_array_or_obj_def
  using assms output_elements_cong [of xs ys "f (Suc level)" "g (Suc level)"] by simp

fun output_value :: "bool \<Rightarrow> nat \<Rightarrow> json \<Rightarrow> string" where
  "output_value pretty level (Obj ms) =
     output_array_or_obj pretty level (CHR ''{'') (CHR ''}'')
       (\<lambda>l (n, v). output_str n @ space pretty @ '':'' @ space pretty @ output_value pretty l v) ms"
| "output_value pretty level (Arr xs) =
     output_array_or_obj pretty level (CHR ''['') (CHR '']'') (\<lambda>l v. output_value pretty l v) xs"
| "output_value pretty level (JStr s) = output_str s"
| "output_value pretty level (JBool b) = output_bool b"
| "output_value pretty level (JInt i u) = output_int i u"
| "output_value pretty level (JReal d) = show_double d"
| "output_value pretty level JNull = ''null''"

definition write_string :: "json \<Rightarrow> bool \<Rightarrow> string" where
  "write_string v pretty = output_value pretty 0 v"

definition json_write :: "json \<Rightarrow> string" where
  "json_write v = write_string v False"

definition write_formatted :: "json \<Rightarrow> string" where
  "write_formatted v = write_string v True"

section \<open>The reader's string decoder\<close>

definition hex_to_num :: "char \<Rightarrow> nat" where
  "hex_to_num c =
     (if CHR ''0'' \<le> c \<and> c \<le> CHR ''9'' then of_char c - 48
      else if CHR ''a'' \<le> c \<and> c \<le> CHR ''f'' then of_char c - 97 + 10
      else if CHR ''A'' \<le> c \<and> c \<le> CHR ''F'' then of_char c - 65 + 10
      else 0)"

text \<open>The value is narrowed to a \<^verbatim>\<open>char\<close>: the upper two digits of \<^verbatim>\<open>uHHHH\<close> are lost.\<close>

definition hex_str_to_char :: "char \<Rightarrow> char \<Rightarrow> char" where
  "hex_str_to_char c1 c2 = char_of (hex_to_num c1 * 16 + hex_to_num c2)"

definition unicode_str_to_char :: "char \<Rightarrow> char \<Rightarrow> char \<Rightarrow> char \<Rightarrow> char" where
  "unicode_str_to_char c1 c2 c3 c4 =
     char_of (hex_to_num c1 * 4096 + hex_to_num c2 * 256 + hex_to_num c3 * 16 + hex_to_num c4)"

text \<open>What an escape appends, and the text after it; the argument starts behind the backslash.\<close>

definition append_esc_char_and_incr_iter :: "char \<Rightarrow> string \<Rightarrow> string \<times> string" where
  "append_esc_char_and_incr_iter c2 cs =
     (if c2 = CHR ''t'' then ([TAB], cs)
      else if c2 = CHR ''b'' then ([CHR 0x08], cs)
      else if c2 = CHR ''f'' then ([CHR 0x0C], cs)
      else if c2 = CHR ''n'' then ([LF], cs)
      else if c2 = CHR ''r'' then ([CR], cs)
      else if c2 = backslash then ([backslash], cs)
      else if c2 = CHR ''/'' then (''/'', cs)
      else if c2 = dquote then ([dquote], cs)
      else if c2 = CHR ''x'' then
        (case cs of h1 # h2 # r \<Rightarrow> ([hex_str_to_char h1 h2], r) | _ \<Rightarrow> ([], cs))
      else if c2 = CHR ''u'' then
        (case cs of h1 # h2 # h3 # h4 # r \<Rightarrow> ([unicode_str_to_char h1 h2 h3 h4], r) | _ \<Rightarrow> ([], cs))
      else ([], cs))"

lemma append_esc_shorter: "length (snd (append_esc_char_and_incr_iter c cs)) \<le> length cs"
  by (auto simp: append_esc_char_and_incr_iter_def split: list.splits)

text \<open>
  The loop of \<^verbatim>\<open>substitute_esc_chars\<close>: \<open>pend\<close> is the text from \<^verbatim>\<open>substr_start\<close> to \<^verbatim>\<open>i\<close>.
\<close>

function subst_loop :: "string \<Rightarrow> string \<Rightarrow> string \<Rightarrow> string" where
  "subst_loop pend (c # d # cs) result =
     (if c = backslash
      then subst_loop [] (snd (append_esc_char_and_incr_iter d cs))
             (result @ pend @ fst (append_esc_char_and_incr_iter d cs))
      else subst_loop (pend @ [c]) (d # cs) result)"
| "subst_loop pend [] result = result @ pend"
| "subst_loop pend [c] result = result @ pend @ [c]"
  by pat_completeness auto
termination
  by (relation "measure (\<lambda>(pend, s, result). length s)")
    (auto intro: le_less_trans [OF append_esc_shorter])

definition substitute_esc_chars :: "string \<Rightarrow> string" where
  "substitute_esc_chars s = (if length s < 2 then s else subst_loop [] s [])"

text \<open>\<^verbatim>\<open>get_str_\<close>: the text between the quotes, decoded; it asserts that there are two.\<close>

definition get_str_quoted :: "string \<Rightarrow> failure + string" where
  "get_str_quoted s =
     (if length s \<ge> 2 then Inr (substitute_esc_chars (butlast (tl s))) else Inl Assertion_failed)"

section \<open>Escaping and decoding\<close>

lemma hex_to_num_to_hex_char [simp]: "n < 16 \<Longrightarrow> hex_to_num (to_hex_char n) = n"
proof -
  assume "n < 16"
  then have "n \<in> set [0..<16]" by simp
  moreover have "\<forall>n \<in> set [0..<16]. hex_to_num (to_hex_char n) = n" by code_simp
  ultimately show ?thesis by blast
qed

lemma decode_non_printable:
  "append_esc_char_and_incr_iter (CHR ''u'')
     (tl (tl (non_printable_to_string (of_char c))) @ r) = ([c], r)"
proof -
  have "append_esc_char_and_incr_iter (CHR ''u'') (tl (tl (non_printable_to_string n)) @ r) =
      ([char_of n], r)" if "n < 256" for n :: nat
  proof -
    have "n div 4096 = 0" "n div 256 = 0" "n div 16 mod 16 = n div 16"
      using that by (simp_all add: less_mult_imp_div_less)
    then show ?thesis
      by (simp add: non_printable_to_string_def append_esc_char_and_incr_iter_def unicode_str_to_char_def)
  qed
  from this [of "of_char c"] show ?thesis by simp
qed

lemma decode_esc_char:
  assumes "add_esc_char c = Some e"
  shows "\<exists>d. e = [backslash, d] \<and> (\<forall>r. append_esc_char_and_incr_iter d r = ([c], r))"
  using assms unfolding add_esc_char_def
  by (simp split: if_split_asm) (force simp: append_esc_char_and_incr_iter_def)+

lemma subst_loop_add_esc_chars: "subst_loop pend (add_esc_chars s) result = result @ pend @ s"
proof (induction s arbitrary: pend result)
  case Nil
  then show ?case by simp
next
  case (Cons c s)
  show ?case
  proof (cases "add_esc_char c")
    case (Some e)
    then obtain d where "e = [backslash, d]" "\<And>r. append_esc_char_and_incr_iter d r = ([c], r)"
      using decode_esc_char by blast
    with Some Cons show ?thesis by simp
  next
    case None
    show ?thesis
    proof (cases "iswprint (of_char c)")
      case True
      moreover have "c \<noteq> backslash" using None by (auto simp: add_esc_char_def)
      ultimately show ?thesis using None Cons [of "pend @ [c]" result]
        by (cases "add_esc_chars s") auto
    next
      case False
      have "non_printable_to_string (of_char c) =
          backslash # CHR ''u'' # tl (tl (non_printable_to_string (of_char c)))"
        by (simp add: non_printable_to_string_def)
      then have "subst_loop pend (non_printable_to_string (of_char c) @ add_esc_chars s) result =
          subst_loop [] (add_esc_chars s) (result @ pend @ [c])"
        using decode_non_printable [of c "add_esc_chars s"]
        by (metis (no_types, lifting) append_Cons fst_conv snd_conv subst_loop.simps(1))
      with None False Cons show ?thesis by simp
    qed
  qed
qed

lemma substitute_add_esc_chars [simp]: "substitute_esc_chars (add_esc_chars s) = s"
proof (cases "length (add_esc_chars s) < 2")
  case False
  then show ?thesis by (simp add: substitute_esc_chars_def subst_loop_add_esc_chars)
next
  case True
  have "subst_loop [] (add_esc_chars s) [] = add_esc_chars s"
    using True by (cases "add_esc_chars s"; cases "tl (add_esc_chars s)") auto
  then show ?thesis using True subst_loop_add_esc_chars [of "[]" s "[]"]
    by (simp add: substitute_esc_chars_def)
qed

end
