(* ===== verification/Zopfli_Options.thy ===== *)
theory Zopfli_Options
  imports Prelude
begin

text \<open>
  The public types of the compressor (\<^verbatim>\<open>zopfli.h\<close>), which its clients share with it: the options with their defaults
  (\<^verbatim>\<open>ZopfliInitOptions\<close> of \<^verbatim>\<open>zopfli_lib.cc\<close>) and the formats of the result.
\<close>

record ZopfliOptions =
  verbose :: bool
  numiterations :: int
  blocksplitting :: bool
  blocksplittinglast :: bool
  blocksplittingmax :: int

definition ZopfliInitOptions :: ZopfliOptions where
  "ZopfliInitOptions =
     \<lparr>verbose = False, numiterations = 15, blocksplitting = True, blocksplittinglast = False, blocksplittingmax = 15\<rparr>"

datatype ZopfliFormat = ZOPFLI_FORMAT_GZIP | ZOPFLI_FORMAT_ZLIB | ZOPFLI_FORMAT_DEFLATE

end
