(* ===== verification/Request_Handler.thy ===== *)
theory Request_Handler
  imports Blob_Index Http_Message Multipart Json Zopfli_Options
begin

text \<open>
  The request handler (\<^verbatim>\<open>request_handler.cpp\<close>): the dispatch on path and method and the handler of
  each kind of request, over the blob index and the files of the host.
\<close>

section \<open>Decoding\<close>

definition is_hex_char :: "char \<Rightarrow> bool" where
  "is_hex_char c \<longleftrightarrow>
     is_digit_char c \<or> (CHR ''a'' \<le> c \<and> c \<le> CHR ''f'') \<or> (CHR ''A'' \<le> c \<and> c \<le> CHR ''F'')"

definition hex_val :: "string \<Rightarrow> nat" where
  "hex_val s = foldl (\<lambda>a c. a * 16 + hex_to_num c) 0 s"

text \<open>
  \<^verbatim>\<open>is >> std::hex >> value\<close> on a short string: leading white space is skipped, a sign and a
  \<^verbatim>\<open>0x\<close> prefix are accepted, and reading stops at the first character that is no hexadecimal digit;
  it fails when there is no digit.
\<close>

definition extract_hex :: "string \<Rightarrow> int option" where
  "extract_hex s =
     (let t = dropWhile is_space_char s;
          neg = (case t of c # _ \<Rightarrow> c = CHR ''-'' | [] \<Rightarrow> False);
          u = (case t of c # r \<Rightarrow> if c = CHR ''-'' \<or> c = CHR ''+'' then r else t | [] \<Rightarrow> t);
          w = (case u of
                 c # x # r \<Rightarrow> if c = CHR ''0'' \<and> (x = CHR ''x'' \<or> x = CHR ''X'') then r else u
               | _ \<Rightarrow> u);
          ds = takeWhile is_hex_char w
      in if ds = [] then None else Some (if neg then - int (hex_val ds) else int (hex_val ds)))"

text \<open>\<open>None\<close> is the result false.\<close>

fun url_decode :: "string \<Rightarrow> string option" where
  "url_decode [] = Some []"
| "url_decode (c # cs) =
     (if c = CHR ''%''
      then (case cs of
              a # b # r \<Rightarrow>
                (case extract_hex [a, b] of
                   Some v \<Rightarrow> map_option (Cons (char_of (nat (v mod 256)))) (url_decode r)
                 | None \<Rightarrow> None)
            | _ \<Rightarrow> None)
      else if c = CHR ''+'' then map_option (Cons (CHR '' '')) (url_decode cs)
      else map_option (Cons c) (url_decode cs))"

text \<open>The grammar \<^verbatim>\<open>keys_and_values\<close> of \<^verbatim>\<open>request.hpp\<close>.\<close>

definition kv_key :: qi where
  "kv_key = QStr (QSeq (QSet ''a-zA-Z_'') (QStar (QSet ''a-zA-Z_0-9'')))"

definition kv_value :: qi where
  "kv_value = QStr (QPlus (QSet ''/:_@a-zA-Z0-9.,+*!=-''))"

definition kv_pair :: qi where
  "kv_pair = QPair (QSeq kv_key (QOpt (QSeq (QLit ''='') kv_value)))"

definition keys_and_values :: qi where
  "keys_and_values = QSeq kv_pair (QStar (QSeq (QAlt (QLit '';'') (QLit ''&'')) kv_pair))"

text \<open>
  The text after the question mark; its position is held in an \<^verbatim>\<open>unsigned\<close>, so the test for
  \<^verbatim>\<open>npos\<close> always succeeds and without a question mark the whole text is taken.
\<close>

definition after_question :: "string \<Rightarrow> failure + string option" where
  "after_question input =
     (let found = unsigned_pos (str_find input ''?'')
      in if \<not> unsigned_is_npos found then map_sum id Some (substr_from input (size_of_unsigned (found + 1)))
         else Inr None)"

definition query_map :: "engine \<Rightarrow> string \<Rightarrow> (string \<times> string) list option" where
  "query_map run input =
     (case run keys_and_values input of (True, xs, _) \<Rightarrow> Some (as_map xs []) | (False, _, _) \<Rightarrow> None)"

definition decode_query_string_blobs :: "engine \<Rightarrow> string \<Rightarrow> failure + string list" where
  "decode_query_string_blobs run input =
     and_then (after_question input) (\<lambda>query.
       let input = (case query of Some q \<Rightarrow> q | None \<Rightarrow> input)
       in Inr (case query_map run input of
                 Some m \<Rightarrow> map snd (filter (\<lambda>(k, v). starts_with k ''blob'') m)
               | None \<Rightarrow> []))"

fun after_loop :: "(string \<times> string) list \<Rightarrow> string option" where
  "after_loop [] = None"
| "after_loop ((k, v) # m) = (if starts_with k ''after'' then Some v else after_loop m)"

definition decode_query_string_after :: "engine \<Rightarrow> string \<Rightarrow> failure + string option" where
  "decode_query_string_after run request_path =
     and_then (after_question request_path) (\<lambda>query.
       Inr (case query of
              Some q \<Rightarrow> (case query_map run q of Some m \<Rightarrow> after_loop m | None \<Rightarrow> None)
            | None \<Rightarrow> None))"

text \<open>The handler's own \<^verbatim>\<open>get_header\<close> compares names up to case.\<close>

fun handler_find_header :: "header list \<Rightarrow> string \<Rightarrow> string" where
  "handler_find_header [] lower_name = []"
| "handler_find_header (h # hs) lower_name =
     (if to_lower_copy (hdr_name h) = lower_name then hdr_value h else handler_find_header hs lower_name)"

definition handler_get_header :: "header list \<Rightarrow> string \<Rightarrow> string" where
  "handler_get_header hs name = handler_find_header hs (to_lower_copy name)"

section \<open>Handlers\<close>

text \<open>
  What a handler is given: the parser engine, the host, the configuration, and the compressor
  (\<^verbatim>\<open>ZopfliCompress\<close> with the default options), as a function from format and input to the output or the assertion that
  failed. \<open>Compressed_Reply\<close> puts the model of the compressor in its place.
\<close>

record env =
  engine :: engine
  host :: host
  config :: Config
  zopfli :: "ZopfliFormat \<Rightarrow> string \<Rightarrow> failure + string"

text \<open>
  The loop over a 512-byte buffer reads a file to its end: \<open>files\<close> gives what can be opened at a
  path, which as a C string ends at the first NUL.
\<close>

definition read_file :: "store \<Rightarrow> string \<Rightarrow> string option" where
  "read_file st path = files st (c_str path)"

definition with_length :: "reply \<Rightarrow> reply" where
  "with_length rep = push_header ''Content-Length'' (show_nat (length (rep_content rep))) rep"

definition extension_of :: "string \<Rightarrow> failure + string" where
  "extension_of request_path =
     (let last_slash_pos = str_find_last_of request_path (CHR ''/'');
          last_dot_pos = str_find_last_of request_path (CHR ''.'')
      in if last_dot_pos \<noteq> npos \<and> last_dot_pos > last_slash_pos
         then substr_from request_path (last_dot_pos + 1) else Inr [])"

definition handle_static :: "env \<Rightarrow> string \<Rightarrow> request \<Rightarrow> reply \<Rightarrow> store \<Rightarrow> failure + reply" where
  "handle_static env request_path req rep st =
     (let request_path =
            (if last request_path = CHR ''/'' then request_path @ ''index.html'' else request_path)
      in and_then (extension_of request_path) (\<lambda>extension.
           let full_path = static_directory (config env) @ request_path
           in Inr (case read_file st full_path of
                     None \<Rightarrow> stock_reply not_found
                   | Some content \<Rightarrow>
                       push_header ''Content-Type'' (extension_to_type extension)
                         (with_length (rep\<lparr>rep_status := ok, rep_content := rep_content rep @ content\<rparr>)))))"

text \<open>The sizes are \<^verbatim>\<open>int\<close>s.\<close>

definition size_text :: "store \<Rightarrow> nat \<Rightarrow> string" where
  "size_text st b = show_int (sint (blob_size (heap st ! b)))"

definition handle_check :: "string \<Rightarrow> request \<Rightarrow> reply \<Rightarrow> store \<Rightarrow> failure + reply" where
  "handle_check request_path req rep st =
     and_then (substr_from request_path 1) (\<lambda>blob_ref.
       Inr (case get_blob st blob_ref of
              None \<Rightarrow> stock_reply not_found
            | Some b \<Rightarrow>
                push_header ''Content-Type'' ''application/octet-stream''
                  (push_header ''Content-Length'' (size_text st b) (rep\<lparr>rep_status := ok\<rparr>))))"

definition output_type_for :: "string \<Rightarrow> ZopfliFormat option" where
  "output_type_for accept_encoding =
     (if accept_encoding \<noteq> []
      then (if starts_with accept_encoding ''gzip'' then Some ZOPFLI_FORMAT_GZIP
            else if starts_with accept_encoding ''deflate'' then Some ZOPFLI_FORMAT_DEFLATE
            else if starts_with accept_encoding ''zlib'' then Some ZOPFLI_FORMAT_ZLIB
            else None)
      else None)"

fun encoding_name :: "ZopfliFormat \<Rightarrow> string" where
  "encoding_name ZOPFLI_FORMAT_GZIP = ''gzip''"
| "encoding_name ZOPFLI_FORMAT_ZLIB = ''zlib''"
| "encoding_name ZOPFLI_FORMAT_DEFLATE = ''deflate''"

text \<open>The end of \<^verbatim>\<open>handle_get\<close>, once the file has been read: compression, if the client asked for it, and the headers.\<close>

definition finish_get :: "env \<Rightarrow> request \<Rightarrow> reply \<Rightarrow> string \<Rightarrow> failure + reply" where
  "finish_get env req rep content =
     (let fmt = output_type_for (handler_get_header (req_headers req) ''Accept-Encoding'');
          rep = rep\<lparr>rep_status := ok, rep_content := rep_content rep @ content\<rparr>
      in and_then (case fmt of
                     Some f \<Rightarrow> map_sum id (\<lambda>out. rep\<lparr>rep_content := out\<rparr>) (zopfli env f (rep_content rep))
                   | None \<Rightarrow> Inr rep) (\<lambda>rep.
           let rep = push_header ''Content-Type'' ''application/octet-stream'' (with_length rep)
           in Inr (case fmt of
                     Some f \<Rightarrow> push_header ''Content-Encoding'' (encoding_name f) rep
                   | None \<Rightarrow> rep)))"

definition handle_get :: "env \<Rightarrow> string \<Rightarrow> request \<Rightarrow> reply \<Rightarrow> store \<Rightarrow> failure + reply" where
  "handle_get env request_path req rep st =
     and_then (substr_from request_path 1) (\<lambda>blob_ref.
       (case get_blob st blob_ref of
          None \<Rightarrow> Inr (stock_reply not_found)
        | Some b \<Rightarrow>
            (case read_file st (filePath (heap st ! b)) of
               None \<Rightarrow> Inr (stock_reply not_found)
             | Some content \<Rightarrow> finish_get env req rep content)))"

text \<open>The JSON entry of a blob in the listings of \<^verbatim>\<open>handle_enumerate\<close> and \<^verbatim>\<open>handle_stat\<close>.\<close>

definition blob_value :: "store \<Rightarrow> string \<Rightarrow> nat \<Rightarrow> json" where
  "blob_value st ref b =
     Obj [(''blobRef'', JStr ref), (''size'', value_of_int (blob_size (heap st ! b)))]"

definition json_reply :: "json \<Rightarrow> reply \<Rightarrow> reply" where
  "json_reply result rep =
     push_header ''Content-Type'' ''application/json''
       (with_length (rep\<lparr>rep_status := ok, rep_content := json_write result @ crlf\<rparr>))"

fun enumerate_loop :: "store \<Rightarrow> (blob_key \<times> nat) list \<Rightarrow> nat \<Rightarrow> json list \<Rightarrow> json list" where
  "enumerate_loop st [] count stat = stat"
| "enumerate_loop st ((k, b) # bs) count stat =
     enumerate_loop st bs (count + 1)
       (if count < 25 then stat @ [blob_value st (blobref k) b] else stat)"

definition enumerate_result :: "store \<Rightarrow> string option \<Rightarrow> json" where
  "enumerate_result st after =
     (let blobs = paginate st after 26 [];
          stat = enumerate_loop st blobs 0 []
      in Obj ([(''blobs'', Arr stat)] @
              (if length blobs > 25 then [(''continueAfter'', JStr (blobref (fst (last blobs))))] else []) @
              [(''canLongPoll'', JStr ''false'')]))"

definition handle_enumerate :: "env \<Rightarrow> string \<Rightarrow> request \<Rightarrow> reply \<Rightarrow> store \<Rightarrow> failure + reply" where
  "handle_enumerate env request_path req rep st =
     and_then (decode_query_string_after (engine env) request_path) (\<lambda>after.
       Inr (json_reply (enumerate_result st after) rep))"

definition parse_boundry_header :: "engine \<Rightarrow> string \<Rightarrow> form_header" where
  "parse_boundry_header run header_value =
     (case run header_tokens header_value of
        (True, xs, _) \<Rightarrow> \<lparr>fh_name = ''Content-Type'', fh_attributes = as_map xs []\<rparr>
      | (False, _, _) \<Rightarrow> \<lparr>fh_name = ''Content-Type'', fh_attributes = []\<rparr>)"

text \<open>An exception of \<^verbatim>\<open>add_blob\<close> leaves the loop and the handler.\<close>

fun put_loop :: "env \<Rightarrow> part list \<Rightarrow> store \<Rightarrow> failure option \<times> store" where
  "put_loop env [] st = (None, st)"
| "put_loop env (p # ps) st =
     (if length (part_payload p) > 0
      then (case add_blob (host env) (config env) None (part_payload p) st of
              (Inl f, st') \<Rightarrow> (Some f, st')
            | (Inr _, st') \<Rightarrow> put_loop env ps st')
      else put_loop env ps st)"

definition handle_put :: "env \<Rightarrow> string \<Rightarrow> request \<Rightarrow> reply \<Rightarrow> store \<Rightarrow> (failure + reply) \<times> store" where
  "handle_put env request_path req rep st =
     (let body = req_content req;
          content_type = handler_get_header (req_headers req) ''Content-Type''
      in if content_type = [] then (Inr (stock_reply bad_request), st)
         else case attributeValue (parse_boundry_header (engine env) content_type) ''boundary'' of
                Some b \<Rightarrow>
                  (case put_loop env (parts (MultiPartFormData (engine env) b body)) st of
                     (Some f, st') \<Rightarrow> (Inl f, st')
                   | (None, st') \<Rightarrow> (Inr (rep\<lparr>rep_status := ok\<rparr>), st'))
              | None \<Rightarrow> (Inr (rep\<lparr>rep_status := ok\<rparr>), st))"

text \<open>The entries of a stat reply: the requested references the index knows, as they were given.\<close>

fun stat_loop :: "store \<Rightarrow> string list \<Rightarrow> json list \<Rightarrow> json list" where
  "stat_loop st [] stat = stat"
| "stat_loop st (blob # bs) stat =
     (case get_blob st blob of
        Some b \<Rightarrow> stat_loop st bs (stat @ [blob_value st blob b])
      | None \<Rightarrow> stat_loop st bs stat)"

definition stat_object :: "json list \<Rightarrow> json" where
  "stat_object stat =
     Obj [(''stat'', Arr stat),
          (''maxUploadSize'', value_of_int 1048576),
          (''uploadUrl'', JStr ''/upload''),
          (''uploadUrlExpirationSeconds'', value_of_int 7200),
          (''canLongPoll'', JBool False)]"

definition stat_result :: "store \<Rightarrow> string list \<Rightarrow> json" where
  "stat_result st refs = stat_object (stat_loop st refs [])"

text \<open>The references a stat request asks for; \<open>None\<close> when it is answered with \<^verbatim>\<open>bad_request\<close> at once.\<close>

definition stat_refs :: "env \<Rightarrow> string \<Rightarrow> request \<Rightarrow> failure + string list option" where
  "stat_refs env request_path req =
     (if req_method req = ''GET''
      then (let foundCamliVersion = unsigned_pos (str_find request_path ''camliversion=1'')
            in if unsigned_is_npos foundCamliVersion then Inr None
               else map_sum id Some (decode_query_string_blobs (engine env) request_path))
      else if req_method req = ''POST''
      then map_sum id Some (decode_query_string_blobs (engine env) (req_content req))
      else Inr (Some []))"

definition handle_stat :: "env \<Rightarrow> string \<Rightarrow> request \<Rightarrow> reply \<Rightarrow> store \<Rightarrow> failure + reply" where
  "handle_stat env request_path req rep st =
     and_then (stat_refs env request_path req) (\<lambda>refs.
       Inr (case refs of
              None \<Rightarrow> stock_reply bad_request
            | Some rs \<Rightarrow> json_reply (stat_result st rs) rep))"

definition handle_request :: "env \<Rightarrow> request \<Rightarrow> reply \<Rightarrow> store \<Rightarrow> (failure + reply) \<times> store" where
  "handle_request env req rep st =
     (case url_decode (req_uri req) of
        None \<Rightarrow> (Inr (stock_reply bad_request), st)
      | Some request_path \<Rightarrow>
          if request_path = [] \<or> hd request_path \<noteq> CHR ''/'' \<or> str_find request_path ''..'' \<noteq> npos
          then (Inr (stock_reply bad_request), st)
          else if starts_with request_path ''/static/''
          then (handle_static env request_path req rep st, st)
          else if starts_with request_path ''/stat''
          then (handle_stat env request_path req rep st, st)
          else if starts_with request_path ''/enumerate-blobs'' \<and> req_method req = ''GET''
          then (handle_enumerate env request_path req rep st, st)
          else if req_method req = ''HEAD''
          then (handle_check request_path req rep st, st)
          else if req_method req = ''GET''
          then (handle_get env request_path req rep st, st)
          else if req_method req = ''PUT'' \<or> req_method req = ''POST''
          then handle_put env request_path req rep st
          else (Inr (stock_reply bad_request), st))"

section \<open>Positions\<close>

text \<open>The positions the handlers pass to \<^verbatim>\<open>substr\<close> are in range, those after a first character for want of an empty path.\<close>

lemma after_question_eq:
  "after_question input = Inr (Some (drop (unat (unsigned_pos (str_find input ''?'') + 1)) input))"
  by (simp add: after_question_def substr_after_found)

lemma substr_from_first [simp]: "p \<noteq> [] \<Longrightarrow> substr_from p 1 = Inr (drop 1 p)"
  by (cases p) (simp_all add: substr_from_def)

lemma extension_of_returns: "\<exists>e. extension_of p = Inr e"
proof (cases "find_last (CHR ''.'') p")
  case (Some i)
  have "unat (of_nat i + 1 :: size_t) \<le> Suc (unat (of_nat i :: size_t))"
    by (simp add: unat_plus_if') linarith
  also have "\<dots> \<le> Suc i" by (simp add: unat_of_nat)
  also have "\<dots> \<le> length p" using find_last_bound [OF Some] by simp
  finally show ?thesis using Some by (simp add: extension_of_def str_find_last_of_def substr_from_def Let_def)
qed (simp add: extension_of_def str_find_last_of_def)

section \<open>Paths\<close>

lemma url_decode_plain:
  assumes "CHR ''%'' \<notin> set s" and "CHR ''+'' \<notin> set s"
  shows "url_decode s = Some s"
  using assms by (induction s) auto

lemma str_find_absent: "find_str pat s = None \<Longrightarrow> str_find s pat = npos"
  by (simp add: str_find_def)

lemma find_str_missing_char: "c \<notin> set s \<Longrightarrow> find_str (c # pat) s = None"
  by (induction s) auto

lemma c_str_plain: "NUL \<notin> set s \<Longrightarrow> c_str s = s"
  unfolding c_str_def by (simp add: takeWhile_eq_all_conv) blast

text \<open>The path of a reference: nothing in it is encoded, and no other handler claims it.\<close>

lemma hex_plain:
  assumes "is_hex n d"
  shows "CHR ''%'' \<notin> set d" "CHR ''+'' \<notin> set d" "CHR ''.'' \<notin> set d" "NUL \<notin> set d"
  using assms by (auto simp: is_hex_def hex_alphabet_def)

lemma digest_hex:
  assumes "hex_digests h"
  shows "\<exists>n. is_hex n (hash_value (key_for h x t))" "\<exists>n. is_hex n (Sha256 h x)"
  using assms by (cases t; force simp: hex_digests_def Sha1_def Sha256_def)+

lemma handle_request_blob:
  assumes "hex_digests (host env)" and "req_uri req = ''/'' @ blobref (key_for (host env) x t)"
  shows "handle_request env req rep st =
    (if req_method req = ''HEAD'' then (handle_check (req_uri req) req rep st, st)
     else if req_method req = ''GET'' then (handle_get env (req_uri req) req rep st, st)
     else if req_method req = ''PUT'' \<or> req_method req = ''POST'' then handle_put env (req_uri req) req rep st
     else (Inr (stock_reply bad_request), st))"
proof -
  let ?p = "''/'' @ blobref (key_for (host env) x t)"
  obtain n where "is_hex n (hash_value (key_for (host env) x t))"
    using digest_hex(1) [OF assms(1)] by blast
  note hex = hex_plain [OF this]
  have "CHR ''%'' \<notin> set ?p" "CHR ''+'' \<notin> set ?p" "CHR ''.'' \<notin> set ?p"
    using hex(1-3) by (cases t; auto simp: blobref_def)+
  then have "url_decode ?p = Some ?p" "str_find ?p ''..'' = npos"
    by (simp_all only: url_decode_plain str_find_absent find_str_missing_char not_False_eq_True)
  moreover have "\<not> starts_with ?p ''/static/''" "\<not> starts_with ?p ''/stat''"
      "\<not> starts_with ?p ''/enumerate-blobs''"
    by (cases t; simp add: blobref_def)+
  ultimately show ?thesis using assms(2) by (simp add: handle_request_def del: starts_with_Cons)
qed

section \<open>Downloads\<close>

definition fresh_reply :: "status_type \<Rightarrow> reply" where
  "fresh_reply s = \<lparr>rep_status = s, rep_headers = [], rep_content = []\<rparr>"

definition octet_reply :: "string \<Rightarrow> reply" where
  "octet_reply content =
     \<lparr>rep_status = ok,
      rep_headers = [make_header ''Content-Length'' (show_nat (length content)),
                     make_header ''Content-Type'' ''application/octet-stream''],
      rep_content = content\<rparr>"

text \<open>Configurations whose paths C strings can carry.\<close>

definition plain_paths :: "env \<Rightarrow> bool" where
  "plain_paths env \<longleftrightarrow> hex_digests (host env) \<and> NUL \<notin> set (directory (config env))"

lemma c_str_blob_path:
  assumes "plain_paths env"
  shows "c_str (blob_path (config env) (Sha256 (host env) x)) = blob_path (config env) (Sha256 (host env) x)"
proof (rule c_str_plain)
  obtain n where "is_hex n (Sha256 (host env) x)"
    using assms digest_hex(2) [of "host env" x] by (auto simp: plain_paths_def)
  note hex = hex_plain(4) [OF this]
  have "set (take 3 (Sha256 (host env) x)) \<subseteq> set (Sha256 (host env) x)" by (rule set_take_subset)
  with hex assms show "NUL \<notin> set (blob_path (config env) (Sha256 (host env) x))"
    by (auto simp: plain_paths_def blob_path_def blob_directory_def Let_def)
qed

lemma handle_get_contents:
  assumes "plain_paths env" and "index_ok (host env) (config env) st"
    and "create_blob_key r = Some k"
    and "output_type_for (handler_get_header (req_headers req) ''Accept-Encoding'') = None"
  shows "handle_get env (''/'' @ r) req (fresh_reply s) st =
    Inr (case contents st k of Some c \<Rightarrow> octet_reply c | None \<Rightarrow> stock_reply not_found)"
proof (cases "get_blob st r")
  case None
  then show ?thesis by (simp add: handle_get_def contents_get_blob [OF assms(3)])
next
  case (Some b)
  then have "map_find (blobs st) k = Some b" using assms(3) by (simp add: get_blob_def)
  from index_ok_entry [OF assms(2) this] obtain x
    where "filePath (heap st ! b) = blob_path (config env) (Sha256 (host env) x)"
    by (auto simp: entry_ok_def)
  then have "read_file st (filePath (heap st ! b)) = files st (filePath (heap st ! b))"
    using c_str_blob_path [OF assms(1)] by (simp add: read_file_def)
  with Some assms(4) show ?thesis
    by (auto simp: handle_get_def finish_get_def contents_get_blob [OF assms(3)] Let_def fresh_reply_def octet_reply_def
        with_length_def push_header_def split: option.splits)
qed

section \<open>Uploads\<close>

text \<open>Payloads that can be stored side by side: no digest collides, among them or with a file.\<close>

definition storable :: "env \<Rightarrow> string list \<Rightarrow> store \<Rightarrow> bool" where
  "storable env xs st \<longleftrightarrow>
     (\<forall>x \<in> set xs. files st (blob_path (config env) (Sha256 (host env) x)) \<in> {None, Some x}) \<and>
     (\<forall>x \<in> set xs. \<forall>y \<in> set xs. \<forall>t. key_for (host env) x t = key_for (host env) y t \<longrightarrow> x = y)"

definition writable :: "env \<Rightarrow> bool" where
  "writable env \<longleftrightarrow> (\<forall>d. mkdir_ok (host env) d) \<and> (\<forall>q. open_ok (host env) q)"

abbreviation nonempty :: "string list \<Rightarrow> string list" where
  "nonempty xs \<equiv> filter (\<lambda>x. x \<noteq> []) xs"

lemma storable_files:
  "storable env xs st \<Longrightarrow> x \<in> set xs \<Longrightarrow>
     files st (blob_path (config env) (Sha256 (host env) x)) \<in> {None, Some x}"
  unfolding storable_def by blast

lemma storable_keys:
  "storable env xs st \<Longrightarrow> \<forall>x \<in> set xs. \<forall>y \<in> set xs. \<forall>t. key_for (host env) x t = key_for (host env) y t \<longrightarrow> x = y"
  unfolding storable_def by blast

lemma storable_step:
  assumes "storable env (x # xs) st" and "files st' = (files st)(blob_path (config env) (Sha256 (host env) x) := Some x)"
  shows "storable env xs st'"
proof -
  have "x = y" if "y \<in> set xs" "Sha256 (host env) x = Sha256 (host env) y" for y
    using assms(1) that unfolding storable_def
    by (metis key_for.simps(2) list.set_intros)
  with assms show ?thesis by (auto simp: storable_def)
qed

lemma put_loop_contents:
  assumes "writable env" and "index_ok (host env) (config env) st" and "backed st"
    and "storable env (nonempty (map part_payload ps)) st"
  shows "\<exists>st'. put_loop env ps st = (None, st') \<and> index_ok (host env) (config env) st' \<and> backed st' \<and>
    contents st' = fold (abs_store (host env)) (nonempty (map part_payload ps)) (contents st)"
  using assms(2-)
proof (induction ps arbitrary: st)
  case Nil
  then show ?case by simp
next
  case (Cons p ps)
  show ?case
  proof (cases "part_payload p = []")
    case True
    with Cons show ?thesis by simp
  next
    case False
    have absent: "files st (blob_path (config env) (Sha256 (host env) (part_payload p))) \<in> {None, Some (part_payload p)}"
      by (rule storable_files [OF Cons.prems(3)]) (simp add: False)
    have "mkdir_ok (host env) d" "open_ok (host env) q" for d q
      using assms(1) by (simp_all add: writable_def)
    from add_blob_stores [OF Cons.prems(1,2) False this absent] obtain b st1 where st1: "add_blob (host env) (config env) None (part_payload p) st = (Inr (Some b), st1)"
        "index_ok (host env) (config env) st1" "backed st1"
        "contents st1 = abs_store (host env) (part_payload p) (contents st)"
        "files st1 = (files st)(blob_path (config env) (Sha256 (host env) (part_payload p)) := Some (part_payload p))"
      by blast
    have "storable env (nonempty (map part_payload ps)) st1"
      using Cons.prems(3) False st1(5) by (auto intro: storable_step)
    from Cons.IH [OF st1(2,3) this] False st1 show ?thesis by auto
  qed
qed

lemma contents_uploaded:
  assumes "x \<in> set xs" and "\<forall>x \<in> set xs. \<forall>y \<in> set xs. \<forall>t. key_for h x t = key_for h y t \<longrightarrow> x = y"
  shows "fold (abs_store h) xs m (key_for h x t) = Some x"
proof -
  have same: "y = x" if "key_for h x t \<in> keys_of h y" "y \<in> set xs" for y
  proof -
    have "key_for h x t = key_for h y t" using that(1) by (cases t) (auto simp: keys_of_def)
    with assms that(2) show ?thesis by blast
  qed
  have "fold (abs_store h) ys m (key_for h x t) =
      (if x \<in> set ys then Some x else m (key_for h x t))" if "set ys \<subseteq> set xs" for ys m
    using that
  proof (induction ys arbitrary: m)
    case Nil
    then show ?case by simp
  next
    case (Cons y ys)
    then show ?case using same [of y] by (auto simp: abs_store_def)
  qed
  with assms(1) show ?thesis by simp
qed

text \<open>The content type a client sends with a form.\<close>

definition form_type :: "string \<Rightarrow> string" where
  "form_type b = ''multipart/form-data; boundary='' @ b"

definition wf_boundary :: "string \<Rightarrow> bool" where
  "wf_boundary b \<longleftrightarrow> b \<noteq> [] \<and> (\<forall>c \<in> set b. is_ascii c) \<and> hd b \<noteq> dquote \<and> LF \<notin> set b"

lemma run_header_key:
  assumes "qi_engine run" and "k \<noteq> []" and "\<forall>c \<in> set k. is_ascii c \<and> c \<noteq> CHR ''='' \<and> c \<noteq> CHR '';''"
    and "d = CHR ''='' \<or> d = CHR '';''"
  shows "run header_tokens_key (k @ d # rest) = (True, [Str k], d # rest)"
proof -
  note qrun = qi_engineD [OF assms(1)]
  have "run (QPlus (QDiff QAscii (QSet ''=;''))) (k @ d # rest) = (True, map Ch k, d # rest)"
  proof (rule run_plus_chars [OF assms(1,2)])
    fix u c v
    assume "k = u @ c # v"
    then show "run (QDiff QAscii (QSet ''=;'')) (c # v @ d # rest) = (True, [Ch c], v @ d # rest)"
      using assms(3) by (auto simp: qrun q_diff_def)
  qed (use assms(4) in \<open>auto simp: qrun q_diff_def\<close>)
  then show ?thesis by (simp add: header_tokens_key_def qrun q_rule_def)
qed

lemma run_header_value:
  assumes "qi_engine run" and "wf_boundary b"
  shows "run header_tokens_value b = (True, [Str b], [])"
proof -
  note qrun = qi_engineD [OF assms(1)]
  have "run (QPlus QAscii) (b @ []) = (True, map Ch b, [])"
    using assms(2) by (intro run_plus_chars [OF assms(1)]) (auto simp: wf_boundary_def qrun)
  moreover have "q_lit [dquote] b = (False, [], b)"
    using assms(2) by (cases b) (auto simp: wf_boundary_def q_lit_def)
  ultimately show ?thesis
    by (simp add: header_tokens_value_def qrun q_rule_def q_alt_def q_seq_def)
qed

lemma parse_boundry_header_form:
  assumes "qi_engine run" and "wf_boundary b"
  shows "attributeValue (parse_boundry_header run (form_type b)) ''boundary'' = Some b"
proof -
  note qrun = qi_engineD [OF assms(1)]
  let ?tail = "''boundary=''"
  have "run header_tokens_pair (''multipart/form-data'' @ CHR '';'' # '' boundary='' @ b) =
      (True, [Pr ''multipart/form-data'' []], '';'' @ '' boundary='' @ b)"
    using run_header_key [OF assms(1), of "''multipart/form-data''" "CHR '';''" "'' boundary='' @ b"]
    by (simp add: header_tokens_pair_def qrun q_rule_def q_seq_def q_opt_def as_pair_def is_ascii_def)
  moreover have pair: "run header_tokens_pair (''boundary'' @ CHR ''='' # b) = (True, [Pr ''boundary'' b], [])"
    using run_header_key [OF assms(1), of "''boundary''" "CHR ''=''" b] run_header_value [OF assms]
    by (simp add: header_tokens_pair_def qrun q_rule_def q_seq_def q_opt_def as_pair_def is_ascii_def)
  moreover have "run (QStar (QLit '' '')) (concat (map (\<lambda>_. '' '') [()]) @ ?tail @ b) =
      (True, concat (map (\<lambda>_. []) [()]), ?tail @ b)"
    by (rule run_star_pieces [OF assms(1)]) (simp_all add: qrun)
  ultimately have "run (QSeq (QLit '';'') (QSeq (QStar (QLit '' '')) header_tokens_pair))
      (''; boundary='' @ b) = (True, [Pr ''boundary'' b], [])"
    by (simp add: qrun q_seq_def)
  moreover have "\<not> fst (run (QSeq (QLit '';'') (QSeq (QStar (QLit '' '')) header_tokens_pair)) [])"
    by (simp add: qrun q_seq_def q_lit_def)
  ultimately have "run (QStar (QSeq (QLit '';'') (QSeq (QStar (QLit '' '')) header_tokens_pair)))
      (''; boundary='' @ b) = (True, [Pr ''boundary'' b] @ [], [])"
    using run_star_stop [OF assms(1)] by (intro run_star_step [OF assms(1)]) auto
  with \<open>run header_tokens_pair (''multipart/form-data'' @ CHR '';'' # '' boundary='' @ b) = _\<close>
  have "run header_tokens (form_type b) = (True, [Pr ''multipart/form-data'' [], Pr ''boundary'' b], [])"
    by (simp add: header_tokens_def form_type_def qrun q_seq_def q_opt_def)
  moreover have "attribute_loop (as_map [Pr ''multipart/form-data'' [], Pr ''boundary'' b] []) ''boundary'' = Some b"
    by (simp add: to_lower_copy_def tolower_def)
  moreover have "to_lower_copy ''boundary'' = ''boundary''" by code_simp
  ultimately show ?thesis by (simp add: parse_boundry_header_def attributeValue_def)
qed

lemma handle_upload:
  assumes "qi_engine (engine env)" and "writable env"
    and "index_ok (host env) (config env) st" and "backed st"
    and "wf_boundary b" and "ps \<noteq> []" and "\<forall>p \<in> set ps. wf_part b p"
    and "storable env (nonempty (map snd ps)) st"
    and "req_method req \<in> {''PUT'', ''POST''}" and "req_uri req = ''/upload''"
    and "handler_get_header (req_headers req) ''Content-Type'' = form_type b"
    and "req_content req = render_form b ps"
  shows "\<exists>st'. handle_request env req rep st = (Inr (rep\<lparr>rep_status := ok\<rparr>), st') \<and>
    index_ok (host env) (config env) st' \<and> backed st' \<and>
    contents st' = fold (abs_store (host env)) (nonempty (map snd ps)) (contents st)"
proof -
  have "LF \<notin> set b" using assms(5) by (simp add: wf_boundary_def)
  then have payloads: "map part_payload (parts (MultiPartFormData (engine env) b (render_form b ps))) = map snd ps"
    using form_payloads [OF assms(1)] assms(6,7) by blast
  have path: "url_decode ''/upload'' = Some ''/upload''" "str_find ''/upload'' ''..'' = npos"
    by (simp_all add: str_find_def)
  have "handle_request env req rep st = handle_put env ''/upload'' req rep st"
    using assms(9) by (auto simp: handle_request_def assms(10) path)
  moreover have "attributeValue (parse_boundry_header (engine env) (form_type b)) ''boundary'' = Some b"
    by (rule parse_boundry_header_form [OF assms(1,5)])
  moreover have "form_type b \<noteq> []" by (simp add: form_type_def)
  ultimately show ?thesis
    using put_loop_contents [OF assms(2-4), of "parts (MultiPartFormData (engine env) b (render_form b ps))"]
      assms(8) payloads
    by (auto simp: handle_put_def assms(11,12))
qed

section \<open>Replies\<close>

text \<open>
  A reply the client can frame. No header field breaks a line. The declared length is that of the content, except
  that a HEAD request for an indexed blob is answered without content and with the size the blob is recorded with, and a
  successful upload by the bare status line, without a length.
\<close>

definition blob_request :: "request \<Rightarrow> string option" where
  "blob_request req =
     (case url_decode (req_uri req) of
        None \<Rightarrow> None
      | Some p \<Rightarrow>
          if p = [] \<or> hd p \<noteq> CHR ''/'' \<or> str_find p ''..'' \<noteq> npos \<or> starts_with p ''/static/'' \<or> starts_with p ''/stat''
          then None else Some (drop 1 p))"

definition plain_reply :: "reply \<Rightarrow> bool" where
  "plain_reply rep \<longleftrightarrow> (\<forall>h \<in> set (rep_headers rep). plain_header h)"

definition declares :: "string \<Rightarrow> reply \<Rightarrow> bool" where
  "declares n rep \<longleftrightarrow> find_header (rep_headers rep) ''Content-Length'' = n"

definition exact_length :: "reply \<Rightarrow> bool" where
  "exact_length rep \<longleftrightarrow> plain_reply rep \<and> declares (show_nat (length (rep_content rep))) rep"

definition framed :: "request \<Rightarrow> store \<Rightarrow> reply \<Rightarrow> bool" where
  "framed req st rep \<longleftrightarrow>
     plain_reply rep \<and>
     (case blob_request req of
        None \<Rightarrow> exact_length rep
      | Some ref \<Rightarrow>
          if req_method req = ''HEAD''
          then (case get_blob st ref of
                  Some b \<Rightarrow> declares (show_int (sint (blob_size (heap st ! b)))) rep \<and> rep_content rep = []
                | None \<Rightarrow> exact_length rep)
          else if req_method req \<in> {''PUT'', ''POST''} \<and> rep_status rep = ok
          then rep_headers rep = [] \<and> rep_content rep = []
          else exact_length rep)"

lemma stock_reply_exact [simp]: "exact_length (stock_reply s)"
  by (auto simp: exact_length_def plain_reply_def stock_reply_headers_plain)
    (simp add: declares_def stock_reply_def Let_def)

lemma json_reply_exact [simp]: "exact_length (json_reply j (fresh_reply s))"
  by (simp add: exact_length_def plain_reply_def declares_def json_reply_def with_length_def push_header_def fresh_reply_def plain_header_def)

lemma show_int_plain [simp]: "CR \<notin> set (show_int i)"
  by (simp add: show_int_def)

lemma extension_to_type_range: "extension_to_type_loop ms e \<in> insert ''text/plain'' (snd ` set ms)"
  by (induction ms e rule: extension_to_type_loop.induct) auto

lemma extension_to_type_plain [simp]: "CR \<notin> set (extension_to_type e)"
proof -
  have "\<forall>t \<in> insert ''text/plain'' (snd ` set mappings). CR \<notin> set t" by (simp add: mappings_def)
  then show ?thesis using extension_to_type_range unfolding extension_to_type_def by blast
qed

lemma encoding_name_plain [simp]: "CR \<notin> set (encoding_name f)"
  by (cases f) simp_all

lemma map_sum_Inr: "map_sum id g r = Inr y \<longleftrightarrow> (\<exists>x. r = Inr x \<and> y = g x)"
  by (cases r) auto

lemma finish_get_exact:
  assumes "finish_get env req (fresh_reply s) content = Inr rep"
  shows "exact_length rep"
  using assms
  by (auto simp: finish_get_def Let_def and_then_Inr map_sum_Inr split: option.split_asm)
    (simp_all add: exact_length_def plain_reply_def declares_def fresh_reply_def with_length_def push_header_def plain_header_def)

lemma handlers_exact:
  "handle_static env p req (fresh_reply s) st = Inr rep \<Longrightarrow> exact_length rep"
  "handle_get env p req (fresh_reply s) st = Inr rep \<Longrightarrow> exact_length rep"
  "handle_stat env p req (fresh_reply s) st = Inr rep \<Longrightarrow> exact_length rep"
  "handle_enumerate env p req (fresh_reply s) st = Inr rep \<Longrightarrow> exact_length rep"
proof -
  show "exact_length rep" if "handle_static env p req (fresh_reply s) st = Inr rep"
    using that by (auto simp: handle_static_def Let_def and_then_Inr split: option.splits)
      (simp_all add: exact_length_def plain_reply_def declares_def fresh_reply_def with_length_def push_header_def plain_header_def)
  show "exact_length rep" if "handle_get env p req (fresh_reply s) st = Inr rep"
    using that by (cases "substr_from p 1") (auto simp: handle_get_def split: option.splits intro: finish_get_exact)
  show "exact_length rep" if "handle_stat env p req (fresh_reply s) st = Inr rep"
    using that by (auto simp: handle_stat_def and_then_Inr split: option.splits)
  show "exact_length rep" if "handle_enumerate env p req (fresh_reply s) st = Inr rep"
    using that by (auto simp: handle_enumerate_def and_then_Inr)
qed

lemma handle_check_replies:
  assumes "p \<noteq> []" and "handle_check p req (fresh_reply s) st = Inr rep"
  shows "case get_blob st (drop 1 p) of
      Some b \<Rightarrow> plain_reply rep \<and> declares (show_int (sint (blob_size (heap st ! b)))) rep \<and> rep_content rep = []
    | None \<Rightarrow> exact_length rep"
  using assms
  by (auto simp: handle_check_def split: option.splits)
    (simp_all add: plain_reply_def declares_def fresh_reply_def push_header_def plain_header_def size_text_def)

lemma handle_put_replies:
  "handle_put env p req (fresh_reply s) st = (Inr rep, st') \<Longrightarrow> rep \<in> {stock_reply bad_request, fresh_reply ok}"
  by (auto simp: handle_put_def Let_def fresh_reply_def split: if_splits option.splits prod.splits)

lemma exact_length_plain: "exact_length rep \<Longrightarrow> plain_reply rep"
  by (simp add: exact_length_def)

lemma handle_request_framed:
  assumes "handle_request env req (fresh_reply s) st = (Inr rep, st')"
  shows "framed req st rep"
proof (cases "blob_request req")
  case None
  have "exact_length rep"
    using assms None
    by (auto simp: handle_request_def blob_request_def split: option.splits if_splits intro: handlers_exact)
  then show ?thesis using None by (simp add: framed_def exact_length_plain)
next
  case (Some ref)
  then obtain p where p: "url_decode (req_uri req) = Some p" "p \<noteq> []" "hd p = CHR ''/''" "str_find p ''..'' = npos"
      "\<not> starts_with p ''/static/''" "\<not> starts_with p ''/stat''" "ref = drop 1 p"
    by (auto simp: blob_request_def split: option.splits if_splits)
  consider "exact_length rep" "req_method req \<notin> {''HEAD'', ''PUT'', ''POST''}"
    | "req_method req = ''HEAD''" "handle_check p req (fresh_reply s) st = Inr rep"
    | "req_method req \<in> {''PUT'', ''POST''}" "handle_put env p req (fresh_reply s) st = (Inr rep, st')"
    using assms p by (auto simp: handle_request_def split: if_splits intro: handlers_exact)
  then show ?thesis
  proof cases
    case 1
    then show ?thesis using Some by (simp add: framed_def exact_length_plain)
  next
    case 2
    from handle_check_replies [OF p(2) 2(2)] 2(1) Some p(7) show ?thesis
      by (auto simp: framed_def exact_length_plain split: option.splits)
  next
    case 3
    have "framed req st (stock_reply bad_request)" "framed req st (fresh_reply ok)"
      using Some 3(1) by (auto simp: framed_def exact_length_plain) (auto simp: stock_reply_def Let_def fresh_reply_def plain_reply_def)
    with handle_put_replies [OF 3(2)] show ?thesis by auto
  qed
qed

lemma framed_plain: "framed req st rep \<Longrightarrow> plain_reply rep"
  by (simp add: framed_def)

section \<open>Failures\<close>

lemma add_blob_fails:
  assumes "add_blob h cfg provided bytes st = (Inl f, st')" and "bytes \<noteq> []"
  shows "\<exists>d. f = Filesystem_error d \<and> \<not> mkdir_ok h d"
  using assms
  by (auto simp: add_blob_def add_blob_types_def create_path_def Let_def split: if_splits)

lemma put_loop_fails:
  "put_loop env ps st = (Some f, st') \<Longrightarrow> \<exists>d. f = Filesystem_error d \<and> \<not> mkdir_ok (host env) d"
  by (induction ps arbitrary: st)
    (auto split: if_splits prod.splits sum.splits dest: add_blob_fails)

text \<open>Why handling a request can fail: a directory cannot be made, or the compressor fails on what a file holds.\<close>

definition request_fails :: "env \<Rightarrow> failure \<Rightarrow> bool" where
  "request_fails env f \<longleftrightarrow>
     (\<exists>d. f = Filesystem_error d \<and> \<not> mkdir_ok (host env) d) \<or> (\<exists>fmt content. zopfli env fmt content = Inl f)"

definition wants :: "request \<Rightarrow> ZopfliFormat option" where
  "wants req = output_type_for (handler_get_header (req_headers req) ''Accept-Encoding'')"

lemma finish_get_fails:
  assumes "finish_get env req rep content = Inl f"
  shows "\<exists>fmt. wants req = Some fmt \<and> zopfli env fmt (rep_content rep @ content) = Inl f"
proof (cases "wants req")
  case (Some fmt)
  with assms show ?thesis
    by (cases "zopfli env fmt (rep_content rep @ content)") (auto simp: finish_get_def wants_def Let_def)
qed (use assms in \<open>simp add: finish_get_def wants_def Let_def\<close>)

lemma readers_return:
  "\<exists>q. decode_query_string_after run p = Inr q" "\<exists>rs. decode_query_string_blobs run p = Inr rs"
  "\<exists>rs. stat_refs env p req = Inr rs"
  by (simp_all add: decode_query_string_after_def decode_query_string_blobs_def after_question_eq stat_refs_def)

lemma handlers_return:
  "\<exists>r. handle_static env p req rep st = Inr r" "\<exists>r. handle_stat env p req rep st = Inr r"
  "\<exists>r. handle_enumerate env p req rep st = Inr r" "p \<noteq> [] \<Longrightarrow> \<exists>r. handle_check p req rep st = Inr r"
proof -
  obtain e where "extension_of (if last p = CHR ''/'' then p @ ''index.html'' else p) = Inr e"
    using extension_of_returns by blast
  then show "\<exists>r. handle_static env p req rep st = Inr r" by (simp add: handle_static_def Let_def)
  show "\<exists>r. handle_stat env p req rep st = Inr r"
    using readers_return(3) [of env p req] by (auto simp: handle_stat_def)
  show "\<exists>r. handle_enumerate env p req rep st = Inr r"
    using readers_return(1) [of "engine env" p] by (auto simp: handle_enumerate_def)
  show "p \<noteq> [] \<Longrightarrow> \<exists>r. handle_check p req rep st = Inr r" by (simp add: handle_check_def)
qed

text \<open>The compressor fails on the content of the blob a GET asks for.\<close>

definition compression_fails :: "env \<Rightarrow> request \<Rightarrow> reply \<Rightarrow> store \<Rightarrow> failure \<Rightarrow> bool" where
  "compression_fails env req rep st f \<longleftrightarrow>
     req_method req = ''GET'' \<and>
     (\<exists>ref b content fmt. blob_request req = Some ref \<and> get_blob st ref = Some b \<and>
        read_file st (filePath (heap st ! b)) = Some content \<and> wants req = Some fmt \<and>
        zopfli env fmt (rep_content rep @ content) = Inl f)"

lemma handle_get_fails:
  assumes "handle_get env p req rep st = Inl f" and "blob_request req = Some (drop 1 p)" and "p \<noteq> []"
    and "req_method req = ''GET''"
  shows "compression_fails env req rep st f"
  using assms by (auto simp: handle_get_def compression_fails_def split: option.splits dest!: finish_get_fails)

lemma handlers_not_Inl:
  "handle_static env p req rep st \<noteq> Inl f" "handle_stat env p req rep st \<noteq> Inl f"
  "handle_enumerate env p req rep st \<noteq> Inl f" "p \<noteq> [] \<Longrightarrow> handle_check p req rep st \<noteq> Inl f"
  using handlers_return(1-3) [of env p req rep st] handlers_return(4) [of p req rep st] by auto

lemma handle_request_fails_cases:
  assumes "handle_request env req rep st = (Inl f, st')"
  shows "req_method req \<in> {''PUT'', ''POST''} \<and> (\<exists>d. f = Filesystem_error d \<and> \<not> mkdir_ok (host env) d) \<or>
    compression_fails env req rep st f"
proof -
  obtain p where p: "url_decode (req_uri req) = Some p" "p \<noteq> []" "hd p = CHR ''/''" "str_find p ''..'' = npos"
      "\<not> starts_with p ''/static/''" "\<not> starts_with p ''/stat''"
    using assms by (auto simp: handle_request_def handlers_not_Inl split: option.splits if_splits)
  then have "blob_request req = Some (drop 1 p)" by (simp add: blob_request_def)
  with p assms show ?thesis
    by (auto simp: handle_request_def handlers_not_Inl handle_put_def Let_def
        split: if_splits option.splits prod.splits dest: put_loop_fails handle_get_fails)
qed

lemma handle_request_fails: "handle_request env req rep st = (Inl f, st') \<Longrightarrow> request_fails env f"
  using handle_request_fails_cases unfolding request_fails_def compression_fails_def by blast

lemma put_loop_steps: "(index_step (host env) (config env))\<^sup>*\<^sup>* st (snd (put_loop env ps st))"
proof (induction ps arbitrary: st)
  case Nil
  then show ?case by simp
next
  case (Cons p ps)
  obtain r st1 where add: "add_blob (host env) (config env) None (part_payload p) st = (r, st1)"
    by (cases "add_blob (host env) (config env) None (part_payload p) st")
  from index_step.add [OF this] have "index_step (host env) (config env) st st1" .
  with Cons [of st1] add Cons [of st] show ?case
    by (auto split: sum.splits intro: converse_rtranclp_into_rtranclp)
qed

lemma handle_request_steps:
  "(index_step (host env) (config env))\<^sup>*\<^sup>* st (snd (handle_request env req rep st))"
proof -
  have "(index_step (host env) (config env))\<^sup>*\<^sup>* st (snd (handle_put env p req rep st))" for p
    using put_loop_steps [of env st]
    by (auto simp: handle_put_def Let_def split: option.splits prod.splits) (metis snd_conv)+
  then show ?thesis by (auto simp: handle_request_def split: option.splits)
qed

lemma steps_inv:
  assumes "(index_step h cfg)\<^sup>*\<^sup>* st st'" and "index_ok h cfg st" and "files_ok h cfg st"
  shows "index_ok h cfg st' \<and> files_ok h cfg st'"
  using assms(1)
proof (induction rule: rtranclp_induct)
  case (step s s')
  then show ?case using index_step_inv by blast
qed (use assms in simp)

section \<open>Files a request can read\<close>

lemma str_find_npos:
  assumes "length s < 2 ^ 64 - 1"
  shows "str_find s pat = npos \<longleftrightarrow> find_str pat s = None"
proof (cases "find_str pat s")
  case (Some i)
  then have i: "i < 2 ^ 64 - 1" using find_str_bound [of pat s i] assms by simp
  then have "unat (of_nat i :: size_t) = i" by (simp only: unat_of_nat) simp
  moreover have "unat npos = 2 ^ 64 - 1"
    by (simp add: npos_def unsigned_minus_1_eq_mask mask_eq_exp_minus_1)
  ultimately have "(of_nat i :: size_t) \<noteq> npos" using i by fastforce
  then show ?thesis using Some by (simp add: str_find_def)
qed (simp add: str_find_def)

text \<open>
  The paths a request may open for reading: below the static directory, by a path without
  \<^verbatim>\<open>..\<close>, and the files of indexed blobs.
\<close>

definition static_paths :: "env \<Rightarrow> string set" where
  "static_paths env =
     {c_str (static_directory (config env) @ p) | p. starts_with p ''/static/'' \<and> find_str ''..'' p = None}"

definition blob_paths :: "store \<Rightarrow> string set" where
  "blob_paths st = {c_str (filePath (heap st ! a)) | k a. map_find (blobs st) k = Some a}"

lemma url_decode_length: "url_decode s = Some p \<Longrightarrow> length p \<le> length s"
proof (induction s arbitrary: p rule: url_decode.induct)
  case 1
  then show ?case by simp
next
  case (2 c cs)
  then show ?case by (auto split: if_splits list.splits option.splits) fastforce+
qed

lemma find_str_append_dots:
  assumes "find_str ''..'' p = None" and "p \<noteq> []" and "last p \<noteq> CHR ''.''"
    and "find_str ''..'' q = None"
  shows "find_str ''..'' (p @ q) = None"
  using assms(1-3)
proof (induction p)
  case Nil
  then show ?case by simp
next
  case (Cons c p)
  then show ?case using assms(4) by (cases p) (auto split: if_splits)
qed

lemma starts_with_append_mono: "starts_with p pat \<Longrightarrow> starts_with (p @ q) pat"
  by (metis append_assoc starts_with_append starts_withE)

lemma handle_static_reads:
  assumes "starts_with p ''/static/''" and "find_str ''..'' p = None"
    and "\<forall>q \<in> static_paths env. files st' q = files st q"
  shows "handle_static env p req rep st' = handle_static env p req rep st"
proof -
  let ?p = "if last p = CHR ''/'' then p @ ''index.html'' else p"
  have "p \<noteq> []" using assms(1) by auto
  have "find_str ''..'' ?p = None"
  proof (cases "last p = CHR ''/''")
    case True
    have "find_str ''..'' ''index.html'' = None" by simp
    with True show ?thesis using find_str_append_dots [OF assms(2) \<open>p \<noteq> []\<close>] by simp
  qed (use assms(2) in simp)
  moreover have "starts_with ?p ''/static/''"
    using assms(1) starts_with_append_mono by (simp del: starts_with_Cons)
  ultimately have "c_str (static_directory (config env) @ ?p) \<in> static_paths env"
    unfolding static_paths_def by blast
  with assms(3) have "read_file st' (static_directory (config env) @ ?p) =
      read_file st (static_directory (config env) @ ?p)"
    by (simp add: read_file_def)
  then show ?thesis unfolding handle_static_def Let_def by (simp only:)
qed

lemma handle_get_reads:
  assumes "blobs st' = blobs st" and "heap st' = heap st" and "\<forall>q \<in> blob_paths st. files st' q = files st q"
  shows "handle_get env p req rep st' = handle_get env p req rep st"
proof -
  have get: "get_blob st' r = get_blob st r" for r unfolding get_blob_def assms(1) ..
  have "read_file st' (filePath (heap st ! a)) = read_file st (filePath (heap st ! a))" if "get_blob st r = Some a" for r a
  proof -
    have "c_str (filePath (heap st ! a)) \<in> blob_paths st"
      using that unfolding blob_paths_def get_blob_def by (auto split: option.splits)
    with assms(3) show ?thesis by (simp add: read_file_def)
  qed
  then show ?thesis unfolding handle_get_def
    by (intro and_then_cong [OF refl]) (simp add: get assms(2) split: option.split)
qed

lemma index_handlers_read_no_file:
  assumes "blobs st' = blobs st" and "heap st' = heap st"
  shows "handle_check p req rep st' = handle_check p req rep st"
    and "handle_stat env p req rep st' = handle_stat env p req rep st"
    and "handle_enumerate env p req rep st' = handle_enumerate env p req rep st"
proof -
  have get: "get_blob st' = get_blob st" by (rule ext) (simp only: get_blob_def assms(1))
  have entry: "blob_value st' = blob_value st" by (intro ext) (simp add: blob_value_def assms(2))
  show "handle_check p req rep st' = handle_check p req rep st"
    by (simp only: handle_check_def get size_text_def assms(2))
  have "stat_loop st' refs acc = stat_loop st refs acc" for refs acc
    by (induction refs arbitrary: acc) (auto simp: get entry split: option.splits)
  then have "stat_result st' = stat_result st" by (intro ext) (simp add: stat_result_def)
  then show "handle_stat env p req rep st' = handle_stat env p req rep st" by (simp only: handle_stat_def)
  have page: "paginate st' = paginate st" by (intro ext) (simp only: paginate_def assms(1))
  have "enumerate_loop st' bs n acc = enumerate_loop st bs n acc" for bs n acc
    by (induction bs arbitrary: n acc) (auto simp: entry)
  then have "enumerate_result st' = enumerate_result st" using page by (intro ext) (simp add: enumerate_result_def)
  then show "handle_enumerate env p req rep st' = handle_enumerate env p req rep st" by (simp only: handle_enumerate_def)
qed

section \<open>Percent-encoding\<close>

definition percent :: "char \<Rightarrow> string" where
  "percent c = [CHR ''%'', to_hex_char (of_char c div 16), to_hex_char (of_char c mod 16)]"

text \<open>An encoder may keep any characters but the percent sign and the plus sign.\<close>

definition url_encode :: "(char \<Rightarrow> bool) \<Rightarrow> string \<Rightarrow> string" where
  "url_encode keep s =
     concat (map (\<lambda>c. if keep c \<and> c \<noteq> CHR ''%'' \<and> c \<noteq> CHR ''+'' then [c] else percent c) s)"

lemma hex_char_facts:
  assumes "a < 16"
  shows "is_hex_char (to_hex_char a)" "\<not> is_space_char (to_hex_char a)"
    "to_hex_char a \<noteq> CHR ''-''" "to_hex_char a \<noteq> CHR ''+''"
    "to_hex_char a \<noteq> CHR ''x''" "to_hex_char a \<noteq> CHR ''X''"
proof -
  have "a \<in> set [0..<16]" using assms by simp
  moreover have "\<forall>a \<in> set [0..<16]. is_hex_char (to_hex_char a) \<and> \<not> is_space_char (to_hex_char a) \<and>
      to_hex_char a \<notin> set ''-+xX''" by code_simp
  ultimately show "is_hex_char (to_hex_char a)" "\<not> is_space_char (to_hex_char a)"
    "to_hex_char a \<noteq> CHR ''-''" "to_hex_char a \<noteq> CHR ''+''"
    "to_hex_char a \<noteq> CHR ''x''" "to_hex_char a \<noteq> CHR ''X''" by auto
qed

lemma extract_hex_digits:
  assumes "a < 16" and "b < 16"
  shows "extract_hex [to_hex_char a, to_hex_char b] = Some (int (16 * a + b))"
  using assms by (simp add: extract_hex_def Let_def hex_char_facts hex_val_def)

lemma url_decode_percent: "url_decode (percent c @ s) = map_option (Cons c) (url_decode s)"
proof -
  have n: "(of_char c :: nat) div 16 < 16" by (rule less_mult_imp_div_less) simp
  have "extract_hex [to_hex_char (of_char c div 16), to_hex_char (of_char c mod 16)] =
      Some (int (of_char c))"
    using extract_hex_digits [OF n, of "of_char c mod 16"] by (simp add: mult.commute)
  moreover have "int (of_char c) mod 256 = int (of_char c)" by simp
  ultimately show ?thesis by (simp add: percent_def)
qed

lemma url_decode_encode: "url_decode (url_encode keep s) = Some s"
  by (induction s) (auto simp: url_encode_def url_decode_percent)

section \<open>An example\<close>

definition sample_env :: env where
  "sample_env =
     \<lparr>engine = peg, host = sample_host, config = Config_default\<lparr>static_directory := ''./static/''\<rparr>,
      zopfli = (\<lambda>_ s. Inr s)\<rparr>"

definition simple_request :: "string \<Rightarrow> string \<Rightarrow> header list \<Rightarrow> string \<Rightarrow> request" where
  "simple_request m u hs c =
     \<lparr>req_method = m, req_uri = u, http_version_major = 1, http_version_minor = 1,
      req_headers = hs, req_content = c\<rparr>"

definition sample_upload :: request where
  "sample_upload =
     simple_request ''POST'' ''/upload'' [make_header ''content-type'' (form_type ''B'')]
       (render_form ''B'' [sample_part])"

lemma sample_env_ok:
  "qi_engine (engine sample_env)" "plain_paths sample_env" "writable sample_env"
  "index_ok (host sample_env) (config sample_env) (empty_store (\<lambda>_. None))"
  "backed (empty_store (\<lambda>_. None))"
  "storable sample_env [x] (empty_store (\<lambda>_. None))"
  by (simp_all add: sample_env_def qi_engine_peg plain_paths_def hex_digests_sample writable_def
      sample_host_def Config_default_def index_ok_def backed_def empty_store_def storable_def
      hex_digests_sample [unfolded sample_host_def])

lemma sample_upload_ok:
  "req_method sample_upload \<in> {''PUT'', ''POST''}" "req_uri sample_upload = ''/upload''"
  "handler_get_header (req_headers sample_upload) ''Content-Type'' = form_type ''B''"
  "req_content sample_upload = render_form ''B'' [sample_part]"
  "wf_boundary ''B''"
proof -
  have "to_lower_copy ''Content-Type'' = ''content-type''" "to_lower_copy ''content-type'' = ''content-type''"
    by code_simp+
  then show "handler_get_header (req_headers sample_upload) ''Content-Type'' = form_type ''B''"
    by (simp add: sample_upload_def simple_request_def handler_get_header_def)
qed (simp_all add: sample_upload_def simple_request_def wf_boundary_def is_ascii_def)

section \<open>Properties\<close>

text \<open>
  C1. What was uploaded can be downloaded: when a form of ASCII parts is posted to the upload URL, whose nonempty payloads do
  not collide (no two of them agree in a digest, which is of the bytes up to the first NUL, and no other content is
  in the file of their digest), on a platform that lets the server write, the upload is answered 200 and a GET, without
  compression, of the SHA-1 or the SHA-256 reference of any nonempty payload answers 200 with exactly its bytes and
  their length. The names of the parts are not looked at: a part under a wrong reference is stored under its own.
\<close>

theorem upload_then_download:
  assumes "qi_engine (engine env)" and "plain_paths env" and "writable env"
    and "index_ok (host env) (config env) st" and "backed st"
    and "wf_boundary b" and "ps \<noteq> []" and "\<forall>p \<in> set ps. wf_part b p"
    and "storable env (nonempty (map snd ps)) st"
    and "req_method up \<in> {''PUT'', ''POST''}" and "req_uri up = ''/upload''"
    and "handler_get_header (req_headers up) ''Content-Type'' = form_type b"
    and "req_content up = render_form b ps"
    and "x \<in> set (map snd ps)" and "x \<noteq> []"
    and "req_method down = ''GET''" and "req_uri down = ''/'' @ blobref (key_for (host env) x t)"
    and "output_type_for (handler_get_header (req_headers down) ''Accept-Encoding'') = None"
  shows "\<exists>st'. handle_request env up rep st = (Inr (rep\<lparr>rep_status := ok\<rparr>), st') \<and>
    handle_request env down (fresh_reply s) st' = (Inr (octet_reply x), st')"
proof -
  obtain st' where st': "handle_request env up rep st = (Inr (rep\<lparr>rep_status := ok\<rparr>), st')"
      "index_ok (host env) (config env) st'"
      "contents st' = fold (abs_store (host env)) (nonempty (map snd ps)) (contents st)"
    using handle_upload [OF assms(1,3-13)] by blast
  have "contents st' (key_for (host env) x t) = Some x"
    unfolding st'(3) by (rule contents_uploaded [OF _ storable_keys [OF assms(9)]]) (use assms(14,15) in simp)
  moreover have "create_blob_key (blobref (key_for (host env) x t)) = Some (key_for (host env) x t)"
    by (rule create_blob_key_keys_of [OF key_for_in_keys_of])
  moreover have "hex_digests (host env)" using assms(2) by (simp add: plain_paths_def)
  ultimately have "handle_request env down (fresh_reply s) st' = (Inr (octet_reply x), st')"
    using handle_get_contents [OF assms(2) st'(2) _ assms(18)]
    by (simp add: handle_request_blob [OF _ assms(17)] assms(16,17) del: key_for.simps append.simps)
  with st'(1) show ?thesis by blast
qed

theorem upload_then_download_witness:
  "\<exists>st'. handle_request sample_env sample_upload (fresh_reply ok) (empty_store (\<lambda>_. None)) =
       (Inr (fresh_reply ok), st') \<and>
     handle_request sample_env
       (simple_request ''GET'' (''/'' @ blobref (key_for (host sample_env) (snd sample_part) sha1)) [] [])
       (fresh_reply ok) st' = (Inr (octet_reply (snd sample_part)), st')"
proof -
  have "storable sample_env (nonempty (map snd [sample_part])) (empty_store (\<lambda>_. None))"
    using sample_env_ok(6) [of "snd sample_part"] by (simp add: sample_part_def)
  from upload_then_download [OF sample_env_ok(1-5) sample_upload_ok(5) _ _ this sample_upload_ok(1-4),
      where x = "snd sample_part" and rep = "fresh_reply ok" and s = ok and t = sha1 and
      down = "simple_request ''GET'' (''/'' @ blobref (key_for (host sample_env) (snd sample_part) sha1)) [] []"]
  show ?thesis
    using sample_part_wf
    by (simp add: sample_part_def simple_request_def handler_get_header_def output_type_for_def
        fresh_reply_def del: key_for.simps)
qed



text \<open>
  C30. A client can frame every reply: on the fresh reply of a connection, whatever the request, no header field of a returned
  reply breaks a line, and the declared length is exactly the content's; a HEAD request for an indexed blob is answered
  without content and declares the size recorded with the blob, and a successful upload is answered by the bare status
  line without a length.
\<close>

theorem replies_are_framed:
  assumes "handle_request env req (fresh_reply s) st = (Inr rep, st')"
  shows "framed req st rep"
  using assms by (rule handle_request_framed)

theorem replies_are_framed_witness:
  "framed (simple_request ''HEAD'' (''/'' @ blobref (key_for sample_host ''hi'' sha256)) [] []) sample_store
     (push_header ''Content-Type'' ''application/octet-stream'' (push_header ''Content-Length'' ''2'' (fresh_reply ok)))"
proof -
  let ?ref = "blobref (key_for sample_host ''hi'' sha256)"
  let ?req = "simple_request ''HEAD'' (''/'' @ ?ref) [] []"
  have "get_blob sample_store ?ref = Some 0" "show_int (sint (blob_size (heap sample_store ! 0))) = ''2''" by code_simp+
  then have "handle_check (''/'' @ ?ref) ?req (fresh_reply ok) sample_store =
      Inr (push_header ''Content-Type'' ''application/octet-stream'' (push_header ''Content-Length'' ''2'' (fresh_reply ok)))"
    by (simp add: handle_check_def size_text_def fresh_reply_def push_header_def del: key_for.simps)
  moreover have "handle_request sample_env ?req (fresh_reply ok) sample_store =
      (handle_check (''/'' @ ?ref) ?req (fresh_reply ok) sample_store, sample_store)"
    using handle_request_blob [of sample_env ?req "''hi''" sha256 "fresh_reply ok" sample_store] sample_env_ok(2)
    by (simp add: simple_request_def plain_paths_def sample_env_def del: key_for.simps)
  ultimately show ?thesis using replies_are_framed [of sample_env ?req ok sample_store] by (simp del: key_for.simps)
qed

text \<open>
  C23. Requests cannot read other files: the answer to any request that is neither PUT nor POST depends, beside
  the index, only on the files of indexed blobs and on files below the static directory reached by a
  path without \<^verbatim>\<open>..\<close>, and such a request changes nothing.
\<close>

theorem file_access_confined:
  assumes "length (req_uri req) < 2 ^ 64 - 1" and "req_method req \<notin> {''PUT'', ''POST''}"
    and "blobs st' = blobs st" and "heap st' = heap st"
    and "\<forall>q \<in> static_paths env \<union> blob_paths st. files st' q = files st q"
  shows "fst (handle_request env req rep st') = fst (handle_request env req rep st) \<and>
    snd (handle_request env req rep st) = st"
proof (cases "url_decode (req_uri req)")
  case None
  then show ?thesis by (simp add: handle_request_def)
next
  case (Some p)
  then have "length p < 2 ^ 64 - 1" using assms(1) url_decode_length by fastforce
  note dots = str_find_npos [OF this, of "''..''"]
  have "handle_static env p req rep st' = handle_static env p req rep st"
    if "starts_with p ''/static/''" "str_find p ''..'' = npos"
    using that assms(5) dots by (intro handle_static_reads) auto
  moreover have "handle_get env p req rep st' = handle_get env p req rep st"
    using assms(3-5) by (intro handle_get_reads) auto
  ultimately show ?thesis
    using assms(2) Some index_handlers_read_no_file [OF assms(3,4)]
    by (auto simp: handle_request_def)
qed

theorem file_access_confined_witness:
  "fst (handle_request sample_env (simple_request ''GET'' ''/static/'' [] []) (fresh_reply ok)
         ((empty_store (\<lambda>_. None))\<lparr>files := (\<lambda>_. None)(''/etc/passwd'' := Some ''x'')\<rparr>)) =
   fst (handle_request sample_env (simple_request ''GET'' ''/static/'' [] []) (fresh_reply ok)
         (empty_store (\<lambda>_. None)))"
proof -
  have "\<forall>q \<in> static_paths sample_env \<union> blob_paths (empty_store (\<lambda>_. None)).
      files ((empty_store (\<lambda>_. None))\<lparr>files := (\<lambda>_. None)(''/etc/passwd'' := Some ''x'')\<rparr>) q =
      files (empty_store (\<lambda>_. None)) q"
    by (auto simp: static_paths_def blob_paths_def sample_env_def empty_store_def c_str_def)
  from file_access_confined [OF _ _ _ _ this] show ?thesis
    by (simp add: simple_request_def empty_store_def)
qed

text \<open>
  Decoding a URL inverts percent-encoding, whichever characters the client chose to encode, for
  every byte string.
\<close>

theorem url_decode_roundtrip: "url_decode (url_encode keep s) = Some s"
  by (rule url_decode_encode)

text \<open>
  The version check of a stat request never rejects: with or without the version parameter in its
  path, a GET under \<^verbatim>\<open>/stat\<close> is answered 200, because the position of the parameter is kept in an
  \<^verbatim>\<open>unsigned\<close> that is never \<^verbatim>\<open>npos\<close>.
\<close>

theorem stat_ignores_version:
  assumes "req_method req = ''GET''"
  shows "\<exists>rs. decode_query_string_blobs (engine env) p = Inr rs \<and>
    handle_stat env p req rep st = Inr (json_reply (stat_result st rs) rep)"
  using assms readers_return(2) [of "engine env" p] by (auto simp: handle_stat_def stat_refs_def)

theorem stat_ignores_version_witness:
  "\<exists>rs. handle_stat sample_env ''/stat?blob1=sha1-0'' (simple_request ''GET'' ''/stat?blob1=sha1-0'' [] [])
     (fresh_reply bad_request) (empty_store (\<lambda>_. None)) =
     Inr (json_reply (stat_result (empty_store (\<lambda>_. None)) rs) (fresh_reply bad_request))"
  using stat_ignores_version [of "simple_request ''GET'' ''/stat?blob1=sha1-0'' [] []" sample_env "''/stat?blob1=sha1-0''"]
  by (auto simp: simple_request_def)

text \<open>
  C29. No request trips a range check or an assertion of the handler: handling a request fails only when it is an upload and
  a directory for a blob cannot be created, or when it is a GET of an indexed blob by a client that accepts a compressed
  form and the compressor fails on the blob's content. Whatever the outcome, the index changed only by steps of
  \<^verbatim>\<open>add_blob\<close>.
\<close>

theorem request_failures:
  "(case handle_request env req rep st of
      (Inl f, st') \<Rightarrow>
        req_method req \<in> {''PUT'', ''POST''} \<and> (\<exists>d. f = Filesystem_error d \<and> \<not> mkdir_ok (host env) d) \<or>
        compression_fails env req rep st f
    | (Inr rep', st') \<Rightarrow> True) \<and>
   (index_step (host env) (config env))\<^sup>*\<^sup>* st (snd (handle_request env req rep st))"
proof -
  have "case handle_request env req rep st of
      (Inl f, st') \<Rightarrow>
        req_method req \<in> {''PUT'', ''POST''} \<and> (\<exists>d. f = Filesystem_error d \<and> \<not> mkdir_ok (host env) d) \<or>
        compression_fails env req rep st f
    | (Inr rep', st') \<Rightarrow> True"
    using handle_request_fails_cases [of env req rep st] by (auto split: prod.split sum.split)
  with handle_request_steps [of env st req rep] show ?thesis by blast
qed

end
