(* ===== verification/Handler_Steps.thy ===== *)
theory Handler_Steps
  imports Request_Handler
begin

text \<open>
  The request handlers as the threads of the server execute them (\<^verbatim>\<open>request_handler.cpp\<close>): the mutex of the index is held
  during a call of \<^verbatim>\<open>add_blob\<close> or \<^verbatim>\<open>get\<close> only, so that between two such calls, and between a call and the reading of a file,
  other threads work on the index. A handler is a resumption: what it does to the store in one uninterrupted piece, and
  how it goes on after what it saw. \<^verbatim>\<open>paginate\<close> takes no lock at all, which C++ leaves undefined while another thread
  changes the map; here it sees the map as it is at one moment.
\<close>

section \<open>Resumptions\<close>

datatype prog = Done "failure + reply" | Act "store \<Rightarrow> store" "store \<Rightarrow> prog"

text \<open>Run without interruption.\<close>

primrec run_prog :: "prog \<Rightarrow> store \<Rightarrow> (failure + reply) \<times> store" where
  "run_prog (Done r) = (\<lambda>st. (r, st))"
| "run_prog (Act effect next) = (\<lambda>st. run_prog (next st) (effect st))"

abbreviation look :: "(store \<Rightarrow> prog) \<Rightarrow> prog" where
  "look next \<equiv> Act (\<lambda>st. st) next"

definition throwing :: "failure + 'a \<Rightarrow> ('a \<Rightarrow> prog) \<Rightarrow> prog" where
  "throwing r next = (case r of Inl f \<Rightarrow> Done (Inl f) | Inr x \<Rightarrow> next x)"

section \<open>The handlers\<close>

definition static_prog :: "env \<Rightarrow> string \<Rightarrow> request \<Rightarrow> reply \<Rightarrow> prog" where
  "static_prog env request_path req rep = look (\<lambda>st. Done (handle_static env request_path req rep st))"

definition check_prog :: "string \<Rightarrow> request \<Rightarrow> reply \<Rightarrow> prog" where
  "check_prog request_path req rep = look (\<lambda>st. Done (handle_check request_path req rep st))"

text \<open>\<^verbatim>\<open>handle_get\<close>: the index is asked first, then the file is read.\<close>

definition get_prog :: "env \<Rightarrow> string \<Rightarrow> request \<Rightarrow> reply \<Rightarrow> prog" where
  "get_prog env request_path req rep =
     throwing (substr_from request_path 1) (\<lambda>blob_ref.
     look (\<lambda>st.
       case get_blob st blob_ref of
         None \<Rightarrow> Done (Inr (stock_reply not_found))
       | Some b \<Rightarrow>
           let full_path = filePath (heap st ! b)
           in look (\<lambda>st.
                case read_file st full_path of
                  None \<Rightarrow> Done (Inr (stock_reply not_found))
                | Some content \<Rightarrow> Done (finish_get env req rep content))))"

definition enumerate_prog :: "env \<Rightarrow> string \<Rightarrow> request \<Rightarrow> reply \<Rightarrow> prog" where
  "enumerate_prog env request_path req rep = look (\<lambda>st. Done (handle_enumerate env request_path req rep st))"

text \<open>\<^verbatim>\<open>handle_stat\<close>: one call of \<^verbatim>\<open>get\<close> for every reference.\<close>

fun stat_loop_prog :: "string list \<Rightarrow> json list \<Rightarrow> reply \<Rightarrow> prog" where
  "stat_loop_prog [] stat rep = Done (Inr (json_reply (stat_object stat) rep))"
| "stat_loop_prog (blob # bs) stat rep =
     look (\<lambda>st.
       case get_blob st blob of
         Some b \<Rightarrow> stat_loop_prog bs (stat @ [blob_value st blob b]) rep
       | None \<Rightarrow> stat_loop_prog bs stat rep)"

definition stat_prog :: "env \<Rightarrow> string \<Rightarrow> request \<Rightarrow> reply \<Rightarrow> prog" where
  "stat_prog env request_path req rep =
     throwing (stat_refs env request_path req) (\<lambda>refs.
       case refs of
         None \<Rightarrow> Done (Inr (stock_reply bad_request))
       | Some rs \<Rightarrow> stat_loop_prog rs [] rep)"

text \<open>\<^verbatim>\<open>handle_put\<close>: one call of \<^verbatim>\<open>add_blob\<close> for every part that is not empty.\<close>

fun put_loop_prog :: "env \<Rightarrow> part list \<Rightarrow> reply \<Rightarrow> prog" where
  "put_loop_prog env [] rep = Done (Inr (rep\<lparr>rep_status := ok\<rparr>))"
| "put_loop_prog env (p # ps) rep =
     (if length (part_payload p) > 0
      then Act (\<lambda>st. snd (add_blob (host env) (config env) None (part_payload p) st))
             (\<lambda>st. case fst (add_blob (host env) (config env) None (part_payload p) st) of
                     Inl f \<Rightarrow> Done (Inl f)
                   | Inr _ \<Rightarrow> put_loop_prog env ps rep)
      else put_loop_prog env ps rep)"

definition put_prog :: "env \<Rightarrow> string \<Rightarrow> request \<Rightarrow> reply \<Rightarrow> prog" where
  "put_prog env request_path req rep =
     (let body = req_content req;
          content_type = handler_get_header (req_headers req) ''Content-Type''
      in if content_type = [] then Done (Inr (stock_reply bad_request))
         else case attributeValue (parse_boundry_header (engine env) content_type) ''boundary'' of
                Some b \<Rightarrow> put_loop_prog env (parts (MultiPartFormData (engine env) b body)) rep
              | None \<Rightarrow> Done (Inr (rep\<lparr>rep_status := ok\<rparr>)))"

definition request_prog :: "env \<Rightarrow> request \<Rightarrow> reply \<Rightarrow> prog" where
  "request_prog env req rep =
     (case url_decode (req_uri req) of
        None \<Rightarrow> Done (Inr (stock_reply bad_request))
      | Some request_path \<Rightarrow>
          if request_path = [] \<or> hd request_path \<noteq> CHR ''/'' \<or> str_find request_path ''..'' \<noteq> npos
          then Done (Inr (stock_reply bad_request))
          else if starts_with request_path ''/static/'' then static_prog env request_path req rep
          else if starts_with request_path ''/stat'' then stat_prog env request_path req rep
          else if starts_with request_path ''/enumerate-blobs'' \<and> req_method req = ''GET''
          then enumerate_prog env request_path req rep
          else if req_method req = ''HEAD'' then check_prog request_path req rep
          else if req_method req = ''GET'' then get_prog env request_path req rep
          else if req_method req = ''PUT'' \<or> req_method req = ''POST'' then put_prog env request_path req rep
          else Done (Inr (stock_reply bad_request)))"

section \<open>Without interruption they are the handlers\<close>

lemma run_throwing: "run_prog (throwing r next) st = (case r of Inl f \<Rightarrow> (Inl f, st) | Inr x \<Rightarrow> run_prog (next x) st)"
  by (simp add: throwing_def split: sum.split)

lemma run_get_prog: "run_prog (get_prog env p req rep) st = (handle_get env p req rep st, st)"
  by (simp add: get_prog_def handle_get_def run_throwing Let_def split: sum.split option.split)

lemma run_stat_loop_prog:
  "run_prog (stat_loop_prog rs acc rep) st = (Inr (json_reply (stat_object (stat_loop st rs acc)) rep), st)"
  by (induction rs arbitrary: acc) (simp_all split: option.split)

lemma run_stat_prog: "run_prog (stat_prog env p req rep) st = (handle_stat env p req rep st, st)"
  by (simp add: stat_prog_def handle_stat_def run_throwing run_stat_loop_prog stat_result_def split: sum.split option.split)

lemma run_put_loop_prog:
  "run_prog (put_loop_prog env ps rep) st =
     (case put_loop env ps st of (Some f, st') \<Rightarrow> (Inl f, st') | (None, st') \<Rightarrow> (Inr (rep\<lparr>rep_status := ok\<rparr>), st'))"
  by (induction ps arbitrary: st) (simp_all split: prod.split sum.split)

lemma run_put_prog: "run_prog (put_prog env p req rep) st = handle_put env p req rep st"
  by (simp add: put_prog_def handle_put_def Let_def run_put_loop_prog split: option.split)

lemma run_request_prog: "run_prog (request_prog env req rep) st = handle_request env req rep st"
  by (simp add: request_prog_def handle_request_def static_prog_def enumerate_prog_def check_prog_def
      run_get_prog run_stat_prog run_put_prog split: option.split)

section \<open>With interruptions\<close>

text \<open>
  Whatever other threads do between the pieces, each one changes the store by at most a call of \<^verbatim>\<open>add_blob\<close>, and the handler ends with
  a reply of which no header field breaks a line, or fails for a known reason.
\<close>

primrec prog_ok :: "env \<Rightarrow> prog \<Rightarrow> bool" where
  "prog_ok env (Done r) \<longleftrightarrow> (case r of Inl f \<Rightarrow> request_fails env f | Inr rep \<Rightarrow> plain_reply rep)"
| "prog_ok env (Act effect next) \<longleftrightarrow>
     (\<forall>st. (index_step (host env) (config env))\<^sup>*\<^sup>* st (effect st) \<and> prog_ok env (next st))"

lemma plain_replies [simp]:
  "plain_reply (stock_reply s)" "plain_reply (json_reply j (fresh_reply s))" "plain_reply (fresh_reply s)"
  "plain_reply ((fresh_reply s)\<lparr>rep_status := ok\<rparr>)"
  by (simp_all add: exact_length_plain) (simp_all add: plain_reply_def fresh_reply_def)

lemma done_plain_ok:
  assumes "\<And>f. r \<noteq> Inl f" and "\<And>rep. r = Inr rep \<Longrightarrow> plain_reply rep"
  shows "prog_ok env (Done r)"
  using assms by (cases r) auto

lemma get_prog_ok: "p \<noteq> [] \<Longrightarrow> prog_ok env (get_prog env p req (fresh_reply s))"
  using finish_get_fails [of env req "fresh_reply s"] finish_get_exact [of env req s] exact_length_plain
  by (auto simp: get_prog_def throwing_def Let_def request_fails_def split: option.split sum.split) blast+

lemma stat_loop_prog_ok: "prog_ok env (stat_loop_prog rs acc (fresh_reply s))"
  by (induction rs arbitrary: acc) (simp_all split: option.split)

lemma stat_prog_ok: "prog_ok env (stat_prog env p req (fresh_reply s))"
  using readers_return(3) [of env p req] stat_loop_prog_ok
  by (auto simp: stat_prog_def throwing_def split: option.split)

lemma put_loop_prog_ok: "prog_ok env (put_loop_prog env ps (fresh_reply s))"
proof (induction ps)
  case (Cons p ps)
  have "index_step (host env) (config env) st (snd (add_blob (host env) (config env) None (part_payload p) st))" for st
    by (rule index_step.add) (rule prod.collapse [symmetric])
  moreover have "request_fails env f"
    if "fst (add_blob (host env) (config env) None (part_payload p) st) = Inl f" "part_payload p \<noteq> []" for st f
    using that add_blob_fails [of "host env" "config env" None "part_payload p" st f]
    by (cases "add_blob (host env) (config env) None (part_payload p) st") (auto simp: request_fails_def)
  ultimately show ?case using Cons by (auto split: sum.split)
qed simp

lemma put_prog_ok: "prog_ok env (put_prog env p req (fresh_reply s))"
  by (simp add: put_prog_def Let_def put_loop_prog_ok split: option.split)

lemma single_progs_ok:
  "prog_ok env (static_prog env p req (fresh_reply s))" "prog_ok env (enumerate_prog env p req (fresh_reply s))"
  "p \<noteq> [] \<Longrightarrow> prog_ok env (check_prog p req (fresh_reply s))"
proof -
  show "prog_ok env (static_prog env p req (fresh_reply s))"
    unfolding static_prog_def prog_ok.simps(2)
    by (intro allI conjI rtranclp.rtrancl_refl done_plain_ok handlers_not_Inl exact_length_plain handlers_exact(1))
  show "prog_ok env (enumerate_prog env p req (fresh_reply s))"
    unfolding enumerate_prog_def prog_ok.simps(2)
    by (intro allI conjI rtranclp.rtrancl_refl done_plain_ok handlers_not_Inl exact_length_plain handlers_exact(4))
  show "prog_ok env (check_prog p req (fresh_reply s))" if "p \<noteq> []"
  proof -
    have "plain_reply rep" if "handle_check p req (fresh_reply s) st = Inr rep" for st rep
      using handle_check_replies [OF \<open>p \<noteq> []\<close> that] exact_length_plain by (auto split: option.splits)
    then show ?thesis unfolding check_prog_def prog_ok.simps(2)
      using handlers_not_Inl(4) [OF \<open>p \<noteq> []\<close>] by (blast intro: done_plain_ok)
  qed
qed

lemma request_prog_ok: "prog_ok env (request_prog env req (fresh_reply s))"
  by (auto simp: request_prog_def single_progs_ok get_prog_ok stat_prog_ok put_prog_ok split: option.split)

end
