(* ===== verification/Connection.thy ===== *)
theory Connection
  imports Request_Parser Handler_Steps
begin

text \<open>
  Connections and the server (\<^verbatim>\<open>connection.cpp\<close>, \<^verbatim>\<open>server.cpp\<close>): the completion handlers of the
  asynchronous operations, and the machine that runs them in any order the network gives. Boost.Asio
  is represented by the events it delivers: a completed read brings between one and 8192 bytes or an
  error, a completed write brings success or an error.
\<close>

section \<open>A connection\<close>

record connection =
  conn_request :: request
  conn_parser :: request_parser
  conn_reply :: reply

text \<open>
  The members of a new connection: the counter of the parser, the version numbers of the request and
  the status of the reply are not initialised.
\<close>

definition new_connection :: "uint32 \<Rightarrow> uint32 \<Rightarrow> uint32 \<Rightarrow> status_type \<Rightarrow> connection" where
  "new_connection b0 major minor s =
     \<lparr>conn_request = blank_request\<lparr>http_version_major := major, http_version_minor := minor\<rparr>,
      conn_parser = new_parser b0,
      conn_reply = fresh_reply s\<rparr>"

text \<open>The asynchronous operation a handler starts last; with none, the connection is destroyed.\<close>

datatype async_op = Async_read | Async_write "const_buffer list" | Destroy

definition buffer_size :: nat where "buffer_size = 8192"

text \<open>\<^verbatim>\<open>start\<close>\<close>

definition start :: "connection \<Rightarrow> async_op \<times> connection" where
  "start c = (Async_read, c)"

text \<open>
  \<^verbatim>\<open>handle_read\<close> when no other thread gets in between; the input \<open>None\<close> is an error, otherwise the bytes transferred.
\<close>

definition handle_read ::
  "env \<Rightarrow> string option \<Rightarrow> connection \<Rightarrow> store \<Rightarrow> (failure + async_op \<times> connection) \<times> store" where
  "handle_read env input c st =
     (case input of
        None \<Rightarrow> (Inr (Destroy, c), st)
      | Some bytes \<Rightarrow>
          (case parse (conn_parser c) (conn_request c) bytes of
             (result, p, r, _) \<Rightarrow>
               let c = c\<lparr>conn_parser := p, conn_request := r\<rparr>
               in (case result of
                     TTrue \<Rightarrow>
                       (case handle_request env r (conn_reply c) st of
                          (Inl f, st') \<Rightarrow> (Inl f, st')
                        | (Inr rep, st') \<Rightarrow>
                            (Inr (Async_write (to_buffers rep), c\<lparr>conn_reply := rep\<rparr>), st'))
                   | TFalse \<Rightarrow>
                       (let rep = stock_reply bad_request
                        in (Inr (Async_write (to_buffers rep), c\<lparr>conn_reply := rep\<rparr>), st))
                   | Indeterminate \<Rightarrow> (Inr (Async_read, c), st))))"

text \<open>\<^verbatim>\<open>handle_write\<close>: whether the socket is shut down before the connection is destroyed.\<close>

definition handle_write :: "bool \<Rightarrow> bool" where
  "handle_write error = (if \<not> error then True else False)"

section \<open>Receiving a request\<close>

text \<open>The reads of one connection, one buffer after the other, until it stops reading.\<close>

fun receive ::
  "env \<Rightarrow> string list \<Rightarrow> connection \<Rightarrow> store \<Rightarrow> (failure + async_op \<times> connection) \<times> store" where
  "receive env [] c st = (Inr (Async_read, c), st)"
| "receive env (b # bs) c st =
     (case handle_read env (Some b) c st of
        (Inr (Async_read, c'), st') \<Rightarrow> receive env bs c' st'
      | (r, st') \<Rightarrow> (r, st'))"

lemma handle_read_cases:
  assumes "parse (conn_parser c) (conn_request c) s = (result, p, r, rest)"
  shows "result = Indeterminate \<Longrightarrow>
      handle_read env (Some s) c st = (Inr (Async_read, c\<lparr>conn_parser := p, conn_request := r\<rparr>), st)"
    and "result \<noteq> Indeterminate \<Longrightarrow>
      \<nexists>c' st'. handle_read env (Some s) c st = (Inr (Async_read, c'), st')"
  using assms
  by (auto simp: handle_read_def Let_def split: prod.splits sum.splits tribool.splits)

lemma handle_read_append:
  "handle_read env (Some (s @ t)) c st =
     (case handle_read env (Some s) c st of
        (Inr (Async_read, c'), st') \<Rightarrow> handle_read env (Some t) c' st'
      | r \<Rightarrow> r)"
proof -
  obtain result p r rest where run: "parse (conn_parser c) (conn_request c) s = (result, p, r, rest)"
    by (cases "parse (conn_parser c) (conn_request c) s") auto
  show ?thesis
  proof (cases "result = Indeterminate")
    case True
    have "parse (conn_parser c) (conn_request c) (s @ t) = parse p r t"
      using True run by (simp add: parse_append)
    then have "handle_read env (Some (s @ t)) c st =
        handle_read env (Some t) (c\<lparr>conn_parser := p, conn_request := r\<rparr>) st"
      by (simp add: handle_read_def Let_def)
    with handle_read_cases(1) [OF run True, of env st] show ?thesis by simp
  next
    case False
    have "parse (conn_parser c) (conn_request c) (s @ t) = (result, p, r, rest @ t)"
      using False run by (cases result) (simp_all add: parse_append)
    then have "handle_read env (Some (s @ t)) c st = handle_read env (Some s) c st"
      using run by (simp add: handle_read_def)
    with handle_read_cases(2) [OF run False, of env st] show ?thesis
      by (auto split: prod.splits sum.splits async_op.splits)
  qed
qed

lemma receive_single: "receive env [b] c st = handle_read env (Some b) c st"
  by (auto split: prod.splits sum.splits async_op.splits)

lemma handle_read_Nil: "handle_read env (Some []) c st = (Inr (Async_read, c), st)"
  by (simp add: handle_read_def)

lemma receive_concat: "receive env bs c st = handle_read env (Some (concat bs)) c st"
proof (induction bs arbitrary: c st)
  case Nil
  then show ?case by (simp add: handle_read_Nil)
next
  case (Cons b bs)
  then show ?case
    by (simp add: handle_read_append [of env b "concat bs"] split: prod.splits sum.splits async_op.splits)
qed

section \<open>The server\<close>

text \<open>
  The life of a connection: waiting for a read, in the middle of handling its request, waiting for its write of some
  buffers, or gone. The server runs until a signal stops it; an exception that leaves a handler, like a failed
  assertion, ends the process.
\<close>

datatype phase = Reading connection | Handling connection prog | Writing connection "const_buffer list" | Closed

record server =
  index :: store
  connections :: "phase list"

datatype server_state = Running server | Stopped | Terminated failure

text \<open>\<^verbatim>\<open>handle_read\<close> up to the call of \<^verbatim>\<open>handle_request\<close>, which other threads may interrupt.\<close>

definition begin_read :: "env \<Rightarrow> string option \<Rightarrow> connection \<Rightarrow> phase" where
  "begin_read env input c =
     (case input of
        None \<Rightarrow> Closed
      | Some bytes \<Rightarrow>
          (case parse (conn_parser c) (conn_request c) bytes of
             (result, p, r, _) \<Rightarrow>
               let c = c\<lparr>conn_parser := p, conn_request := r\<rparr>
               in (case result of
                     TTrue \<Rightarrow> Handling c (request_prog env r (conn_reply c))
                   | TFalse \<Rightarrow>
                       (let rep = stock_reply bad_request
                        in Writing (c\<lparr>conn_reply := rep\<rparr>) (to_buffers rep))
                   | Indeterminate \<Rightarrow> Reading c)))"

text \<open>Without interruption it comes to what \<^verbatim>\<open>handle_read\<close> does.\<close>

fun finish_alone :: "connection \<Rightarrow> phase \<Rightarrow> store \<Rightarrow> (failure + async_op \<times> connection) \<times> store" where
  "finish_alone c0 (Reading c) st = (Inr (Async_read, c), st)"
| "finish_alone c0 (Writing c bs) st = (Inr (Async_write bs, c), st)"
| "finish_alone c0 Closed st = (Inr (Destroy, c0), st)"
| "finish_alone c0 (Handling c p) st =
     (case run_prog p st of
        (Inl f, st') \<Rightarrow> (Inl f, st')
      | (Inr rep, st') \<Rightarrow> (Inr (Async_write (to_buffers rep), c\<lparr>conn_reply := rep\<rparr>), st'))"

lemma handle_read_alone: "handle_read env input c st = finish_alone c (begin_read env input c) st"
  by (simp add: handle_read_def begin_read_def Let_def run_request_prog split: option.split prod.split tribool.split)

definition phase_of :: "async_op \<times> connection \<Rightarrow> phase" where
  "phase_of r = (case r of (Async_read, c) \<Rightarrow> Reading c | (Async_write bs, c) \<Rightarrow> Writing c bs | (Destroy, c) \<Rightarrow> Closed)"

text \<open>
  \<^verbatim>\<open>start_accept\<close> and \<^verbatim>\<open>handle_accept\<close>: there is always one connection waiting to be accepted; an
  accepted one is started, one accepted with an error is dropped.
\<close>

definition handle_accept :: "bool \<Rightarrow> connection \<Rightarrow> server \<Rightarrow> server" where
  "handle_accept error c sv =
     (if \<not> error then sv\<lparr>connections := connections sv @ [phase_of (start c)]\<rparr> else sv)"

definition set_phase :: "nat \<Rightarrow> phase \<Rightarrow> server \<Rightarrow> server" where
  "set_phase i ph sv = sv\<lparr>connections := (connections sv)[i := ph]\<rparr>"

text \<open>
  The completion handlers run one at a time per connection (the strand), and in any order between connections, each
  in the pieces the locking of the index leaves it.
\<close>

inductive server_step :: "env \<Rightarrow> server_state \<Rightarrow> server_state \<Rightarrow> bool" for env where
  accept: "server_step env (Running sv) (Running (handle_accept e (new_connection b0 major minor s) sv))"
| read:
    "\<lbrakk>i < length (connections sv); connections sv ! i = Reading c;
      \<And>bytes. input = Some bytes \<Longrightarrow> 0 < length bytes \<and> length bytes \<le> buffer_size\<rbrakk> \<Longrightarrow>
     server_step env (Running sv) (Running (set_phase i (begin_read env input c) sv))"
| piece:
    "\<lbrakk>i < length (connections sv); connections sv ! i = Handling c (Act effect next)\<rbrakk> \<Longrightarrow>
     server_step env (Running sv)
       (Running ((set_phase i (Handling c (next (index sv))) sv)\<lparr>index := effect (index sv)\<rparr>))"
| answer:
    "\<lbrakk>i < length (connections sv); connections sv ! i = Handling c (Done (Inr rep))\<rbrakk> \<Longrightarrow>
     server_step env (Running sv) (Running (set_phase i (Writing (c\<lparr>conn_reply := rep\<rparr>) (to_buffers rep)) sv))"
| fail:
    "\<lbrakk>i < length (connections sv); connections sv ! i = Handling c (Done (Inl f))\<rbrakk> \<Longrightarrow>
     server_step env (Running sv) (Terminated f)"
| written:
    "\<lbrakk>i < length (connections sv); connections sv ! i = Writing c bs\<rbrakk> \<Longrightarrow>
     server_step env (Running sv) (Running (set_phase i Closed sv))"
| stop: "server_step env (Running sv) Stopped"

inductive_cases stepped_from_haltE:
  "server_step env Stopped s'"
  "server_step env (Terminated f) s'"

text \<open>
  What holds of a connection: while it reads, its parser and request are in a state the machine can reach and its reply is
  untouched; what is left of the handling of its request is as \<open>prog_ok\<close> says; what it writes are the buffers of a
  reply of which no header field breaks a line.
\<close>

fun phase_ok :: "env \<Rightarrow> phase \<Rightarrow> bool" where
  "phase_ok env (Reading c) \<longleftrightarrow> parser_inv (conn_parser c) (conn_request c) \<and> (\<exists>s. conn_reply c = fresh_reply s)"
| "phase_ok env (Handling c p) \<longleftrightarrow> prog_ok env p"
| "phase_ok env (Writing c bs) \<longleftrightarrow> bs = to_buffers (conn_reply c) \<and> plain_reply (conn_reply c)"
| "phase_ok env Closed \<longleftrightarrow> True"

definition server_ok :: "env \<Rightarrow> server \<Rightarrow> bool" where
  "server_ok env sv \<longleftrightarrow>
     index_ok (host env) (config env) (index sv) \<and> files_ok (host env) (config env) (index sv) \<and>
     (\<forall>ph \<in> set (connections sv). phase_ok env ph)"

lemma begin_read_ok:
  assumes "phase_ok env (Reading c)"
  shows "phase_ok env (begin_read env input c)"
proof (cases input)
  case (Some bytes)
  obtain result p q rest where run: "parse (conn_parser c) (conn_request c) bytes = (result, p, q, rest)"
    by (cases "parse (conn_parser c) (conn_request c) bytes") auto
  then show ?thesis
    using assms Some request_prog_ok parse_inv [of "conn_parser c" "conn_request c" bytes p q rest]
    by (cases result) (auto simp: begin_read_def Let_def)
qed (simp add: begin_read_def)

lemma new_connection_ok: "phase_ok env (phase_of (start (new_connection b0 major minor s)))"
  by (auto simp: phase_of_def start_def new_connection_def no_request_def blank_request_def
      intro: parser_inv_start)

lemma set_phase_ok:
  assumes "server_ok env sv" and "phase_ok env ph"
  shows "server_ok env (set_phase i ph sv)"
  using assms set_update_subset_insert [of "connections sv" i ph] by (auto simp: server_ok_def set_phase_def)

lemma server_ok_phase: "server_ok env sv \<Longrightarrow> i < length (connections sv) \<Longrightarrow> phase_ok env (connections sv ! i)"
  by (simp add: server_ok_def)

lemma server_step_ok:
  assumes "server_step env (Running sv) (Running sv')" and ok: "server_ok env sv"
  shows "server_ok env sv'"
  using assms(1)
proof cases
  case (accept e b0 major minor s)
  then show ?thesis using ok new_connection_ok by (auto simp: handle_accept_def server_ok_def)
next
  case (read i c input)
  then have "phase_ok env (Reading c)" using server_ok_phase [OF ok read(2)] by simp
  then show ?thesis unfolding read(1) by (intro set_phase_ok [OF ok] begin_read_ok)
next
  case (piece i c effect k)
  then have p: "(index_step (host env) (config env))\<^sup>*\<^sup>* (index sv) (effect (index sv))" "prog_ok env (k (index sv))"
    using server_ok_phase [OF ok piece(2)] by auto
  from p(2) have "server_ok env (set_phase i (Handling c (k (index sv))) sv)" by (intro set_phase_ok [OF ok]) simp
  then show ?thesis using piece(1) steps_inv [OF p(1)] ok by (simp add: server_ok_def set_phase_def)
next
  case (answer i c rep)
  then show ?thesis using server_ok_phase [OF ok answer(2)] by (auto intro: set_phase_ok [OF ok])
next
  case (written i c bs)
  then show ?thesis by (auto intro: set_phase_ok [OF ok])
qed

lemma server_step_fails:
  assumes "server_step env (Running sv) (Terminated f)" and "server_ok env sv"
  shows "request_fails env f"
  using assms(1)
proof cases
  case (fail i c)
  then show ?thesis using server_ok_phase [OF assms(2) fail(1)] by simp
qed

lemma server_step_index:
  assumes "server_step env (Running sv) (Running sv')" and "server_ok env sv"
  shows "(index_step (host env) (config env))\<^sup>*\<^sup>* (index sv) (index sv')"
  using assms(1)
proof cases
  case (piece i c effect k)
  then show ?thesis using server_ok_phase [OF assms(2) piece(2)] by (auto simp: set_phase_def)
qed (auto simp: handle_accept_def set_phase_def)

text \<open>A handler that is not interrupted goes through its pieces to the reply of \<^verbatim>\<open>handle_request\<close>.\<close>

lemma pieces_alone:
  assumes "i < length (connections sv)" and "connections sv ! i = Handling c p" and "run_prog p (index sv) = (Inr rep, st')"
  shows "(server_step env)\<^sup>*\<^sup>* (Running sv)
    (Running ((set_phase i (Writing (c\<lparr>conn_reply := rep\<rparr>) (to_buffers rep)) sv)\<lparr>index := st'\<rparr>))"
  using assms
proof (induction p arbitrary: sv)
  case (Done r)
  then have step: "server_step env (Running sv) (Running (set_phase i (Writing (c\<lparr>conn_reply := rep\<rparr>) (to_buffers rep)) sv))"
    by (intro server_step.answer) simp_all
  moreover have "(set_phase i ph sv)\<lparr>index := st'\<rparr> = set_phase i ph sv" for ph
    using Done by (cases sv) (simp add: set_phase_def)
  ultimately show ?case by simp
next
  case (Act effect k)
  let ?sv = "(set_phase i (Handling c (k (index sv))) sv)\<lparr>index := effect (index sv)\<rparr>"
  have "server_step env (Running sv) (Running ?sv)" using Act.prems by (intro server_step.piece)
  moreover have "(server_step env)\<^sup>*\<^sup>* (Running ?sv)
      (Running ((set_phase i (Writing (c\<lparr>conn_reply := rep\<rparr>) (to_buffers rep)) ?sv)\<lparr>index := st'\<rparr>))"
    using Act.prems by (intro Act.IH) (auto simp: set_phase_def)
  ultimately show ?case by (simp add: set_phase_def converse_rtranclp_into_rtranclp)
qed

section \<open>Properties\<close>

text \<open>
  C31. How the network cuts a request into buffers does not matter: reading buffers one after the other
  ends in the same operation, the same connection state and the same index as reading their
  concatenation at once; bytes after the end of the request are ignored either way.
\<close>

theorem receive_chunking:
  "receive env bs c st = receive env [concat bs] c st"
  by (simp only: receive_concat concat.simps append_Nil2)

text \<open>
  C4. From bytes to bytes: a well-formed request, cut into buffers in any way and whatever follows it, makes a new connection
  write the reply the handler gives to that request: the bytes sent are its status line, as many bytes of header fields
  as it has, the empty line and exactly its content, and they are the reply's wire form when the memory of the
  destroyed header strings still holds them.
\<close>

theorem connection_serves_request:
  assumes "wf_request r" and "concat bs = render_request r major minor @ rest"
    and "handle_request env (parsed r major minor) (fresh_reply s) st = (Inr rep, st')"
  shows "\<exists>c ws. receive env bs (new_connection b0 v w s) st = (Inr (Async_write ws, c), st') \<and>
    sent ws (wire rep) \<and>
    (\<forall>out. sent ws out \<longrightarrow>
      (\<exists>fields. out = status_line (rep_status rep) @ crlf @ fields @ crlf @ rep_content rep \<and>
         length fields = length (concat (map header_line (rep_headers rep)))))"
proof -
  let ?c = "new_connection b0 v w s"
  have "no_request (conn_request ?c)"
    by (simp add: new_connection_def no_request_def blank_request_def)
  from parse_render_from [OF assms(1) this] obtain p where
    "parse (new_parser b0) (conn_request ?c) (render_request r major minor @ rest) =
      (TTrue, p, parsed r major minor, rest)" by blast
  then have "parse (conn_parser ?c) (conn_request ?c) (concat bs) = (TTrue, p, parsed r major minor, rest)"
    by (simp add: assms(2)) (simp add: new_connection_def)
  moreover have "conn_reply ?c = fresh_reply s" by (simp add: new_connection_def)
  ultimately have "\<exists>c. receive env bs ?c st = (Inr (Async_write (to_buffers rep), c), st')" using assms(3)
    by (simp add: receive_concat handle_read_def Let_def)
  then show ?thesis using sent_wire [of rep] sent_reply [of rep] by blast
qed

theorem connection_serves_request_witness:
  "\<exists>rep st' c ws. handle_request sample_env (parsed sample_request 1 1) (fresh_reply ok) (empty_store (\<lambda>_. None)) =
       (Inr rep, st') \<and>
     receive sample_env [render_request sample_request 1 1] (new_connection 0 0 0 ok) (empty_store (\<lambda>_. None)) =
       (Inr (Async_write ws, c), st') \<and> sent ws (wire rep)"
proof -
  obtain rep st' where run:
    "handle_request sample_env (parsed sample_request 1 1) (fresh_reply ok) (empty_store (\<lambda>_. None)) = (Inr rep, st')"
  proof (cases "handle_request sample_env (parsed sample_request 1 1) (fresh_reply ok) (empty_store (\<lambda>_. None))")
    case (Pair res st')
    then show ?thesis using that sample_env_ok(3)
      by (cases res) (auto simp: writable_def request_fails_def sample_env_def dest!: handle_request_fails)
  qed
  from connection_serves_request [OF sample_request_wf _ run, of "[render_request sample_request 1 1]" "[]" 0 0 0]
  show ?thesis using run by auto
qed

end
