(* ===== verification/Json_Reader.thy ===== *)
theory Json_Reader
  imports Json "HOL-Library.Monad_Syntax"
begin

text \<open>
  The JSON reader (\<^verbatim>\<open>json_spirit_reader_template.h\<close>): the grammar and the semantic actions that build
  the value. The grammar is run by Boost.Spirit.Classic, whose code is not part of the repository: the
  engine is an argument \<open>classic\<close> of the reader, and \<open>classic_engine\<close> says that it does what the
  documentation of the combinators used determines (\<open>spirit\<close> below).
\<close>

section \<open>The grammar\<close>

text \<open>The semantic actions, and what the engine calls them with.\<close>

datatype tag =
    T_begin_obj | T_end_obj | T_begin_array | T_end_array | T_new_name | T_new_str
  | T_new_true | T_new_false | T_new_null
  | T_throw_not_value | T_throw_not_array | T_throw_not_object | T_throw_not_colon

datatype event = Ev tag string | Ev_int size_t | Ev_uint64 size_t | Ev_real double

datatype nt =
    N_json | N_value | N_object | N_members | N_pair | N_array | N_elements | N_string | N_number

text \<open>
  \<open>C_int64\<close>, \<open>C_uint64\<close> and \<open>C_strict_real\<close> stand for the numeric parsers with the action that takes
  the number; \<open>C_confix\<close> is \<^verbatim>\<open>confix_p\<close> with a repetition in the middle.
\<close>

datatype cgram =
    C_ch char
  | C_str string
  | C_eps
  | C_int64
  | C_uint64
  | C_strict_real
  | C_lex_escape_ch
  | C_seq cgram cgram
  | C_alt cgram cgram
  | C_star cgram
  | C_opt cgram
  | C_act tag cgram
  | C_lexeme cgram
  | C_confix char cgram char
  | C_nt nt

fun json_rules :: "nt \<Rightarrow> cgram" where
  "json_rules N_json = C_alt (C_nt N_value) (C_act T_throw_not_value C_eps)"
| "json_rules N_value =
     C_alt (C_act T_new_str (C_nt N_string))
    (C_alt (C_nt N_number)
    (C_alt (C_nt N_object)
    (C_alt (C_nt N_array)
    (C_alt (C_act T_new_true (C_str ''true''))
    (C_alt (C_act T_new_false (C_str ''false''))
           (C_act T_new_null (C_str ''null'')))))))"
| "json_rules N_object =
     C_seq (C_act T_begin_obj (C_ch (CHR ''{'')))
    (C_seq (C_opt (C_nt N_members))
           (C_alt (C_act T_end_obj (C_ch (CHR ''}''))) (C_act T_throw_not_object C_eps)))"
| "json_rules N_members = C_seq (C_nt N_pair) (C_star (C_seq (C_ch (CHR '','')) (C_nt N_pair)))"
| "json_rules N_pair =
     C_seq (C_act T_new_name (C_nt N_string))
    (C_seq (C_alt (C_ch (CHR '':'')) (C_act T_throw_not_colon C_eps))
           (C_alt (C_nt N_value) (C_act T_throw_not_value C_eps)))"
| "json_rules N_array =
     C_seq (C_act T_begin_array (C_ch (CHR ''['')))
    (C_seq (C_opt (C_nt N_elements))
           (C_alt (C_act T_end_array (C_ch (CHR '']''))) (C_act T_throw_not_array C_eps)))"
| "json_rules N_elements = C_seq (C_nt N_value) (C_star (C_seq (C_ch (CHR '','')) (C_nt N_value)))"
| "json_rules N_string = C_lexeme (C_confix dquote C_lex_escape_ch dquote)"
| "json_rules N_number = C_alt C_strict_real (C_alt C_int64 C_uint64)"

section \<open>What the engine promises\<close>

text \<open>
  An outcome is the sequence of action calls made, those of abandoned alternatives included, and the
  unread rest unless the parse failed. At the phrase level (\<open>sk\<close>) white space is skipped before a
  terminal and before a lexeme.
\<close>

type_synonym parsed_text = "event list \<times> string option"

definition skipped :: "bool \<Rightarrow> string \<Rightarrow> string" where
  "skipped sk s = (if sk then dropWhile is_space_char s else s)"

definition after_text :: "string \<Rightarrow> string \<Rightarrow> string option" where
  "after_text t s = (if starts_with s t then Some (drop (length t) s) else None)"

text \<open>A number in a range: an optional sign where allowed, and at least one digit.\<close>

definition match_int :: "bool \<Rightarrow> int \<Rightarrow> int \<Rightarrow> string \<Rightarrow> (int \<times> string) option" where
  "match_int with_sign lo hi s =
     (let neg = (case s of c # _ \<Rightarrow> with_sign \<and> c = CHR ''-'' | [] \<Rightarrow> False);
          u = (case s of c # r \<Rightarrow> if with_sign \<and> (c = CHR ''-'' \<or> c = CHR ''+'') then r else s | [] \<Rightarrow> s);
          ds = takeWhile is_digit_char u;
          v = (if neg then - int (dec_val ds) else int (dec_val ds))
      in if ds = [] \<or> v < lo \<or> hi < v then None else Some (v, dropWhile is_digit_char u))"

text \<open>Whether a text can only be refused by the strict real parser, for want of a decimal point.\<close>

definition no_real :: "string \<Rightarrow> bool" where
  "no_real s \<longleftrightarrow>
     (let u = (case s of c # r \<Rightarrow> if c = CHR ''-'' \<or> c = CHR ''+'' then r else s | [] \<Rightarrow> s)
      in case dropWhile is_digit_char u of c # _ \<Rightarrow> c \<noteq> CHR ''.'' | [] \<Rightarrow> True)"

text \<open>
  A lexical character: not a backslash, or a backslash and what follows it. Octal and hexadecimal
  escapes have rules of their own, which are left open.
\<close>

definition lex_char :: "string \<Rightarrow> string option option" where
  "lex_char s =
     (case s of
        [] \<Rightarrow> Some None
      | c # r \<Rightarrow>
          if c \<noteq> backslash then Some (Some r)
          else (case r of
                  [] \<Rightarrow> Some None
                | d # r' \<Rightarrow>
                    if d \<in> set ''xX01234567'' then None else Some (Some r')))"

text \<open>
  \<open>confix_p(a, *lex_escape_ch_p, b)\<close> is \<open>a >> *(lex_escape_ch_p - b) >> b\<close>: the body ends at the first
  closing character that no escape covers.
\<close>

function confix_body :: "char \<Rightarrow> string \<Rightarrow> string option option" where
  "confix_body b s =
     (case s of
        [] \<Rightarrow> Some None
      | c # r \<Rightarrow>
          if c = b then Some (Some r)
          else (case lex_char s of
                  None \<Rightarrow> None
                | Some None \<Rightarrow> Some None
                | Some (Some r') \<Rightarrow> if length r' < length s then confix_body b r' else None))"
  by pat_completeness auto
termination
  by (relation "measure (\<lambda>(b, s). length s)") auto

declare confix_body.simps [simp del]

definition confix :: "char \<Rightarrow> char \<Rightarrow> string \<Rightarrow> string option option" where
  "confix a b s = (case s of [] \<Rightarrow> Some None | c # r \<Rightarrow> if c = a then confix_body b r else Some None)"

definition parsed_prefix :: "string \<Rightarrow> string \<Rightarrow> string" where
  "parsed_prefix s r = take (length s - length r) s"

text \<open>
  The outcome the documentation determines for a grammar of this shape; \<open>None\<close> where it leaves it
  open (reals with a decimal point, octal and hexadecimal escapes) or the parse does not end.
\<close>

partial_function (option) spirit :: "bool \<Rightarrow> cgram \<Rightarrow> string \<Rightarrow> parsed_text option" where
  "spirit sk g s =
     (case g of
        C_ch c \<Rightarrow> Some ([], after_text [c] (skipped sk s))
      | C_str t \<Rightarrow> Some ([], after_text t (skipped sk s))
      | C_eps \<Rightarrow> Some ([], Some s)
      | C_int64 \<Rightarrow>
          (case match_int True (- (2 ^ 63)) (2 ^ 63 - 1) (skipped sk s) of
             Some (v, r) \<Rightarrow> Some ([Ev_int (word_of_int v)], Some r)
           | None \<Rightarrow> Some ([], None))
      | C_uint64 \<Rightarrow>
          (case match_int False 0 (2 ^ 64 - 1) (skipped sk s) of
             Some (v, r) \<Rightarrow> Some ([Ev_uint64 (word_of_int v)], Some r)
           | None \<Rightarrow> Some ([], None))
      | C_strict_real \<Rightarrow> if no_real (skipped sk s) then Some ([], None) else None
      | C_lex_escape_ch \<Rightarrow> map_option (\<lambda>r. ([], r)) (lex_char (skipped sk s))
      | C_seq a b \<Rightarrow>
          do {
            (ev, r) \<leftarrow> spirit sk a s;
            (case r of
               None \<Rightarrow> Some (ev, None)
             | Some s' \<Rightarrow> do { (ev', r') \<leftarrow> spirit sk b s'; Some (ev @ ev', r') })
          }
      | C_alt a b \<Rightarrow>
          do {
            (ev, r) \<leftarrow> spirit sk a s;
            (case r of
               Some s' \<Rightarrow> Some (ev, Some s')
             | None \<Rightarrow> do { (ev', r') \<leftarrow> spirit sk b s; Some (ev @ ev', r') })
          }
      | C_star a \<Rightarrow>
          do {
            (ev, r) \<leftarrow> spirit sk a s;
            (case r of
               None \<Rightarrow> Some (ev, Some s)
             | Some s' \<Rightarrow> do { (ev', r') \<leftarrow> spirit sk (C_star a) s'; Some (ev @ ev', r') })
          }
      | C_opt a \<Rightarrow>
          do {
            (ev, r) \<leftarrow> spirit sk a s;
            (case r of None \<Rightarrow> Some (ev, Some s) | Some s' \<Rightarrow> Some (ev, Some s'))
          }
      | C_act t a \<Rightarrow>
          do {
            (ev, r) \<leftarrow> spirit sk a (skipped sk s);
            (case r of
               None \<Rightarrow> Some (ev, None)
             | Some s' \<Rightarrow> Some (ev @ [Ev t (parsed_prefix (skipped sk s) s')], Some s'))
          }
      | C_lexeme a \<Rightarrow> spirit False a (skipped sk s)
      | C_confix a e b \<Rightarrow>
          if e = C_lex_escape_ch then map_option (\<lambda>r. ([], r)) (confix a b (skipped sk s)) else None
      | C_nt n \<Rightarrow> spirit sk (json_rules n) s)"

declare spirit.simps [code]

type_synonym classic = "cgram \<Rightarrow> string \<Rightarrow> parsed_text"

definition classic_engine :: "classic \<Rightarrow> bool" where
  "classic_engine run \<longleftrightarrow> (\<forall>g s r. spirit True g s = Some r \<longrightarrow> run g s = r)"

definition spirit_engine :: classic where
  "spirit_engine g s = (case spirit True g s of Some r \<Rightarrow> r | None \<Rightarrow> ([], None))"

lemma classic_engine_spirit: "classic_engine spirit_engine"
  by (simp add: classic_engine_def spirit_engine_def)

section \<open>Semantic actions\<close>

text \<open>
  The value under construction is a tree; \<^verbatim>\<open>current_p_\<close> and the pointers on \<^verbatim>\<open>stack_\<close> are positions
  in it, given by the path from the root. A position stays valid while its parents only grow at the
  end, which is all the actions do.
\<close>

fun child :: "json \<Rightarrow> nat \<Rightarrow> json option" where
  "child (Arr xs) i = (if i < length xs then Some (xs ! i) else None)"
| "child (Obj ms) i = (if i < length ms then Some (snd (ms ! i)) else None)"
| "child _ i = None"

fun value_at :: "json \<Rightarrow> nat list \<Rightarrow> json option" where
  "value_at v [] = Some v"
| "value_at v (i # p) = (case child v i of Some w \<Rightarrow> value_at w p | None \<Rightarrow> None)"

fun update_at :: "nat list \<Rightarrow> (json \<Rightarrow> json) \<Rightarrow> json \<Rightarrow> json" where
  "update_at [] f v = f v"
| "update_at (i # p) f (Arr xs) = Arr (xs[i := update_at p f (xs ! i)])"
| "update_at (i # p) f (Obj ms) = Obj (ms[i := (fst (ms ! i), update_at p f (snd (ms ! i)))])"
| "update_at (i # p) f v = v"

record actions =
  act_value :: json
  current_p :: "nat list option"
  act_stack :: "nat list list"
  act_name :: string

definition Semantic_actions :: "json \<Rightarrow> actions" where
  "Semantic_actions v = \<lparr>act_value = v, current_p = None, act_stack = [], act_name = []\<rparr>"

definition assert :: "bool \<Rightarrow> 'a \<Rightarrow> failure + 'a" where
  "assert b a = (if b then Inr a else Inl Assertion_failed)"

text \<open>
  Dereferencing a null or stale pointer and taking the back of an empty stack, which C++ leaves
  undefined, are \<open>Out_of_range\<close> here.

  The members that add a value return the position of what they added.
\<close>

definition add_first :: "json \<Rightarrow> actions \<Rightarrow> failure + (nat list \<times> actions)" where
  "add_first v st = assert (current_p st = None) ([], st\<lparr>act_value := v, current_p := Some []\<rparr>)"

fun push_child :: "string \<Rightarrow> json \<Rightarrow> json \<Rightarrow> json" where
  "push_child n v (Arr xs) = Arr (xs @ [v])"
| "push_child n v (Obj ms) = Obj (ms @ [(n, v)])"
| "push_child n v w = w"

fun count :: "json \<Rightarrow> nat" where
  "count (Arr xs) = length xs"
| "count (Obj ms) = length ms"
| "count v = 0"

definition add_to_current :: "json \<Rightarrow> actions \<Rightarrow> failure + (nat list \<times> actions)" where
  "add_to_current v st =
     (case current_p st of
        None \<Rightarrow> add_first v st
      | Some p \<Rightarrow>
          (case value_at (act_value st) p of
             Some w \<Rightarrow>
               assert (type_of w = array_type \<or> type_of w = obj_type)
                 (p @ [count w], st\<lparr>act_value := update_at p (push_child (act_name st) v) (act_value st)\<rparr>)
           | None \<Rightarrow> Inl Out_of_range))"

definition begin_compound :: "json \<Rightarrow> actions \<Rightarrow> failure + actions" where
  "begin_compound v st =
     (case current_p st of
        None \<Rightarrow> map_sum id snd (add_first v st)
      | Some p \<Rightarrow>
          map_sum id (\<lambda>(q, st'). st'\<lparr>current_p := Some q\<rparr>) (add_to_current v (st\<lparr>act_stack := act_stack st @ [p]\<rparr>)))"

definition end_compound :: "actions \<Rightarrow> failure + actions" where
  "end_compound st =
     (if current_p st \<noteq> Some []
      then (if act_stack st = [] then Inl Out_of_range
            else Inr (st\<lparr>current_p := Some (last (act_stack st)), act_stack := butlast (act_stack st)\<rparr>))
      else Inr st)"

definition new_value :: "json \<Rightarrow> actions \<Rightarrow> failure + actions" where
  "new_value v st = map_sum id snd (add_to_current v st)"

definition new_name :: "string \<Rightarrow> actions \<Rightarrow> failure + actions" where
  "new_name txt st =
     (case current_p st of
        Some p \<Rightarrow>
          (case value_at (act_value st) p of
             Some w \<Rightarrow>
               if type_of w = obj_type then map_sum id (\<lambda>n. st\<lparr>act_name := n\<rparr>) (get_str_quoted txt)
               else Inl Assertion_failed
           | None \<Rightarrow> Inl Out_of_range)
      | None \<Rightarrow> Inl Out_of_range)"

definition new_str :: "string \<Rightarrow> actions \<Rightarrow> failure + actions" where
  "new_str txt st = (case get_str_quoted txt of Inl f \<Rightarrow> Inl f | Inr s \<Rightarrow> new_value (JStr s) st)"

text \<open>\<^verbatim>\<open>is_eq\<close>: the range is a prefix of the C string.\<close>

fun is_eq :: "string \<Rightarrow> string \<Rightarrow> bool" where
  "is_eq [] t = True"
| "is_eq (c # s) [] = False"
| "is_eq (c # s) (d # t) = (c = d \<and> is_eq s t)"

text \<open>The exceptions thrown are strings; they are \<open>Runtime_error\<close>s here.\<close>

fun perform :: "event \<Rightarrow> actions \<Rightarrow> failure + actions" where
  "perform (Ev T_begin_obj t) st = (if t = ''{'' then begin_compound (Obj []) st else Inl Assertion_failed)"
| "perform (Ev T_end_obj t) st = (if t = ''}'' then end_compound st else Inl Assertion_failed)"
| "perform (Ev T_begin_array t) st = (if t = ''['' then begin_compound (Arr []) st else Inl Assertion_failed)"
| "perform (Ev T_end_array t) st = (if t = '']'' then end_compound st else Inl Assertion_failed)"
| "perform (Ev T_new_name t) st = new_name t st"
| "perform (Ev T_new_str t) st = new_str t st"
| "perform (Ev T_new_true t) st = (if is_eq t ''true'' then new_value (JBool True) st else Inl Assertion_failed)"
| "perform (Ev T_new_false t) st = (if is_eq t ''false'' then new_value (JBool False) st else Inl Assertion_failed)"
| "perform (Ev T_new_null t) st = (if is_eq t ''null'' then new_value JNull st else Inl Assertion_failed)"
| "perform (Ev_int i) st = new_value (value_of_int64 i) st"
| "perform (Ev_uint64 i) st = new_value (value_of_uint64 i) st"
| "perform (Ev_real d) st = new_value (JReal d) st"
| "perform (Ev T_throw_not_value t) st = Inl (Runtime_error ''not a value'')"
| "perform (Ev T_throw_not_array t) st = Inl (Runtime_error ''not an array'')"
| "perform (Ev T_throw_not_object t) st = Inl (Runtime_error ''not an object'')"
| "perform (Ev T_throw_not_colon t) st = Inl (Runtime_error ''no colon in pair'')"

fun perform_all :: "event list \<Rightarrow> actions \<Rightarrow> failure option \<times> actions" where
  "perform_all [] st = (None, st)"
| "perform_all (e # es) st = (case perform e st of Inl f \<Rightarrow> (Some f, st) | Inr st' \<Rightarrow> perform_all es st')"

section \<open>Reading\<close>

definition read_range_or_throw :: "classic \<Rightarrow> string \<Rightarrow> json \<Rightarrow> (failure + string) \<times> json" where
  "read_range_or_throw classic s v =
     (case classic (C_nt N_json) s of
        (ev, r) \<Rightarrow>
          (case perform_all ev (Semantic_actions v) of
             (Some f, st) \<Rightarrow> (Inl f, act_value st)
           | (None, st) \<Rightarrow>
               (case r of None \<Rightarrow> (Inl Assertion_failed, act_value st) | Some rest \<Rightarrow> (Inr rest, act_value st))))"

text \<open>Exceptions are caught; a failed assertion is not an exception.\<close>

definition read_string :: "classic \<Rightarrow> string \<Rightarrow> json \<Rightarrow> failure + bool \<times> json" where
  "read_string classic s v =
     (case read_range_or_throw classic s v of
        (Inr rest, v') \<Rightarrow> Inr (True, v')
      | (Inl (Runtime_error m), v') \<Rightarrow> Inr (False, v')
      | (Inl f, v') \<Rightarrow> Inl f)"

definition json_read :: "classic \<Rightarrow> string \<Rightarrow> json \<Rightarrow> failure + bool \<times> json" where
  "json_read classic s v = read_string classic s v"

section \<open>Running the grammar on written values\<close>

lemma spirit_terminals:
  "spirit sk (C_ch c) s = Some ([], after_text [c] (skipped sk s))"
  "spirit sk (C_str t) s = Some ([], after_text t (skipped sk s))"
  "spirit sk C_eps s = Some ([], Some s)"
  "spirit sk (C_nt n) s = spirit sk (json_rules n) s"
  "spirit sk (C_lexeme a) s = spirit False a (skipped sk s)"
  "spirit sk (C_confix x C_lex_escape_ch y) s = map_option (\<lambda>r. ([], r)) (confix x y (skipped sk s))"
  by (subst spirit.simps; simp)+

lemma spirit_seq:
  "spirit sk a s = Some (ev, Some s') \<Longrightarrow> spirit sk b s' = Some (ev', r) \<Longrightarrow>
     spirit sk (C_seq a b) s = Some (ev @ ev', r)"
  "spirit sk a s = Some (ev, None) \<Longrightarrow> spirit sk (C_seq a b) s = Some (ev, None)"
  by (subst spirit.simps; simp)+

lemma spirit_alt:
  "spirit sk a s = Some (ev, Some s') \<Longrightarrow> spirit sk (C_alt a b) s = Some (ev, Some s')"
  "spirit sk a s = Some (ev, None) \<Longrightarrow> spirit sk b s = Some (ev', r) \<Longrightarrow>
     spirit sk (C_alt a b) s = Some (ev @ ev', r)"
  by (subst spirit.simps; simp)+

lemma spirit_star:
  "spirit sk a s = Some (ev, None) \<Longrightarrow> spirit sk (C_star a) s = Some (ev, Some s)"
  "spirit sk a s = Some (ev, Some s') \<Longrightarrow> spirit sk (C_star a) s' = Some (ev', r) \<Longrightarrow>
     spirit sk (C_star a) s = Some (ev @ ev', r)"
  by (subst spirit.simps; simp)+

lemma spirit_opt:
  "spirit sk a s = Some (ev, Some s') \<Longrightarrow> spirit sk (C_opt a) s = Some (ev, Some s')"
  "spirit sk a s = Some (ev, None) \<Longrightarrow> spirit sk (C_opt a) s = Some (ev, Some s)"
  by (subst spirit.simps; simp)+

lemma spirit_act:
  "spirit sk a (skipped sk s) = Some (ev, Some r) \<Longrightarrow> skipped sk s = m @ r \<Longrightarrow>
     spirit sk (C_act t a) s = Some (ev @ [Ev t m], Some r)"
  "spirit sk a (skipped sk s) = Some (ev, None) \<Longrightarrow> spirit sk (C_act t a) s = Some (ev, None)"
  by (subst spirit.simps; simp add: parsed_prefix_def)+

lemma skipped_simps [simp]:
  "skipped False s = s" "skipped sk [] = []"
  "\<not> is_space_char c \<Longrightarrow> skipped sk (c # s) = c # s"
  by (simp_all add: skipped_def)

lemma after_text_simps [simp]:
  "after_text [] s = Some s"
  "after_text (d # t) (c # s) = (if c = d then after_text t s else None)"
  "after_text (d # t) [] = None"
  by (simp_all add: after_text_def)

subsection \<open>Alternatives that fail\<close>

lemma spirit_string_no:
  assumes "\<not> is_space_char c" and "c \<noteq> dquote"
  shows "spirit True (C_act t (C_nt N_string)) (c # s) = Some ([], None)"
  using assms by (intro spirit_act) (simp add: spirit_terminals confix_def)

lemma spirit_number_no:
  assumes "\<not> is_space_char c" and "\<not> is_digit_char c" and "c \<notin> set ''+-.''"
  shows "spirit True (C_nt N_number) (c # s) = Some ([], None)"
proof -
  have "spirit True C_strict_real (c # s) = Some ([], None)"
    using assms by (subst spirit.simps) (simp add: no_real_def)
  moreover have "spirit True C_int64 (c # s) = Some ([], None)" "spirit True C_uint64 (c # s) = Some ([], None)"
    using assms by (subst spirit.simps; simp add: match_int_def)+
  ultimately show ?thesis
    using spirit_alt(2) [of True C_int64] spirit_alt(2) [of True C_strict_real]
    by (fastforce simp: spirit_terminals)
qed

lemma spirit_compound_no:
  assumes "\<not> is_space_char c"
  shows "c \<noteq> CHR ''{'' \<Longrightarrow> spirit True (C_nt N_object) (c # s) = Some ([], None)"
    and "c \<noteq> CHR ''['' \<Longrightarrow> spirit True (C_nt N_array) (c # s) = Some ([], None)"
  using assms by (simp_all add: spirit_terminals spirit_seq(2) spirit_act(2))

subsection \<open>Strings\<close>

lemma confix_body_simps:
  "confix_body b (b # r) = Some (Some r)"
  "c \<noteq> b \<Longrightarrow> c \<noteq> backslash \<Longrightarrow> confix_body b (c # r) = confix_body b r"
  "b \<noteq> backslash \<Longrightarrow> d \<notin> set ''xX01234567'' \<Longrightarrow> confix_body b (backslash # d # r) = confix_body b r"
  by (subst confix_body.simps; simp add: lex_char_def)+

lemma esc_char_pair:
  assumes "add_esc_char c = Some e"
  shows "\<exists>d. e = [backslash, d] \<and> d \<notin> set ''xX01234567''"
  using assms unfolding add_esc_char_def by (simp split: if_split_asm) force+

lemma hex_char_plain:
  assumes "a < 16"
  shows "to_hex_char a \<noteq> dquote" "to_hex_char a \<noteq> backslash"
proof -
  have "a \<in> set [0..<16]" using assms by simp
  moreover have "\<forall>a \<in> set [0..<16]. to_hex_char a \<noteq> dquote \<and> to_hex_char a \<noteq> backslash" by code_simp
  ultimately show "to_hex_char a \<noteq> dquote" "to_hex_char a \<noteq> backslash" by auto
qed

lemma confix_body_escaped: "confix_body dquote (add_esc_chars s @ dquote # rest) = Some (Some rest)"
proof (induction s)
  case Nil
  then show ?case by (simp add: confix_body_simps)
next
  case (Cons c s)
  show ?case
  proof (cases "add_esc_char c")
    case (Some e)
    then obtain d where "e = [backslash, d]" "d \<notin> set ''xX01234567''" using esc_char_pair by blast
    with Some Cons show ?thesis using confix_body_simps(3) [of dquote d] by simp
  next
    case None
    have "c \<noteq> dquote" "c \<noteq> backslash" using None by (auto simp: add_esc_char_def)
    moreover have "confix_body dquote (non_printable_to_string n @ r) = confix_body dquote r" for n r
      by (simp add: non_printable_to_string_def confix_body_simps hex_char_plain)
    ultimately show ?thesis using None Cons by (simp add: confix_body_simps)
  qed
qed

lemma not_space_dquote [simp]: "\<not> is_space_char dquote"
  by (simp add: is_space_char_def)

lemma spirit_string:
  "spirit True (C_act t (C_nt N_string)) (output_str s @ rest) = Some ([Ev t (output_str s)], Some rest)"
proof -
  have "spirit True (C_nt N_string) (output_str s @ rest) = Some ([], Some rest)"
    by (simp add: spirit_terminals output_str_def confix_def confix_body_escaped)
  from spirit_act(1) [of True, OF _ , of _ _ "[]" rest "output_str s" t] this show ?thesis
    by (simp add: output_str_def)
qed

subsection \<open>Numbers\<close>

text \<open>What may follow a written value.\<close>

definition no_number :: "string \<Rightarrow> bool" where
  "no_number s \<longleftrightarrow> (case s of [] \<Rightarrow> True | c # _ \<Rightarrow> \<not> is_digit_char c \<and> c \<noteq> CHR ''.'')"

lemma digits_then:
  assumes "no_number rest"
  shows "takeWhile is_digit_char (show_nat n @ rest) = show_nat n"
    and "dropWhile is_digit_char (show_nat n @ rest) = rest"
proof -
  have "\<forall>c \<in> set (show_nat n). is_digit_char c" by (simp add: show_nat_digits)
  moreover have "takeWhile is_digit_char rest = []" "dropWhile is_digit_char rest = rest"
    using assms by (cases rest; simp add: no_number_def)+
  ultimately show "takeWhile is_digit_char (show_nat n @ rest) = show_nat n"
    and "dropWhile is_digit_char (show_nat n @ rest) = rest"
    by (simp_all add: takeWhile_append2 dropWhile_append2)
qed

lemma match_show_int:
  assumes "no_number rest" and "lo \<le> i" and "i \<le> hi"
  shows "match_int True lo hi (show_int i @ rest) = Some (i, rest)" and "no_real (show_int i @ rest)"
proof -
  obtain c t where ct: "show_nat (nat i) = c # t" by (cases "show_nat (nat i)") auto
  then have "is_digit_char c" using show_nat_digits [of c "nat i"] by simp
  note plain = digit_char_plain [OF this]
  note split = digits_then [OF assms(1)]
  have rest: "case rest of [] \<Rightarrow> True | c # _ \<Rightarrow> c \<noteq> CHR ''.''"
    using assms(1) by (cases rest) (auto simp: no_number_def)
  have "match_int True lo hi (show_int i @ rest) = Some (i, rest) \<and> no_real (show_int i @ rest)"
  proof (cases "i < 0")
    case True
    then show ?thesis using assms rest split [of "nat (- i)"]
      by (simp add: match_int_def no_real_def show_int_def Let_def)
  next
    case False
    then have "dec_val (c # t) = nat i" using dec_val_show_nat [of "nat i"] ct by simp
    with False show ?thesis using assms rest split [of "nat i"] plain ct
      by (simp add: match_int_def no_real_def show_int_def Let_def)
  qed
  then show "match_int True lo hi (show_int i @ rest) = Some (i, rest)" and "no_real (show_int i @ rest)"
    by simp_all
qed

lemma show_int_first:
  obtains c t where "show_int i = c # t" and "c = CHR ''-'' \<or> is_digit_char c"
proof -
  obtain c t where ct: "show_nat (nat i) = c # t" by (cases "show_nat (nat i)") auto
  then have "is_digit_char c" using show_nat_digits [of c "nat i"] by simp
  with that ct show thesis by (cases "i < 0") (auto simp: show_int_def)
qed

lemma spirit_int:
  assumes "no_number rest"
  shows "spirit True (C_nt N_number) (show_int (sint (i :: size_t)) @ rest) = Some ([Ev_int i], Some rest)"
proof -
  have range: "- (2 ^ 63) \<le> sint i" "sint i \<le> 2 ^ 63 - 1"
    using sint_ge [of i] sint_lt [of i] by simp_all
  note match = match_show_int [OF assms range]
  have skip: "skipped True (show_int (sint i) @ rest) = show_int (sint i) @ rest"
    by (rule show_int_first [of "sint i"]) (auto dest: digit_char_plain simp: is_space_char_def)
  have "spirit True C_strict_real (show_int (sint i) @ rest) = Some ([], None)"
    by (subst spirit.simps) (simp add: skip match(2))
  moreover have "spirit True C_int64 (show_int (sint i) @ rest) = Some ([Ev_int i], Some rest)"
    using match(1) by (subst spirit.simps) (simp add: skip)
  ultimately show ?thesis
    using spirit_alt(1) [of True C_int64] spirit_alt(2) [of True C_strict_real]
    by (fastforce simp: spirit_terminals)
qed

subsection \<open>White space\<close>

lemma skipped_space: "is_space_char c \<Longrightarrow> skipped True (c # s) = skipped True s"
  by (simp add: skipped_def)

lemma skipped_spaces: "list_all is_space_char ws \<Longrightarrow> skipped True (ws @ s) = skipped True s"
  by (induction ws) (simp_all add: skipped_space)

text \<open>A grammar that skips white space before it looks at anything.\<close>

definition skips :: "cgram \<Rightarrow> bool" where
  "skips g \<longleftrightarrow> (\<forall>c s. is_space_char c \<longrightarrow> spirit True g (c # s) = spirit True g s)"

named_theorems skipping

lemma skips_terminals [skipping]: "skips (C_ch c)" "skips (C_str t)" "skips C_int64" "skips C_uint64" "skips C_strict_real"
  unfolding skips_def by (intro allI impI; subst (1 2) spirit.simps; simp add: skipped_space)+

lemma skips_act [skipping]: "skips (C_act t a)"
  unfolding skips_def by (intro allI impI; subst (1 2) spirit.simps; simp add: skipped_space)

lemma skips_lexeme [skipping]: "skips (C_lexeme a)"
  unfolding skips_def by (intro allI impI; subst (1 2) spirit.simps; simp add: skipped_space)

lemma skips_alt [skipping]: "skips a \<Longrightarrow> skips b \<Longrightarrow> skips (C_alt a b)"
  unfolding skips_def by (intro allI impI; subst (1 2) spirit.simps; simp)

lemma skips_seq [skipping]: "skips a \<Longrightarrow> skips (C_seq a b)"
  unfolding skips_def by (intro allI impI; subst (1 2) spirit.simps; simp)

lemma skips_nt: "skips (json_rules n) \<Longrightarrow> skips (C_nt n)"
  unfolding skips_def by (simp add: spirit_terminals)

lemma skips_value [skipping]: "skips (C_nt N_value)"
  by (rule skips_nt, simp, intro skipping skips_nt; simp; intro skipping skips_nt; simp; intro skipping)

lemma skips_pair [skipping]: "skips (C_nt N_pair)"
  by (rule skips_nt, simp, intro skipping)

lemma skips_json [skipping]: "skips (C_nt N_json)"
  by (rule skips_nt, simp, intro skipping)

lemma skips_spaces: "skips g \<Longrightarrow> list_all is_space_char ws \<Longrightarrow> spirit True g (ws @ s) = spirit True g s"
  by (induction ws) (simp_all add: skips_def)

subsection \<open>Values\<close>

text \<open>The values a write keeps: no reals (eight decimals are kept of them) and no unsigned integers.\<close>

fun readable :: "json \<Rightarrow> bool" where
  "readable (Obj ms) = (\<forall>m \<in> set ms. readable (snd m))"
| "readable (Arr xs) = (\<forall>x \<in> set xs. readable x)"
| "readable (JInt i u) = (\<not> u)"
| "readable (JReal d) = False"
| "readable _ = True"

text \<open>The action calls that build a value.\<close>

fun events :: "json \<Rightarrow> event list" where
  "events (Obj ms) =
     [Ev T_begin_obj ''{''] @ concat (map (\<lambda>m. Ev T_new_name (output_str (fst m)) # events (snd m)) ms) @
     [Ev T_end_obj ''}'']"
| "events (Arr xs) = [Ev T_begin_array ''[''] @ concat (map events xs) @ [Ev T_end_array '']'']"
| "events (JStr s) = [Ev T_new_str (output_str s)]"
| "events (JBool b) = [if b then Ev T_new_true ''true'' else Ev T_new_false ''false'']"
| "events (JInt i u) = [Ev_int i]"
| "events (JReal d) = [Ev_real d]"
| "events JNull = [Ev T_new_null ''null'']"

text \<open>The text of a list: before each element and before the closing bracket the line break and the indentation, if any.\<close>

fun join :: "string list \<Rightarrow> string" where
  "join [] = []"
| "join (x # xs) = x @ (if xs \<noteq> [] then '','' else []) @ join xs"

definition lead :: "bool \<Rightarrow> nat \<Rightarrow> string" where
  "lead pretty l = new_line pretty @ indent pretty l"

lemma layout_spaces [simp]: "list_all is_space_char (lead pretty l)" "list_all is_space_char (space pretty)"
  by (auto simp: lead_def new_line_def indent_def space_def is_space_char_def list_all_iff)

lemma new_line_elements:
  "new_line pretty @ output_elements pretty l f xs = join (map (\<lambda>x. lead pretty l @ f x) xs) @ new_line pretty"
  by (induction xs) (auto simp: lead_def)

lemma output_bracketed:
  "output_array_or_obj pretty l c d f xs =
   c # join (map (\<lambda>x. lead pretty (Suc l) @ f (Suc l) x) xs) @ lead pretty l @ [d]"
  using new_line_elements [of pretty "Suc l" "f (Suc l)" xs] by (simp add: output_array_or_obj_def lead_def flip: append_assoc)

definition member_text :: "bool \<Rightarrow> nat \<Rightarrow> string \<times> json \<Rightarrow> string" where
  "member_text pretty l m =
     output_str (fst m) @ space pretty @ '':'' @ space pretty @ output_value pretty l (snd m)"

lemma output_Obj:
  "output_value pretty l (Obj ms) =
   CHR ''{'' # join (map (\<lambda>m. lead pretty (Suc l) @ member_text pretty (Suc l) m) ms) @ lead pretty l @ ''}''"
  by (simp add: output_bracketed member_text_def case_prod_unfold)

lemma output_Arr:
  "output_value pretty l (Arr xs) =
   CHR ''['' # join (map (\<lambda>x. lead pretty (Suc l) @ output_value pretty (Suc l) x) xs) @ lead pretty l @ '']''"
  by (simp add: output_bracketed)

text \<open>A comma-separated list, by the grammar \<^verbatim>\<open>g >> *(',' >> g)\<close>.\<close>

lemma spirit_list:
  assumes item: "\<And>x rest. x \<in> set xs \<Longrightarrow> no_number rest \<Longrightarrow>
      spirit True g (tx x @ rest) = Some (ev x, Some rest)"
    and "xs \<noteq> []" and stop: "skipped True rest = d # r" "d \<noteq> CHR '',''" "no_number rest"
  shows "spirit True (C_seq g (C_star (C_seq (C_ch (CHR '','')) g))) (join (map tx xs) @ rest) =
    Some (concat (map ev xs), Some rest)"
proof -
  let ?more = "C_star (C_seq (C_ch (CHR '','')) g)"
  let ?tail = "\<lambda>ys. concat (map (\<lambda>y. '','' @ tx y) ys)"
  have comma: "\<not> is_space_char (CHR '','')" by (simp add: is_space_char_def)
  have nn: "no_number (?tail ys @ rest)" for ys
    using stop(3) by (cases ys) (simp_all add: no_number_def is_digit_char_def)
  have tail: "spirit True ?more (?tail ys @ rest) = Some (concat (map ev ys), Some rest)"
    if "set ys \<subseteq> set xs" for ys
    using that
  proof (induction ys)
    case Nil
    have "spirit True (C_seq (C_ch (CHR '','')) g) rest = Some ([], None)"
      by (rule spirit_seq) (simp add: spirit_terminals stop(1,2))
    then show ?case by (simp add: spirit_star)
  next
    case (Cons y ys)
    have "spirit True (C_ch (CHR '','')) ('','' @ tx y @ ?tail ys @ rest) = Some ([], Some (tx y @ ?tail ys @ rest))"
      by (simp add: spirit_terminals comma)
    moreover have "spirit True g (tx y @ ?tail ys @ rest) = Some (ev y, Some (?tail ys @ rest))"
      using Cons.prems nn by (intro item) auto
    ultimately have "spirit True (C_seq (C_ch (CHR '','')) g) ('','' @ tx y @ ?tail ys @ rest) =
        Some ([] @ ev y, Some (?tail ys @ rest))" by (rule spirit_seq(1))
    from spirit_star(2) [OF this Cons.IH] Cons.prems show ?case by simp
  qed
  obtain x ys where xs: "xs = x # ys" using assms(2) by (cases xs) auto
  have "join (map tx (x # ys)) = tx x @ ?tail ys" by (induction ys arbitrary: x) auto
  have "spirit True g (tx x @ ?tail ys @ rest) = Some (ev x, Some (?tail ys @ rest))"
    using xs nn by (intro item) auto
  from spirit_seq(1) [OF this tail] xs \<open>join (map tx (x # ys)) = _\<close> show ?thesis by auto
qed

lemma not_space_punct [simp]:
  "\<not> is_space_char (CHR ''{'')" "\<not> is_space_char (CHR ''}'')" "\<not> is_space_char (CHR ''['')"
  "\<not> is_space_char (CHR '']'')" "\<not> is_space_char (CHR '':'')" "\<not> is_space_char (CHR ''t'')"
  "\<not> is_space_char (CHR ''f'')" "\<not> is_space_char (CHR ''n'')"
  by (simp_all add: is_space_char_def)

lemma not_digit_punct [simp]:
  "\<not> is_digit_char (CHR ''{'')" "\<not> is_digit_char (CHR ''}'')" "\<not> is_digit_char (CHR ''['')"
  "\<not> is_digit_char (CHR '']'')" "\<not> is_digit_char (CHR ''t'')" "\<not> is_digit_char (CHR ''f'')"
  "\<not> is_digit_char (CHR ''n'')"
  by (simp_all add: is_digit_char_def)

lemma spirit_char_act:
  "\<not> is_space_char c \<Longrightarrow> spirit True (C_act t (C_ch c)) (c # s) = Some ([Ev t [c]], Some s)"
  using spirit_act(1) [of True "C_ch c" "c # s" "[]" s "[c]" t] by (simp add: spirit_terminals)

lemma spirit_text_act:
  assumes "w = c # w'" and "\<not> is_space_char c"
  shows "spirit True (C_act t (C_str w)) (w @ s) = Some ([Ev t w], Some s)"
  using spirit_act(1) [of True "C_str w" "w @ s" "[]" s w t] assms
  by (simp add: spirit_terminals after_text_def)

lemma spirit_text_no:
  "\<not> is_space_char c \<Longrightarrow> c \<noteq> d \<Longrightarrow> spirit True (C_act t (C_str (d # w))) (c # s) = Some ([], None)"
  by (rule spirit_act) (simp add: spirit_terminals)

text \<open>Which alternative of \<^verbatim>\<open>value_\<close> takes a text is decided by its first character.\<close>

lemma value_string: "spirit True (C_nt N_value) (output_str s @ rest) = Some ([Ev T_new_str (output_str s)], Some rest)"
  using spirit_string by (simp add: spirit_terminals spirit_alt(1))

lemma value_past_string:
  assumes "\<not> is_space_char c" and "c \<noteq> dquote"
    and "spirit True (C_alt (C_nt N_number) (C_alt (C_nt N_object) (C_alt (C_nt N_array)
      (C_alt (C_act T_new_true (C_str ''true'')) (C_alt (C_act T_new_false (C_str ''false''))
       (C_act T_new_null (C_str ''null''))))))) (c # s) = Some (ev, r)"
  shows "spirit True (C_nt N_value) (c # s) = Some (ev, r)"
  using spirit_alt(2) [OF spirit_string_no [OF assms(1,2)] assms(3)] by (simp add: spirit_terminals)

lemma value_number:
  assumes "\<not> is_space_char c" and "c \<noteq> dquote" and "spirit True (C_nt N_number) (c # s) = Some (ev, Some r)"
  shows "spirit True (C_nt N_value) (c # s) = Some (ev, Some r)"
  using assms by (intro value_past_string spirit_alt(1))

lemma value_past_number:
  assumes "\<not> is_space_char c" and "c \<noteq> dquote" and "\<not> is_digit_char c" and "c \<notin> set ''+-.''"
    and "spirit True (C_alt (C_nt N_object) (C_alt (C_nt N_array)
      (C_alt (C_act T_new_true (C_str ''true'')) (C_alt (C_act T_new_false (C_str ''false''))
       (C_act T_new_null (C_str ''null'')))))) (c # s) = Some (ev, r)"
  shows "spirit True (C_nt N_value) (c # s) = Some (ev, r)"
  using spirit_alt(2) [OF spirit_number_no [OF assms(1,3,4)] assms(5)] assms(1,2)
  by (simp add: value_past_string)

lemma value_object:
  assumes "spirit True (C_nt N_object) (CHR ''{'' # s) = Some (ev, Some r)"
  shows "spirit True (C_nt N_value) (CHR ''{'' # s) = Some (ev, Some r)"
  using spirit_alt(1) [OF assms] by (intro value_past_number) simp_all

lemma value_past_compound:
  assumes "\<not> is_space_char c" and "c \<noteq> dquote" and "\<not> is_digit_char c" and "c \<notin> set ''+-.''"
    and "c \<noteq> CHR ''{''" and "c \<noteq> CHR ''[''"
    and "spirit True (C_alt (C_act T_new_true (C_str ''true'')) (C_alt (C_act T_new_false (C_str ''false''))
       (C_act T_new_null (C_str ''null'')))) (c # s) = Some (ev, r)"
  shows "spirit True (C_nt N_value) (c # s) = Some (ev, r)"
  using spirit_alt(2) [OF spirit_compound_no(1) [OF assms(1,5)]
      spirit_alt(2) [OF spirit_compound_no(2) [OF assms(1,6)] assms(7)]] assms(1-4)
  by (simp add: value_past_number)

lemma value_array:
  assumes "spirit True (C_nt N_array) (CHR ''['' # s) = Some (ev, Some r)"
  shows "spirit True (C_nt N_value) (CHR ''['' # s) = Some (ev, Some r)"
  using spirit_alt(2) [OF spirit_compound_no(1) spirit_alt(1) [OF assms]]
  by (intro value_past_number) simp_all

lemma value_words:
  "spirit True (C_nt N_value) (''true'' @ s) = Some ([Ev T_new_true ''true''], Some s)"
  "spirit True (C_nt N_value) (''false'' @ s) = Some ([Ev T_new_false ''false''], Some s)"
  "spirit True (C_nt N_value) (''null'' @ s) = Some ([Ev T_new_null ''null''], Some s)"
proof -
  note words = spirit_text_act [of "''true''", OF refl] spirit_text_act [of "''false''", OF refl]
    spirit_text_act [of "''null''", OF refl]
  show "spirit True (C_nt N_value) (''true'' @ s) = Some ([Ev T_new_true ''true''], Some s)"
    using spirit_alt(1) [OF words(1) [of T_new_true s]] by (simp add: value_past_compound)
  have "spirit True (C_alt (C_act T_new_false (C_str ''false'')) (C_act T_new_null (C_str ''null''))) (''false'' @ s) =
      Some ([Ev T_new_false ''false''], Some s)"
    by (rule spirit_alt(1) [OF words(2)]) simp
  then show "spirit True (C_nt N_value) (''false'' @ s) = Some ([Ev T_new_false ''false''], Some s)"
    using spirit_alt(2) [OF spirit_text_no [of "CHR ''f''" "CHR ''t''" T_new_true "''rue''" "''alse'' @ s"]]
    by (simp add: value_past_compound)
  have "spirit True (C_alt (C_act T_new_false (C_str ''false'')) (C_act T_new_null (C_str ''null''))) (''null'' @ s) =
      Some ([] @ [Ev T_new_null ''null''], Some s)"
    by (rule spirit_alt(2) [OF _ words(3)]) (simp_all add: spirit_text_no)
  then show "spirit True (C_nt N_value) (''null'' @ s) = Some ([Ev T_new_null ''null''], Some s)"
    using spirit_alt(2) [OF spirit_text_no [of "CHR ''n''" "CHR ''t''" T_new_true "''rue''" "''ull'' @ s"]]
    by (simp add: value_past_compound)
qed

lemma spirit_pair:
  assumes "spirit True (C_nt N_value) (output_value pretty l (snd m) @ rest) = Some (events (snd m), Some rest)"
  shows "spirit True (C_nt N_pair) (member_text pretty l m @ rest) =
    Some (Ev T_new_name (output_str (fst m)) # events (snd m), Some rest)"
proof -
  let ?val = "space pretty @ output_value pretty l (snd m) @ rest"
  have "spirit True (C_alt (C_ch (CHR '':'')) (C_act T_throw_not_colon C_eps)) (space pretty @ '':'' @ ?val) = Some ([], Some ?val)"
    by (rule spirit_alt(1)) (simp add: spirit_terminals skipped_spaces)
  moreover have "spirit True (C_nt N_value) ?val = Some (events (snd m), Some rest)"
    using assms by (simp add: skips_spaces [OF skips_value])
  note spirit_alt(1) [OF this, of "C_act T_throw_not_value C_eps"]
  ultimately have "spirit True (C_seq (C_alt (C_ch (CHR '':'')) (C_act T_throw_not_colon C_eps))
      (C_alt (C_nt N_value) (C_act T_throw_not_value C_eps))) (space pretty @ '':'' @ ?val) =
      Some ([] @ events (snd m), Some rest)" by (rule spirit_seq(1))
  from spirit_seq(1) [OF spirit_string [of T_new_name "fst m"] this] show ?thesis
    by (simp add: member_text_def spirit_terminals(4))
qed

text \<open>An optional list between brackets.\<close>

lemma spirit_bracketed:
  assumes item: "\<And>x rest. x \<in> set xs \<Longrightarrow> no_number rest \<Longrightarrow>
      spirit True g (tx x @ rest) = Some (ev x, Some rest)"
    and list: "\<And>s. spirit True gl s = spirit True (C_seq g (C_star (C_seq (C_ch (CHR '','')) g))) s"
    and none: "spirit True g (d # rest) = Some ([], None)" and g: "skips g"
    and ws: "list_all is_space_char ws" "list_all is_space_char ws'"
    and c: "\<not> is_space_char c" and d: "\<not> is_space_char d" "\<not> is_digit_char d" "d \<noteq> CHR ''.''" "d \<noteq> CHR '',''"
  shows "spirit True (C_seq (C_act t1 (C_ch c)) (C_seq (C_opt gl) (C_alt (C_act t2 (C_ch d)) e)))
      (c # join (map (\<lambda>x. ws @ tx x) xs) @ ws' @ d # rest) =
    Some ([Ev t1 [c]] @ concat (map ev xs) @ [Ev t2 [d]], Some rest)"
proof -
  let ?close = "ws' @ d # rest"
  have "spirit True (C_opt gl) (join (map (\<lambda>x. ws @ tx x) xs) @ ?close) = Some (concat (map ev xs), Some ?close)"
  proof (cases "xs = []")
    case True
    have "spirit True g ?close = Some ([], None)" using none by (simp add: skips_spaces [OF g ws(2)])
    then have "spirit True gl ?close = Some ([], None)" using spirit_seq(2) by (fastforce simp: list)
    with True show ?thesis by (simp add: spirit_opt(2))
  next
    case False
    have item': "spirit True g ((ws @ tx x) @ r) = Some (ev x, Some r)" if "x \<in> set xs" "no_number r" for x r
      using item [OF that] by (simp add: skips_spaces [OF g ws(1)])
    have "skipped True ?close = d # rest" using d(1) by (simp add: skipped_spaces [OF ws(2)])
    moreover have "no_number ?close"
      using d ws(2) by (cases ws') (auto simp: no_number_def is_space_char_def is_digit_char_def)
    ultimately show ?thesis using spirit_list [where tx = "\<lambda>x. ws @ tx x", OF item' False _ d(4)]
      by (intro spirit_opt(1)) (simp add: list)
  qed
  moreover have "spirit True (C_act t2 (C_ch d)) ?close = Some ([Ev t2 [d]], Some rest)"
    using spirit_char_act [OF d(1)] by (simp add: skips_spaces [OF skips_act ws(2)])
  ultimately show ?thesis
    using spirit_seq(1) [OF spirit_char_act [OF c, of t1] spirit_seq(1) [OF _ spirit_alt(1)]] by fastforce
qed

lemma spirit_object:
  assumes "\<And>m r. m \<in> set ms \<Longrightarrow> no_number r \<Longrightarrow>
      spirit True (C_nt N_value) (output_value pretty (Suc l) (snd m) @ r) = Some (events (snd m), Some r)"
  shows "spirit True (C_nt N_object) (output_value pretty l (Obj ms) @ rest) = Some (events (Obj ms), Some rest)"
proof -
  have "spirit True (C_nt N_pair) (CHR ''}'' # rest) = Some ([], None)"
    using spirit_seq(2) [OF spirit_string_no] by (simp add: spirit_terminals(4))
  from spirit_bracketed [where tx = "member_text pretty (Suc l)" and ws = "lead pretty (Suc l)" and ws' = "lead pretty l",
      OF spirit_pair [OF assms] _ this skips_pair, of ms "C_nt N_members"]
  show ?thesis
    by (simp add: output_Obj spirit_terminals(4) [of True N_object] spirit_terminals(4) [of True N_members]
        del: output_value.simps(1))
qed

lemma spirit_value_no: "spirit True (C_nt N_value) (CHR '']'' # rest) = Some ([], None)"
proof -
  have "spirit True (C_alt (C_act T_new_true (C_str ''true'')) (C_alt (C_act T_new_false (C_str ''false''))
       (C_act T_new_null (C_str ''null'')))) (CHR '']'' # rest) = Some ([] @ [] @ [], None)"
    by (intro spirit_alt(2) spirit_text_no) simp_all
  then show ?thesis by (intro value_past_compound) simp_all
qed

lemma spirit_array:
  assumes "\<And>x r. x \<in> set xs \<Longrightarrow> no_number r \<Longrightarrow>
      spirit True (C_nt N_value) (output_value pretty (Suc l) x @ r) = Some (events x, Some r)"
  shows "spirit True (C_nt N_array) (output_value pretty l (Arr xs) @ rest) = Some (events (Arr xs), Some rest)"
  using spirit_bracketed [where tx = "output_value pretty (Suc l)" and ws = "lead pretty (Suc l)" and ws' = "lead pretty l",
      OF assms _ spirit_value_no skips_value, of xs "C_nt N_elements"]
  by (simp add: output_Arr spirit_terminals(4) [of True N_array] spirit_terminals(4) [of True N_elements]
      del: output_value.simps(2))

lemma spirit_value:
  "readable v \<Longrightarrow> no_number rest \<Longrightarrow>
     spirit True (C_nt N_value) (output_value pretty l v @ rest) = Some (events v, Some rest)"
proof (induction v arbitrary: l rest)
  case (Obj ms)
  have "spirit True (C_nt N_object) (output_value pretty l (Obj ms) @ rest) = Some (events (Obj ms), Some rest)"
    using Obj by (intro spirit_object) (auto simp: snds.simps)
  then show ?case using value_object by (simp add: output_Obj del: output_value.simps(1))
next
  case (Arr xs)
  have "spirit True (C_nt N_array) (output_value pretty l (Arr xs) @ rest) = Some (events (Arr xs), Some rest)"
    using Arr by (intro spirit_array) auto
  then show ?case using value_array by (simp add: output_Arr del: output_value.simps(2))
next
  case (JStr s)
  then show ?case using value_string by simp
next
  case (JBool b)
  then show ?case using value_words(1,2) by (simp add: output_bool_def)
next
  case (JInt i u)
  obtain c t where ct: "show_int (sint i) = c # t" "c = CHR ''-'' \<or> is_digit_char c"
    by (rule show_int_first)
  have "\<not> is_space_char c" "c \<noteq> dquote"
    using ct(2) digit_char_plain [of c] by (auto simp: is_space_char_def is_digit_char_def)
  from value_number [OF this] spirit_int [OF JInt.prems(2), of i] JInt.prems(1) ct(1) show ?case
    by (simp add: output_int_def)
next
  case JNull
  then show ?case using value_words(3) by simp
qed simp

section \<open>Building the value\<close>

lemma value_at_append:
  "value_at v (p @ q) = (case value_at v p of Some w \<Rightarrow> value_at w q | None \<Rightarrow> None)"
  by (induction p arbitrary: v) (simp_all split: option.splits)

lemma child_update:
  "child v i = Some w \<Longrightarrow> child (update_at (i # p) f v) i = Some (update_at p f w)"
  by (cases v) (auto split: if_splits)

lemma value_at_update: "value_at v p = Some w \<Longrightarrow> value_at (update_at p f v) p = Some (f w)"
proof (induction p arbitrary: v)
  case Nil
  then show ?case by simp
next
  case (Cons i p)
  then obtain u where "child v i = Some u" "value_at u p = Some w" by (auto split: option.splits)
  with Cons.IH [of u] show ?case by (simp add: child_update)
qed

lemma update_at_update:
  "value_at v p = Some w \<Longrightarrow> update_at p f (update_at p g v) = update_at p (\<lambda>x. f (g x)) v"
proof (induction p arbitrary: v)
  case Nil
  then show ?case by simp
next
  case (Cons i p)
  then show ?case by (cases v) (auto split: if_splits)
qed

lemma update_at_id: "update_at p (\<lambda>x. x) v = v"
proof (induction p arbitrary: v)
  case Nil
  then show ?case by simp
next
  case (Cons i p)
  then show ?case by (cases v) simp_all
qed

lemma update_at_cong:
  "value_at v p = Some w \<Longrightarrow> f w = g w \<Longrightarrow> update_at p f v = update_at p g v"
proof (induction p arbitrary: v)
  case Nil
  then show ?case by simp
next
  case (Cons i p)
  then show ?case by (cases v) (auto split: if_splits)
qed

lemma update_at_append:
  "update_at (p @ q) f v = update_at p (update_at q f) v" if "value_at v p = Some w"
  using that
proof (induction p arbitrary: v)
  case Nil
  then show ?case by simp
next
  case (Cons i p)
  then show ?case by (cases v) (auto split: if_splits)
qed

lemma type_of_push [simp]: "type_of (push_child n v w) = type_of w"
  by (cases w) simp_all

abbreviation compound :: "json \<Rightarrow> bool" where
  "compound w \<equiv> type_of w = array_type \<or> type_of w = obj_type"

lemma last_child:
  assumes "compound w"
  shows "child (push_child n u w) (count w) = Some u"
    and "update_at [count w] f (push_child n u w) = push_child n (f u) w"
  using assms by (cases w; simp)+

text \<open>Appending to the element that was just appended.\<close>

lemma nested_child:
  assumes "value_at v p = Some w" and "compound w"
  shows "value_at (update_at p (push_child n u) v) (p @ [count w]) = Some u"
    and "update_at (p @ [count w]) f (update_at p (push_child n u) v) = update_at p (push_child n (f u)) v"
proof -
  note at = value_at_update [OF assms(1)]
  show "value_at (update_at p (push_child n u) v) (p @ [count w]) = Some u"
    using at [of "push_child n u"] last_child(1) [OF assms(2)] by (simp add: value_at_append)
  have "update_at (p @ [count w]) f (update_at p (push_child n u) v) =
      update_at p (\<lambda>x. update_at [count w] f (push_child n u x)) v"
    using update_at_append [OF at] update_at_update [OF assms(1)] by simp
  also have "\<dots> = update_at p (push_child n (f u)) v"
    by (rule update_at_cong [OF assms(1)]) (rule last_child(2) [OF assms(2)])
  finally show "update_at (p @ [count w]) f (update_at p (push_child n u) v) = update_at p (push_child n (f u)) v" .
qed

lemma perform_all_append:
  "perform_all (xs @ ys) st =
     (case perform_all xs st of (None, st') \<Rightarrow> perform_all ys st' | (Some f, st') \<Rightarrow> (Some f, st'))"
  by (induction xs arbitrary: st) (simp_all split: sum.splits)

text \<open>
  \<open>builds es q f\<close>: in any state whose current position \<open>q\<close> holds a value of type \<open>t\<close>, the calls \<open>es\<close>
  apply \<open>f\<close> there and leave position and stack as they were.
\<close>

definition builds :: "event list \<Rightarrow> Value_type \<Rightarrow> (string \<Rightarrow> json \<Rightarrow> json) \<Rightarrow> bool" where
  "builds es t f \<longleftrightarrow>
     (\<forall>st q w. current_p st = Some q \<and> value_at (act_value st) q = Some w \<and> type_of w = t \<longrightarrow>
        (\<exists>n. perform_all es st =
               (None, st\<lparr>act_value := update_at q (f (act_name st)) (act_value st), act_name := n\<rparr>)))"

lemma buildsE:
  assumes "builds es t f" and "current_p st = Some q" and "value_at (act_value st) q = Some w" and "type_of w = t"
  obtains n where "perform_all es st =
      (None, st\<lparr>act_value := update_at q (f (act_name st)) (act_value st), act_name := n\<rparr>)"
  using assms unfolding builds_def by blast

lemma builds_list:
  assumes "\<And>x. x \<in> set xs \<Longrightarrow> builds (es x) t (\<lambda>_. f x)" and "\<And>x w. type_of (f x w) = type_of w"
  shows "builds (concat (map es xs)) t (\<lambda>_. fold f xs)"
  unfolding builds_def
proof (intro allI impI, elim conjE)
  fix st :: actions and q w
  assume "current_p st = Some q" "value_at (act_value st) q = Some w" "type_of w = t"
  then show "\<exists>n. perform_all (concat (map es xs)) st =
      (None, st\<lparr>act_value := update_at q (fold f xs) (act_value st), act_name := n\<rparr>)"
    using assms(1)
  proof (induction xs arbitrary: st w)
    case Nil
    then show ?case by (intro exI [of _ "act_name st"]) (simp add: update_at_id id_def)
  next
    case (Cons x xs)
    have "builds (es x) t (\<lambda>_. f x)" using Cons.prems(4) by simp
    then obtain n where step: "perform_all (es x) st =
        (None, st\<lparr>act_value := update_at q (f x) (act_value st), act_name := n\<rparr>)"
      by (rule buildsE [OF _ Cons.prems(1-3)])
    let ?st = "st\<lparr>act_value := update_at q (f x) (act_value st), act_name := n\<rparr>"
    have "value_at (act_value ?st) q = Some (f x w)" using value_at_update [OF Cons.prems(2)] by simp
    from Cons.IH [OF _ this] Cons.prems assms(2) obtain m where
      "perform_all (concat (map es xs)) ?st =
        (None, ?st\<lparr>act_value := update_at q (fold f xs) (act_value ?st), act_name := m\<rparr>)"
      by fastforce
    then show ?case using step update_at_update [OF Cons.prems(2)]
      by (auto simp: perform_all_append comp_def)
  qed
qed

lemma fold_push:
  "fold (push_child n) xs (Arr ys) = Arr (ys @ xs)"
  "fold (\<lambda>m. push_child (fst m) (snd m)) ms (Obj ns) = Obj (ns @ ms)"
  by (induction xs arbitrary: ys; simp) (induction ms arbitrary: ns; simp)

text \<open>Opening a compound inside another, filling it and closing it appends it as a whole.\<close>

lemma builds_compound:
  assumes "builds es (type_of u) (\<lambda>_. f)" and "compound u" and "t \<in> {obj_type, array_type}"
    and b: "\<And>st. perform b st = begin_compound u st" and c: "\<And>st. perform c st = end_compound st"
  shows "builds ([b] @ es @ [c]) t (\<lambda>n. push_child n (f u))"
  unfolding builds_def
proof (intro allI impI, elim conjE)
  fix st :: actions and q w
  assume st: "current_p st = Some q" "value_at (act_value st) q = Some w" "type_of w = t"
  then have w: "compound w" using assms(3) by auto
  let ?q = "q @ [count w]"
  let ?st1 = "st\<lparr>act_value := update_at q (push_child (act_name st) u) (act_value st),
      current_p := Some ?q, act_stack := act_stack st @ [q]\<rparr>"
  have opened: "perform b st = Inr ?st1"
    using st w by (simp add: b begin_compound_def add_to_current_def assert_def)
  note nested = nested_child [OF st(2) w]
  obtain n where fill: "perform_all es ?st1 =
      (None, ?st1\<lparr>act_value := update_at ?q f (act_value ?st1), act_name := n\<rparr>)"
    by (rule buildsE [OF assms(1), of ?st1 ?q u]) (simp_all add: nested(1))
  have "perform c (?st1\<lparr>act_value := update_at ?q f (act_value ?st1), act_name := n\<rparr>) =
      Inr (st\<lparr>act_value := update_at q (push_child (act_name st) (f u)) (act_value st), act_name := n\<rparr>)"
    using st(1) by (simp add: c end_compound_def nested(2))
  with opened fill show "\<exists>n. perform_all ([b] @ es @ [c]) st =
      (None, st\<lparr>act_value := update_at q (push_child (act_name st) (f u)) (act_value st), act_name := n\<rparr>)"
    by (auto simp: perform_all_append)
qed

lemma builds_scalar:
  assumes "t \<in> {obj_type, array_type}" and "\<And>st. perform e st = new_value v st"
  shows "builds [e] t (\<lambda>n. push_child n v)"
  unfolding builds_def
proof (intro allI impI, elim conjE)
  fix st :: actions and q w
  assume "current_p st = Some q" "value_at (act_value st) q = Some w" "type_of w = t"
  then show "\<exists>n. perform_all [e] st =
      (None, st\<lparr>act_value := update_at q (push_child (act_name st) v) (act_value st), act_name := n\<rparr>)"
    using assms
    by (intro exI [of _ "act_name st"]) (auto simp: new_value_def add_to_current_def assert_def)
qed

lemma get_output_str [simp]: "get_str_quoted (output_str s) = Inr s"
  by (simp add: get_str_quoted_def output_str_def)

lemma builds_member:
  assumes "builds (events v) obj_type (\<lambda>n. push_child n v)"
  shows "builds (Ev T_new_name (output_str k) # events v) obj_type (\<lambda>_. push_child k v)"
  unfolding builds_def
proof (intro allI impI, elim conjE)
  fix st :: actions and q w
  assume st: "current_p st = Some q" "value_at (act_value st) q = Some w" "type_of w = obj_type"
  have "perform (Ev T_new_name (output_str k)) st = Inr (st\<lparr>act_name := k\<rparr>)"
    using st by (simp add: new_name_def)
  moreover obtain n where "perform_all (events v) (st\<lparr>act_name := k\<rparr>) =
      (None, st\<lparr>act_name := k, act_value := update_at q (push_child k v) (act_value st), act_name := n\<rparr>)"
    by (rule buildsE [OF assms, of "st\<lparr>act_name := k\<rparr>" q w]) (use st in simp_all)
  ultimately show "\<exists>n. perform_all (Ev T_new_name (output_str k) # events v) st =
      (None, st\<lparr>act_value := update_at q (push_child k v) (act_value st), act_name := n\<rparr>)"
    by auto
qed

lemma builds_element:
  assumes "builds (events v) array_type (\<lambda>n. push_child n v)"
  shows "builds (events v) array_type (\<lambda>_. push_child [] v)"
  unfolding builds_def
proof (intro allI impI, elim conjE)
  fix st :: actions and q w
  assume st: "current_p st = Some q" "value_at (act_value st) q = Some w" "type_of w = array_type"
  then obtain n where "perform_all (events v) st =
      (None, st\<lparr>act_value := update_at q (push_child (act_name st) v) (act_value st), act_name := n\<rparr>)"
    by (rule buildsE [OF assms])
  moreover have "update_at q (push_child (act_name st) v) (act_value st) = update_at q (push_child [] v) (act_value st)"
    by (rule update_at_cong [OF st(2)]) (use st(3) in \<open>cases w; simp\<close>)
  ultimately show "\<exists>n. perform_all (events v) st =
      (None, st\<lparr>act_value := update_at q (push_child [] v) (act_value st), act_name := n\<rparr>)" by auto
qed

lemma builds_events:
  "readable v \<Longrightarrow> t \<in> {obj_type, array_type} \<Longrightarrow> builds (events v) t (\<lambda>n. push_child n v)"
proof (induction v arbitrary: t)
  case (Obj ms)
  have "builds (Ev T_new_name (output_str (fst m)) # events (snd m)) obj_type (\<lambda>_. push_child (fst m) (snd m))"
    if "m \<in> set ms" for m
    using that Obj by (intro builds_member Obj.IH) (auto simp: snds.simps)
  from builds_list [OF this] builds_compound [of _ "Obj []"] Obj.prems(2) fold_push(2) [of ms "[]"]
  show ?case by fastforce
next
  case (Arr xs)
  have "builds (events x) array_type (\<lambda>_. push_child [] x)" if "x \<in> set xs" for x
    using that Arr by (intro builds_element Arr.IH) auto
  from builds_list [OF this] builds_compound [of _ "Arr []"] Arr.prems(2) fold_push(1) [of "[]" xs "[]"]
  show ?case by fastforce
next
  case (JStr s)
  then show ?case by (auto intro!: builds_scalar simp: new_str_def)
next
  case (JBool b)
  then show ?case by (cases b) (auto intro!: builds_scalar)
next
  case (JInt i u)
  then show ?case by (auto intro!: builds_scalar simp: value_of_int64_def)
next
  case JNull
  then show ?case by (auto intro!: builds_scalar)
qed simp

text \<open>At the top there is no current position: the first value becomes the root.\<close>

lemma root_compound:
  assumes "builds es (type_of u) (\<lambda>_. f)"
    and b: "\<And>st. perform b st = begin_compound u st" and c: "\<And>st. perform c st = end_compound st"
  shows "\<exists>st'. perform_all ([b] @ es @ [c]) (Semantic_actions v0) = (None, st') \<and> act_value st' = f u"
proof -
  let ?st = "(Semantic_actions v0)\<lparr>act_value := u, current_p := Some []\<rparr>"
  have "perform b (Semantic_actions v0) = Inr ?st"
    by (simp add: b begin_compound_def add_first_def assert_def Semantic_actions_def)
  moreover obtain n where "perform_all es ?st =
      (None, ?st\<lparr>act_value := update_at [] f (act_value ?st), act_name := n\<rparr>)"
    by (rule buildsE [OF assms(1), of ?st "[]" u]) simp_all
  ultimately show ?thesis by (auto simp: perform_all_append c end_compound_def)
qed

lemma root_scalar:
  "(\<And>st. perform e st = new_value v st) \<Longrightarrow>
     \<exists>st'. perform_all [e] (Semantic_actions v0) = (None, st') \<and> act_value st' = v"
  by (simp add: new_value_def add_to_current_def add_first_def assert_def Semantic_actions_def)

lemma events_build_value:
  assumes "readable v"
  shows "\<exists>st'. perform_all (events v) (Semantic_actions v0) = (None, st') \<and> act_value st' = v"
proof (cases v)
  case (Obj ms)
  have "builds (Ev T_new_name (output_str (fst m)) # events (snd m)) obj_type (\<lambda>_. push_child (fst m) (snd m))"
    if "m \<in> set ms" for m
    using that assms Obj by (intro builds_member builds_events) auto
  from builds_list [OF this]
  have "builds (concat (map (\<lambda>m. Ev T_new_name (output_str (fst m)) # events (snd m)) ms)) (type_of (Obj []))
      (\<lambda>_. fold (\<lambda>m. push_child (fst m) (snd m)) ms)" by simp
  from root_compound [OF this, of "Ev T_begin_obj ''{''" "Ev T_end_obj ''}''" v0] show ?thesis
    by (simp add: Obj fold_push)
next
  case (Arr xs)
  have "builds (events x) array_type (\<lambda>_. push_child [] x)" if "x \<in> set xs" for x
    using that assms Arr by (intro builds_element builds_events) auto
  from builds_list [OF this]
  have "builds (concat (map events xs)) (type_of (Arr [])) (\<lambda>_. fold (push_child []) xs)" by simp
  from root_compound [OF this, of "Ev T_begin_array ''[''" "Ev T_end_array '']''" v0] show ?thesis
    by (simp add: Arr fold_push)
next
  case (JStr s)
  then show ?thesis using root_scalar [of "Ev T_new_str (output_str s)" v v0] by (simp add: new_str_def)
next
  case (JBool b)
  then show ?thesis
    using root_scalar [of "Ev T_new_true ''true''" v v0] root_scalar [of "Ev T_new_false ''false''" v v0]
    by (cases b) simp_all
next
  case (JInt i u)
  then show ?thesis using root_scalar [of "Ev_int i" v v0] assms by (simp add: value_of_int64_def)
next
  case JNull
  then show ?thesis using root_scalar [of "Ev T_new_null ''null''" v v0] by simp
qed (use assms in simp)

lemma json_read_string:
  assumes "classic_engine classic" and "list_all is_space_char ws" and "readable v" and "no_number rest"
  shows "read_range_or_throw classic (ws @ write_string v pretty @ rest) v0 = (Inr rest, v)"
proof -
  have "spirit True (C_nt N_json) (ws @ write_string v pretty @ rest) = Some (events v, Some rest)"
    unfolding skips_spaces [OF skips_json assms(2)] using spirit_alt(1) [OF spirit_value [OF assms(3,4)]]
    by (simp add: spirit_terminals(4) [of True N_json] write_string_def)
  then have "classic (C_nt N_json) (ws @ write_string v pretty @ rest) = (events v, Some rest)"
    using assms(1) by (simp add: classic_engine_def)
  with events_build_value [OF assms(3), of v0] show ?thesis by (auto simp: read_range_or_throw_def)
qed

lemma json_read_write:
  assumes "classic_engine classic" and "readable v" and "no_number rest"
  shows "json_read classic (json_write v @ rest) v0 = Inr (True, v)"
  using json_read_string [OF assms(1) _ assms(2,3), of "[]"]
  by (simp add: json_read_def read_string_def json_write_def)

section \<open>Properties\<close>

text \<open>
  C27. Reading inverts writing: for any engine that behaves as documented, the reader accepts the text the writer
  produces, compact or formatted over indented lines, of any value without reals and unsigned integers, with any white
  space before it and any text after it that cannot continue a number, and rebuilds exactly that value (all strings byte
  for byte, members in order, duplicates kept).
\<close>

theorem json_roundtrip:
  assumes "classic_engine classic" and "list_all is_space_char ws" and "readable v" and "no_number rest"
  shows "json_read classic (ws @ write_string v pretty @ rest) v0 = Inr (True, v)"
  using json_read_string [OF assms] by (simp add: json_read_def read_string_def)

theorem json_roundtrip_witness:
  "json_read spirit_engine
     ('' '' @ write_string (Obj [(''size'', value_of_int 12), ([dquote], Arr [JNull, JStr [LF, CHR 0xFF]])]) True @ crlf) JNull =
   Inr (True, Obj [(''size'', value_of_int 12), ([dquote], Arr [JNull, JStr [LF, CHR 0xFF]])])"
  by (rule json_roundtrip [OF classic_engine_spirit])
    (simp_all add: value_of_int_def no_number_def is_digit_char_def is_space_char_def)

end
