(* ===== verification/Sync.thy ===== *)
theory Sync
  imports Request_Handler Json_Reader
begin

text \<open>
  The synchroniser (\<^verbatim>\<open>Sync.hpp\<close>, \<^verbatim>\<open>Sync.cpp\<close>): a thread that pulls the blobs of the configured peers and
  pushes its own to them. HTTP is spoken by libcurl, whose code is not part of the repository: a
  transfer is an argument of the model, a function of the options set on the handle, the local files
  (for the file of a form) and the state of the network, which gives the verdict, the pieces of the
  body handed to the write callback and the next state of the network.
\<close>

section \<open>libcurl handles\<close>

record form_file =
  section_name :: string
  section_path :: string
  section_filename :: string
  section_type :: string

datatype curl_post = No_post | Post_fields string | Http_post form_file

record curl =
  opt_useragent :: "string option"
  opt_nosignal :: bool
  opt_followlocation :: bool
  opt_timeout :: int
  opt_url :: string
  opt_post :: curl_post

text \<open>The defaults, which \<^verbatim>\<open>curl_easy_reset\<close> restores.\<close>

definition curl_easy_init :: curl where
  "curl_easy_init =
     \<lparr>opt_useragent = None, opt_nosignal = False, opt_followlocation = False, opt_timeout = 0,
      opt_url = [], opt_post = No_post\<rparr>"

type_synonym 'n transfer = "curl \<Rightarrow> (string \<Rightarrow> string option) \<Rightarrow> 'n \<Rightarrow> bool \<times> string list \<times> 'n"

text \<open>What the synchroniser is given, and what it changes.\<close>

record 'n Sync =
  ci :: Config
  bi_host :: host
  json_engine :: classic
  transfer :: "'n transfer"

record 'n world =
  bi :: store
  net :: 'n
  handle :: curl

section \<open>Enumerations\<close>

record SyncEnumeration =
  set_last :: bool
  last_ref :: string
  blob_refs :: "string list"

text \<open>The constructor leaves \<^verbatim>\<open>last_\<close> empty.\<close>

definition new_SyncEnumeration :: SyncEnumeration where
  "new_SyncEnumeration = \<lparr>set_last = False, last_ref = [], blob_refs = []\<rparr>"

definition SyncEnumeration_last :: "SyncEnumeration \<Rightarrow> string option" where
  "SyncEnumeration_last se = (if set_last se then Some (last_ref se) else None)"

definition SyncEnumeration_set_last :: "string \<Rightarrow> SyncEnumeration \<Rightarrow> SyncEnumeration" where
  "SyncEnumeration_set_last l se = se\<lparr>last_ref := l, set_last := True\<rparr>"

definition add_blob_ref :: "string \<Rightarrow> SyncEnumeration \<Rightarrow> SyncEnumeration" where
  "add_blob_ref r se = se\<lparr>blob_refs := blob_refs se @ [r]\<rparr>"

fun blob_obj_loop :: "(string \<times> json) list \<Rightarrow> SyncEnumeration \<Rightarrow> failure + SyncEnumeration" where
  "blob_obj_loop [] se = Inr se"
| "blob_obj_loop ((n, v) # ms) se =
     (if n = ''blobRef''
      then (case get_str v of Inl f \<Rightarrow> Inl f | Inr r \<Rightarrow> blob_obj_loop ms (add_blob_ref r se))
      else blob_obj_loop ms se)"

fun blobs_array_loop :: "json list \<Rightarrow> SyncEnumeration \<Rightarrow> failure + SyncEnumeration" where
  "blobs_array_loop [] se = Inr se"
| "blobs_array_loop (v # vs) se =
     (case get_obj v of
        Inl f \<Rightarrow> Inl f
      | Inr ms \<Rightarrow> (case blob_obj_loop ms se of Inl f \<Rightarrow> Inl f | Inr se' \<Rightarrow> blobs_array_loop vs se'))"

definition enumeration_member :: "string \<Rightarrow> json \<Rightarrow> SyncEnumeration \<Rightarrow> failure + SyncEnumeration" where
  "enumeration_member n v se =
     (case (if n = ''continueAfter''
            then map_sum id (\<lambda>l. SyncEnumeration_set_last l se) (get_str v) else Inr se) of
        Inl f \<Rightarrow> Inl f
      | Inr se \<Rightarrow>
          if n = ''blobs'' \<or> n = ''stat''
          then (case get_array v of Inl f \<Rightarrow> Inl f | Inr vs \<Rightarrow> blobs_array_loop vs se)
          else Inr se)"

fun enumeration_loop :: "(string \<times> json) list \<Rightarrow> SyncEnumeration \<Rightarrow> failure + SyncEnumeration" where
  "enumeration_loop [] se = Inr se"
| "enumeration_loop ((n, v) # ms) se =
     (case enumeration_member n v se of Inl f \<Rightarrow> Inl f | Inr se' \<Rightarrow> enumeration_loop ms se')"

text \<open>A member of the wrong type throws, and nothing in the thread catches it.\<close>

definition parse_sync_enumeration :: "classic \<Rightarrow> string \<Rightarrow> failure + SyncEnumeration option" where
  "parse_sync_enumeration classic content =
     (case json_read classic content JNull of
        Inl f \<Rightarrow> Inl f
      | Inr (result, v) \<Rightarrow>
          if result = False then Inr None
          else if type_of v = obj_type
          then (case get_obj v of
                  Inl f \<Rightarrow> Inl f
                | Inr obj \<Rightarrow> map_sum id Some (enumeration_loop obj new_SyncEnumeration))
          else Inr None)"

section \<open>Requests\<close>

definition build_stat_url :: "string \<Rightarrow> string" where
  "build_stat_url peer = peer @ ''/stat''"

definition build_enumeration_url :: "string \<Rightarrow> string \<Rightarrow> string" where
  "build_enumeration_url peer l =
     peer @ ''/enumerate-blobs'' @ (if length l > 0 then ''?after='' @ l else [])"

definition build_blob_url :: "string \<Rightarrow> string \<Rightarrow> string" where
  "build_blob_url peer blob_ref = peer @ (if \<not> ends_with peer ''/'' then ''/'' else []) @ blob_ref"

fun stat_request_loop :: "(blob_key \<times> nat) list \<Rightarrow> nat \<Rightarrow> string \<Rightarrow> string" where
  "stat_request_loop [] n ss = ss"
| "stat_request_loop ((k, b) # bs) n ss =
     stat_request_loop bs (n + 1) (ss @ ''&blob'' @ show_nat n @ ''='' @ blobref k)"

definition stat_request :: "(blob_key \<times> nat) list \<Rightarrow> string" where
  "stat_request page = stat_request_loop page 1 ''camliversion=1''"

text \<open>The write callback: the bytes taken, and the buffer unless its pointer is null.\<close>

definition writer :: "string \<Rightarrow> string option \<Rightarrow> uint32 \<times> string option" where
  "writer data buffer =
     (case buffer of Some b \<Rightarrow> (of_nat (length data), Some (b @ data)) | None \<Rightarrow> (0, None))"

text \<open>
  \<^verbatim>\<open>curl_easy_perform\<close> and the \<^verbatim>\<open>curl_easy_reset\<close> after it: the buffer the callback filled, when the
  transfer succeeded.
\<close>

definition run_transfer :: "'n Sync \<Rightarrow> curl \<Rightarrow> 'n world \<Rightarrow> string option \<times> 'n world" where
  "run_transfer S c w =
     (case transfer S c (files (bi w)) (net w) of
        (result, pieces, n) \<Rightarrow>
          (if result then fold (\<lambda>d b. snd (writer d b)) pieces (Some []) else None,
           w\<lparr>net := n, handle := curl_easy_init\<rparr>))"

definition fetch_url :: "'n Sync \<Rightarrow> string \<Rightarrow> 'n world \<Rightarrow> string option \<times> 'n world" where
  "fetch_url S url w = run_transfer S ((handle w)\<lparr>opt_url := c_str url\<rparr>) w"

definition fetch_url_post :: "'n Sync \<Rightarrow> string \<Rightarrow> string \<Rightarrow> 'n world \<Rightarrow> string option \<times> 'n world" where
  "fetch_url_post S url postbody w =
     run_transfer S ((handle w)\<lparr>opt_url := c_str url, opt_post := Post_fields (c_str postbody)\<rparr>) w"

definition build_upload :: "string \<Rightarrow> Blob \<Rightarrow> form_file" where
  "build_upload blob_ref blob =
     \<lparr>section_name = c_str blob_ref, section_path = c_str (filePath blob), section_filename = ''blob1'',
      section_type = ''application/octet-stream''\<rparr>"

definition send_blob :: "'n Sync \<Rightarrow> string \<Rightarrow> string \<Rightarrow> 'n world \<Rightarrow> string option \<times> 'n world" where
  "send_blob S peer blob_ref w =
     (case get_blob (bi w) blob_ref of
        None \<Rightarrow> (None, w)
      | Some b \<Rightarrow>
          run_transfer S
            ((handle w)\<lparr>opt_url := c_str (peer @ ''/upload''),
                        opt_post := Http_post (build_upload blob_ref (heap (bi w) ! b))\<rparr>) w)"

text \<open>What is fetched is added under the reference it was fetched by.\<close>

definition fetch_blob :: "'n Sync \<Rightarrow> string \<Rightarrow> string \<Rightarrow> 'n world \<Rightarrow> failure option \<times> 'n world" where
  "fetch_blob S peer blob_ref w =
     (case fetch_url S (build_blob_url peer blob_ref) w of
        (None, w) \<Rightarrow> (None, w)
      | (Some content, w) \<Rightarrow>
          (case add_blob (bi_host S) (ci S) (Some blob_ref) content (bi w) of
             (Inl f, st) \<Rightarrow> (Some f, w\<lparr>bi := st\<rparr>)
           | (Inr _, st) \<Rightarrow> (None, w\<lparr>bi := st\<rparr>)))"

section \<open>Synchronising with a peer\<close>

fun fetch_loop :: "'n Sync \<Rightarrow> string \<Rightarrow> string list \<Rightarrow> 'n world \<Rightarrow> failure option \<times> 'n world" where
  "fetch_loop S peer [] w = (None, w)"
| "fetch_loop S peer (r # rs) w =
     (if get_blob (bi w) r = None
      then (case fetch_blob S peer r w of
              (Some f, w) \<Rightarrow> (Some f, w)
            | (None, w) \<Rightarrow> fetch_loop S peer rs w)
      else fetch_loop S peer rs w)"

text \<open>The loops of \<^verbatim>\<open>sync_host\<close>; the result \<open>None\<close> is not to return.\<close>

partial_function (option) get_loop ::
  "'n Sync \<Rightarrow> string \<Rightarrow> string \<Rightarrow> 'n world \<Rightarrow> (failure option \<times> 'n world) option" where
  "get_loop S peer l w =
     (case fetch_url S (build_enumeration_url peer l) w of
        (None, w) \<Rightarrow> Some (None, w)
      | (Some content, w) \<Rightarrow>
          (case parse_sync_enumeration (json_engine S) content of
             Inl f \<Rightarrow> Some (Some f, w)
           | Inr None \<Rightarrow> Some (None, w)
           | Inr (Some se) \<Rightarrow>
               (case fetch_loop S peer (blob_refs se) w of
                  (Some f, w) \<Rightarrow> Some (Some f, w)
                | (None, w) \<Rightarrow>
                    (case SyncEnumeration_last se of
                       Some current_last \<Rightarrow> get_loop S peer current_last w
                     | None \<Rightarrow> Some (None, w)))))"

fun push_loop :: "'n Sync \<Rightarrow> string \<Rightarrow> string list \<Rightarrow> 'n world \<Rightarrow> 'n world" where
  "push_loop S peer [] w = w"
| "push_loop S peer (r # rs) w = push_loop S peer rs (snd (send_blob S peer r w))"

text \<open>The references of a page as a \<^verbatim>\<open>std::set\<close>, and those of it a peer did not list.\<close>

definition check_blob_refs :: "(blob_key \<times> nat) list \<Rightarrow> string list" where
  "check_blob_refs page = fold insort_insert (map (\<lambda>p. blobref (fst p)) page) []"

definition refs_to_send :: "string list \<Rightarrow> string list \<Rightarrow> string list" where
  "refs_to_send check_refs known = fold removeAll known check_refs"

partial_function (option) send_loop ::
  "'n Sync \<Rightarrow> string \<Rightarrow> string option \<Rightarrow> 'n world \<Rightarrow> (failure option \<times> 'n world) option" where
  "send_loop S peer after w =
     (let blobs = paginate (bi w) after 501 [];
          check_more = (length blobs = 501);
          after = (if check_more then Some (blobref (fst (last blobs))) else after)
      in if length blobs > 0
         then (case fetch_url_post S (build_stat_url peer) (stat_request blobs) w of
                 (None, w) \<Rightarrow> Some (None, w)
               | (Some content, w) \<Rightarrow>
                   (case parse_sync_enumeration (json_engine S) content of
                      Inl f \<Rightarrow> Some (Some f, w)
                    | Inr None \<Rightarrow> Some (None, w)
                    | Inr (Some se) \<Rightarrow>
                        let w = push_loop S peer (refs_to_send (check_blob_refs blobs) (blob_refs se)) w
                        in if check_more then send_loop S peer after w else Some (None, w)))
         else if check_more then send_loop S peer after w else Some (None, w))"

definition sync_handle :: curl where
  "sync_handle =
     curl_easy_init\<lparr>opt_useragent := Some ''blobserver/1.0.0'', opt_nosignal := True,
       opt_followlocation := True, opt_timeout := 5\<rparr>"

definition sync_host :: "'n Sync \<Rightarrow> SyncConfig \<Rightarrow> 'n world \<Rightarrow> (failure option \<times> 'n world) option" where
  "sync_host S sync_config w =
     (let peer = sync_host_name sync_config;
          w = w\<lparr>handle := sync_handle\<rparr>
      in case (if SyncConfig_get sync_config then get_loop S peer [] w else Some (None, w)) of
           None \<Rightarrow> None
         | Some (Some f, w) \<Rightarrow> Some (Some f, w)
         | Some (None, w) \<Rightarrow>
             if SyncConfig_send sync_config then send_loop S peer None w else Some (None, w))"

fun sync_hosts :: "'n Sync \<Rightarrow> SyncConfig list \<Rightarrow> 'n world \<Rightarrow> (failure option \<times> 'n world) option" where
  "sync_hosts S [] w = Some (None, w)"
| "sync_hosts S (c # cs) w =
     (case sync_host S c w of
        None \<Rightarrow> None
      | Some (Some f, w) \<Rightarrow> Some (Some f, w)
      | Some (None, w) \<Rightarrow> sync_hosts S cs w)"

text \<open>
  The thread's loop, given the values \<^verbatim>\<open>stopRequested_\<close> has at its successive reads: the tick counts
  seconds up to the configured delay.
\<close>

fun sync_run :: "'n Sync \<Rightarrow> bool list \<Rightarrow> int \<Rightarrow> 'n world \<Rightarrow> (failure option \<times> int \<times> 'n world) option" where
  "sync_run S [] tick w = Some (None, tick, w)"
| "sync_run S (stopRequested # reads) tick w =
     (if stopRequested then Some (None, tick, w)
      else if tick + 1 \<ge> sync_delay (ci S)
      then (case sync_hosts S (sync_servers (ci S)) w of
              None \<Rightarrow> None
            | Some (Some f, w) \<Rightarrow> Some (Some f, tick + 1, w)
            | Some (None, w) \<Rightarrow> sync_run S reads 0 w)
      else sync_run S reads (tick + 1) w)"


section \<open>Reading the replies of a peer\<close>

lemma enumerate_loop_map:
  "enumerate_loop st bs n acc = acc @ map (\<lambda>(k, b). blob_value st (blobref k) b) (take (25 - n) bs)"
proof (induction bs arbitrary: n acc)
  case (Cons p bs)
  then show ?case by (cases p; cases "n < 25") (simp_all add: take_Cons')
qed simp

lemma stat_loop_map:
  "stat_loop st rs acc =
     acc @ map (\<lambda>r. blob_value st r (the (get_blob st r))) (filter (\<lambda>r. get_blob st r \<noteq> None) rs)"
  by (induction rs arbitrary: acc) (simp_all split: option.splits)

lemma blobs_array_loop_values:
  "blobs_array_loop (map (\<lambda>p. blob_value st (f p) (g p)) ps) se = Inr (se\<lparr>blob_refs := blob_refs se @ map f ps\<rparr>)"
  by (induction ps arbitrary: se) (simp_all add: blob_value_def add_blob_ref_def)

lemma readable_blob_value [simp]: "readable (blob_value st r b)"
  by (simp add: blob_value_def value_of_int_def)

lemma no_number_crlf [simp]: "no_number crlf"
  by (simp add: no_number_def is_digit_char_def)

lemma parse_sync_enumeration_Obj:
  assumes "classic_engine classic" and "readable (Obj ms)"
  shows "parse_sync_enumeration classic (json_write (Obj ms) @ crlf) =
    map_sum id Some (enumeration_loop ms new_SyncEnumeration)"
  using json_read_write [OF assms no_number_crlf] by (simp add: parse_sync_enumeration_def)

text \<open>What a peer's replies say: the references of a page and the one to continue from.\<close>

definition page_enumeration :: "(blob_key \<times> nat) list \<Rightarrow> SyncEnumeration" where
  "page_enumeration page =
     \<lparr>set_last = (25 < length page), last_ref = (if 25 < length page then blobref (fst (last page)) else []),
      blob_refs = map (\<lambda>p. blobref (fst p)) (take 25 page)\<rparr>"

lemma parse_enumerate_result:
  assumes "classic_engine classic"
  shows "parse_sync_enumeration classic (json_write (enumerate_result st after) @ crlf) =
    Inr (Some (page_enumeration (paginate st after 26 [])))"
proof -
  have stat: "enumerate_loop st page 0 [] = map (\<lambda>p. blob_value st (blobref (fst p)) (snd p)) (take 25 page)" for page
    by (simp add: enumerate_loop_map case_prod_beta)
  show ?thesis
    unfolding enumerate_result_def Let_def stat
    by (subst parse_sync_enumeration_Obj [OF assms])
      (auto simp: enumeration_member_def blobs_array_loop_values page_enumeration_def
        new_SyncEnumeration_def SyncEnumeration_set_last_def)
qed

lemma parse_stat_result:
  assumes "classic_engine classic"
  shows "parse_sync_enumeration classic (json_write (stat_result st rs) @ crlf) =
    Inr (Some \<lparr>set_last = False, last_ref = [], blob_refs = filter (\<lambda>r. get_blob st r \<noteq> None) rs\<rparr>)"
  unfolding stat_result_def stat_object_def stat_loop_map
  by (subst parse_sync_enumeration_Obj [OF assms])
    (auto simp: enumeration_member_def blobs_array_loop_values new_SyncEnumeration_def value_of_int_def)

section \<open>Answers that throw\<close>

text \<open>
  The members of an enumeration as they should be: the reference to continue from is a string, and the blobs are
  objects in an array whose references are strings.
\<close>

definition well_typed_blob :: "json \<Rightarrow> bool" where
  "well_typed_blob v \<longleftrightarrow> (\<exists>ms. v = Obj ms \<and> (\<forall>(n, u) \<in> set ms. n = ''blobRef'' \<longrightarrow> type_of u = str_type))"

definition well_typed_member :: "string \<times> json \<Rightarrow> bool" where
  "well_typed_member m \<longleftrightarrow>
     (fst m = ''continueAfter'' \<longrightarrow> type_of (snd m) = str_type) \<and>
     (fst m \<in> {''blobs'', ''stat''} \<longrightarrow> (\<exists>vs. snd m = Arr vs \<and> (\<forall>v \<in> set vs. well_typed_blob v)))"

lemma get_str_typed: "type_of v = str_type \<Longrightarrow> \<exists>s. get_str v = Inr s"
  by (cases v) simp_all

lemma blob_obj_loop_typed:
  "\<forall>(n, u) \<in> set ms. n = ''blobRef'' \<longrightarrow> type_of u = str_type \<Longrightarrow> \<exists>se'. blob_obj_loop ms se = Inr se'"
  by (induction ms arbitrary: se) (auto dest: get_str_typed)

lemma blobs_array_loop_typed: "\<forall>v \<in> set vs. well_typed_blob v \<Longrightarrow> \<exists>se'. blobs_array_loop vs se = Inr se'"
proof (induction vs arbitrary: se)
  case (Cons v vs)
  then obtain ms where "v = Obj ms" "\<forall>(n, u) \<in> set ms. n = ''blobRef'' \<longrightarrow> type_of u = str_type"
    by (auto simp: well_typed_blob_def)
  moreover from blob_obj_loop_typed [OF this(2)] obtain se' where "blob_obj_loop ms se = Inr se'" by blast
  ultimately show ?case using Cons by simp
qed simp

lemma enumeration_loop_typed: "\<forall>m \<in> set ms. well_typed_member m \<Longrightarrow> \<exists>se'. enumeration_loop ms se = Inr se'"
proof (induction ms arbitrary: se)
  case (Cons m ms)
  have "\<exists>se'. enumeration_member (fst m) (snd m) se = Inr se'"
    using Cons.prems blobs_array_loop_typed
    by (fastforce simp: enumeration_member_def well_typed_member_def dest: get_str_typed)
  then show ?case using Cons by (cases m) auto
qed simp

text \<open>
  Why reading an answer throws or fails an assertion: the JSON reader fails one, or the answer is an object with a member
  of the wrong type.
\<close>

definition bad_answer :: "classic \<Rightarrow> string \<Rightarrow> failure \<Rightarrow> bool" where
  "bad_answer classic content f \<longleftrightarrow>
     json_read classic content JNull = Inl f \<or>
     (\<exists>ms. json_read classic content JNull = Inr (True, Obj ms) \<and> (\<exists>m \<in> set ms. \<not> well_typed_member m))"

lemma parse_sync_enumeration_fails:
  assumes "parse_sync_enumeration classic content = Inl f"
  shows "bad_answer classic content f"
proof (cases "json_read classic content JNull")
  case (Inr r)
  obtain result v where r: "r = (result, v)" by fastforce
  then have "result" "type_of v = obj_type" using assms Inr by (auto simp: parse_sync_enumeration_def split: if_splits)
  then obtain ms where ms: "v = Obj ms" by (cases v) auto
  with assms Inr r \<open>result\<close> have "enumeration_loop ms new_SyncEnumeration = Inl f"
    by (cases "enumeration_loop ms new_SyncEnumeration") (auto simp: parse_sync_enumeration_def)
  then have "\<exists>m \<in> set ms. \<not> well_typed_member m" using enumeration_loop_typed [of ms new_SyncEnumeration] by (metis Inl_Inr_False)
  with Inr r \<open>result\<close> ms show ?thesis by (auto simp: bad_answer_def)
qed (use assms in \<open>simp add: parse_sync_enumeration_def bad_answer_def\<close>)

section \<open>Query strings\<close>

abbreviation key_start :: "char \<Rightarrow> bool" where
  "key_start c \<equiv> in_spec ''a-zA-Z_'' c"

abbreviation key_char :: "char \<Rightarrow> bool" where
  "key_char c \<equiv> in_spec ''a-zA-Z_0-9'' c"

abbreviation value_char :: "char \<Rightarrow> bool" where
  "value_char c \<equiv> in_spec ''/:_@a-zA-Z0-9.,+*!=-'' c"

definition query_pair :: "string \<times> string \<Rightarrow> bool" where
  "query_pair p \<longleftrightarrow>
     fst p \<noteq> [] \<and> key_start (hd (fst p)) \<and> (\<forall>c \<in> set (tl (fst p)). key_char c) \<and>
     snd p \<noteq> [] \<and> (\<forall>c \<in> set (snd p). value_char c)"

definition pair_text :: "string \<times> string \<Rightarrow> string" where
  "pair_text p = fst p @ ''='' @ snd p"

definition ends_value :: "string \<Rightarrow> bool" where
  "ends_value rest \<longleftrightarrow> (case rest of c # _ \<Rightarrow> c = CHR ''&'' | [] \<Rightarrow> True)"

lemma run_kv_key:
  assumes "qi_engine run" and "query_pair p"
  shows "run kv_key (fst p @ CHR ''='' # rest) = (True, [Str (fst p)], CHR ''='' # rest)"
proof -
  note qrun = qi_engineD [OF assms(1)]
  obtain c k where k: "fst p = c # k" using assms(2) by (cases "fst p") (auto simp: query_pair_def)
  have "run (QStar (QSet ''a-zA-Z_0-9'')) (k @ CHR ''='' # rest) = (True, map Ch k, CHR ''='' # rest)"
    using assms(2) k by (intro run_star_chars [OF assms(1)]) (auto simp: query_pair_def qrun)
  then show ?thesis using assms(2) k
    by (simp add: kv_key_def qrun q_rule_def q_seq_def query_pair_def)
qed

lemma run_kv_value:
  assumes "qi_engine run" and "query_pair p" and "ends_value rest"
  shows "run kv_value (snd p @ rest) = (True, [Str (snd p)], rest)"
proof -
  note qrun = qi_engineD [OF assms(1)]
  have "run (QPlus (QSet ''/:_@a-zA-Z0-9.,+*!=-'')) (snd p @ rest) = (True, map Ch (snd p), rest)"
  proof (rule run_plus_chars [OF assms(1)])
    show "\<not> fst (run (QSet ''/:_@a-zA-Z0-9.,+*!=-'') rest)"
      using assms(3) by (cases rest) (auto simp: qrun ends_value_def)
  qed (use assms(2) in \<open>auto simp: query_pair_def qrun\<close>)
  then show ?thesis by (simp add: kv_value_def qrun(10) q_rule_def)
qed

lemma run_kv_pair:
  assumes "qi_engine run" and "query_pair p" and "ends_value rest"
  shows "run kv_pair (pair_text p @ rest) = (True, [Pr (fst p) (snd p)], rest)"
proof -
  note qrun = qi_engineD [OF assms(1)]
  have "run (QLit ''='') (CHR ''='' # snd p @ rest) = (True, [], snd p @ rest)"
    by (simp add: qrun q_lit_def starts_with_def)
  then show ?thesis
    using run_kv_key [OF assms(1,2), of "snd p @ rest"] run_kv_value [OF assms]
    by (simp add: kv_pair_def pair_text_def qrun(5,7,11) q_rule_def q_seq_def q_opt_def as_pair_def)
qed

lemma run_keys_and_values:
  assumes "qi_engine run" and "query_pair p" and "\<forall>q \<in> set ps. query_pair q"
  shows "run keys_and_values (pair_text p @ concat (map (\<lambda>q. CHR ''&'' # pair_text q) ps)) =
    (True, map (\<lambda>q. Pr (fst q) (snd q)) (p # ps), [])"
proof -
  note qrun = qi_engineD [OF assms(1)]
  let ?txt = "\<lambda>q. CHR ''&'' # pair_text q" and ?sep = "QAlt (QLit '';'') (QLit ''&'')"
  have ends: "ends_value (concat (map ?txt qs))" for qs by (cases qs) (simp_all add: ends_value_def)
  have sep: "run ?sep (CHR ''&'' # s) = (True, [], s)" for s
    by (simp add: qrun q_alt_def q_lit_def starts_with_def)
  have "run (QStar (QSeq ?sep kv_pair)) (concat (map ?txt ps) @ []) = (True, concat (map (\<lambda>q. [Pr (fst q) (snd q)]) ps), [])"
  proof (rule run_star_pieces [OF assms(1)])
    fix q qs
    assume "q \<in> set ps"
    then show "run (QSeq ?sep kv_pair) (?txt q @ concat (map ?txt qs) @ []) =
        (True, [Pr (fst q) (snd q)], concat (map ?txt qs) @ [])"
      using assms(3) sep run_kv_pair [OF assms(1) _ ends, of q qs]
      by (simp add: qrun(5) q_seq_def)
  next
    show "\<not> fst (run (QSeq ?sep kv_pair) [])"
      by (simp add: qrun(1,5,6) q_seq_fst) (simp add: q_alt_def q_lit_def starts_with_def)
  qed simp
  then show ?thesis
    using run_kv_pair [OF assms(1,2) ends, of ps]
    by (simp add: keys_and_values_def qrun(5) q_seq_def concat_map_singleton)
qed

text \<open>The characters of a reference.\<close>

definition ref_alphabet :: string where
  "ref_alphabet = ''sha-0123456789ABCDEF''"

lemma blobref_chars:
  assumes "hex_digests h"
  shows "set (blobref (key_for h x t)) \<subseteq> set ref_alphabet"
proof -
  obtain n where "is_hex n (hash_value (key_for h x t))" using digest_hex(1) [OF assms] by blast
  then have "set (hash_value (key_for h x t)) \<subseteq> set hex_alphabet" by (simp only: is_hex_def)
  also have "\<dots> \<subseteq> set ref_alphabet" by (simp add: ref_alphabet_def hex_alphabet_def)
  finally have "set (hash_value (key_for h x t)) \<subseteq> set ref_alphabet" .
  moreover have "set (hash_type (key_for h x t)) \<subseteq> set ref_alphabet"
    by (cases t) (simp_all add: ref_alphabet_def)
  moreover have "set ''-'' \<subseteq> set ref_alphabet" by (simp add: ref_alphabet_def)
  ultimately show ?thesis by (simp only: blobref_def set_append Un_least simp_thms)
qed

lemma ref_alphabet_facts:
  "\<forall>c \<in> set ref_alphabet. value_char c"
  "CHR ''%'' \<notin> set ref_alphabet" "CHR ''+'' \<notin> set ref_alphabet" "CHR ''.'' \<notin> set ref_alphabet"
  "CHR ''?'' \<notin> set ref_alphabet" "NUL \<notin> set ref_alphabet"
  by (simp_all add: ref_alphabet_def)

lemma query_pairI:
  assumes "k \<noteq> []" and "key_start (hd k)" and "\<forall>c \<in> set (tl k). key_char c"
    and "v \<noteq> []" and "set v \<subseteq> set ref_alphabet"
  shows "query_pair (k, v)"
proof -
  have "\<forall>c \<in> set v. value_char c" using assms(5) ref_alphabet_facts(1) by blast
  then show ?thesis unfolding query_pair_def fst_conv snd_conv using assms(1-4) by blast
qed

lemma query_map_pairs:
  assumes "qi_engine run" and "query_pair p" and "\<forall>q \<in> set ps. query_pair q"
  shows "query_map run (pair_text p @ concat (map (\<lambda>q. CHR ''&'' # pair_text q) ps)) =
    Some (as_map (map (\<lambda>q. Pr (fst q) (snd q)) (p # ps)) [])"
  using run_keys_and_values [OF assms] by (simp add: query_map_def)

lemma after_question_split:
  assumes "CHR ''?'' \<notin> set p" and "length p < 2 ^ 32 - 1"
  shows "after_question (p @ CHR ''?'' # q) = Inr (Some q)"
  using assms by (simp add: after_question_eq str_find_def)

lemma after_question_absent:
  assumes "CHR ''?'' \<notin> set p"
  shows "after_question p = Inr (Some p)"
proof -
  have "find_str ''?'' p = None" using assms by (simp add: find_str_char)
  then show ?thesis by (simp add: after_question_eq str_find_def)
qed

lemma decode_after:
  assumes "qi_engine run" and "set l \<subseteq> set ref_alphabet"
  shows "decode_query_string_after run (build_enumeration_url [] l) = Inr (if l = [] then None else Some l)"
proof (cases "l = []")
  case True
  have "\<not> fst (run keys_and_values ''/enumerate-blobs'')"
    by (simp add: keys_and_values_def kv_pair_def kv_key_def qi_engineD [OF assms(1)] q_seq_fst)
  then have "query_map run ''/enumerate-blobs'' = None"
    by (auto simp: query_map_def split: prod.split bool.split)
  moreover have "after_question ''/enumerate-blobs'' = Inr (Some ''/enumerate-blobs'')"
    by (rule after_question_absent) simp
  ultimately show ?thesis using True by (simp add: decode_query_string_after_def build_enumeration_url_def)
next
  case False
  have "query_pair (''after'', l)" by (rule query_pairI [OF _ _ _ False assms(2)]) simp_all
  from query_map_pairs [OF assms(1) this, of "[]"]
  have "query_map run (''after='' @ l) = Some [(''after'', l)]" by (simp add: pair_text_def)
  moreover have "after_question (''/enumerate-blobs'' @ CHR ''?'' # ''after='' @ l) = Inr (Some (''after='' @ l))"
    by (rule after_question_split) simp_all
  ultimately show ?thesis using False
    by (simp add: decode_query_string_after_def build_enumeration_url_def)
qed

lemma handle_request_enumerate:
  assumes "qi_engine (engine env)" and "set l \<subseteq> set ref_alphabet"
    and "req_method req = ''GET''" and "req_uri req = build_enumeration_url [] l"
  shows "handle_request env req rep st =
    (Inr (json_reply (enumerate_result st (if l = [] then None else Some l)) rep), st)"
proof -
  let ?p = "build_enumeration_url [] l"
  have plain: "CHR ''%'' \<notin> set ?p" "CHR ''+'' \<notin> set ?p" "CHR ''.'' \<notin> set ?p"
    using assms(2) ref_alphabet_facts(2-4) by (auto simp: build_enumeration_url_def)
  then have "url_decode ?p = Some ?p" "str_find ?p ''..'' = npos"
    by (simp_all only: url_decode_plain str_find_absent find_str_missing_char not_False_eq_True)
  moreover have "\<not> starts_with ?p ''/static/''" "\<not> starts_with ?p ''/stat''"
      "starts_with ?p ''/enumerate-blobs''" "?p \<noteq> []" "hd ?p = CHR ''/''"
    by (simp_all add: build_enumeration_url_def)
  ultimately show ?thesis
    using assms(3,4) decode_after [OF assms(1,2)]
    by (simp add: handle_request_def handle_enumerate_def del: starts_with_Cons)
qed

text \<open>The parameters of a stat request, and how the peer reads them back.\<close>

fun stat_pairs :: "nat \<Rightarrow> (blob_key \<times> nat) list \<Rightarrow> (string \<times> string) list" where
  "stat_pairs n [] = []"
| "stat_pairs n (p # ps) = (''blob'' @ show_nat n, blobref (fst p)) # stat_pairs (n + 1) ps"

lemma stat_request_pairs:
  "stat_request page =
     pair_text (''camliversion'', ''1'') @ concat (map (\<lambda>q. CHR ''&'' # pair_text q) (stat_pairs 1 page))"
proof -
  have "stat_request_loop page n ss = ss @ concat (map (\<lambda>q. CHR ''&'' # pair_text q) (stat_pairs n page))" for n ss
    by (induction page n ss rule: stat_request_loop.induct) (simp_all add: pair_text_def)
  then show ?thesis by (simp add: stat_request_def pair_text_def)
qed

lemma stat_pairs_keys: "fst ` set (stat_pairs n ps) = (\<lambda>i. ''blob'' @ show_nat i) ` {n..<n + length ps}"
proof (induction ps arbitrary: n)
  case (Cons p ps)
  have "{n..<n + length (p # ps)} = insert n {n + 1..<n + 1 + length ps}" by auto
  with Cons show ?case by simp
qed simp

lemma stat_pairs_values: "map snd (stat_pairs n ps) = map (\<lambda>p. blobref (fst p)) ps"
  by (induction ps arbitrary: n) simp_all

lemma show_nat_inject [simp]: "show_nat m = show_nat n \<longleftrightarrow> m = n"
  by (metis dec_val_show_nat)

lemma stat_pairs_distinct: "distinct (map fst (stat_pairs n ps))"
proof (induction ps arbitrary: n)
  case (Cons p ps)
  have "''blob'' @ show_nat n \<notin> fst ` set (stat_pairs (n + 1) ps)"
    unfolding stat_pairs_keys by auto
  with Cons show ?case by simp
qed simp

lemma as_map_pairs:
  assumes "map_ok m" and "distinct (map fst ps)" and "fst ` set ps \<inter> fst ` set m = {}"
  shows "map_ok (as_map (map (\<lambda>q. Pr (fst q) (snd q)) ps) m) \<and>
    set (as_map (map (\<lambda>q. Pr (fst q) (snd q)) ps) m) = set ps \<union> set m"
  using assms
proof (induction ps arbitrary: m)
  case (Cons p ps)
  have "fst p \<notin> fst ` set m" using Cons.prems(3) by simp
  then have "map_find m (fst p) \<noteq> Some v" for v
    using map_find_iff [OF Cons.prems(1), of "fst p" v] by (metis fst_conv image_eqI)
  then have fresh: "map_find m (fst p) = None" by (meson not_None_eq)
  have "set (map_insert (fst p) (snd p) m) = insert p (set m)"
  proof (rule set_eqI)
    fix e
    have "e \<in> set (map_insert (fst p) (snd p) m) \<longleftrightarrow>
        map_find (map_insert (fst p) (snd p) m) (fst e) = Some (snd e)"
      using map_find_iff [OF map_insert_ok [OF Cons.prems(1)]] by simp
    also have "\<dots> \<longleftrightarrow> e = p \<or> map_find m (fst e) = Some (snd e)"
      using fresh by (auto simp: map_find_insert prod_eq_iff)
    also have "\<dots> \<longleftrightarrow> e \<in> insert p (set m)"
      using map_find_iff [OF Cons.prems(1)] by simp
    finally show "e \<in> set (map_insert (fst p) (snd p) m) \<longleftrightarrow> e \<in> insert p (set m)" .
  qed
  moreover have "map_ok (map_insert (fst p) (snd p) m)" using Cons.prems(1) by simp
  ultimately show ?case using Cons.IH [of "map_insert (fst p) (snd p) m"] Cons.prems by auto
qed simp

lemma decode_stat_request:
  assumes "qi_engine run" and "\<forall>p \<in> set page. set (blobref (fst p)) \<subseteq> set ref_alphabet"
  obtains rs where "decode_query_string_blobs run (stat_request page) = Inr rs" and "set rs = (\<lambda>p. blobref (fst p)) ` set page"
proof -
  let ?ps = "stat_pairs 1 page" and ?v = "(''camliversion'', ''1'')"
  have pair: "set (blobref k) \<subseteq> set ref_alphabet \<Longrightarrow> query_pair (''blob'' @ show_nat i, blobref k)" for i k
    by (rule query_pairI) (auto simp: blobref_def dest!: show_nat_digits simp: is_digit_char_def)
  have "\<forall>q \<in> set (stat_pairs n page). query_pair q" for n
    using assms(2) by (induction page arbitrary: n) (simp_all add: pair [simplified])
  moreover have "query_pair ?v" by (rule query_pairI) (simp_all add: ref_alphabet_def)
  ultimately have map: "query_map run (stat_request page) =
      Some (as_map (map (\<lambda>q. Pr (fst q) (snd q)) (?v # ?ps)) [])"
    unfolding stat_request_pairs by (intro query_map_pairs [OF assms(1)]) auto
  have "CHR ''?'' \<notin> set (pair_text q)" if "q \<in> set (stat_pairs n page)" for q n
    using that assms(2)
  proof (induction page arbitrary: n)
    case (Cons p ps)
    then show ?case
      using ref_alphabet_facts(5) by (auto simp: pair_text_def dest!: show_nat_digits simp: is_digit_char_def)
  qed simp
  then have "CHR ''?'' \<notin> set (stat_request page)"
    unfolding stat_request_pairs by (auto simp: pair_text_def)
  note whole = after_question_absent [OF this]
  have "fst ?v \<notin> fst ` set ?ps" unfolding stat_pairs_keys by auto
  then have "distinct (map fst (?v # ?ps))" using stat_pairs_distinct by simp
  from as_map_pairs [OF map_ok_Nil this] have
    "set (as_map (map (\<lambda>q. Pr (fst q) (snd q)) (?v # ?ps)) []) = set (?v # ?ps)" by simp
  moreover define rs where
    "rs = map snd (filter (\<lambda>(k, v). starts_with k ''blob'') (as_map (map (\<lambda>q. Pr (fst q) (snd q)) (?v # ?ps)) []))"
  ultimately have "set rs = snd ` {q \<in> set (?v # ?ps). starts_with (fst q) ''blob''}"
    by (simp only: set_map set_filter case_prod_beta)
  also have "{q \<in> set (?v # ?ps). starts_with (fst q) ''blob''} = set ?ps"
  proof -
    have "starts_with (fst q) ''blob''" if "q \<in> set ?ps" for q
    proof -
      have "fst q \<in> fst ` set ?ps" using that by simp
      then show ?thesis unfolding stat_pairs_keys by auto
    qed
    moreover have "\<not> starts_with (fst ?v) ''blob''" by simp
    ultimately show ?thesis by auto
  qed
  also have "snd ` set ?ps = (\<lambda>p. blobref (fst p)) ` set page"
    using stat_pairs_values [of 1 page] by (metis list.set_map)
  finally have "set rs = (\<lambda>p. blobref (fst p)) ` set page" .
  moreover have "decode_query_string_blobs run (stat_request page) = Inr rs"
    by (simp only: decode_query_string_blobs_def whole and_then.simps Let_def map option.case rs_def)
  ultimately show thesis by (intro that)
qed

section \<open>The index under synchronisation\<close>

lemma run_transfer_bi [simp]: "bi (snd (run_transfer S c w)) = bi w"
  by (simp add: run_transfer_def split: prod.splits)

lemma fetch_bi:
  "fetch_url S u w = (r, w') \<Longrightarrow> bi w' = bi w"
  "fetch_url_post S u b w = (r, w') \<Longrightarrow> bi w' = bi w"
  by (metis fetch_url_def fetch_url_post_def run_transfer_bi snd_conv)+

lemma send_blob_bi [simp]: "bi (snd (send_blob S p r w)) = bi w"
  by (simp add: send_blob_def split: option.splits)

lemma push_loop_bi [simp]: "bi (push_loop S p rs w) = bi w"
  by (induction rs arbitrary: w) simp_all

abbreviation index_steps :: "'n Sync \<Rightarrow> store \<Rightarrow> store \<Rightarrow> bool" where
  "index_steps S \<equiv> (index_step (bi_host S) (ci S))\<^sup>*\<^sup>*"

lemma fetch_blob_steps:
  assumes "fetch_blob S p r w = (f, w')"
  shows "index_steps S (bi w) (bi w')"
proof (cases "fetch_url S (build_blob_url p r) w")
  case (Pair content w1)
  note bi = fetch_bi(1) [OF this]
  show ?thesis
  proof (cases content)
    case None
    with Pair assms bi show ?thesis by (simp add: fetch_blob_def)
  next
    case (Some c)
    obtain res st where add: "add_blob (bi_host S) (ci S) (Some r) c (bi w1) = (res, st)" by fastforce
    with Pair Some assms have "bi w' = st" by (auto simp: fetch_blob_def split: sum.splits)
    with add bi index_step.add [OF add] show ?thesis by simp
  qed
qed

lemma fetch_loop_steps:
  "fetch_loop S p rs w = (f, w') \<Longrightarrow> index_steps S (bi w) (bi w')"
proof (induction rs arbitrary: w)
  case (Cons r rs)
  show ?case
  proof (cases "get_blob (bi w) r = None")
    case True
    obtain g w1 where one: "fetch_blob S p r w = (g, w1)" by fastforce
    with True Cons.prems have "g = f \<and> w1 = w' \<or> fetch_loop S p rs w1 = (f, w')"
      by (auto split: option.splits)
    with fetch_blob_steps [OF one] Cons.IH [of w1] show ?thesis by (auto intro: rtranclp_trans)
  next
    case False
    with Cons show ?thesis by simp
  qed
qed simp

lemma get_loop_steps:
  assumes "get_loop S p l w = Some y"
  shows "index_steps S (bi w) (bi (snd y))"
proof (rule get_loop.raw_induct [where P = "\<lambda>S p l w y. index_steps S (bi w) (bi (snd y))", OF _ assms], goal_cases)
  case (1 rec S p l w y)
  note IH = 1(1)
  obtain c w1 where fetch: "fetch_url S (build_enumeration_url p l) w = (c, w1)" by fastforce
  note bi = fetch_bi(1) [OF fetch]
  consider "snd y = w1" | rs where "fetch_loop S p rs w1 = y"
    | rs w2 l' where "fetch_loop S p rs w1 = (None, w2)" "rec S p l' w2 = Some y"
    using 1(2) fetch by (auto split: option.splits sum.splits prod.splits)
  then show ?case
  proof cases
    case 1
    with bi show ?thesis by simp
  next
    case (2 rs)
    with fetch_loop_steps [of S p rs w1 "fst y" "snd y"] bi show ?thesis by simp
  next
    case (3 rs w2 l')
    with fetch_loop_steps [OF 3(1)] IH [OF 3(2)] bi show ?thesis by simp
  qed
qed

lemma send_loop_bi:
  assumes "send_loop S p after w = Some y"
  shows "bi (snd y) = bi w"
proof (rule send_loop.raw_induct [where P = "\<lambda>S p after w y. bi (snd y) = bi w", OF _ assms], goal_cases)
  case (1 rec S p after w y)
  note IH = 1(1)
  let ?page = "paginate (bi w) after 501 []"
  obtain c w1 where fetch: "fetch_url_post S (build_stat_url p) (stat_request ?page) w = (c, w1)" by fastforce
  consider "snd y = w1" | "snd y = w" | after' where "rec S p after' w = Some y"
    | rs where "snd y = push_loop S p rs w1" | rs after' where "rec S p after' (push_loop S p rs w1) = Some y"
    using 1(2) fetch by (auto simp: Let_def split: option.splits sum.splits prod.splits if_splits)
  then show ?case using fetch_bi(2) [OF fetch] 
  proof cases
    case (3 after')
    then show ?thesis by (rule IH)
  next
    case (5 rs after')
    with IH [OF 5] fetch_bi(2) [OF fetch] show ?thesis by simp
  qed simp_all
qed

lemma sync_host_steps:
  assumes "sync_host S sc w = Some (f, w')"
  shows "index_steps S (bi w) (bi w')"
proof -
  let ?p = "sync_host_name sc" and ?w = "w\<lparr>handle := sync_handle\<rparr>"
  obtain g w1 where get: "(if SyncConfig_get sc then get_loop S ?p [] ?w else Some (None, ?w)) = Some (g, w1)"
    using assms by (auto simp: sync_host_def Let_def split: option.splits)
  then have "index_steps S (bi w) (bi w1)"
    by (auto split: if_splits dest!: get_loop_steps)
  moreover have "bi w' = bi w1"
    using assms get by (auto simp: sync_host_def Let_def split: option.splits if_splits dest!: send_loop_bi)
  ultimately show ?thesis by simp
qed

lemma sync_hosts_steps: "sync_hosts S cs w = Some (f, w') \<Longrightarrow> index_steps S (bi w) (bi w')"
proof (induction cs arbitrary: w)
  case (Cons c cs)
  then obtain g w1 where one: "sync_host S c w = Some (g, w1)" by (auto split: option.splits)
  with Cons.prems have "g = f \<and> w1 = w' \<or> sync_hosts S cs w1 = Some (f, w')"
    by (auto split: option.splits)
  with sync_host_steps [OF one] Cons.IH [of w1] show ?case by (auto intro: rtranclp_trans)
qed simp

lemma sync_run_steps: "sync_run S reads t w = Some (f, t', w') \<Longrightarrow> index_steps S (bi w) (bi w')"
proof (induction reads arbitrary: t w)
  case (Cons stop reads)
  consider "w' = w" | "sync_hosts S (sync_servers (ci S)) w = Some (f, w')"
    | w1 where "sync_hosts S (sync_servers (ci S)) w = Some (None, w1)" "sync_run S reads 0 w1 = Some (f, t', w')"
    | "sync_run S reads (t + 1) w = Some (f, t', w')"
    using Cons.prems by (auto split: if_splits option.splits)
  then show ?case
  proof cases
    case (3 w1)
    with sync_hosts_steps [OF 3(1)] Cons.IH [OF 3(2)] show ?thesis by simp
  qed (auto dest: sync_hosts_steps Cons.IH)
qed simp

lemma reachable_steps: "(index_step h cfg)\<^sup>*\<^sup>* st st' \<Longrightarrow> reachable h cfg st \<Longrightarrow> reachable h cfg st'"
  by (induction rule: rtranclp_induct) (auto intro: reachable.step)

section \<open>Pulling from a peer\<close>

text \<open>
  A peer that runs this server: a transfer without a post body delivers, in some pieces, the content of
  the reply its handler gives to a GET of the path, sent without an \<^verbatim>\<open>Accept-Encoding\<close> header.
\<close>

definition peer_serves :: "'n Sync \<Rightarrow> string \<Rightarrow> env \<Rightarrow> store \<Rightarrow> bool" where
  "peer_serves S peer env st \<longleftrightarrow>
     (\<forall>c fs n p. opt_url c = peer @ ''/'' @ p \<and> opt_post c = No_post \<longrightarrow>
        (\<exists>req s rep pieces n'. req_method req = ''GET'' \<and> req_uri req = ''/'' @ p \<and>
           handler_get_header (req_headers req) ''Accept-Encoding'' = [] \<and>
           fst (handle_request env req (fresh_reply s) st) = Inr rep \<and>
           transfer S c fs n = (True, pieces, n') \<and> concat pieces = rep_content rep))"

lemma fold_writer: "fold (\<lambda>d b. snd (writer d b)) pieces (Some s) = Some (s @ concat pieces)"
  by (induction pieces arbitrary: s) (simp_all add: writer_def)

lemma fetch_url_peer:
  assumes "peer_serves S peer env st" and "NUL \<notin> set (peer @ ''/'' @ p)" and "opt_post (handle w) = No_post"
  obtains req s rep w' where "req_method req = ''GET''" and "req_uri req = ''/'' @ p"
    and "handler_get_header (req_headers req) ''Accept-Encoding'' = []"
    and "fst (handle_request env req (fresh_reply s) st) = Inr rep"
    and "fetch_url S (peer @ ''/'' @ p) w = (Some (rep_content rep), w')"
    and "bi w' = bi w" and "opt_post (handle w') = No_post"
proof -
  let ?c = "(handle w)\<lparr>opt_url := peer @ ''/'' @ p\<rparr>"
  have "opt_url ?c = peer @ ''/'' @ p" "opt_post ?c = No_post" using assms(3) by simp_all
  then obtain req s rep pieces n' where r: "req_method req = ''GET''" "req_uri req = ''/'' @ p"
      "handler_get_header (req_headers req) ''Accept-Encoding'' = []"
      "fst (handle_request env req (fresh_reply s) st) = Inr rep"
      "transfer S ?c (files (bi w)) (net w) = (True, pieces, n')" "concat pieces = rep_content rep"
    using assms(1) unfolding peer_serves_def by blast
  have "c_str (peer @ ''/'' @ p) = peer @ ''/'' @ p" by (rule c_str_plain [OF assms(2)])
  then have "fetch_url S (peer @ ''/'' @ p) w =
      (Some (rep_content rep), w\<lparr>net := n', handle := curl_easy_init\<rparr>)"
    using r(5,6) by (simp only: fetch_url_def run_transfer_def prod.case fold_writer append_Nil if_True)
  with r(1-4) show ?thesis by (rule that) (simp_all add: curl_easy_init_def)
qed

text \<open>
  Byte strings without digest collisions, and stores whose files and contents are among them, each
  under a reference of its own.
\<close>

definition collision_free :: "host \<Rightarrow> string set \<Rightarrow> bool" where
  "collision_free h U \<longleftrightarrow> (\<forall>x \<in> U. \<forall>y \<in> U. \<forall>t. key_for h x t = key_for h y t \<longrightarrow> x = y)"

definition sound_store :: "host \<Rightarrow> Config \<Rightarrow> string set \<Rightarrow> store \<Rightarrow> bool" where
  "sound_store h cfg U st \<longleftrightarrow>
     index_ok h cfg st \<and> files_ok h cfg st \<and> backed st \<and>
     (\<forall>d c. files st (blob_path cfg d) = Some c \<longrightarrow> c \<in> U) \<and>
     (\<forall>k c. contents st k = Some c \<longrightarrow> c \<in> U \<and> c \<noteq> [] \<and> k \<in> keys_of h c)"

lemma collision_freeD:
  assumes "collision_free h U" and "x \<in> U" and "y \<in> U" and "k \<in> keys_of h x" and "k \<in> keys_of h y"
  shows "x = y"
proof -
  have "\<exists>t. key_for h x t = key_for h y t" using assms(4,5) unfolding keys_of_def by (auto simp del: key_for.simps) (auto intro: exI [of _ sha1] exI [of _ sha256])
  then show ?thesis using assms(1-3) unfolding collision_free_def by blast
qed

lemma sound_store_contents:
  "sound_store h cfg U st \<Longrightarrow> contents st k = Some c \<Longrightarrow> c \<in> U \<and> c \<noteq> [] \<and> k \<in> keys_of h c"
  unfolding sound_store_def by blast

lemma sound_add_blob:
  assumes st: "sound_store h cfg U st" and free: "collision_free h U"
    and c: "c \<in> U" "c \<noteq> []" "k \<in> keys_of h c" and host: "\<And>d. mkdir_ok h d" "\<And>q. open_ok h q"
  shows "\<exists>b st'. add_blob h cfg (Some (blobref k)) c st = (Inr (Some b), st') \<and> sound_store h cfg U st' \<and>
    contents st' = abs_store h c (contents st)"
proof -
  have ok: "index_ok h cfg st" "backed st" "files_ok h cfg st" using st by (simp_all add: sound_store_def)
  have "files st (blob_path cfg (Sha256 h c)) \<in> {None, Some c}"
  proof (cases "files st (blob_path cfg (Sha256 h c))")
    case (Some d)
    then have "d \<in> U" "key_for h d sha256 = key_for h c sha256"
      using st by (auto simp: sound_store_def files_ok_def)
    then have "d = c" using free c(1) unfolding collision_free_def by blast
    with Some show ?thesis by simp
  qed simp
  moreover have "accepts (Some (blobref k)) (map (key_for h c) [sha1, sha256])"
    using c(3) unfolding accepts_iff keys_of_def by (auto simp del: key_for.simps)
  ultimately obtain b st' where add: "add_blob h cfg (Some (blobref k)) c st = (Inr (Some b), st')"
      "index_ok h cfg st'" "backed st'" "contents st' = abs_store h c (contents st)"
      "files st' = (files st)(blob_path cfg (Sha256 h c) := Some c)"
    using add_blob_stores_accepted [OF ok(1,2) c(2) host] by blast
  have "sound_store h cfg U st'"
    unfolding sound_store_def
  proof (intro conjI allI impI)
    show "files_ok h cfg st'" using ok(3) add(5) by (auto simp: files_ok_def)
    show "x \<in> U" if "files st' (blob_path cfg d) = Some x" for d x
      using that add(5) c(1) st by (auto simp: sound_store_def split: if_splits)
    show "x \<in> U" "x \<noteq> []" "k' \<in> keys_of h x" if "contents st' k' = Some x" for k' x
      using that add(4) c sound_store_contents [OF st, of k' x] by (auto simp: abs_store_def split: if_splits)
  qed (rule add)+
  with add(1,4) show ?thesis by blast
qed

text \<open>
  The peer and the local side of a pull: both use the same digests, and what the two stores hold is
  free of collisions. The peer's address carries no trailing slash.
\<close>

definition pull_setup :: "'n Sync \<Rightarrow> string \<Rightarrow> env \<Rightarrow> string set \<Rightarrow> store \<Rightarrow> bool" where
  "pull_setup S peer env U pst \<longleftrightarrow>
     peer_serves S peer env pst \<and> NUL \<notin> set peer \<and> \<not> ends_with peer ''/'' \<and>
     qi_engine (engine env) \<and> plain_paths env \<and> classic_engine (json_engine S) \<and>
     key_for (host env) = key_for (bi_host S) \<and> sound_store (host env) (config env) U pst \<and>
     collision_free (bi_host S) U \<and> (\<forall>d. mkdir_ok (bi_host S) d) \<and> (\<forall>q. open_ok (bi_host S) q)"

lemma pull_setup_keys:
  assumes "pull_setup S peer env U pst"
  shows "keys_of (host env) = keys_of (bi_host S)" "hex_digests (host env)"
  using assms by (simp_all add: pull_setup_def plain_paths_def fun_eq_iff keys_of_def del: key_for.simps)

lemma keys_of_key_for:
  assumes "k \<in> keys_of h c"
  obtains t where "k = key_for h c t"
  using assms unfolding keys_of_def by (auto simp del: key_for.simps)

lemma blobref_plain:
  assumes "hex_digests h" and "k \<in> keys_of h c"
  shows "set (blobref k) \<subseteq> set ref_alphabet"
  using assms(2) by (rule keys_of_key_for) (use blobref_chars [OF assms(1)] in blast)

lemma fetch_blob_peer:
  assumes pull: "pull_setup S peer env U pst" and "contents pst k = Some c"
    and "sound_store (bi_host S) (ci S) U (bi w)" and "opt_post (handle w) = No_post"
  shows "\<exists>w'. fetch_blob S peer (blobref k) w = (None, w') \<and> sound_store (bi_host S) (ci S) U (bi w') \<and>
    opt_post (handle w') = No_post \<and> contents (bi w') = abs_store (bi_host S) c (contents (bi w))"
proof -
  note keys = pull_setup_keys [OF pull]
  have pst: "sound_store (host env) (config env) U pst" and paths: "plain_paths env"
    using pull by (simp_all add: pull_setup_def)
  have c: "c \<in> U" "c \<noteq> []" "k \<in> keys_of (host env) c"
    using sound_store_contents [OF pst assms(2)] by simp_all
  obtain t where k: "k = key_for (host env) c t" using c(3) by (rule keys_of_key_for)
  have plain: "NUL \<notin> set (peer @ ''/'' @ blobref k)"
    using pull blobref_plain [OF keys(2) c(3)] ref_alphabet_facts(6) by (auto simp: pull_setup_def)
  have "peer_serves S peer env pst" using pull by (simp add: pull_setup_def)
  then obtain req s rep w1 where get: "req_method req = ''GET''" "req_uri req = ''/'' @ blobref k"
      "handler_get_header (req_headers req) ''Accept-Encoding'' = []"
      "fst (handle_request env req (fresh_reply s) pst) = Inr rep"
      "fetch_url S (peer @ ''/'' @ blobref k) w = (Some (rep_content rep), w1)"
      "bi w1 = bi w" "opt_post (handle w1) = No_post"
    by (rule fetch_url_peer [OF _ plain assms(4)])
  have "handle_get env (''/'' @ blobref k) req (fresh_reply s) pst = Inr (octet_reply c)"
    using handle_get_contents [OF paths, of pst "blobref k" k req s] pst assms(2) get(3) c(3)
    by (simp add: sound_store_def output_type_for_def)
  then have "rep = octet_reply c"
    using get(1,2,4) handle_request_blob [OF keys(2), of req c t] k
    by (simp del: key_for.simps append.simps)
  then have rep: "rep_content rep = c" by (simp add: octet_reply_def)
  have "build_blob_url peer (blobref k) = peer @ ''/'' @ blobref k"
    using pull by (simp add: build_blob_url_def pull_setup_def)
  moreover have "collision_free (bi_host S) U" "\<And>d. mkdir_ok (bi_host S) d" "\<And>q. open_ok (bi_host S) q"
    using pull by (simp_all add: pull_setup_def)
  then obtain b st' where "add_blob (bi_host S) (ci S) (Some (blobref k)) c (bi w) = (Inr (Some b), st')"
      "sound_store (bi_host S) (ci S) U st'" "contents st' = abs_store (bi_host S) c (contents (bi w))"
    using sound_add_blob [OF assms(3) _ c(1,2), of k] c(3) keys(1) by auto
  ultimately show ?thesis using get(5-7) rep by (auto simp: fetch_blob_def)
qed

text \<open>What a pull has to reach: every blob of the peer is there, and what was there stays.\<close>

definition pulled :: "store \<Rightarrow> blob_key set \<Rightarrow> store \<Rightarrow> store \<Rightarrow> bool" where
  "pulled pst K st st' \<longleftrightarrow>
     (\<forall>k \<in> K. contents st' k = contents pst k) \<and>
     (\<forall>k c. contents st k = Some c \<longrightarrow> contents st' k = Some c)"

lemma pulled_trans:
  assumes "pulled pst K st st1" and "pulled pst L st1 st2"
    and "\<forall>k \<in> K. contents pst k \<noteq> None"
  shows "pulled pst (K \<union> L) st st2"
  using assms unfolding pulled_def by (metis Un_iff not_None_eq)

lemma sound_contents_unique:
  assumes "sound_store h cfg U st" and "collision_free h U" and "contents st k = Some d"
    and "c \<in> U" and "k \<in> keys_of h c"
  shows "d = c"
  using collision_freeD [OF assms(2) _ assms(4) _ assms(5)] sound_store_contents [OF assms(1,3)] by blast

lemma sound_get_blob:
  assumes "sound_store h cfg U st" and "k \<in> keys_of h c"
  shows "get_blob st (blobref k) = None \<longleftrightarrow> contents st k = None"
proof -
  have "get_blob st (blobref k) = map_find (blobs st) k"
    using create_blob_key_keys_of [OF assms(2)] by (simp add: get_blob_def)
  then show ?thesis using assms(1) by (auto simp: sound_store_def backed_def contents_def split: option.splits)
qed

lemma fetch_loop_peer:
  assumes pull: "pull_setup S peer env U pst" and "\<forall>k \<in> set ks. contents pst k \<noteq> None"
    and "sound_store (bi_host S) (ci S) U (bi w)" and "opt_post (handle w) = No_post"
  shows "\<exists>w'. fetch_loop S peer (map blobref ks) w = (None, w') \<and> sound_store (bi_host S) (ci S) U (bi w') \<and>
    opt_post (handle w') = No_post \<and> pulled pst (set ks) (bi w) (bi w')"
  using assms(2-)
proof (induction ks arbitrary: w)
  case Nil
  then show ?case by (simp add: pulled_def)
next
  case (Cons k ks)
  have free: "collision_free (bi_host S) U" using pull by (simp add: pull_setup_def)
  obtain c where c: "contents pst k = Some c" using Cons.prems(1) by auto
  have kc: "c \<in> U" "k \<in> keys_of (bi_host S) c"
    using pull c sound_store_contents [of "host env" "config env" U pst k c] pull_setup_keys(1) [OF pull]
    by (auto simp: pull_setup_def)
  note unique = sound_contents_unique [OF Cons.prems(2) free _ kc(1)]
  show ?case
  proof (cases "contents (bi w) k")
    case None
    obtain w1 where w1: "fetch_blob S peer (blobref k) w = (None, w1)" "sound_store (bi_host S) (ci S) U (bi w1)"
        "opt_post (handle w1) = No_post" "contents (bi w1) = abs_store (bi_host S) c (contents (bi w))"
      using fetch_blob_peer [OF pull c Cons.prems(2,3)] by blast
    have "pulled pst {k} (bi w) (bi w1)"
      using c kc(2) w1(4) unique by (auto simp: pulled_def abs_store_def)
    moreover obtain w2 where w2: "fetch_loop S peer (map blobref ks) w1 = (None, w2)"
        "sound_store (bi_host S) (ci S) U (bi w2)" "opt_post (handle w2) = No_post" "pulled pst (set ks) (bi w1) (bi w2)"
      using Cons.IH [OF _ w1(2,3)] Cons.prems(1) by auto
    ultimately have "pulled pst ({k} \<union> set ks) (bi w) (bi w2)"
      using c by (intro pulled_trans) auto
    moreover have "get_blob (bi w) (blobref k) = None"
      using None sound_get_blob [OF Cons.prems(2) kc(2)] by simp
    ultimately show ?thesis using w1(1) w2 by simp
  next
    case (Some d)
    then have d: "d = c" using unique kc(2) by blast
    obtain w2 where w2: "fetch_loop S peer (map blobref ks) w = (None, w2)"
        "sound_store (bi_host S) (ci S) U (bi w2)" "opt_post (handle w2) = No_post" "pulled pst (set ks) (bi w) (bi w2)"
      using Cons.IH [OF _ Cons.prems(2,3)] Cons.prems(1) by auto
    then have "pulled pst (set (k # ks)) (bi w) (bi w2)"
      using c Some d by (auto simp: pulled_def)
    moreover have "get_blob (bi w) (blobref k) \<noteq> None"
      using Some sound_get_blob [OF Cons.prems(2) kc(2)] by simp
    ultimately show ?thesis using w2 by auto
  qed
qed

text \<open>The reference a peer's listing continues from when it has given the first \<open>i\<close> entries.\<close>

definition continue_at :: "(blob_key \<times> nat) list \<Rightarrow> nat \<Rightarrow> string" where
  "continue_at es i = (if i = 0 then [] else blobref (fst (es ! i)))"

lemma sound_entry_key:
  assumes "sound_store h cfg U st" and "e \<in> set (blobs st)"
  shows "contents st (fst e) \<noteq> None" "\<exists>c. fst e \<in> keys_of h c"
proof -
  have "map_find (blobs st) (fst e) = Some (snd e)"
    using assms by (auto simp: sound_store_def index_ok_def map_find_iff)
  with assms(1) show "contents st (fst e) \<noteq> None"
    by (auto simp: sound_store_def backed_def contents_def)
  then show "\<exists>c. fst e \<in> keys_of h c" using sound_store_contents [OF assms(1)] by blast
qed

definition start_at :: "(blob_key \<times> nat) list \<Rightarrow> nat \<Rightarrow> string option" where
  "start_at es i = (if i = 0 then None else Some (blobref (fst (es ! i))))"

lemma continue_at_start [simp]: "(if continue_at es i = [] then None else Some (continue_at es i)) = start_at es i"
  by (simp add: continue_at_def start_at_def blobref_def)

lemma paginate_start:
  assumes ok: "index_ok h cfg st" and "i < length (blobs st) \<or> i = 0" and "0 < sint n"
  shows "paginate st (start_at (blobs st) i) n [] = take (unat n) (drop i (blobs st))"
proof (cases "i = 0")
  case True
  have "map_ok (blobs st)" using ok by (simp add: index_ok_def)
  from paginate_take(1) [OF this assms(3) create_blob_key_keys_of [OF key_for_in_keys_of]]
  show ?thesis unfolding start_at_def if_P [OF True] using True by simp
next
  case False
  with assms(2) have i: "i < length (blobs st)" by simp
  have m: "map_ok (blobs st)" using ok by (simp add: index_ok_def)
  have "map_find (blobs st) (fst (blobs st ! i)) = Some (snd (blobs st ! i))"
    using i by (simp add: map_find_iff [OF m])
  from index_ok_entry [OF ok this] obtain c where c: "fst (blobs st ! i) \<in> keys_of h c"
    by (auto simp: entry_ok_def)
  from paginate_take(2) [OF m assms(3) create_blob_key_keys_of [OF c]] amap.lower_bound_nth [OF m i] False
  show ?thesis by (simp add: start_at_def)
qed

text \<open>One turn of the loop against a peer: the page from the \<open>i\<close>-th entry on is pulled.\<close>

lemma enumerate_peer:
  assumes pull: "pull_setup S peer env U pst" and i: "i < length (blobs pst) \<or> i = 0"
    and "opt_post (handle w) = No_post"
  shows "\<exists>content w'. fetch_url S (build_enumeration_url peer (continue_at (blobs pst) i)) w = (Some content, w') \<and>
    parse_sync_enumeration (json_engine S) content = Inr (Some (page_enumeration (take 26 (drop i (blobs pst))))) \<and>
    bi w' = bi w \<and> opt_post (handle w') = No_post"
proof -
  let ?l = "continue_at (blobs pst) i"
  let ?p = "tl (build_enumeration_url [] ?l)"
  have url: "build_enumeration_url peer ?l = peer @ ''/'' @ ?p" "build_enumeration_url [] ?l = ''/'' @ ?p"
    by (simp_all add: build_enumeration_url_def)
  have pst: "sound_store (host env) (config env) U pst" using pull by (simp add: pull_setup_def)
  have l: "set ?l \<subseteq> set ref_alphabet"
  proof (cases "i = 0")
    case False
    with i obtain c where "fst (blobs pst ! i) \<in> keys_of (host env) c"
      using sound_entry_key(2) [OF pst, of "blobs pst ! i"] by auto
    with False blobref_plain [OF pull_setup_keys(2) [OF pull] this] show ?thesis by (simp add: continue_at_def)
  qed (simp add: continue_at_def)
  have "NUL \<notin> set (build_enumeration_url peer ?l)"
    using pull l ref_alphabet_facts(6) by (auto simp: build_enumeration_url_def pull_setup_def)
  then have plain: "NUL \<notin> set (peer @ ''/'' @ ?p)" by (simp only: url(1) not_False_eq_True)
  have "peer_serves S peer env pst" using pull by (simp add: pull_setup_def)
  then obtain req s rep w1 where get: "req_method req = ''GET''" "req_uri req = ''/'' @ ?p"
      "fst (handle_request env req (fresh_reply s) pst) = Inr rep"
      "fetch_url S (peer @ ''/'' @ ?p) w = (Some (rep_content rep), w1)"
      "bi w1 = bi w" "opt_post (handle w1) = No_post"
    by (rule fetch_url_peer [OF _ plain assms(3)])
  have "rep = json_reply (enumerate_result pst (if ?l = [] then None else Some ?l)) (fresh_reply s)"
    using get(3) handle_request_enumerate [OF _ l get(1) trans [OF get(2) url(2) [symmetric]], of env] pull
    by (simp add: pull_setup_def)
  then have "rep_content rep = json_write (enumerate_result pst (if ?l = [] then None else Some ?l)) @ crlf"
    by (simp add: json_reply_def with_length_def push_header_def)
  moreover have "classic_engine (json_engine S)" using pull by (simp add: pull_setup_def)
  ultimately have "parse_sync_enumeration (json_engine S) (rep_content rep) =
      Inr (Some (page_enumeration (take 26 (drop i (blobs pst)))))"
    using parse_enumerate_result paginate_start [of "host env" "config env" pst i 26] pst i
    by (simp add: sound_store_def)
  with get(4-6) url(1) show ?thesis by auto
qed

lemma get_loop_peer:
  assumes pull: "pull_setup S peer env U pst" and "i < length (blobs pst) \<or> i = 0"
    and "sound_store (bi_host S) (ci S) U (bi w)" and "opt_post (handle w) = No_post"
  shows "\<exists>w'. get_loop S peer (continue_at (blobs pst) i) w = Some (None, w') \<and>
    sound_store (bi_host S) (ci S) U (bi w') \<and> opt_post (handle w') = No_post \<and>
    pulled pst (fst ` set (drop i (blobs pst))) (bi w) (bi w')"
  using assms(2-)
proof (induction "length (blobs pst) - i" arbitrary: i w rule: less_induct)
  case less
  let ?es = "drop i (blobs pst)"
  have pst: "sound_store (host env) (config env) U pst" using pull by (simp add: pull_setup_def)
  obtain content w1 where turn: "fetch_url S (build_enumeration_url peer (continue_at (blobs pst) i)) w = (Some content, w1)"
      "parse_sync_enumeration (json_engine S) content = Inr (Some (page_enumeration (take 26 ?es)))"
      "bi w1 = bi w" "opt_post (handle w1) = No_post"
    using enumerate_peer [OF pull less.prems(1,3)] by blast
  have known: "\<forall>k \<in> fst ` set ?es. contents pst k \<noteq> None"
    using sound_entry_key(1) [OF pst] by (auto dest: in_set_dropD)
  let ?ks = "map fst (take 25 ?es)"
  have refs: "blob_refs (page_enumeration (take 26 ?es)) = map blobref ?ks"
    by (simp add: page_enumeration_def)
  have "\<forall>k \<in> set ?ks. contents pst k \<noteq> None" using known by (auto dest!: in_set_takeD)
  from fetch_loop_peer [OF pull this, of w1] obtain w2 where w2: "fetch_loop S peer (map blobref ?ks) w1 = (None, w2)"
      "sound_store (bi_host S) (ci S) U (bi w2)" "opt_post (handle w2) = No_post" "pulled pst (set ?ks) (bi w) (bi w2)"
    using turn(3,4) less.prems(2) by auto
  show ?case
  proof (cases "25 < length ?es")
    case True
    have last: "last (take 26 ?es) = blobs pst ! (i + 25)"
    proof -
      have "length (take 26 ?es) = 26" using True by simp
      then show ?thesis using True by (subst last_conv_nth) (force, simp)
    qed
    then have "SyncEnumeration_last (page_enumeration (take 26 ?es)) = Some (continue_at (blobs pst) (i + 25))"
      using True by (simp add: page_enumeration_def SyncEnumeration_last_def continue_at_def)
    then have step: "get_loop S peer (continue_at (blobs pst) i) w = get_loop S peer (continue_at (blobs pst) (i + 25)) w2"
      by (subst get_loop.simps) (simp add: turn refs w2(1) del: map_map)
    have "length (blobs pst) - (i + 25) < length (blobs pst) - i" "i + 25 < length (blobs pst) \<or> i + 25 = 0"
      using True by simp_all
    from less.hyps [OF this w2(2,3)] obtain w3 where w3: "get_loop S peer (continue_at (blobs pst) (i + 25)) w2 = Some (None, w3)"
        "sound_store (bi_host S) (ci S) U (bi w3)" "opt_post (handle w3) = No_post"
        "pulled pst (fst ` set (drop (i + 25) (blobs pst))) (bi w2) (bi w3)" by blast
    have "set ?es = set (take 25 ?es) \<union> set (drop (i + 25) (blobs pst))"
      by (metis append_take_drop_id drop_drop add.commute set_append)
    then have "fst ` set ?es = set ?ks \<union> fst ` set (drop (i + 25) (blobs pst))" by auto
    moreover have "pulled pst (set ?ks \<union> fst ` set (drop (i + 25) (blobs pst))) (bi w) (bi w3)"
      using known by (intro pulled_trans [OF w2(4) w3(4)]) (auto dest!: in_set_takeD)
    ultimately show ?thesis using step w3 by auto
  next
    case False
    then have "SyncEnumeration_last (page_enumeration (take 26 ?es)) = None"
      by (simp add: page_enumeration_def SyncEnumeration_last_def)
    then have "get_loop S peer (continue_at (blobs pst) i) w = Some (None, w2)"
      by (subst get_loop.simps) (simp add: turn refs w2(1) del: map_map)
    moreover have "set ?ks = fst ` set ?es" using False by simp
    ultimately show ?thesis using w2 by auto
  qed
qed

section \<open>Pushing to a peer\<close>

lemma send_loop_returns:
  assumes "index_ok h cfg (bi w)" and "i < length (blobs (bi w)) \<or> i = 0"
  shows "\<exists>y. send_loop S peer (start_at (blobs (bi w)) i) w = Some y"
  using assms
proof (induction "length (blobs (bi w)) - i" arbitrary: i w rule: less_induct)
  case less
  let ?es = "blobs (bi w)" and ?after = "start_at (blobs (bi w)) i"
  have page: "paginate (bi w) ?after 501 [] = take 501 (drop i ?es)"
    using paginate_start [OF less.prems, of 501] by simp
  obtain c w1 where fetch: "fetch_url_post S (build_stat_url peer) (stat_request (take 501 (drop i ?es))) w = (c, w1)"
    by fastforce
  note bi = fetch_bi(2) [OF fetch]
  show ?case
  proof (cases "500 < length (drop i ?es)")
    case True
    have len: "length (take 501 (drop i ?es)) = 501" using True by simp
    have "last (take 501 (drop i ?es)) = ?es ! (i + 500)"
      using True len by (subst last_conv_nth) (force, simp)
    then have after': "Some (blobref (fst (last (take 501 (drop i ?es))))) = start_at ?es (i + 500)"
      by (simp add: start_at_def)
    have next_page: "\<exists>y. send_loop S peer (start_at ?es (i + 500)) w2 = Some y" if "bi w2 = bi w" for w2
      using less.hyps [of w2 "i + 500"] less.prems that True by simp
    show ?thesis
      by (subst send_loop.simps)
        (auto simp: Let_def page len fetch after' next_page bi simp del: length_take split_paired_Ex split: option.splits sum.splits)
  next
    case False
    then have len: "length (take 501 (drop i ?es)) \<noteq> 501" by simp
    show ?thesis
      by (subst send_loop.simps)
        (simp add: Let_def page len fetch del: length_take split: option.splits sum.splits)
  qed
qed

text \<open>What a peer may answer: the pieces some transfer delivers.\<close>

definition may_answer :: "'n Sync \<Rightarrow> string \<Rightarrow> bool" where
  "may_answer S content \<longleftrightarrow> (\<exists>c fs n pieces n'. transfer S c fs n = (True, pieces, n') \<and> content = concat pieces)"

lemma run_transfer_answer: "run_transfer S c w = (Some content, w') \<Longrightarrow> may_answer S content"
  using fold_writer [of _ "[]"]
  by (auto simp: run_transfer_def may_answer_def split: prod.splits if_splits) blast

lemma fetch_answer:
  "fetch_url S u w = (Some content, w') \<Longrightarrow> may_answer S content"
  "fetch_url_post S u b w = (Some content, w') \<Longrightarrow> may_answer S content"
  by (auto simp: fetch_url_def fetch_url_post_def run_transfer_answer)

lemma send_loop_throws:
  assumes "send_loop S p after w = Some y"
  shows "\<forall>f. fst y = Some f \<longrightarrow> (\<exists>content. may_answer S content \<and> parse_sync_enumeration (json_engine S) content = Inl f)"
proof (rule send_loop.raw_induct [where P = "\<lambda>S p after w y. \<forall>f. fst y = Some f \<longrightarrow>
    (\<exists>content. may_answer S content \<and> parse_sync_enumeration (json_engine S) content = Inl f)", OF _ assms], goal_cases)
  case (1 rec S p after w y)
  note IH = 1(1)
  let ?page = "paginate (bi w) after 501 []"
  obtain c w1 where fetch: "fetch_url_post S (build_stat_url p) (stat_request ?page) w = (c, w1)" by fastforce
  show ?case
  proof (intro allI impI)
    fix f
    assume f: "fst y = Some f"
    consider content where "c = Some content" "parse_sync_enumeration (json_engine S) content = Inl f"
      | after' w' where "rec S p after' w' = Some y"
      using 1(2) fetch f by (auto simp: Let_def split: option.splits sum.splits prod.splits if_splits)
    then show "\<exists>content. may_answer S content \<and> parse_sync_enumeration (json_engine S) content = Inl f"
    proof cases
      case (1 content)
      then show ?thesis using fetch fetch_answer(2) by blast
    next
      case (2 after' w')
      then show ?thesis using IH f by blast
    qed
  qed
qed

lemma set_refs_to_send: "set (refs_to_send rs known) = set rs - set known"
  unfolding refs_to_send_def by (induction known arbitrary: rs) auto

lemma set_check_blob_refs: "set (check_blob_refs page) = (\<lambda>p. blobref (fst p)) ` set page"
proof -
  have "set (fold insort_insert rs acc) = set rs \<union> set acc" for rs acc :: "string list"
    by (induction rs arbitrary: acc) (auto simp: set_insort_insert)
  then show ?thesis by (simp add: check_blob_refs_def)
qed

lemma handle_request_stat:
  assumes "req_method req = ''POST''" and "req_uri req = ''/stat''"
    and "decode_query_string_blobs (engine env) (req_content req) = Inr rs"
  shows "handle_request env req rep st = (Inr (json_reply (stat_result st rs) rep), st)"
proof -
  have "url_decode ''/stat'' = Some ''/stat''" "str_find ''/stat'' ''..'' = npos" by code_simp+
  moreover have "\<not> starts_with ''/stat'' ''/static/''" "starts_with ''/stat'' ''/stat''" by code_simp+
  ultimately show ?thesis using assms by (simp add: handle_request_def handle_stat_def stat_refs_def)
qed

section \<open>An example\<close>

text \<open>A network of one peer, which serves a store at the address \<^verbatim>\<open>http://p\<close>.\<close>

definition sample_transfer :: "store \<Rightarrow> unit transfer" where
  "sample_transfer pst c fs n =
     (case fst (handle_request sample_env (simple_request ''GET'' (drop 8 (opt_url c)) [] []) (fresh_reply ok) pst) of
        Inr rep \<Rightarrow> (True, [rep_content rep], ())
      | Inl f \<Rightarrow> (False, [], ()))"

definition sample_sync :: "store \<Rightarrow> unit Sync" where
  "sample_sync pst =
     \<lparr>ci = Config_default, bi_host = sample_host, json_engine = spirit_engine, transfer = sample_transfer pst\<rparr>"

definition sample_world :: "unit world" where
  "sample_world = \<lparr>bi = empty_store (\<lambda>_. None), net = (), handle = curl_easy_init\<rparr>"

lemma sample_host_ok: "mkdir_ok sample_host d" "open_ok sample_host q"
  by (simp_all add: sample_host_def)

lemma sound_empty: "sound_store h cfg U (empty_store (\<lambda>_. None))"
  by (simp add: sound_store_def index_ok_def files_ok_def backed_def contents_def empty_store_def)

lemma sample_serves: "peer_serves (sample_sync pst) ''http://p'' sample_env pst"
proof -
  have "\<exists>rep. fst (handle_request sample_env (simple_request ''GET'' u [] []) (fresh_reply ok) pst) = Inr rep" for u
    using handle_request_fails [of sample_env "simple_request ''GET'' u [] []" "fresh_reply ok" pst]
      sample_env_ok(3) by (cases "handle_request sample_env (simple_request ''GET'' u [] []) (fresh_reply ok) pst";
        cases "fst (handle_request sample_env (simple_request ''GET'' u [] []) (fresh_reply ok) pst)")
      (auto simp: writable_def request_fails_def sample_env_def)
  then show ?thesis unfolding peer_serves_def
  proof (intro allI impI)
    fix c :: curl and fs :: "string \<Rightarrow> string option" and n :: unit and p
    assume c: "opt_url c = ''http://p'' @ ''/'' @ p \<and> opt_post c = No_post"
    obtain rep where "fst (handle_request sample_env (simple_request ''GET'' (''/'' @ p) [] []) (fresh_reply ok) pst) = Inr rep"
      using \<open>\<And>u. \<exists>rep. fst (handle_request sample_env (simple_request ''GET'' u [] []) (fresh_reply ok) pst) = Inr rep\<close> by blast
    moreover from this c have "transfer (sample_sync pst) c fs n = (True, [rep_content rep], ())"
      by (simp add: sample_sync_def sample_transfer_def)
    ultimately show "\<exists>req s rep pieces n'. req_method req = ''GET'' \<and> req_uri req = ''/'' @ p \<and>
        handler_get_header (req_headers req) ''Accept-Encoding'' = [] \<and>
        fst (handle_request sample_env req (fresh_reply s) pst) = Inr rep \<and>
        transfer (sample_sync pst) c fs n = (True, pieces, n') \<and> concat pieces = rep_content rep"
      by (intro exI [of _ "simple_request ''GET'' (''/'' @ p) [] []"] exI [of _ ok] exI [of _ rep] exI [of _ "[rep_content rep]"])
        (simp add: simple_request_def handler_get_header_def)
  qed
qed

lemma sample_pull_setup:
  assumes "sound_store sample_host (config sample_env) U pst" and "collision_free sample_host U"
  shows "pull_setup (sample_sync pst) ''http://p'' sample_env U pst"
proof -
  have h: "host sample_env = sample_host" "bi_host (sample_sync pst) = sample_host"
      "json_engine (sample_sync pst) = spirit_engine" by (simp_all add: sample_env_def sample_sync_def)
  have "\<not> ends_with ''http://p'' ''/''" by code_simp
  then show ?thesis unfolding pull_setup_def
    by (simp add: sample_serves sample_env_ok(1,2) h classic_engine_spirit assms del: key_for.simps)
      (simp add: sample_host_def)
qed

lemma sample_peer:
  obtains pst where "sound_store sample_host (config sample_env) {''x''} pst"
    and "contents pst (key_for sample_host ''x'' sha1) = Some ''x''"
proof -
  have "collision_free sample_host {''x''}" by (simp add: collision_free_def)
  from sound_add_blob [OF sound_empty this, of "''x''" "key_for sample_host ''x'' sha1" "config sample_env"]
  obtain pst where "sound_store sample_host (config sample_env) {''x''} pst"
      "contents pst = abs_store sample_host ''x'' (contents (empty_store (\<lambda>_. None)))"
    using sample_host_ok key_for_in_keys_of by (auto simp del: key_for.simps)
  then show ?thesis by (intro that) (auto simp: abs_store_def keys_of_def)
qed

section \<open>Properties\<close>



text \<open>
  C34. Pushing to a peer ends: over a well-formed index \<^verbatim>\<open>sync_host\<close> in send mode comes to its end, since a page of 501 entries
  always moves the start of the next one by 500, or throws because of an answer of the peer that is an object with a
  member of the wrong type (or on which the JSON reader fails an assertion); the index is as it was.
\<close>

theorem sync_push_returns:
  assumes "index_ok h cfg (bi w)" and "sync_mode sc = send_only"
  shows "\<exists>f w'. sync_host S sc w = Some (f, w') \<and> bi w' = bi w \<and>
    (case f of
       None \<Rightarrow> True
     | Some g \<Rightarrow> \<exists>content. may_answer S content \<and> bad_answer (json_engine S) content g)"
proof -
  let ?w = "w\<lparr>handle := sync_handle\<rparr>"
  have "SyncConfig_send sc" "\<not> SyncConfig_get sc"
    using assms(2) by (simp_all add: SyncConfig_get_def SyncConfig_send_def)
  then have eq: "sync_host S sc w = send_loop S (sync_host_name sc) None ?w"
    by (simp add: sync_host_def Let_def)
  have "\<exists>y. send_loop S (sync_host_name sc) (start_at (blobs (bi ?w)) 0) ?w = Some y"
    by (rule send_loop_returns) (use assms(1) in simp_all)
  then obtain f w' where run: "send_loop S (sync_host_name sc) None ?w = Some (f, w')"
    by (auto simp: start_at_def)
  have "case f of None \<Rightarrow> True | Some g \<Rightarrow> \<exists>content. may_answer S content \<and> bad_answer (json_engine S) content g"
    using send_loop_throws [OF run] parse_sync_enumeration_fails by (auto split: option.split) blast
  with send_loop_bi [OF run] run eq show ?thesis by simp
qed

text \<open>A peer that answers a stat request with a number where an array belongs.\<close>

definition rude_sync :: "unit Sync" where
  "rude_sync = (sample_sync (empty_store (\<lambda>_. None)))\<lparr>transfer := (\<lambda>c fs n. (True, [json_write (Obj [(''stat'', value_of_int 1)]) @ crlf], n))\<rparr>"

lemma rude_answer: "\<exists>g. parse_sync_enumeration (json_engine rude_sync) (json_write (Obj [(''stat'', value_of_int 1)]) @ crlf) = Inl g"
proof -
  have "readable (Obj [(''stat'', value_of_int 1)])" by (simp add: value_of_int_def)
  from parse_sync_enumeration_Obj [OF classic_engine_spirit this] show ?thesis
    by (simp add: rude_sync_def sample_sync_def enumeration_member_def value_of_int_def get_array_def checked_def check_type_def)
qed

theorem sync_push_returns_witness:
  "\<exists>g w'. sync_host rude_sync (SyncConfig_host_mode ''http://p'' send_only) (sample_world\<lparr>bi := sample_store\<rparr>) = Some (Some g, w') \<and>
     bi w' = sample_store \<and> (\<exists>content. may_answer rude_sync content \<and> bad_answer (json_engine rude_sync) content g)"
proof -
  let ?w = "sample_world\<lparr>bi := sample_store\<rparr>" and ?sc = "SyncConfig_host_mode ''http://p'' send_only"
  obtain g where g: "parse_sync_enumeration (json_engine rude_sync) (json_write (Obj [(''stat'', value_of_int 1)]) @ crlf) = Inl g"
    using rude_answer by blast
  have "index_ok sample_host Config_default (bi ?w)" using reachable_inv [OF reachable_sample_store] by simp
  moreover have "sync_mode ?sc = send_only" by (simp add: SyncConfig_host_mode_def)
  ultimately obtain f w' where run: "sync_host rude_sync ?sc ?w = Some (f, w')" "bi w' = sample_store"
      "case f of None \<Rightarrow> True | Some g \<Rightarrow> \<exists>content. may_answer rude_sync content \<and> bad_answer (json_engine rude_sync) content g"
    using sync_push_returns [of sample_host Config_default ?w ?sc rude_sync] by auto
  have page: "paginate sample_store None 501 [] \<noteq> []" by code_simp
  have "fst (the (send_loop rude_sync p None (?w\<lparr>handle := sync_handle\<rparr>))) = Some g" for p
    using g page by (subst send_loop.simps) (simp add: Let_def fetch_url_post_def run_transfer_def rude_sync_def writer_def)
  then have "f = Some g"
    using run(1) by (simp add: sync_host_def SyncConfig_host_mode_def SyncConfig_get_def SyncConfig_send_def Let_def) (metis fst_conv option.sel)
  with run show ?thesis by auto
qed

text \<open>
  Pulling from a peer may never end: when every answer of the peer names a reference to continue after, \<^verbatim>\<open>sync_host\<close> in
  a mode that gets does not return, and the synchronisation thread does nothing else any more.
\<close>

theorem endless_peer_blocks:
  assumes "classic_engine (json_engine S)" and "SyncConfig_get sc"
    and "\<And>c fs n. \<exists>n'. transfer S c fs n = (True, [json_write (Obj [(''blobs'', Arr []), (''continueAfter'', JStr l)]) @ crlf], n')"
  shows "sync_host S sc w = None"
proof -
  have answer: "\<exists>w1. fetch_url S u w = (Some (json_write (Obj [(''blobs'', Arr []), (''continueAfter'', JStr l)]) @ crlf), w1)" for u w
  proof -
    obtain n' where "transfer S ((handle w)\<lparr>opt_url := c_str u\<rparr>) (files (bi w)) (net w) =
        (True, [json_write (Obj [(''blobs'', Arr []), (''continueAfter'', JStr l)]) @ crlf], n')" using assms(3) by blast
    then show ?thesis by (simp add: fetch_url_def run_transfer_def writer_def)
  qed
  have parse: "parse_sync_enumeration (json_engine S) (json_write (Obj [(''blobs'', Arr []), (''continueAfter'', JStr l)]) @ crlf) =
      Inr (Some (SyncEnumeration_set_last l new_SyncEnumeration))"
    by (subst parse_sync_enumeration_Obj [OF assms(1)]) (simp_all add: enumeration_member_def)
  have never: "get_loop S p k w \<noteq> Some y" for p k w y
  proof
    assume "get_loop S p k w = Some y"
    then have "S \<noteq> S"
    proof (rule get_loop.raw_induct [where P = "\<lambda>S' p k w y. S' \<noteq> S", rotated], goal_cases)
      case (1 rec S' p k w y)
      show ?case
      proof
        assume "S' = S"
        obtain w1 where "fetch_url S (build_enumeration_url p k) w =
            (Some (json_write (Obj [(''blobs'', Arr []), (''continueAfter'', JStr l)]) @ crlf), w1)" using answer by blast
        with 1(2) \<open>S' = S\<close> parse have "rec S p l w1 = Some y"
          by (simp add: SyncEnumeration_set_last_def SyncEnumeration_last_def new_SyncEnumeration_def)
        with 1(1) show False by blast
      qed
    qed
    then show False by simp
  qed
  then have "get_loop S p k w = None" for p k w by (meson not_None_eq)
  then show ?thesis using assms(2) by (simp add: sync_host_def Let_def)
qed

theorem endless_peer_blocks_witness:
  "sync_host ((sample_sync (empty_store (\<lambda>_. None)))\<lparr>transfer :=
       (\<lambda>c fs n. (True, [json_write (Obj [(''blobs'', Arr []), (''continueAfter'', JStr ''sha1-0A'')]) @ crlf], n))\<rparr>)
     (SyncConfig_host_mode ''http://p'' get_only) sample_world = None"
  by (rule endless_peer_blocks [where l = "''sha1-0A''"])
    (simp_all add: sample_sync_def classic_engine_spirit SyncConfig_get_def SyncConfig_host_mode_def)

text \<open>
  C32. A stat exchange finds what the peer lacks: from the peer's reply to the stat request of a page,
  the references to send are those of the page the peer's index does not know.
\<close>

theorem stat_finds_missing:
  assumes "qi_engine (engine env)" and "classic_engine classic"
    and "\<forall>p \<in> set page. set (blobref (fst p)) \<subseteq> set ref_alphabet"
    and "req_method req = ''POST''" and "req_uri req = ''/stat''" and "req_content req = stat_request page"
  shows "\<exists>rep se. handle_request env req (fresh_reply s) pst = (Inr rep, pst) \<and>
    parse_sync_enumeration classic (rep_content rep) = Inr (Some se) \<and>
    set (refs_to_send (check_blob_refs page) (blob_refs se)) =
      {r \<in> (\<lambda>p. blobref (fst p)) ` set page. get_blob pst r = None}"
proof -
  obtain rs where rs: "decode_query_string_blobs (engine env) (stat_request page) = Inr rs"
      "set rs = (\<lambda>p. blobref (fst p)) ` set page" by (rule decode_stat_request [OF assms(1,3)])
  let ?rep = "json_reply (stat_result pst rs) (fresh_reply s)"
  have "handle_request env req (fresh_reply s) pst = (Inr ?rep, pst)"
    using handle_request_stat [OF assms(4,5)] rs(1) assms(6) by simp
  moreover have "rep_content ?rep = json_write (stat_result pst rs) @ crlf"
    by (simp add: json_reply_def with_length_def push_header_def)
  ultimately show ?thesis
    using parse_stat_result [OF assms(2), of pst rs] rs(2)
    by (auto simp: set_refs_to_send set_check_blob_refs)
qed

theorem stat_finds_missing_witness:
  "\<exists>rep se. handle_request sample_env
      (simple_request ''POST'' ''/stat'' [] (stat_request [(BlobKey ''sha1'' ''0A'', 0)])) (fresh_reply ok)
      (empty_store (\<lambda>_. None)) = (Inr rep, empty_store (\<lambda>_. None)) \<and>
    parse_sync_enumeration spirit_engine (rep_content rep) = Inr (Some se) \<and>
    set (refs_to_send (check_blob_refs [(BlobKey ''sha1'' ''0A'', 0)]) (blob_refs se)) = {''sha1-0A''}"
proof -
  have "get_blob (empty_store (\<lambda>_. None)) r = None" for r
    by (simp add: get_blob_def empty_store_def split: option.splits)
  with stat_finds_missing [OF sample_env_ok(1) classic_engine_spirit, of "[(BlobKey ''sha1'' ''0A'', 0)]"
      "simple_request ''POST'' ''/stat'' [] (stat_request [(BlobKey ''sha1'' ''0A'', 0)])" ok "empty_store (\<lambda>_. None)"]
  show ?thesis by (auto simp: simple_request_def blobref_def ref_alphabet_def)
qed

text \<open>
  A peer can stop the daemon: an empty body in answer to a blob request fails the assertion of
  \<^verbatim>\<open>add_blob\<close>, and the failure ends the synchronisation.
\<close>

theorem empty_body_aborts:
  assumes "fetch_url S (build_blob_url peer r) w = (Some [], w')"
  shows "fst (fetch_blob S peer r w) = Some Assertion_failed"
  using assms by (simp add: fetch_blob_def add_blob_def add_blob_types_def)

theorem empty_body_aborts_witness:
  "fst (fetch_blob ((sample_sync (empty_store (\<lambda>_. None)))\<lparr>transfer := (\<lambda>c fs n. (True, [], n))\<rparr>) ''p'' ''sha1-0A'' sample_world) =
     Some Assertion_failed"
  by (rule empty_body_aborts) (simp add: fetch_url_def run_transfer_def)

end
