(* ===== verification/Daemon.thy ===== *)
theory Daemon
  imports Connection Sync
begin

text \<open>
  The daemon (\<^verbatim>\<open>main\<close> of \<^verbatim>\<open>blobserver.cpp\<close>): its start-up, from the options to a running server, with the files it may load
  and the archive of the index it writes; and the threads of the server and the synchronisation thread working on one
  index, whose mutex makes every call of \<^verbatim>\<open>add_blob\<close> and \<^verbatim>\<open>get\<close> one step.
\<close>

section \<open>Start-up\<close>

text \<open>
  What the start-up is given by the platform and the build: the entries of a path that exists and is a directory, which
  of them are regular files, the text archive of Boost for what is serialized, the directory for temporary files, whether
  the server can resolve and bind its address, and \<^verbatim>\<open>ENABLE_DEBUG_LOAD\<close> with the option \<^verbatim>\<open>load_directory\<close>.
\<close>

type_synonym serialized = "((string \<times> string) \<times> (string \<times> uint32 \<times> string list)) list"

record launcher =
  dir_entries :: "string \<Rightarrow> string list option"
  regular_file :: "string \<Rightarrow> bool"
  text_oarchive :: "serialized \<Rightarrow> string"
  tmpdir :: string
  binds :: "Config \<Rightarrow> bool"
  debug_load :: bool
  opt_load_directory :: "string option"

text \<open>The loop over a buffer of 512 bytes; the last read delivers what is left, and then nothing.\<close>

function read_loop :: "string \<Rightarrow> string \<Rightarrow> string" where
  "read_loop rest content =
     (let buf = take 512 rest
      in if length buf > 0 then read_loop (drop 512 rest) (content @ buf) else content)"
  by pat_completeness auto
termination
  by (relation "measure (\<lambda>(rest, content). length rest)") auto

declare read_loop.simps [simp del]

text \<open>An exception or a failed assertion here ends the process: none of this is inside the \<^verbatim>\<open>try\<close> of \<^verbatim>\<open>main\<close>.\<close>

definition load_file :: "env \<Rightarrow> launcher \<Rightarrow> string \<Rightarrow> store \<Rightarrow> failure option \<times> store" where
  "load_file env L path st =
     (if regular_file L path
      then (case read_file st path of
              Some data \<Rightarrow>
                (case add_blob (host env) (config env) None (read_loop data []) st of
                   (Inl f, st) \<Rightarrow> (Some f, st)
                 | (Inr _, st) \<Rightarrow> (None, st))
            | None \<Rightarrow> (None, st))
      else (None, st))"

fun load_files :: "env \<Rightarrow> launcher \<Rightarrow> string list \<Rightarrow> store \<Rightarrow> failure option \<times> store" where
  "load_files env L [] st = (None, st)"
| "load_files env L (path # v) st =
     (case load_file env L path st of
        (Some f, st) \<Rightarrow> (Some f, st)
      | (None, st) \<Rightarrow> load_files env L v st)"

definition debug_load_files :: "env \<Rightarrow> launcher \<Rightarrow> store \<Rightarrow> failure option \<times> store" where
  "debug_load_files env L st =
     (if debug_load L
      then let load_directory = (case opt_load_directory L of Some d \<Rightarrow> d | None \<Rightarrow> [])
           in case dir_entries L load_directory of
                Some v \<Rightarrow> load_files env L v st
              | None \<Rightarrow> (None, st)
      else (None, st))"

text \<open>What the \<^verbatim>\<open>serialize\<close> members hand to an archive, in their order.\<close>

definition serialize_key :: "blob_key \<Rightarrow> string \<times> string" where
  "serialize_key k = (hash_type k, hash_value k)"

definition serialize_blob :: "Blob \<Rightarrow> string \<times> uint32 \<times> string list" where
  "serialize_blob b = (filePath b, blob_size b, hashes b)"

definition serialize_index :: "store \<Rightarrow> serialized" where
  "serialize_index st = map (\<lambda>(k, b). (serialize_key k, serialize_blob (heap st ! b))) (blobs st)"

text \<open>The constructor of the archive writes to the stream at once and throws when that fails.\<close>

definition save_blob_index :: "env \<Rightarrow> launcher \<Rightarrow> string \<Rightarrow> store \<Rightarrow> failure + store" where
  "save_blob_index env L filename st =
     (if open_ok (host env) filename
      then Inr (st\<lparr>files := (files st)(filename := Some (text_oarchive L (serialize_index st)))\<rparr>)
      else Inl (Runtime_error ''output stream error''))"

definition index_file :: "launcher \<Rightarrow> string" where
  "index_file L = tmpdir L @ ''/blobindex.txt''"

text \<open>
  \<^verbatim>\<open>main\<close>: \<open>None\<close> is the exit with 1 after the help text. The environment of the handlers gets the configuration. A
  server that cannot be constructed throws inside the \<^verbatim>\<open>try\<close>, and the daemon stops.
\<close>

definition daemon_main :: "env \<Rightarrow> launcher \<Rightarrow> options \<Rightarrow> (string \<Rightarrow> string option) \<Rightarrow> (env \<times> server_state) option" where
  "daemon_main env0 L vm fs =
     (case main_config vm of
        None \<Rightarrow> None
      | Some cfg \<Rightarrow>
          let env = env0\<lparr>config := cfg\<rparr>
          in case debug_load_files env L (empty_store fs) of
               (Some f, st) \<Rightarrow> Some (env, Terminated f)
             | (None, st) \<Rightarrow>
                 (case save_blob_index env L (index_file L) st of
                    Inl f \<Rightarrow> Some (env, Terminated f)
                  | Inr st \<Rightarrow>
                      if binds L cfg then Some (env, Running \<lparr>index = st, connections = []\<rparr>)
                      else Some (env, Stopped)))"

section \<open>Server and synchronisation\<close>

text \<open>
  The steps of the daemon, labelled with what they are about. A step is one of the server, or one of the synchronisation
  thread: a blob it has fetched, added with \<^verbatim>\<open>add_blob\<close> under the index's mutex, with whatever content the peer sent; or an
  answer of a peer to an enumeration or a stat request that throws when it is read, which nothing in the thread catches.
  What else the thread does leaves the index alone and the process running (\<open>sync_run_simulated\<close>).
\<close>

datatype daemon_event = Client | Fetched string string | Answered string

inductive daemon_step :: "env \<Rightarrow> classic \<Rightarrow> daemon_event \<Rightarrow> server_state \<Rightarrow> server_state \<Rightarrow> bool" for env classic where
  serve: "server_step env s s' \<Longrightarrow> daemon_step env classic Client s s'"
| fetched:
    "add_blob (host env) (config env) (Some blob_ref) content (index sv) = (Inr r, st') \<Longrightarrow>
     daemon_step env classic (Fetched blob_ref content) (Running sv) (Running (sv\<lparr>index := st'\<rparr>))"
| fetch_fails:
    "add_blob (host env) (config env) (Some blob_ref) content (index sv) = (Inl f, st') \<Longrightarrow>
     daemon_step env classic (Fetched blob_ref content) (Running sv) (Terminated f)"
| answer_throws:
    "parse_sync_enumeration classic content = Inl f \<Longrightarrow>
     daemon_step env classic (Answered content) (Running sv) (Terminated f)"

inductive_cases daemon_step_haltE: "daemon_step env classic ev Stopped s'" "daemon_step env classic ev (Terminated f) s'"

abbreviation daemon_steps :: "env \<Rightarrow> classic \<Rightarrow> server_state \<Rightarrow> server_state \<Rightarrow> bool" where
  "daemon_steps env classic \<equiv> (\<lambda>s s'. \<exists>ev. daemon_step env classic ev s s')\<^sup>*\<^sup>*"

text \<open>
  Why a step can end the process: a client's request needs a directory that cannot be made or the compressor failed for
  it; a peer sent an empty blob, or one whose directory cannot be made; a peer's answer is no proper enumeration.
\<close>

fun caused_by :: "env \<Rightarrow> classic \<Rightarrow> daemon_event \<Rightarrow> failure \<Rightarrow> bool" where
  "caused_by env classic Client f \<longleftrightarrow> request_fails env f"
| "caused_by env classic (Fetched blob_ref content) f \<longleftrightarrow>
     content = [] \<and> f = Assertion_failed \<or>
     (\<exists>d. d = blob_directory (config env) (Sha256 (host env) content) \<and> f = Filesystem_error d \<and> \<not> mkdir_ok (host env) d)"
| "caused_by env classic (Answered content) f \<longleftrightarrow> bad_answer classic content f"

section \<open>Loading\<close>

lemma read_loop_all: "read_loop rest content = content @ rest"
proof (induction rest content rule: read_loop.induct)
  case (1 rest content)
  then show ?case by (cases "rest = []") (subst read_loop.simps, simp)+
qed

lemma load_file_eq:
  "load_file env L path st =
     (case (if regular_file L path then read_file st path else None) of
        Some data \<Rightarrow> (case add_blob (host env) (config env) None data st of (Inl f, st) \<Rightarrow> (Some f, st) | (Inr _, st) \<Rightarrow> (None, st))
      | None \<Rightarrow> (None, st))"
  by (simp add: load_file_def read_loop_all split: option.split)

lemma load_file_steps: "(index_step (host env) (config env))\<^sup>*\<^sup>* st (snd (load_file env L path st))"
  by (auto simp: load_file_eq split: option.split prod.split sum.split intro!: r_into_rtranclp intro: index_step.add)

lemma load_files_steps: "(index_step (host env) (config env))\<^sup>*\<^sup>* st (snd (load_files env L v st))"
proof (induction v arbitrary: st)
  case (Cons path v)
  obtain r st1 where load: "load_file env L path st = (r, st1)" by fastforce
  then have "(index_step (host env) (config env))\<^sup>*\<^sup>* st st1" using load_file_steps [of env st L path] by simp
  then show ?case using Cons [of st1] load by (cases r) (auto intro: rtranclp_trans)
qed simp

lemma debug_load_steps: "(index_step (host env) (config env))\<^sup>*\<^sup>* st (snd (debug_load_files env L st))"
  using load_files_steps by (auto simp: debug_load_files_def Let_def split: option.split)

text \<open>Why storing a content can fail: it is empty, or its directory cannot be made.\<close>

lemma add_blob_failure:
  assumes "add_blob h cfg provided bytes st = (Inl f, st')"
  shows "bytes = [] \<and> f = Assertion_failed \<or>
    (\<exists>d. d = blob_directory cfg (Sha256 h bytes) \<and> f = Filesystem_error d \<and> \<not> mkdir_ok h d)"
  using assms by (auto simp: add_blob_def add_blob_types_def create_path_def Let_def split: if_splits)

text \<open>The server never writes an empty file, so an empty file it loads was there at the start.\<close>

lemma index_steps_no_empty:
  "(index_step h cfg)\<^sup>*\<^sup>* (empty_store fs) st \<Longrightarrow> files st q = Some [] \<Longrightarrow> fs q = Some []"
proof (induction arbitrary: q rule: rtranclp_induct)
  case base
  then show ?case by (simp add: empty_store_def)
next
  case (step s s')
  from step(2) obtain provided bytes where s': "s' = snd (add_blob_types h cfg provided bytes [sha1, sha256] s)"
    by (rule index_stepE)
  have "files s q = Some []"
    using step(4) unfolding s'
    by (cases rule: add_blob_types_cases [of h cfg provided bytes "[sha1, sha256]" s])
      (auto simp: add_blob_types_reject add_blob_types_files split: if_splits)
  with step(3) show ?case .
qed

definition start_fails :: "env \<Rightarrow> launcher \<Rightarrow> (string \<Rightarrow> string option) \<Rightarrow> failure \<Rightarrow> bool" where
  "start_fails env L fs f \<longleftrightarrow>
     (\<exists>d. f = Filesystem_error d \<and> \<not> mkdir_ok (host env) d) \<or>
     f = Assertion_failed \<and>
       (\<exists>v path. dir_entries L (case opt_load_directory L of Some d \<Rightarrow> d | None \<Rightarrow> []) = Some v \<and> path \<in> set v \<and>
          regular_file L path \<and> fs (c_str path) = Some []) \<or>
     f = Runtime_error ''output stream error'' \<and> \<not> open_ok (host env) (index_file L)"

lemma load_files_fails:
  assumes "load_files env L v st = (Some f, st')" and "(index_step (host env) (config env))\<^sup>*\<^sup>* (empty_store fs) st"
  shows "(\<exists>d. f = Filesystem_error d \<and> \<not> mkdir_ok (host env) d) \<or>
    f = Assertion_failed \<and> (\<exists>path \<in> set v. regular_file L path \<and> fs (c_str path) = Some [])"
  using assms
proof (induction v arbitrary: st)
  case (Cons path v)
  obtain r st1 where load: "load_file env L path st = (r, st1)" by fastforce
  show ?case
  proof (cases r)
    case None
    have "(index_step (host env) (config env))\<^sup>*\<^sup>* st st1" using load_file_steps [of env st L path] load by simp
    with Cons.prems(2) have "(index_step (host env) (config env))\<^sup>*\<^sup>* (empty_store fs) st1" by (rule rtranclp_trans)
    from Cons.IH [OF _ this] show ?thesis using Cons.prems(1) load None by auto
  next
    case (Some g)
    then obtain data where data: "regular_file L path" "read_file st path = Some data"
        "fst (add_blob (host env) (config env) None data st) = Inl f"
      using Cons.prems(1) load by (auto simp: load_file_eq split: if_splits option.splits prod.splits sum.splits)
    then have "data = [] \<and> f = Assertion_failed \<or> (\<exists>d. f = Filesystem_error d \<and> \<not> mkdir_ok (host env) d)"
      using add_blob_failure [of "host env" "config env" None data st f] by (metis prod.collapse)
    then show ?thesis using data(1,2) index_steps_no_empty [OF Cons.prems(2), of "c_str path"] by (auto simp: read_file_def)
  qed
qed simp

lemma debug_load_fails: "debug_load_files env L (empty_store fs) = (Some f, st') \<Longrightarrow> start_fails env L fs f"
  using load_files_fails [of env L _ "empty_store fs" f st' fs]
  by (auto simp: debug_load_files_def start_fails_def Let_def split: if_splits option.splits) blast+

text \<open>The contents a start-up stores.\<close>

definition loaded :: "launcher \<Rightarrow> store \<Rightarrow> string list \<Rightarrow> string list" where
  "loaded L st v = List.map_filter (\<lambda>path. if regular_file L path then read_file st path else None) v"

definition outside :: "env \<Rightarrow> string \<Rightarrow> bool" where
  "outside env path \<longleftrightarrow> (\<forall>d. c_str path \<noteq> blob_path (config env) d)"

lemma load_files_contents:
  assumes env: "writable env" and "index_ok (host env) (config env) st" and "backed st"
    and "\<forall>path \<in> set v. outside env path" and "[] \<notin> set (loaded L st v)" and "storable env (loaded L st v) st"
  shows "\<exists>st'. load_files env L v st = (None, st') \<and> index_ok (host env) (config env) st' \<and> backed st' \<and>
    contents st' = fold (abs_store (host env)) (loaded L st v) (contents st)"
  using assms(2-)
proof (induction v arbitrary: st)
  case (Cons path v)
  show ?case
  proof (cases "if regular_file L path then read_file st path else None")
    case None
    then show ?thesis using Cons by (simp add: load_file_eq loaded_def map_filter_simps)
  next
    case (Some data)
    then have loads: "loaded L st (path # v) = data # loaded L st v" by (simp add: loaded_def map_filter_simps)
    then have "data \<noteq> []" using Cons.prems(4) by auto
    have absent: "files st (blob_path (config env) (Sha256 (host env) data)) \<in> {None, Some data}"
      by (rule storable_files [OF Cons.prems(5)]) (simp add: loads)
    have "mkdir_ok (host env) d" "open_ok (host env) q" for d q using env by (simp_all add: writable_def)
    from add_blob_stores [OF Cons.prems(1,2) \<open>data \<noteq> []\<close> this absent] obtain b st1 where
        st1: "add_blob (host env) (config env) None data st = (Inr (Some b), st1)"
        "index_ok (host env) (config env) st1" "backed st1" "contents st1 = abs_store (host env) data (contents st)"
        "files st1 = (files st)(blob_path (config env) (Sha256 (host env) data) := Some data)"
      by blast
    have reads: "read_file st1 q = read_file st q" if "q \<in> set v" for q
      using Cons.prems(3) that by (auto simp: read_file_def st1(5) outside_def)
    have "loaded L st1 u = loaded L st u" if "set u \<subseteq> set v" for u
      using that by (induction u) (auto simp: loaded_def map_filter_simps reads split: option.split)
    then have same: "loaded L st1 v = loaded L st v" by simp
    have "storable env (data # loaded L st v) st" using Cons.prems(5) loads by simp
    from storable_step [OF this st1(5)] have "storable env (loaded L st1 v) st1" by (simp only: same)
    moreover have "\<forall>path \<in> set v. outside env path" "[] \<notin> set (loaded L st1 v)"
      using Cons.prems(3,4) by (simp_all add: loads same)
    moreover have "load_file env L path st = (None, st1)" using Some st1(1) by (simp add: load_file_eq)
    ultimately show ?thesis using Cons.IH [OF st1(2,3)] by (simp add: loads same st1(4))
  qed
qed (simp add: loaded_def map_filter_simps)

text \<open>The archive is no blob: the index and what it serves stay the same.\<close>

lemma save_blob_index_keeps:
  assumes "save_blob_index env L filename st = Inr st'" and "\<forall>d. filename \<noteq> blob_path (config env) d"
    and "index_ok (host env) (config env) st"
  shows "index_ok (host env) (config env) st'" "files_ok (host env) (config env) st \<Longrightarrow> files_ok (host env) (config env) st'"
    "contents st' = contents st"
proof -
  have st': "blobs st' = blobs st" "heap st' = heap st" "files st' = (files st)(filename := files st' filename)"
    using assms(1) by (auto simp: save_blob_index_def split: if_splits)
  have path: "files st' (blob_path (config env) d) = files st (blob_path (config env) d)" for d
    using st'(3) assms(2) by (metis fun_upd_other)
  have entry: "entry_ok (host env) (config env) st' k a \<longleftrightarrow> entry_ok (host env) (config env) st k a" for k a
    by (simp add: entry_ok_def st'(2))
  show "index_ok (host env) (config env) st'" using assms(3) by (simp add: index_ok_def st'(1) entry)
  show "files_ok (host env) (config env) st \<Longrightarrow> files_ok (host env) (config env) st'" by (simp add: files_ok_def path)
  show "contents st' = contents st"
  proof
    fix k
    show "contents st' k = contents st k"
    proof (cases "map_find (blobs st) k")
      case (Some a)
      then obtain d where "filePath (heap st ! a) = blob_path (config env) d"
        using index_ok_entry [OF assms(3) Some] by (auto simp: entry_ok_def)
      then show ?thesis by (simp add: contents_def st'(1,2) Some path)
    qed (simp add: contents_def st'(1))
  qed
qed

section \<open>The running daemon\<close>

fun daemon_ok :: "env \<Rightarrow> server_state \<Rightarrow> bool" where
  "daemon_ok env (Running sv) \<longleftrightarrow> server_ok env sv"
| "daemon_ok env Stopped \<longleftrightarrow> True"
| "daemon_ok env (Terminated f) \<longleftrightarrow> True"

lemma daemon_step_ok:
  assumes "daemon_step env classic ev s s'" and "daemon_ok env s"
  shows "daemon_ok env s'"
  using assms(1)
proof cases
  case serve
  then show ?thesis using assms(2) server_step_ok by (cases s; cases s') (auto elim: stepped_from_haltE)
next
  case (fetched blob_ref content sv r st')
  then show ?thesis using assms(2) index_step_inv [OF index_step.add [OF fetched(4)]] by (auto simp: server_ok_def)
qed simp_all

lemma daemon_step_cause:
  assumes "daemon_step env classic ev s (Terminated f)" and "daemon_ok env s"
  shows "caused_by env classic ev f"
  using assms(1)
proof cases
  case serve
  then show ?thesis using assms(2) server_step_fails by (cases s) (auto elim: stepped_from_haltE)
next
  case (fetch_fails blob_ref content sv st')
  then show ?thesis using add_blob_failure by auto
next
  case (answer_throws content sv)
  then show ?thesis using parse_sync_enumeration_fails by simp
qed

lemma daemon_steps_ok: "daemon_steps env classic s s' \<Longrightarrow> daemon_ok env s \<Longrightarrow> daemon_ok env s'"
  by (induction rule: rtranclp_induct) (auto intro: daemon_step_ok)

text \<open>The index of a running daemon changes by calls of \<^verbatim>\<open>add_blob\<close>; a daemon that runs has run all along.\<close>

lemma daemon_steps_index:
  assumes "daemon_steps env classic (Running sv) s'" and "server_ok env sv" and "s' = Running sv'"
  shows "(index_step (host env) (config env))\<^sup>*\<^sup>* (index sv) (index sv')"
  using assms(1,3)
proof (induction arbitrary: sv' rule: rtranclp_induct)
  case (step s1 s2)
  from step(2,4) obtain ev where ev: "daemon_step env classic ev s1 (Running sv')" by blast
  then obtain sv1 where s1: "s1 = Running sv1" by (cases s1) (auto elim!: daemon_step_haltE stepped_from_haltE)
  have "server_ok env sv1" using daemon_steps_ok [OF step(1)] assms(2) s1 by simp
  with ev have "(index_step (host env) (config env))\<^sup>*\<^sup>* (index sv1) (index sv')"
    unfolding s1 by cases (auto dest: server_step_index intro: index_step.add)
  with step(3) [OF s1] show ?case by (rule rtranclp_trans)
qed simp

section \<open>The synchronisation thread\<close>

text \<open>
  Every call of the synchroniser that returns, alone on the index, is a sequence of such steps; a failure of it ends the
  daemon.
\<close>

definition outcome :: "server \<Rightarrow> failure option \<Rightarrow> 'n world \<Rightarrow> server_state" where
  "outcome sv r w = (case r of None \<Rightarrow> Running (sv\<lparr>index := bi w\<rparr>) | Some f \<Rightarrow> Terminated f)"

definition simulated :: "env \<Rightarrow> classic \<Rightarrow> 'n world \<Rightarrow> failure option \<times> 'n world \<Rightarrow> bool" where
  "simulated env classic w y \<longleftrightarrow>
     (\<forall>sv. index sv = bi w \<longrightarrow> daemon_steps env classic (Running sv) (outcome sv (fst y) (snd y)))"

definition synchronises :: "'n Sync \<Rightarrow> env \<Rightarrow> classic \<Rightarrow> bool" where
  "synchronises S env classic \<longleftrightarrow> bi_host S = host env \<and> ci S = config env \<and> json_engine S = classic"

lemma simulated_same: "bi w' = bi w \<Longrightarrow> simulated env classic w (None, w')"
  unfolding simulated_def outcome_def by (auto simp flip: server.surjective) (metis rtranclp.rtrancl_refl server.surjective server.update_convs(1))

lemma simulated_from: "simulated env classic w y \<Longrightarrow> bi w0 = bi w \<Longrightarrow> simulated env classic w0 y"
  by (simp add: simulated_def)

lemma simulated_trans:
  assumes "simulated env classic w (None, w1)" and "simulated env classic w1 y"
  shows "simulated env classic w y"
  unfolding simulated_def
proof (intro allI impI)
  fix sv :: server
  assume "index sv = bi w"
  then have "daemon_steps env classic (Running sv) (Running (sv\<lparr>index := bi w1\<rparr>))"
    using assms(1) by (simp add: simulated_def outcome_def)
  moreover have "daemon_steps env classic (Running (sv\<lparr>index := bi w1\<rparr>)) (outcome (sv\<lparr>index := bi w1\<rparr>) (fst y) (snd y))"
    using assms(2) by (simp add: simulated_def)
  moreover have "outcome (sv\<lparr>index := bi w1\<rparr>) (fst y) (snd y) = outcome sv (fst y) (snd y)"
    by (simp add: outcome_def split: option.split)
  ultimately show "daemon_steps env classic (Running sv) (outcome sv (fst y) (snd y))" by simp
qed

lemma simulated_throw: "parse_sync_enumeration classic content = Inl f \<Longrightarrow> simulated env classic w (Some f, w')"
  unfolding simulated_def outcome_def by (auto intro!: r_into_rtranclp daemon_step.answer_throws)

lemma fetch_blob_simulated:
  assumes "synchronises S env classic" and "fetch_blob S peer blob_ref w = y"
  shows "simulated env classic w y"
proof -
  obtain body w1 where fetch: "fetch_url S (build_blob_url peer blob_ref) w = (body, w1)" by fastforce
  note bi = fetch_bi(1) [OF fetch]
  show ?thesis
  proof (cases body)
    case None
    then show ?thesis using assms(2) fetch bi by (auto simp: fetch_blob_def intro: simulated_same)
  next
    case (Some content)
    obtain res st where add: "add_blob (host env) (config env) (Some blob_ref) content (bi w) = (res, st)" by fastforce
    have y: "y = ((case res of Inl f \<Rightarrow> Some f | Inr _ \<Rightarrow> None), w1\<lparr>bi := st\<rparr>)"
      using assms fetch Some bi add by (auto simp: fetch_blob_def synchronises_def split: sum.splits)
    have "daemon_step env classic (Fetched blob_ref content) (Running sv) (outcome sv (fst y) (snd y))"
      if "index sv = bi w" for sv
      using add that unfolding y outcome_def
      by (cases res) (auto intro: daemon_step.fetched [where blob_ref = blob_ref] daemon_step.fetch_fails)
    then show ?thesis unfolding simulated_def by (blast intro: r_into_rtranclp)
  qed
qed

lemma fetch_loop_simulated:
  "synchronises S env classic \<Longrightarrow> fetch_loop S peer rs w = y \<Longrightarrow> simulated env classic w y"
proof (induction rs arbitrary: w)
  case Nil
  then show ?case by (auto intro: simulated_same)
next
  case (Cons r rs)
  show ?case
  proof (cases "get_blob (bi w) r = None")
    case True
    obtain f w1 where one: "fetch_blob S peer r w = (f, w1)" by fastforce
    note sim = fetch_blob_simulated [OF Cons.prems(1) one]
    show ?thesis
    proof (cases f)
      case None
      then have "simulated env classic w1 y" using Cons True one by simp
      with sim None show ?thesis by (blast intro: simulated_trans)
    next
      case (Some g)
      then show ?thesis using sim Cons.prems(2) True one by simp
    qed
  next
    case False
    then have "fetch_loop S peer rs w = y" using Cons.prems(2) by auto
    with Cons.IH Cons.prems(1) show ?thesis by blast
  qed
qed

lemma get_loop_simulated:
  assumes "get_loop S peer l w = Some y"
  shows "synchronises S env classic \<longrightarrow> simulated env classic w y"
proof (rule get_loop.raw_induct [where P = "\<lambda>S peer l w y. synchronises S env classic \<longrightarrow> simulated env classic w y", OF _ assms], goal_cases)
  case (1 rec S p l w y)
  note IH = 1(1)
  obtain c w1 where fetch: "fetch_url S (build_enumeration_url p l) w = (c, w1)" by fastforce
  note bi = fetch_bi(1) [OF fetch]
  show ?case
  proof
    assume S: "synchronises S env classic"
    consider "y = (None, w1)" | content f where "y = (Some f, w1)" "parse_sync_enumeration classic content = Inl f"
      | rs where "fetch_loop S p rs w1 = y"
      | rs w2 l' where "fetch_loop S p rs w1 = (None, w2)" "rec S p l' w2 = Some y"
      using 1(2) fetch S by (auto simp: synchronises_def split: option.splits sum.splits prod.splits)
    then show "simulated env classic w y"
    proof cases
      case 1
      then show ?thesis using bi by (simp add: simulated_same)
    next
      case (2 content f)
      then show ?thesis by (simp add: simulated_throw)
    next
      case (3 rs)
      then show ?thesis using fetch_loop_simulated [OF S] bi by (metis simulated_from)
    next
      case (4 rs w2 l')
      then show ?thesis using fetch_loop_simulated [OF S 4(1)] IH [OF 4(2)] S bi by (metis simulated_from simulated_trans)
    qed
  qed
qed

lemma send_loop_simulated:
  assumes "send_loop S peer after w = Some y" and "synchronises S env classic"
  shows "simulated env classic w y"
proof (cases "fst y")
  case None
  then show ?thesis using send_loop_bi [OF assms(1)] by (cases y) (simp add: simulated_same)
next
  case (Some f)
  then obtain content where "parse_sync_enumeration (json_engine S) content = Inl f"
    using send_loop_throws [OF assms(1)] by blast
  then show ?thesis using Some assms(2) by (cases y) (auto simp: synchronises_def intro: simulated_throw)
qed

lemma sync_host_simulated:
  assumes "sync_host S sc w = Some y" and "synchronises S env classic"
  shows "simulated env classic w y"
proof -
  let ?p = "sync_host_name sc" and ?w = "w\<lparr>handle := sync_handle\<rparr>"
  obtain f w1 where get: "(if SyncConfig_get sc then get_loop S ?p [] ?w else Some (None, ?w)) = Some (f, w1)"
    using assms(1) by (auto simp: sync_host_def Let_def split: option.splits)
  have "simulated env classic w (f, w1)"
  proof (cases "SyncConfig_get sc")
    case True
    then have "get_loop S ?p [] ?w = Some (f, w1)" using get by simp
    then have "simulated env classic ?w (f, w1)" using get_loop_simulated assms(2) by blast
    then show ?thesis by (rule simulated_from) simp
  next
    case False
    then show ?thesis using get by (auto intro: simulated_same)
  qed
  moreover have "y = (f, w1) \<or> f = None \<and> send_loop S ?p None w1 = Some y"
    using assms(1) get by (auto simp: sync_host_def Let_def split: option.splits if_splits)
  ultimately show ?thesis using send_loop_simulated [OF _ assms(2)] by (blast intro: simulated_trans)
qed

lemma sync_hosts_simulated:
  "sync_hosts S cs w = Some y \<Longrightarrow> synchronises S env classic \<Longrightarrow> simulated env classic w y"
proof (induction cs arbitrary: w)
  case Nil
  then show ?case by (auto intro: simulated_same)
next
  case (Cons c cs)
  then obtain f w1 where one: "sync_host S c w = Some (f, w1)" by (auto split: option.splits)
  with Cons.prems(1) have "y = (f, w1) \<or> f = None \<and> sync_hosts S cs w1 = Some y" by (auto split: option.splits)
  with sync_host_simulated [OF one Cons.prems(2)] Cons show ?case by (blast intro: simulated_trans)
qed

lemma sync_run_simulated:
  "sync_run S reads t w = Some (f, t', w') \<Longrightarrow> synchronises S env classic \<Longrightarrow> simulated env classic w (f, w')"
proof (induction reads arbitrary: t w)
  case Nil
  then show ?case by (auto intro: simulated_same)
next
  case (Cons stop reads)
  consider "w' = w" "f = None" | "sync_hosts S (sync_servers (ci S)) w = Some (f, w')"
    | w1 where "sync_hosts S (sync_servers (ci S)) w = Some (None, w1)" "sync_run S reads 0 w1 = Some (f, t', w')"
    | "sync_run S reads (t + 1) w = Some (f, t', w')"
    using Cons.prems(1) by (auto split: if_splits option.splits)
  then show ?case
  proof cases
    case 1
    then show ?thesis by (simp add: simulated_same)
  next
    case 2
    then show ?thesis using Cons.prems(2) by (rule sync_hosts_simulated)
  next
    case (3 w1)
    show ?thesis using sync_hosts_simulated [OF 3(1) Cons.prems(2)] Cons.IH [OF 3(2) Cons.prems(2)] by (rule simulated_trans)
  next
    case 4
    then show ?thesis using Cons by blast
  qed
qed

section \<open>From the start\<close>

lemma daemon_main_ok:
  assumes "daemon_main env0 L vm fs = Some (env, s)" and "files_ok (host env) (config env) (empty_store fs)"
    and "\<forall>d. index_file L \<noteq> blob_path (config env) d"
  shows "daemon_ok env s \<and> (\<forall>f. s = Terminated f \<longrightarrow> start_fails env L fs f)"
proof -
  obtain cfg where cfg: "main_config vm = Some cfg" "env = env0\<lparr>config := cfg\<rparr>"
    using assms(1) by (auto simp: daemon_main_def Let_def split: option.splits prod.splits sum.splits if_splits)
  obtain r st where load: "debug_load_files env L (empty_store fs) = (r, st)" by fastforce
  have "index_ok (host env) (config env) (empty_store fs)" by (simp add: index_ok_def empty_store_def)
  then have st: "index_ok (host env) (config env) st" "files_ok (host env) (config env) st"
    using steps_inv [OF debug_load_steps [of env "empty_store fs" L]] assms(2) load by simp_all
  note main = assms(1) [unfolded daemon_main_def cfg(1), simplified, folded cfg(2)]
  show ?thesis
  proof (cases r)
    case (Some f)
    then show ?thesis using main debug_load_fails [of env L fs f st] load by auto
  next
    case None
    show ?thesis
    proof (cases "save_blob_index env L (index_file L) st")
      case (Inl f)
      then show ?thesis using main None load by (auto simp: save_blob_index_def start_fails_def split: if_splits)
    next
      case (Inr st')
      then show ?thesis using main None load save_blob_index_keeps [OF Inr assms(3) st(1)] st(2)
        by (auto simp: server_ok_def split: if_splits)
    qed
  qed
qed

section \<open>An example\<close>

definition no_options :: options where
  "no_options = \<lparr>opt_help = False, opt_directory = None, opt_ip = None, opt_port = None, opt_threads = None, opt_sync = None,
     opt_sync_delay = None, opt_static_directory = None\<rparr>"

definition sample_launcher :: launcher where
  "sample_launcher = \<lparr>dir_entries = (\<lambda>d. if d = ''/in'' then Some [''/in/a''] else None), regular_file = (\<lambda>_. True), text_oarchive = (\<lambda>_. []),
     tmpdir = ''/tmp'', binds = (\<lambda>_. True), debug_load = True, opt_load_directory = Some ''/in''\<rparr>"

definition sample_files :: "string \<Rightarrow> string option" where
  "sample_files = [''/in/a'' \<mapsto> ''hi'']"

lemma sample_config: "main_config no_options = Some (config sample_env)" "sample_env = sample_env\<lparr>config := config sample_env\<rparr>"
  by (simp_all add: main_config_def no_options_def sample_env_def)

lemma blob_path_rev: "\<exists>r. rev (blob_path cfg d) = ''tad.'' @ r"
  by (simp add: blob_path_def)

lemma not_blob_path:
  assumes "\<nexists>r. rev path = ''tad.'' @ r"
  shows "path \<noteq> blob_path cfg d" "blob_path cfg d \<noteq> path"
  using assms blob_path_rev by metis+

lemma sample_paths:
  "outside sample_env ''/in/a''" "index_file sample_launcher \<noteq> blob_path cfg d" "sample_files (blob_path cfg d) = None"
proof -
  have "c_str ''/in/a'' = ''/in/a''" by (simp add: c_str_def)
  then show "outside sample_env ''/in/a''" using not_blob_path(1) [of "''/in/a''"] by (simp add: outside_def)
  show "index_file sample_launcher \<noteq> blob_path cfg d"
    by (rule not_blob_path(1)) (simp add: index_file_def sample_launcher_def)
  show "sample_files (blob_path cfg d) = None"
    using not_blob_path(2) [of "''/in/a''"] by (simp add: sample_files_def)
qed

lemma sample_loaded: "loaded sample_launcher (empty_store sample_files) [''/in/a''] = [''hi'']"
  by (simp add: loaded_def map_filter_simps sample_launcher_def read_file_def empty_store_def sample_files_def c_str_def)

lemma sample_storable: "storable sample_env [''hi''] (empty_store sample_files)"
  using sample_env_ok(6) [of "''hi''"] by (simp add: storable_def empty_store_def sample_paths(3))

lemma sample_fetch:
  assumes "content \<noteq> []"
  shows "\<exists>st. daemon_step sample_env classic (Fetched blob_ref content) (Running sv) (Running (sv\<lparr>index := st\<rparr>)) \<and>
    st = snd (add_blob sample_host (config sample_env) (Some blob_ref) content (index sv))"
proof -
  obtain res st where add: "add_blob (host sample_env) (config sample_env) (Some blob_ref) content (index sv) = (res, st)" by fastforce
  moreover obtain r where "res = Inr r"
    using add_blob_failure [of "host sample_env" "config sample_env" "Some blob_ref" content "index sv"] add assms sample_env_ok(3)
    by (cases res) (auto simp: writable_def)
  ultimately have "daemon_step sample_env classic (Fetched blob_ref content) (Running sv) (Running (sv\<lparr>index := st\<rparr>))"
    by (simp add: daemon_step.fetched)
  moreover have "host sample_env = sample_host" by (simp add: sample_env_def)
  ultimately show ?thesis using add by (metis snd_conv)
qed

section \<open>Properties\<close>



text \<open>
  C26. What is served under a SHA-256 reference never changes: from any well-formed state of the daemon, whatever clients
  upload and peers send, in any interleaving, a content that is there under a \<^verbatim>\<open>sha256\<close> key stays there as it is, for as long as
  the daemon runs.
\<close>

theorem served_content_stays:
  assumes "daemon_ok env (Running sv)" and "daemon_steps env classic (Running sv) (Running sv')"
    and "contents (index sv) (BlobKey ''sha256'' d) = Some c"
  shows "contents (index sv') (BlobKey ''sha256'' d) = Some c"
proof -
  have "(index_step (host env) (config env))\<^sup>*\<^sup>* (index sv) (index sv')"
    using daemon_steps_index [OF assms(2)] assms(1) by simp
  moreover have "index_ok (host env) (config env) (index sv)" using assms(1) by (simp add: server_ok_def)
  ultimately show ?thesis using assms(3) by (rule sha256_content_immutable)
qed

theorem served_content_stays_witness:
  "contents (snd (add_blob sample_host (config sample_env) (Some (blobref (key_for sample_host ''other'' sha1))) ''other'' sample_store))
     (BlobKey ''sha256'' (sample_digest 64 ''hi'')) = Some ''hi''"
proof -
  let ?sv = "\<lparr>index = sample_store, connections = []\<rparr>"
  let ?ref = "blobref (key_for sample_host ''other'' sha1)"
  have dir: "blob_path (config sample_env) d = blob_path Config_default d" for d
    by (simp add: sample_env_def blob_path_def blob_directory_def Config_default_def)
  have "index_ok sample_host Config_default sample_store" "files_ok sample_host Config_default sample_store"
    using reachable_inv [OF reachable_sample_store] by simp_all
  then have "daemon_ok sample_env (Running ?sv)"
    by (simp add: server_ok_def index_ok_def files_ok_def entry_ok_def dir) (simp add: sample_env_def)
  moreover obtain st where st: "daemon_step sample_env spirit_engine (Fetched ?ref ''other'') (Running ?sv) (Running (?sv\<lparr>index := st\<rparr>))"
      "st = snd (add_blob sample_host (config sample_env) (Some ?ref) ''other'' (index ?sv))"
    using sample_fetch [of "''other''"] by blast
  from st(1) have "daemon_steps sample_env spirit_engine (Running ?sv) (Running (?sv\<lparr>index := st\<rparr>))" by blast
  moreover have "contents (index ?sv) (BlobKey ''sha256'' (sample_digest 64 ''hi'')) = Some ''hi''" by simp code_simp
  ultimately have "contents (index (?sv\<lparr>index := st\<rparr>)) (BlobKey ''sha256'' (sample_digest 64 ''hi'')) = Some ''hi''"
    by (rule served_content_stays)
  then show ?thesis by (simp add: st(2))
qed

text \<open>
  C33. What the daemon was told to load it serves: when it starts with a directory of files to load, none of them empty nor
  the file of a blob, whose contents do not collide (in their digests, which are of the bytes up to the first NUL, among
  them or with the file of their digest), on a platform that lets it write and bind its address, it comes up, and a GET,
  without compression, of the SHA-1 or the SHA-256 reference of any loaded file's content answers 200 with exactly that
  content. Two files that agree up to a NUL do collide.
\<close>

theorem daemon_serves_loaded:
  assumes "main_config vm = Some cfg" and "env = env0\<lparr>config := cfg\<rparr>" and "debug_load L"
    and "dir_entries L (case opt_load_directory L of Some d \<Rightarrow> d | None \<Rightarrow> []) = Some v"
    and "plain_paths env" and "writable env" and "binds L cfg"
    and "\<forall>path \<in> set v. outside env path" and "\<forall>d. index_file L \<noteq> blob_path (config env) d"
    and "[] \<notin> set (loaded L (empty_store fs) v)" and "storable env (loaded L (empty_store fs) v) (empty_store fs)"
    and "x \<in> set (loaded L (empty_store fs) v)"
    and "req_method down = ''GET''" and "req_uri down = ''/'' @ blobref (key_for (host env) x t)"
    and "output_type_for (handler_get_header (req_headers down) ''Accept-Encoding'') = None"
  shows "\<exists>st. daemon_main env0 L vm fs = Some (env, Running \<lparr>index = st, connections = []\<rparr>) \<and>
    handle_request env down (fresh_reply s) st = (Inr (octet_reply x), st)"
proof -
  have start: "index_ok (host env) (config env) (empty_store fs)" "backed (empty_store fs)"
    by (simp_all add: index_ok_def backed_def empty_store_def)
  from load_files_contents [OF assms(6) start assms(8,10,11)] obtain st1 where st1:
      "load_files env L v (empty_store fs) = (None, st1)" "index_ok (host env) (config env) st1"
      "contents st1 = fold (abs_store (host env)) (loaded L (empty_store fs) v) (contents (empty_store fs))"
    by blast
  obtain st where save: "save_blob_index env L (index_file L) st1 = Inr st"
    using assms(6) by (simp add: save_blob_index_def writable_def)
  note st = save_blob_index_keeps [OF save assms(9) st1(2)]
  have main: "daemon_main env0 L vm fs = Some (env, Running \<lparr>index = st, connections = []\<rparr>)"
    using assms(1,3,4,7) st1(1) save unfolding daemon_main_def assms(2) by (simp add: debug_load_files_def)
  have "contents st (key_for (host env) x t) = Some x"
    unfolding st(3) st1(3) by (rule contents_uploaded [OF assms(12) storable_keys [OF assms(11)]])
  moreover have "create_blob_key (blobref (key_for (host env) x t)) = Some (key_for (host env) x t)"
    by (rule create_blob_key_keys_of [OF key_for_in_keys_of])
  moreover have "hex_digests (host env)" using assms(5) by (simp add: plain_paths_def)
  ultimately have "handle_request env down (fresh_reply s) st = (Inr (octet_reply x), st)"
    using handle_get_contents [OF assms(5) st(1) _ assms(15)]
    by (simp add: handle_request_blob [OF _ assms(14)] assms(13,14) del: key_for.simps append.simps)
  with main show ?thesis by blast
qed

theorem daemon_serves_loaded_witness:
  "\<exists>st. daemon_main sample_env sample_launcher no_options sample_files = Some (sample_env, Running \<lparr>index = st, connections = []\<rparr>) \<and>
     handle_request sample_env (simple_request ''GET'' (''/'' @ blobref (key_for (host sample_env) ''hi'' sha256)) [] []) (fresh_reply ok) st =
       (Inr (octet_reply ''hi''), st)"
  by (rule daemon_serves_loaded [OF sample_config, where v = "[''/in/a'']" and L = sample_launcher and fs = sample_files and t = sha256])
    (use sample_env_ok(2,3) sample_paths sample_loaded sample_storable in
      \<open>simp_all add: simple_request_def handler_get_header_def output_type_for_def\<close>, simp_all add: sample_launcher_def)

text \<open>An empty file among those to load ends the daemon before it serves anything.\<close>

theorem empty_file_aborts_start:
  assumes "main_config vm = Some cfg" and "debug_load L"
    and "dir_entries L (case opt_load_directory L of Some d \<Rightarrow> d | None \<Rightarrow> []) = Some (path # v)"
    and "regular_file L path" and "fs (c_str path) = Some []"
  shows "daemon_main env0 L vm fs = Some (env0\<lparr>config := cfg\<rparr>, Terminated Assertion_failed)"
  using assms
  by (simp add: daemon_main_def debug_load_files_def load_file_eq read_file_def empty_store_def add_blob_def add_blob_types_def)

end
