(* ===== verification/Zopfli_Util.thy ===== *)
theory Zopfli_Util
  imports Prelude
begin

text \<open>
  Utilities of the compressor (\<^verbatim>\<open>util.h\<close>, \<^verbatim>\<open>util.cc\<close>): the DEFLATE symbols of lengths and distances with
  their extra bits. The distance functions have two versions in the source, one for compilers with
  \<^verbatim>\<open>__builtin_clz\<close> and a portable one; both are here.
\<close>

unbundle bit_operations_syntax

section \<open>Limits\<close>

definition ZOPFLI_MAX_MATCH :: nat where "ZOPFLI_MAX_MATCH = 258"
definition ZOPFLI_MIN_MATCH :: nat where "ZOPFLI_MIN_MATCH = 3"
definition ZOPFLI_WINDOW_SIZE :: nat where "ZOPFLI_WINDOW_SIZE = 32768"
definition ZOPFLI_WINDOW_MASK :: nat where "ZOPFLI_WINDOW_MASK = ZOPFLI_WINDOW_SIZE - 1"
definition ZOPFLI_MASTER_BLOCK_SIZE :: nat where "ZOPFLI_MASTER_BLOCK_SIZE = 20000000"
definition ZOPFLI_CACHE_LENGTH :: nat where "ZOPFLI_CACHE_LENGTH = 8"
definition ZOPFLI_MAX_CHAIN_HITS :: int where "ZOPFLI_MAX_CHAIN_HITS = 8192"

section \<open>Distances\<close>

text \<open>\<^verbatim>\<open>__builtin_clz\<close>: the number of leading zero bits of a positive 32-bit number.\<close>

definition builtin_clz :: "int \<Rightarrow> nat" where
  "builtin_clz x = length (takeWhile (\<lambda>i. \<not> bit x i) (rev [0..<32]))"

definition log2_clz :: "int \<Rightarrow> nat" where
  "log2_clz x = 31 XOR builtin_clz x"

definition ZopfliGetDistExtraBits :: "int \<Rightarrow> int" where
  "ZopfliGetDistExtraBits dist = (if dist < 5 then 0 else int (log2_clz (dist - 1)) - 1)"

definition ZopfliGetDistExtraBitsValue :: "int \<Rightarrow> int" where
  "ZopfliGetDistExtraBitsValue dist =
     (if dist < 5 then 0
      else let l = log2_clz (dist - 1)
           in (dist - (1 + push_bit l 1)) AND (push_bit (l - 1) 1 - 1))"

definition ZopfliGetDistSymbol :: "int \<Rightarrow> int" where
  "ZopfliGetDistSymbol dist =
     (if dist < 5 then dist - 1
      else let l = log2_clz (dist - 1);
               r = drop_bit (l - 1) (dist - 1) AND 1
           in int l * 2 + r)"

text \<open>The portable versions.\<close>

definition DistExtraBits_portable :: "int \<Rightarrow> int" where
  "DistExtraBits_portable dist =
     (if dist < 5 then 0
      else if dist < 9 then 1
      else if dist < 17 then 2
      else if dist < 33 then 3
      else if dist < 65 then 4
      else if dist < 129 then 5
      else if dist < 257 then 6
      else if dist < 513 then 7
      else if dist < 1025 then 8
      else if dist < 2049 then 9
      else if dist < 4097 then 10
      else if dist < 8193 then 11
      else if dist < 16385 then 12
      else 13)"

definition DistExtraBitsValue_portable :: "int \<Rightarrow> int" where
  "DistExtraBitsValue_portable dist =
     (if dist < 5 then 0
      else if dist < 9 then (dist - 5) AND 1
      else if dist < 17 then (dist - 9) AND 3
      else if dist < 33 then (dist - 17) AND 7
      else if dist < 65 then (dist - 33) AND 15
      else if dist < 129 then (dist - 65) AND 31
      else if dist < 257 then (dist - 129) AND 63
      else if dist < 513 then (dist - 257) AND 127
      else if dist < 1025 then (dist - 513) AND 255
      else if dist < 2049 then (dist - 1025) AND 511
      else if dist < 4097 then (dist - 2049) AND 1023
      else if dist < 8193 then (dist - 4097) AND 2047
      else if dist < 16385 then (dist - 8193) AND 4095
      else (dist - 16385) AND 8191)"

definition DistSymbol_portable :: "int \<Rightarrow> int" where
  "DistSymbol_portable dist =
     (if dist < 193 then
        if dist < 13 then
          if dist < 5 then dist - 1
          else if dist < 7 then 4
          else if dist < 9 then 5
          else 6
        else
          if dist < 17 then 7
          else if dist < 25 then 8
          else if dist < 33 then 9
          else if dist < 49 then 10
          else if dist < 65 then 11
          else if dist < 97 then 12
          else if dist < 129 then 13
          else 14
      else
        if dist < 2049 then
          if dist < 257 then 15
          else if dist < 385 then 16
          else if dist < 513 then 17
          else if dist < 769 then 18
          else if dist < 1025 then 19
          else if dist < 1537 then 20
          else 21
        else
          if dist < 3073 then 22
          else if dist < 4097 then 23
          else if dist < 6145 then 24
          else if dist < 8193 then 25
          else if dist < 12289 then 26
          else if dist < 16385 then 27
          else if dist < 24577 then 28
          else 29)"

section \<open>Lengths\<close>

definition length_extra_table :: "nat list" where
  "length_extra_table =
     [0, 0, 0, 0, 0, 0, 0, 0, 0, 0, 0, 1, 1, 1, 1, 1, 1, 1, 1, 2, 2, 2, 2, 2,
      2, 2, 2, 2, 2, 2, 2, 2, 2, 2, 2, 3, 3, 3, 3, 3, 3, 3, 3, 3, 3, 3, 3, 3,
      3, 3, 3, 3, 3, 3, 3, 3, 3, 3, 3, 3, 3, 3, 3, 3, 3, 3, 3, 4, 4, 4, 4, 4,
      4, 4, 4, 4, 4, 4, 4, 4, 4, 4, 4, 4, 4, 4, 4, 4, 4, 4, 4, 4, 4, 4, 4, 4,
      4, 4, 4, 4, 4, 4, 4, 4, 4, 4, 4, 4, 4, 4, 4, 4, 4, 4, 4, 4, 4, 4, 4, 4,
      4, 4, 4, 4, 4, 4, 4, 4, 4, 4, 4, 5, 5, 5, 5, 5, 5, 5, 5, 5, 5, 5, 5, 5,
      5, 5, 5, 5, 5, 5, 5, 5, 5, 5, 5, 5, 5, 5, 5, 5, 5, 5, 5, 5, 5, 5, 5, 5,
      5, 5, 5, 5, 5, 5, 5, 5, 5, 5, 5, 5, 5, 5, 5, 5, 5, 5, 5, 5, 5, 5, 5, 5,
      5, 5, 5, 5, 5, 5, 5, 5, 5, 5, 5, 5, 5, 5, 5, 5, 5, 5, 5, 5, 5, 5, 5, 5,
      5, 5, 5, 5, 5, 5, 5, 5, 5, 5, 5, 5, 5, 5, 5, 5, 5, 5, 5, 5, 5, 5, 5, 5,
      5, 5, 5, 5, 5, 5, 5, 5, 5, 5, 5, 5, 5, 5, 5, 5, 5, 5, 0]"

definition length_value_table :: "nat list" where
  "length_value_table =
     [0, 0, 0, 0, 0, 0, 0, 0, 0, 0, 0, 0, 1, 0, 1, 0, 1, 0, 1, 0, 1, 2, 3, 0,
      1, 2, 3, 0, 1, 2, 3, 0, 1, 2, 3, 0, 1, 2, 3, 4, 5, 6, 7, 0, 1, 2, 3, 4,
      5, 6, 7, 0, 1, 2, 3, 4, 5, 6, 7, 0, 1, 2, 3, 4, 5, 6, 7, 0, 1, 2, 3, 4,
      5, 6, 7, 8, 9, 10, 11, 12, 13, 14, 15, 0, 1, 2, 3, 4, 5, 6, 7, 8, 9, 10, 11, 12,
      13, 14, 15, 0, 1, 2, 3, 4, 5, 6, 7, 8, 9, 10, 11, 12, 13, 14, 15, 0, 1, 2, 3, 4,
      5, 6, 7, 8, 9, 10, 11, 12, 13, 14, 15, 0, 1, 2, 3, 4, 5, 6, 7, 8, 9, 10, 11, 12,
      13, 14, 15, 16, 17, 18, 19, 20, 21, 22, 23, 24, 25, 26, 27, 28, 29, 30, 31, 0, 1, 2, 3, 4,
      5, 6, 7, 8, 9, 10, 11, 12, 13, 14, 15, 16, 17, 18, 19, 20, 21, 22, 23, 24, 25, 26, 27, 28,
      29, 30, 31, 0, 1, 2, 3, 4, 5, 6, 7, 8, 9, 10, 11, 12, 13, 14, 15, 16, 17, 18, 19, 20,
      21, 22, 23, 24, 25, 26, 27, 28, 29, 30, 31, 0, 1, 2, 3, 4, 5, 6, 7, 8, 9, 10, 11, 12,
      13, 14, 15, 16, 17, 18, 19, 20, 21, 22, 23, 24, 25, 26, 27, 28, 29, 30, 0]"

definition length_symbol_table :: "nat list" where
  "length_symbol_table =
     [0, 0, 0, 257, 258, 259, 260, 261, 262, 263, 264, 265, 265, 266, 266, 267,
      267, 268, 268, 269, 269, 269, 269, 270, 270, 270, 270, 271, 271, 271, 271, 272,
      272, 272, 272, 273, 273, 273, 273, 273, 273, 273, 273, 274, 274, 274, 274, 274,
      274, 274, 274, 275, 275, 275, 275, 275, 275, 275, 275, 276, 276, 276, 276, 276,
      276, 276, 276, 277, 277, 277, 277, 277, 277, 277, 277, 277, 277, 277, 277, 277,
      277, 277, 277, 278, 278, 278, 278, 278, 278, 278, 278, 278, 278, 278, 278, 278,
      278, 278, 278, 279, 279, 279, 279, 279, 279, 279, 279, 279, 279, 279, 279, 279,
      279, 279, 279, 280, 280, 280, 280, 280, 280, 280, 280, 280, 280, 280, 280, 280,
      280, 280, 280, 281, 281, 281, 281, 281, 281, 281, 281, 281, 281, 281, 281, 281,
      281, 281, 281, 281, 281, 281, 281, 281, 281, 281, 281, 281, 281, 281, 281, 281,
      281, 281, 281, 282, 282, 282, 282, 282, 282, 282, 282, 282, 282, 282, 282, 282,
      282, 282, 282, 282, 282, 282, 282, 282, 282, 282, 282, 282, 282, 282, 282, 282,
      282, 282, 282, 283, 283, 283, 283, 283, 283, 283, 283, 283, 283, 283, 283, 283,
      283, 283, 283, 283, 283, 283, 283, 283, 283, 283, 283, 283, 283, 283, 283, 283,
      283, 283, 283, 284, 284, 284, 284, 284, 284, 284, 284, 284, 284, 284, 284, 284,
      284, 284, 284, 284, 284, 284, 284, 284, 284, 284, 284, 284, 284, 284, 284, 284,
      284, 284, 285]"

definition ZopfliGetLengthExtraBits :: "nat \<Rightarrow> nat" where
  "ZopfliGetLengthExtraBits l = length_extra_table ! l"

definition ZopfliGetLengthExtraBitsValue :: "nat \<Rightarrow> nat" where
  "ZopfliGetLengthExtraBitsValue l = length_value_table ! l"

definition ZopfliGetLengthSymbol :: "nat \<Rightarrow> nat" where
  "ZopfliGetLengthSymbol l = length_symbol_table ! l"

section \<open>What the format says\<close>

text \<open>
  The tables of RFC 1951, section 3.2.5: the first length or distance of each symbol and the number of
  extra bits that follow it.
\<close>

definition rfc_length_base :: "nat list" where
  "rfc_length_base =
     [3, 4, 5, 6, 7, 8, 9, 10, 11, 13, 15, 17, 19, 23, 27, 31, 35, 43, 51, 59, 67, 83, 99, 115, 131,
      163, 195, 227, 258]"

definition rfc_length_extra :: "nat list" where
  "rfc_length_extra =
     [0, 0, 0, 0, 0, 0, 0, 0, 1, 1, 1, 1, 2, 2, 2, 2, 3, 3, 3, 3, 4, 4, 4, 4, 5, 5, 5, 5, 0]"

definition rfc_dist_base :: "nat list" where
  "rfc_dist_base =
     [1, 2, 3, 4, 5, 7, 9, 13, 17, 25, 33, 49, 65, 97, 129, 193, 257, 385, 513, 769, 1025, 1537, 2049,
      3073, 4097, 6145, 8193, 12289, 16385, 24577]"

definition rfc_dist_extra :: "nat list" where
  "rfc_dist_extra =
     [0, 0, 0, 0, 1, 1, 2, 2, 3, 3, 4, 4, 5, 5, 6, 6, 7, 7, 8, 8, 9, 9, 10, 10, 11, 11, 12, 12, 13, 13]"

section \<open>Symbols decode\<close>

definition length_row_ok :: "nat \<Rightarrow> nat \<Rightarrow> nat \<Rightarrow> nat \<Rightarrow> bool" where
  "length_row_ok l s e v \<longleftrightarrow>
     257 \<le> s \<and> s \<le> 285 \<and> e = rfc_length_extra ! (s - 257) \<and> v < 2 ^ e \<and> rfc_length_base ! (s - 257) + v = l"

fun length_rows_ok :: "nat \<Rightarrow> nat list \<Rightarrow> nat list \<Rightarrow> nat list \<Rightarrow> bool" where
  "length_rows_ok l (s # ss) (e # es) (v # vs) = ((l < 3 \<or> length_row_ok l s e v) \<and> length_rows_ok (l + 1) ss es vs)"
| "length_rows_ok l _ _ _ = True"

lemma length_rows_okD:
  assumes "length_rows_ok l ss es vs" and "i < length ss" and "i < length es" and "i < length vs" and "3 \<le> l + i"
  shows "length_row_ok (l + i) (ss ! i) (es ! i) (vs ! i)"
  using assms
proof (induction l ss es vs arbitrary: i rule: length_rows_ok.induct)
  case (1 l s ss e es v vs)
  then show ?case by (cases i) (simp_all add: Let_def)
qed simp_all

lemma length_tables_ok: "length_rows_ok 0 length_symbol_table length_extra_table length_value_table"
  by (simp add: length_symbol_table_def length_extra_table_def length_value_table_def length_row_ok_def
      rfc_length_extra_def rfc_length_base_def)

lemma length_symbol_row:
  assumes "3 \<le> l" and "l \<le> 258"
  shows "length_row_ok l (ZopfliGetLengthSymbol l) (ZopfliGetLengthExtraBits l) (ZopfliGetLengthExtraBitsValue l)"
proof -
  have "length length_symbol_table = 259" "length length_extra_table = 259" "length length_value_table = 259"
    by (simp_all add: length_symbol_table_def length_extra_table_def length_value_table_def)
  with length_rows_okD [OF length_tables_ok, of l] assms show ?thesis
    by (simp add: ZopfliGetLengthSymbol_def ZopfliGetLengthExtraBits_def ZopfliGetLengthExtraBitsValue_def)
qed

lemma bit_high:
  assumes "x < 2 ^ Suc l" and "0 \<le> x" and "l < i"
  shows "\<not> bit (x :: int) i"
proof -
  have "x < 2 ^ i" using assms by (meson Suc_leI less_le_trans power_increasing one_le_numeral)
  then show ?thesis using assms(2) by (simp add: bit_iff_odd)
qed

lemma log2_clz:
  assumes "2 ^ l \<le> x" and "x < 2 ^ Suc l" and "l < 32"
  shows "log2_clz x = l"
proof -
  have nonneg: "0 \<le> x" using assms(1) by (meson order_trans zero_le_numeral zero_le_power)
  have "x div 2 ^ l = 1"
    using assms(1,2) by (intro int_div_pos_eq [where r = "x - 2 ^ l"]) simp_all
  then have "bit x l" by (simp add: bit_iff_odd)
  moreover have "rev [0..<32] = rev [Suc l..<32] @ l # rev [0..<l]"
  proof -
    have "[0..<32] = [0..<l] @ l # [Suc l..<32]"
      using assms(3) upt_add_eq_append [of 0 l "32 - l"] by (simp add: upt_conv_Cons)
    then show ?thesis by simp
  qed
  moreover have "\<forall>i \<in> set (rev [Suc l..<32]). \<not> bit x i"
    using bit_high [OF assms(2) nonneg] by simp
  ultimately have "builtin_clz x = 31 - l"
    unfolding builtin_clz_def by (simp add: takeWhile_append)
  moreover have "31 XOR (31 - l) = l" if "l < 32" for l :: nat
  proof -
    have "list_all (\<lambda>l. 31 XOR (31 - l) = (l :: nat)) [0..<32]" by (simp add: upt_rec)
    with that show ?thesis by (simp add: list_all_iff)
  qed
  ultimately show ?thesis using assms(3) by (simp add: log2_clz_def)
qed

lemma dist_log:
  assumes "5 \<le> dist" and "dist \<le> 32768"
  obtains l :: nat where "2 \<le> l" and "l \<le> 14" and "2 ^ l \<le> dist - 1" and "dist - 1 < (2 ^ Suc l :: int)"
    and "log2_clz (dist - 1) = l"
proof -
  have "\<exists>l. 2 \<le> l \<and> l \<le> 14 \<and> 2 ^ l \<le> dist - 1 \<and> dist - 1 < (2 ^ Suc l :: int)"
  proof -
    define l where "l = (LEAST l. dist - 1 < (2 ^ Suc l :: int))"
    have "dist - 1 < (2 ^ Suc 14 :: int)" using assms by simp
    then have l: "dist - 1 < (2 ^ Suc l :: int)" "l \<le> 14"
      unfolding l_def by (rule LeastI, rule Least_le)
    have "2 ^ l \<le> dist - 1"
    proof (cases l)
      case (Suc m)
      then have "\<not> dist - 1 < (2 ^ Suc m :: int)" unfolding l_def using not_less_Least by (metis lessI)
      with Suc show ?thesis by simp
    qed (use assms in simp)
    moreover have "2 \<le> l"
    proof (rule ccontr)
      assume "\<not> 2 \<le> l"
      then have "(2 ^ Suc l :: int) \<le> 2 ^ 2" by (intro power_increasing) auto
      with l(1) assms(1) show False by simp
    qed
    ultimately show ?thesis using l by blast
  qed
  then obtain l where "2 \<le> l" "l \<le> 14" "2 ^ l \<le> dist - 1" "dist - 1 < (2 ^ Suc l :: int)" by blast
  moreover from this have "log2_clz (dist - 1) = l" by (intro log2_clz) simp_all
  ultimately show ?thesis by (rule that)
qed

text \<open>The distance functions in terms of the binary logarithm \<open>l\<close> of the distance less one.\<close>

lemma dist_functions:
  assumes "5 \<le> dist" and "2 \<le> l" and "2 ^ l \<le> dist - 1" and "dist - 1 < (2 ^ Suc l :: int)"
    and log: "log2_clz (dist - 1) = l"
  shows "ZopfliGetDistExtraBits dist = int l - 1"
    and "ZopfliGetDistExtraBitsValue dist = (dist - 1) mod 2 ^ (l - 1)"
    and "ZopfliGetDistSymbol dist = 2 * int l + ((dist - 1) div 2 ^ (l - 1)) mod 2"
proof -
  show "ZopfliGetDistExtraBits dist = int l - 1"
    using assms by (simp add: ZopfliGetDistExtraBits_def)
  have "(dist - (1 + push_bit l 1)) AND (push_bit (l - 1) 1 - 1) = (dist - 1 - 2 ^ l) mod 2 ^ (l - 1)"
    using take_bit_eq_mask [of "l - 1" "dist - 1 - 2 ^ l"]
    by (simp add: push_bit_eq_mult mask_eq_exp_minus_1 take_bit_eq_mod algebra_simps)
  also have "\<dots> = (dist - 1) mod 2 ^ (l - 1)"
  proof -
    have "(2 ^ l :: int) = 2 ^ (l - 1) * 2" using assms(2) by (cases l) simp_all
    then show ?thesis by (metis minus_mod_self2 mod_diff_right_eq mod_mult_self1_is_0 diff_zero)
  qed
  finally show "ZopfliGetDistExtraBitsValue dist = (dist - 1) mod 2 ^ (l - 1)"
    using assms by (simp add: ZopfliGetDistExtraBitsValue_def Let_def)
  show "ZopfliGetDistSymbol dist = 2 * int l + ((dist - 1) div 2 ^ (l - 1)) mod 2"
    using assms(1) by (simp add: ZopfliGetDistSymbol_def log Let_def drop_bit_eq_div and_one_eq)
qed

lemma and_mask_mod: "(x :: int) AND (2 ^ n - 1) = x mod 2 ^ n"
  by (simp add: take_bit_eq_mod flip: take_bit_eq_mask mask_eq_exp_minus_1)

lemmas and_masks =
  and_mask_mod [where n = 1, simplified] and_mask_mod [where n = 2, simplified] and_mask_mod [where n = 3, simplified]
  and_mask_mod [where n = 4, simplified] and_mask_mod [where n = 5, simplified] and_mask_mod [where n = 6, simplified]
  and_mask_mod [where n = 7, simplified] and_mask_mod [where n = 8, simplified] and_mask_mod [where n = 9, simplified]
  and_mask_mod [where n = 10, simplified] and_mask_mod [where n = 11, simplified] and_mask_mod [where n = 12, simplified]
  and_mask_mod [where n = 13, simplified]

lemma less_cases_14:
  assumes "2 \<le> l" and "l \<le> (14 :: nat)"
  shows "l \<in> {2, 3, 4, 5, 6, 7, 8, 9, 10, 11, 12, 13, 14}"
  using assms by (simp, presburger)

lemma second_bit:
  assumes "2 \<le> l" and "2 ^ l \<le> x" and "x < (2 ^ Suc l :: int)"
  shows "(x div 2 ^ (l - 1)) mod 2 = (if x < 3 * 2 ^ (l - 1) then 0 else 1)"
proof -
  obtain m where l: "l = Suc m" using assms(1) by (cases l) simp_all
  have "x div 2 ^ m = (if x < 3 * 2 ^ m then 2 else 3)"
    using assms(2,3) l
    by (auto intro: int_div_pos_eq [where r = "x - 2 * 2 ^ m"] int_div_pos_eq [where r = "x - 3 * 2 ^ m"])
  then show ?thesis by (simp add: l)
qed

lemma portable_functions:
  assumes "5 \<le> dist" and "2 \<le> l" and "l \<le> 14" and "2 ^ l \<le> dist - 1" and "dist - 1 < (2 ^ Suc l :: int)"
  shows "DistExtraBits_portable dist = int l - 1"
    and "DistExtraBitsValue_portable dist = (dist - 1) mod 2 ^ (l - 1)"
    and "DistSymbol_portable dist = 2 * int l + ((dist - 1) div 2 ^ (l - 1)) mod 2"
proof -
  note l = less_cases_14 [OF assms(2,3)]
  show "DistExtraBits_portable dist = int l - 1"
    using l assms(4,5) by (auto simp: DistExtraBits_portable_def)
  have "DistExtraBitsValue_portable dist = (dist - 1 - 2 ^ l) mod 2 ^ (l - 1)"
    using l assms(4,5) by (auto simp: DistExtraBitsValue_portable_def and_masks)
  also have "\<dots> = (dist - 1) mod 2 ^ (l - 1)"
  proof -
    have "(2 ^ l :: int) = 2 ^ (l - 1) * 2" using assms(2) by (cases l) simp_all
    then show ?thesis by (metis minus_mod_self2 mod_diff_right_eq mod_mult_self1_is_0 diff_zero)
  qed
  finally show "DistExtraBitsValue_portable dist = (dist - 1) mod 2 ^ (l - 1)" .
  show "DistSymbol_portable dist = 2 * int l + ((dist - 1) div 2 ^ (l - 1)) mod 2"
    unfolding second_bit [OF assms(2,4,5)] using l assms(4,5)
    by (elim insertE emptyE; simp add: DistSymbol_portable_def)
qed

text \<open>The symbol and extra bits of a distance, as the format reads them back.\<close>

lemma rfc_dist_tables:
  assumes "2 \<le> l" and "l \<le> (14 :: nat)"
  shows "rfc_dist_base ! (2 * l) = 1 + 2 ^ l" "rfc_dist_base ! (2 * l + 1) = 1 + 3 * 2 ^ (l - 1)"
    "rfc_dist_extra ! (2 * l) = l - 1" "rfc_dist_extra ! (2 * l + 1) = l - 1"
  using less_cases_14 [OF assms] by (auto simp: rfc_dist_base_def rfc_dist_extra_def)

definition dist_row_ok :: "nat \<Rightarrow> nat \<Rightarrow> nat \<Rightarrow> nat \<Rightarrow> bool" where
  "dist_row_ok d s e v \<longleftrightarrow> s < 30 \<and> e = rfc_dist_extra ! s \<and> v < 2 ^ e \<and> rfc_dist_base ! s + v = d"

lemma dist_symbol_row:
  assumes "1 \<le> d" and "d \<le> 32768"
  shows "0 \<le> ZopfliGetDistSymbol (int d) \<and> 0 \<le> ZopfliGetDistExtraBits (int d) \<and> 0 \<le> ZopfliGetDistExtraBitsValue (int d) \<and>
    dist_row_ok d (nat (ZopfliGetDistSymbol (int d))) (nat (ZopfliGetDistExtraBits (int d)))
      (nat (ZopfliGetDistExtraBitsValue (int d)))"
proof (cases "d < 5")
  case True
  with assms have "d = 1 \<or> d = 2 \<or> d = 3 \<or> d = 4" by auto
  then show ?thesis
    by (auto simp: ZopfliGetDistSymbol_def ZopfliGetDistExtraBits_def ZopfliGetDistExtraBitsValue_def
        dist_row_ok_def rfc_dist_extra_def rfc_dist_base_def)
next
  case False
  with assms obtain l where l: "2 \<le> l" "l \<le> 14" "2 ^ l \<le> int d - 1" "int d - 1 < 2 ^ Suc l"
      "log2_clz (int d - 1) = l"
    using dist_log [of "int d"] by auto
  define x where "x = int d - 1"
  have "5 \<le> int d" using False by simp
  note f = dist_functions [OF this l(1,3,4,5)] second_bit [OF l(1,3,4)]
  have xl: "2 ^ l = 2 * (2 ^ (l - 1) :: int)" using l(1) by (cases l) simp_all
  have v: "x mod 2 ^ (l - 1) = (if x < 3 * 2 ^ (l - 1) then x - 2 ^ l else x - 3 * 2 ^ (l - 1))"
    using l(3,4) xl unfolding x_def by (auto intro: int_mod_pos_eq [where q = 2] int_mod_pos_eq [where q = 3])
  have bound: "x mod 2 ^ (l - 1) < 2 ^ (l - 1)" "0 \<le> x mod 2 ^ (l - 1)" by simp_all
  have e: "nat (int l - 1) = l - 1" by simp
  show ?thesis
  proof (cases "x < 3 * 2 ^ (l - 1)")
    case True
    have "nat (2 * int l + 0) = 2 * l" by simp
    moreover have "nat (x - 2 ^ l) < 2 ^ (l - 1)"
      using bound(1) unfolding v if_P [OF True] by (simp add: nat_less_iff)
    moreover have "1 + 2 ^ l + nat (x - 2 ^ l) = d"
      using l(3) by (simp add: x_def nat_diff_distrib' nat_power_eq le_nat_iff)
    ultimately show ?thesis
      using True l rfc_dist_tables [OF l(1,2)] f v bound by (simp add: dist_row_ok_def e flip: x_def)
  next
    case False
    have "nat (2 * int l + 1) = 2 * l + 1" by simp
    moreover have "nat (x - 3 * 2 ^ (l - 1)) < 2 ^ (l - 1)"
      using bound(1) unfolding v if_not_P [OF False] by (simp add: nat_less_iff)
    moreover have "1 + 3 * 2 ^ (l - 1) + nat (x - 3 * 2 ^ (l - 1)) = d"
      by (rule of_nat_eq_iff [where 'a = int, THEN iffD1]) (use False in \<open>simp add: x_def\<close>)
    ultimately show ?thesis
      using False l rfc_dist_tables [OF l(1,2)] f v bound by (simp add: dist_row_ok_def e flip: x_def)
  qed
qed

section \<open>Properties\<close>

text \<open>
  Lengths and distances are coded as the format decodes them: for every length from 3 to 258 and every
  distance up to 32768, the symbol is in range, the number of extra bits is the one of the format's
  table, and the table's base plus the extra value is the length or distance again.
\<close>

theorem symbols_decode:
  assumes "3 \<le> l" and "l \<le> 258" and "1 \<le> d" and "d \<le> 32768"
  shows "length_row_ok l (ZopfliGetLengthSymbol l) (ZopfliGetLengthExtraBits l) (ZopfliGetLengthExtraBitsValue l) \<and>
    dist_row_ok d (nat (ZopfliGetDistSymbol (int d))) (nat (ZopfliGetDistExtraBits (int d)))
      (nat (ZopfliGetDistExtraBitsValue (int d)))"
  using length_symbol_row [OF assms(1,2)] dist_symbol_row [OF assms(3,4)] by blast

theorem symbols_decode_witness:
  "length_row_ok 100 (ZopfliGetLengthSymbol 100) (ZopfliGetLengthExtraBits 100) (ZopfliGetLengthExtraBitsValue 100) \<and>
   dist_row_ok 20000 (nat (ZopfliGetDistSymbol 20000)) (nat (ZopfliGetDistExtraBits 20000))
     (nat (ZopfliGetDistExtraBitsValue 20000))"
  using symbols_decode [of 100 20000] by simp

text \<open>
  The two versions of the distance functions, with \<^verbatim>\<open>__builtin_clz\<close> and without, agree on every
  distance of the format.
\<close>

theorem dist_versions_agree:
  assumes "1 \<le> dist" and "dist \<le> 32768"
  shows "ZopfliGetDistExtraBits dist = DistExtraBits_portable dist \<and>
    ZopfliGetDistExtraBitsValue dist = DistExtraBitsValue_portable dist \<and>
    ZopfliGetDistSymbol dist = DistSymbol_portable dist"
proof (cases "dist < 5")
  case True
  then show ?thesis
    by (simp add: ZopfliGetDistExtraBits_def DistExtraBits_portable_def ZopfliGetDistExtraBitsValue_def
        DistExtraBitsValue_portable_def ZopfliGetDistSymbol_def DistSymbol_portable_def)
next
  case False
  then have "5 \<le> dist" by simp
  moreover from this assms(2) obtain l where "2 \<le> l" "l \<le> 14" "2 ^ l \<le> dist - 1" "dist - 1 < 2 ^ Suc l"
      "log2_clz (dist - 1) = l"
    by (rule dist_log)
  ultimately show ?thesis by (simp only: dist_functions portable_functions simp_thms)
qed

theorem dist_versions_agree_witness: "ZopfliGetDistSymbol 32768 = DistSymbol_portable 32768"
  using dist_versions_agree [of 32768] by simp

end
