(* ===== verification/Zopfli_Bits.thy ===== *)
theory Zopfli_Bits
  imports Zopfli_Util
begin

text \<open>
  The bit writer of the compressor (\<^verbatim>\<open>AddBit\<close>, \<^verbatim>\<open>AddBits\<close> and \<^verbatim>\<open>AddHuffmanBits\<close> of \<^verbatim>\<open>deflate.cc\<close>, and the
  append macro of \<^verbatim>\<open>util.h\<close>), and what it promises: a writer represents the sequence of bits
  written so far, least significant bit of each byte first.
\<close>

section \<open>Operations\<close>

type_synonym byte = "8 word"

text \<open>The bit pointer and the output array; \<^verbatim>\<open>outsize\<close> is the length of the array.\<close>

record writer =
  bp :: byte
  out :: "byte list"

definition new_writer :: writer where
  "new_writer = \<lparr>bp = 0, out = []\<rparr>"

text \<open>The array doubles its allocation as it grows, which does not show in its contents.\<close>

definition append_data :: "byte \<Rightarrow> writer \<Rightarrow> writer" where
  "append_data v w = w\<lparr>out := out w @ [v]\<rparr>"

definition AddBit :: "uint32 \<Rightarrow> writer \<Rightarrow> writer" where
  "AddBit b w =
     (let w = (if bp w AND 7 = 0 then append_data 0 w else w);
          i = length (out w) - 1
      in w\<lparr>out := (out w)[i := out w ! i OR ucast (push_bit (unat (bp w AND 7)) b)], bp := bp w + 1\<rparr>)"

text \<open>The loops over the bits of a symbol; each turn writes one bit the way \<^verbatim>\<open>AddBit\<close> does.\<close>

fun AddBits_loop :: "nat \<Rightarrow> nat \<Rightarrow> uint32 \<Rightarrow> writer \<Rightarrow> writer" where
  "AddBits_loop i 0 symbol w = w"
| "AddBits_loop i (Suc n) symbol w =
     AddBits_loop (i + 1) n symbol (AddBit (drop_bit i symbol AND 1) w)"

definition AddBits :: "uint32 \<Rightarrow> nat \<Rightarrow> writer \<Rightarrow> writer" where
  "AddBits symbol len w = AddBits_loop 0 len symbol w"

fun AddHuffmanBits_loop :: "nat \<Rightarrow> nat \<Rightarrow> uint32 \<Rightarrow> nat \<Rightarrow> writer \<Rightarrow> writer" where
  "AddHuffmanBits_loop i 0 symbol len w = w"
| "AddHuffmanBits_loop i (Suc n) symbol len w =
     AddHuffmanBits_loop (i + 1) n symbol len (AddBit (drop_bit (len - i - 1) symbol AND 1) w)"

definition AddHuffmanBits :: "uint32 \<Rightarrow> nat \<Rightarrow> writer \<Rightarrow> writer" where
  "AddHuffmanBits symbol len w = AddHuffmanBits_loop 0 len symbol len w"

section \<open>The bits a writer holds\<close>

definition byte_of :: "bool list \<Rightarrow> byte" where
  "byte_of bs = horner_sum of_bool 2 bs"

definition bits_of_byte :: "byte \<Rightarrow> bool list" where
  "bits_of_byte b = map (bit b) [0..<8]"

definition pack :: "bool list \<Rightarrow> byte list" where
  "pack bs = map (\<lambda>i. byte_of (take 8 (drop (8 * i) bs))) [0..<(length bs + 7) div 8]"

definition bits_of :: "byte list \<Rightarrow> bool list" where
  "bits_of bytes = concat (map bits_of_byte bytes)"

definition represents :: "writer \<Rightarrow> bool list \<Rightarrow> bool" where
  "represents w bs \<longleftrightarrow> out w = pack bs \<and> unat (bp w) mod 8 = length bs mod 8"

lemma bit_byte_of: "bit (byte_of bs) n \<longleftrightarrow> n < 8 \<and> n < length bs \<and> bs ! n"
  by (simp add: byte_of_def bit_horner_sum_bit_word_iff)

lemma bits_of_byte_of: "length bs = 8 \<Longrightarrow> bits_of_byte (byte_of bs) = bs"
  by (rule nth_equalityI) (simp_all add: bits_of_byte_def bit_byte_of)

lemma byte_of_bits: "byte_of (bits_of_byte b) = b"
  by (rule bit_word_eqI) (simp add: bit_byte_of bits_of_byte_def)

lemma length_bits_of_byte [simp]: "length (bits_of_byte b) = 8"
  by (simp add: bits_of_byte_def)

lemma length_pack [simp]: "length (pack bs) = (length bs + 7) div 8"
  by (simp add: pack_def)

lemma nth_pack: "i < (length bs + 7) div 8 \<Longrightarrow> pack bs ! i = byte_of (take 8 (drop (8 * i) bs))"
  by (simp add: pack_def)

lemma byte_of_snoc:
  assumes "length xs < 8"
  shows "byte_of xs OR ucast (push_bit (length xs) (of_bool b :: uint32)) = byte_of (xs @ [b])"
proof (rule bit_word_eqI)
  fix n
  assume "n < LENGTH(8)"
  then show "bit (byte_of xs OR ucast (push_bit (length xs) (of_bool b :: uint32))) n = bit (byte_of (xs @ [b])) n"
    using assms by (auto simp: bit_byte_of bit_simps nth_append)
qed

lemma and_7: "unat (x AND 7 :: byte) = unat x mod 8"
proof -
  have "x AND 7 = take_bit 3 x" by (simp add: take_bit_eq_mask mask_eq_exp_minus_1)
  then show ?thesis by (simp add: take_bit_eq_mod unat_mod_distrib)
qed

lemma bp_step: "unat (x + 1 :: byte) mod 8 = (unat x + 1) mod 8"
  by (simp add: unat_word_ariths mod_mod_cancel)

lemma and_7_zero: "x AND 7 = (0 :: byte) \<longleftrightarrow> unat x mod 8 = 0"
  by (metis and_7 unat_eq_zero)

lemma bytes_needed: "(n + 7) div 8 = n div 8 + (if n mod 8 = 0 then 0 else 1 :: nat)"
  by (simp, presburger)

lemma represents_AddBit:
  assumes "represents w bs"
  shows "represents (AddBit (of_bool b) w) (bs @ [b])"
proof -
  let ?k = "length bs div 8" and ?r = "length bs mod 8"
  have len: "length bs = 8 * ?k + ?r" by simp
  have w: "out w = pack bs" "unat (bp w) mod 8 = ?r" using assms by (simp_all add: represents_def)
  have newlen: "(length (bs @ [b]) + 7) div 8 = ?k + 1" by simp
  let ?old = "take 8 (drop (8 * ?k) bs)"
  have old: "length ?old = ?r" by (simp add: min_def minus_mult_div_eq_mod)
  have new: "take 8 (drop (8 * ?k) (bs @ [b])) = ?old @ [b]" using old by simp
  have low: "take 8 (drop (8 * i) (bs @ [b])) = take 8 (drop (8 * i) bs)" if "i < ?k" for i
    using that len by simp
  have out: "out (AddBit (of_bool b) w) = (if ?r = 0 then pack bs @ [0] else pack bs)
      [?k := (if ?r = 0 then 0 else byte_of ?old) OR ucast (push_bit ?r (of_bool b :: uint32))]"
  proof (cases "?r = 0")
    case True
    then show ?thesis using w by (simp add: AddBit_def append_data_def and_7_zero and_7 Let_def nth_append bytes_needed)
  next
    case False
    then have "length (pack bs) = ?k + 1" "length (pack bs) - 1 = ?k" "pack bs ! ?k = byte_of ?old"
      by (simp_all add: nth_pack bytes_needed)
    with False w show ?thesis by (simp add: AddBit_def and_7_zero and_7 Let_def)
  qed
  have "out (AddBit (of_bool b) w) = pack (bs @ [b])"
  proof (rule nth_equalityI)
    show "length (out (AddBit (of_bool b) w)) = length (pack (bs @ [b]))"
      unfolding out length_pack newlen by (simp add: bytes_needed)
    fix i
    assume "i < length (out (AddBit (of_bool b) w))"
    then have i: "i \<le> ?k" unfolding out by (simp add: bytes_needed split: if_splits)
    have "pack (bs @ [b]) ! i = byte_of (take 8 (drop (8 * i) (bs @ [b])))"
      using i by (intro nth_pack) (simp add: newlen)
    moreover have "out (AddBit (of_bool b) w) ! i = byte_of (take 8 (drop (8 * i) (bs @ [b])))"
    proof (cases "i = ?k")
      case True
      have "byte_of ?old OR ucast (push_bit ?r (of_bool b :: uint32)) = byte_of (?old @ [b])"
        using byte_of_snoc [of ?old b] old by simp
      moreover have "byte_of ?old = 0" if "?r = 0" using that old by (simp add: byte_of_def)
      ultimately show ?thesis unfolding out True new using old by (auto simp: byte_of_def)
    next
      case False
      with i have "i < ?k" by simp
      with low [OF this] show ?thesis unfolding out by (simp add: nth_append nth_pack bytes_needed)
    qed
    ultimately show "out (AddBit (of_bool b) w) ! i = pack (bs @ [b]) ! i" by simp
  qed
  moreover have "unat (bp (AddBit (of_bool b) w)) mod 8 = length (bs @ [b]) mod 8"
    using w(2) by (simp add: AddBit_def append_data_def Let_def bp_step) (metis mod_Suc_eq)
  ultimately show ?thesis by (simp add: represents_def)
qed

lemma represents_new: "represents new_writer []"
  by (simp add: represents_def new_writer_def pack_def)

text \<open>Bits of a number, least and most significant first.\<close>

definition lsb_bits :: "uint32 \<Rightarrow> nat \<Rightarrow> bool list" where
  "lsb_bits v n = map (bit v) [0..<n]"

definition msb_bits :: "uint32 \<Rightarrow> nat \<Rightarrow> bool list" where
  "msb_bits v n = rev (lsb_bits v n)"

lemma low_bit: "drop_bit i v AND 1 = (of_bool (bit v i) :: uint32)"
  by (rule bit_word_eqI) (auto simp: bit_simps)

lemma represents_AddBits:
  assumes "represents w bs"
  shows "represents (AddBits v n w) (bs @ lsb_bits v n)"
proof -
  have "represents (AddBits_loop i n v w) (bs @ map (bit v) [i..<i + n])" for i
    using assms
  proof (induction n arbitrary: i w bs)
    case (Suc n)
    have "[i..<i + Suc n] = i # [i + 1..<i + 1 + n]" by (simp add: upt_conv_Cons del: upt_Suc)
    with Suc.IH [OF represents_AddBit [OF Suc.prems, of "bit v i"], of "i + 1"] show ?case
      by (simp only: AddBits_loop.simps low_bit list.map append_assoc append_Cons append_Nil)
  qed simp
  from this [of 0] show ?thesis by (simp add: AddBits_def lsb_bits_def)
qed

lemma represents_AddHuffmanBits:
  assumes "represents w bs"
  shows "represents (AddHuffmanBits v n w) (bs @ msb_bits v n)"
proof -
  have "represents (AddHuffmanBits_loop i m v n w) (bs @ map (\<lambda>j. bit v (n - j - 1)) [i..<i + m])" for i m
    using assms
  proof (induction m arbitrary: i w bs)
    case (Suc m)
    have "[i..<i + Suc m] = i # [i + 1..<i + 1 + m]" by (simp add: upt_conv_Cons del: upt_Suc)
    with Suc.IH [OF represents_AddBit [OF Suc.prems, of "bit v (n - i - 1)"], of "i + 1"] show ?case
      by (simp only: AddHuffmanBits_loop.simps low_bit list.map append_assoc append_Cons append_Nil)
  qed simp
  moreover have "map (\<lambda>j. bit v (n - j - 1)) [0..<n] = msb_bits v n"
    by (rule nth_equalityI) (simp_all add: msb_bits_def lsb_bits_def rev_nth)
  ultimately show ?thesis by (metis AddHuffmanBits_def add_0)
qed

lemma length_lsb_bits [simp]: "length (lsb_bits v n) = n"
  and length_msb_bits [simp]: "length (msb_bits v n) = n"
  by (simp_all add: lsb_bits_def msb_bits_def)

text \<open>Starting a new byte, as stored blocks do: the rest of the last byte stays zero.\<close>

definition padding :: "nat \<Rightarrow> nat" where
  "padding n = (8 - n mod 8) mod 8"

lemma padding_total: "n + padding n = 8 * ((n + 7) div 8)"
proof -
  define q r where "q = n div 8" and "r = n mod 8"
  have n: "n = 8 * q + r" "r < 8" by (simp_all add: q_def r_def)
  show ?thesis
  proof (cases "r = 0")
    case False
    with n(2) have "(8 - r) mod 8 = 8 - r" "(8 * q + r + 7) div 8 = q + 1" by simp_all
    with n show ?thesis by (simp add: padding_def)
  qed (simp add: n padding_def)
qed

lemma represents_align:
  assumes "represents w bs"
  shows "represents (w\<lparr>bp := 0\<rparr>) (bs @ replicate (padding (length bs)) False)"
proof -
  let ?p = "padding (length bs)"
  have total: "(length bs + ?p) mod 8 = 0" and same: "(length bs + ?p + 7) div 8 = (length bs + 7) div 8"
    unfolding padding_total by simp_all
  have "byte_of (xs @ replicate m False) = byte_of xs" for xs m
    by (rule bit_word_eqI) (auto simp: bit_byte_of nth_append)
  then have "byte_of (take 8 (drop (8 * i) (bs @ replicate ?p False))) = byte_of (take 8 (drop (8 * i) bs))" for i
    by (simp add: min_def)
  then have "pack (bs @ replicate ?p False) = pack bs"
    by (simp add: pack_def same)
  with assms total show ?thesis by (simp add: represents_def)
qed

lemma pack_append_bytes:
  assumes "length bs mod 8 = 0"
  shows "pack (bs @ bits_of bytes) = pack bs @ bytes"
  using assms
proof (induction bytes arbitrary: bs)
  case Nil
  then show ?case by (simp add: bits_of_def)
next
  case (Cons b bytes)
  obtain q where q: "length bs = 8 * q" using Cons.prems by auto
  have step: "pack (bs @ bits_of_byte b) = pack bs @ [b]"
  proof (rule nth_equalityI)
    fix i
    assume "i < length (pack (bs @ bits_of_byte b))"
    then have i: "i < q + 1" using q by simp
    show "pack (bs @ bits_of_byte b) ! i = (pack bs @ [b]) ! i"
    proof (cases "i = q")
      case True
      with q show ?thesis by (simp add: nth_pack nth_append byte_of_bits)
    next
      case False
      with i have "i < q" by simp
      then have "8 * i + 8 \<le> 8 * q" by simp
      with q \<open>i < q\<close> show ?thesis by (simp add: nth_pack nth_append)
    qed
  qed (simp add: q)
  have "(length (bs @ bits_of_byte b)) mod 8 = 0" using Cons.prems by simp
  from Cons.IH [OF this] step show ?case by (simp add: bits_of_def)
qed

lemma represents_append_data:
  assumes "represents w bs" and "length bs mod 8 = 0"
  shows "represents (append_data b w) (bs @ bits_of_byte b)"
  using assms pack_append_bytes [OF assms(2), of "[b]"]
  by (simp add: represents_def append_data_def bits_of_def)

text \<open>Reading back: the bits of the bytes are the bits written, followed by the padding.\<close>

lemma bits_of_pack: "bits_of (pack bs) = bs @ replicate (padding (length bs)) False"
proof (induction "length bs" arbitrary: bs rule: less_induct)
  case less
  show ?case
  proof (cases "8 \<le> length bs")
    case True
    let ?a = "take 8 bs" and ?b = "drop 8 bs"
    have "pack (?a @ ?b) = byte_of ?a # pack ?b"
    proof (rule nth_equalityI)
      show "length (pack (?a @ ?b)) = length (byte_of ?a # pack ?b)" using True by simp
      fix i
      assume "i < length (pack (?a @ ?b))"
      then show "pack (?a @ ?b) ! i = (byte_of ?a # pack ?b) ! i"
        using True by (cases i) (simp_all add: nth_pack add.commute)
    qed
    then have "bits_of (pack bs) = ?a @ bits_of (pack ?b)"
      using True by (simp add: bits_of_def bits_of_byte_of)
    moreover have "padding (length ?b) = padding (length bs)" using True by (simp add: padding_def le_mod_geq)
    ultimately show ?thesis using less [of ?b] True by simp
  next
    case False
    show ?thesis
    proof (cases bs)
      case (Cons c cs)
      with False have "(length bs + 7) div 8 = 1" by simp
      then have "pack bs = [byte_of bs]" using False by (simp add: pack_def)
      moreover have "bits_of_byte (byte_of bs) = bs @ replicate (padding (length bs)) False"
      proof -
        have "padding (length bs) = 8 - length bs" using False Cons by (simp add: padding_def)
        moreover have "0 < length bs" using Cons by simp
        ultimately show ?thesis using False
          by (intro nth_equalityI) (auto simp: bits_of_byte_def bit_byte_of nth_append)
      qed
      ultimately show ?thesis by (simp add: bits_of_def)
    qed (simp add: pack_def bits_of_def padding_def)
  qed
qed

end
