(* ===== verification/Zopfli_Tree.thy ===== *)
theory Zopfli_Tree
  imports Zopfli_Bits
begin

text \<open>
  Huffman codes from code lengths (\<^verbatim>\<open>ZopfliLengthsToSymbols\<close> of \<^verbatim>\<open>tree.cc\<close>), against the rule of RFC 1951,
  section 3.2.2: codes of one length are consecutive in the order of their symbols, and shorter codes
  come first.
\<close>

section \<open>Code values\<close>

fun count_lengths :: "nat \<Rightarrow> nat list \<Rightarrow> nat list \<Rightarrow> failure + nat list" where
  "count_lengths maxbits [] bl_count = Inr bl_count"
| "count_lengths maxbits (l # ls) bl_count =
     (if l \<le> maxbits then count_lengths maxbits ls (bl_count[l := bl_count ! l + 1])
      else Inl Assertion_failed)"

fun next_codes :: "nat \<Rightarrow> nat \<Rightarrow> uint32 \<Rightarrow> nat list \<Rightarrow> nat list \<Rightarrow> nat list" where
  "next_codes bits 0 code bl_count next_code = next_code"
| "next_codes bits (Suc n) code bl_count next_code =
     (let code = push_bit 1 (code + of_nat (bl_count ! (bits - 1)))
      in next_codes (bits + 1) n code bl_count (next_code[bits := unat code]))"

fun assign_codes :: "nat list \<Rightarrow> nat list \<Rightarrow> uint32 list" where
  "assign_codes [] next_code = []"
| "assign_codes (len # ls) next_code =
     (if len \<noteq> 0 then of_nat (next_code ! len) # assign_codes ls (next_code[len := next_code ! len + 1])
      else 0 # assign_codes ls next_code)"

definition ZopfliLengthsToSymbols :: "nat list \<Rightarrow> nat \<Rightarrow> failure + uint32 list" where
  "ZopfliLengthsToSymbols lengths maxbits =
     (case count_lengths maxbits lengths (replicate (maxbits + 1) 0) of
        Inl f \<Rightarrow> Inl f
      | Inr bl_count \<Rightarrow>
          let bl_count = bl_count[0 := 0];
              next_code = next_codes 1 maxbits 0 bl_count (replicate (maxbits + 1) 0)
          in Inr (assign_codes lengths next_code))"

section \<open>The canonical code\<close>

definition first_code :: "nat list \<Rightarrow> nat \<Rightarrow> nat" where
  "first_code ls L = sum_list (map (\<lambda>l. if 0 < l \<and> l < L then 2 ^ (L - l) else 0) ls)"

definition number_of :: "nat \<Rightarrow> nat list \<Rightarrow> nat" where
  "number_of L ls = count_list ls L"

definition canonical_code :: "nat list \<Rightarrow> nat \<Rightarrow> nat" where
  "canonical_code ls i = first_code ls (ls ! i) + number_of (ls ! i) (take i ls)"

definition kraft_sum :: "nat \<Rightarrow> nat list \<Rightarrow> nat" where
  "kraft_sum M ls = sum_list (map (\<lambda>l. if l = 0 then 0 else 2 ^ (M - l)) ls)"

text \<open>Lengths that fit into a code: the Kraft inequality.\<close>

definition code_lengths_ok :: "nat \<Rightarrow> nat list \<Rightarrow> bool" where
  "code_lengths_ok M ls \<longleftrightarrow> (\<forall>l \<in> set ls. l \<le> M) \<and> kraft_sum M ls \<le> 2 ^ M"

definition code_weight :: "nat \<Rightarrow> nat \<Rightarrow> nat" where
  "code_weight L l = (if 0 < l \<and> l < L then 2 ^ (L - l) else 0)"

lemma code_sums [simp]:
  "first_code [] L = 0" "first_code (l # ls) L = code_weight L l + first_code ls L"
  "number_of L [] = 0" "number_of L (l # ls) = of_bool (l = L) + number_of L ls"
  "kraft_sum M [] = 0" "kraft_sum M (l # ls) = (if l = 0 then 0 else 2 ^ (M - l)) + kraft_sum M ls"
  by (simp_all add: first_code_def number_of_def kraft_sum_def code_weight_def)

lemma code_weight_step: "0 < L \<Longrightarrow> code_weight (L + 1) l = 2 * code_weight L l + 2 * of_bool (l = L)"
  by (auto simp: code_weight_def Suc_diff_le)

lemma first_code_step:
  "0 < L \<Longrightarrow> first_code ls (L + 1) = 2 * (first_code ls L + number_of L ls)"
  by (induction ls) (simp_all only: code_sums code_weight_step, simp_all)

lemma first_code_1: "first_code ls 1 = 0"
  by (induction ls) (auto simp: code_weight_def)

lemma first_code_later:
  assumes "0 < L"
  shows "(first_code ls L + number_of L ls) * 2 ^ Suc k \<le> first_code ls (L + Suc k)"
proof (induction k)
  case 0
  then show ?case using first_code_step [OF assms, of ls] by simp
next
  case (Suc k)
  have "(first_code ls L + number_of L ls) * 2 ^ Suc (Suc k) = 2 * ((first_code ls L + number_of L ls) * 2 ^ Suc k)"
    by simp
  also have "\<dots> \<le> 2 * first_code ls (L + Suc k)" using Suc by (rule mult_le_mono2)
  also have "\<dots> \<le> first_code ls (L + Suc k + 1)" using first_code_step [of "L + Suc k" ls] by simp
  finally show ?case by simp
qed

lemma code_weight_kraft:
  assumes "L \<le> M" and "0 < L"
  shows "(code_weight L l + of_bool (l = L)) * 2 ^ (M - L) \<le> (if l = 0 then 0 else 2 ^ (M - l))"
proof (cases "0 < l \<and> l < L")
  case True
  then have "2 ^ (L - l) * 2 ^ (M - L) = (2 ^ (M - l) :: nat)"
    using assms(1) by (simp flip: power_add)
  with True show ?thesis by (simp add: code_weight_def)
qed (use assms in \<open>auto simp: code_weight_def\<close>)

lemma first_code_kraft:
  assumes "L \<le> M" and "0 < L"
  shows "(first_code ls L + number_of L ls) * 2 ^ (M - L) \<le> kraft_sum M ls"
proof (induction ls)
  case (Cons l ls)
  have "(first_code (l # ls) L + number_of L (l # ls)) * 2 ^ (M - L) =
      (code_weight L l + of_bool (l = L)) * 2 ^ (M - L) + (first_code ls L + number_of L ls) * 2 ^ (M - L)"
    by (simp add: distrib_right)
  also have "\<dots> \<le> (if l = 0 then 0 else 2 ^ (M - l)) + kraft_sum M ls"
    by (rule add_mono [OF code_weight_kraft [OF assms] Cons])
  finally show ?case by simp
qed simp

lemma number_of_take:
  assumes "i < length ls"
  shows "number_of (ls ! i) (take i ls) < number_of (ls ! i) ls"
proof -
  have "ls = take i ls @ ls ! i # drop (Suc i) ls" using assms by (rule id_take_nth_drop)
  then have "number_of (ls ! i) ls = number_of (ls ! i) (take i ls @ ls ! i # drop (Suc i) ls)" by simp
  then show ?thesis by (simp add: number_of_def count_list_append)
qed

lemma number_of_mono:
  assumes "i < j" and "j < length ls" and "ls ! i = L"
  shows "number_of L (take i ls) < number_of L (take j ls)"
proof -
  have "number_of (take j ls ! i) (take i (take j ls)) < number_of (take j ls ! i) (take j ls)"
    using assms by (intro number_of_take) simp
  then show ?thesis using assms by (simp add: min_def)
qed

lemma canonical_code_bound:
  assumes "code_lengths_ok M ls" and "i < length ls" and "0 < ls ! i"
  shows "canonical_code ls i < 2 ^ (ls ! i)"
proof -
  let ?L = "ls ! i"
  have L: "?L \<le> M" using assms by (simp add: code_lengths_ok_def)
  have "(canonical_code ls i + 1) * 2 ^ (M - ?L) \<le> (first_code ls ?L + number_of ?L ls) * 2 ^ (M - ?L)"
    using number_of_take [OF assms(2)] by (intro mult_le_mono1) (simp add: canonical_code_def)
  also have "\<dots> \<le> kraft_sum M ls" by (rule first_code_kraft [OF L assms(3)])
  also have "\<dots> \<le> 2 ^ M" using assms(1) by (simp add: code_lengths_ok_def)
  also have "\<dots> = 2 ^ ?L * 2 ^ (M - ?L)" using L by (simp flip: power_add)
  finally have "canonical_code ls i + 1 \<le> 2 ^ ?L" by (rule mult_right_le_imp_le) simp
  then show ?thesis by simp
qed

text \<open>No code is a prefix of another one.\<close>

lemma canonical_code_later:
  assumes "i < length ls" and "j < length ls" and "0 < ls ! i" and "ls ! i < ls ! j"
  shows "canonical_code ls i < canonical_code ls j div 2 ^ (ls ! j - ls ! i)"
proof -
  obtain k where k: "ls ! j = ls ! i + Suc k" using assms(4) less_iff_Suc_add by auto
  have "(canonical_code ls i + 1) * 2 ^ Suc k \<le> (first_code ls (ls ! i) + number_of (ls ! i) ls) * 2 ^ Suc k"
    using number_of_take [OF assms(1)] by (intro mult_le_mono1) (simp add: canonical_code_def)
  also have "\<dots> \<le> first_code ls (ls ! j)" using first_code_later [OF assms(3)] k by simp
  also have "\<dots> \<le> canonical_code ls j" by (simp add: canonical_code_def)
  finally have "canonical_code ls i + 1 \<le> canonical_code ls j div 2 ^ Suc k"
    by (simp add: less_eq_div_iff_mult_less_eq)
  then show ?thesis using k by simp
qed

lemma canonical_code_same_length:
  assumes "i < length ls" and "j < length ls" and "ls ! i = ls ! j" and "canonical_code ls i = canonical_code ls j"
  shows "i = j"
proof (rule ccontr)
  assume "i \<noteq> j"
  then consider "i < j" | "j < i" by linarith
  then show False
  proof cases
    case 1
    with number_of_mono [OF 1 assms(2) refl] assms(3,4) show ?thesis by (simp add: canonical_code_def)
  next
    case 2
    with number_of_mono [OF 2 assms(1) refl] assms(3,4) show ?thesis by (simp add: canonical_code_def)
  qed
qed

section \<open>The routine computes the canonical code\<close>

lemma count_lengths_eq:
  assumes "\<forall>l \<in> set ls. l \<le> M" and "length bl = M + 1"
  shows "count_lengths M ls bl = Inr (map (\<lambda>L. bl ! L + number_of L ls) [0..<M + 1])"
  using assms
proof (induction ls arbitrary: bl)
  case Nil
  have "map (\<lambda>L. bl ! L) [0..<length bl] = bl" by (rule map_nth)
  with Nil show ?case by (simp del: upt_Suc)
next
  case (Cons l ls)
  let ?bl = "bl[l := bl ! l + 1]"
  have "map (\<lambda>L. ?bl ! L + number_of L ls) [0..<M + 1] = map (\<lambda>L. bl ! L + number_of L (l # ls)) [0..<M + 1]"
    using Cons.prems by (intro map_cong) (auto simp: nth_list_update)
  with Cons show ?case by simp
qed

lemma unat_double: "unat (push_bit 1 x :: uint32) = 2 * unat x mod 2 ^ 32"
  by (simp add: push_bit_eq_mult unat_word_ariths mult.commute)

lemma next_codes_eq:
  assumes "\<And>L. 0 < L \<Longrightarrow> L \<le> M \<Longrightarrow> first_code ls L < 2 ^ 31"
    and "\<And>L. 0 < L \<Longrightarrow> L \<le> M \<Longrightarrow> bl ! L = number_of L ls" and "length nc = M + 1"
    and "0 < b" and "b + n = M + 1"
    and "unat code + bl ! (b - 1) < 2 ^ 31" and "2 * (unat code + bl ! (b - 1)) = first_code ls b"
  shows "length (next_codes b n code bl nc) = M + 1 \<and>
    (\<forall>L < M + 1. next_codes b n code bl nc ! L = (if b \<le> L then first_code ls L else nc ! L))"
  using assms(3-)
proof (induction n arbitrary: b code nc)
  case 0
  then show ?case by simp
next
  case (Suc n)
  let ?code = "push_bit 1 (code + of_nat (bl ! (b - 1)))"
  have "unat (code + of_nat (bl ! (b - 1)) :: uint32) = unat code + bl ! (b - 1)"
    using Suc.prems(4) by (simp add: unat_word_ariths unat_of_nat)
  then have code: "unat ?code = first_code ls b"
    using Suc.prems(4,5) unfolding unat_double by simp
  show ?case
  proof (cases n)
    case 0
    with Suc.prems code show ?thesis by (auto simp: Let_def nth_list_update le_less_Suc_eq)
  next
    case (Suc m)
    have "b \<le> M" "0 < b + 1" "b + 1 \<le> M" "b + 1 + n = M + 1" using Suc Suc.prems by simp_all
    moreover have "2 * (unat ?code + bl ! (b + 1 - 1)) = first_code ls (b + 1)"
      using code assms(2) [of b] first_code_step [of b ls] Suc.prems(2) calculation by simp
    moreover from this have "unat ?code + bl ! (b + 1 - 1) < 2 ^ 31"
      using assms(1) [of "b + 1"] calculation by simp
    ultimately have "length (next_codes (b + 1) n ?code bl (nc[b := unat ?code])) = M + 1 \<and>
        (\<forall>L < M + 1. next_codes (b + 1) n ?code bl (nc[b := unat ?code]) ! L =
           (if b + 1 \<le> L then first_code ls L else nc[b := unat ?code] ! L))"
      using Suc.prems(1) by (intro Suc.IH) simp_all
    then show ?thesis using code Suc.prems(1) \<open>b \<le> M\<close>
      by (auto simp: Let_def nth_list_update not_less_eq_eq dest: le_antisym)
  qed
qed

lemma assign_codes_eq:
  assumes "\<forall>l \<in> set ls. l < length nc"
  shows "assign_codes ls nc =
    map (\<lambda>i. if ls ! i = 0 then 0 else of_nat (nc ! (ls ! i) + number_of (ls ! i) (take i ls))) [0..<length ls]"
  using assms
proof (induction ls arbitrary: nc)
  case (Cons l ls)
  have tail: "map (\<lambda>i. f ((l # ls) ! i) (take i (l # ls))) [0..<length (l # ls)] =
      f l [] # map (\<lambda>i. f (ls ! i) (l # take i ls)) [0..<length ls]" for f :: "nat \<Rightarrow> nat list \<Rightarrow> uint32"
    by (simp add: upt_conv_Cons map_Suc_upt [symmetric] del: upt_Suc)
  show ?case
  proof (cases "l = 0")
    case True
    then have "assign_codes ls nc = map (\<lambda>i. if ls ! i = 0 then 0 else of_nat (nc ! (ls ! i) + number_of (ls ! i) (l # take i ls))) [0..<length ls]"
      using Cons by (auto intro!: map_cong)
    with True tail [of "\<lambda>l t. if l = 0 then 0 else of_nat (nc ! l + number_of l t)"] show ?thesis by simp
  next
    case False
    let ?nc = "nc[l := nc ! l + 1]"
    have "assign_codes ls ?nc = map (\<lambda>i. if ls ! i = 0 then 0 else of_nat (?nc ! (ls ! i) + number_of (ls ! i) (take i ls))) [0..<length ls]"
      using Cons by simp
    also have "\<dots> = map (\<lambda>i. if ls ! i = 0 then 0 else of_nat (nc ! (ls ! i) + number_of (ls ! i) (l # take i ls))) [0..<length ls]"
      using Cons.prems by (intro map_cong) (auto simp: nth_list_update)
    finally show ?thesis
      using False tail [of "\<lambda>l t. if l = 0 then 0 else of_nat (nc ! l + number_of l t)"] by simp
  qed
qed simp

lemma first_code_bound:
  assumes "code_lengths_ok M ls" and "0 < L" and "L \<le> M"
  shows "first_code ls L \<le> 2 ^ L"
proof -
  have "first_code ls L * 2 ^ (M - L) \<le> (first_code ls L + number_of L ls) * 2 ^ (M - L)" by simp
  also have "\<dots> \<le> kraft_sum M ls" by (rule first_code_kraft [OF assms(3,2)])
  also have "\<dots> \<le> 2 ^ M" using assms(1) by (simp add: code_lengths_ok_def)
  also have "\<dots> = 2 ^ L * 2 ^ (M - L)" using assms(3) by (simp flip: power_add)
  finally show ?thesis by (rule mult_right_le_imp_le) simp
qed

lemma LengthsToSymbols_canonical:
  assumes ok: "code_lengths_ok M ls" and "0 < M" and "M \<le> 15"
  shows "ZopfliLengthsToSymbols ls M =
    Inr (map (\<lambda>i. if ls ! i = 0 then 0 else of_nat (canonical_code ls i)) [0..<length ls])"
proof -
  have lens: "\<forall>l \<in> set ls. l \<le> M" using ok by (simp add: code_lengths_ok_def)
  let ?count = "map (\<lambda>L. number_of L ls) [0..<M + 1]" and ?bl = "(map (\<lambda>L. number_of L ls) [0..<M + 1])[0 := 0]"
  let ?nc = "next_codes 1 M 0 ?bl (replicate (M + 1) 0)"
  have "count_lengths M ls (replicate (M + 1) 0) = Inr ?count"
    using count_lengths_eq [OF lens, of "replicate (M + 1) 0"] by (simp del: upt_Suc replicate_Suc cong: map_cong)
  moreover have bl: "?bl ! L = number_of L ls" if "0 < L" "L \<le> M" for L
    using that by (simp add: nth_append del: upt_Suc)
  moreover have small: "first_code ls L < 2 ^ 31" if "0 < L" "L \<le> M" for L
  proof -
    have "first_code ls L \<le> 2 ^ L" by (rule first_code_bound [OF ok that])
    also have "\<dots> \<le> 2 ^ 15" using that assms(3) by (intro power_increasing) simp_all
    finally show ?thesis by simp
  qed
  have "?bl ! 0 = 0" by (simp add: upt_conv_Cons del: upt_Suc)
  then have "length ?nc = M + 1 \<and> (\<forall>L < M + 1. ?nc ! L = (if 1 \<le> L then first_code ls L else replicate (M + 1) 0 ! L))"
    by (intro next_codes_eq small bl) (use first_code_1 in \<open>simp_all del: upt_Suc\<close>)
  then have nc: "length ?nc = M + 1" "\<And>L. 0 < L \<Longrightarrow> L \<le> M \<Longrightarrow> ?nc ! L = first_code ls L" by simp_all
  have "assign_codes ls ?nc = map (\<lambda>i. if ls ! i = 0 then 0 else of_nat (canonical_code ls i)) [0..<length ls]"
    using lens nc by (subst assign_codes_eq) (auto simp: canonical_code_def intro!: map_cong)
  ultimately show ?thesis by (simp add: ZopfliLengthsToSymbols_def Let_def del: upt_Suc replicate_Suc)
qed

section \<open>Code words and their decoding\<close>

definition code_word :: "nat list \<Rightarrow> nat \<Rightarrow> bool list" where
  "code_word ls i = msb_bits (of_nat (canonical_code ls i)) (ls ! i)"

text \<open>What a decoder does: it takes the symbol whose code word the bits start with.\<close>

definition decode_symbol :: "nat list \<Rightarrow> bool list \<Rightarrow> (nat \<times> bool list) option" where
  "decode_symbol ls bs =
     map_option (\<lambda>i. (i, drop (ls ! i) bs))
       (List.find (\<lambda>i. 0 < ls ! i \<and> take (ls ! i) bs = code_word ls i) [0..<length ls])"

lemma take_msb_bits: "k \<le> n \<Longrightarrow> take k (msb_bits v n) = msb_bits (drop_bit (n - k) v) k"
  by (rule nth_equalityI) (auto simp: msb_bits_def lsb_bits_def rev_nth bit_simps)

lemma msb_bits_inject:
  assumes "msb_bits x k = msb_bits y k" and "unat x < 2 ^ k" and "unat y < 2 ^ k"
  shows "x = y"
proof (rule bit_word_eqI)
  fix n
  assume n: "n < LENGTH(32)"
  have bits: "map (bit x) [0..<k] = map (bit y) [0..<k]"
    using assms(1) by (simp add: msb_bits_def lsb_bits_def)
  show "bit x n = bit y n"
  proof (cases "n < k")
    case True
    then have "map (bit x) [0..<k] ! n = map (bit y) [0..<k] ! n" using bits by simp
    with True show ?thesis by simp
  next
    case False
    have "\<not> bit (unat z) n" if "unat z < 2 ^ k" for z :: uint32
      using that False by (metis bit_take_bit_iff not_less take_bit_nat_eq_self)
    with assms(2,3) show ?thesis by (simp add: bit_unsigned_iff n)
  qed
qed

lemma code_word_prefix:
  assumes ok: "code_lengths_ok M ls" "M \<le> 15" and ij: "i < length ls" "j < length ls" "0 < ls ! i" "ls ! i \<le> ls ! j"
    and prefix: "take (ls ! i) (code_word ls j) = code_word ls i"
  shows "i = j"
proof -
  let ?a = "canonical_code ls i" and ?b = "canonical_code ls j" and ?d = "ls ! j - ls ! i"
  have j: "0 < ls ! j" using ij by simp
  have len: "ls ! j \<le> 15" using ok ij(2) by (meson code_lengths_ok_def nth_mem order_trans)
  have a: "?a < 2 ^ (ls ! i)" and b: "?b < 2 ^ (ls ! j)"
    using canonical_code_bound [OF ok(1)] ij j by simp_all
  have "(2 :: nat) ^ (ls ! j) \<le> 2 ^ 15" using len by (intro power_increasing) simp_all
  moreover have "(2 :: nat) ^ (ls ! i) \<le> 2 ^ 15" using len ij(4) by (intro power_increasing) simp_all
  ultimately have words: "unat (of_nat ?a :: uint32) = ?a" "unat (of_nat ?b :: uint32) = ?b"
    using a b by (simp_all add: unat_of_nat)
  have "msb_bits (drop_bit ?d (of_nat ?b)) (ls ! i) = msb_bits (of_nat ?a) (ls ! i)"
    using prefix ij(4) by (simp add: code_word_def take_msb_bits)
  moreover have quotient: "unat (drop_bit ?d (of_nat ?b :: uint32)) = ?b div 2 ^ ?d"
    unfolding unat_drop_bit_eq words by (rule drop_bit_eq_div)
  moreover have "?b div 2 ^ ?d < 2 ^ (ls ! i)"
    using b ij(4) by (simp add: less_mult_imp_div_less flip: power_add)
  ultimately have "drop_bit ?d (of_nat ?b :: uint32) = of_nat ?a"
    using words a by (intro msb_bits_inject [where k = "ls ! i"]) simp_all
  then have eq: "?b div 2 ^ ?d = ?a" using quotient words by metis
  show ?thesis
  proof (cases "ls ! i = ls ! j")
    case True
    with eq canonical_code_same_length [OF ij(1,2) True] show ?thesis by simp
  next
    case False
    with eq canonical_code_later [OF ij(1-3)] ij(4) show ?thesis by simp
  qed
qed

lemma decode_symbol_code:
  assumes ok: "code_lengths_ok M ls" "M \<le> 15" and i: "i < length ls" "0 < ls ! i"
  shows "decode_symbol ls (code_word ls i @ rest) = Some (i, rest)"
proof -
  have len: "length (code_word ls j) = ls ! j" for j by (simp add: code_word_def)
  have unique: "j = i" if j: "j < length ls" "0 < ls ! j" "take (ls ! j) (code_word ls i @ rest) = code_word ls j" for j
  proof (cases "ls ! j \<le> ls ! i")
    case True
    with j len show ?thesis using code_word_prefix [OF ok j(1) i(1) j(2) True] by simp
  next
    case False
    then have "take (ls ! i) (code_word ls j) = code_word ls i"
      unfolding j(3) [symmetric] using len [of i] by (simp add: min_def)
    with False show ?thesis using code_word_prefix [OF ok i(1) j(1) i(2)] by simp
  qed
  have self: "take (ls ! i) (code_word ls i @ rest) = code_word ls i" using len by simp
  have "List.find (\<lambda>j. 0 < ls ! j \<and> take (ls ! j) (code_word ls i @ rest) = code_word ls j) [0..<length ls] = Some i"
    unfolding find_Some_iff
  proof (intro exI [of _ i] conjI allI impI)
    fix k
    assume "k < i"
    then show "\<not> (0 < ls ! ([0..<length ls] ! k) \<and>
        take (ls ! ([0..<length ls] ! k)) (code_word ls i @ rest) = code_word ls ([0..<length ls] ! k))"
      using unique [of k] i(1) by (auto simp del: take_append)
  qed (use i self in \<open>simp_all del: take_append\<close>)
  then show ?thesis using len by (simp add: decode_symbol_def)
qed

end
