(* ===== verification/Zopfli_Inflate.thy ===== *)
theory Zopfli_Inflate
  imports Zopfli_Tree "HOL-Library.Monad_Syntax"
begin

text \<open>
  What a decoder makes of a DEFLATE stream (RFC 1951): the reference the compressor is verified
  against. Bits are read from a list, the least significant bit of each byte first; the stream holds
  whole bytes, so the number of bits left tells where the next byte starts.
\<close>

section \<open>Reading numbers\<close>

definition read_bits :: "nat \<Rightarrow> bool list \<Rightarrow> (nat \<times> bool list) option" where
  "read_bits n bs = (if length bs < n then None else Some (horner_sum of_bool 2 (take n bs), drop n bs))"

lemma read_bits_length: "read_bits n bs = Some (v, bs') \<Longrightarrow> length bs = n + length bs'"
  by (auto simp: read_bits_def split: if_splits)

lemma bits_value:
  assumes "v < 2 ^ n" and "n \<le> 32"
  shows "horner_sum of_bool 2 (lsb_bits (of_nat v) n) = v"
proof -
  have "lsb_bits (of_nat v) n = map (bit v) [0..<n]"
    using assms(2) by (simp add: lsb_bits_def bit_simps)
  then show ?thesis
    using assms(1) by (simp add: horner_sum_bit_eq_take_bit take_bit_nat_eq_self)
qed

lemma read_bits_lsb [simp]:
  "v < 2 ^ n \<Longrightarrow> n \<le> 32 \<Longrightarrow> read_bits n (lsb_bits (of_nat v) n @ rest) = Some (v, rest)"
  by (simp add: read_bits_def bits_value)

lemma decode_symbol_length:
  assumes "decode_symbol ls bs = Some (s, bs')"
  shows "length bs' < length bs"
proof -
  obtain i where i: "List.find (\<lambda>i. 0 < ls ! i \<and> take (ls ! i) bs = code_word ls i) [0..<length ls] = Some i"
      "bs' = drop (ls ! i) bs"
    using assms by (auto simp: decode_symbol_def)
  then have "0 < ls ! i" "take (ls ! i) bs = code_word ls i" by (auto simp: find_Some_iff)
  from this(2) have "length (take (ls ! i) bs) = ls ! i" by (simp add: code_word_def)
  with \<open>0 < ls ! i\<close> i(2) show ?thesis by simp
qed

section \<open>Literals and matches\<close>

fun copy_match :: "nat \<Rightarrow> nat \<Rightarrow> byte list \<Rightarrow> byte list" where
  "copy_match 0 d bytes = bytes"
| "copy_match (Suc n) d bytes = copy_match n d (bytes @ [bytes ! (length bytes - d)])"

function inflate_codes :: "nat list \<Rightarrow> nat list \<Rightarrow> bool list \<Rightarrow> byte list \<Rightarrow> (byte list \<times> bool list) option" where
  "inflate_codes ll dl bs bytes = do {
     (s, bs) \<leftarrow> decode_symbol ll bs;
     if s < 256 then inflate_codes ll dl bs (bytes @ [of_nat s])
     else if s = 256 then Some (bytes, bs)
     else if s \<le> 285 then do {
       (e, bs) \<leftarrow> read_bits (rfc_length_extra ! (s - 257)) bs;
       (ds, bs) \<leftarrow> decode_symbol dl bs;
       if ds < 30 then do {
         (de, bs) \<leftarrow> read_bits (rfc_dist_extra ! ds) bs;
         let d = rfc_dist_base ! ds + de;
         if d \<le> length bytes then inflate_codes ll dl bs (copy_match (rfc_length_base ! (s - 257) + e) d bytes)
         else None
       } else None
     } else None
   }"
  by pat_completeness auto
termination
  by (relation "measure (\<lambda>(ll, dl, bs, bytes). length bs)")
    (auto dest!: decode_symbol_length read_bits_length)

declare inflate_codes.simps [simp del]

section \<open>Code lengths\<close>

definition code_length_order :: "nat list" where
  "code_length_order = [16, 17, 18, 0, 8, 7, 9, 6, 10, 5, 11, 4, 12, 3, 13, 2, 14, 1, 15]"

text \<open>A code length symbol with its extra value, applied to the lengths read so far.\<close>

definition expand_length :: "nat \<times> nat \<Rightarrow> nat list \<Rightarrow> nat list option" where
  "expand_length p acc =
     (case p of (s, e) \<Rightarrow>
        if s < 16 then Some (acc @ [s])
        else if s = 16 then (if acc = [] then None else Some (acc @ replicate (e + 3) (List.last acc)))
        else if s = 17 then Some (acc @ replicate (e + 3) 0)
        else if s = 18 then Some (acc @ replicate (e + 11) 0)
        else None)"

definition length_extra_bits :: "nat \<Rightarrow> nat" where
  "length_extra_bits s = (if s = 16 then 2 else if s = 17 then 3 else if s = 18 then 7 else 0)"

function read_lengths :: "nat list \<Rightarrow> nat \<Rightarrow> bool list \<Rightarrow> nat list \<Rightarrow> (nat list \<times> bool list) option" where
  "read_lengths cl n bs acc =
     (if length acc = n then Some (acc, bs)
      else if n < length acc then None
      else do {
        (s, bs) \<leftarrow> decode_symbol cl bs;
        (e, bs) \<leftarrow> read_bits (length_extra_bits s) bs;
        acc \<leftarrow> expand_length (s, e) acc;
        read_lengths cl n bs acc
      })"
  by pat_completeness auto
termination
  by (relation "measure (\<lambda>(cl, n, bs, acc). length bs)") (auto dest!: decode_symbol_length read_bits_length)

declare read_lengths.simps [simp del]

fun read_code_lengths :: "nat list \<Rightarrow> bool list \<Rightarrow> nat list \<Rightarrow> (nat list \<times> bool list) option" where
  "read_code_lengths [] bs cl = Some (cl, bs)"
| "read_code_lengths (i # order) bs cl = do {
     (l, bs) \<leftarrow> read_bits 3 bs;
     read_code_lengths order bs (cl[i := l])
   }"

text \<open>The lengths of the two codes; lengths that are not sent are zero.\<close>

definition pad_lengths :: "nat \<Rightarrow> nat list \<Rightarrow> nat list" where
  "pad_lengths n ls = ls @ replicate (n - length ls) 0"

definition inflate_trees :: "bool list \<Rightarrow> ((nat list \<times> nat list) \<times> bool list) option" where
  "inflate_trees bs = do {
     (hlit, bs) \<leftarrow> read_bits 5 bs;
     (hdist, bs) \<leftarrow> read_bits 5 bs;
     (hclen, bs) \<leftarrow> read_bits 4 bs;
     (cl, bs) \<leftarrow> read_code_lengths (take (hclen + 4) code_length_order) bs (replicate 19 0);
     (lens, bs) \<leftarrow> read_lengths cl (hlit + 257 + hdist + 1) bs [];
     Some ((pad_lengths 288 (take (hlit + 257) lens), pad_lengths 32 (drop (hlit + 257) lens)), bs)
   }"

section \<open>Blocks\<close>

definition rfc_fixed_ll :: "nat list" where
  "rfc_fixed_ll = replicate 144 8 @ replicate 112 9 @ replicate 24 7 @ replicate 8 8"

definition rfc_fixed_d :: "nat list" where
  "rfc_fixed_d = replicate 32 5"

definition inflate_stored :: "bool list \<Rightarrow> byte list \<Rightarrow> (byte list \<times> bool list) option" where
  "inflate_stored bs bytes = do {
     let bs = drop (length bs mod 8) bs;
     (len, bs) \<leftarrow> read_bits 16 bs;
     (nlen, bs) \<leftarrow> read_bits 16 bs;
     if len + nlen = 65535 \<and> 8 * len \<le> length bs
     then Some (bytes @ pack (take (8 * len) bs), drop (8 * len) bs) else None
   }"

definition inflate_block :: "bool list \<Rightarrow> byte list \<Rightarrow> (bool \<times> byte list \<times> bool list) option" where
  "inflate_block bs bytes = do {
     (final, bs) \<leftarrow> read_bits 1 bs;
     (btype, bs) \<leftarrow> read_bits 2 bs;
     (bytes, bs) \<leftarrow>
       (if btype = 0 then inflate_stored bs bytes
        else if btype = 1 then inflate_codes rfc_fixed_ll rfc_fixed_d bs bytes
        else if btype = 2 then do {
          ((ll, dl), bs) \<leftarrow> inflate_trees bs;
          inflate_codes ll dl bs bytes
        } else None);
     Some (final = 1, bytes, bs)
   }"

text \<open>Every block takes at least its first bit from the stream.\<close>

lemma inflate_codes_length: "inflate_codes ll dl bs bytes = Some (bytes', bs') \<Longrightarrow> length bs' \<le> length bs"
proof (induction "length bs" arbitrary: bs bytes rule: less_induct)
  case less
  note step = less.prems [unfolded inflate_codes.simps [of ll dl bs bytes]]
  from step obtain s bs1 where s: "decode_symbol ll bs = Some (s, bs1)" by (auto simp: bind_eq_Some_conv)
  have shorter: "length bs1 < length bs" by (rule decode_symbol_length [OF s])
  show ?case
  proof (cases "s \<le> 256")
    case True
    with step s shorter less.hyps [OF shorter] show ?thesis by (fastforce split: if_splits)
  next
    case False
    with step s obtain e bs2 ds bs3 de bs4 bytes2 where
        "read_bits (rfc_length_extra ! (s - 257)) bs1 = Some (e, bs2)" "decode_symbol dl bs2 = Some (ds, bs3)"
        "read_bits (rfc_dist_extra ! ds) bs3 = Some (de, bs4)" "inflate_codes ll dl bs4 bytes2 = Some (bytes', bs')"
      by (auto simp: bind_eq_Some_conv Let_def split: if_splits)
    moreover from this have "length bs4 < length bs"
      using shorter by (auto dest!: read_bits_length decode_symbol_length)
    ultimately show ?thesis using less.hyps [of bs4 bytes2] by simp
  qed
qed

lemma read_lengths_length: "read_lengths cl n bs acc = Some (lens, bs') \<Longrightarrow> length bs' \<le> length bs"
proof (induction "length bs" arbitrary: bs acc rule: less_induct)
  case less
  note step = less.prems [unfolded read_lengths.simps [of cl n bs acc]]
  show ?case
  proof (cases "length acc = n")
    case False
    with step obtain s bs1 e bs2 acc2 where "decode_symbol cl bs = Some (s, bs1)"
        "read_bits (length_extra_bits s) bs1 = Some (e, bs2)" "read_lengths cl n bs2 acc2 = Some (lens, bs')"
      by (auto simp: bind_eq_Some_conv split: if_splits)
    moreover from this have "length bs2 < length bs" by (auto dest!: read_bits_length decode_symbol_length)
    ultimately show ?thesis using less.hyps [of bs2 acc2] by simp
  qed (use step in simp)
qed

lemma read_code_lengths_length: "read_code_lengths order bs cl = Some (cl', bs') \<Longrightarrow> length bs' \<le> length bs"
  by (induction order bs cl rule: read_code_lengths.induct) (fastforce simp: bind_eq_Some_conv dest: read_bits_length)+

lemma inflate_block_length: "inflate_block bs bytes = Some (final, bytes', bs') \<Longrightarrow> length bs' < length bs"
  by (auto simp: inflate_block_def inflate_stored_def inflate_trees_def bind_eq_Some_conv Let_def
      split: if_splits dest!: read_bits_length read_code_lengths_length read_lengths_length inflate_codes_length)

text \<open>The blocks up to the final one: the bytes of the stream, and the bits after it.\<close>

function inflate_blocks :: "bool list \<Rightarrow> byte list \<Rightarrow> (byte list \<times> bool list) option" where
  "inflate_blocks bs bytes = do {
     (final, bytes, bs) \<leftarrow> inflate_block bs bytes;
     if final then Some (bytes, bs) else inflate_blocks bs bytes
   }"
  by pat_completeness auto
termination by (relation "measure (\<lambda>(bs, bytes). length bs)") (auto dest: inflate_block_length)

declare inflate_blocks.simps [simp del]

definition inflate :: "byte list \<Rightarrow> byte list option" where
  "inflate stream = map_option fst (inflate_blocks (bits_of stream) [])"

end
