(* ===== verification/Zopfli_Store.thy ===== *)
theory Zopfli_Store
  imports Zopfli_Inflate
begin

text \<open>
  The LZ77 store and the routines of \<^verbatim>\<open>lz77.cc\<close> that read it: the check of a match against the data and the
  symbol counts. An item of a store is a literal (distance 0) or a match; what a store means is the
  bytes it decodes to.
\<close>

section \<open>Operations\<close>

record ZopfliLZ77Store =
  litlens :: "nat list"
  dists :: "nat list"

definition ZopfliInitLZ77Store :: ZopfliLZ77Store where
  "ZopfliInitLZ77Store = \<lparr>litlens = [], dists = []\<rparr>"

definition store_size :: "ZopfliLZ77Store \<Rightarrow> nat" where
  "store_size store = length (litlens store)"

definition ZopfliCopyLZ77Store :: "ZopfliLZ77Store \<Rightarrow> ZopfliLZ77Store" where
  "ZopfliCopyLZ77Store source =
     \<lparr>litlens = map (\<lambda>i. litlens source ! i) [0..<store_size source],
      dists = map (\<lambda>i. dists source ! i) [0..<store_size source]\<rparr>"

text \<open>The parameters are 16-bit numbers.\<close>

definition ZopfliStoreLitLenDist :: "nat \<Rightarrow> nat \<Rightarrow> ZopfliLZ77Store \<Rightarrow> ZopfliLZ77Store" where
  "ZopfliStoreLitLenDist len dist store =
     \<lparr>litlens = litlens store @ [len mod 2 ^ 16], dists = dists store @ [dist mod 2 ^ 16]\<rparr>"

text \<open>The assertion in the loop compares each byte of the match; the loop ends without it or by it.\<close>

definition ZopfliVerifyLenDist :: "byte list \<Rightarrow> nat \<Rightarrow> nat \<Rightarrow> nat \<Rightarrow> nat \<Rightarrow> failure + unit" where
  "ZopfliVerifyLenDist data datasize pos dist len =
     and_then (assertion (pos + len \<le> datasize)) (\<lambda>_.
       if pos < dist then Inl Out_of_range
       else assertion (list_all (\<lambda>i. data ! (pos - dist + i) = data ! (pos + i)) [0..<len]))"

text \<open>The part of the arrays from \<open>lstart\<close> to \<open>lend\<close>.\<close>

definition lz_items :: "nat list \<Rightarrow> nat list \<Rightarrow> nat \<Rightarrow> nat \<Rightarrow> (nat \<times> nat) list" where
  "lz_items lls ds lstart lend = map (\<lambda>i. (lls ! i, ds ! i)) [lstart..<lend]"

fun LZ77Counts_loop :: "(nat \<times> nat) list \<Rightarrow> nat list \<Rightarrow> nat list \<Rightarrow> failure + nat list \<times> nat list" where
  "LZ77Counts_loop [] ll_count d_count = Inr (ll_count, d_count)"
| "LZ77Counts_loop ((litlen, dist) # items) ll_count d_count =
     (if dist = 0
      then if litlen < 288 then LZ77Counts_loop items (ll_count[litlen := ll_count ! litlen + 1]) d_count
           else Inl Out_of_range
      else if litlen < 259
      then let lls = ZopfliGetLengthSymbol litlen;
               ds = nat (ZopfliGetDistSymbol (int dist))
           in LZ77Counts_loop items (ll_count[lls := ll_count ! lls + 1]) (d_count[ds := d_count ! ds + 1])
      else Inl Out_of_range)"

definition ZopfliLZ77Counts :: "nat list \<Rightarrow> nat list \<Rightarrow> nat \<Rightarrow> nat \<Rightarrow> failure + nat list \<times> nat list" where
  "ZopfliLZ77Counts lls ds lstart lend =
     and_then (LZ77Counts_loop (lz_items lls ds lstart lend) (replicate 288 0) (replicate 32 0)) (\<lambda>(ll_count, d_count).
       Inr (ll_count[256 := 1], d_count))"

section \<open>The bytes a store stands for\<close>

definition lz_item_ok :: "nat \<times> nat \<Rightarrow> bool" where
  "lz_item_ok p \<longleftrightarrow> (case p of (l, d) \<Rightarrow> if d = 0 then l < 256 else 3 \<le> l \<and> l \<le> 258 \<and> d \<le> 32768)"

definition lz_step :: "nat \<times> nat \<Rightarrow> byte list \<Rightarrow> byte list" where
  "lz_step p bytes = (case p of (l, d) \<Rightarrow> if d = 0 then bytes @ [of_nat l] else copy_match l d bytes)"

definition lz_decode :: "(nat \<times> nat) list \<Rightarrow> byte list \<Rightarrow> byte list" where
  "lz_decode items bytes = fold lz_step items bytes"

text \<open>Every match refers to bytes that are there.\<close>

fun lz_valid :: "(nat \<times> nat) list \<Rightarrow> byte list \<Rightarrow> bool" where
  "lz_valid [] bytes \<longleftrightarrow> True"
| "lz_valid (p # items) bytes \<longleftrightarrow> lz_item_ok p \<and> snd p \<le> length bytes \<and> lz_valid items (lz_step p bytes)"

lemma lz_decode_simps [simp]:
  "lz_decode [] bytes = bytes" "lz_decode (p # items) bytes = lz_decode items (lz_step p bytes)"
  "lz_decode (xs @ ys) bytes = lz_decode ys (lz_decode xs bytes)"
  by (simp_all add: lz_decode_def)

lemma lz_valid_append [simp]: "lz_valid (xs @ ys) bytes \<longleftrightarrow> lz_valid xs bytes \<and> lz_valid ys (lz_decode xs bytes)"
  by (induction xs arbitrary: bytes) auto

lemma lz_valid_items: "lz_valid items bytes \<Longrightarrow> p \<in> set items \<Longrightarrow> lz_item_ok p"
  by (induction items arbitrary: bytes) auto

subsection \<open>Copies\<close>

lemma length_copy_match [simp]: "length (copy_match n d bytes) = length bytes + n"
  by (induction n arbitrary: bytes) simp_all

text \<open>A match of the data with itself, \<open>d\<close> bytes back, copies the data.\<close>

lemma copy_match_data:
  assumes "\<And>i. i < n \<Longrightarrow> data ! (pos - d + i) = data ! (pos + i)" and "0 < d" and "d \<le> pos" and "pos + n \<le> length data"
  shows "copy_match n d (take pos data) = take (pos + n) data"
  using assms
proof (induction n arbitrary: pos)
  case (Suc n)
  have "data ! (pos - d) = data ! pos" using Suc.prems(1) [of 0] by simp
  moreover have "take (Suc pos) data = take pos data @ [data ! pos]"
    using Suc.prems(4) by (simp add: take_Suc_conv_app_nth)
  ultimately have step: "take pos data @ [take pos data ! (length (take pos data) - d)] = take (Suc pos) data"
    using Suc.prems(2-4) by (simp add: min_def)
  have "copy_match n d (take (Suc pos) data) = take (Suc pos + n) data"
  proof (rule Suc.IH)
    fix i
    assume "i < n"
    then show "data ! (Suc pos - d + i) = data ! (Suc pos + i)"
      using Suc.prems(1) [of "Suc i"] Suc.prems(3) by (simp add: Suc_diff_le)
  qed (use Suc.prems in simp_all)
  with step show ?case by simp
qed simp

text \<open>A match that passes the check decodes to the bytes of the data at its position.\<close>

lemma VerifyLenDist_decodes:
  assumes "ZopfliVerifyLenDist data datasize pos dist len = Inr ()" and "0 < dist" and "datasize \<le> length data"
  shows "dist \<le> pos \<and> lz_step (len, dist) (take pos data) = take (pos + len) data"
proof -
  have *: "pos + len \<le> datasize" "dist \<le> pos" "\<forall>i < len. data ! (pos - dist + i) = data ! (pos + i)"
    using assms(1) by (auto simp: ZopfliVerifyLenDist_def and_then_Inr list_all_iff split: if_splits)
  with assms(2,3) copy_match_data [of len data pos dist] show ?thesis by (simp add: lz_step_def)
qed

section \<open>Symbol counts\<close>

definition ll_symbol :: "nat \<times> nat \<Rightarrow> nat" where
  "ll_symbol p = (case p of (l, d) \<Rightarrow> if d = 0 then l else ZopfliGetLengthSymbol l)"

definition d_symbol :: "nat \<times> nat \<Rightarrow> nat" where
  "d_symbol p = nat (ZopfliGetDistSymbol (int (snd p)))"

lemma ll_symbol_range: "lz_item_ok p \<Longrightarrow> ll_symbol p < 286 \<and> ll_symbol p \<noteq> 256"
  using length_symbol_row [of "fst p"] by (auto simp: lz_item_ok_def ll_symbol_def length_row_ok_def split: prod.splits if_splits)

lemma d_symbol_range: "lz_item_ok p \<Longrightarrow> snd p \<noteq> 0 \<Longrightarrow> d_symbol p < 30"
  using dist_symbol_row [of "snd p"] by (auto simp: lz_item_ok_def d_symbol_def dist_row_ok_def split: prod.splits)

abbreviation matches :: "(nat \<times> nat) list \<Rightarrow> (nat \<times> nat) list" where
  "matches items \<equiv> filter (\<lambda>p. snd p \<noteq> 0) items"

lemma LZ77Counts_loop_eq:
  assumes "\<forall>p \<in> set items. lz_item_ok p" and "length ll = 288" and "length dl = 32"
  shows "\<exists>ll' dl'. LZ77Counts_loop items ll dl = Inr (ll', dl') \<and> length ll' = 288 \<and> length dl' = 32 \<and>
    (\<forall>s < 288. ll' ! s = ll ! s + count_list (map ll_symbol items) s) \<and>
    (\<forall>s < 32. dl' ! s = dl ! s + count_list (map d_symbol (matches items)) s)"
  using assms
proof (induction items arbitrary: ll dl)
  case (Cons p items)
  obtain l d where p: "p = (l, d)" by (cases p)
  have ok: "lz_item_ok p" using Cons.prems by simp
  let ?ll = "ll[ll_symbol p := ll ! ll_symbol p + 1]"
  let ?dl = "if d = 0 then dl else dl[d_symbol p := dl ! d_symbol p + 1]"
  have step: "LZ77Counts_loop (p # items) ll dl = LZ77Counts_loop items ?ll ?dl"
    using ok by (auto simp: p lz_item_ok_def ll_symbol_def d_symbol_def Let_def split: if_splits)
  have items: "\<forall>p \<in> set items. lz_item_ok p" "length ?ll = 288" "length ?dl = 32" using Cons.prems by simp_all
  obtain ll' dl' where IH: "LZ77Counts_loop items ?ll ?dl = Inr (ll', dl')" "length ll' = 288" "length dl' = 32"
      "\<forall>s < 288. ll' ! s = ?ll ! s + count_list (map ll_symbol items) s"
      "\<forall>s < 32. dl' ! s = ?dl ! s + count_list (map d_symbol (matches items)) s"
    using Cons.IH [OF items] by blast
  then show ?case
    using Cons.prems(2,3) step p by (auto simp: nth_list_update)
qed simp

lemma count_list_le: "count_list xs x \<le> length xs"
  by (rule count_le_length)

lemma LZ77Counts_eq:
  assumes "\<forall>p \<in> set (lz_items lls ds a b). lz_item_ok p"
  defines "items \<equiv> lz_items lls ds a b"
  shows "\<exists>ll dl. ZopfliLZ77Counts lls ds a b = Inr (ll, dl) \<and> length ll = 288 \<and> length dl = 32 \<and>
    (\<forall>s < 288. ll ! s = (if s = 256 then 1 else count_list (map ll_symbol items) s)) \<and>
    (\<forall>s < 32. dl ! s = count_list (map d_symbol (matches items)) s)"
proof -
  obtain ll dl where "LZ77Counts_loop items (replicate 288 0) (replicate 32 0) = Inr (ll, dl)"
      "length ll = 288" "length dl = 32" "\<forall>s < 288. ll ! s = count_list (map ll_symbol items) s"
      "\<forall>s < 32. dl ! s = count_list (map d_symbol (matches items)) s"
    using LZ77Counts_loop_eq [of items "replicate 288 0" "replicate 32 0"] assms by auto
  then show ?thesis by (auto simp: ZopfliLZ77Counts_def items_def)
qed

end
