(* ===== verification/Zopfli_Hash.thy ===== *)
theory Zopfli_Hash
  imports Zopfli_Store
begin

unbundle bit_operations_syntax

text \<open>
  \<^verbatim>\<open>hash.cc\<close>: the rolling hash over three bytes and the two chains of earlier positions the match finder walks.
  Positions are kept modulo the window size, so the slots of a chain are overwritten as the window moves; the
  invariant says what a slot still in the window holds, and that following \<^verbatim>\<open>prev\<close> from it leads to an
  earlier position with the same hash value.
\<close>

section \<open>Operations\<close>

declare ZOPFLI_MIN_MATCH_def [simp] and ZOPFLI_MAX_MATCH_def [simp]

text \<open>Indices are masked; the position before the first is that of a wrapped \<^verbatim>\<open>size_t\<close>.\<close>

definition slot :: "nat \<Rightarrow> nat" where
  "slot pos = pos AND ZOPFLI_WINDOW_MASK"

definition slot_before :: "nat \<Rightarrow> nat" where
  "slot_before pos = slot (pos + (2 ^ 64 - 1))"

record ZopfliHash =
  head :: "int list"
  prev :: "nat list"
  hashval :: "int list"
  val :: int
  head2 :: "int list"
  prev2 :: "nat list"
  hashval2 :: "int list"
  val2 :: int
  same :: "nat list"

definition ZopfliInitHash :: "nat \<Rightarrow> ZopfliHash" where
  "ZopfliInitHash window_size =
     \<lparr>head = replicate 65536 (-1), prev = [0..<window_size], hashval = replicate window_size (-1), val = 0,
      head2 = replicate 65536 (-1), prev2 = [0..<window_size], hashval2 = replicate window_size (-1), val2 = 0,
      same = replicate window_size 0\<rparr>"

definition UpdateHashValue :: "ZopfliHash \<Rightarrow> byte \<Rightarrow> ZopfliHash" where
  "UpdateHashValue h c = h\<lparr>val := (push_bit 5 (val h) XOR uint c) AND 32767\<rparr>"

text \<open>
  Both hashes of \<^verbatim>\<open>ZopfliUpdateHash\<close> record the position the same way: the arrays \<^verbatim>\<open>head\<close>, \<^verbatim>\<open>prev\<close> and
  \<^verbatim>\<open>hashval\<close> with the value \<open>v\<close> of slot \<open>hpos\<close>.
\<close>

definition chain_insert :: "nat \<Rightarrow> int \<Rightarrow> int list \<Rightarrow> nat list \<Rightarrow> int list \<Rightarrow> int list \<times> nat list \<times> int list" where
  "chain_insert hpos v hs ps vs =
     (let vs' = vs[hpos := v];
          p = (if hs ! nat v \<noteq> -1 \<and> vs' ! nat (hs ! nat v) = v then nat (hs ! nat v) else hpos)
      in (hs[nat v := int hpos], ps[hpos := p], vs'))"

text \<open>The loop that counts how often the byte at \<open>pos\<close> is repeated after it.\<close>

function same_loop :: "byte list \<Rightarrow> nat \<Rightarrow> nat \<Rightarrow> nat \<Rightarrow> nat" where
  "same_loop arr pos e amount =
     (if pos + amount + 1 < e \<and> arr ! pos = arr ! (pos + amount + 1) \<and> amount < 65535
      then same_loop arr pos e (amount + 1) else amount)"
  by auto
termination by (relation "measure (\<lambda>(arr, pos, e, amount). e - amount)") auto

declare same_loop.simps [simp del]

definition ZopfliUpdateHash :: "byte list \<Rightarrow> nat \<Rightarrow> nat \<Rightarrow> ZopfliHash \<Rightarrow> ZopfliHash" where
  "ZopfliUpdateHash arr pos e h0 =
     (let hpos = slot pos;
          h = UpdateHashValue h0 (if pos + ZOPFLI_MIN_MATCH \<le> e then arr ! (pos + ZOPFLI_MIN_MATCH - 1) else 0);
          (hs, ps, vs) = chain_insert hpos (val h) (head h) (prev h) (hashval h);
          before = same h ! slot_before pos;
          amount = same_loop arr pos e (if before > 1 then before - 1 else 0);
          v2 = ((int amount - int ZOPFLI_MIN_MATCH) AND 255) XOR val h;
          (hs2, ps2, vs2) = chain_insert hpos v2 (head2 h) (prev2 h) (hashval2 h)
      in h\<lparr>head := hs, prev := ps, hashval := vs, same := (same h)[hpos := amount],
           val2 := v2, head2 := hs2, prev2 := ps2, hashval2 := vs2\<rparr>)"

text \<open>The two bytes are read whatever the end of the data is.\<close>

definition ZopfliWarmupHash :: "byte list \<Rightarrow> nat \<Rightarrow> ZopfliHash \<Rightarrow> failure + ZopfliHash" where
  "ZopfliWarmupHash arr pos h =
     (if pos + 1 < length arr then Inr (UpdateHashValue (UpdateHashValue h (arr ! pos)) (arr ! (pos + 1)))
      else Inl Out_of_range)"

text \<open>
  How each of the compressor's passes prepares its hash: the window before \<open>instart\<close> is inserted, then positions
  up to \<open>pos\<close>.
\<close>

definition windowstart :: "nat \<Rightarrow> nat" where
  "windowstart instart = (if instart > ZOPFLI_WINDOW_SIZE then instart - ZOPFLI_WINDOW_SIZE else 0)"

definition update_range :: "byte list \<Rightarrow> nat \<Rightarrow> nat \<Rightarrow> nat \<Rightarrow> ZopfliHash \<Rightarrow> ZopfliHash" where
  "update_range arr a b e h = fold (\<lambda>i. ZopfliUpdateHash arr i e) [a..<b] h"

definition window_hash :: "byte list \<Rightarrow> nat \<Rightarrow> nat \<Rightarrow> failure + ZopfliHash" where
  "window_hash arr instart inend =
     and_then (ZopfliWarmupHash arr (windowstart instart) (ZopfliInitHash ZOPFLI_WINDOW_SIZE)) (\<lambda>h.
       Inr (update_range arr (windowstart instart) instart inend h))"

section \<open>The invariant of a chain\<close>

text \<open>
  \<open>a\<close> is a position inserted since \<open>ws\<close> whose slot has not been reused before \<open>pos\<close>.
\<close>

definition in_window :: "nat \<Rightarrow> nat \<Rightarrow> nat \<Rightarrow> bool" where
  "in_window ws pos a \<longleftrightarrow> ws \<le> a \<and> a < pos \<and> pos \<le> a + ZOPFLI_WINDOW_SIZE"

text \<open>
  \<open>hv\<close> gives the hash value each position was inserted with. A slot in the window holds it, and its predecessor is
  the slot itself or the slot of an earlier position, less than a window back, with the same value.
\<close>

definition chain_link :: "(nat \<Rightarrow> int) \<Rightarrow> nat \<Rightarrow> nat list \<Rightarrow> nat \<Rightarrow> bool" where
  "chain_link hv ws ps a \<longleftrightarrow> ps ! slot a = slot a \<or>
     (\<exists>b. ws \<le> b \<and> b < a \<and> a < b + ZOPFLI_WINDOW_SIZE \<and> hv b = hv a \<and> ps ! slot a = slot b)"

definition chain_inv :: "(nat \<Rightarrow> int) \<Rightarrow> nat \<Rightarrow> nat \<Rightarrow> int list \<Rightarrow> nat list \<Rightarrow> int list \<Rightarrow> bool" where
  "chain_inv hv ws pos hs ps vs \<longleftrightarrow>
     length hs = 65536 \<and> length ps = ZOPFLI_WINDOW_SIZE \<and> length vs = ZOPFLI_WINDOW_SIZE \<and>
     (\<forall>x \<in> set hs. x = -1 \<or> 0 \<le> x \<and> x < int ZOPFLI_WINDOW_SIZE) \<and>
     (\<forall>a. in_window ws pos a \<longrightarrow> vs ! slot a = hv a \<and> chain_link hv ws ps a) \<and>
     (\<forall>s < ZOPFLI_WINDOW_SIZE. (\<forall>a. in_window ws pos a \<longrightarrow> slot a \<noteq> s) \<longrightarrow> vs ! s = -1)"

lemma window_pos [simp]: "0 < ZOPFLI_WINDOW_SIZE"
  by (simp add: ZOPFLI_WINDOW_SIZE_def)

lemma slot_mod: "slot a = a mod ZOPFLI_WINDOW_SIZE"
proof -
  have "a AND mask 15 = a mod 2 ^ 15" by (simp only: take_bit_eq_mask [symmetric] take_bit_eq_mod)
  then show ?thesis by (simp add: slot_def ZOPFLI_WINDOW_MASK_def ZOPFLI_WINDOW_SIZE_def mask_eq_exp_minus_1)
qed

lemma slot_less [simp]: "slot a < ZOPFLI_WINDOW_SIZE"
  by (simp add: slot_mod)

lemma slot_window [simp]: "slot (a + ZOPFLI_WINDOW_SIZE) = slot a"
  by (simp add: slot_mod)

text \<open>Two positions less than a window apart have different slots.\<close>

lemma slot_inject: "a < b + ZOPFLI_WINDOW_SIZE \<Longrightarrow> b < a + ZOPFLI_WINDOW_SIZE \<Longrightarrow> slot a = slot b \<longleftrightarrow> a = b"
  unfolding slot_mod by (metis add.commute le_add_diff_inverse less_diff_conv2 mod_eq_dvd_iff_nat nat_dvd_not_less nat_le_linear
    nat_less_le zero_less_diff)

text \<open>The distance between two slots, as the match finder computes it.\<close>

definition slot_dist :: "nat \<Rightarrow> nat \<Rightarrow> nat" where
  "slot_dist pp p = (if p < pp then pp - p else (ZOPFLI_WINDOW_SIZE - p) + pp)"

lemma slot_dist_self [simp]: "p < ZOPFLI_WINDOW_SIZE \<Longrightarrow> slot_dist p p = ZOPFLI_WINDOW_SIZE"
  by (simp add: slot_dist_def)

lemma slot_dist_slot:
  assumes "b < a" and "a < b + ZOPFLI_WINDOW_SIZE"
  shows "slot_dist (slot a) (slot b) = a - b"
proof -
  define W where "W = ZOPFLI_WINDOW_SIZE"
  have W: "0 < W" by (simp add: W_def)
  obtain k r where b: "b = k * W + r" "r < W" using W by (metis div_mult_mod_eq mod_less_divisor)
  define d where "d = a - b"
  have d: "a = b + d" "0 < d" "d < W" using assms by (simp_all add: d_def W_def)
  have sb: "b mod W = r" using b by simp
  show ?thesis
  proof (cases "r + d < W")
    case True
    moreover have "a = k * W + (r + d)" using b d by simp
    ultimately have "a mod W = r + d" by (metis mod_less mod_mult_self3)
    with sb d show ?thesis by (simp add: slot_dist_def slot_mod W_def)
  next
    case False
    have "a = Suc k * W + (r + d - W)" using False b d by simp
    moreover have "r + d - W < W" using b d by simp
    ultimately have "a mod W = r + d - W" by (metis mod_less mod_mult_self3)
    with sb b d False show ?thesis by (simp add: slot_dist_def slot_mod W_def)
  qed
qed

lemma in_window_Suc: "in_window ws (Suc pos) a \<longleftrightarrow> a = pos \<and> ws \<le> pos \<or> in_window ws pos a \<and> pos < a + ZOPFLI_WINDOW_SIZE"
  by (auto simp: in_window_def ZOPFLI_WINDOW_SIZE_def)

lemma chain_link_cong:
  assumes "chain_link hv ws ps a" and "ps' ! slot a = ps ! slot a" and "\<forall>b \<le> a. hv' b = hv b"
  shows "chain_link hv' ws ps' a"
  using assms unfolding chain_link_def by (metis le_refl less_imp_le_nat)

text \<open>Recording a position keeps the invariant.\<close>

lemma chain_insert_inv:
  assumes inv: "chain_inv hv ws pos hs ps vs" and ws: "ws \<le> pos" and v: "0 \<le> v" "v < 65536"
    and ins: "chain_insert (slot pos) v hs ps vs = (hs', ps', vs')"
  shows "chain_inv (hv(pos := v)) ws (Suc pos) hs' ps' vs' \<and> hs' ! nat v = int (slot pos)"
proof -
  let ?p = "nat (hs ! nat v)"
  have len: "length hs = 65536" "length ps = ZOPFLI_WINDOW_SIZE" "length vs = ZOPFLI_WINDOW_SIZE"
    using inv by (simp_all add: chain_inv_def)
  have out: "hs' = hs[nat v := int (slot pos)]" "vs' = vs[slot pos := v]"
      "ps' = ps[slot pos := (if hs ! nat v \<noteq> -1 \<and> vs' ! ?p = v then ?p else slot pos)]"
    using ins by (auto simp: chain_insert_def Let_def)
  have nv: "nat v < 65536" using v by simp
  have heads: "\<forall>x \<in> set hs'. x = -1 \<or> 0 \<le> x \<and> x < int ZOPFLI_WINDOW_SIZE"
    using inv by (auto simp: chain_inv_def out(1) dest!: set_update_subset_insert [THEN subsetD])
  have link: "chain_link (hv(pos := v)) ws ps' pos"
  proof (cases "hs ! nat v \<noteq> -1 \<and> vs' ! ?p = v \<and> ?p \<noteq> slot pos")
    case True
    have "hs ! nat v \<in> set hs" using len nv by simp
    then have p: "?p < ZOPFLI_WINDOW_SIZE" using inv True by (auto simp: chain_inv_def)
    then have "vs ! ?p = v" using True by (auto simp: out(2))
    then have "vs ! ?p \<noteq> -1" using v by simp
    then obtain b where b: "in_window ws pos b" "slot b = ?p" using inv p unfolding chain_inv_def by blast
    then have "hv b = v" using inv \<open>vs ! ?p = v\<close> by (metis chain_inv_def)
    moreover have "b + ZOPFLI_WINDOW_SIZE \<noteq> pos" using b True by auto
    ultimately show ?thesis
      using b True len by (auto simp: chain_link_def out(3) in_window_def intro!: exI [of _ b])
  next
    case False
    then show ?thesis using len by (auto simp: chain_link_def out(3))
  qed
  have old: "slot pos \<noteq> slot a" if "in_window ws pos a" "pos < a + ZOPFLI_WINDOW_SIZE" for a
    using that slot_inject [of a pos] by (auto simp: in_window_def)
  have entries: "vs' ! slot a = (hv(pos := v)) a \<and> chain_link (hv(pos := v)) ws ps' a" if "in_window ws (Suc pos) a" for a
  proof (cases "a = pos")
    case True
    then show ?thesis using link len by (simp add: out(2))
  next
    case False
    then have a: "in_window ws pos a" "pos < a + ZOPFLI_WINDOW_SIZE" using that by (auto simp: in_window_Suc)
    then have keep: "vs ! slot a = hv a" "chain_link hv ws ps a" using inv by (simp_all add: chain_inv_def)
    have "chain_link (hv(pos := v)) ws ps' a"
      using a keep(2) old [OF a] by (elim chain_link_cong) (auto simp: out(3) in_window_def)
    with keep old [OF a] False show ?thesis by (simp add: out(2))
  qed
  have fresh: "vs' ! s = -1" if "s < ZOPFLI_WINDOW_SIZE" "\<forall>a. in_window ws (Suc pos) a \<longrightarrow> slot a \<noteq> s" for s
  proof -
    have s: "s \<noteq> slot pos" using that(2) ws by (auto simp: in_window_Suc)
    have "slot a \<noteq> s" if "in_window ws pos a" for a
    proof (cases "pos < a + ZOPFLI_WINDOW_SIZE")
      case False
      then have "pos = a + ZOPFLI_WINDOW_SIZE" using that by (simp add: in_window_def)
      then have "slot a = slot pos" by simp
      with s show ?thesis by simp
    qed (use that \<open>\<forall>a. in_window ws (Suc pos) a \<longrightarrow> slot a \<noteq> s\<close> in \<open>auto simp: in_window_Suc\<close>)
    then have "vs ! s = -1" using inv \<open>s < ZOPFLI_WINDOW_SIZE\<close> by (auto simp: chain_inv_def)
    with s show ?thesis by (simp add: out(2))
  qed
  have "length hs' = 65536 \<and> length ps' = ZOPFLI_WINDOW_SIZE \<and> length vs' = ZOPFLI_WINDOW_SIZE" using len by (simp add: out)
  then have "chain_inv (hv(pos := v)) ws (Suc pos) hs' ps' vs'"
    using heads entries fresh by (auto simp: chain_inv_def)
  moreover have "hs' ! nat v = int (slot pos)" using len nv by (simp add: out)
  ultimately show ?thesis by simp
qed

lemma chain_inv_init: "chain_inv hv ws ws (replicate 65536 (-1)) [0..<ZOPFLI_WINDOW_SIZE] (replicate ZOPFLI_WINDOW_SIZE (-1))"
  by (auto simp: chain_inv_def in_window_def)

section \<open>The invariant of the hash\<close>

text \<open>A run: the \<open>n\<close> bytes after \<open>a\<close> are there and repeat it.\<close>

definition run_of :: "byte list \<Rightarrow> nat \<Rightarrow> nat \<Rightarrow> nat \<Rightarrow> bool" where
  "run_of arr e a n \<longleftrightarrow> (\<forall>i \<le> n. a + i < e \<and> arr ! (a + i) = arr ! a)"

definition same_inv :: "byte list \<Rightarrow> nat \<Rightarrow> nat \<Rightarrow> nat \<Rightarrow> nat list \<Rightarrow> bool" where
  "same_inv arr e ws pos ss \<longleftrightarrow> length ss = ZOPFLI_WINDOW_SIZE \<and>
     (\<forall>a. in_window ws pos a \<longrightarrow> ss ! slot a \<le> 65535 \<and> run_of arr e a (ss ! slot a)) \<and>
     (\<forall>s < ZOPFLI_WINDOW_SIZE. (\<forall>a. in_window ws pos a \<longrightarrow> slot a \<noteq> s) \<longrightarrow> ss ! s = 0)"

definition hash_inv :: "byte list \<Rightarrow> nat \<Rightarrow> (nat \<Rightarrow> int) \<Rightarrow> (nat \<Rightarrow> int) \<Rightarrow> nat \<Rightarrow> nat \<Rightarrow> ZopfliHash \<Rightarrow> bool" where
  "hash_inv arr e hv hv2 ws pos h \<longleftrightarrow>
     chain_inv hv ws pos (head h) (prev h) (hashval h) \<and> chain_inv hv2 ws pos (head2 h) (prev2 h) (hashval2 h) \<and>
     same_inv arr e ws pos (same h) \<and> 0 \<le> val h \<and> val h < 32768 \<and> 0 \<le> val2 h \<and> val2 h < 32768 \<and>
     (ws < pos \<longrightarrow> hv (pos - 1) = val h \<and> hv2 (pos - 1) = val2 h \<and>
        head h ! nat (val h) = int (slot (pos - 1)) \<and> head2 h ! nat (val2 h) = int (slot (pos - 1)))"

lemma slot_before_Suc [simp]: "slot_before (Suc a) = slot a"
proof -
  have "slot_before (Suc a) = slot (a + 2 ^ 49 * ZOPFLI_WINDOW_SIZE)"
    by (simp add: slot_before_def ZOPFLI_WINDOW_SIZE_def add.commute)
  then show ?thesis by (simp add: slot_mod)
qed

lemma slot_before_less [simp]: "slot_before a < ZOPFLI_WINDOW_SIZE"
  by (simp add: slot_before_def)

lemma same_loop_run:
  assumes "run_of arr e pos n" and "n \<le> 65535"
  shows "same_loop arr pos e n \<le> 65535 \<and> run_of arr e pos (same_loop arr pos e n)"
  using assms
proof (induction arr pos e n rule: same_loop.induct)
  case (1 arr pos e n)
  show ?case
  proof (cases "pos + n + 1 < e \<and> arr ! pos = arr ! (pos + n + 1) \<and> n < 65535")
    case True
    then have "run_of arr e pos (n + 1)" using "1.prems" by (auto simp: run_of_def le_Suc_eq)
    with "1.IH" True show ?thesis by (subst (1 2) same_loop.simps) auto
  next
    case False
    then have "same_loop arr pos e n = n" by (subst same_loop.simps) auto
    with "1.prems" show ?thesis by simp
  qed
qed

lemma run_of_Suc: "run_of arr e a n \<Longrightarrow> 1 < n \<Longrightarrow> run_of arr e (Suc a) (n - 1)"
  by (auto simp: run_of_def) (metis Suc_leI add_Suc_right Suc_leD diff_Suc_1 le_diff_conv add.commute plus_1_eq_Suc nat_less_le
    less_imp_Suc_add One_nat_def)

lemma run_of_0: "run_of arr e a 0 \<longleftrightarrow> a < e"
  by (simp add: run_of_def)

lemma same_inv_update:
  assumes inv: "same_inv arr e ws pos ss" and ws: "ws \<le> pos" and e: "pos < e"
  defines "before \<equiv> ss ! slot_before pos"
  defines "amount \<equiv> same_loop arr pos e (if before > 1 then before - 1 else 0)"
  shows "same_inv arr e ws (Suc pos) (ss[slot pos := amount])"
proof -
  have "before \<le> 65535 \<and> (before > 1 \<longrightarrow> run_of arr e pos (before - 1))"
  proof (cases "ws < pos")
    case True
    then obtain a where a: "pos = Suc a" by (cases pos) auto
    then have "in_window ws pos a" using True by (simp add: in_window_def Suc_le_eq)
    then show ?thesis using inv run_of_Suc [of arr e a] by (auto simp: before_def a same_inv_def)
  next
    case False
    then have "\<forall>a. \<not> in_window ws pos a" by (auto simp: in_window_def)
    then have "before = 0" using inv by (simp add: before_def same_inv_def)
    then show ?thesis by simp
  qed
  then have new: "amount \<le> 65535 \<and> run_of arr e pos amount"
    unfolding amount_def using e by (intro same_loop_run) (auto simp: run_of_0)
  have old: "slot pos \<noteq> slot a" if "in_window ws pos a" "pos < a + ZOPFLI_WINDOW_SIZE" for a
    using that slot_inject [of a pos] by (auto simp: in_window_def)
  have "ss[slot pos := amount] ! s = 0" if "s < ZOPFLI_WINDOW_SIZE" "\<forall>a. in_window ws (Suc pos) a \<longrightarrow> slot a \<noteq> s" for s
  proof -
    have s: "s \<noteq> slot pos" using that(2) ws by (auto simp: in_window_Suc)
    have "slot a \<noteq> s" if a: "in_window ws pos a" for a
      using that \<open>\<forall>a. in_window ws (Suc pos) a \<longrightarrow> slot a \<noteq> s\<close> s slot_window [of a]
      by (cases "pos < a + ZOPFLI_WINDOW_SIZE") (auto simp: in_window_Suc in_window_def dest: le_neq_implies_less)
    with s that(1) inv show ?thesis by (simp add: same_inv_def)
  qed
  then show ?thesis
    using inv new old by (auto simp: same_inv_def in_window_Suc)
qed

lemma hash_value_range: "0 \<le> (x AND 32767 :: int) \<and> (x AND 32767 :: int) < 32768"
  using and_mask_mod [of x 15] by simp

lemma second_hash_range: "0 \<le> v \<Longrightarrow> v < 32768 \<Longrightarrow> 0 \<le> ((x AND 255) XOR v :: int) \<and> ((x AND 255) XOR v) < 32768"
  using and_mask_mod [of x 8] XOR_upper [of "x AND 255" 15 v] by simp

text \<open>The position's own value, the second hash, and the run after it: every part of the hash follows the data.\<close>

lemma ZopfliUpdateHash_inv:
  assumes inv: "hash_inv arr e hv hv2 ws pos h" and ws: "ws \<le> pos" and e: "pos < e"
  defines "h' \<equiv> ZopfliUpdateHash arr pos e h"
  shows "hash_inv arr e (hv(pos := val h')) (hv2(pos := val2 h')) ws (Suc pos) h'"
proof -
  define u where "u = UpdateHashValue h (if pos + ZOPFLI_MIN_MATCH \<le> e then arr ! (pos + ZOPFLI_MIN_MATCH - 1) else 0)"
  have u: "head u = head h" "prev u = prev h" "hashval u = hashval h" "same u = same h" "head2 u = head2 h"
      "prev2 u = prev2 h" "hashval2 u = hashval2 h" "0 \<le> val u" "val u < 32768"
    using hash_value_range by (simp_all add: u_def UpdateHashValue_def del: ZOPFLI_MIN_MATCH_def)
  define amount where "amount = same_loop arr pos e (if same h ! slot_before pos > 1 then same h ! slot_before pos - 1 else 0)"
  define v2 where "v2 = ((int amount - 3) AND 255) XOR val u"
  have v2: "0 \<le> v2" "v2 < 32768" using second_hash_range u(8,9) by (simp_all add: v2_def)
  obtain hs ps vs where c1: "chain_insert (slot pos) (val u) (head h) (prev h) (hashval h) = (hs, ps, vs)"
    by (metis prod_cases3)
  obtain hs2 ps2 vs2 where c2: "chain_insert (slot pos) v2 (head2 h) (prev2 h) (hashval2 h) = (hs2, ps2, vs2)"
    by (metis prod_cases3)
  have h': "h' = u\<lparr>head := hs, prev := ps, hashval := vs, same := (same h)[slot pos := amount],
       val2 := v2, head2 := hs2, prev2 := ps2, hashval2 := vs2\<rparr>"
    unfolding h'_def ZopfliUpdateHash_def Let_def u_def [symmetric] u(1-7) amount_def [symmetric]
    using c1 c2 by (simp add: v2_def)
  have "chain_inv (hv(pos := val u)) ws (Suc pos) hs ps vs \<and> hs ! nat (val u) = int (slot pos)"
    using inv ws u(8,9) by (intro chain_insert_inv [OF _ _ _ _ c1]) (simp_all add: hash_inv_def)
  moreover have "chain_inv (hv2(pos := v2)) ws (Suc pos) hs2 ps2 vs2 \<and> hs2 ! nat v2 = int (slot pos)"
    using inv ws v2 by (intro chain_insert_inv [OF _ _ _ _ c2]) (simp_all add: hash_inv_def)
  moreover have "same_inv arr e ws (Suc pos) ((same h)[slot pos := amount])"
    unfolding amount_def using inv ws e by (intro same_inv_update) (simp_all add: hash_inv_def)
  ultimately show ?thesis using u(8,9) v2 ws by (simp add: hash_inv_def h')
qed

lemma ZopfliWarmupHash_inv:
  assumes "ws + 1 < length arr"
  shows "\<exists>h. ZopfliWarmupHash arr ws (ZopfliInitHash ZOPFLI_WINDOW_SIZE) = Inr h \<and> hash_inv arr e hv hv2 ws ws h"
proof -
  have "same_inv arr e ws ws (replicate ZOPFLI_WINDOW_SIZE 0)" by (auto simp: same_inv_def in_window_def)
  then show ?thesis
    using assms hash_value_range chain_inv_init
    by (auto simp: ZopfliWarmupHash_def hash_inv_def ZopfliInitHash_def UpdateHashValue_def)
qed

text \<open>The hash any pass has once it has inserted every position before \<open>pos\<close>.\<close>

definition hash_at :: "byte list \<Rightarrow> nat \<Rightarrow> nat \<Rightarrow> nat \<Rightarrow> ZopfliHash" where
  "hash_at arr instart inend pos =
     (case window_hash arr instart inend of
        Inl f \<Rightarrow> ZopfliInitHash ZOPFLI_WINDOW_SIZE
      | Inr h \<Rightarrow> update_range arr instart pos inend h)"

lemma update_range_empty [simp]: "b \<le> a \<Longrightarrow> update_range arr a b e h = h"
  by (simp add: update_range_def)

lemma update_range_Suc: "a \<le> b \<Longrightarrow> update_range arr a (Suc b) e h = ZopfliUpdateHash arr b e (update_range arr a b e h)"
  by (simp add: update_range_def)

lemma update_range_append: "a \<le> b \<Longrightarrow> b \<le> c \<Longrightarrow> update_range arr b c e (update_range arr a b e h) = update_range arr a c e h"
  by (simp add: update_range_def flip: fold_append) (metis fold_append le_Suc_ex upt_add_eq_append comp_apply)

lemma update_range_inv:
  assumes "hash_inv arr e hv hv2 ws a h" and "ws \<le> a" and "a \<le> b" and "b \<le> e"
  shows "\<exists>hv hv2. hash_inv arr e hv hv2 ws b (update_range arr a b e h)"
  using assms(3,4)
proof (induction b rule: dec_induct)
  case base
  then show ?case using assms(1) by auto
next
  case (step n)
  then obtain hv hv2 where "hash_inv arr e hv hv2 ws n (update_range arr a n e h)" by auto
  then have "hash_inv arr e (hv(n := val (ZopfliUpdateHash arr n e (update_range arr a n e h))))
      (hv2(n := val2 (ZopfliUpdateHash arr n e (update_range arr a n e h)))) ws (Suc n)
      (ZopfliUpdateHash arr n e (update_range arr a n e h))"
    using step assms(2) by (intro ZopfliUpdateHash_inv) simp_all
  then show ?case using step by (auto simp: update_range_Suc)
qed

lemma windowstart_le [simp]: "windowstart instart \<le> instart"
  by (simp add: windowstart_def)

lemma window_hash_hash_at:
  assumes "windowstart instart + 1 < length arr"
  shows "window_hash arr instart inend = Inr (hash_at arr instart inend instart)"
  using ZopfliWarmupHash_inv [OF assms] by (force simp: window_hash_def hash_at_def)

lemma hash_at_Suc: "windowstart instart + 1 < length arr \<Longrightarrow> instart \<le> pos \<Longrightarrow>
    ZopfliUpdateHash arr pos inend (hash_at arr instart inend pos) = hash_at arr instart inend (Suc pos)"
  using window_hash_hash_at [of instart arr inend] by (cases "window_hash arr instart inend") (simp_all add: hash_at_def update_range_Suc)

lemma hash_at_range: "windowstart instart + 1 < length arr \<Longrightarrow> instart \<le> a \<Longrightarrow> a \<le> b \<Longrightarrow>
    update_range arr a b inend (hash_at arr instart inend a) = hash_at arr instart inend b"
  using window_hash_hash_at [of instart arr inend] by (cases "window_hash arr instart inend") (simp_all add: hash_at_def update_range_append)

lemma hash_at_inv:
  assumes "windowstart instart + 1 < length arr" and "instart \<le> pos" and "pos \<le> inend"
  shows "\<exists>hv hv2. hash_inv arr inend hv hv2 (windowstart instart) pos (hash_at arr instart inend pos)"
proof -
  obtain h where h: "ZopfliWarmupHash arr (windowstart instart) (ZopfliInitHash ZOPFLI_WINDOW_SIZE) = Inr h"
      "\<And>hv hv2. hash_inv arr inend hv hv2 (windowstart instart) (windowstart instart) h"
    using ZopfliWarmupHash_inv [OF assms(1)] by (metis sum.inject(2))
  have "hash_at arr instart inend pos = update_range arr (windowstart instart) pos inend h"
    using h(1) assms(2) by (simp add: hash_at_def window_hash_def update_range_append)
  with update_range_inv [OF h(2)] assms show ?thesis by (metis windowstart_le le_trans order_refl)
qed

section \<open>Properties\<close>

definition chain_typed :: "nat \<Rightarrow> nat \<Rightarrow> int list \<Rightarrow> nat list \<Rightarrow> bool" where
  "chain_typed ws pos hs ps \<longleftrightarrow> length hs = 65536 \<and> length ps = 32768 \<and> (\<forall>x \<in> set hs. -1 \<le> x \<and> x < 32768) \<and>
     (\<forall>a. in_window ws pos a \<longrightarrow> ps ! slot a < 32768 \<and> (ps ! slot a = slot a \<or> (\<exists>b. ws \<le> b \<and> b < a \<and> a < b + 32768 \<and> ps ! slot a = slot b)))"

lemma chain_inv_typed: "chain_inv hv ws pos hs ps vs \<Longrightarrow> chain_typed ws pos hs ps"
proof -
  assume inv: "chain_inv hv ws pos hs ps vs"
  have slot: "slot a < 32768" for a using window_pos by (simp add: slot_mod ZOPFLI_WINDOW_SIZE_def)
  have "ps ! slot a = slot a \<or> (\<exists>b. ws \<le> b \<and> b < a \<and> a < b + 32768 \<and> ps ! slot a = slot b)" if "in_window ws pos a" for a
    using inv that unfolding chain_inv_def chain_link_def ZOPFLI_WINDOW_SIZE_def by blast
  moreover from this slot have "ps ! slot a < 32768" if "in_window ws pos a" for a using that by metis
  ultimately show ?thesis using inv by (auto simp: chain_typed_def chain_inv_def ZOPFLI_WINDOW_SIZE_def)
qed

text \<open>
  C39. The tables of the hash keep their type whatever the data: before any position of a block the heads are -1 or
  slots of the window, the two hash values are 15-bit numbers, and the predecessor of every position still in the window
  is its own slot, which ends the chain, or the slot of an earlier position less than a window away: a walk along a
  chain stays inside the tables and goes back in the data.
\<close>

theorem hash_tables_typed:
  assumes "windowstart instart + 1 < length arr" and "instart \<le> pos" and "pos \<le> inend"
  shows "\<exists>h. window_hash arr instart inend = Inr h \<and>
    (let h' = update_range arr instart pos inend h
     in chain_typed (windowstart instart) pos (head h') (prev h') \<and> chain_typed (windowstart instart) pos (head2 h') (prev2 h') \<and>
        0 \<le> val h' \<and> val h' < 2 ^ 15 \<and> 0 \<le> val2 h' \<and> val2 h' < 2 ^ 15 \<and> length (same h') = 32768)"
proof -
  obtain h where h: "ZopfliWarmupHash arr (windowstart instart) (ZopfliInitHash ZOPFLI_WINDOW_SIZE) = Inr h"
    using ZopfliWarmupHash_inv [OF assms(1), of inend] by blast
  then have run: "window_hash arr instart inend = Inr (update_range arr (windowstart instart) instart inend h)"
    by (simp add: window_hash_def)
  obtain hv hv2 where inv: "hash_inv arr inend hv hv2 (windowstart instart) pos (hash_at arr instart inend pos)"
    using hash_at_inv [OF assms] by blast
  have "hash_at arr instart inend pos = update_range arr instart pos inend (update_range arr (windowstart instart) instart inend h)"
    by (simp add: hash_at_def run)
  with inv run show ?thesis
    by (auto simp: hash_inv_def same_inv_def ZOPFLI_WINDOW_SIZE_def Let_def dest: chain_inv_typed)
qed

theorem hash_tables_typed_witness:
  "\<exists>h. window_hash [1, 2, 3, 1, 2, 3] 0 6 = Inr h \<and>
    (let h' = update_range [1, 2, 3, 1, 2, 3] 0 4 6 h
     in chain_typed (windowstart 0) 4 (head h') (prev h') \<and> chain_typed (windowstart 0) 4 (head2 h') (prev2 h') \<and>
        0 \<le> val h' \<and> val h' < 2 ^ 15 \<and> 0 \<le> val2 h' \<and> val2 h' < 2 ^ 15 \<and> length (same h') = 32768)"
  by (rule hash_tables_typed) (simp_all add: windowstart_def)

end
