(* ===== verification/Zopfli_Cache.thy ===== *)
theory Zopfli_Cache
  imports Zopfli_Hash
begin

text \<open>
  \<^verbatim>\<open>cache.cc\<close>: the cache of longest matches. For every position of a block it keeps the length and distance found
  there and, in eight triples of bytes, for runs of lengths the distance each length was first reached with. What is
  written is read back (\<open>sublen_cache_roundtrip\<close>), and no assertion of the routines fails.
\<close>

section \<open>Operations\<close>

record ZopfliLongestMatchCache =
  lmc_length :: "nat list"
  lmc_dist :: "nat list"
  lmc_sublen :: "nat list"

definition ZopfliInitCache :: "nat \<Rightarrow> ZopfliLongestMatchCache" where
  "ZopfliInitCache blocksize =
     \<lparr>lmc_length = replicate blocksize 1, lmc_dist = replicate blocksize 0,
      lmc_sublen = replicate (ZOPFLI_CACHE_LENGTH * blocksize * 3) 0\<rparr>"

definition cache_base :: "nat \<Rightarrow> nat" where
  "cache_base pos = ZOPFLI_CACHE_LENGTH * pos * 3"

text \<open>The length up to which distances are stored at a position, 0 when there is none.\<close>

definition ZopfliMaxCachedSublen :: "ZopfliLongestMatchCache \<Rightarrow> nat \<Rightarrow> nat" where
  "ZopfliMaxCachedSublen lmc pos =
     (let c = lmc_sublen lmc; base = cache_base pos
      in if c ! (base + 1) = 0 \<and> c ! (base + 2) = 0 then 0 else c ! (base + (ZOPFLI_CACHE_LENGTH - 1) * 3) + 3)"

function SublenToCache_loop :: "nat list \<Rightarrow> nat \<Rightarrow> nat \<Rightarrow> nat \<Rightarrow> nat \<Rightarrow> nat \<Rightarrow> nat list \<Rightarrow> nat list \<times> nat \<times> nat" where
  "SublenToCache_loop sublen len base i j bestlength c =
     (if i \<le> len
      then if i = len \<or> sublen ! i \<noteq> sublen ! (i + 1)
           then let c' = c[base + j * 3 := (i - 3) mod 256,
                           base + j * 3 + 1 := sublen ! i mod 256,
                           base + j * 3 + 2 := sublen ! i div 256 mod 256]
                in if j + 1 \<ge> ZOPFLI_CACHE_LENGTH then (c', j + 1, i)
                   else SublenToCache_loop sublen len base (i + 1) (j + 1) i c'
           else SublenToCache_loop sublen len base (i + 1) j bestlength c
      else (c, j, bestlength))"
  by auto
termination by (relation "measure (\<lambda>(sublen, len, base, i, j, bestlength, c). Suc len - i)") auto

declare SublenToCache_loop.simps [simp del]

definition ZopfliSublenToCache :: "nat list \<Rightarrow> nat \<Rightarrow> nat \<Rightarrow> ZopfliLongestMatchCache \<Rightarrow> failure + ZopfliLongestMatchCache" where
  "ZopfliSublenToCache sublen pos len lmc =
     (if len < 3 then Inr lmc
      else let base = cache_base pos;
               (c, j, bestlength) = SublenToCache_loop sublen len base 3 0 0 (lmc_sublen lmc)
           in and_then (if j < ZOPFLI_CACHE_LENGTH
                        then and_then (assertion (bestlength = len)) (\<lambda>_.
                          Inr (c[base + (ZOPFLI_CACHE_LENGTH - 1) * 3 := (bestlength - 3) mod 256]))
                        else and_then (assertion (bestlength \<le> len)) (\<lambda>_. Inr c)) (\<lambda>c'.
                let lmc' = lmc\<lparr>lmc_sublen := c'\<rparr>
                in and_then (assertion (bestlength = ZopfliMaxCachedSublen lmc' pos)) (\<lambda>_. Inr lmc')))"

definition fill :: "nat \<Rightarrow> nat \<Rightarrow> nat \<Rightarrow> nat list \<Rightarrow> nat list" where
  "fill a b x xs = fold (\<lambda>i ys. ys[i := x]) [a..<b] xs"

function CacheToSublen_loop :: "nat list \<Rightarrow> nat \<Rightarrow> nat \<Rightarrow> nat \<Rightarrow> nat \<Rightarrow> nat list \<Rightarrow> nat list" where
  "CacheToSublen_loop c base maxlength j prevlength sublen =
     (if j < ZOPFLI_CACHE_LENGTH
      then let len = c ! (base + j * 3) + 3;
               dist = c ! (base + j * 3 + 1) + 256 * c ! (base + j * 3 + 2);
               sublen' = fill prevlength (len + 1) dist sublen
           in if len = maxlength then sublen' else CacheToSublen_loop c base maxlength (j + 1) (len + 1) sublen'
      else sublen)"
  by auto
termination by (relation "measure (\<lambda>(c, base, maxlength, j, prevlength, sublen). ZOPFLI_CACHE_LENGTH - j)") auto

declare CacheToSublen_loop.simps [simp del]

definition ZopfliCacheToSublen :: "ZopfliLongestMatchCache \<Rightarrow> nat \<Rightarrow> nat \<Rightarrow> nat list \<Rightarrow> nat list" where
  "ZopfliCacheToSublen lmc pos len sublen =
     (let maxlength = ZopfliMaxCachedSublen lmc pos
      in if len < 3 then sublen else CacheToSublen_loop (lmc_sublen lmc) (cache_base pos) maxlength 0 0 sublen)"

section \<open>What a cache block holds\<close>

text \<open>The runs of a block from the \<open>k\<close>th on: they cover the lengths from \<open>lo\<close> to \<open>m\<close> with the distances \<open>D\<close>.\<close>

function runs_at :: "nat list \<Rightarrow> nat \<Rightarrow> (nat \<Rightarrow> nat) \<Rightarrow> nat \<Rightarrow> nat \<Rightarrow> nat \<Rightarrow> bool" where
  "runs_at c base D m k lo \<longleftrightarrow>
     (if k < ZOPFLI_CACHE_LENGTH
      then let len = c ! (base + k * 3) + 3
           in lo \<le> len \<and> len \<le> m \<and>
              (\<forall>x. lo \<le> x \<and> x \<le> len \<longrightarrow> c ! (base + k * 3 + 1) + 256 * c ! (base + k * 3 + 2) = D x) \<and>
              (len = m \<or> runs_at c base D m (k + 1) (len + 1))
      else False)"
  by auto
termination by (relation "measure (\<lambda>(c, base, D, m, k, lo). ZOPFLI_CACHE_LENGTH - k)") auto

declare runs_at.simps [simp del]

lemma length_fill [simp]: "length (fill a b x xs) = length xs"
proof -
  have "length (fold (\<lambda>i ys. ys[i := x]) is xs) = length xs" for "is" by (induction "is" arbitrary: xs) simp_all
  then show ?thesis by (simp add: fill_def)
qed

lemma nth_fill: "i < length xs \<Longrightarrow> fill a b x xs ! i = (if a \<le> i \<and> i < b then x else xs ! i)"
proof (induction b)
  case (Suc b)
  have "fill a (Suc b) x xs = (if a \<le> b then (fill a b x xs)[b := x] else fill a b x xs)" by (simp add: fill_def)
  with Suc show ?case by (auto simp: nth_list_update)
qed (simp add: fill_def)

lemma runs_atI:
  assumes "k < ZOPFLI_CACHE_LENGTH" and "c ! (base + k * 3) = len - 3" and "3 \<le> len" and "lo \<le> len" and "len \<le> m"
    and "c ! (base + k * 3 + 1) + 256 * c ! (base + k * 3 + 2) = D len" and "\<forall>x. lo \<le> x \<and> x \<le> len \<longrightarrow> D len = D x"
    and "len = m \<or> runs_at c base D m (k + 1) (len + 1)"
  shows "runs_at c base D m k lo"
  using assms by (subst runs_at.simps) (simp add: Let_def)

lemma runs_atE:
  assumes "runs_at c base D m k lo"
  obtains len dist where "k < ZOPFLI_CACHE_LENGTH" "len = c ! (base + k * 3) + 3" "lo \<le> len" "len \<le> m"
    "dist = c ! (base + k * 3 + 1) + 256 * c ! (base + k * 3 + 2)" "\<And>x. lo \<le> x \<Longrightarrow> x \<le> len \<Longrightarrow> D x = dist"
    "len = m \<or> runs_at c base D m (k + 1) (len + 1)"
  using assms by (subst (asm) runs_at.simps) (auto simp: Let_def split: if_splits)

text \<open>Reading.\<close>

lemma CacheToSublen_loop_step:
  "k < ZOPFLI_CACHE_LENGTH \<Longrightarrow> len = c ! (base + k * 3) + 3 \<Longrightarrow> dist = c ! (base + k * 3 + 1) + 256 * c ! (base + k * 3 + 2) \<Longrightarrow>
   CacheToSublen_loop c base m k prevlength sublen =
     (if len = m then fill prevlength (len + 1) dist sublen
      else CacheToSublen_loop c base m (k + 1) (len + 1) (fill prevlength (len + 1) dist sublen))"
  by (subst CacheToSublen_loop.simps) (simp add: Let_def)

lemma CacheToSublen_loop_runs:
  assumes "runs_at c base D m k lo" and "prevlength \<le> lo" and "m < length sublen"
  defines "s \<equiv> CacheToSublen_loop c base m k prevlength sublen"
  shows "length s = length sublen \<and> (\<forall>x. lo \<le> x \<and> x \<le> m \<longrightarrow> s ! x = D x) \<and> (\<forall>x < prevlength. s ! x = sublen ! x)"
  using assms(1-3) unfolding s_def
proof (induction "ZOPFLI_CACHE_LENGTH - k" arbitrary: k lo prevlength sublen rule: less_induct)
  case less
  from less.prems(1) show ?case
  proof (cases rule: runs_atE)
    case (1 len dist)
    let ?s = "fill prevlength (len + 1) dist sublen"
    note step = CacheToSublen_loop_step [OF 1(1,2,5)]
    show ?thesis
    proof (cases "len = m")
      case True
      with 1(3,4,6) less.prems(2,3) show ?thesis by (auto simp: step nth_fill)
    next
      case False
      let ?t = "CacheToSublen_loop c base m (k + 1) (len + 1) ?s"
      have "length ?t = length ?s \<and> (\<forall>x. len + 1 \<le> x \<and> x \<le> m \<longrightarrow> ?t ! x = D x) \<and> (\<forall>x < len + 1. ?t ! x = ?s ! x)"
        using False 1 less.prems(3) by (intro less.hyps) auto
      then have t: "length ?t = length sublen" "\<And>x. len < x \<Longrightarrow> x \<le> m \<Longrightarrow> ?t ! x = D x" "\<And>x. x \<le> len \<Longrightarrow> ?t ! x = ?s ! x"
        by auto
      have "?t ! x = D x" if "lo \<le> x" "x \<le> m" for x
        using that t 1 less.prems(2,3) by (cases "x \<le> len") (auto simp: nth_fill)
      moreover have "?t ! x = sublen ! x" if "x < prevlength" for x
        using that t(3) 1(3,4) less.prems(2,3) by (auto simp: nth_fill)
      ultimately show ?thesis using False t(1) by (simp add: step)
    qed
  qed
qed

text \<open>Writing. What is written at and after the \<open>j\<close>th run does not depend on the rest of the cache.\<close>

definition same_runs :: "nat list \<Rightarrow> nat list \<Rightarrow> nat \<Rightarrow> nat \<Rightarrow> nat \<Rightarrow> bool" where
  "same_runs c c' base j j' \<longleftrightarrow> (\<forall>x. base + j * 3 \<le> x \<and> x < base + j' * 3 \<longrightarrow> c ! x = c' ! x)"

lemma SublenToCache_loop_step:
  assumes "i \<le> len" and "3 \<le> i" and "len \<le> 258" and "sublen ! i < 65536"
  shows "SublenToCache_loop sublen len base i j best c =
    (if i < len \<and> sublen ! i = sublen ! (i + 1) then SublenToCache_loop sublen len base (i + 1) j best c
     else let c' = c[base + j * 3 := i - 3, base + j * 3 + 1 := sublen ! i mod 256, base + j * 3 + 2 := sublen ! i div 256]
          in if j + 1 \<ge> ZOPFLI_CACHE_LENGTH \<or> i = len then (c', j + 1, i)
             else SublenToCache_loop sublen len base (i + 1) (j + 1) i c')"
proof -
  have "(i - 3) mod 256 = i - 3" "sublen ! i div 256 mod 256 = sublen ! i div 256"
    using assms by (simp_all add: less_mult_imp_div_less)
  moreover have "SublenToCache_loop sublen len base (len + 1) j best c = (c, j, best)" for j best c
    by (subst SublenToCache_loop.simps) simp
  ultimately show ?thesis using assms(1) by (subst SublenToCache_loop.simps) (auto simp: Let_def)
qed

lemma SublenToCache_loop_runs:
  assumes "i \<le> len" and "3 \<le> i" and "len \<le> 258" and "j < ZOPFLI_CACHE_LENGTH"
    and "\<And>x. 3 \<le> x \<Longrightarrow> x \<le> len \<Longrightarrow> sublen ! x < 65536" and "base + 24 \<le> length c"
    and "SublenToCache_loop sublen len base i j best0 c = (c', j', best)"
    and "lo \<le> i" and "\<forall>x. lo \<le> x \<and> x \<le> i \<longrightarrow> sublen ! i = sublen ! x"
  shows "j < j' \<and> j' \<le> ZOPFLI_CACHE_LENGTH \<and> length c' = length c \<and> i \<le> best \<and> best \<le> len \<and>
    (j' < ZOPFLI_CACHE_LENGTH \<longrightarrow> best = len) \<and> c' ! (base + (j' - 1) * 3) = best - 3 \<and>
    (\<forall>x. x < base + j * 3 \<or> base + j' * 3 \<le> x \<longrightarrow> c' ! x = c ! x) \<and>
    (\<forall>c''. same_runs c' c'' base j j' \<longrightarrow> runs_at c'' base (\<lambda>x. sublen ! x) best j lo)"
  using assms
proof (induction "Suc len - i" arbitrary: i j best0 c lo rule: less_induct)
  case less
  note step = SublenToCache_loop_step [OF less.prems(1-3) less.prems(5) [OF less.prems(2,1)], of base j best0 c]
  let ?c = "c[base + j * 3 := i - 3, base + j * 3 + 1 := sublen ! i mod 256, base + j * 3 + 2 := sublen ! i div 256]"
  show ?case
  proof (cases "i < len \<and> sublen ! i = sublen ! (i + 1)")
    case True
    then have next_i: "SublenToCache_loop sublen len base (i + 1) j best0 c = (c', j', best)"
      using less.prems(7) step by simp
    have "\<forall>x. lo \<le> x \<and> x \<le> i + 1 \<longrightarrow> sublen ! (i + 1) = sublen ! x"
      using less.prems(9) True by (auto simp: le_Suc_eq)
    then have "j < j' \<and> j' \<le> ZOPFLI_CACHE_LENGTH \<and> length c' = length c \<and> i + 1 \<le> best \<and> best \<le> len \<and>
        (j' < ZOPFLI_CACHE_LENGTH \<longrightarrow> best = len) \<and> c' ! (base + (j' - 1) * 3) = best - 3 \<and>
        (\<forall>x. x < base + j * 3 \<or> base + j' * 3 \<le> x \<longrightarrow> c' ! x = c ! x) \<and>
        (\<forall>c''. same_runs c' c'' base j j' \<longrightarrow> runs_at c'' base (\<lambda>x. sublen ! x) best j lo)"
      using True less.prems by (intro less.hyps [OF _ _ _ _ _ _ _ next_i]) auto
    then show ?thesis by simp
  next
    case end_of_run: False
    have j: "base + j * 3 + 2 < length c" using less.prems(4,6) by (simp add: ZOPFLI_CACHE_LENGTH_def)
    have written: "?c ! (base + j * 3) = i - 3" "?c ! (base + j * 3 + 1) = sublen ! i mod 256"
        "?c ! (base + j * 3 + 2) = sublen ! i div 256"
      using j by simp_all
    have other: "?c ! x = c ! x" if "x < base + j * 3 \<or> base + Suc j * 3 \<le> x" for x using that by auto
    have first: "runs_at c'' base (\<lambda>x. sublen ! x) m j lo"
      if "\<forall>x. base + j * 3 \<le> x \<and> x \<le> base + j * 3 + 2 \<longrightarrow> c'' ! x = ?c ! x" "i \<le> m"
        "i = m \<or> runs_at c'' base (\<lambda>x. sublen ! x) m (j + 1) (i + 1)" for c'' m
      using that written less.prems(2,4,8,9) by (intro runs_atI [where len = i]) auto
    show ?thesis
    proof (cases "j + 1 \<ge> ZOPFLI_CACHE_LENGTH \<or> i = len")
      case True
      then have out: "c' = ?c" "j' = j + 1" "best = i" using less.prems(7) step end_of_run by (auto simp: Let_def)
      have "runs_at c'' base (\<lambda>x. sublen ! x) i j lo" if "same_runs c' c'' base j j'" for c''
        using that by (intro first) (auto simp: same_runs_def out)
      then show ?thesis using other written(1) less.prems(1,4) True by (auto simp: out)
    next
      case False
      then have next_j: "SublenToCache_loop sublen len base (i + 1) (j + 1) i ?c = (c', j', best)"
        using less.prems(7) step end_of_run by (auto simp: Let_def split: if_splits)
      have IH: "j + 1 < j' \<and> j' \<le> ZOPFLI_CACHE_LENGTH \<and> length c' = length ?c \<and> i + 1 \<le> best \<and> best \<le> len \<and>
          (j' < ZOPFLI_CACHE_LENGTH \<longrightarrow> best = len) \<and> c' ! (base + (j' - 1) * 3) = best - 3 \<and>
          (\<forall>x. x < base + (j + 1) * 3 \<or> base + j' * 3 \<le> x \<longrightarrow> c' ! x = ?c ! x) \<and>
          (\<forall>c''. same_runs c' c'' base (j + 1) j' \<longrightarrow> runs_at c'' base (\<lambda>x. sublen ! x) best (j + 1) (i + 1))"
        using False less.prems by (intro less.hyps [OF _ _ _ _ _ _ _ next_j]) auto
      have "runs_at c'' base (\<lambda>x. sublen ! x) best j lo" if c'': "same_runs c' c'' base j j'" for c''
      proof (rule first)
        have "c'' ! x = c' ! x \<and> c' ! x = ?c ! x" if "base + j * 3 \<le> x" "x \<le> base + j * 3 + 2" for x
          using that c'' IH by (auto simp: same_runs_def)
        then show "\<forall>x. base + j * 3 \<le> x \<and> x \<le> base + j * 3 + 2 \<longrightarrow> c'' ! x = ?c ! x" by simp
        have "same_runs c' c'' base (j + 1) j'" using c'' by (auto simp: same_runs_def)
        then show "i = best \<or> runs_at c'' base (\<lambda>x. sublen ! x) best (j + 1) (i + 1)" using IH by simp
      qed (use IH in simp)
      then show ?thesis using IH other by auto
    qed
  qed
qed

lemma ZopfliSublenToCache_stores:
  assumes len: "3 \<le> len" "len \<le> 258" and dists: "\<And>x. 3 \<le> x \<Longrightarrow> x \<le> len \<Longrightarrow> 0 < sublen ! x \<and> sublen ! x < 65536"
    and room: "cache_base (Suc pos) \<le> length (lmc_sublen lmc)"
  shows "\<exists>lmc'. ZopfliSublenToCache sublen pos len lmc = Inr lmc' \<and>
    lmc_length lmc' = lmc_length lmc \<and> lmc_dist lmc' = lmc_dist lmc \<and> length (lmc_sublen lmc') = length (lmc_sublen lmc) \<and>
    (\<forall>x. x < cache_base pos \<or> cache_base (Suc pos) \<le> x \<longrightarrow> lmc_sublen lmc' ! x = lmc_sublen lmc ! x) \<and>
    3 \<le> ZopfliMaxCachedSublen lmc' pos \<and> ZopfliMaxCachedSublen lmc' pos \<le> len \<and>
    runs_at (lmc_sublen lmc') (cache_base pos) (\<lambda>x. sublen ! x) (ZopfliMaxCachedSublen lmc' pos) 0 3"
proof -
  let ?base = "cache_base pos"
  have base: "cache_base (Suc pos) = ?base + 24" by (simp add: cache_base_def ZOPFLI_CACHE_LENGTH_def)
  obtain c j best where loop: "SublenToCache_loop sublen len ?base 3 0 0 (lmc_sublen lmc) = (c, j, best)"
    by (metis prod_cases3)
  have out: "0 < j \<and> j \<le> ZOPFLI_CACHE_LENGTH \<and> length c = length (lmc_sublen lmc) \<and> 3 \<le> best \<and> best \<le> len \<and>
      (j < ZOPFLI_CACHE_LENGTH \<longrightarrow> best = len) \<and> c ! (?base + (j - 1) * 3) = best - 3 \<and>
      (\<forall>x. x < ?base + 0 * 3 \<or> ?base + j * 3 \<le> x \<longrightarrow> c ! x = lmc_sublen lmc ! x) \<and>
      (\<forall>c''. same_runs c c'' ?base 0 j \<longrightarrow> runs_at c'' ?base (\<lambda>x. sublen ! x) best 0 3)"
  proof (rule SublenToCache_loop_runs [OF len(1) order_refl len(2) _ _ _ loop order_refl])
    show "(0 :: nat) < ZOPFLI_CACHE_LENGTH" by (simp add: ZOPFLI_CACHE_LENGTH_def)
    show "?base + 24 \<le> length (lmc_sublen lmc)" using room base by simp
    show "\<forall>x. 3 \<le> x \<and> x \<le> 3 \<longrightarrow> sublen ! 3 = sublen ! x" by (metis le_antisym)
  qed (use dists in blast)
  define c' where "c' = (if j < 8 then c[?base + 21 := best - 3] else c)"
  define lmc' where "lmc' = lmc\<lparr>lmc_sublen := c'\<rparr>"
  have runs: "runs_at c' ?base (\<lambda>x. sublen ! x) best 0 3"
    using out by (auto simp: c'_def same_runs_def ZOPFLI_CACHE_LENGTH_def)
  have last: "c' ! (?base + 21) = best - 3"
  proof (cases "j < 8")
    case True
    then show ?thesis using out room base by (simp add: c'_def)
  next
    case False
    then have "j = 8" using out by (simp add: ZOPFLI_CACHE_LENGTH_def)
    then show ?thesis using out by (simp add: c'_def)
  qed
  have "c' ! (?base + 1) + 256 * c' ! (?base + 2) \<noteq> 0"
    using runs
  proof (cases rule: runs_atE)
    case (1 l d)
    then have "d = sublen ! 3" using 1(6) [of 3] by simp
    then show ?thesis using 1(5) dists [of 3] len by simp
  qed
  then have max: "ZopfliMaxCachedSublen lmc' pos = best"
    using last out by (auto simp: ZopfliMaxCachedSublen_def lmc'_def Let_def ZOPFLI_CACHE_LENGTH_def)
  have "best - 3 < 256" using out len by linarith
  then have "(best - 3) mod 256 = best - 3" by simp
  then have "ZopfliSublenToCache sublen pos len lmc = Inr lmc'"
    using out len max by (auto simp: ZopfliSublenToCache_def loop lmc'_def c'_def Let_def ZOPFLI_CACHE_LENGTH_def)
  moreover have "\<forall>x. x < ?base \<or> ?base + 24 \<le> x \<longrightarrow> c' ! x = lmc_sublen lmc ! x"
    using out by (auto simp: c'_def ZOPFLI_CACHE_LENGTH_def)
  ultimately show ?thesis using runs max out base by (auto simp: lmc'_def c'_def)
qed

section \<open>The cache's property\<close>

text \<open>What is stored is read back: after the distances of a match of length \<open>len\<close> are stored at a position, no assertion
  having failed, the cache reports a length \<open>m\<close> up to which it knows them, reading the position into any array of 259
  entries gives back the distance of every length from 3 to \<open>m\<close>, and the bytes of every other position are unchanged.\<close>

theorem sublen_cache_roundtrip:
  assumes "3 \<le> len" and "len \<le> 258" and "\<forall>x. 3 \<le> x \<and> x \<le> len \<longrightarrow> 0 < sublen ! x \<and> sublen ! x < 65536"
    and "pos < blocksize" and "length (lmc_sublen lmc) = ZOPFLI_CACHE_LENGTH * blocksize * 3" and "length sl = 259"
    and "3 \<le> len'"
  shows "\<exists>lmc' m. ZopfliSublenToCache sublen pos len lmc = Inr lmc' \<and> m = ZopfliMaxCachedSublen lmc' pos \<and> 3 \<le> m \<and> m \<le> len \<and>
    (\<forall>x. 3 \<le> x \<and> x \<le> m \<longrightarrow> ZopfliCacheToSublen lmc' pos len' sl ! x = sublen ! x) \<and>
    (\<forall>q i. q \<noteq> pos \<and> i < ZOPFLI_CACHE_LENGTH * 3 \<longrightarrow> lmc_sublen lmc' ! (cache_base q + i) = lmc_sublen lmc ! (cache_base q + i))"
proof -
  have "cache_base (Suc pos) \<le> length (lmc_sublen lmc)" using assms(4,5) by (simp add: cache_base_def ZOPFLI_CACHE_LENGTH_def)
  then obtain lmc' where lmc': "ZopfliSublenToCache sublen pos len lmc = Inr lmc'"
      "\<forall>x. x < cache_base pos \<or> cache_base (Suc pos) \<le> x \<longrightarrow> lmc_sublen lmc' ! x = lmc_sublen lmc ! x"
      "3 \<le> ZopfliMaxCachedSublen lmc' pos" "ZopfliMaxCachedSublen lmc' pos \<le> len"
      "runs_at (lmc_sublen lmc') (cache_base pos) (\<lambda>x. sublen ! x) (ZopfliMaxCachedSublen lmc' pos) 0 3"
    using ZopfliSublenToCache_stores [of len sublen pos lmc] assms(1-3) by blast
  have "ZopfliCacheToSublen lmc' pos len' sl ! x = sublen ! x" if "3 \<le> x" "x \<le> ZopfliMaxCachedSublen lmc' pos" for x
    using CacheToSublen_loop_runs [OF lmc'(5), of 0 sl] that assms(2,6,7) lmc'(4) by (simp add: ZopfliCacheToSublen_def)
  moreover have "lmc_sublen lmc' ! (cache_base q + i) = lmc_sublen lmc ! (cache_base q + i)"
    if "q \<noteq> pos" "i < ZOPFLI_CACHE_LENGTH * 3" for q i
  proof -
    have "cache_base q + i < cache_base pos \<or> cache_base (Suc pos) \<le> cache_base q + i"
      using that by (cases "q < pos") (auto simp: cache_base_def ZOPFLI_CACHE_LENGTH_def)
    then show ?thesis using lmc'(2) by blast
  qed
  ultimately show ?thesis using lmc' by blast
qed

theorem sublen_cache_roundtrip_witness:
  "\<exists>lmc' m. ZopfliSublenToCache [0, 0, 0, 7, 7, 300] 1 5 (ZopfliInitCache 2) = Inr lmc' \<and> m = ZopfliMaxCachedSublen lmc' 1 \<and>
    3 \<le> m \<and> m \<le> 5 \<and> (\<forall>x. 3 \<le> x \<and> x \<le> m \<longrightarrow> ZopfliCacheToSublen lmc' 1 5 (replicate 259 0) ! x = [0, 0, 0, 7, 7, 300] ! x)"
proof -
  have "0 < [0, 0, 0, 7, 7, 300 :: nat] ! x \<and> [0, 0, 0, 7, 7, 300 :: nat] ! x < 65536" if "3 \<le> x" "x \<le> 5" for x
  proof -
    have "x = 3 \<or> x = 4 \<or> x = 5" using that by auto
    then show ?thesis by auto
  qed
  then show ?thesis
    using sublen_cache_roundtrip [of 5 "[0, 0, 0, 7, 7, 300]" 1 2 "ZopfliInitCache 2" "replicate 259 0" 5]
    by (simp add: ZopfliInitCache_def ZOPFLI_CACHE_LENGTH_def) blast
qed

end
