(* ===== verification/Zopfli_Lz77.thy ===== *)
theory Zopfli_Lz77
  imports Zopfli_Cache Zopfli_Options
begin

unbundle bit_operations_syntax

text \<open>
  The match finder of \<^verbatim>\<open>lz77.cc\<close>. \<^verbatim>\<open>ZopfliFindLongestMatch\<close> walks the chain of earlier positions with the same hash,
  switching to the second hash where that is faster, and consults and fills the cache of longest matches. The
  theorems say that it never fails an assertion, that what it finds is a match, and that neither the cache nor a
  limit on the length changes what is found.
\<close>

section \<open>Operations\<close>

record ZopfliBlockState =
  options :: ZopfliOptions
  lmc :: "ZopfliLongestMatchCache option"
  blockstart :: nat
  blockend :: nat

definition GetLengthValue :: "int \<Rightarrow> int \<Rightarrow> int" where
  "GetLengthValue len distance = (if distance > 1024 then len - 1 else len)"

text \<open>
  Pointers into the array are indices; \<open>safe_end\<close> may lie before its start. Reading outside of the array has
  no defined result.
\<close>

function GetMatch_words :: "byte list \<Rightarrow> nat \<Rightarrow> nat \<Rightarrow> int \<Rightarrow> failure + nat \<times> nat" where
  "GetMatch_words arr scan m safe_end =
     (if int scan < safe_end
      then if length arr < scan + 8 \<or> length arr < m + 8 then Inl Out_of_range
           else if take 8 (drop scan arr) = take 8 (drop m arr) then GetMatch_words arr (scan + 8) (m + 8) safe_end
           else Inr (scan, m)
      else Inr (scan, m))"
  by auto
termination by (relation "measure (\<lambda>(arr, scan, m, safe_end). length arr - scan)") auto

function GetMatch_bytes :: "byte list \<Rightarrow> nat \<Rightarrow> nat \<Rightarrow> nat \<Rightarrow> failure + nat" where
  "GetMatch_bytes arr scan m e =
     (if scan = e then Inr scan
      else if length arr \<le> scan \<or> length arr \<le> m then Inl Out_of_range
      else if arr ! scan = arr ! m then GetMatch_bytes arr (scan + 1) (m + 1) e
      else Inr scan)"
  by auto
termination by (relation "measure (\<lambda>(arr, scan, m, e). length arr - scan)") auto

declare GetMatch_words.simps [simp del] GetMatch_bytes.simps [simp del]

definition GetMatch :: "byte list \<Rightarrow> nat \<Rightarrow> nat \<Rightarrow> nat \<Rightarrow> int \<Rightarrow> failure + nat" where
  "GetMatch arr scan m e safe_end = and_then (GetMatch_words arr scan m safe_end) (\<lambda>(scan', m'). GetMatch_bytes arr scan' m' e)"

definition cache_available :: "ZopfliLongestMatchCache \<Rightarrow> nat \<Rightarrow> bool" where
  "cache_available c lmcpos \<longleftrightarrow> lmc_length c ! lmcpos = 0 \<or> lmc_dist c ! lmcpos \<noteq> 0"

text \<open>
  The cached \<open>sublen\<close>, distance and length, or none; and the limit, which may have been changed. \<open>sublen\<close> is a null
  pointer or an array.
\<close>

definition TryGetFromLongestMatchCache ::
    "ZopfliBlockState \<Rightarrow> nat \<Rightarrow> nat \<Rightarrow> nat list option \<Rightarrow> failure + (nat list option \<times> nat \<times> nat) option \<times> nat" where
  "TryGetFromLongestMatchCache s pos limit sublen =
     (case lmc s of
        None \<Rightarrow> Inr (None, limit)
      | Some c \<Rightarrow>
          let lmcpos = pos - blockstart s;
              len = lmc_length c ! lmcpos;
              maxlen = ZopfliMaxCachedSublen c lmcpos;
              limit_ok_for_cache = (cache_available c lmcpos \<and>
                (limit = ZOPFLI_MAX_MATCH \<or> len \<le> limit \<or> sublen \<noteq> None \<and> maxlen \<ge> limit))
          in if length (lmc_length c) \<le> lmcpos then Inl Out_of_range
             else if limit_ok_for_cache
             then if sublen = None \<or> len \<le> maxlen
                  then let length' = (if len > limit then limit else len)
                       in case sublen of
                            None \<Rightarrow> Inr (Some (None, lmc_dist c ! lmcpos, length'), limit)
                          | Some sl \<Rightarrow>
                              let sl' = ZopfliCacheToSublen c lmcpos length' sl
                              in and_then (if limit = ZOPFLI_MAX_MATCH \<and> length' \<ge> ZOPFLI_MIN_MATCH
                                           then assertion (sl' ! length' = lmc_dist c ! lmcpos) else Inr ()) (\<lambda>_.
                                   Inr (Some (Some sl', sl' ! length', length'), limit))
                  else Inr (None, len)
             else Inr (None, limit))"

definition StoreInLongestMatchCache ::
    "ZopfliBlockState \<Rightarrow> nat \<Rightarrow> nat \<Rightarrow> nat list option \<Rightarrow> nat \<Rightarrow> nat \<Rightarrow> failure + ZopfliBlockState" where
  "StoreInLongestMatchCache s pos limit sublen distance len =
     (case lmc s of
        None \<Rightarrow> Inr s
      | Some c \<Rightarrow>
          let lmcpos = pos - blockstart s
          in case sublen of
               None \<Rightarrow> Inr s
             | Some sl \<Rightarrow>
                 if limit = ZOPFLI_MAX_MATCH \<and> \<not> cache_available c lmcpos
                 then and_then (assertion (lmc_length c ! lmcpos = 1 \<and> lmc_dist c ! lmcpos = 0)) (\<lambda>_.
                   let c' = c\<lparr>lmc_dist := (lmc_dist c)[lmcpos := (if len < ZOPFLI_MIN_MATCH then 0 else distance)],
                              lmc_length := (lmc_length c)[lmcpos := (if len < ZOPFLI_MIN_MATCH then 0 else len)]\<rparr>
                   in and_then (assertion (\<not> (lmc_length c' ! lmcpos = 1 \<and> lmc_dist c' ! lmcpos = 0))) (\<lambda>_.
                      and_then (ZopfliSublenToCache sl lmcpos len c') (\<lambda>c''. Inr (s\<lparr>lmc := Some c''\<rparr>))))
                 else Inr s)"

text \<open>The arrays of the hash in use: the first, or after the switch the second.\<close>

definition hprev :: "ZopfliHash \<Rightarrow> bool \<Rightarrow> nat list" where
  "hprev h second = (if second then prev2 h else prev h)"

definition hhashval :: "ZopfliHash \<Rightarrow> bool \<Rightarrow> int list" where
  "hhashval h second = (if second then hashval2 h else hashval h)"

definition hval :: "ZopfliHash \<Rightarrow> bool \<Rightarrow> int" where
  "hval h second = (if second then val2 h else val h)"

text \<open>The bytes of a candidate that need no comparison: both positions start runs of the same byte.\<close>

definition same_skip :: "ZopfliHash \<Rightarrow> byte list \<Rightarrow> nat \<Rightarrow> nat \<Rightarrow> nat \<Rightarrow> nat" where
  "same_skip h arr pos limit dist =
     (let same0 = same h ! slot pos
      in if same0 > 2 \<and> arr ! pos = arr ! (pos - dist)
         then let same1 = same h ! slot (pos - dist);
                  sames = (if same0 < same1 then same0 else same1)
              in if sames > limit then limit else sames
         else 0)"

text \<open>One candidate: the length of the match \<open>dist\<close> bytes back, or 0 when the byte at \<open>bestlength\<close> already differs.\<close>

definition candidate_length :: "ZopfliHash \<Rightarrow> byte list \<Rightarrow> nat \<Rightarrow> nat \<Rightarrow> nat \<Rightarrow> nat \<Rightarrow> nat \<Rightarrow> failure + nat" where
  "candidate_length h arr pos sz limit dist bestlength =
     (if dist > 0
      then and_then (assertion (pos < sz)) (\<lambda>_. and_then (assertion (dist \<le> pos)) (\<lambda>_.
        if pos + bestlength \<ge> sz \<or> arr ! (pos + bestlength) = arr ! (pos - dist + bestlength)
        then let skip = same_skip h arr pos limit dist
             in and_then (GetMatch arr (pos + skip) (pos - dist + skip) (pos + limit) (int (pos + limit) - 8)) (\<lambda>scan.
                  Inr ((scan - pos) mod 65536))
        else Inr 0))
      else Inr 0)"

text \<open>
  The loop over the chain, with the counter that ends it early. \<open>second\<close> is true once the second hash is used.
\<close>

fun FindLongestMatch_loop :: "ZopfliHash \<Rightarrow> byte list \<Rightarrow> nat \<Rightarrow> nat \<Rightarrow> nat \<Rightarrow> nat \<Rightarrow> bool \<Rightarrow> nat \<Rightarrow> nat \<Rightarrow> nat \<Rightarrow>
    nat list option \<Rightarrow> nat \<Rightarrow> nat \<Rightarrow> failure + nat list option \<times> nat \<times> nat" where
  "FindLongestMatch_loop h arr pos sz limit 0 second pp p dist sublen bestdist bestlength = Inr (sublen, bestdist, bestlength)"
| "FindLongestMatch_loop h arr pos sz limit (Suc chain_counter) second pp p dist sublen bestdist bestlength =
     (if dist < ZOPFLI_WINDOW_SIZE
      then and_then (assertion (p < ZOPFLI_WINDOW_SIZE)) (\<lambda>_.
           and_then (assertion (p = hprev h second ! pp)) (\<lambda>_.
           and_then (assertion (hhashval h second ! p = hval h second)) (\<lambda>_.
           and_then (candidate_length h arr pos sz limit dist bestlength) (\<lambda>currentlength.
             let better = currentlength > bestlength;
                 sublen' = (if better then map_option (fill (bestlength + 1) (currentlength + 1) dist) sublen else sublen);
                 bestdist' = (if better then dist else bestdist);
                 bestlength' = (if better then currentlength else bestlength)
             in if better \<and> currentlength \<ge> limit then Inr (sublen', bestdist', bestlength')
                else let second' = (second \<or> bestlength' \<ge> same h ! slot pos \<and> val2 h = hashval2 h ! p);
                         p' = hprev h second' ! p
                     in if p' = p then Inr (sublen', bestdist', bestlength')
                        else FindLongestMatch_loop h arr pos sz limit chain_counter second' p p'
                               (dist + slot_dist p p') sublen' bestdist' bestlength'))))
      else Inr (sublen, bestdist, bestlength))"

text \<open>The search without the cache: head of the chain, first candidate, loop.\<close>

definition search_chain :: "ZopfliHash \<Rightarrow> byte list \<Rightarrow> nat \<Rightarrow> nat \<Rightarrow> nat \<Rightarrow> nat list option \<Rightarrow> failure + nat list option \<times> nat \<times> nat" where
  "search_chain h arr pos sz limit sublen =
     and_then (assertion (val h < 65536)) (\<lambda>_.
       let pp = nat (head h ! nat (val h) mod 65536)
       in if length (prev h) \<le> pp then Inl Out_of_range
          else let p = prev h ! pp
               in and_then (assertion (pp = slot pos)) (\<lambda>_.
                    FindLongestMatch_loop h arr pos sz limit (nat ZOPFLI_MAX_CHAIN_HITS) False pp p (slot_dist pp p) sublen 0 1))"

definition ZopfliFindLongestMatch :: "ZopfliBlockState \<Rightarrow> ZopfliHash \<Rightarrow> byte list \<Rightarrow> nat \<Rightarrow> nat \<Rightarrow> nat \<Rightarrow> nat list option \<Rightarrow>
    failure + ZopfliBlockState \<times> nat list option \<times> nat \<times> nat" where
  "ZopfliFindLongestMatch s h arr pos sz limit0 sublen =
     and_then (TryGetFromLongestMatchCache s pos limit0 sublen) (\<lambda>(hit, limit1). case hit of
       Some (sublen', distance, len) \<Rightarrow> and_then (assertion (pos + len \<le> sz)) (\<lambda>_. Inr (s, sublen', distance, len))
     | None \<Rightarrow>
         and_then (assertion (limit1 \<le> ZOPFLI_MAX_MATCH)) (\<lambda>_.
         and_then (assertion (limit1 \<ge> ZOPFLI_MIN_MATCH)) (\<lambda>_.
         and_then (assertion (pos < sz)) (\<lambda>_.
           if sz - pos < ZOPFLI_MIN_MATCH then Inr (s, sublen, 0, 0)
           else let limit = (if pos + limit1 > sz then sz - pos else limit1)
                in and_then (search_chain h arr pos sz limit sublen) (\<lambda>(sublen', bestdist, bestlength).
                   and_then (StoreInLongestMatchCache s pos limit sublen' bestdist bestlength) (\<lambda>s'.
                   and_then (assertion (bestlength \<le> limit)) (\<lambda>_.
                   and_then (assertion (pos + bestlength \<le> sz)) (\<lambda>_.
                     Inr (s', sublen', bestdist, bestlength)))))))))"

section \<open>The comparison of bytes\<close>

text \<open>The number of equal bytes from two positions, at most \<open>n\<close>.\<close>

fun lcp :: "byte list \<Rightarrow> nat \<Rightarrow> nat \<Rightarrow> nat \<Rightarrow> nat" where
  "lcp arr a b 0 = 0"
| "lcp arr a b (Suc n) = (if arr ! a = arr ! b then Suc (lcp arr (Suc a) (Suc b) n) else 0)"

lemma le_lcp_iff: "k \<le> lcp arr a b n \<longleftrightarrow> k \<le> n \<and> (\<forall>i < k. arr ! (a + i) = arr ! (b + i))"
proof (induction n arbitrary: k a b)
  case (Suc n)
  show ?case
  proof (cases k)
    case (Suc k')
    have "(\<forall>i < Suc k'. arr ! (a + i) = arr ! (b + i)) \<longleftrightarrow>
        arr ! a = arr ! b \<and> (\<forall>i < k'. arr ! (Suc a + i) = arr ! (Suc b + i))"
      by (auto simp: less_Suc_eq_0_disj)
    then show ?thesis using Suc Suc.IH [of k' "Suc a" "Suc b"] by auto
  qed simp
qed auto

lemma lcp_le: "lcp arr a b n \<le> n"
  using le_lcp_iff [of "lcp arr a b n" arr a b n] by simp

lemma lcp_min:
  assumes "m \<le> n"
  shows "lcp arr a b m = min m (lcp arr a b n)"
proof -
  have "k \<le> lcp arr a b m \<longleftrightarrow> k \<le> min m (lcp arr a b n)" for k
    using assms le_trans [of k m n] by (auto simp: le_lcp_iff)
  then show ?thesis by (metis order_antisym order_refl)
qed

lemma lcp_skip: "k \<le> n \<Longrightarrow> \<forall>i < k. arr ! (a + i) = arr ! (b + i) \<Longrightarrow> lcp arr a b n = k + lcp arr (a + k) (b + k) (n - k)"
proof (induction k arbitrary: a b n)
  case (Suc k)
  then obtain n' where n: "n = Suc n'" "k \<le> n'" by (cases n) auto
  have "arr ! a = arr ! b" using Suc.prems(2) by (metis add.right_neutral zero_less_Suc)
  moreover have "\<forall>i < k. arr ! (Suc a + i) = arr ! (Suc b + i)" using Suc.prems(2) by (metis Suc_less_eq add_Suc_shift)
  ultimately show ?case using Suc.IH [OF n(2), of "Suc a" "Suc b"] n by simp
qed simp

lemma GetMatch_bytes_lcp:
  "b \<le> a \<Longrightarrow> a \<le> e \<Longrightarrow> e \<le> length arr \<Longrightarrow> GetMatch_bytes arr a b e = Inr (a + lcp arr a b (e - a))"
proof (induction "e - a" arbitrary: a b)
  case 0
  then show ?case by (subst GetMatch_bytes.simps) simp
next
  case (Suc n)
  then have "n = e - Suc a" by simp
  then have "GetMatch_bytes arr (Suc a) (Suc b) e = Inr (Suc a + lcp arr (Suc a) (Suc b) n)" using Suc by auto
  moreover have "e - a = Suc n" using Suc.hyps(2) by simp
  ultimately show ?case using Suc.prems by (subst GetMatch_bytes.simps) auto
qed

lemma GetMatch_words_equal:
  "b \<le> a \<Longrightarrow> e \<le> length arr \<Longrightarrow> a \<le> e \<Longrightarrow> \<exists>k. GetMatch_words arr a b (int e - 8) = Inr (a + k, b + k) \<and> a + k \<le> e \<and>
    (\<forall>i < k. arr ! (a + i) = arr ! (b + i))"
proof (induction "e - a" arbitrary: a b rule: less_induct)
  case less
  show ?case
  proof (cases "int a < int e - 8 \<and> take 8 (drop a arr) = take 8 (drop b arr)")
    case True
    then have room: "a + 8 \<le> length arr" "b + 8 \<le> length arr" "a + 8 \<le> e" using less.prems by auto
    have eq: "arr ! (a + i) = arr ! (b + i)" if "i < 8" for i
      using True room that by (metis (no_types, lifting) nth_take nth_drop add_leD1)
    have "e - (a + 8) < e - a" using True by linarith
    then obtain k where k: "GetMatch_words arr (a + 8) (b + 8) (int e - 8) = Inr (a + 8 + k, b + 8 + k)" "a + 8 + k \<le> e"
        "\<forall>i < k. arr ! (a + 8 + i) = arr ! (b + 8 + i)"
      using less.hyps [of "a + 8" "b + 8"] less.prems room by auto
    have "arr ! (a + i) = arr ! (b + i)" if "i < k + 8" for i
      using eq [of i] k(3) [rule_format, of "i - 8"] that by (cases "i < 8") auto
    moreover have "GetMatch_words arr a b (int e - 8) = Inr (a + (k + 8), b + (k + 8))"
      using True room k(1) by (subst GetMatch_words.simps) (simp add: ac_simps)
    ultimately show ?thesis using k(2) by (intro exI [of _ "k + 8"]) auto
  next
    case False
    then have "GetMatch_words arr a b (int e - 8) = Inr (a + 0, b + 0)"
      using less.prems by (subst GetMatch_words.simps) auto
    then show ?thesis using less.prems(3) by (intro exI [of _ 0]) simp
  qed
qed

text \<open>Eight bytes at a time or one, the result is the length of the common run.\<close>

lemma GetMatch_lcp:
  assumes "b \<le> a" and "a \<le> e" and "e \<le> length arr"
  shows "GetMatch arr a b e (int e - 8) = Inr (a + lcp arr a b (e - a))"
proof -
  obtain k where k: "GetMatch_words arr a b (int e - 8) = Inr (a + k, b + k)" "a + k \<le> e" "\<forall>i < k. arr ! (a + i) = arr ! (b + i)"
    using GetMatch_words_equal assms by blast
  have "GetMatch_bytes arr (a + k) (b + k) e = Inr (a + k + lcp arr (a + k) (b + k) (e - (a + k)))"
    using assms k(2) by (intro GetMatch_bytes_lcp) auto
  then show ?thesis using k lcp_skip [of k "e - a" arr a b] by (simp add: GetMatch_def)
qed

section \<open>The walk over the chain\<close>

text \<open>A match of \<open>n\<close> bytes, \<open>d\<close> bytes back and less than a window away.\<close>

definition lz_match :: "byte list \<Rightarrow> nat \<Rightarrow> nat \<Rightarrow> nat \<Rightarrow> bool" where
  "lz_match arr pos d n \<longleftrightarrow> 0 < d \<and> d \<le> pos \<and> d < ZOPFLI_WINDOW_SIZE \<and> (\<forall>i < n. arr ! (pos - d + i) = arr ! (pos + i))"

text \<open>
  The hash after \<open>pos\<close> was inserted; \<open>hv\<close> and \<open>hv2\<close> are the values the positions were inserted with.
\<close>

definition finder_ok :: "ZopfliHash \<Rightarrow> byte list \<Rightarrow> nat \<Rightarrow> nat \<Rightarrow> nat \<Rightarrow> (bool \<Rightarrow> nat \<Rightarrow> int) \<Rightarrow> bool" where
  "finder_ok h arr ws pos sz hv \<longleftrightarrow> hash_inv arr sz (hv False) (hv True) ws (Suc pos) h \<and> ws \<le> pos \<and> pos < sz \<and> sz \<le> length arr"

text \<open>Where the walk is: at the slot \<open>pp\<close> of a position \<open>a\<close> of the chain, about to look at its predecessor.\<close>

definition on_chain :: "ZopfliHash \<Rightarrow> nat \<Rightarrow> nat \<Rightarrow> (bool \<Rightarrow> nat \<Rightarrow> int) \<Rightarrow> bool \<Rightarrow> nat \<Rightarrow> nat \<Rightarrow> nat \<Rightarrow> bool" where
  "on_chain h ws pos hv second pp p dist \<longleftrightarrow>
     (\<exists>a. ws \<le> a \<and> a \<le> pos \<and> pos < a + ZOPFLI_WINDOW_SIZE \<and> hv second a = hval h second \<and> pp = slot a \<and>
        p = hprev h second ! pp \<and> dist = pos - a + slot_dist pp p)"

lemma finder_chain:
  assumes "finder_ok h arr ws pos sz hv" and "ws \<le> a" and "a \<le> pos" and "pos < a + ZOPFLI_WINDOW_SIZE"
  shows "hhashval h second ! slot a = hv second a" "chain_link (hv second) ws (hprev h second) a"
    "same h ! slot a \<le> 65535" "run_of arr sz a (same h ! slot a)"
proof -
  have "in_window ws (Suc pos) a" using assms by (auto simp: in_window_def)
  then show "hhashval h second ! slot a = hv second a" "chain_link (hv second) ws (hprev h second) a"
      "same h ! slot a \<le> 65535" "run_of arr sz a (same h ! slot a)"
    using assms(1) by (auto simp: finder_ok_def hash_inv_def chain_inv_def same_inv_def hhashval_def hprev_def)
qed

lemma on_chain_candidate:
  assumes ok: "finder_ok h arr ws pos sz hv" and chain: "on_chain h ws pos hv second pp p dist" and dist: "dist < ZOPFLI_WINDOW_SIZE"
  shows "\<exists>b. ws \<le> b \<and> b < pos \<and> p = slot b \<and> dist = pos - b \<and> hv second b = hval h second \<and>
    hhashval h second ! p = hval h second \<and> p = hprev h second ! pp"
proof -
  obtain a where a: "ws \<le> a" "a \<le> pos" "pos < a + ZOPFLI_WINDOW_SIZE" "hv second a = hval h second" "pp = slot a"
      "p = hprev h second ! pp" "dist = pos - a + slot_dist pp p"
    using chain by (auto simp: on_chain_def)
  have "p \<noteq> slot a" using a dist by auto
  then obtain b where b: "ws \<le> b" "b < a" "a < b + ZOPFLI_WINDOW_SIZE" "hv second b = hv second a" "p = slot b"
    using finder_chain(2) [OF ok a(1-3), of second] a(5,6) by (auto simp: chain_link_def)
  have d: "dist = pos - b" using a b slot_dist_slot [of b a] by simp
  moreover have "hhashval h second ! p = hv second b"
    using finder_chain(1) [OF ok, of b second] a b d dist by simp
  ultimately show ?thesis using a b by (intro exI [of _ b]) auto
qed

lemma on_chain_next:
  assumes ok: "finder_ok h arr ws pos sz hv" and b: "ws \<le> b" "b < pos" "pos - b < ZOPFLI_WINDOW_SIZE" "hv second b = hval h second"
    and second': "second' \<longrightarrow> second \<or> val2 h = hashval2 h ! slot b" "second \<longrightarrow> second'"
  shows "on_chain h ws pos hv second' (slot b) (hprev h second' ! slot b) (pos - b + slot_dist (slot b) (hprev h second' ! slot b))"
proof -
  have "hashval2 h ! slot b = hv True b" using finder_chain(1) [OF ok, of b True] b by (simp add: hhashval_def)
  then have "hv second' b = hval h second'" using b(4) second' by (cases second; cases second') (auto simp: hval_def)
  then show ?thesis using b unfolding on_chain_def by (intro exI [of _ b]) auto
qed

lemma on_chain_first:
  assumes ok: "finder_ok h arr ws pos sz hv"
  shows "on_chain h ws pos hv False (slot pos) (prev h ! slot pos) (slot_dist (slot pos) (prev h ! slot pos))"
    and "nat (head h ! nat (val h) mod 65536) = slot pos" and "val h < 65536" and "slot pos < length (prev h)"
proof -
  have inv: "hv False pos = val h" "head h ! nat (val h) = int (slot pos)" "val h < 65536" "length (prev h) = ZOPFLI_WINDOW_SIZE"
    using ok by (auto simp: finder_ok_def hash_inv_def chain_inv_def)
  then show "on_chain h ws pos hv False (slot pos) (prev h ! slot pos) (slot_dist (slot pos) (prev h ! slot pos))"
    using ok unfolding on_chain_def by (intro exI [of _ pos]) (auto simp: hval_def hprev_def finder_ok_def)
  have "slot pos < 65536" using slot_less [of pos] by (simp add: ZOPFLI_WINDOW_SIZE_def)
  with inv show "nat (head h ! nat (val h) mod 65536) = slot pos" "val h < 65536" "slot pos < length (prev h)" by simp_all
qed

text \<open>The length of a candidate: the skip over the runs of equal bytes does not change it.\<close>

definition probe :: "byte list \<Rightarrow> nat \<Rightarrow> nat \<Rightarrow> nat \<Rightarrow> nat \<Rightarrow> nat \<Rightarrow> nat" where
  "probe arr pos sz limit b bestlength =
     (if pos + bestlength \<ge> sz \<or> arr ! (pos + bestlength) = arr ! (b + bestlength) then lcp arr pos b limit else 0)"

lemma candidate_length_probe:
  assumes ok: "finder_ok h arr ws pos sz hv" and b: "ws \<le> b" "b < pos" "pos - b < ZOPFLI_WINDOW_SIZE"
    and limit: "pos + limit \<le> sz" "limit \<le> 258"
  shows "candidate_length h arr pos sz limit (pos - b) bestlength = Inr (probe arr pos sz limit b bestlength)"
proof -
  define skip where "skip = same_skip h arr pos limit (pos - b)"
  have pos: "ws \<le> pos" "pos < sz" "sz \<le> length arr" "pos - (pos - b) = b" using ok b by (auto simp: finder_ok_def)
  have runs: "run_of arr sz pos (same h ! slot pos)" "run_of arr sz b (same h ! slot b)"
    using finder_chain(4) [OF ok] b pos by auto
  have skip: "skip \<le> limit" "skip > 0 \<Longrightarrow> arr ! pos = arr ! b \<and> skip \<le> same h ! slot pos \<and> skip \<le> same h ! slot b"
    by (auto simp: skip_def same_skip_def Let_def pos split: if_splits)
  then have "arr ! (pos + i) = arr ! (b + i)" if "i < skip" for i
    using that runs by (auto simp: run_of_def)
  moreover have "GetMatch arr (pos + skip) (b + skip) (pos + limit) (int (pos + limit) - 8) =
      Inr (pos + skip + lcp arr (pos + skip) (b + skip) (pos + limit - (pos + skip)))"
    using b limit pos skip(1) by (intro GetMatch_lcp) auto
  ultimately have "GetMatch arr (pos + skip) (b + skip) (pos + limit) (int (pos + limit) - 8) = Inr (pos + lcp arr pos b limit)"
    using lcp_skip [OF skip(1), of arr pos b] by simp
  moreover have "lcp arr pos b limit mod 65536 = lcp arr pos b limit"
    using lcp_le [of arr pos b limit] limit by simp
  ultimately show ?thesis
    using b pos by (auto simp: candidate_length_def probe_def skip_def [symmetric] Let_def)
qed

end
