(* ===== verification/Zopfli_Match.thy ===== *)
theory Zopfli_Match
  imports Zopfli_Lz77
begin

text \<open>
  The correctness of the match finder: the walk over the chain fails no assertion and finds matches; a limit on the
  length only cuts what is found; and the cache of longest matches is transparent, that is, with or without it, and
  whatever was asked before, the same lengths and distances are found.
\<close>

section \<open>One round of the walk\<close>

definition walk_step :: "ZopfliHash \<Rightarrow> byte list \<Rightarrow> nat \<Rightarrow> nat \<Rightarrow> nat \<Rightarrow> nat \<Rightarrow> bool \<Rightarrow> nat \<Rightarrow> nat list option \<Rightarrow> nat \<Rightarrow> nat \<Rightarrow>
    nat \<Rightarrow> failure + nat list option \<times> nat \<times> nat" where
  "walk_step h arr pos sz limit n second b sublen bestdist bestlength currentlength =
     (if currentlength \<ge> limit then Inr (sublen, bestdist, bestlength)
      else let second' = (second \<or> bestlength \<ge> same h ! slot pos \<and> val2 h = hashval2 h ! slot b);
               p' = hprev h second' ! slot b
           in if p' = slot b then Inr (sublen, bestdist, bestlength)
              else FindLongestMatch_loop h arr pos sz limit n second' (slot b) p'
                     (pos - b + slot_dist (slot b) p') sublen bestdist bestlength)"

lemma FindLongestMatch_loop_step:
  assumes ok: "finder_ok h arr ws pos sz hv" and chain: "on_chain h ws pos hv second pp p dist"
    and limit: "pos + limit \<le> sz" "limit \<le> 258" and best: "bestlength < limit" and dist: "dist < ZOPFLI_WINDOW_SIZE"
  obtains b where "ws \<le> b" "b < pos" "dist = pos - b" "hv second b = hval h second"
    "\<And>limit sublen bestdist. pos + limit \<le> sz \<Longrightarrow> limit \<le> 258 \<Longrightarrow> bestlength < limit \<Longrightarrow>
      FindLongestMatch_loop h arr pos sz limit (Suc n) second pp p dist sublen bestdist bestlength =
      (if probe arr pos sz limit b bestlength > bestlength
       then walk_step h arr pos sz limit n second b
              (map_option (fill (bestlength + 1) (probe arr pos sz limit b bestlength + 1) dist) sublen) dist
              (probe arr pos sz limit b bestlength) (probe arr pos sz limit b bestlength)
       else walk_step h arr pos sz limit n second b sublen bestdist bestlength 0)"
proof -
  obtain b where b: "ws \<le> b" "b < pos" "p = slot b" "dist = pos - b" "hv second b = hval h second"
      "hhashval h second ! p = hval h second" "p = hprev h second ! pp"
    using on_chain_candidate [OF ok chain dist] by blast
  have "hprev h second ! pp < ZOPFLI_WINDOW_SIZE" using b(3,7) slot_less [of b] by simp
  then have "FindLongestMatch_loop h arr pos sz limit (Suc n) second pp p dist sublen bestdist bestlength =
      (if probe arr pos sz limit b bestlength > bestlength
       then walk_step h arr pos sz limit n second b
              (map_option (fill (bestlength + 1) (probe arr pos sz limit b bestlength + 1) dist) sublen) dist
              (probe arr pos sz limit b bestlength) (probe arr pos sz limit b bestlength)
       else walk_step h arr pos sz limit n second b sublen bestdist bestlength 0)"
    if "pos + limit \<le> sz" "limit \<le> 258" "bestlength < limit" for limit sublen bestdist
    using candidate_length_probe [OF ok b(1,2) _ that(1,2), of bestlength] dist b that(3)
    by (auto simp: walk_step_def Let_def)
  with b that show ?thesis by blast
qed

lemma walk_step_next:
  assumes ok: "finder_ok h arr ws pos sz hv" and b: "ws \<le> b" "b < pos" "pos - b < ZOPFLI_WINDOW_SIZE" "hv second b = hval h second"
  shows "walk_step h arr pos sz limit n second b sublen bestdist bestlength currentlength = Inr (sublen, bestdist, bestlength) \<or>
    currentlength < limit \<and> (\<exists>second' p' dist'. on_chain h ws pos hv second' (slot b) p' dist' \<and>
      walk_step h arr pos sz limit n second b sublen bestdist bestlength currentlength =
      FindLongestMatch_loop h arr pos sz limit n second' (slot b) p' dist' sublen bestdist bestlength)"
proof -
  let ?second' = "second \<or> bestlength \<ge> same h ! slot pos \<and> val2 h = hashval2 h ! slot b"
  have "on_chain h ws pos hv ?second' (slot b) (hprev h ?second' ! slot b) (pos - b + slot_dist (slot b) (hprev h ?second' ! slot b))"
    by (rule on_chain_next [OF ok b]) auto
  then show ?thesis unfolding walk_step_def Let_def by (metis not_le)
qed

section \<open>What the walk finds\<close>

text \<open>An array of distances between two moments of the walk: the lengths up to \<open>lo\<close> and above \<open>hi\<close> keep their entries.\<close>

definition sub_kept :: "nat \<Rightarrow> nat \<Rightarrow> nat list option \<Rightarrow> nat list option \<Rightarrow> bool" where
  "sub_kept lo hi s s' \<longleftrightarrow> rel_option (\<lambda>t t'. length t' = length t \<and> (\<forall>x < length t. x \<le> lo \<or> hi < x \<longrightarrow> t' ! x = t ! x)) s s'"

definition found :: "byte list \<Rightarrow> nat \<Rightarrow> nat \<Rightarrow> nat \<Rightarrow> nat \<Rightarrow> nat list option \<Rightarrow> nat list option \<times> nat \<times> nat \<Rightarrow> bool" where
  "found arr pos limit bestdist bestlength sublen r \<longleftrightarrow> (case r of (sublen', d, l) \<Rightarrow>
     bestlength \<le> l \<and> l \<le> limit \<and> sub_kept bestlength l sublen sublen' \<and> (l = bestlength \<longrightarrow> d = bestdist) \<and>
     (bestlength < l \<longrightarrow> lz_match arr pos d l \<and> (\<forall>t'. sublen' = Some t' \<longrightarrow> t' ! l = d)) \<and>
     (\<forall>t' x. sublen' = Some t' \<and> bestlength < x \<and> x \<le> l \<longrightarrow> lz_match arr pos (t' ! x) x))"

definition sub_room :: "nat \<Rightarrow> nat list option \<Rightarrow> bool" where
  "sub_room limit sublen \<longleftrightarrow> (\<forall>t. sublen = Some t \<longrightarrow> limit < length t)"

lemma sub_kept_refl [simp]: "sub_kept lo hi s s"
  by (cases s) (simp_all add: sub_kept_def)

lemma found_self: "bestlength \<le> limit \<Longrightarrow> found arr pos limit bestdist bestlength sublen (sublen, bestdist, bestlength)"
  by (auto simp: found_def)

lemma lz_match_shorter: "lz_match arr pos d n \<Longrightarrow> m \<le> n \<Longrightarrow> lz_match arr pos d m"
  by (auto simp: lz_match_def)

text \<open>A better candidate and what is found after it.\<close>

lemma found_better:
  assumes m: "lz_match arr pos d cur" and better: "bestlength < cur" "cur \<le> limit" and room: "sub_room limit sublen"
    and r: "found arr pos limit d cur (map_option (fill (bestlength + 1) (cur + 1) d) sublen) r"
  shows "found arr pos limit bestdist bestlength sublen r"
proof -
  obtain sublen' d' l where [simp]: "r = (sublen', d', l)" by (cases r)
  have l: "cur \<le> l" "l \<le> limit" using r by (auto simp: found_def)
  show ?thesis
  proof (cases sublen)
    case None
    then show ?thesis using r m better by (cases "l = cur") (auto simp: found_def sub_kept_def)
  next
    case (Some t)
    obtain t' where t': "sublen' = Some t'" "length t' = length t" "\<And>x. x < length t \<Longrightarrow> x \<le> cur \<or> l < x \<Longrightarrow> t' ! x = fill (bestlength + 1) (cur + 1) d t ! x"
      using r Some by (auto simp: found_def sub_kept_def option_rel_Some1)
    have t: "limit < length t" using room Some by (simp add: sub_room_def)
    have upd: "t' ! x = d" if "bestlength < x" "x \<le> cur" for x
      using t'(3) [of x] that t better by (simp add: nth_fill)
    have keep: "t' ! x = t ! x" if "x \<le> bestlength \<or> l < x" "x < length t" for x
      using t'(3) [of x] that l better by (auto simp: nth_fill)
    have "lz_match arr pos (t' ! x) x" if "bestlength < x" "x \<le> l" for x
      using r t' that upd [of x] m by (cases "x \<le> cur") (auto simp: found_def intro: lz_match_shorter)
    moreover have "lz_match arr pos d' l \<and> t' ! l = d'"
      using r t' m upd [of cur] better by (cases "l = cur") (auto simp: found_def)
    ultimately show ?thesis using l better keep t'(1,2) Some by (auto simp: found_def sub_kept_def)
  qed
qed

lemma probe_match:
  assumes "b < pos" and "pos - b < ZOPFLI_WINDOW_SIZE"
  shows "lz_match arr pos (pos - b) (probe arr pos sz limit b bestlength)" "probe arr pos sz limit b bestlength \<le> limit"
  using assms le_lcp_iff [of "lcp arr pos b limit" arr pos b limit] by (auto simp: lz_match_def probe_def lcp_le)

theorem FindLongestMatch_loop_found:
  assumes ok: "finder_ok h arr ws pos sz hv" and limit: "pos + limit \<le> sz" "limit \<le> 258"
    and "on_chain h ws pos hv second pp p dist" and "bestlength < limit" and "sub_room limit sublen"
  shows "\<exists>r. FindLongestMatch_loop h arr pos sz limit n second pp p dist sublen bestdist bestlength = Inr r \<and>
    found arr pos limit bestdist bestlength sublen r"
  using assms(4-)
proof (induction n arbitrary: second pp p dist sublen bestdist bestlength)
  case 0
  then show ?case by (simp add: found_self)
next
  case (Suc n)
  show ?case
  proof (cases "dist < ZOPFLI_WINDOW_SIZE")
    case True
    obtain b where b: "ws \<le> b" "b < pos" "dist = pos - b" "hv second b = hval h second"
      and step: "\<And>limit sublen bestdist. pos + limit \<le> sz \<Longrightarrow> limit \<le> 258 \<Longrightarrow> bestlength < limit \<Longrightarrow>
        FindLongestMatch_loop h arr pos sz limit (Suc n) second pp p dist sublen bestdist bestlength =
        (if probe arr pos sz limit b bestlength > bestlength
         then walk_step h arr pos sz limit n second b
                (map_option (fill (bestlength + 1) (probe arr pos sz limit b bestlength + 1) dist) sublen) dist
                (probe arr pos sz limit b bestlength) (probe arr pos sz limit b bestlength)
         else walk_step h arr pos sz limit n second b sublen bestdist bestlength 0)"
      using FindLongestMatch_loop_step [OF ok Suc.prems(1) limit Suc.prems(2) True] by metis
    let ?cur = "probe arr pos sz limit b bestlength"
    have W: "pos - b < ZOPFLI_WINDOW_SIZE" using True b by simp
    note cur = probe_match [OF b(2) W]
    have rest: "\<exists>r. walk_step h arr pos sz limit n second b s d l c = Inr r \<and> found arr pos limit d l s r"
      if "l \<le> limit" "sub_room limit s" "c < limit \<Longrightarrow> l < limit" for s d l c
      using walk_step_next [OF ok b(1,2) W b(4), of limit n s d l c] that Suc.IH found_self by metis
    show ?thesis
    proof (cases "?cur > bestlength")
      case better: True
      let ?s = "map_option (fill (bestlength + 1) (?cur + 1) dist) sublen"
      have "sub_room limit ?s" using Suc.prems(3) by (auto simp: sub_room_def)
      then obtain r where "walk_step h arr pos sz limit n second b ?s dist ?cur ?cur = Inr r" "found arr pos limit dist ?cur ?s r"
        using rest [of ?cur ?s ?cur dist] cur(2) by blast
      then show ?thesis
        using found_better [of arr pos dist ?cur bestlength limit sublen r bestdist] better cur Suc.prems(2,3) b(3) step [OF limit]
        by auto
    next
      case False
      then show ?thesis using rest [of bestlength sublen 0 bestdist] step [OF limit] Suc.prems(2,3) by auto
    qed
  qed (use Suc.prems in \<open>simp add: found_self\<close>)
qed

subsection \<open>A limit only cuts the result\<close>

text \<open>
  What the walk with the limit \<open>L\<close> returns, given what it returns with a limit that is not smaller: the length is cut, and
  its distance is the one noted for the cut length.
\<close>

definition cut_to :: "nat \<Rightarrow> nat \<Rightarrow> nat list \<times> nat \<times> nat \<Rightarrow> nat list option \<times> nat \<times> nat \<Rightarrow> bool" where
  "cut_to L bestlength rM rL \<longleftrightarrow> (case rM of (tM, dM, lM) \<Rightarrow> case rL of (sL, dL, lL) \<Rightarrow>
     lL = min L lM \<and> dL = (if lM < L then dM else tM ! L) \<and>
     (\<forall>tL x. sL = Some tL \<and> bestlength < x \<and> x \<le> lL \<longrightarrow> tL ! x = tM ! x))"

lemma probe_cut: "L \<le> M \<Longrightarrow> probe arr pos sz L b bestlength = min L (probe arr pos sz M b bestlength)"
  using lcp_min [of L M arr pos b] by (simp add: probe_def)

lemma sub_kept_None [simp]: "sub_kept lo hi None s \<longleftrightarrow> s = None"
  by (simp add: sub_kept_def)

lemma sub_kept_fill:
  assumes "sub_kept cur l (Some (fill (bestlength + 1) (cur + 1) d t)) s" and "cur < length t"
  shows "\<exists>u. s = Some u \<and> (\<forall>x. bestlength < x \<and> x \<le> cur \<longrightarrow> u ! x = d)"
proof -
  obtain u where "s = Some u" "\<forall>x < length t. x \<le> cur \<or> l < x \<longrightarrow> u ! x = fill (bestlength + 1) (cur + 1) d t ! x"
    using assms(1) by (auto simp: sub_kept_def option_rel_Some1)
  then show ?thesis using assms(2) by (auto simp: nth_fill)
qed

lemma walk_step_found:
  assumes ok: "finder_ok h arr ws pos sz hv" and limit: "pos + limit \<le> sz" "limit \<le> 258"
    and b: "ws \<le> b" "b < pos" "pos - b < ZOPFLI_WINDOW_SIZE" "hv second b = hval h second"
    and "l \<le> limit" and "sub_room limit s" and "c < limit \<Longrightarrow> l < limit"
  shows "\<exists>r. walk_step h arr pos sz limit n second b s d l c = Inr r \<and> found arr pos limit d l s r"
  using walk_step_next [OF ok b, of limit n s d l c] assms(8-) FindLongestMatch_loop_found [OF ok limit] found_self by metis

lemma cut_to_better:
  assumes cut: "cut_to L cur (tM, dM, lM) (sL, dL, lL)" and cur: "bestlength < cur" "cur < L" "sub_room L sublen" "L < length t"
    and kept: "sub_kept cur lL (map_option (fill (bestlength + 1) (cur + 1) d) sublen) sL"
      "sub_kept cur lM (Some (fill (bestlength + 1) (cur + 1) d t)) (Some tM)"
  shows "cut_to L bestlength (tM, dM, lM) (sL, dL, lL)"
proof -
  have tM: "tM ! x = d" if "bestlength < x" "x \<le> cur" for x
    using sub_kept_fill [OF kept(2)] that cur by auto
  have tL: "tL ! x = d" if "sL = Some tL" "bestlength < x" "x \<le> cur" for tL x
  proof (cases sublen)
    case (Some u)
    then show ?thesis using sub_kept_fill [of cur lL bestlength d u sL] kept(1) that cur by (auto simp: sub_room_def)
  qed (use kept that in simp)
  have "tL ! x = tM ! x" if "sL = Some tL" "bestlength < x" "x \<le> lL" for tL x
    using that tM [of x] tL [of tL x] cut by (cases "x \<le> cur") (auto simp: cut_to_def)
  then show ?thesis using cut by (auto simp: cut_to_def)
qed

lemma FindLongestMatch_loop_cut:
  assumes ok: "finder_ok h arr ws pos sz hv" and M: "pos + M \<le> sz" "M \<le> 258" and L: "L \<le> M"
    and "on_chain h ws pos hv second pp p dist" and "bestlength < L" and "sub_room L sublen" and "M < length t"
  shows "\<exists>tM dM lM rL. FindLongestMatch_loop h arr pos sz M n second pp p dist (Some t) bestdist bestlength = Inr (Some tM, dM, lM) \<and>
    FindLongestMatch_loop h arr pos sz L n second pp p dist sublen bestdist bestlength = Inr rL \<and>
    cut_to L bestlength (tM, dM, lM) rL"
  using assms(5-)
proof (induction n arbitrary: second pp p dist sublen t bestdist bestlength)
  case 0
  then show ?case by (auto simp: cut_to_def)
next
  case (Suc n)
  note lim = M L [THEN add_left_mono, THEN le_trans, OF M(1)] L [THEN le_trans, OF M(2)]
  show ?case
  proof (cases "dist < ZOPFLI_WINDOW_SIZE")
    case True
    have bM: "bestlength < M" using Suc.prems(2) L by simp
    obtain b where b: "ws \<le> b" "b < pos" "dist = pos - b" "hv second b = hval h second"
      and step: "\<And>limit sublen bestdist. pos + limit \<le> sz \<Longrightarrow> limit \<le> 258 \<Longrightarrow> bestlength < limit \<Longrightarrow>
        FindLongestMatch_loop h arr pos sz limit (Suc n) second pp p dist sublen bestdist bestlength =
        (if probe arr pos sz limit b bestlength > bestlength
         then walk_step h arr pos sz limit n second b
                (map_option (fill (bestlength + 1) (probe arr pos sz limit b bestlength + 1) dist) sublen) dist
                (probe arr pos sz limit b bestlength) (probe arr pos sz limit b bestlength)
         else walk_step h arr pos sz limit n second b sublen bestdist bestlength 0)"
      using FindLongestMatch_loop_step [OF ok Suc.prems(1) M bM True] by metis
    have W: "pos - b < ZOPFLI_WINDOW_SIZE" using True b by simp
    let ?cM = "probe arr pos sz M b bestlength"
    have cL: "probe arr pos sz L b bestlength = min L ?cM" by (rule probe_cut [OF L])
    show ?thesis
    proof (cases "?cM < L")
      case short: True
      \<comment> \<open>both walks do the same\<close>
      have same: "\<exists>tM dM lM rL. walk_step h arr pos sz M n second b (Some u) d l c = Inr (Some tM, dM, lM) \<and>
          walk_step h arr pos sz L n second b s d l c = Inr rL \<and> cut_to L l (tM, dM, lM) rL"
        if "l < L" "c < L" "sub_room L s" "M < length u" for u s d l c
      proof -
        let ?second' = "second \<or> l \<ge> same h ! slot pos \<and> val2 h = hashval2 h ! slot b"
        let ?p' = "hprev h ?second' ! slot b"
        have "on_chain h ws pos hv ?second' (slot b) ?p' (pos - b + slot_dist (slot b) ?p')"
          by (rule on_chain_next [OF ok b(1,2) W b(4)]) auto
        from Suc.IH [OF this that(1,3,4), of d] show ?thesis
          using that L by (auto simp: walk_step_def Let_def cut_to_def)
      qed
      show ?thesis
      proof (cases "?cM > bestlength")
        case better: True
        let ?s = "map_option (fill (bestlength + 1) (?cM + 1) dist) sublen"
        let ?t = "fill (bestlength + 1) (?cM + 1) dist t"
        have rooms: "sub_room L ?s" "M < length ?t" "sub_room M (Some ?t)" using Suc.prems(3,4) by (auto simp: sub_room_def)
        obtain tM dM lM sL dL lL where runs: "walk_step h arr pos sz M n second b (Some ?t) dist ?cM ?cM = Inr (Some tM, dM, lM)"
            "walk_step h arr pos sz L n second b ?s dist ?cM ?cM = Inr (sL, dL, lL)" "cut_to L ?cM (tM, dM, lM) (sL, dL, lL)"
          using same [OF short short rooms(1,2), of dist] by (metis prod_cases3)
        moreover have "sub_kept ?cM lL ?s sL"
          using walk_step_found [OF ok lim(3,4) b(1,2) W b(4), of ?cM ?s ?cM n dist] short rooms runs(2) by (auto simp: found_def)
        moreover have "sub_kept ?cM lM (Some ?t) (Some tM)"
          using walk_step_found [OF ok M b(1,2) W b(4), of ?cM "Some ?t" ?cM n dist] short L rooms runs(1) by (auto simp: found_def)
        ultimately have "cut_to L bestlength (tM, dM, lM) (sL, dL, lL)"
          using Suc.prems(3,4) L by (intro cut_to_better [OF runs(3) better short Suc.prems(3)]) auto
        then show ?thesis using runs short better step [OF M bM] step [OF lim(3,4) Suc.prems(2)] cL by (auto simp: min_def)
      next
        case False
        then show ?thesis
          using same [of bestlength 0 sublen t bestdist] Suc.prems(2-4) step [OF M bM] step [OF lim(3,4) Suc.prems(2)] cL short
          by (auto simp: min_def)
      qed
    next
      case long: False
      let ?t = "fill (bestlength + 1) (?cM + 1) dist t"
      have "sub_room M (Some ?t)" using Suc.prems(4) by (auto simp: sub_room_def)
      then obtain r where r: "walk_step h arr pos sz M n second b (Some ?t) dist ?cM ?cM = Inr r" "found arr pos M dist ?cM (Some ?t) r"
        using walk_step_found [OF ok M b(1,2) W b(4), of ?cM "Some ?t" ?cM n dist] probe_match(2) [OF b(2) W] by blast
      obtain sM dM lM where r': "r = (sM, dM, lM)" by (cases r)
      have cM: "?cM \<le> lM" "?cM < length t" using r(2) Suc.prems(4) by (auto simp: r' found_def)
      obtain tM where tM: "sM = Some tM" "\<forall>x. bestlength < x \<and> x \<le> ?cM \<longrightarrow> tM ! x = dist"
        using sub_kept_fill [of ?cM lM bestlength dist t sM] r(2) cM(2) by (auto simp: r' found_def)
      let ?s = "map_option (fill (bestlength + 1) (L + 1) dist) sublen"
      have "cut_to L bestlength (tM, dM, lM) (?s, dist, L)"
        using long tM(2) cM Suc.prems(2,3) by (auto simp: cut_to_def sub_room_def nth_fill)
      moreover have "FindLongestMatch_loop h arr pos sz L (Suc n) second pp p dist sublen bestdist bestlength = Inr (?s, dist, L)"
        using step [OF lim(3,4) Suc.prems(2), of sublen bestdist] cL long Suc.prems(2) by (simp add: walk_step_def min_def)
      moreover have "FindLongestMatch_loop h arr pos sz M (Suc n) second pp p dist (Some t) bestdist bestlength = Inr (Some tM, dM, lM)"
        using step [OF M bM, of "Some t" bestdist] long Suc.prems(2) r(1) by (simp add: r' tM(1))
      ultimately show ?thesis by blast
    qed
  qed (use Suc.prems in \<open>auto simp: cut_to_def\<close>)
qed

section \<open>The longest match at a position\<close>

text \<open>
  What the walk finds at \<open>pos\<close> with no limit but the format's and the end of the data, and the distance it notes for
  every length on the way.
\<close>

definition longest :: "ZopfliHash \<Rightarrow> byte list \<Rightarrow> nat \<Rightarrow> nat \<Rightarrow> nat list \<times> nat" where
  "longest h arr pos sz =
     (if sz - pos < 3 then ([], 0)
      else case search_chain h arr pos sz (min 258 (sz - pos)) (Some (replicate 259 0)) of
             Inr (Some t, d, l) \<Rightarrow> (t, l)
           | _ \<Rightarrow> ([], 0))"

definition best_length :: "ZopfliHash \<Rightarrow> byte list \<Rightarrow> nat \<Rightarrow> nat \<Rightarrow> nat" where
  "best_length h arr pos sz = snd (longest h arr pos sz)"

definition best_dist :: "ZopfliHash \<Rightarrow> byte list \<Rightarrow> nat \<Rightarrow> nat \<Rightarrow> nat \<Rightarrow> nat" where
  "best_dist h arr pos sz x = fst (longest h arr pos sz) ! x"

lemma search_chain_loop:
  assumes "finder_ok h arr ws pos sz hv"
  shows "search_chain h arr pos sz limit sublen =
    FindLongestMatch_loop h arr pos sz limit (nat ZOPFLI_MAX_CHAIN_HITS) False (slot pos) (prev h ! slot pos)
      (slot_dist (slot pos) (prev h ! slot pos)) sublen 0 1"
  using on_chain_first [OF assms] by (simp add: search_chain_def Let_def)

lemma longest_search:
  assumes "finder_ok h arr ws pos sz hv" and "3 \<le> sz - pos"
  shows "\<exists>t d. search_chain h arr pos sz (min 258 (sz - pos)) (Some (replicate 259 0)) = Inr (Some t, d, best_length h arr pos sz) \<and>
    longest h arr pos sz = (t, best_length h arr pos sz) \<and>
    found arr pos (min 258 (sz - pos)) 0 1 (Some (replicate 259 0)) (Some t, d, best_length h arr pos sz)"
proof -
  have "sub_room (min 258 (sz - pos)) (Some (replicate 259 (0::nat)))" "pos + min 258 (sz - pos) \<le> sz"
    using assms(2) by (auto simp: sub_room_def)
  then obtain r where r: "search_chain h arr pos sz (min 258 (sz - pos)) (Some (replicate 259 0)) = Inr r"
      "found arr pos (min 258 (sz - pos)) 0 1 (Some (replicate 259 0)) r"
    using FindLongestMatch_loop_found [OF assms(1) _ _ on_chain_first(1) [OF assms(1)], of "min 258 (sz - pos)" 1
      "Some (replicate 259 0)" "nat ZOPFLI_MAX_CHAIN_HITS" 0] assms by (auto simp: search_chain_loop)
  obtain s d l where "r = (s, d, l)" by (cases r)
  moreover then obtain t where "s = Some t" using r(2) by (auto simp: found_def sub_kept_def option_rel_Some1)
  ultimately show ?thesis using r assms(2) by (auto simp: longest_def best_length_def)
qed

text \<open>Every distance noted belongs to a match of at least that length.\<close>

lemma best_dist_match:
  assumes "finder_ok h arr ws pos sz hv" and "2 \<le> x" and "x \<le> best_length h arr pos sz"
  shows "lz_match arr pos (best_dist h arr pos sz x) x"
proof (cases "3 \<le> sz - pos")
  case True
  then show ?thesis using longest_search [OF assms(1) True] assms(2,3) by (auto simp: found_def best_dist_def)
next
  case False
  then show ?thesis using assms(2,3) by (simp add: best_length_def longest_def)
qed

lemma best_length_bound:
  assumes "finder_ok h arr ws pos sz hv"
  shows "best_length h arr pos sz \<le> 258" "pos + best_length h arr pos sz \<le> sz"
proof -
  have pos: "pos < sz" using assms by (simp add: finder_ok_def)
  have "best_length h arr pos sz \<le> 258 \<and> pos + best_length h arr pos sz \<le> sz"
  proof (cases "3 \<le> sz - pos")
    case True
    then show ?thesis using longest_search [OF assms True] pos by (auto simp: found_def)
  qed (use pos in \<open>simp add: best_length_def longest_def\<close>)
  then show "best_length h arr pos sz \<le> 258" "pos + best_length h arr pos sz \<le> sz" by simp_all
qed

text \<open>With a limit the search finds the longest match cut to the limit.\<close>

lemma search_chain_cut:
  assumes ok: "finder_ok h arr ws pos sz hv" and L: "3 \<le> L" "L \<le> 258" "pos + L \<le> sz" and room: "sub_room L sublen"
  shows "\<exists>s d. search_chain h arr pos sz L sublen = Inr (s, d, min L (best_length h arr pos sz)) \<and>
    (2 \<le> best_length h arr pos sz \<longrightarrow> d = best_dist h arr pos sz (min L (best_length h arr pos sz))) \<and>
    sub_kept 1 (min L (best_length h arr pos sz)) sublen s \<and>
    (\<forall>t x. s = Some t \<and> 1 < x \<and> x \<le> min L (best_length h arr pos sz) \<longrightarrow> t ! x = best_dist h arr pos sz x)"
proof -
  let ?M = "min 258 (sz - pos)" and ?l = "best_length h arr pos sz"
  have M: "pos + ?M \<le> sz" "?M \<le> 258" "L \<le> ?M" "1 < L" "?M < length (replicate 259 (0::nat))" and sz: "3 \<le> sz - pos"
    using L by auto
  obtain t d where long: "search_chain h arr pos sz ?M (Some (replicate 259 0)) = Inr (Some t, d, ?l)" "longest h arr pos sz = (t, ?l)"
      "found arr pos ?M 0 1 (Some (replicate 259 0)) (Some t, d, ?l)"
    using longest_search [OF ok sz] by blast
  obtain s dL lL where cut: "search_chain h arr pos sz L sublen = Inr (s, dL, lL)" "cut_to L 1 (t, d, ?l) (s, dL, lL)"
    using FindLongestMatch_loop_cut [OF ok M(1-3) on_chain_first(1) [OF ok] M(4) room M(5), of "nat ZOPFLI_MAX_CHAIN_HITS" 0] long(1)
    by (auto simp: search_chain_loop [OF ok])
  have "found arr pos L 0 1 sublen (s, dL, lL)"
    using FindLongestMatch_loop_found [OF ok L(3,2) on_chain_first(1) [OF ok] M(4) room, of "nat ZOPFLI_MAX_CHAIN_HITS" 0] cut(1)
    by (auto simp: search_chain_loop [OF ok])
  then have "sub_kept 1 lL sublen s" by (simp add: found_def)
  moreover have "2 \<le> ?l \<Longrightarrow> t ! ?l = d" using long(3) by (auto simp: found_def)
  ultimately show ?thesis using cut long(2) by (auto simp: cut_to_def best_dist_def min_def)
qed

section \<open>The cache is transparent\<close>

text \<open>
  An entry of the cache: not filled in, or what the search finds (nothing, when that is shorter than three bytes), with the
  distances up to the length the entry holds them for.
\<close>

definition entry_empty :: "ZopfliLongestMatchCache \<Rightarrow> nat \<Rightarrow> bool" where
  "entry_empty c q \<longleftrightarrow> lmc_dist c ! q = 0 \<and> ZopfliMaxCachedSublen c q = 0"

definition entry_ok :: "nat \<Rightarrow> (nat \<Rightarrow> nat) \<Rightarrow> ZopfliLongestMatchCache \<Rightarrow> nat \<Rightarrow> bool" where
  "entry_ok l D c q \<longleftrightarrow>
     lmc_length c ! q = 1 \<and> entry_empty c q \<or>
     lmc_length c ! q = 0 \<and> entry_empty c q \<and> l < 3 \<or>
     lmc_length c ! q = l \<and> 3 \<le> l \<and> lmc_dist c ! q = D l \<and> 3 \<le> ZopfliMaxCachedSublen c q \<and> ZopfliMaxCachedSublen c q \<le> l \<and>
       runs_at (lmc_sublen c) (cache_base q) D (ZopfliMaxCachedSublen c q) 0 3"

text \<open>The state of a block from \<open>blockstart\<close> to \<open>blockend\<close>; its hash at a position is that of every pass over the block.\<close>

definition block_hash :: "byte list \<Rightarrow> ZopfliBlockState \<Rightarrow> nat \<Rightarrow> ZopfliHash" where
  "block_hash arr s pos = hash_at arr (blockstart s) (blockend s) (Suc pos)"

definition block_length :: "byte list \<Rightarrow> ZopfliBlockState \<Rightarrow> nat \<Rightarrow> nat" where
  "block_length arr s pos = best_length (block_hash arr s pos) arr pos (blockend s)"

definition block_dist :: "byte list \<Rightarrow> ZopfliBlockState \<Rightarrow> nat \<Rightarrow> nat \<Rightarrow> nat" where
  "block_dist arr s pos = best_dist (block_hash arr s pos) arr pos (blockend s)"

definition cache_ok :: "byte list \<Rightarrow> ZopfliBlockState \<Rightarrow> ZopfliLongestMatchCache \<Rightarrow> bool" where
  "cache_ok arr s c \<longleftrightarrow>
     (let n = blockend s - blockstart s
      in length (lmc_length c) = n \<and> length (lmc_dist c) = n \<and> length (lmc_sublen c) = ZOPFLI_CACHE_LENGTH * n * 3 \<and>
         (\<forall>q < n. entry_ok (block_length arr s (blockstart s + q)) (block_dist arr s (blockstart s + q)) c q))"

definition block_ok :: "byte list \<Rightarrow> ZopfliBlockState \<Rightarrow> bool" where
  "block_ok arr s \<longleftrightarrow> windowstart (blockstart s) + 1 < length arr \<and> blockstart s \<le> blockend s \<and> blockend s \<le> length arr \<and>
     (\<forall>c. lmc s = Some c \<longrightarrow> cache_ok arr s c)"

lemma block_finder:
  assumes "block_ok arr s" and "blockstart s \<le> pos" and "pos < blockend s"
  shows "\<exists>hv. finder_ok (block_hash arr s pos) arr (windowstart (blockstart s)) pos (blockend s) hv"
proof -
  obtain hv hv2 where "hash_inv arr (blockend s) hv hv2 (windowstart (blockstart s)) (Suc pos) (block_hash arr s pos)"
    using hash_at_inv [of "blockstart s" arr "Suc pos" "blockend s"] assms by (auto simp: block_ok_def block_hash_def)
  then have "finder_ok (block_hash arr s pos) arr (windowstart (blockstart s)) pos (blockend s) (\<lambda>b. if b then hv2 else hv)"
    using assms windowstart_le [of "blockstart s", THEN le_trans, of pos] by (simp add: finder_ok_def block_ok_def)
  then show ?thesis by blast
qed

lemma cache_ok_init: "cache_ok arr s (ZopfliInitCache (blockend s - blockstart s))"
proof -
  have "entry_ok l D (ZopfliInitCache n) q" if "q < n" for l D n q
  proof -
    have "cache_base q + 23 < ZOPFLI_CACHE_LENGTH * n * 3" using that by (simp add: cache_base_def ZOPFLI_CACHE_LENGTH_def)
    then show ?thesis
      using that by (simp add: entry_ok_def entry_empty_def ZopfliMaxCachedSublen_def ZopfliInitCache_def Let_def)
  qed
  then show ?thesis by (simp add: cache_ok_def ZopfliInitCache_def Let_def)
qed

text \<open>A cached answer, when there is one.\<close>

lemma read_entry:
  assumes "entry_ok l D c q" and "3 \<le> len" and "len \<le> ZopfliMaxCachedSublen c q" and "length sl = 259" and "l \<le> 258"
  shows "length (ZopfliCacheToSublen c q len sl) = 259 \<and>
    (\<forall>x. 3 \<le> x \<and> x \<le> ZopfliMaxCachedSublen c q \<longrightarrow> ZopfliCacheToSublen c q len sl ! x = D x)"
proof -
  have runs: "runs_at (lmc_sublen c) (cache_base q) D (ZopfliMaxCachedSublen c q) 0 3" "ZopfliMaxCachedSublen c q \<le> l"
    using assms(1-3) by (auto simp: entry_ok_def entry_empty_def)
  show ?thesis using CacheToSublen_loop_runs [OF runs(1), of 0 sl] runs(2) assms(2,4,5) by (simp add: ZopfliCacheToSublen_def)
qed

text \<open>What a call returns: the longest match of the position, cut to the limit, or less than three bytes.\<close>

definition answer :: "nat \<Rightarrow> (nat \<Rightarrow> nat) \<Rightarrow> nat \<Rightarrow> nat list option \<Rightarrow> nat list option \<times> nat \<times> nat \<Rightarrow> bool" where
  "answer l D limit sublen r \<longleftrightarrow> (case r of (sublen', d, len) \<Rightarrow>
     (if 3 \<le> l then len = min limit l \<and> d = D len else len < 3) \<and>
     rel_option (\<lambda>t t'. length t' = length t \<and> (\<forall>x. 3 \<le> x \<and> x \<le> len \<longrightarrow> t' ! x = D x)) sublen sublen')"

lemma TryGet_answer:
  assumes c: "lmc s = Some c" "entry_ok l D c (pos - blockstart s)" "pos - blockstart s < length (lmc_length c)"
    and l: "l \<le> 258" and limit: "3 \<le> limit" "limit \<le> 258" "sublen \<noteq> None \<Longrightarrow> limit = 258"
    and sub: "\<And>t. sublen = Some t \<Longrightarrow> length t = 259" and D: "3 \<le> l \<Longrightarrow> D l \<noteq> 0"
  shows "(\<exists>r. TryGetFromLongestMatchCache s pos limit sublen = Inr (Some r, limit) \<and> answer l D limit sublen r \<and>
      (3 \<le> l \<or> snd (snd r) = 0)) \<or>
    (\<exists>limit'. TryGetFromLongestMatchCache s pos limit sublen = Inr (None, limit') \<and>
      (limit' = limit \<or> limit' = l \<and> 3 \<le> l \<and> limit = 258 \<and> cache_available c (pos - blockstart s)))"
proof -
  let ?q = "pos - blockstart s"
  consider (unfilled) "lmc_length c ! ?q = 1" "entry_empty c ?q" | (none) "lmc_length c ! ?q = 0" "entry_empty c ?q" "l < 3"
    | (filled) "lmc_length c ! ?q = l" "3 \<le> l" "lmc_dist c ! ?q = D l" "3 \<le> ZopfliMaxCachedSublen c ?q"
    using c(2) by (auto simp: entry_ok_def)
  then show ?thesis
  proof cases
    case unfilled
    then show ?thesis using c by (simp add: TryGetFromLongestMatchCache_def cache_available_def entry_empty_def)
  next
    case none
    then show ?thesis using c limit
      by (cases sublen) (auto simp: TryGetFromLongestMatchCache_def cache_available_def entry_empty_def answer_def ZopfliCacheToSublen_def Let_def)
  next
    case filled
    show ?thesis
    proof (cases sublen)
      case None
      then show ?thesis using c(1,3) filled D limit l
        by (auto simp: TryGetFromLongestMatchCache_def cache_available_def answer_def Let_def)
    next
      case (Some t)
      then have t: "limit = 258" "length t = 259" using limit(3) sub by auto
      show ?thesis
      proof (cases "l \<le> ZopfliMaxCachedSublen c ?q")
        case True
        then show ?thesis using c(1,3) filled D l t Some read_entry [OF c(2) filled(2) True t(2) l]
          by (auto simp: TryGetFromLongestMatchCache_def cache_available_def answer_def Let_def)
      next
        case False
        then show ?thesis using c(1,3) filled D t Some
          by (auto simp: TryGetFromLongestMatchCache_def cache_available_def Let_def)
      qed
    qed
  qed
qed

text \<open>Writing one entry leaves the others as they are.\<close>

lemma runs_at_cong:
  assumes "runs_at c base D m k lo" and "\<forall>x. base \<le> x \<and> x < base + 24 \<longrightarrow> c' ! x = c ! x" and "\<forall>x. lo \<le> x \<and> x \<le> m \<longrightarrow> D' x = D x"
  shows "runs_at c' base D' m k lo"
  using assms(1,3)
proof (induction "ZOPFLI_CACHE_LENGTH - k" arbitrary: k lo rule: less_induct)
  case less
  from less.prems(1) show ?case
  proof (cases rule: runs_atE)
    case (1 len dist)
    have "ZOPFLI_CACHE_LENGTH - (k + 1) < ZOPFLI_CACHE_LENGTH - k" using 1(1) by linarith
    then have "len = m \<or> runs_at c' base D' m (k + 1) (len + 1)"
      using 1(3,7) less.hyps [of "k + 1" "len + 1"] less.prems(2) by auto
    moreover have "c' ! (base + k * 3) = c ! (base + k * 3)" "c' ! (base + k * 3 + 1) = c ! (base + k * 3 + 1)"
        "c' ! (base + k * 3 + 2) = c ! (base + k * 3 + 2)"
      using assms(2) 1(1) by (auto simp: ZOPFLI_CACHE_LENGTH_def)
    ultimately show ?thesis using 1 less.prems(2) by (intro runs_atI [where len = len]) auto
  qed
qed

lemma entry_ok_frame:
  assumes "entry_ok l D c q" and "lmc_length c' ! q = lmc_length c ! q" and "lmc_dist c' ! q = lmc_dist c ! q"
    and bytes: "\<forall>x. cache_base q \<le> x \<and> x < cache_base (Suc q) \<longrightarrow> lmc_sublen c' ! x = lmc_sublen c ! x"
  shows "entry_ok l D c' q"
proof -
  have "cache_base (Suc q) = cache_base q + 24" by (simp add: cache_base_def ZOPFLI_CACHE_LENGTH_def)
  moreover then have "ZopfliMaxCachedSublen c' q = ZopfliMaxCachedSublen c q"
    using bytes by (simp add: ZopfliMaxCachedSublen_def Let_def ZOPFLI_CACHE_LENGTH_def)
  ultimately show ?thesis using assms by (auto simp: entry_ok_def entry_empty_def intro: runs_at_cong)
qed

lemma cache_ok_update:
  assumes ok: "cache_ok arr s c" and len: "length (lmc_length c') = length (lmc_length c)" "length (lmc_dist c') = length (lmc_dist c)"
      "length (lmc_sublen c') = length (lmc_sublen c)"
    and entry: "entry_ok (block_length arr s (blockstart s + q)) (block_dist arr s (blockstart s + q)) c' q"
    and other: "\<And>r. r \<noteq> q \<Longrightarrow> lmc_length c' ! r = lmc_length c ! r \<and> lmc_dist c' ! r = lmc_dist c ! r"
      "\<forall>x. x < cache_base q \<or> cache_base (Suc q) \<le> x \<longrightarrow> lmc_sublen c' ! x = lmc_sublen c ! x"
  shows "cache_ok arr s c'"
proof -
  have "entry_ok (block_length arr s (blockstart s + r)) (block_dist arr s (blockstart s + r)) c' r"
    if r: "r < blockend s - blockstart s" for r
  proof (cases "r = q")
    case False
    have "x < cache_base q \<or> cache_base (Suc q) \<le> x" if "cache_base r \<le> x" "x < cache_base (Suc r)" for x
      using that False by (cases "r < q") (auto simp: cache_base_def ZOPFLI_CACHE_LENGTH_def)
    then have "\<forall>x. cache_base r \<le> x \<and> x < cache_base (Suc r) \<longrightarrow> lmc_sublen c' ! x = lmc_sublen c ! x"
      using other(2) by blast
    moreover have "entry_ok (block_length arr s (blockstart s + r)) (block_dist arr s (blockstart s + r)) c r"
      using ok r by (simp add: cache_ok_def Let_def)
    ultimately show ?thesis using False other(1) entry_ok_frame by blast
  qed (use entry in simp)
  with ok len show ?thesis by (simp add: cache_ok_def Let_def)
qed

lemma StoreInLongestMatchCache_ok:
  assumes c: "lmc s = Some c" "cache_ok arr s c" and pos: "blockstart s \<le> pos" "pos < blockend s"
    and l: "l = block_length arr s pos" "l \<le> 258" and D: "D = block_dist arr s pos" "\<And>x. 3 \<le> x \<Longrightarrow> x \<le> l \<Longrightarrow> 0 < D x \<and> D x < 65536"
    and t: "\<And>x. 3 \<le> x \<Longrightarrow> x \<le> l \<Longrightarrow> t ! x = D x" and d: "3 \<le> l \<Longrightarrow> d = D l"
  shows "\<exists>c'. StoreInLongestMatchCache s pos 258 (Some t) d l = Inr (s\<lparr>lmc := Some c'\<rparr>) \<and> cache_ok arr s c'"
proof -
  define q where "q = pos - blockstart s"
  have q: "blockstart s + q = pos" "q < length (lmc_length c)" "q < length (lmc_dist c)" "cache_base (Suc q) \<le> length (lmc_sublen c)"
    using c(2) pos by (auto simp: q_def cache_ok_def Let_def cache_base_def ZOPFLI_CACHE_LENGTH_def)
  have entry: "entry_ok l D c q" using c(2) pos l(1) D(1) q by (auto simp: cache_ok_def Let_def q_def)
  show ?thesis
  proof (cases "cache_available c q")
    case True
    then have "StoreInLongestMatchCache s pos 258 (Some t) d l = Inr (s\<lparr>lmc := Some c\<rparr>)"
      using c(1) by (simp add: StoreInLongestMatchCache_def q_def)
    with c(2) show ?thesis by blast
  next
    case False
    then have empty: "lmc_length c ! q = 1" "lmc_dist c ! q = 0" "entry_empty c q"
      using entry D(2) [of l] by (auto simp: entry_ok_def cache_available_def entry_empty_def)
    define c' where "c' = c\<lparr>lmc_dist := (lmc_dist c)[q := (if l < 3 then 0 else d)],
        lmc_length := (lmc_length c)[q := (if l < 3 then 0 else l)]\<rparr>"
    have store: "StoreInLongestMatchCache s pos 258 (Some t) d l = and_then (ZopfliSublenToCache t q l c') (\<lambda>c''. Inr (s\<lparr>lmc := Some c''\<rparr>))"
      using c(1) False empty q(2,3) by (simp add: StoreInLongestMatchCache_def q_def [symmetric] c'_def Let_def)
    show ?thesis
    proof (cases "l < 3")
      case True
      have "entry_ok l D c' q" using True empty(3) q(2,3) by (simp add: entry_ok_def entry_empty_def c'_def ZopfliMaxCachedSublen_def)
      then have "cache_ok arr s c'"
        using q l(1) D(1) by (intro cache_ok_update [OF c(2), of _ q]) (simp_all add: c'_def)
      then show ?thesis using store True by (auto simp: ZopfliSublenToCache_def)
    next
      case False
      then obtain c'' where c'': "ZopfliSublenToCache t q l c' = Inr c''" "lmc_length c'' = lmc_length c'" "lmc_dist c'' = lmc_dist c'"
          "length (lmc_sublen c'') = length (lmc_sublen c')"
          "\<forall>x. x < cache_base q \<or> cache_base (Suc q) \<le> x \<longrightarrow> lmc_sublen c'' ! x = lmc_sublen c' ! x"
          "3 \<le> ZopfliMaxCachedSublen c'' q" "ZopfliMaxCachedSublen c'' q \<le> l"
          "runs_at (lmc_sublen c'') (cache_base q) (\<lambda>x. t ! x) (ZopfliMaxCachedSublen c'' q) 0 3"
        using ZopfliSublenToCache_stores [of l t q c'] l(2) D(2) t q(4) by (auto simp: c'_def)
      have "runs_at (lmc_sublen c'') (cache_base q) D (ZopfliMaxCachedSublen c'' q) 0 3"
        using t c''(7) by (intro runs_at_cong [OF c''(8)]) auto
      then have "entry_ok l D c'' q" using False c'' q(2,3) d by (simp add: entry_ok_def c'_def)
      then have "cache_ok arr s c''"
        using q l(1) D(1) c''(2-5) by (intro cache_ok_update [OF c(2), of _ q]) (simp_all add: c'_def)
      then show ?thesis using store c''(1) by auto
    qed
  qed
qed

text \<open>What calls may change of the state: the cache's contents, never whether there is one.\<close>

definition same_block :: "ZopfliBlockState \<Rightarrow> ZopfliBlockState \<Rightarrow> bool" where
  "same_block s s' \<longleftrightarrow> options s' = options s \<and> blockstart s' = blockstart s \<and> blockend s' = blockend s"

lemma same_block_refl [simp]: "same_block s s"
  by (simp add: same_block_def)

lemma same_block_trans: "same_block s s' \<Longrightarrow> same_block s' s'' \<Longrightarrow> same_block s s''"
  by (simp add: same_block_def)

lemma same_block_facts:
  assumes "same_block s s'"
  shows "block_hash arr s' = block_hash arr s" "block_length arr s' = block_length arr s" "block_dist arr s' = block_dist arr s"
    "cache_ok arr s' = cache_ok arr s" "blockstart s' = blockstart s" "blockend s' = blockend s"
proof -
  show *: "block_hash arr s' = block_hash arr s" "blockstart s' = blockstart s" "blockend s' = blockend s"
    using assms by (auto simp: same_block_def block_hash_def)
  then show "block_length arr s' = block_length arr s" "block_dist arr s' = block_dist arr s"
    by (auto simp: block_length_def block_dist_def)
  with * show "cache_ok arr s' = cache_ok arr s" by (auto simp: cache_ok_def)
qed

lemma block_ok_cache: "block_ok arr s \<Longrightarrow> cache_ok arr s c \<Longrightarrow> block_ok arr (s\<lparr>lmc := Some c\<rparr>)"
  using same_block_facts(4) [of s "s\<lparr>lmc := Some c\<rparr>" arr] by (simp add: block_ok_def same_block_def)

lemma block_length_bound:
  assumes "block_ok arr s" and "blockstart s \<le> pos" and "pos < blockend s"
  shows "block_length arr s pos \<le> 258" "pos + block_length arr s pos \<le> blockend s"
    "2 \<le> x \<Longrightarrow> x \<le> block_length arr s pos \<Longrightarrow> lz_match arr pos (block_dist arr s pos x) x"
  using block_finder [OF assms] best_length_bound best_dist_match by (fastforce simp: block_length_def block_dist_def)+

lemma block_dist_range:
  assumes "block_ok arr s" and "blockstart s \<le> pos" and "pos < blockend s" and "2 \<le> x" and "x \<le> block_length arr s pos"
  shows "0 < block_dist arr s pos x \<and> block_dist arr s pos x < 65536"
  using block_length_bound(3) [OF assms] by (auto simp: lz_match_def ZOPFLI_WINDOW_SIZE_def)

text \<open>The search part of a call, once the cache has had its say.\<close>

lemma search_and_store:
  assumes ok: "block_ok arr s" and pos: "blockstart s \<le> pos" "pos < blockend s" and sz: "3 \<le> blockend s - pos"
    and L: "3 \<le> L" "L \<le> 258" "pos + L \<le> blockend s" and sub: "\<And>t. sublen = Some t \<Longrightarrow> length t = 259"
  defines "h \<equiv> block_hash arr s pos" and "l \<equiv> block_length arr s pos" and "D \<equiv> block_dist arr s pos"
  shows "\<exists>s' sublen' d. search_chain h arr pos (blockend s) L sublen = Inr (sublen', d, min L l) \<and>
    StoreInLongestMatchCache s pos L sublen' d (min L l) = Inr s' \<and> block_ok arr s' \<and> same_block s s' \<and>
    answer l D L sublen (sublen', d, min L l)"
proof -
  obtain hv where fin: "finder_ok h arr (windowstart (blockstart s)) pos (blockend s) hv"
    using block_finder [OF ok pos] h_def by blast
  have room: "sub_room L sublen" using sub L(2) by (auto simp: sub_room_def)
  obtain sublen' d where found: "search_chain h arr pos (blockend s) L sublen = Inr (sublen', d, min L l)"
      "2 \<le> l \<Longrightarrow> d = D (min L l)" "sub_kept 1 (min L l) sublen sublen'"
      "\<And>t x. sublen' = Some t \<Longrightarrow> 1 < x \<Longrightarrow> x \<le> min L l \<Longrightarrow> t ! x = D x"
    using search_chain_cut [OF fin L room] by (auto simp: l_def D_def h_def block_length_def block_dist_def)
  have "rel_option (\<lambda>t t'. length t' = length t \<and> (\<forall>x. 3 \<le> x \<and> x \<le> min L l \<longrightarrow> t' ! x = D x)) sublen sublen'"
    using found(3,4) by (cases sublen; cases sublen') (auto simp: sub_kept_def)
  then have ans: "answer l D L sublen (sublen', d, min L l)"
    using found(2) L(1) by (auto simp: answer_def)
  show ?thesis
  proof (cases "lmc s = None \<or> sublen' = None \<or> L \<noteq> 258")
    case True
    then have "StoreInLongestMatchCache s pos L sublen' d (min L l) = Inr s"
      by (auto simp: StoreInLongestMatchCache_def Let_def split: option.splits)
    then show ?thesis using found(1) ans ok same_block_refl by blast
  next
    case False
    then obtain c t where ct: "lmc s = Some c" "sublen' = Some t" "L = 258" by auto
    have l: "l \<le> 258" "min L l = l" using block_length_bound(1) [OF ok pos] ct(3) by (simp_all add: l_def)
    obtain c' where c': "StoreInLongestMatchCache s pos 258 (Some t) d l = Inr (s\<lparr>lmc := Some c'\<rparr>)" "cache_ok arr s c'"
      using StoreInLongestMatchCache_ok [OF ct(1) _ pos meta_eq_to_obj_eq [OF l_def] l(1) meta_eq_to_obj_eq [OF D_def], of t d] ok ct(1,2) found(2,4) l
        block_dist_range [OF ok pos] by (auto simp: block_ok_def D_def l_def)
    have "same_block s (s\<lparr>lmc := Some c'\<rparr>)" by (simp add: same_block_def)
    then show ?thesis using found(1) ans c' block_ok_cache [OF ok c'(2)] ct l(2) by auto
  qed
qed

text \<open>The whole call: it returns, and the answer does not depend on the cache.\<close>

lemma FindLongestMatch_answer:
  assumes ok: "block_ok arr s" and pos: "blockstart s \<le> pos" "pos < blockend s"
    and limit: "3 \<le> limit" "limit \<le> 258" "sublen \<noteq> None \<Longrightarrow> limit = 258" and sub: "\<And>t. sublen = Some t \<Longrightarrow> length t = 259"
  shows "\<exists>s' sublen' d len.
    ZopfliFindLongestMatch s (block_hash arr s pos) arr pos (blockend s) limit sublen = Inr (s', sublen', d, len) \<and>
    block_ok arr s' \<and> same_block s s' \<and> pos + len \<le> blockend s \<and>
    answer (block_length arr s pos) (block_dist arr s pos) limit sublen (sublen', d, len)"
proof -
  let ?h = "block_hash arr s pos" and ?l = "block_length arr s pos" and ?D = "block_dist arr s pos"
  note l = block_length_bound [OF ok pos]
  have D: "3 \<le> ?l \<Longrightarrow> ?D ?l \<noteq> 0" using block_dist_range [OF ok pos, of ?l] by simp
  have search: "\<exists>s' sublen' d len. ZopfliFindLongestMatch s ?h arr pos (blockend s) limit sublen = Inr (s', sublen', d, len) \<and>
      block_ok arr s' \<and> same_block s s' \<and> pos + len \<le> blockend s \<and> answer ?l ?D limit sublen (sublen', d, len)"
    if miss: "TryGetFromLongestMatchCache s pos limit sublen = Inr (None, limit')" "limit' = limit \<or> limit' = ?l \<and> 3 \<le> ?l \<and> limit = 258" for limit'
  proof (cases "blockend s - pos < 3")
    case True
    then have "?l < 3" using l(2) by linarith
    with True miss limit pos show ?thesis
      using ok by (auto simp: ZopfliFindLongestMatch_def answer_def option.rel_refl)
  next
    case False
    define L where "L = (if pos + limit' > blockend s then blockend s - pos else limit')"
    have L: "3 \<le> L" "L \<le> 258" "pos + L \<le> blockend s" "min L ?l = min limit ?l"
      using False miss(2) limit l by (auto simp: L_def)
    have room: "3 \<le> blockend s - pos" using False by simp
    obtain s' sublen' d where r: "search_chain ?h arr pos (blockend s) L sublen = Inr (sublen', d, min L ?l)"
        "StoreInLongestMatchCache s pos L sublen' d (min L ?l) = Inr s'" "block_ok arr s'" "same_block s s'"
        "answer ?l ?D L sublen (sublen', d, min L ?l)"
      using search_and_store [OF ok pos room L(1-3) sub] by blast
    have "answer ?l ?D limit sublen (sublen', d, min L ?l)" using r(5) unfolding answer_def L(4) by simp
    moreover have "ZopfliFindLongestMatch s ?h arr pos (blockend s) limit sublen = Inr (s', sublen', d, min L ?l)"
      using miss limit False pos L(3) r(1,2) l(1)
      by (auto simp: ZopfliFindLongestMatch_def L_def [symmetric] Let_def)
    moreover have "pos + min L ?l \<le> blockend s" using L(3) by simp
    ultimately show ?thesis using r(3,4) by blast
  qed
  show ?thesis
  proof (cases "lmc s")
    case None
    then have "TryGetFromLongestMatchCache s pos limit sublen = Inr (None, limit)" by (simp add: TryGetFromLongestMatchCache_def)
    then show ?thesis by (rule search) simp
  next
    case (Some c)
    then have c: "cache_ok arr s c" using ok by (simp add: block_ok_def)
    then have entry: "entry_ok ?l ?D c (pos - blockstart s)" "pos - blockstart s < length (lmc_length c)"
      using pos by (auto simp: cache_ok_def Let_def dest: spec [of _ "pos - blockstart s"])
    consider (hit) r where "TryGetFromLongestMatchCache s pos limit sublen = Inr (Some r, limit)" "answer ?l ?D limit sublen r"
        "3 \<le> ?l \<or> snd (snd r) = 0"
      | (miss) limit' where "TryGetFromLongestMatchCache s pos limit sublen = Inr (None, limit')"
        "limit' = limit \<or> limit' = ?l \<and> 3 \<le> ?l \<and> limit = 258"
      using TryGet_answer [where sublen = sublen, OF Some entry l(1) limit sub D] by blast
    then show ?thesis
    proof cases
      case r: (hit r)
      obtain sublen' d len where r': "r = (sublen', d, len)" by (cases r)
      have "pos + len \<le> blockend s" using r(2,3) l(2) pos(2) by (auto simp: answer_def r' split: if_splits)
      then show ?thesis using r ok by (auto simp: ZopfliFindLongestMatch_def r')
    next
      case (miss limit')
      then show ?thesis by (rule search)
    qed
  qed
qed

section \<open>Calls one after the other\<close>

text \<open>
  The calls of the passes over a block, in any order and as often as they like, on one state: each asks for a position,
  with a limit and perhaps an array for the distances of the shorter lengths, and has what the earlier ones left in the
  cache.
\<close>

type_synonym query = "nat \<times> nat \<times> nat list option"

fun find_all :: "byte list \<Rightarrow> ZopfliBlockState \<Rightarrow> query list \<Rightarrow> failure + (nat list option \<times> nat \<times> nat) list" where
  "find_all arr s [] = Inr []"
| "find_all arr s ((pos, limit, sublen) # qs) =
     and_then (ZopfliFindLongestMatch s (block_hash arr s pos) arr pos (blockend s) limit sublen) (\<lambda>(s', r).
     and_then (find_all arr s' qs) (\<lambda>rs. Inr (r # rs)))"

text \<open>What the passes ask for: the array has room for every length, and is given with the full limit only.\<close>

fun query_ok :: "ZopfliBlockState \<Rightarrow> query \<Rightarrow> bool" where
  "query_ok s (pos, limit, sublen) \<longleftrightarrow> blockstart s \<le> pos \<and> pos < blockend s \<and> 3 \<le> limit \<and> limit \<le> 258 \<and>
     (case sublen of None \<Rightarrow> True | Some t \<Rightarrow> limit = 258 \<and> length t = 259)"

text \<open>
  Two answers to the same question: both too short to be used, or the same length and distance, a match that the data
  has, with the same distances of matches for all shorter lengths that can be used.
\<close>

fun agree :: "byte list \<Rightarrow> ZopfliBlockState \<Rightarrow> query \<Rightarrow> nat list option \<times> nat \<times> nat \<Rightarrow> nat list option \<times> nat \<times> nat \<Rightarrow> bool" where
  "agree arr s (pos, limit, sublen) (sub, d, len) (sub0, d0, len0) \<longleftrightarrow>
     pos + len \<le> blockend s \<and> (sub = None \<longleftrightarrow> sublen = None) \<and> (sub0 = None \<longleftrightarrow> sublen = None) \<and>
     (if 3 \<le> len0
      then len = len0 \<and> d = d0 \<and> len \<le> limit \<and> lz_match arr pos d len \<and>
        (sublen \<noteq> None \<longrightarrow> (\<forall>x. 3 \<le> x \<and> x \<le> len \<longrightarrow> the sub ! x = the sub0 ! x \<and> lz_match arr pos (the sub ! x) x))
      else len < 3)"

fun answered :: "byte list \<Rightarrow> ZopfliBlockState \<Rightarrow> query \<Rightarrow> nat list option \<times> nat \<times> nat \<Rightarrow> bool" where
  "answered arr s (pos, limit, sublen) (sub, d, len) \<longleftrightarrow>
     pos + len \<le> blockend s \<and> answer (block_length arr s pos) (block_dist arr s pos) limit sublen (sub, d, len)"

lemma same_block_queries:
  assumes "same_block s s'"
  shows "query_ok s' = query_ok s" "answered arr s' = answered arr s"
proof -
  show "query_ok s' = query_ok s" using same_block_facts [OF assms] by (intro ext) (auto split: option.split)
  have "answered arr s' q r = answered arr s q r" for q r
    by (cases q; cases r) (simp add: same_block_facts [OF assms])
  then show "answered arr s' = answered arr s" by blast
qed

lemma find_all_answers:
  "block_ok arr s \<Longrightarrow> \<forall>q \<in> set qs. query_ok s q \<Longrightarrow> \<exists>rs. find_all arr s qs = Inr rs \<and> list_all2 (answered arr s) qs rs"
proof (induction qs arbitrary: s)
  case (Cons q qs)
  obtain pos limit sublen where q: "q = (pos, limit, sublen)" by (cases q)
  have ok: "blockstart s \<le> pos" "pos < blockend s" "3 \<le> limit" "limit \<le> 258" "sublen \<noteq> None \<Longrightarrow> limit = 258"
      "\<And>t. sublen = Some t \<Longrightarrow> length t = 259"
    using Cons.prems(2) q by (auto split: option.splits)
  obtain s' sub d len where r: "ZopfliFindLongestMatch s (block_hash arr s pos) arr pos (blockend s) limit sublen = Inr (s', sub, d, len)"
      "block_ok arr s'" "same_block s s'" "answered arr s q (sub, d, len)"
    using FindLongestMatch_answer [where sublen = sublen, OF Cons.prems(1) ok] q by auto
  note same = same_block_queries [OF r(3)]
  have "\<forall>q \<in> set qs. query_ok s' q" using Cons.prems(2) same by simp
  with Cons.IH [OF r(2)] obtain rs where "find_all arr s' qs = Inr rs" "list_all2 (answered arr s) qs rs" by (auto simp: same)
  with r(1,4) q show ?case by simp
qed simp

lemma answered_agree:
  assumes "block_ok arr s" and "query_ok s q" and "answered arr s q r" and "answered arr s q r0"
  shows "agree arr s q r r0"
proof -
  obtain pos limit sublen sub d len sub0 d0 len0 where eqs: "q = (pos, limit, sublen)" "r = (sub, d, len)" "r0 = (sub0, d0, len0)"
    by (cases q; cases r; cases r0)
  have pos: "blockstart s \<le> pos" "pos < blockend s" "3 \<le> limit" using assms(2) by (simp_all add: eqs)
  have "lz_match arr pos (block_dist arr s pos x) x" if "3 \<le> x" "x \<le> block_length arr s pos" for x
    using block_length_bound(3) [OF assms(1) pos(1,2), of x] that by simp
  then show ?thesis
    using assms(3,4) pos(3) unfolding eqs
    by (cases sublen; cases "3 \<le> block_length arr s pos") (auto simp: answer_def option_rel_Some1)
qed

section \<open>Properties\<close>

text \<open>
  C16. The cache of longest matches is transparent and the match finder sound. Take any block, and any sequence of calls of
  \<^verbatim>\<open>ZopfliFindLongestMatch\<close> at positions of it, starting with a new cache: with any limits from 3 to 258, and with or without an array
  for the distances of the shorter lengths (as the passes use it: of 259 entries, and with the limit 258), so that calls
  store in the cache and later ones read from it. Every call returns without failing an assertion, and what it answers
  agrees with the same sequence of calls without a cache: where that finds no match of at least three bytes, neither
  does the cache (though the lengths, 0 to 2, may differ); otherwise length, distance and the distances of all lengths from three on are the same, they
  are matches that the data has, and the length is at most the limit and ends inside the block.
\<close>

theorem match_cache_transparent:
  assumes "windowstart (blockstart s) + 1 < length arr" and "blockstart s \<le> blockend s" and "blockend s \<le> length arr"
    and "lmc s = Some (ZopfliInitCache (blockend s - blockstart s))" and "\<forall>q \<in> set qs. query_ok s q"
  shows "\<exists>rs rs0. find_all arr s qs = Inr rs \<and> find_all arr (s\<lparr>lmc := None\<rparr>) qs = Inr rs0 \<and>
    length rs = length qs \<and> length rs0 = length qs \<and> (\<forall>i < length qs. agree arr s (qs ! i) (rs ! i) (rs0 ! i))"
proof -
  let ?s0 = "s\<lparr>lmc := None\<rparr>"
  have ok: "block_ok arr s" "block_ok arr ?s0" using assms(1-4) cache_ok_init [of arr s] by (simp_all add: block_ok_def)
  have "same_block s ?s0" by (simp add: same_block_def)
  note same = same_block_queries [OF this]
  obtain rs where rs: "find_all arr s qs = Inr rs" "list_all2 (answered arr s) qs rs"
    using find_all_answers [OF ok(1) assms(5)] by blast
  obtain rs0 where rs0: "find_all arr ?s0 qs = Inr rs0" "list_all2 (answered arr s) qs rs0"
    using find_all_answers [OF ok(2), of qs] assms(5) by (auto simp: same)
  have "agree arr s (qs ! i) (rs ! i) (rs0 ! i)" if "i < length qs" for i
    using answered_agree [OF ok(1)] assms(5) list_all2_nthD [OF rs(2) that] list_all2_nthD [OF rs0(2) that] that by simp
  then show ?thesis using rs rs0 by (auto dest: list_all2_lengthD)
qed

theorem match_cache_transparent_witness:
  "\<exists>rs rs0.
    find_all (replicate 600 5) \<lparr>options = ZopfliInitOptions, lmc = Some (ZopfliInitCache 600), blockstart = 0, blockend = 600\<rparr>
      [(3, 258, Some (replicate 259 0)), (3, 9, None), (3, 258, Some (replicate 259 7))] = Inr rs \<and>
    find_all (replicate 600 5) \<lparr>options = ZopfliInitOptions, lmc = None, blockstart = 0, blockend = 600\<rparr>
      [(3, 258, Some (replicate 259 0)), (3, 9, None), (3, 258, Some (replicate 259 7))] = Inr rs0 \<and>
    length rs = 3 \<and> length rs0 = 3 \<and>
    agree (replicate 600 5) \<lparr>options = ZopfliInitOptions, lmc = Some (ZopfliInitCache 600), blockstart = 0, blockend = 600\<rparr>
      (3, 258, Some (replicate 259 7)) (rs ! 2) (rs0 ! 2)"
proof -
  let ?arr = "replicate 600 5 :: byte list"
    and ?s = "\<lparr>options = ZopfliInitOptions, lmc = Some (ZopfliInitCache 600), blockstart = 0, blockend = 600\<rparr>"
    and ?qs = "[(3, 258, Some (replicate 259 0)), (3, 9, None), (3, 258, Some (replicate 259 7))] :: query list"
  have "\<exists>rs rs0. find_all ?arr ?s ?qs = Inr rs \<and> find_all ?arr (?s\<lparr>lmc := None\<rparr>) ?qs = Inr rs0 \<and>
      length rs = length ?qs \<and> length rs0 = length ?qs \<and> (\<forall>i < length ?qs. agree ?arr ?s (?qs ! i) (rs ! i) (rs0 ! i))"
    by (rule match_cache_transparent) (simp_all add: windowstart_def)
  then obtain rs rs0 where rs: "find_all ?arr ?s ?qs = Inr rs" "find_all ?arr (?s\<lparr>lmc := None\<rparr>) ?qs = Inr rs0"
      "length rs = length ?qs" "length rs0 = length ?qs" "\<forall>i < length ?qs. agree ?arr ?s (?qs ! i) (rs ! i) (rs0 ! i)"
    by blast
  have "agree ?arr ?s (?qs ! 2) (rs ! 2) (rs0 ! 2)" using rs(5) [rule_format, of 2] by simp
  with rs(1-4) show ?thesis by (intro exI [of _ rs] exI [of _ rs0]) (simp del: find_all.simps agree.simps)
qed

end
