(* ===== verification/Zopfli_Greedy.thy ===== *)
theory Zopfli_Greedy
  imports Zopfli_Match
begin

text \<open>
  \<^verbatim>\<open>ZopfliLZ77Greedy\<close> of \<^verbatim>\<open>lz77.cc\<close>: the greedy compressor with lazy matching. Its store decodes to the bytes of
  the block, given the bytes before it, and none of its assertions fails.
\<close>

section \<open>Operations\<close>

text \<open>The inner loop that inserts the rest of a match: \<open>n\<close> times \<^verbatim>\<open>assert(i < inend); i++\<close> and the update.\<close>

fun insert_rest :: "nat \<Rightarrow> byte list \<Rightarrow> nat \<Rightarrow> nat \<Rightarrow> ZopfliHash \<Rightarrow> failure + nat \<times> ZopfliHash" where
  "insert_rest 0 arr i inend h = Inr (i, h)"
| "insert_rest (Suc n) arr i inend h =
     and_then (assertion (i < inend)) (\<lambda>_. insert_rest n arr (i + 1) inend (ZopfliUpdateHash arr (i + 1) inend h))"

lemma insert_rest_index: "insert_rest n arr i inend h = Inr (i', h') \<Longrightarrow> i' = i + n"
  by (induction n arbitrary: i h) (fastforce simp: and_then_Inr)+

text \<open>What is added to the output when no match is pending: the match found, or the byte as a literal.\<close>

definition emit_current :: "byte list \<Rightarrow> nat \<Rightarrow> nat \<Rightarrow> nat \<Rightarrow> nat \<Rightarrow> ZopfliHash \<Rightarrow> ZopfliLZ77Store \<Rightarrow>
    failure + ZopfliLZ77Store \<times> nat \<times> ZopfliHash" where
  "emit_current arr inend i leng dist h store =
     (if GetLengthValue (int leng) (int dist) \<ge> int ZOPFLI_MIN_MATCH
      then and_then (ZopfliVerifyLenDist arr inend i dist leng) (\<lambda>_.
           and_then (insert_rest (leng - 1) arr i inend h) (\<lambda>(i', h').
             Inr (ZopfliStoreLitLenDist leng dist store, i', h')))
      else Inr (ZopfliStoreLitLenDist (unat (arr ! i)) 0 store, i, h))"

record greedy =
  g_hash :: ZopfliHash
  g_state :: ZopfliBlockState
  g_sublen :: "nat list"
  g_store :: ZopfliLZ77Store
  match_available :: bool
  prev_length :: nat
  prev_match :: nat

text \<open>
  One round of the main loop: the index and the variables with which the next round starts, after the increment of
  \<open>i\<close>.
\<close>

definition greedy_round :: "byte list \<Rightarrow> nat \<Rightarrow> nat \<Rightarrow> greedy \<Rightarrow> failure + nat \<times> greedy" where
  "greedy_round arr inend i g =
     (let h = ZopfliUpdateHash arr i inend (g_hash g)
      in and_then (ZopfliFindLongestMatch (g_state g) h arr i inend ZOPFLI_MAX_MATCH (Some (g_sublen g))) (\<lambda>(s, sublen, dist, leng).
         let lengvalue = GetLengthValue (int leng) (int dist);
             prevlengvalue = GetLengthValue (int (prev_length g)) (int (prev_match g));
             g = g\<lparr>g_hash := h, g_state := s, g_sublen := the sublen\<rparr>;
             emit = (\<lambda>store. and_then (emit_current arr inend i leng dist h store) (\<lambda>(store', i', h').
               Inr (i' + 1, g\<lparr>g_hash := h', g_store := store', match_available := False\<rparr>)))
         in if match_available g
            then if lengvalue > prevlengvalue + 1
                 then let store = ZopfliStoreLitLenDist (unat (arr ! (i - 1))) 0 (g_store g)
                      in if lengvalue \<ge> int ZOPFLI_MIN_MATCH \<and> lengvalue < int ZOPFLI_MAX_MATCH
                         then Inr (i + 1, g\<lparr>g_store := store, match_available := True, prev_length := leng, prev_match := dist\<rparr>)
                         else emit store
                 else and_then (ZopfliVerifyLenDist arr inend (i - 1) (prev_match g) (prev_length g)) (\<lambda>_.
                      and_then (insert_rest (prev_length g - 2) arr i inend h) (\<lambda>(i', h').
                        Inr (i' + 1, g\<lparr>g_hash := h', g_store := ZopfliStoreLitLenDist (prev_length g) (prev_match g) (g_store g),
                                       match_available := False\<rparr>)))
            else if lengvalue \<ge> int ZOPFLI_MIN_MATCH \<and> leng < ZOPFLI_MAX_MATCH
            then Inr (i + 1, g\<lparr>match_available := True, prev_length := leng, prev_match := dist\<rparr>)
            else emit (g_store g)))"

lemma greedy_round_index: "greedy_round arr inend i g = Inr (i', g') \<Longrightarrow> i < i'"
  by (auto simp: greedy_round_def emit_current_def Let_def and_then_Inr split: if_splits dest!: insert_rest_index)

function greedy_loop :: "byte list \<Rightarrow> nat \<Rightarrow> nat \<Rightarrow> greedy \<Rightarrow> failure + greedy" where
  "greedy_loop arr inend i g =
     (if i < inend then and_then (greedy_round arr inend i g) (\<lambda>(i', g'). greedy_loop arr inend i' g') else Inr g)"
  by auto
termination
  by (relation "measure (\<lambda>(arr, inend, i, g). inend - i)") (auto dest: greedy_round_index)

declare greedy_loop.simps [simp del]

text \<open>
  The local array \<^verbatim>\<open>dummysublen\<close> is not initialised; the caller of the model chooses its contents.
\<close>

definition ZopfliLZ77Greedy :: "nat list \<Rightarrow> ZopfliBlockState \<Rightarrow> byte list \<Rightarrow> nat \<Rightarrow> nat \<Rightarrow> ZopfliLZ77Store \<Rightarrow>
    failure + ZopfliBlockState \<times> ZopfliLZ77Store" where
  "ZopfliLZ77Greedy dummysublen s arr instart inend store =
     (if instart = inend then Inr (s, store)
      else and_then (window_hash arr instart inend) (\<lambda>h.
           and_then (greedy_loop arr inend instart
             \<lparr>g_hash = h, g_state = s, g_sublen = dummysublen, g_store = store, match_available = False,
              prev_length = 0, prev_match = 0\<rparr>) (\<lambda>g. Inr (g_state g, g_store g))))"

section \<open>What a store stands for\<close>

definition store_items :: "ZopfliLZ77Store \<Rightarrow> (nat \<times> nat) list" where
  "store_items store = zip (litlens store) (dists store)"

definition store_wf :: "ZopfliLZ77Store \<Rightarrow> bool" where
  "store_wf store \<longleftrightarrow> length (litlens store) = length (dists store)"

text \<open>The items of a store encode the bytes from \<open>a\<close> to \<open>b\<close>, given those before \<open>a\<close>.\<close>

definition encodes :: "byte list \<Rightarrow> nat \<Rightarrow> nat \<Rightarrow> ZopfliLZ77Store \<Rightarrow> bool" where
  "encodes arr a b store \<longleftrightarrow> store_wf store \<and> lz_valid (store_items store) (take a arr) \<and>
     lz_decode (store_items store) (take a arr) = take b arr"

lemma store_items_append [simp]:
  "store_wf store \<Longrightarrow> l < 65536 \<Longrightarrow> d < 65536 \<Longrightarrow> store_items (ZopfliStoreLitLenDist l d store) = store_items store @ [(l, d)]"
  "store_wf store \<Longrightarrow> store_wf (ZopfliStoreLitLenDist l d store)"
  by (simp_all add: store_items_def store_wf_def ZopfliStoreLitLenDist_def)

lemma encodes_init [simp]: "encodes arr a a ZopfliInitLZ77Store"
  by (simp add: encodes_def store_wf_def store_items_def ZopfliInitLZ77Store_def)

lemma encodes_literal:
  assumes "encodes arr a b store" and "b < length arr"
  shows "encodes arr a (b + 1) (ZopfliStoreLitLenDist (unat (arr ! b)) 0 store)"
proof -
  have byte: "unat (arr ! b) < 256" using unsigned_less [of "arr ! b"] by simp
  then have "lz_item_ok (unat (arr ! b), 0)" by (simp add: lz_item_ok_def)
  moreover have "lz_step (unat (arr ! b), 0) (take b arr) = take (b + 1) arr"
    using assms(2) by (simp add: lz_step_def take_Suc_conv_app_nth)
  ultimately show ?thesis using assms byte by (simp add: encodes_def)
qed

lemma encodes_match:
  assumes "encodes arr a b store" and m: "lz_match arr b d n" and n: "3 \<le> n" "n \<le> 258" and len: "b + n \<le> length arr"
  shows "encodes arr a (b + n) (ZopfliStoreLitLenDist n d store)"
proof -
  have d: "0 < d" "d \<le> b" "d < 32768" using m by (auto simp: lz_match_def ZOPFLI_WINDOW_SIZE_def)
  then have "lz_item_ok (n, d)" using n by (simp add: lz_item_ok_def)
  moreover have "lz_step (n, d) (take b arr) = take (b + n) arr"
    using copy_match_data [of n arr b d] m d len by (simp add: lz_step_def lz_match_def)
  ultimately show ?thesis using assms(1) n d len by (simp add: encodes_def)
qed

lemma VerifyLenDist_match: "lz_match arr pos d n \<Longrightarrow> pos + n \<le> sz \<Longrightarrow> ZopfliVerifyLenDist arr sz pos d n = Inr ()"
  by (auto simp: ZopfliVerifyLenDist_def lz_match_def list_all_iff assertion_def)

lemma insert_rest_hash_at:
  assumes "windowstart instart + 1 < length arr" and "instart \<le> i" and "i + n \<le> inend"
  shows "insert_rest n arr i inend (hash_at arr instart inend (Suc i)) = Inr (i + n, hash_at arr instart inend (Suc (i + n)))"
  using assms(2,3)
proof (induction n arbitrary: i)
  case (Suc n)
  then show ?case using Suc.IH [of "i + 1"] hash_at_Suc [OF assms(1), of "Suc i" inend] by simp
qed simp

section \<open>The invariant of the loop\<close>

text \<open>A found length that is worth at least three is that of a match.\<close>

lemma answer_match:
  assumes "block_ok arr s" and "blockstart s \<le> pos" and "pos < blockend s"
    and "answer (block_length arr s pos) (block_dist arr s pos) 258 sublen (sublen', d, len)" and "3 \<le> len"
  shows "lz_match arr pos d len" "len \<le> 258" "pos + len \<le> blockend s"
  using assms(4,5) block_length_bound [OF assms(1-3)] by (auto simp: answer_def split: if_splits)

definition greedy_inv :: "byte list \<Rightarrow> ZopfliBlockState \<Rightarrow> nat \<Rightarrow> greedy \<Rightarrow> bool" where
  "greedy_inv arr s0 i g \<longleftrightarrow>
     blockstart s0 \<le> i \<and> i \<le> blockend s0 \<and> g_hash g = hash_at arr (blockstart s0) (blockend s0) i \<and>
     block_ok arr (g_state g) \<and> same_block s0 (g_state g) \<and> length (g_sublen g) = 259 \<and>
     (if match_available g
      then blockstart s0 < i \<and> encodes arr (blockstart s0) (i - 1) (g_store g) \<and> 3 \<le> prev_length g \<and> prev_length g \<le> 258 \<and>
           lz_match arr (i - 1) (prev_match g) (prev_length g) \<and> i - 1 + prev_length g \<le> blockend s0
      else encodes arr (blockstart s0) i (g_store g))"

lemma length_value: "GetLengthValue (int len) d \<ge> 3 \<Longrightarrow> 3 \<le> len" "GetLengthValue (int len) d < 258 \<Longrightarrow> len \<le> 258"
  by (auto simp: GetLengthValue_def split: if_splits)

lemma emit_current_encodes:
  assumes store: "encodes arr (blockstart s) i store" and ok: "block_ok arr s" and i: "blockstart s \<le> i" "i < blockend s"
    and ans: "answer (block_length arr s i) (block_dist arr s i) 258 sublen (sublen', dist, leng)"
  shows "\<exists>store' i'. emit_current arr (blockend s) i leng dist (hash_at arr (blockstart s) (blockend s) (Suc i)) store =
      Inr (store', i', hash_at arr (blockstart s) (blockend s) (Suc i')) \<and> i \<le> i' \<and> i' < blockend s \<and>
    encodes arr (blockstart s) (Suc i') store'"
proof (cases "GetLengthValue (int leng) (int dist) \<ge> 3")
  case True
  note m = answer_match [OF ok i ans length_value(1) [OF True]] and leng = length_value(1) [OF True]
  have len: "blockend s \<le> length arr" "windowstart (blockstart s) + 1 < length arr" using ok by (auto simp: block_ok_def)
  have "encodes arr (blockstart s) (i + leng) (ZopfliStoreLitLenDist leng dist store)"
    using encodes_match [OF store m(1) leng m(2)] m(3) len by simp
  moreover have "insert_rest (leng - 1) arr i (blockend s) (hash_at arr (blockstart s) (blockend s) (Suc i)) =
      Inr (i + (leng - 1), hash_at arr (blockstart s) (blockend s) (Suc (i + (leng - 1))))"
    using m(3) leng by (intro insert_rest_hash_at [OF len(2) i(1)]) auto
  moreover have "Suc (i + (leng - 1)) = i + leng" using leng by simp
  ultimately show ?thesis
    using True m(3) leng VerifyLenDist_match [OF m(1,3)] by (auto simp: emit_current_def intro!: exI [of _ "i + (leng - 1)"])
next
  case False
  then show ?thesis using encodes_literal [OF store] i ok by (auto simp: emit_current_def block_ok_def)
qed

lemma greedy_round_inv:
  assumes inv: "greedy_inv arr s0 i g" and i: "i < blockend s0"
  shows "\<exists>i' g'. greedy_round arr (blockend s0) i g = Inr (i', g') \<and> greedy_inv arr s0 i' g'"
proof -
  have s: "block_ok arr (g_state g)" "blockstart (g_state g) = blockstart s0" "blockend (g_state g) = blockend s0"
      "same_block s0 (g_state g)" "blockstart s0 \<le> i"
    using inv by (auto simp: greedy_inv_def same_block_def)
  have len: "blockend s0 \<le> length arr" "windowstart (blockstart s0) + 1 < length arr"
    using s by (auto simp: block_ok_def)
  let ?h = "hash_at arr (blockstart s0) (blockend s0) (Suc i)"
  have h: "ZopfliUpdateHash arr i (blockend s0) (g_hash g) = ?h"
    using inv hash_at_Suc [OF len(2), of i "blockend s0"] by (simp add: greedy_inv_def)
  obtain s' sublen' dist leng where find: "ZopfliFindLongestMatch (g_state g) ?h arr i (blockend s0) 258 (Some (g_sublen g)) =
        Inr (s', sublen', dist, leng)" "block_ok arr s'" "same_block (g_state g) s'"
      "answer (block_length arr (g_state g) i) (block_dist arr (g_state g) i) 258 (Some (g_sublen g)) (sublen', dist, leng)"
    using FindLongestMatch_answer [OF s(1), of i 258 "Some (g_sublen g)"] s i inv by (auto simp: greedy_inv_def block_hash_def)
  have s': "same_block s0 s'" "blockstart s' = blockstart s0" "blockend s' = blockend s0"
    using same_block_trans [OF s(4) find(3)] by (auto simp: same_block_def)
  have sub: "length (the sublen') = 259" using find(4) inv by (auto simp: answer_def greedy_inv_def option_rel_Some1)
  have ans: "answer (block_length arr s' i) (block_dist arr s' i) 258 (Some (g_sublen g)) (sublen', dist, leng)"
    using find(4) same_block_facts(2,3) [OF find(3), of arr] by simp
  have match: "lz_match arr i dist leng" "leng \<le> 258" "i + leng \<le> blockend s0" if "3 \<le> leng"
    using answer_match [OF find(2) _ _ ans that] s(5) s' i by auto
  have emit: "\<exists>store' i'. emit_current arr (blockend s0) i leng dist ?h store =
        Inr (store', i', hash_at arr (blockstart s0) (blockend s0) (Suc i')) \<and> i \<le> i' \<and> i' < blockend s0 \<and>
      encodes arr (blockstart s0) (Suc i') store'" if "encodes arr (blockstart s0) i store" for store
    using emit_current_encodes [OF _ find(2) _ _ ans, of store] that s(5) s' i by simp
  let ?g = "g\<lparr>g_hash := ?h, g_state := s', g_sublen := the sublen'\<rparr>"
  have emitted: "\<exists>i' g'. and_then (emit_current arr (blockend s0) i leng dist ?h store)
        (\<lambda>(store', i', h'). Inr (i' + 1, ?g\<lparr>g_hash := h', g_store := store', match_available := False\<rparr>)) = Inr (i', g') \<and>
      greedy_inv arr s0 i' g'" if store: "encodes arr (blockstart s0) i store" for store
  proof -
    obtain store' i' where e: "emit_current arr (blockend s0) i leng dist ?h store =
        Inr (store', i', hash_at arr (blockstart s0) (blockend s0) (Suc i'))" "i \<le> i'" "i' < blockend s0"
        "encodes arr (blockstart s0) (Suc i') store'"
      using emit [OF store] by blast
    let ?g' = "?g\<lparr>g_hash := hash_at arr (blockstart s0) (blockend s0) (Suc i'), g_store := store', match_available := False\<rparr>"
    have "greedy_inv arr s0 (Suc i') ?g'" using e s(5) s'(1) find(2) sub by (simp add: greedy_inv_def)
    then show ?thesis using e(1) by auto
  qed
  let ?lv = "GetLengthValue (int leng) (int dist)" and ?pv = "GetLengthValue (int (prev_length g)) (int (prev_match g))"
  have round: "greedy_round arr (blockend s0) i g =
      (if match_available g
       then if ?lv > ?pv + 1
            then if ?lv \<ge> 3 \<and> ?lv < 258
                 then Inr (i + 1, ?g\<lparr>g_store := ZopfliStoreLitLenDist (unat (arr ! (i - 1))) 0 (g_store g), match_available := True,
                                     prev_length := leng, prev_match := dist\<rparr>)
                 else and_then (emit_current arr (blockend s0) i leng dist ?h (ZopfliStoreLitLenDist (unat (arr ! (i - 1))) 0 (g_store g)))
                   (\<lambda>(store', i', h'). Inr (i' + 1, ?g\<lparr>g_hash := h', g_store := store', match_available := False\<rparr>))
            else and_then (ZopfliVerifyLenDist arr (blockend s0) (i - 1) (prev_match g) (prev_length g)) (\<lambda>_.
                 and_then (insert_rest (prev_length g - 2) arr i (blockend s0) ?h) (\<lambda>(i', h').
                   Inr (i' + 1, ?g\<lparr>g_hash := h', g_store := ZopfliStoreLitLenDist (prev_length g) (prev_match g) (g_store g),
                                  match_available := False\<rparr>)))
       else if ?lv \<ge> 3 \<and> leng < 258
       then Inr (i + 1, ?g\<lparr>match_available := True, prev_length := leng, prev_match := dist\<rparr>)
       else and_then (emit_current arr (blockend s0) i leng dist ?h (g_store g))
         (\<lambda>(store', i', h'). Inr (i' + 1, ?g\<lparr>g_hash := h', g_store := store', match_available := False\<rparr>)))"
    unfolding greedy_round_def h by (simp add: find(1) Let_def)
  show ?thesis
  proof (cases "match_available g")
    case True
    then have pend: "blockstart s0 < i" "encodes arr (blockstart s0) (i - 1) (g_store g)" "3 \<le> prev_length g" "prev_length g \<le> 258"
        "lz_match arr (i - 1) (prev_match g) (prev_length g)" "i - 1 + prev_length g \<le> blockend s0"
      using inv by (auto simp: greedy_inv_def)
    have lit: "encodes arr (blockstart s0) i (ZopfliStoreLitLenDist (unat (arr ! (i - 1))) 0 (g_store g))"
      using encodes_literal [OF pend(2)] pend(1) i len by simp
    show ?thesis
    proof (cases "?lv > ?pv + 1")
      case longer: True
      show ?thesis
      proof (cases "?lv \<ge> 3 \<and> ?lv < 258")
        case lazy: True
        then show ?thesis using round True longer lit match [OF length_value(1)] s(5) s'(1) find(2) sub i length_value(1) [of leng]
          by (auto simp: greedy_inv_def)
      next
        case False
        then show ?thesis using round True longer emitted [OF lit] by auto
      qed
    next
      case False
      have "encodes arr (blockstart s0) (i - 1 + prev_length g) (ZopfliStoreLitLenDist (prev_length g) (prev_match g) (g_store g))"
        using encodes_match [OF pend(2,5,3,4)] pend(6) len by simp
      moreover have "insert_rest (prev_length g - 2) arr i (blockend s0) ?h =
          Inr (i + (prev_length g - 2), hash_at arr (blockstart s0) (blockend s0) (Suc (i + (prev_length g - 2))))"
        using pend by (intro insert_rest_hash_at [OF len(2) s(5)]) auto
      moreover have "i - 1 + prev_length g = Suc (i + (prev_length g - 2))" using pend(1,3) by simp
      ultimately show ?thesis
        using round True False VerifyLenDist_match [OF pend(5,6)] pend(6) s(5) s'(1) find(2) sub by (auto simp: greedy_inv_def)
    qed
  next
    case False
    then have store: "encodes arr (blockstart s0) i (g_store g)" using inv by (simp add: greedy_inv_def)
    show ?thesis
    proof (cases "?lv \<ge> 3 \<and> leng < 258")
      case True
      then show ?thesis using round False store match [OF length_value(1)] s(5) s'(1) find(2) sub i length_value(1) [of leng]
        by (auto simp: greedy_inv_def)
    next
      case short: False
      then show ?thesis using round False emitted [OF store] by auto
    qed
  qed
qed

text \<open>At the end of the block no match is pending: it would end beyond it.\<close>

lemma greedy_loop_encodes:
  assumes "greedy_inv arr s0 i g"
  shows "\<exists>g'. greedy_loop arr (blockend s0) i g = Inr g' \<and> block_ok arr (g_state g') \<and> same_block s0 (g_state g') \<and>
    encodes arr (blockstart s0) (blockend s0) (g_store g')"
  using assms
proof (induction "blockend s0 - i" arbitrary: i g rule: less_induct)
  case less
  show ?case
  proof (cases "i < blockend s0")
    case True
    then obtain i' g' where r: "greedy_round arr (blockend s0) i g = Inr (i', g')" "greedy_inv arr s0 i' g'"
      using greedy_round_inv [OF less.prems] by blast
    have "greedy_loop arr (blockend s0) i g = greedy_loop arr (blockend s0) i' g'"
      using True r(1) by (subst greedy_loop.simps) simp
    then show ?thesis using less.hyps [OF _ r(2)] greedy_round_index [OF r(1)] True by (simp add: diff_less_mono2)
  next
    case False
    then have "greedy_loop arr (blockend s0) i g = Inr g" by (subst greedy_loop.simps) simp
    moreover have "i = blockend s0" using False less.prems by (simp add: greedy_inv_def)
    ultimately show ?thesis using less.prems by (auto simp: greedy_inv_def split: if_splits)
  qed
qed

lemma ZopfliLZ77Greedy_encodes:
  assumes ok: "block_ok arr s" and sub: "length dummysublen = 259" and store: "encodes arr (blockstart s) (blockstart s) store"
  shows "\<exists>s' store'. ZopfliLZ77Greedy dummysublen s arr (blockstart s) (blockend s) store = Inr (s', store') \<and>
    block_ok arr s' \<and> same_block s s' \<and> encodes arr (blockstart s) (blockend s) store'"
proof (cases "blockstart s = blockend s")
  case True
  then show ?thesis using assms by (auto simp: ZopfliLZ77Greedy_def)
next
  case False
  have len: "windowstart (blockstart s) + 1 < length arr" "blockstart s \<le> blockend s" using ok by (auto simp: block_ok_def)
  let ?g = "\<lparr>g_hash = hash_at arr (blockstart s) (blockend s) (blockstart s), g_state = s, g_sublen = dummysublen, g_store = store,
    match_available = False, prev_length = 0, prev_match = 0\<rparr>"
  have "greedy_inv arr s (blockstart s) ?g" using assms len by (simp add: greedy_inv_def)
  from greedy_loop_encodes [OF this] show ?thesis
    using False window_hash_hash_at [OF len(1), of "blockend s"] by (auto simp: ZopfliLZ77Greedy_def)
qed

section \<open>Properties\<close>

text \<open>
  C18. The greedy pass round-trips: over any block whose state is consistent, \<^verbatim>\<open>ZopfliLZ77Greedy\<close> returns (no assertion
  fails, in particular none of \<^verbatim>\<open>ZopfliVerifyLenDist\<close>), leaves a consistent state, and the literals and matches it stores
  are valid and decode, given the data before the block, to exactly the bytes of the block.
\<close>

theorem greedy_roundtrip:
  assumes "block_ok arr s" and "length dummysublen = 259"
  shows "\<exists>s' store. ZopfliLZ77Greedy dummysublen s arr (blockstart s) (blockend s) ZopfliInitLZ77Store = Inr (s', store) \<and>
    block_ok arr s' \<and> lz_valid (store_items store) (take (blockstart s) arr) \<and>
    lz_decode (store_items store) (take (blockstart s) arr) = take (blockend s) arr"
proof -
  have "encodes arr (blockstart s) (blockstart s) ZopfliInitLZ77Store"
    by (simp add: encodes_def store_wf_def store_items_def ZopfliInitLZ77Store_def)
  from ZopfliLZ77Greedy_encodes [OF assms this] show ?thesis by (auto simp: encodes_def)
qed

theorem greedy_roundtrip_witness:
  "\<exists>s' store. ZopfliLZ77Greedy (replicate 259 0) \<lparr>options = ZopfliInitOptions, lmc = None, blockstart = 2, blockend = 6\<rparr> [1, 2, 3, 1, 2, 3] 2 6
      ZopfliInitLZ77Store = Inr (s', store) \<and>
    block_ok [1, 2, 3, 1, 2, 3] s' \<and> lz_valid (store_items store) [1, 2] \<and> lz_decode (store_items store) [1, 2] = [1, 2, 3, 1, 2, 3]"
proof -
  let ?s = "\<lparr>options = ZopfliInitOptions, lmc = None, blockstart = 2, blockend = 6\<rparr>"
  have "block_ok [1, 2, 3, 1, 2, 3] ?s" by (simp add: block_ok_def windowstart_def ZOPFLI_WINDOW_SIZE_def)
  from greedy_roundtrip [OF this, of "replicate 259 0"] show ?thesis by simp
qed

end
