(* ===== verification/Zopfli_Runs.thy ===== *)
theory Zopfli_Runs
  imports Zopfli_Match
begin

unbundle bit_operations_syntax

text \<open>
  Long repetitions of one byte. The rolling hash of a position depends on its three bytes only, so inside a run the
  chain of a position starts with the position before it, and the longest match found there has the maximal length.
  The optimal compressor relies on it where it skips such runs without searching.
\<close>

section \<open>The rolling hash\<close>

definition roll :: "int \<Rightarrow> byte \<Rightarrow> int" where
  "roll v c = (push_bit 5 v XOR uint c) AND 32767"

lemma bit_roll: "bit (roll v c) n \<longleftrightarrow> n < 15 \<and> ((5 \<le> n \<and> bit v (n - 5)) \<noteq> bit (uint c) n)"
proof -
  have "roll v c = (push_bit 5 v XOR uint c) AND mask 15" by (simp add: roll_def mask_eq_exp_minus_1)
  then show ?thesis by (auto simp: bit_simps)
qed

text \<open>Three bytes push everything before them out of the hash.\<close>

lemma roll_forgets: "roll (roll (roll v a) b) c = roll (roll (roll w a) b) c"
  by (rule bit_eqI) (auto simp: bit_roll)

lemma val_UpdateHashValue: "val (UpdateHashValue h c) = roll (val h) c"
  by (simp add: UpdateHashValue_def roll_def)

lemma val_ZopfliUpdateHash:
  "val (ZopfliUpdateHash arr pos e h) = roll (val h) (if pos + 3 \<le> e then arr ! (pos + 2) else 0)"
  unfolding ZopfliUpdateHash_def Let_def by (simp add: val_UpdateHashValue [symmetric] split: prod.split)

lemma hash_at_window:
  assumes "windowstart instart + 1 < length arr" and "instart \<le> pos"
  shows "\<exists>h. hash_at arr instart inend pos = update_range arr (windowstart instart) pos inend h \<and>
    val h = roll (roll 0 (arr ! windowstart instart)) (arr ! (windowstart instart + 1))"
proof -
  let ?h = "UpdateHashValue (UpdateHashValue (ZopfliInitHash ZOPFLI_WINDOW_SIZE) (arr ! windowstart instart)) (arr ! (windowstart instart + 1))"
  have "hash_at arr instart inend pos = update_range arr (windowstart instart) pos inend ?h"
    using assms by (simp add: hash_at_def window_hash_def ZopfliWarmupHash_def update_range_append)
  moreover have "val (ZopfliInitHash ZOPFLI_WINDOW_SIZE) = 0" by (simp add: ZopfliInitHash_def)
  ultimately show ?thesis by (metis val_UpdateHashValue)
qed

lemma val_update_range:
  assumes "val h = roll (roll v (arr ! ws)) (arr ! (ws + 1))" and "ws \<le> pos" and "pos = ws \<or> pos + 1 < e"
  shows "\<exists>w. val (update_range arr ws pos e h) = roll (roll w (arr ! pos)) (arr ! (pos + 1))"
  using assms(2,3)
proof (induction pos rule: dec_induct)
  case base
  then show ?case using assms(1) by auto
next
  case (step n)
  then obtain w where "val (update_range arr ws n e h) = roll (roll w (arr ! n)) (arr ! (n + 1))" by auto
  then show ?case using step by (auto simp: update_range_Suc val_ZopfliUpdateHash numeral_2_eq_2)
qed

text \<open>The value of a position that has been inserted.\<close>

lemma val_hash_at:
  assumes "windowstart instart + 1 < length arr" and "instart \<le> pos" and "pos + 2 < inend"
  shows "\<exists>w. val (hash_at arr instart inend (Suc pos)) = roll (roll (roll w (arr ! pos)) (arr ! (pos + 1))) (arr ! (pos + 2))"
proof -
  obtain h where h: "hash_at arr instart inend pos = update_range arr (windowstart instart) pos inend h"
      "val h = roll (roll 0 (arr ! windowstart instart)) (arr ! (windowstart instart + 1))"
    using hash_at_window [OF assms(1,2)] by blast
  obtain w where "val (hash_at arr instart inend pos) = roll (roll w (arr ! pos)) (arr ! (pos + 1))"
    using val_update_range [OF h(2), of pos inend] assms(2,3) windowstart_le [of instart] by (auto simp: h(1))
  then have "val (hash_at arr instart inend (Suc pos)) = roll (roll (roll w (arr ! pos)) (arr ! (pos + 1))) (arr ! (pos + 2))"
    using hash_at_Suc [OF assms(1,2), of inend] assms(3) val_ZopfliUpdateHash [of arr pos inend "hash_at arr instart inend pos"]
    by simp
  then show ?thesis by blast
qed

section \<open>The chain inside a run\<close>

text \<open>When the value has not changed, the chain goes on with the position before.\<close>

lemma prev_of_same_value:
  assumes inv: "hash_inv arr e hv hv2 ws pos h" and pos: "ws < pos" and same: "val (ZopfliUpdateHash arr pos e h) = val h"
  shows "prev (ZopfliUpdateHash arr pos e h) ! slot pos = slot (pos - 1)"
proof -
  have h: "head h ! nat (val h) = int (slot (pos - 1))" "hv (pos - 1) = val h" "length (prev h) = ZOPFLI_WINDOW_SIZE"
      "length (hashval h) = ZOPFLI_WINDOW_SIZE" "in_window ws pos (pos - 1)"
    using inv pos by (auto simp: hash_inv_def chain_inv_def in_window_def ZOPFLI_WINDOW_SIZE_def)
  then have "hashval h ! slot (pos - 1) = val h" using inv by (auto simp: hash_inv_def chain_inv_def)
  moreover have "prev (ZopfliUpdateHash arr pos e h) =
      fst (snd (chain_insert (slot pos) (val (ZopfliUpdateHash arr pos e h)) (head h) (prev h) (hashval h)))"
    unfolding ZopfliUpdateHash_def Let_def by (auto simp: UpdateHashValue_def split: prod.split)
  ultimately show ?thesis using h same by (auto simp: chain_insert_def Let_def nth_list_update)
qed

lemma block_length_run:
  assumes ok: "block_ok arr s" and pos: "blockstart s < pos" "pos + 258 \<le> blockend s"
    and run: "\<forall>i \<le> 258. arr ! (pos - 1 + i) = arr ! (pos - 1)"
  shows "block_length arr s pos = 258"
proof -
  let ?i = "blockstart s" and ?e = "blockend s" and ?x = "arr ! (pos - 1)" and ?h = "block_hash arr s pos"
  have len: "windowstart ?i + 1 < length arr" using ok by (simp add: block_ok_def)
  have bytes: "arr ! (pos + i) = ?x" if "i < 258" for i
    using run [rule_format, of "Suc i"] that pos(1) by simp
  obtain w where "val (hash_at arr ?i ?e (Suc (pos - 1))) = roll (roll (roll w ?x) (arr ! (pos - 1 + 1))) (arr ! (pos - 1 + 2))"
    using val_hash_at [OF len, of "pos - 1" ?e] pos by fastforce
  moreover obtain w' where "val (hash_at arr ?i ?e (Suc pos)) = roll (roll (roll w' (arr ! pos)) (arr ! (pos + 1))) (arr ! (pos + 2))"
    using val_hash_at [OF len, of pos ?e] pos by auto
  ultimately have "val (hash_at arr ?i ?e (Suc pos)) = val (hash_at arr ?i ?e pos)"
    using bytes [of 0] bytes [of 1] bytes [of 2] pos(1) run roll_forgets [of w' ?x ?x ?x w] by simp
  then have val: "val (ZopfliUpdateHash arr pos ?e (hash_at arr ?i ?e pos)) = val (hash_at arr ?i ?e pos)"
    using hash_at_Suc [OF len, of pos ?e] pos by simp
  obtain hv hv2 where "hash_inv arr ?e hv hv2 (windowstart ?i) pos (hash_at arr ?i ?e pos)"
    using hash_at_inv [OF len, of pos ?e] pos by auto
  then have first: "prev ?h ! slot pos = slot (pos - 1)"
    using prev_of_same_value [OF _ le_less_trans [OF windowstart_le pos(1)] val] pos(1) hash_at_Suc [OF len, of pos ?e]
    by (simp add: block_hash_def)
  obtain fv where fin: "finder_ok ?h arr (windowstart ?i) pos ?e fv" using block_finder [OF ok, of pos] pos by auto
  have dist: "slot_dist (slot pos) (prev ?h ! slot pos) = 1"
    using slot_dist_slot [of "pos - 1" pos] first pos(1) by (simp add: ZOPFLI_WINDOW_SIZE_def)
  have chain: "on_chain ?h (windowstart ?i) pos fv False (slot pos) (prev ?h ! slot pos) 1"
    using on_chain_first(1) [OF fin] dist by simp
  have probe: "probe arr pos ?e 258 (pos - 1) 1 = 258"
  proof -
    have "258 \<le> lcp arr pos (pos - 1) 258" using bytes run by (simp add: le_lcp_iff)
    then have "lcp arr pos (pos - 1) 258 = 258" using lcp_le [of arr pos "pos - 1" 258] by simp
    moreover have "arr ! (pos + 1) = arr ! (pos - 1 + 1)" using bytes [of 1] bytes [of 0] pos(1) by simp
    ultimately show ?thesis by (simp add: probe_def)
  qed
  obtain n where n: "nat ZOPFLI_MAX_CHAIN_HITS = Suc n" by (simp add: ZOPFLI_MAX_CHAIN_HITS_def)
  have W: "(1 :: nat) < ZOPFLI_WINDOW_SIZE" "(1 :: nat) < 258" by (simp_all add: ZOPFLI_WINDOW_SIZE_def)
  obtain b where b: "b < pos" "1 = pos - b"
    and step: "\<And>limit sublen bestdist. pos + limit \<le> ?e \<Longrightarrow> limit \<le> 258 \<Longrightarrow> 1 < limit \<Longrightarrow>
      FindLongestMatch_loop ?h arr pos ?e limit (Suc n) False (slot pos) (prev ?h ! slot pos) 1 sublen bestdist 1 =
      (if probe arr pos ?e limit b 1 > 1
       then walk_step ?h arr pos ?e limit n False b
              (map_option (fill (1 + 1) (probe arr pos ?e limit b 1 + 1) 1) sublen) 1
              (probe arr pos ?e limit b 1) (probe arr pos ?e limit b 1)
       else walk_step ?h arr pos ?e limit n False b sublen bestdist 1 0)"
    using FindLongestMatch_loop_step [OF fin chain pos(2) order_refl W(2,1)] by metis
  have "b = pos - 1" using b by simp
  then have "\<exists>t. search_chain ?h arr pos ?e 258 (Some (replicate 259 0)) = Inr (Some t, 1, 258)"
    using step [OF pos(2) order_refl W(2)] probe dist n by (simp add: search_chain_loop [OF fin] walk_step_def)
  moreover have "min 258 (?e - pos) = 258" using pos by simp
  ultimately show ?thesis using longest_search [OF fin] pos by (auto simp: block_length_def)
qed

end
