(* ===== verification/Zopfli_Costs.thy ===== *)
theory Zopfli_Costs
  imports Complex_Main Zopfli_Store
begin

unbundle bit_operations_syntax

text \<open>
  The cost side of \<^verbatim>\<open>squeeze.cc\<close>: the statistics of symbols, their entropy (\<^verbatim>\<open>tree.cc\<close>), the random perturbation and the
  two cost models. Floating point numbers are real numbers that every operation rounds; the roundings and the C
  library's logarithm are parameters, with the properties of IEEE 754 arithmetic the code relies on.
\<close>

section \<open>Floating point\<close>

record fp =
  rnd64 :: "real \<Rightarrow> real"
  rnd32 :: "real \<Rightarrow> real"
  c_log :: "real \<Rightarrow> real"

text \<open>
  Rounding is monotonic; halves of integers up to \<open>2\<^sup>5\<^sup>3\<close> are doubles; 0 and the powers of two up to \<open>2\<^sup>1\<^sup>0\<^sup>0\<close> are floats, and \<open>2\<^sup>4\<^sup>5 + 2\<^sup>2\<^sup>0\<close>, which has
  more than 24 significant bits, rounds to \<open>2\<^sup>4\<^sup>5\<close>. The logarithm is monotonic, 0 at 1 and (roughly) bounded at \<open>2\<^sup>3\<^sup>2\<close>.
\<close>

definition fp_ok :: "fp \<Rightarrow> bool" where
  "fp_ok fp \<longleftrightarrow> mono (rnd64 fp) \<and> mono (rnd32 fp) \<and>
     (\<forall>n :: int. \<bar>n\<bar> \<le> 2 ^ 53 \<longrightarrow> rnd64 fp (of_int n / 2) = of_int n / 2) \<and>
     rnd32 fp 0 = 0 \<and> rnd32 fp (2 ^ 45 + 2 ^ 20) = 2 ^ 45 \<and> (\<forall>k \<le> 100. rnd32 fp (2 ^ k) = 2 ^ k) \<and>
     (\<forall>x y. 1 \<le> x \<and> x \<le> y \<longrightarrow> c_log fp x \<le> c_log fp y) \<and> c_log fp 1 = 0 \<and> c_log fp (2 ^ 32) \<le> 32"

definition ZOPFLI_LARGE_FLOAT :: real where
  "ZOPFLI_LARGE_FLOAT = 10 ^ 30"

section \<open>Entropy\<close>

text \<open>The sum is an \<^verbatim>\<open>unsigned\<close>.\<close>

definition entropy_sum :: "nat list \<Rightarrow> nat" where
  "entropy_sum count = fold (\<lambda>c sum. (sum + c) mod 2 ^ 32) count 0"

definition kInvLog2 :: "fp \<Rightarrow> real" where
  "kInvLog2 fp = rnd64 fp (14426950408889 / 10000000000000)"

definition log2_of :: "fp \<Rightarrow> nat \<Rightarrow> real" where
  "log2_of fp n = rnd64 fp (c_log fp (rnd64 fp (real n)) * kInvLog2 fp)"

fun entropy_loop :: "fp \<Rightarrow> real \<Rightarrow> nat list \<Rightarrow> failure + real list" where
  "entropy_loop fp log2sum [] = Inr []"
| "entropy_loop fp log2sum (c # count) =
     (let b = (if c = 0 then log2sum else rnd64 fp (log2sum - log2_of fp c));
          b' = (if b < 0 \<and> b > - (1 / 100000) then 0 else b)
      in and_then (assertion (b' \<ge> 0)) (\<lambda>_.
         and_then (entropy_loop fp log2sum count) (\<lambda>bs. Inr (b' # bs))))"

definition ZopfliCalculateEntropy :: "fp \<Rightarrow> nat list \<Rightarrow> failure + real list" where
  "ZopfliCalculateEntropy fp count =
     (let sum = entropy_sum count
      in entropy_loop fp (log2_of fp (if sum = 0 then length count else sum)) count)"

section \<open>Statistics\<close>

record SymbolStats =
  stat_litlens :: "nat list"
  stat_dists :: "nat list"
  ll_symbols :: "real list"
  d_symbols :: "real list"

definition InitStats :: SymbolStats where
  "InitStats = \<lparr>stat_litlens = replicate 288 0, stat_dists = replicate 32 0, ll_symbols = replicate 288 0, d_symbols = replicate 32 0\<rparr>"

definition CopyStats :: "SymbolStats \<Rightarrow> SymbolStats" where
  "CopyStats source =
     \<lparr>stat_litlens = take 288 (stat_litlens source), stat_dists = take 32 (stat_dists source),
      ll_symbols = take 288 (ll_symbols source), d_symbols = take 32 (d_symbols source)\<rparr>"

text \<open>\<^verbatim>\<open>(size_t) (x * w1 + y * w2)\<close>, truncated.\<close>

definition weighed :: "fp \<Rightarrow> real \<Rightarrow> real \<Rightarrow> nat \<Rightarrow> nat \<Rightarrow> nat" where
  "weighed fp w1 w2 x y =
     nat \<lfloor>rnd64 fp (rnd64 fp (rnd64 fp (real x) * w1) + rnd64 fp (rnd64 fp (real y) * w2))\<rfloor>"

definition AddWeighedStatFreqs :: "fp \<Rightarrow> SymbolStats \<Rightarrow> real \<Rightarrow> SymbolStats \<Rightarrow> real \<Rightarrow> SymbolStats \<Rightarrow> SymbolStats" where
  "AddWeighedStatFreqs fp stats1 w1 stats2 w2 result =
     result\<lparr>stat_litlens := (map2 (weighed fp w1 w2) (stat_litlens stats1) (stat_litlens stats2))[256 := 1],
            stat_dists := map2 (weighed fp w1 w2) (stat_dists stats1) (stat_dists stats2)\<rparr>"

record RanState =
  m_w :: uint32
  m_z :: uint32

definition InitRanState :: RanState where
  "InitRanState = \<lparr>m_w = 1, m_z = 2\<rparr>"

definition Ran :: "RanState \<Rightarrow> uint32 \<times> RanState" where
  "Ran state =
     (let z = 36969 * (m_z state AND 65535) + drop_bit 16 (m_z state);
          w = 18000 * (m_w state AND 65535) + drop_bit 16 (m_w state)
      in (push_bit 16 z + w, \<lparr>m_w = w, m_z = z\<rparr>))"

definition randomize_one :: "nat \<Rightarrow> nat \<Rightarrow> RanState \<times> nat list \<Rightarrow> RanState \<times> nat list" where
  "randomize_one n i = (\<lambda>(state, freqs).
     let (r, state) = Ran state
     in if unat (drop_bit 4 r) mod 3 = 0
        then let (r', state) = Ran state in (state, freqs[i := freqs ! (unat r' mod n)])
        else (state, freqs))"

definition RandomizeFreqs :: "RanState \<Rightarrow> nat list \<Rightarrow> nat \<Rightarrow> RanState \<times> nat list" where
  "RandomizeFreqs state freqs n = fold (randomize_one n) [0..<n] (state, freqs)"

definition RandomizeStatFreqs :: "RanState \<Rightarrow> SymbolStats \<Rightarrow> RanState \<times> SymbolStats" where
  "RandomizeStatFreqs state stats =
     (let (state, ll) = RandomizeFreqs state (stat_litlens stats) 288;
          (state, d) = RandomizeFreqs state (stat_dists stats) 32
      in (state, stats\<lparr>stat_litlens := ll[256 := 1], stat_dists := d\<rparr>))"

definition ClearStatFreqs :: "SymbolStats \<Rightarrow> SymbolStats" where
  "ClearStatFreqs stats = stats\<lparr>stat_litlens := replicate 288 0, stat_dists := replicate 32 0\<rparr>"

definition CalculateStatistics :: "fp \<Rightarrow> SymbolStats \<Rightarrow> failure + SymbolStats" where
  "CalculateStatistics fp stats =
     and_then (ZopfliCalculateEntropy fp (stat_litlens stats)) (\<lambda>ll.
     and_then (ZopfliCalculateEntropy fp (stat_dists stats)) (\<lambda>d.
       Inr (stats\<lparr>ll_symbols := ll, d_symbols := d\<rparr>)))"

text \<open>The loop over the store counts as \<^verbatim>\<open>ZopfliLZ77Counts\<close> does, into the statistics.\<close>

definition GetStatistics :: "fp \<Rightarrow> ZopfliLZ77Store \<Rightarrow> SymbolStats \<Rightarrow> failure + SymbolStats" where
  "GetStatistics fp store stats =
     and_then (LZ77Counts_loop (lz_items (litlens store) (dists store) 0 (store_size store)) (stat_litlens stats) (stat_dists stats))
       (\<lambda>(ll, d). CalculateStatistics fp (stats\<lparr>stat_litlens := ll[256 := 1], stat_dists := d\<rparr>))"

section \<open>Cost models\<close>

type_synonym cost_model = "nat \<Rightarrow> nat \<Rightarrow> real"

definition GetCostFixed :: "fp \<Rightarrow> cost_model" where
  "GetCostFixed fp litlen distance =
     (if distance = 0 then if litlen \<le> 143 then 8 else 9
      else let dbits = ZopfliGetDistExtraBits (int distance);
               lbits = ZopfliGetLengthExtraBits litlen;
               lsym = ZopfliGetLengthSymbol litlen;
               cost = (if lsym \<le> 279 then 7 else 8) + 5
           in rnd64 fp (rnd64 fp (cost + real_of_int dbits) + real lbits))"

definition GetCostStat :: "fp \<Rightarrow> SymbolStats \<Rightarrow> cost_model" where
  "GetCostStat fp stats litlen distance =
     (if distance = 0 then ll_symbols stats ! litlen
      else let lsym = ZopfliGetLengthSymbol litlen;
               lbits = ZopfliGetLengthExtraBits litlen;
               dsym = nat (ZopfliGetDistSymbol (int distance));
               dbits = ZopfliGetDistExtraBits (int distance)
           in rnd64 fp (rnd64 fp (rnd64 fp (ll_symbols stats ! lsym + real lbits) + d_symbols stats ! dsym) + real_of_int dbits))"

definition dsymbols :: "nat list" where
  "dsymbols = [1, 2, 3, 4, 5, 7, 9, 13, 17, 25, 33, 49, 65, 97, 129, 193, 257, 385, 513,
    769, 1025, 1537, 2049, 3073, 4097, 6145, 8193, 12289, 16385, 24577]"

text \<open>The loops of \<^verbatim>\<open>GetCostModelMinCost\<close>: the first argument with the smallest cost below the initial one, or 0.\<close>

definition cheapest :: "(nat \<Rightarrow> real) \<Rightarrow> nat list \<Rightarrow> nat" where
  "cheapest c is = fst (fold (\<lambda>i (best, mincost). if c i < mincost then (i, c i) else (best, mincost)) is (0, ZOPFLI_LARGE_FLOAT))"

definition GetCostModelMinCost :: "cost_model \<Rightarrow> real" where
  "GetCostModelMinCost costmodel = costmodel (cheapest (\<lambda>i. costmodel i 1) [3..<259]) (cheapest (costmodel 3) dsymbols)"

section \<open>Rounding\<close>

lemma fp_okD:
  assumes "fp_ok fp"
  shows "x \<le> y \<Longrightarrow> rnd64 fp x \<le> rnd64 fp y" "x \<le> y \<Longrightarrow> rnd32 fp x \<le> rnd32 fp y"
    "\<bar>n\<bar> \<le> 2 ^ 53 \<Longrightarrow> rnd64 fp (of_int n / 2) = of_int n / 2"
  using assms by (auto simp: fp_ok_def mono_def)

lemma rnd64_half:
  assumes "fp_ok fp" and "2 * x = of_int n" and "\<bar>n\<bar> \<le> 2 ^ 53"
  shows "rnd64 fp x = x"
proof -
  have eq: "x = of_int n / 2" using assms(2) by simp
  show ?thesis unfolding eq by (rule fp_okD(3) [OF assms(1,3)])
qed

lemma rnd64_nat: "fp_ok fp \<Longrightarrow> n \<le> 2 ^ 52 \<Longrightarrow> rnd64 fp (real n) = real n"
  by (rule rnd64_half [of _ _ "2 * int n"]) auto

lemma rnd64_range: "fp_ok fp \<Longrightarrow> 0 \<le> x \<Longrightarrow> x \<le> real n \<Longrightarrow> n \<le> 2 ^ 52 \<Longrightarrow> 0 \<le> rnd64 fp x \<and> rnd64 fp x \<le> real n"
  using fp_okD(1) [of fp 0 x] fp_okD(1) [of fp x "real n"] rnd64_nat [of fp 0] rnd64_nat [of fp n] by simp

section \<open>Entropy is a cost\<close>

lemma entropy_sum_exact: "sum_list count < 2 ^ 32 \<Longrightarrow> entropy_sum count = sum_list count"
proof -
  have "fold (\<lambda>c sum. (sum + c) mod 2 ^ 32) count a = a + sum_list count" if "a + sum_list count < 2 ^ 32" for a
    using that
  proof (induction count arbitrary: a)
    case (Cons c count)
    then show ?case by (simp add: add.assoc)
  qed simp
  from this [of 0] show "sum_list count < 2 ^ 32 \<Longrightarrow> entropy_sum count = sum_list count" by (simp add: entropy_sum_def)
qed

lemma kInvLog2_range: "fp_ok fp \<Longrightarrow> 0 \<le> kInvLog2 fp \<and> kInvLog2 fp \<le> 3 / 2"
  using fp_okD(1) [of fp 0 "14426950408889 / 10000000000000"] fp_okD(1) [of fp "14426950408889 / 10000000000000" "3 / 2"]
    rnd64_half [of fp 0 0] rnd64_half [of fp "3 / 2" 3] by (simp add: kInvLog2_def)

lemma c_log_range:
  assumes "fp_ok fp" and "1 \<le> n" and "n < 2 ^ 32"
  shows "0 \<le> c_log fp (real n)" "c_log fp (real n) \<le> 32" "1 \<le> m \<Longrightarrow> m \<le> n \<Longrightarrow> c_log fp (real m) \<le> c_log fp (real n)"
proof -
  have log: "\<And>x y. 1 \<le> x \<Longrightarrow> x \<le> y \<Longrightarrow> c_log fp x \<le> c_log fp y" "c_log fp 1 = 0" "c_log fp (2 ^ 32) \<le> 32"
    using assms(1) by (auto simp: fp_ok_def)
  have n: "1 \<le> real n" "real n \<le> 2 ^ 32" using assms(2,3) by simp_all
  show "0 \<le> c_log fp (real n)" using log(1) [of 1 "real n"] log(2) n by simp
  show "c_log fp (real n) \<le> 32" using log(1) [OF n] log(3) by simp
  show "1 \<le> m \<Longrightarrow> m \<le> n \<Longrightarrow> c_log fp (real m) \<le> c_log fp (real n)" using log(1) [of "real m" "real n"] by simp
qed

lemma log2_of_range:
  assumes "fp_ok fp" and "1 \<le> n" and "n < 2 ^ 32"
  shows "0 \<le> log2_of fp n" "log2_of fp n \<le> 48" "1 \<le> m \<Longrightarrow> m \<le> n \<Longrightarrow> log2_of fp m \<le> log2_of fp n"
proof -
  note log = c_log_range [OF assms] and k = kInvLog2_range [OF assms(1)]
  have exact: "rnd64 fp (real i) = real i" if "i \<le> n" for i using rnd64_nat [OF assms(1), of i] that assms(3) by simp
  have "c_log fp (real n) * kInvLog2 fp \<le> 32 * (3 / 2)" using log k by (intro mult_mono) auto
  then have "0 \<le> log2_of fp n \<and> log2_of fp n \<le> real 48"
    unfolding log2_of_def exact [OF order_refl] using log k by (intro rnd64_range [OF assms(1)]) auto
  then show "0 \<le> log2_of fp n" "log2_of fp n \<le> 48" by simp_all
  show "log2_of fp m \<le> log2_of fp n" if m: "1 \<le> m" "m \<le> n"
    unfolding log2_of_def exact [OF m(2)] exact [OF order_refl]
    using log(3) [OF m] k by (intro fp_okD(1) [OF assms(1)] mult_right_mono) auto
qed

lemma entropy_loop_range:
  assumes fp: "fp_ok fp" and S: "1 \<le> S" "S < 2 ^ 32" and "\<forall>c \<in> set count. c \<le> S"
  shows "\<exists>bs. entropy_loop fp (log2_of fp S) count = Inr bs \<and> length bs = length count \<and> (\<forall>b \<in> set bs. 0 \<le> b \<and> b \<le> 48)"
  using assms(4)
proof (induction count)
  case (Cons c count)
  then obtain bs where bs: "entropy_loop fp (log2_of fp S) count = Inr bs" "length bs = length count" "\<forall>b \<in> set bs. 0 \<le> b \<and> b \<le> 48"
    by auto
  let ?b = "if c = 0 then log2_of fp S else rnd64 fp (log2_of fp S - log2_of fp c)"
  have "0 \<le> ?b \<and> ?b \<le> 48"
  proof (cases "c = 0")
    case False
    have c: "1 \<le> c" "c \<le> S" "c < 2 ^ 32" using False Cons.prems S by auto
    then have "0 \<le> rnd64 fp (log2_of fp S - log2_of fp c) \<and> rnd64 fp (log2_of fp S - log2_of fp c) \<le> real 48"
      using log2_of_range [OF fp S] log2_of_range(1) [OF fp c(1,3)] by (intro rnd64_range [OF fp]) auto
    with False show ?thesis by simp
  qed (use log2_of_range [OF fp S] in simp)
  with bs show ?case by (auto simp: Let_def simp del: assertion_iff(1) intro!: assertion_iff(2))
qed simp

lemma ZopfliCalculateEntropy_range:
  assumes "fp_ok fp" and "sum_list count < 2 ^ 32" and "count \<noteq> []" and "length count < 2 ^ 32"
  shows "\<exists>bs. ZopfliCalculateEntropy fp count = Inr bs \<and> length bs = length count \<and> (\<forall>b \<in> set bs. 0 \<le> b \<and> b \<le> 48)"
proof -
  let ?S = "if sum_list count = 0 then length count else sum_list count"
  have "1 \<le> ?S" "?S < 2 ^ 32"
    using assms(2-4) by (cases "sum_list count = 0", auto simp: Suc_le_eq simp del: sum_list_eq_0_iff)+
  moreover have "\<forall>c \<in> set count. c \<le> ?S" using member_le_sum_list by fastforce
  ultimately show ?thesis
    using entropy_loop_range [OF assms(1), of ?S count] by (simp add: ZopfliCalculateEntropy_def Let_def entropy_sum_exact [OF assms(2)])
qed

section \<open>Statistics stay bounded\<close>

text \<open>The counts are at most \<open>K\<close>; after the entropy is taken, the symbol costs are between 0 and 48 bits.\<close>

definition counts_ok :: "nat \<Rightarrow> SymbolStats \<Rightarrow> bool" where
  "counts_ok K stats \<longleftrightarrow> length (stat_litlens stats) = 288 \<and> length (stat_dists stats) = 32 \<and>
     (\<forall>c \<in> set (stat_litlens stats). c \<le> K) \<and> (\<forall>c \<in> set (stat_dists stats). c \<le> K)"

definition costs_ok :: "SymbolStats \<Rightarrow> bool" where
  "costs_ok stats \<longleftrightarrow> length (ll_symbols stats) = 288 \<and> length (d_symbols stats) = 32 \<and>
     (\<forall>b \<in> set (ll_symbols stats). 0 \<le> b \<and> b \<le> 48) \<and> (\<forall>b \<in> set (d_symbols stats). 0 \<le> b \<and> b \<le> 48)"

lemma sum_list_bound: "\<forall>c \<in> set cs. c \<le> K \<Longrightarrow> sum_list cs \<le> length cs * (K :: nat)"
  by (induction cs) auto

lemma CalculateStatistics_ok:
  assumes "fp_ok fp" and "counts_ok K stats" and "288 * K < 2 ^ 32"
  shows "\<exists>stats'. CalculateStatistics fp stats = Inr stats' \<and> counts_ok K stats' \<and> costs_ok stats' \<and>
    stat_litlens stats' = stat_litlens stats \<and> stat_dists stats' = stat_dists stats"
proof -
  have len: "length (stat_litlens stats) = 288" "length (stat_dists stats) = 32" using assms(2) by (simp_all add: counts_ok_def)
  have "sum_list (stat_litlens stats) \<le> 288 * K" "sum_list (stat_dists stats) \<le> 32 * K"
    using assms(2) sum_list_bound [of _ K] by (fastforce simp: counts_ok_def)+
  then have "sum_list (stat_litlens stats) < 2 ^ 32" "sum_list (stat_dists stats) < 2 ^ 32" using assms(3) by auto
  then obtain ll d where "ZopfliCalculateEntropy fp (stat_litlens stats) = Inr ll" "length ll = 288" "\<forall>b \<in> set ll. 0 \<le> b \<and> b \<le> 48"
      "ZopfliCalculateEntropy fp (stat_dists stats) = Inr d" "length d = 32" "\<forall>b \<in> set d. 0 \<le> b \<and> b \<le> 48"
    using ZopfliCalculateEntropy_range [OF assms(1), of "stat_litlens stats"]
      ZopfliCalculateEntropy_range [OF assms(1), of "stat_dists stats"] len by force
  with assms(2) show ?thesis by (auto simp: CalculateStatistics_def counts_ok_def costs_ok_def)
qed

lemma CopyStats_id: "counts_ok K stats \<Longrightarrow> costs_ok stats \<Longrightarrow> CopyStats stats = stats"
  by (simp add: CopyStats_def counts_ok_def costs_ok_def)

lemma counts_ok_mono: "counts_ok K stats \<Longrightarrow> K \<le> K' \<Longrightarrow> counts_ok K' stats"
  by (auto simp: counts_ok_def)

lemma set_update_le: "\<forall>c \<in> set xs. c \<le> K \<Longrightarrow> x \<le> K \<Longrightarrow> \<forall>c \<in> set (xs[i := x]). c \<le> (K :: nat)"
  using set_update_subset_insert [of xs i x] by auto

lemma ClearStatFreqs_counts: "counts_ok 0 (ClearStatFreqs stats)"
  by (simp add: counts_ok_def ClearStatFreqs_def)

lemma GetStatistics_ok:
  assumes "fp_ok fp" and "counts_ok 0 stats" and items: "\<forall>p \<in> set (lz_items (litlens store) (dists store) 0 (store_size store)). lz_item_ok p"
    and N: "store_size store \<le> N" "1 \<le> N" "288 * N < 2 ^ 32"
  shows "\<exists>stats'. GetStatistics fp store stats = Inr stats' \<and> counts_ok N stats' \<and> costs_ok stats'"
proof -
  let ?items = "lz_items (litlens store) (dists store) 0 (store_size store)"
  have len: "length (stat_litlens stats) = 288" "length (stat_dists stats) = 32" using assms(2) by (simp_all add: counts_ok_def)
  obtain ll d where c: "LZ77Counts_loop ?items (stat_litlens stats) (stat_dists stats) = Inr (ll, d)" "length ll = 288" "length d = 32"
      "\<forall>s < 288. ll ! s = stat_litlens stats ! s + count_list (map ll_symbol ?items) s"
      "\<forall>s < 32. d ! s = stat_dists stats ! s + count_list (map d_symbol (matches ?items)) s"
    using LZ77Counts_loop_eq [OF items len] by blast
  have zero: "stat_litlens stats ! s = 0" if "s < 288" for s using assms(2) that len by (auto simp: counts_ok_def)
  have zero': "stat_dists stats ! s = 0" if "s < 32" for s using assms(2) that len by (auto simp: counts_ok_def)
  have n: "length ?items \<le> N" using N(1) by (simp add: lz_items_def)
  have "ll ! s \<le> N" if "s < 288" for s
    using c(4) zero [OF that] that count_list_le [of "map ll_symbol ?items" s] n by simp
  moreover have "d ! s \<le> N" if "s < 32" for s
  proof -
    have "d ! s = count_list (map d_symbol (matches ?items)) s" using c(5) zero' [OF that] that by simp
    also have "\<dots> \<le> length (matches ?items)" using count_list_le [of "map d_symbol (matches ?items)" s] by simp
    also have "\<dots> \<le> N" using n length_filter_le le_trans by blast
    finally show ?thesis .
  qed
  ultimately have "\<forall>x \<in> set ll. x \<le> N" "\<forall>x \<in> set d. x \<le> N" using c(2,3) by (auto simp: in_set_conv_nth)
  then have "counts_ok N (stats\<lparr>stat_litlens := ll[256 := 1], stat_dists := d\<rparr>)"
    using c(2,3) N(2) set_update_le [of ll N 1 256] by (simp add: counts_ok_def)
  from CalculateStatistics_ok [OF assms(1) this N(3)] show ?thesis using c(1) by (auto simp: GetStatistics_def)
qed

lemma weighed_half:
  assumes "fp_ok fp" and "x \<le> 2 ^ 50" and "y \<le> 2 ^ 50"
  shows "weighed fp 1 (1 / 2) x y = x + y div 2"
proof -
  have e: "rnd64 fp (real x) = real x" "rnd64 fp (real y) = real y" using assms by (simp_all add: rnd64_nat)
  have h: "rnd64 fp (real y * (1 / 2)) = real y * (1 / 2)" using assms by (intro rnd64_half [where n = "int y"]) auto
  have s: "rnd64 fp (real x + real y * (1 / 2)) = real x + real y * (1 / 2)"
    using assms by (intro rnd64_half [where n = "2 * int x + int y"]) auto
  have f: "\<lfloor>real x + real y * (1 / 2)\<rfloor> = int (x + y div 2)"
    by (simp add: floor_divide_of_nat_eq [of y 2, simplified] add.commute)
  show ?thesis unfolding weighed_def e mult_1_right h s f by simp
qed

lemma AddWeighedStatFreqs_ok:
  assumes "fp_ok fp" and "counts_ok N a" and "counts_ok (2 * N) b" and "1 \<le> N" and "2 * N \<le> 2 ^ 50"
  shows "counts_ok (2 * N) (AddWeighedStatFreqs fp a 1 b (1 / 2) result)"
proof -
  have "\<forall>z \<in> set (map2 (weighed fp 1 (1 / 2)) xs ys). z \<le> 2 * N" if "\<forall>x \<in> set xs. x \<le> N" "\<forall>y \<in> set ys. y \<le> 2 * N" for xs ys
  proof
    fix z
    assume "z \<in> set (map2 (weighed fp 1 (1 / 2)) xs ys)"
    then obtain x y where "z = weighed fp 1 (1 / 2) x y" "x \<in> set xs" "y \<in> set ys" by (auto dest: set_zip_leftD set_zip_rightD)
    moreover then have "x \<le> N" "y \<le> 2 * N" using that by auto
    ultimately show "z \<le> 2 * N" using weighed_half [OF assms(1), of x y] assms(5) by simp
  qed
  note le = this
  let ?r = "AddWeighedStatFreqs fp a 1 b (1 / 2) result"
  have r: "stat_litlens ?r = (map2 (weighed fp 1 (1 / 2)) (stat_litlens a) (stat_litlens b))[256 := 1]"
      "stat_dists ?r = map2 (weighed fp 1 (1 / 2)) (stat_dists a) (stat_dists b)"
    by (simp_all add: AddWeighedStatFreqs_def)
  have "\<forall>z \<in> set (stat_litlens ?r). z \<le> 2 * N"
    unfolding r by (intro set_update_le le) (use assms(2-4) in \<open>auto simp: counts_ok_def\<close>)
  moreover have "\<forall>z \<in> set (stat_dists ?r). z \<le> 2 * N"
    unfolding r by (rule le) (use assms(2,3) in \<open>auto simp: counts_ok_def\<close>)
  moreover have "length (stat_litlens ?r) = 288" "length (stat_dists ?r) = 32"
    using assms(2,3) by (simp_all add: AddWeighedStatFreqs_def counts_ok_def)
  ultimately show ?thesis by (simp add: counts_ok_def)
qed

lemma RandomizeFreqs_ok:
  assumes "length freqs = n" and "\<forall>c \<in> set freqs. c \<le> K" and "RandomizeFreqs state freqs n = (state', freqs')"
  shows "length freqs' = n \<and> (\<forall>c \<in> set freqs'. c \<le> K)"
proof -
  have step: "length (snd (randomize_one n i p)) = n \<and> (\<forall>c \<in> set (snd (randomize_one n i p)). c \<le> K)"
    if "length (snd p) = n" "\<forall>c \<in> set (snd p). c \<le> K" "i < n" for i p
  proof -
    obtain st fs where p: "p = (st, fs)" by (cases p)
    have "\<forall>c \<in> set (fs[i := fs ! (k mod n)]). c \<le> K" for k
      using that p by (intro set_update_le) (auto simp: nth_mem)
    then show ?thesis using that p by (simp add: randomize_one_def Let_def split: prod.split)
  qed
  have "length (snd (fold (randomize_one n) is p)) = n \<and> (\<forall>c \<in> set (snd (fold (randomize_one n) is p)). c \<le> K)"
    if "length (snd p) = n" "\<forall>c \<in> set (snd p). c \<le> K" "\<forall>i \<in> set is. i < n" for "is" p
    using that
  proof (induction "is" arbitrary: p)
    case (Cons i "is")
    note s = step [OF Cons.prems(1,2), of i]
    show ?case unfolding fold_Cons comp_apply by (rule Cons.IH) (use s Cons.prems(3) in simp_all)
  qed simp
  note run = this [of "(state, freqs)" "[0..<n]"]
  have "fold (randomize_one n) [0..<n] (state, freqs) = (state', freqs')" using assms(3) unfolding RandomizeFreqs_def .
  with run assms(1,2) show ?thesis by (metis atLeastLessThan_iff atLeastLessThan_upt snd_conv)
qed

lemma RandomizeStatFreqs_ok:
  assumes "counts_ok K stats" and "1 \<le> K"
  shows "counts_ok K (snd (RandomizeStatFreqs state stats))"
proof -
  obtain st ll st' d where r: "RandomizeFreqs state (stat_litlens stats) 288 = (st, ll)" "RandomizeFreqs st (stat_dists stats) 32 = (st', d)"
    by (metis prod.exhaust)
  have ll: "length ll = 288 \<and> (\<forall>c \<in> set ll. c \<le> K)" and d: "length d = 32 \<and> (\<forall>c \<in> set d. c \<le> K)"
    using RandomizeFreqs_ok [OF _ _ r(1), of K] RandomizeFreqs_ok [OF _ _ r(2), of K] assms(1) unfolding counts_ok_def by blast+
  have out: "stat_litlens (snd (RandomizeStatFreqs state stats)) = ll[256 := 1]" "stat_dists (snd (RandomizeStatFreqs state stats)) = d"
    by (simp_all add: RandomizeStatFreqs_def r)
  show ?thesis
    unfolding counts_ok_def out using ll d set_update_le [of ll K 1 256] assms(2) by (metis length_list_update)
qed

section \<open>The cost models are bounded\<close>

definition cost_ok :: "cost_model \<Rightarrow> bool" where
  "cost_ok cm \<longleftrightarrow> (\<forall>c < 256. 0 \<le> cm c 0 \<and> cm c 0 \<le> 2 ^ 20) \<and>
     (\<forall>l d. 3 \<le> l \<and> l \<le> 258 \<and> 1 \<le> d \<and> d \<le> 32768 \<longrightarrow> 0 \<le> cm l d \<and> cm l d \<le> 2 ^ 20)"

lemma extra_bits_bound:
  assumes "3 \<le> l" and "l \<le> 258" and "1 \<le> d" and "d \<le> 32768"
  shows "ZopfliGetLengthExtraBits l \<le> 5" "0 \<le> ZopfliGetDistExtraBits (int d)" "ZopfliGetDistExtraBits (int d) \<le> 13"
    "ZopfliGetLengthSymbol l < 288" "nat (ZopfliGetDistSymbol (int d)) < 32"
proof -
  have "\<forall>e \<in> set rfc_length_extra. e \<le> 5" "\<forall>e \<in> set rfc_dist_extra. e \<le> 13" "length rfc_length_extra = 29" "length rfc_dist_extra = 30"
    by (simp_all add: rfc_length_extra_def rfc_dist_extra_def)
  then have bounds: "\<And>s. s < 29 \<Longrightarrow> rfc_length_extra ! s \<le> 5" "\<And>s. s < 30 \<Longrightarrow> rfc_dist_extra ! s \<le> 13" by auto
  note row = length_symbol_row [OF assms(1,2), unfolded length_row_ok_def] and drow = dist_symbol_row [OF assms(3,4), unfolded dist_row_ok_def]
  have "ZopfliGetLengthSymbol l - 257 < 29" using row by linarith
  from bounds(1) [OF this] show "ZopfliGetLengthExtraBits l \<le> 5" using row by simp
  show "0 \<le> ZopfliGetDistExtraBits (int d)" using drow by simp
  show "ZopfliGetDistExtraBits (int d) \<le> 13" using bounds(2) [of "nat (ZopfliGetDistSymbol (int d))"] drow by linarith
  show "ZopfliGetLengthSymbol l < 288" using row by simp
  show "nat (ZopfliGetDistSymbol (int d)) < 32" using drow by linarith
qed

lemma GetCostFixed_ok:
  assumes "fp_ok fp"
  shows "cost_ok (GetCostFixed fp)"
proof -
  have "0 \<le> GetCostFixed fp l d \<and> GetCostFixed fp l d \<le> real 31" if ld: "3 \<le> l" "l \<le> 258" "1 \<le> d" "d \<le> 32768" for l d
  proof -
    let ?c = "(if ZopfliGetLengthSymbol l \<le> 279 then 7 else 8) + 5 :: real" and ?d = "real_of_int (ZopfliGetDistExtraBits (int d))"
      and ?l = "real (ZopfliGetLengthExtraBits l)"
    note b = extra_bits_bound [OF ld]
    have "0 \<le> rnd64 fp (?c + ?d) \<and> rnd64 fp (?c + ?d) \<le> real 26"
      using b by (intro rnd64_range [OF assms]) (auto split: if_splits)
    then have "0 \<le> rnd64 fp (rnd64 fp (?c + ?d) + ?l) \<and> rnd64 fp (rnd64 fp (?c + ?d) + ?l) \<le> real 31"
      using b by (intro rnd64_range [OF assms]) auto
    then show ?thesis using ld by (simp add: GetCostFixed_def Let_def)
  qed
  then show ?thesis unfolding cost_ok_def by (fastforce simp: GetCostFixed_def)
qed

lemma GetCostStat_ok:
  assumes "fp_ok fp" and "costs_ok stats"
  shows "cost_ok (GetCostStat fp stats)"
proof -
  have ll: "0 \<le> ll_symbols stats ! s \<and> ll_symbols stats ! s \<le> 48" if "s < 288" for s
    using assms(2) that by (auto simp: costs_ok_def)
  have dl: "0 \<le> d_symbols stats ! s \<and> d_symbols stats ! s \<le> 48" if "s < 32" for s
    using assms(2) that by (auto simp: costs_ok_def)
  have "0 \<le> GetCostStat fp stats l d \<and> GetCostStat fp stats l d \<le> real 114" if ld: "3 \<le> l" "l \<le> 258" "1 \<le> d" "d \<le> 32768" for l d
  proof -
    let ?ll = "ll_symbols stats ! ZopfliGetLengthSymbol l" and ?dl = "d_symbols stats ! nat (ZopfliGetDistSymbol (int d))"
    note b = extra_bits_bound [OF ld]
    let ?a = "rnd64 fp (?ll + real (ZopfliGetLengthExtraBits l))"
    have a: "0 \<le> ?a \<and> ?a \<le> real 53" using b(1) ll [OF b(4)] by (intro rnd64_range [OF assms(1)]) auto
    have c: "0 \<le> rnd64 fp (?a + ?dl) \<and> rnd64 fp (?a + ?dl) \<le> real 101" using a dl [OF b(5)] by (intro rnd64_range [OF assms(1)]) auto
    have "0 \<le> rnd64 fp (rnd64 fp (?a + ?dl) + real_of_int (ZopfliGetDistExtraBits (int d))) \<and>
        rnd64 fp (rnd64 fp (?a + ?dl) + real_of_int (ZopfliGetDistExtraBits (int d))) \<le> real 114"
      using b(2,3) c by (intro rnd64_range [OF assms(1)]) auto
    then show ?thesis using ld by (simp add: GetCostStat_def Let_def)
  qed
  moreover have "0 \<le> GetCostStat fp stats c 0 \<and> GetCostStat fp stats c 0 \<le> 48" if "c < 256" for c
    using ll [of c] that by (simp add: GetCostStat_def)
  ultimately show ?thesis unfolding cost_ok_def by fastforce
qed

lemma cheapest_in:
  assumes "is \<noteq> []" and "\<forall>i \<in> set is. c i < ZOPFLI_LARGE_FLOAT"
  shows "cheapest c is \<in> set is"
proof -
  let ?f = "\<lambda>i (best, mincost). if c i < mincost then (i, c i) else (best, mincost)"
  have "fst (fold ?f js (b, m)) \<in> insert b (set js)" for js b m
  proof (induction js arbitrary: b m)
    case (Cons j js)
    then show ?case by (auto split: if_splits)
  qed simp
  moreover obtain i js where "is = i # js" using assms(1) by (cases "is") auto
  ultimately show ?thesis using assms(2) by (auto simp: cheapest_def)
qed

lemma GetCostModelMinCost_bound:
  assumes "cost_ok cm"
  shows "GetCostModelMinCost cm \<le> 2 ^ 20"
proof -
  have LF: "(2 :: real) ^ 20 < ZOPFLI_LARGE_FLOAT" by (simp add: ZOPFLI_LARGE_FLOAT_def)
  have small: "cm l d < ZOPFLI_LARGE_FLOAT" if "3 \<le> l" "l \<le> 258" "1 \<le> d" "d \<le> 32768" for l d
    using assms that LF unfolding cost_ok_def by (meson le_less_trans)
  have lens: "i \<in> set [3..<259] \<longleftrightarrow> 3 \<le> i \<and> i \<le> 258" for i :: nat unfolding set_upt by auto
  have "cheapest (\<lambda>i. cm i 1) [3..<259] \<in> set [3..<259]"
  proof (rule cheapest_in)
    show "[3..<259] \<noteq> ([] :: nat list)" using lens [of 3] by force
    show "\<forall>i \<in> set [3..<259]. cm i 1 < ZOPFLI_LARGE_FLOAT" using small lens by simp
  qed
  moreover have ds: "\<forall>d \<in> set dsymbols. 1 \<le> d \<and> d \<le> 32768" "dsymbols \<noteq> []" by (simp_all add: dsymbols_def)
  moreover have "cheapest (cm 3) dsymbols \<in> set dsymbols" by (rule cheapest_in) (use small ds in auto)
  ultimately show ?thesis using assms lens unfolding cost_ok_def GetCostModelMinCost_def by blast
qed

section \<open>An arithmetic in which the hypotheses hold\<close>

text \<open>Exact but for one float, with the logarithm of the reals.\<close>

definition exact_fp :: fp where
  "exact_fp = \<lparr>rnd64 = (\<lambda>x. x), rnd32 = (\<lambda>x. if 2 ^ 45 \<le> x \<and> x \<le> 2 ^ 45 + 2 ^ 20 then 2 ^ 45 else x), c_log = ln\<rparr>"

lemma exact_fp_ok: "fp_ok exact_fp"
proof -
  have mono: "mono (\<lambda>x :: real. if 2 ^ 45 \<le> x \<and> x \<le> 2 ^ 45 + 2 ^ 20 then 2 ^ 45 else x)" by (auto simp: mono_def)
  have powers: "(if 2 ^ 45 \<le> (2 :: real) ^ k \<and> (2 :: real) ^ k \<le> 2 ^ 45 + 2 ^ 20 then 2 ^ 45 else 2 ^ k) = (2 :: real) ^ k" for k :: nat
  proof (cases "k \<le> 45")
    case True
    then have "(2 :: real) ^ k \<le> 2 ^ 45" by (intro power_increasing) simp_all
    then show ?thesis by auto
  next
    case False
    then have "(2 :: real) ^ 46 \<le> 2 ^ k" by (intro power_increasing) simp_all
    then show ?thesis by auto
  qed
  have "ln (2 ^ 32 :: real) \<le> 32" using ln_realpow [of "2 :: real" 32] ln_2_less_1 by simp
  then show ?thesis using mono powers by (simp add: fp_ok_def exact_fp_def mono_def del: power_numeral)
qed

end
