(* ===== verification/Zopfli_Squeeze.thy ===== *)
theory Zopfli_Squeeze
  imports Zopfli_Greedy Zopfli_Runs Zopfli_Costs
begin

text \<open>
  The optimal compressor's passes (\<^verbatim>\<open>squeeze.cc\<close>): a forward pass that finds the cheapest way to reach every byte, the
  path read backwards from the end, and a pass that follows the path and stores it. Whatever the cost model, as long as its
  costs are bounded, no assertion fails and the store decodes to the block's bytes.
\<close>

section \<open>Operations\<close>

record forward =
  f_hash :: ZopfliHash
  f_state :: ZopfliBlockState
  f_sublen :: "nat list"
  f_costs :: "real list"
  f_lengths :: "nat list"

text \<open>The shortcut in long repetitions: \<open>n\<close> positions get the maximal length, each one's hash being updated after it.\<close>

fun skip_run :: "nat \<Rightarrow> fp \<Rightarrow> byte list \<Rightarrow> nat \<Rightarrow> real \<Rightarrow> nat \<Rightarrow> nat \<Rightarrow> forward \<Rightarrow> nat \<times> nat \<times> forward" where
  "skip_run 0 fp arr inend symbolcost i j f = (i, j, f)"
| "skip_run (Suc n) fp arr inend symbolcost i j f =
     skip_run n fp arr inend symbolcost (i + 1) (j + 1)
       (f\<lparr>f_costs := (f_costs f)[j + ZOPFLI_MAX_MATCH := rnd32 fp (rnd64 fp (f_costs f ! j + symbolcost))],
          f_lengths := (f_lengths f)[j + ZOPFLI_MAX_MATCH := ZOPFLI_MAX_MATCH],
          f_hash := ZopfliUpdateHash arr (i + 1) inend (f_hash f)\<rparr>)"

definition in_long_run :: "ZopfliHash \<Rightarrow> nat \<Rightarrow> nat \<Rightarrow> nat \<Rightarrow> bool" where
  "in_long_run h instart inend i \<longleftrightarrow>
     same h ! slot i > ZOPFLI_MAX_MATCH * 2 \<and> i > instart + ZOPFLI_MAX_MATCH + 1 \<and> i + ZOPFLI_MAX_MATCH * 2 + 1 < inend \<and>
     same h ! slot (i - ZOPFLI_MAX_MATCH) > ZOPFLI_MAX_MATCH"

text \<open>A way to reach byte \<open>j + k\<close> from \<open>j\<close>, taken if it is cheaper.\<close>

definition try_cost :: "fp \<Rightarrow> real \<Rightarrow> nat \<Rightarrow> nat \<Rightarrow> forward \<Rightarrow> failure + forward" where
  "try_cost fp c j k f =
     (let newCost = rnd64 fp (f_costs f ! j + c)
      in and_then (assertion (newCost \<ge> 0)) (\<lambda>_.
         if newCost < f_costs f ! (j + k)
         then and_then (assertion (k \<le> ZOPFLI_MAX_MATCH)) (\<lambda>_.
           Inr (f\<lparr>f_costs := (f_costs f)[j + k := rnd32 fp newCost], f_lengths := (f_lengths f)[j + k := k]\<rparr>))
         else Inr f))"

fun try_lengths :: "fp \<Rightarrow> cost_model \<Rightarrow> real \<Rightarrow> nat \<Rightarrow> nat list \<Rightarrow> forward \<Rightarrow> failure + forward" where
  "try_lengths fp costmodel mincost j [] f = Inr f"
| "try_lengths fp costmodel mincost j (k # ks) f =
     (if rnd32 fp (f_costs f ! (j + k) - f_costs f ! j) \<le> mincost then try_lengths fp costmodel mincost j ks f
      else and_then (try_cost fp (costmodel k (f_sublen f ! k)) j k f) (try_lengths fp costmodel mincost j ks))"

text \<open>One round of the main loop: the next index and variables.\<close>

definition forward_round :: "fp \<Rightarrow> cost_model \<Rightarrow> real \<Rightarrow> byte list \<Rightarrow> nat \<Rightarrow> nat \<Rightarrow> nat \<Rightarrow> forward \<Rightarrow> failure + nat \<times> forward" where
  "forward_round fp costmodel mincost arr instart inend i0 f0 =
     (let h = ZopfliUpdateHash arr i0 inend (f_hash f0);
          f1 = f0\<lparr>f_hash := h\<rparr>;
          (i, j, f) = (if in_long_run h instart inend i0
                       then skip_run ZOPFLI_MAX_MATCH fp arr inend (costmodel ZOPFLI_MAX_MATCH 1) i0 (i0 - instart) f1
                       else (i0, i0 - instart, f1))
      in and_then (ZopfliFindLongestMatch (f_state f) (f_hash f) arr i inend ZOPFLI_MAX_MATCH (Some (f_sublen f))) (\<lambda>(s, sublen, d, leng).
         let f = f\<lparr>f_state := s, f_sublen := the sublen\<rparr>
         in and_then (if i + 1 \<le> inend then try_cost fp (costmodel (unat (arr ! i)) 0) j 1 f else Inr f) (\<lambda>f.
            and_then (try_lengths fp costmodel mincost j [3..<Suc (min leng (inend - i))] f) (\<lambda>f. Inr (i + 1, f)))))"

lemma skip_run_index: "skip_run n fp arr inend c i j f = (i', j', f') \<Longrightarrow> i' = i + n \<and> j' = j + n"
  by (induction n arbitrary: i j f) fastforce+

lemma forward_round_index: "forward_round fp cm mincost arr instart inend i f = Inr (i', f') \<Longrightarrow> i < i'"
  by (auto simp: forward_round_def Let_def and_then_Inr split: if_splits prod.splits dest!: skip_run_index)

function forward_loop :: "fp \<Rightarrow> cost_model \<Rightarrow> real \<Rightarrow> byte list \<Rightarrow> nat \<Rightarrow> nat \<Rightarrow> nat \<Rightarrow> forward \<Rightarrow> failure + forward" where
  "forward_loop fp costmodel mincost arr instart inend i f =
     (if i < inend
      then and_then (forward_round fp costmodel mincost arr instart inend i f) (\<lambda>(i', f').
        forward_loop fp costmodel mincost arr instart inend i' f')
      else Inr f)"
  by auto
termination
  by (relation "measure (\<lambda>(fp, cm, mincost, arr, instart, inend, i, f). inend - i)") (auto dest: forward_round_index)

declare forward_loop.simps [simp del]

text \<open>
  \<open>sublen\<close> and the length array are not initialised (the array is that of the previous run); the result is the state, the
  cost and the length array.
\<close>

definition GetBestLengths :: "fp \<Rightarrow> nat list \<Rightarrow> ZopfliBlockState \<Rightarrow> byte list \<Rightarrow> nat \<Rightarrow> nat \<Rightarrow> cost_model \<Rightarrow> nat list \<Rightarrow>
    failure + ZopfliBlockState \<times> real \<times> nat list" where
  "GetBestLengths fp sublen s arr instart inend costmodel length_array =
     (let blocksize = inend - instart;
          mincost = GetCostModelMinCost costmodel
      in if instart = inend then Inr (s, 0, length_array)
         else and_then (window_hash arr instart inend) (\<lambda>h.
              and_then (forward_loop fp costmodel mincost arr instart inend instart
                \<lparr>f_hash = h, f_state = s, f_sublen = sublen,
                 f_costs = (replicate (blocksize + 1) (rnd32 fp ZOPFLI_LARGE_FLOAT))[0 := 0],
                 f_lengths = length_array[0 := 0]\<rparr>) (\<lambda>f.
              and_then (assertion (f_costs f ! blocksize \<ge> 0)) (\<lambda>_.
                Inr (f_state f, f_costs f ! blocksize, f_lengths f)))))"

text \<open>The path from the end, then mirrored in place.\<close>

function trace_loop :: "nat list \<Rightarrow> nat \<Rightarrow> nat list \<Rightarrow> failure + nat list" where
  "trace_loop length_array i path =
     and_then (assertion (length_array ! i \<le> i)) (\<lambda>_.
     and_then (assertion (length_array ! i \<le> ZOPFLI_MAX_MATCH)) (\<lambda>_.
     and_then (assertion (length_array ! i \<noteq> 0)) (\<lambda>_.
       if i - length_array ! i = 0 then Inr (path @ [length_array ! i])
       else trace_loop length_array (i - length_array ! i) (path @ [length_array ! i]))))"
  by auto
termination by (relation "measure (\<lambda>(length_array, i, path). i)") auto

declare trace_loop.simps [simp del]

definition swap_ends :: "nat \<Rightarrow> nat list \<Rightarrow> nat list" where
  "swap_ends i path = path[i := path ! (length path - i - 1), length path - i - 1 := path ! i]"

definition mirror :: "nat list \<Rightarrow> nat list" where
  "mirror path = fold swap_ends [0..<length path div 2] path"

definition TraceBackwards :: "nat \<Rightarrow> nat list \<Rightarrow> failure + nat list" where
  "TraceBackwards n length_array =
     (if n = 0 then Inr [] else and_then (trace_loop length_array n []) (\<lambda>path. Inr (mirror path)))"

fun follow_loop :: "byte list \<Rightarrow> nat \<Rightarrow> nat list \<Rightarrow> nat \<Rightarrow> ZopfliHash \<Rightarrow> ZopfliBlockState \<Rightarrow> ZopfliLZ77Store \<Rightarrow>
    failure + ZopfliBlockState \<times> ZopfliLZ77Store" where
  "follow_loop arr inend [] pos h s store = Inr (s, store)"
| "follow_loop arr inend (len # path) pos h0 s store =
     and_then (assertion (pos < inend)) (\<lambda>_.
       let h = ZopfliUpdateHash arr pos inend h0
       in and_then (if len \<ge> ZOPFLI_MIN_MATCH
                    then and_then (ZopfliFindLongestMatch s h arr pos inend len None) (\<lambda>(s, _, d, dummy_length).
                         and_then (assertion (\<not> (dummy_length \<noteq> len \<and> len > 2 \<and> dummy_length > 2))) (\<lambda>_.
                         and_then (ZopfliVerifyLenDist arr inend pos d len) (\<lambda>_.
                           Inr (s, ZopfliStoreLitLenDist len d store, len))))
                    else Inr (s, ZopfliStoreLitLenDist (unat (arr ! pos)) 0 store, 1)) (\<lambda>(s, store, len).
          and_then (assertion (pos + len \<le> inend)) (\<lambda>_.
            follow_loop arr inend path (pos + len) (update_range arr (pos + 1) (pos + len) inend h) s store)))"

definition FollowPath :: "ZopfliBlockState \<Rightarrow> byte list \<Rightarrow> nat \<Rightarrow> nat \<Rightarrow> nat list \<Rightarrow> ZopfliLZ77Store \<Rightarrow>
    failure + ZopfliBlockState \<times> ZopfliLZ77Store" where
  "FollowPath s arr instart inend path store =
     (if instart = inend then Inr (s, store)
      else and_then (window_hash arr instart inend) (\<lambda>h. follow_loop arr inend path instart h s store))"

definition LZ77OptimalRun :: "fp \<Rightarrow> nat list \<Rightarrow> ZopfliBlockState \<Rightarrow> byte list \<Rightarrow> nat \<Rightarrow> nat \<Rightarrow> nat list \<Rightarrow> cost_model \<Rightarrow>
    ZopfliLZ77Store \<Rightarrow> failure + ZopfliBlockState \<times> nat list \<times> ZopfliLZ77Store" where
  "LZ77OptimalRun fp sublen s arr instart inend length_array costmodel store =
     and_then (GetBestLengths fp sublen s arr instart inend costmodel length_array) (\<lambda>(s, cost, length_array).
     and_then (TraceBackwards (inend - instart) length_array) (\<lambda>path.
     and_then (FollowPath s arr instart inend path store) (\<lambda>(s, store).
     and_then (assertion (cost < ZOPFLI_LARGE_FLOAT)) (\<lambda>_. Inr (s, length_array, store)))))"

section \<open>The path\<close>

lemma swap_ends_length [simp]: "length (swap_ends i p) = length p"
  by (simp add: swap_ends_def)

lemma nth_swapped:
  assumes "m \<le> length p div 2"
  shows "length (fold swap_ends [0..<m] p) = length p \<and> (\<forall>k < length p. fold swap_ends [0..<m] p ! k =
    (if k < m \<or> length p - m \<le> k then p ! (length p - 1 - k) else p ! k))"
  using assms
proof (induction m)
  case (Suc m)
  let ?q = "fold swap_ends [0..<m] p" and ?n = "length p"
  have IH: "length ?q = ?n" "\<And>k. k < ?n \<Longrightarrow> ?q ! k = (if k < m \<or> ?n - m \<le> k then p ! (?n - 1 - k) else p ! k)"
    using Suc by auto
  have m: "m < ?n - Suc m" "?n - m - 1 = ?n - Suc m" using Suc.prems by linarith+
  have ends: "?q ! m = p ! m" "?q ! (?n - Suc m) = p ! (?n - Suc m)"
    using IH(2) [of m] IH(2) [of "?n - Suc m"] m(1) by auto
  have "swap_ends m ?q ! k = (if k < Suc m \<or> ?n - Suc m \<le> k then p ! (?n - 1 - k) else p ! k)" if k: "k < ?n" for k
  proof (cases "k = m \<or> k = ?n - Suc m")
    case True
    then show ?thesis using ends m k by (auto simp: swap_ends_def IH(1) nth_list_update)
  next
    case False
    then have "swap_ends m ?q ! k = ?q ! k" by (simp add: swap_ends_def IH(1) m(2))
    moreover have "k < Suc m \<or> ?n - Suc m \<le> k \<longleftrightarrow> k < m \<or> ?n - m \<le> k" using False m(1) by linarith
    ultimately show ?thesis using IH(2) [OF k] by simp
  qed
  then show ?case using IH(1) by simp
qed simp

lemma mirror_rev: "mirror p = rev p"
proof (rule nth_equalityI)
  note * = nth_swapped [OF order_refl, of p]
  then show "length (mirror p) = length (rev p)" by (simp add: mirror_def)
  fix k
  assume "k < length (mirror p)"
  then have k: "k < length p" using * by (simp add: mirror_def)
  then have "k < length p div 2 \<or> length p - length p div 2 \<le> k \<or> k = length p - 1 - k" by presburger
  then show "mirror p ! k = rev p ! k" using * k by (auto simp: mirror_def rev_nth)
qed

text \<open>A step of length \<open>k\<close> to the byte \<open>t\<close> of a block: a literal, or a length the match finder reaches from there.\<close>

definition step_ok :: "byte list \<Rightarrow> ZopfliBlockState \<Rightarrow> nat \<Rightarrow> nat \<Rightarrow> bool" where
  "step_ok arr s t k \<longleftrightarrow> 1 \<le> k \<and> k \<le> t \<and> (k = 1 \<or> 3 \<le> k \<and> k \<le> block_length arr s (blockstart s + (t - k)))"

text \<open>A path from byte \<open>t\<close> on.\<close>

fun path_ok :: "byte list \<Rightarrow> ZopfliBlockState \<Rightarrow> nat \<Rightarrow> nat list \<Rightarrow> bool" where
  "path_ok arr s t [] \<longleftrightarrow> t = blockend s - blockstart s"
| "path_ok arr s t (k # ks) \<longleftrightarrow> t < blockend s - blockstart s \<and> step_ok arr s (t + k) k \<and> path_ok arr s (t + k) ks"

lemma trace_loop_path:
  assumes ok: "block_ok arr s" and steps: "\<And>t. 0 < t \<Longrightarrow> t \<le> blockend s - blockstart s \<Longrightarrow> step_ok arr s t (la ! t)"
    and "0 < i" and "i \<le> blockend s - blockstart s" and "path_ok arr s i (rev path)"
  shows "\<exists>path'. trace_loop la i path = Inr path' \<and> path_ok arr s 0 (rev path')"
  using assms(3-)
proof (induction i arbitrary: path rule: less_induct)
  case (less i)
  let ?k = "la ! i"
  have k: "1 \<le> ?k" "?k \<le> i" "?k = 1 \<or> 3 \<le> ?k \<and> ?k \<le> block_length arr s (blockstart s + (i - ?k))"
    using steps [of i] less.prems by (auto simp: step_ok_def)
  have "block_length arr s (blockstart s + (i - ?k)) \<le> 258" using block_length_bound(1) [OF ok] k(1,2) less.prems(2) by simp
  then have bound: "?k \<le> 258" using k(3) by auto
  have ext: "path_ok arr s (i - ?k) (rev (path @ [?k]))"
    using steps [of i] k(1,2) less.prems by simp
  show ?case
  proof (cases "i - ?k = 0")
    case True
    then have "trace_loop la i path = Inr (path @ [?k])" using k bound by (subst trace_loop.simps) simp
    then show ?thesis using ext True by simp
  next
    case False
    then have "trace_loop la i path = trace_loop la (i - ?k) (path @ [?k])" using k bound by (subst trace_loop.simps) simp
    then show ?thesis using less.IH [of "i - ?k" "path @ [?k]"] False k ext less.prems by auto
  qed
qed

lemma TraceBackwards_path:
  assumes "block_ok arr s" and "\<And>t. 0 < t \<Longrightarrow> t \<le> blockend s - blockstart s \<Longrightarrow> step_ok arr s t (la ! t)"
  shows "\<exists>path. TraceBackwards (blockend s - blockstart s) la = Inr path \<and> path_ok arr s 0 path"
  using trace_loop_path [OF assms, of "blockend s - blockstart s" "[]"]
  by (cases "blockend s - blockstart s = 0") (auto simp: TraceBackwards_def mirror_rev)

section \<open>Following the path\<close>

lemma path_ok_frame: "same_block s s' \<Longrightarrow> path_ok arr s' t ks = path_ok arr s t ks"
  by (induction ks arbitrary: t) (simp_all add: step_ok_def same_block_facts)

lemma follow_loop_encodes:
  assumes "block_ok arr s" and "path_ok arr s t path" and "encodes arr (blockstart s) (blockstart s + t) store"
    and "t \<le> blockend s - blockstart s"
  shows "\<exists>s' store'. follow_loop arr (blockend s) path (blockstart s + t) (hash_at arr (blockstart s) (blockend s) (blockstart s + t)) s store =
    Inr (s', store') \<and> block_ok arr s' \<and> same_block s s' \<and> encodes arr (blockstart s) (blockend s) store'"
  using assms
proof (induction path arbitrary: t s store)
  case Nil
  then show ?case by (auto simp: block_ok_def)
next
  case (Cons k path)
  let ?pos = "blockstart s + t" and ?a = "blockstart s" and ?e = "blockend s"
  have pos: "?pos < ?e" "?a \<le> ?pos" and step: "step_ok arr s (t + k) k" using Cons.prems(2) by auto
  have len: "windowstart ?a + 1 < length arr" "?e \<le> length arr" using Cons.prems(1) by (auto simp: block_ok_def)
  have h: "ZopfliUpdateHash arr ?pos ?e (hash_at arr ?a ?e ?pos) = block_hash arr s ?pos"
    using hash_at_Suc [OF len(1), of ?pos ?e] by (simp add: block_hash_def)
  have rest: "update_range arr (?pos + 1) (?pos + n) ?e (block_hash arr s ?pos) = hash_at arr ?a ?e (?pos + n)" if "1 \<le> n" for n
    using hash_at_range [OF len(1), of "Suc ?pos" "?pos + n" ?e] that by (simp add: block_hash_def)
  show ?case
  proof (cases "3 \<le> k")
    case True
    then have k: "k \<le> block_length arr s ?pos" using step by (simp add: step_ok_def)
    note l = block_length_bound [OF Cons.prems(1) pos(2,1)]
    have lim: "k \<le> 258" "?pos + k \<le> ?e" using k l(1,2) by linarith+
    obtain s' d len' where find: "ZopfliFindLongestMatch s (block_hash arr s ?pos) arr ?pos ?e k None = Inr (s', None, d, len')"
        "block_ok arr s'" "same_block s s'" "len' = k" "d = block_dist arr s ?pos k"
      using FindLongestMatch_answer [OF Cons.prems(1) pos(2,1) True lim(1), of None] k True by (auto simp: answer_def)
    have m: "lz_match arr ?pos d k" using l(3) [of k] True k find(5) by simp
    have enc: "encodes arr ?a (?a + (t + k)) (ZopfliStoreLitLenDist k d store)"
      using encodes_match [OF Cons.prems(3) m True lim(1)] lim(2) len(2) by (simp add: add.assoc)
    note s' = same_block_facts(5,6) [OF find(3)]
    have "path_ok arr s' (t + k) path" using Cons.prems(2) path_ok_frame [OF find(3)] by simp
    moreover have "t + k \<le> ?e - ?a" using lim(2) by linarith
    ultimately obtain s'' store' where
        "follow_loop arr ?e path (?a + (t + k)) (hash_at arr ?a ?e (?a + (t + k))) s' (ZopfliStoreLitLenDist k d store) = Inr (s'', store')"
        "block_ok arr s''" "same_block s' s''" "encodes arr ?a ?e store'"
      using Cons.IH [OF find(2), of "t + k" "ZopfliStoreLitLenDist k d store"] enc by (auto simp: s')
    moreover have "follow_loop arr ?e (k # path) ?pos (hash_at arr ?a ?e ?pos) s store =
        follow_loop arr ?e path (?a + (t + k)) (hash_at arr ?a ?e (?a + (t + k))) s' (ZopfliStoreLitLenDist k d store)"
      using pos True find(1,4) lim(2) VerifyLenDist_match [OF m lim(2)] rest [of k] by (simp add: h Let_def add.assoc)
    ultimately show ?thesis using same_block_trans [OF find(3)] by auto
  next
    case False
    then have k: "k = 1" using step by (auto simp: step_ok_def)
    have enc: "encodes arr ?a (?a + (t + 1)) (ZopfliStoreLitLenDist (unat (arr ! ?pos)) 0 store)"
      using encodes_literal [OF Cons.prems(3)] pos len by (simp add: add.assoc)
    have "follow_loop arr ?e (k # path) ?pos (hash_at arr ?a ?e ?pos) s store =
        follow_loop arr ?e path (?a + (t + 1)) (hash_at arr ?a ?e (?a + (t + 1))) s (ZopfliStoreLitLenDist (unat (arr ! ?pos)) 0 store)"
      using pos False k rest [of 1] by (simp add: h Let_def)
    with Cons.IH [OF Cons.prems(1) _ enc] Cons.prems(2) k show ?thesis by auto
  qed
qed

lemma FollowPath_encodes:
  assumes ok: "block_ok arr s" and path: "path_ok arr s 0 path" and store: "encodes arr (blockstart s) (blockstart s) store"
  shows "\<exists>s' store'. FollowPath s arr (blockstart s) (blockend s) path store = Inr (s', store') \<and> block_ok arr s' \<and> same_block s s' \<and>
    encodes arr (blockstart s) (blockend s) store'"
proof (cases "blockstart s = blockend s")
  case True
  then show ?thesis using assms by (auto simp: FollowPath_def)
next
  case False
  have "windowstart (blockstart s) + 1 < length arr" using ok by (simp add: block_ok_def)
  then show ?thesis using follow_loop_encodes [OF ok path, of store] store False by (simp add: FollowPath_def window_hash_hash_at)
qed

end
