(* ===== verification/Zopfli_Forward.thy ===== *)
theory Zopfli_Forward
  imports Zopfli_Squeeze
begin

text \<open>
  The forward pass of the optimal compressor reaches every byte of the block: the array of lengths it leaves is a map of
  steps the match finder will find again. In long repetitions, which it does not search, this is so because every length up
  to the maximum can be reached there.
\<close>

section \<open>Reached bytes\<close>

definition unreached :: "fp \<Rightarrow> real" where
  "unreached fp = rnd32 fp ZOPFLI_LARGE_FLOAT"

definition reached :: "byte list \<Rightarrow> ZopfliBlockState \<Rightarrow> forward \<Rightarrow> nat \<Rightarrow> bool" where
  "reached arr s f t \<longleftrightarrow> 0 \<le> f_costs f ! t \<and> f_costs f ! t \<le> 2 ^ 45 \<and> (t = 0 \<or> step_ok arr s t (f_lengths f ! t))"

definition table_ok :: "fp \<Rightarrow> byte list \<Rightarrow> ZopfliBlockState \<Rightarrow> forward \<Rightarrow> bool" where
  "table_ok fp arr s f \<longleftrightarrow>
     length (f_costs f) = blockend s - blockstart s + 1 \<and> length (f_lengths f) = blockend s - blockstart s + 1 \<and>
     (\<forall>t \<le> blockend s - blockstart s. reached arr s f t \<or> f_costs f ! t = unreached fp)"

lemma reached_hash [simp]: "reached arr s (f\<lparr>f_hash := h\<rparr>) t = reached arr s f t"
  by (simp add: reached_def)

lemma table_ok_hash [simp]: "table_ok fp arr s (f\<lparr>f_hash := h\<rparr>) = table_ok fp arr s f"
  by (simp add: table_ok_def)

text \<open>A later table: what was reached still is, and nothing but the table has changed.\<close>

definition extends :: "byte list \<Rightarrow> ZopfliBlockState \<Rightarrow> forward \<Rightarrow> forward \<Rightarrow> bool" where
  "extends arr s f f' \<longleftrightarrow> (\<forall>t. reached arr s f t \<longrightarrow> reached arr s f' t) \<and>
     f_hash f' = f_hash f \<and> f_state f' = f_state f \<and> f_sublen f' = f_sublen f"

lemma extends_refl [simp]: "extends arr s f f"
  by (simp add: extends_def)

lemma extends_trans: "extends arr s f f' \<Longrightarrow> extends arr s f' f'' \<Longrightarrow> extends arr s f f''"
  by (simp add: extends_def)

lemma rnd32_pow: "fp_ok fp \<Longrightarrow> k \<le> 100 \<Longrightarrow> rnd32 fp (2 ^ k) = 2 ^ k"
  by (simp add: fp_ok_def)

lemma unreached_large: "fp_ok fp \<Longrightarrow> 2 ^ 47 \<le> unreached fp"
proof -
  assume fp: "fp_ok fp"
  then have "rnd32 fp (2 ^ 47) = 2 ^ 47" by (rule rnd32_pow) simp
  moreover have "rnd32 fp (2 ^ 47) \<le> rnd32 fp ZOPFLI_LARGE_FLOAT" by (intro fp_okD(2) [OF fp]) (simp add: ZOPFLI_LARGE_FLOAT_def)
  ultimately show ?thesis by (simp add: unreached_def)
qed

text \<open>The cost of one more step: rounded to a float it stays below the bound.\<close>

lemma step_cost:
  assumes fp: "fp_ok fp" and "0 \<le> x" and "x \<le> 2 ^ 45" and "0 \<le> c" and "c \<le> 2 ^ 20"
  shows "0 \<le> rnd64 fp (x + c)" "rnd64 fp (x + c) < unreached fp" "0 \<le> rnd32 fp (rnd64 fp (x + c))" "rnd32 fp (rnd64 fp (x + c)) \<le> 2 ^ 45"
proof -
  have r: "0 \<le> rnd64 fp (x + c) \<and> rnd64 fp (x + c) \<le> real (2 ^ 45 + 2 ^ 20)"
    using assms by (intro rnd64_range [OF fp]) auto
  then show "0 \<le> rnd64 fp (x + c)" by simp
  show "rnd64 fp (x + c) < unreached fp" using r unreached_large [OF fp] by simp
  have z: "rnd32 fp 0 = 0" "rnd32 fp (2 ^ 45 + 2 ^ 20) = 2 ^ 45" using fp by (auto simp: fp_ok_def)
  show "0 \<le> rnd32 fp (rnd64 fp (x + c))" using fp_okD(2) [OF fp, of 0] r z(1) by metis
  have "rnd64 fp (x + c) \<le> 2 ^ 45 + 2 ^ 20" using r by simp
  from fp_okD(2) [OF fp this] show "rnd32 fp (rnd64 fp (x + c)) \<le> 2 ^ 45" using z(2) by simp
qed

text \<open>Writing a valid step.\<close>

lemma reach:
  assumes tab: "table_ok fp arr s f" and t: "t \<le> blockend s - blockstart s" "0 < t" and c: "0 \<le> c" "c \<le> 2 ^ 45" and k: "step_ok arr s t k"
  defines "f' \<equiv> f\<lparr>f_costs := (f_costs f)[t := c], f_lengths := (f_lengths f)[t := k]\<rparr>"
  shows "table_ok fp arr s f' \<and> extends arr s f f' \<and> reached arr s f' t"
proof -
  have len: "length (f_costs f) = blockend s - blockstart s + 1" "length (f_lengths f) = blockend s - blockstart s + 1"
    using tab by (auto simp: table_ok_def)
  have new: "reached arr s f' t" using t c k len by (simp add: reached_def f'_def)
  have old: "reached arr s f' u \<longleftrightarrow> reached arr s f u" "f_costs f' ! u = f_costs f ! u" if "u \<noteq> t" for u
    using that by (simp_all add: reached_def f'_def)
  have "reached arr s f' u \<or> f_costs f' ! u = unreached fp" if "u \<le> blockend s - blockstart s" for u
    using tab that new old [of u] by (cases "u = t") (auto simp: table_ok_def)
  then have "table_ok fp arr s f'" using len by (simp add: table_ok_def f'_def)
  moreover have "extends arr s f f'" using new old(1) unfolding extends_def by (metis f'_def forward.ext_inject forward.surjective forward.update_convs(4,5))
  ultimately show ?thesis using new by blast
qed

lemma try_cost_reaches:
  assumes fp: "fp_ok fp" and tab: "table_ok fp arr s f" and j: "reached arr s f j" and t: "j + k \<le> blockend s - blockstart s"
    and c: "0 \<le> c" "c \<le> 2 ^ 20" and k: "step_ok arr s (j + k) k" "k \<le> 258"
  shows "\<exists>f'. try_cost fp c j k f = Inr f' \<and> table_ok fp arr s f' \<and> extends arr s f f' \<and> reached arr s f' (j + k)"
proof -
  have x: "0 \<le> f_costs f ! j" "f_costs f ! j \<le> 2 ^ 45" using j by (auto simp: reached_def)
  note cost = step_cost [OF fp x c]
  have pos: "0 < j + k" using k(1) by (simp add: step_ok_def)
  show ?thesis
  proof (cases "rnd64 fp (f_costs f ! j + c) < f_costs f ! (j + k)")
    case True
    let ?f' = "f\<lparr>f_costs := (f_costs f)[j + k := rnd32 fp (rnd64 fp (f_costs f ! j + c))], f_lengths := (f_lengths f)[j + k := k]\<rparr>"
    have "try_cost fp c j k f = Inr ?f'" using True cost(1) k(2) by (simp add: try_cost_def Let_def)
    with reach [OF tab t pos cost(3,4) k(1)] show ?thesis by blast
  next
    case False
    then have "try_cost fp c j k f = Inr f" using cost(1) by (simp add: try_cost_def Let_def)
    moreover have "reached arr s f (j + k)" using tab t False cost(2) by (auto simp: table_ok_def)
    ultimately show ?thesis using tab by auto
  qed
qed

lemma try_lengths_reaches:
  assumes fp: "fp_ok fp" and cm: "cost_ok cm" and tab: "table_ok fp arr s f" and j: "reached arr s f j"
    and "\<forall>k \<in> set ks. 3 \<le> k \<and> k \<le> 258 \<and> j + k \<le> blockend s - blockstart s \<and> step_ok arr s (j + k) k \<and>
      1 \<le> f_sublen f ! k \<and> f_sublen f ! k \<le> 32768"
  shows "\<exists>f'. try_lengths fp cm (GetCostModelMinCost cm) j ks f = Inr f' \<and> table_ok fp arr s f' \<and> extends arr s f f' \<and>
    (\<forall>k \<in> set ks. reached arr s f' (j + k))"
  using assms(3-)
proof (induction ks arbitrary: f)
  case (Cons k ks)
  let ?c = "cm k (f_sublen f ! k)"
  have k: "3 \<le> k" "k \<le> 258" "j + k \<le> blockend s - blockstart s" "step_ok arr s (j + k) k" "1 \<le> f_sublen f ! k" "f_sublen f ! k \<le> 32768"
    using Cons.prems(3) by auto
  have c: "0 \<le> ?c" "?c \<le> 2 ^ 20" using cm k unfolding cost_ok_def by blast+
  show ?case
  proof (cases "rnd32 fp (f_costs f ! (j + k) - f_costs f ! j) \<le> GetCostModelMinCost cm")
    case True
    have "reached arr s f (j + k)"
    proof (rule ccontr)
      assume "\<not> reached arr s f (j + k)"
      then have "f_costs f ! (j + k) = unreached fp" using Cons.prems(1) k(3) by (auto simp: table_ok_def)
      then have "2 ^ 46 \<le> f_costs f ! (j + k) - f_costs f ! j"
        using Cons.prems(2) unreached_large [OF fp] by (simp add: reached_def)
      from fp_okD(2) [OF fp this] have "2 ^ 46 \<le> rnd32 fp (f_costs f ! (j + k) - f_costs f ! j)" using rnd32_pow [OF fp, of 46] by simp
      with True GetCostModelMinCost_bound [OF cm] show False by simp
    qed
    moreover obtain f' where "try_lengths fp cm (GetCostModelMinCost cm) j ks f = Inr f'" "table_ok fp arr s f'" "extends arr s f f'"
        "\<forall>k \<in> set ks. reached arr s f' (j + k)"
      using Cons.IH [OF Cons.prems(1,2)] Cons.prems(3) by auto
    ultimately show ?thesis using True by (auto simp: extends_def)
  next
    case False
    obtain f1 where f1: "try_cost fp ?c j k f = Inr f1" "table_ok fp arr s f1" "extends arr s f f1" "reached arr s f1 (j + k)"
      using try_cost_reaches [OF fp Cons.prems(1,2) k(3) c k(4,2)] by blast
    have "reached arr s f1 j" "f_sublen f1 = f_sublen f" using f1(3) Cons.prems(2) by (auto simp: extends_def)
    then obtain f' where "try_lengths fp cm (GetCostModelMinCost cm) j ks f1 = Inr f'" "table_ok fp arr s f'" "extends arr s f1 f'"
        "\<forall>k \<in> set ks. reached arr s f' (j + k)"
      using Cons.IH [OF f1(2)] Cons.prems(3) by auto
    then show ?thesis using False f1 extends_trans [OF f1(3)] by (auto simp: extends_def)
  qed
qed simp

section \<open>One position\<close>

definition pass_ok :: "fp \<Rightarrow> byte list \<Rightarrow> ZopfliBlockState \<Rightarrow> forward \<Rightarrow> bool" where
  "pass_ok fp arr s f \<longleftrightarrow> table_ok fp arr s f \<and> block_ok arr (f_state f) \<and> same_block s (f_state f) \<and> length (f_sublen f) = 259"

lemma step_ok_literal: "step_ok arr s (j + 1) 1"
  by (simp add: step_ok_def)

lemma step_ok_length: "3 \<le> k \<Longrightarrow> k \<le> block_length arr s (blockstart s + j) \<Longrightarrow> step_ok arr s (j + k) k"
  by (simp add: step_ok_def)

text \<open>From a reached position, the search reaches the next byte and every length found.\<close>

definition visit :: "fp \<Rightarrow> cost_model \<Rightarrow> byte list \<Rightarrow> nat \<Rightarrow> nat \<Rightarrow> nat \<Rightarrow> forward \<Rightarrow> failure + nat \<times> forward" where
  "visit fp costmodel arr inend i j f =
     and_then (ZopfliFindLongestMatch (f_state f) (f_hash f) arr i inend 258 (Some (f_sublen f))) (\<lambda>(s, sublen, d, leng).
       let f = f\<lparr>f_state := s, f_sublen := the sublen\<rparr>
       in and_then (if i + 1 \<le> inend then try_cost fp (costmodel (unat (arr ! i)) 0) j 1 f else Inr f) (\<lambda>f.
          and_then (try_lengths fp costmodel (GetCostModelMinCost costmodel) j [3..<Suc (min leng (inend - i))] f) (\<lambda>f. Inr (i + 1, f))))"

lemma visit_reaches:
  assumes fp: "fp_ok fp" and cm: "cost_ok cm" and ok: "pass_ok fp arr s f" and i: "blockstart s + j < blockend s"
    and h: "f_hash f = block_hash arr s (blockstart s + j)" and j: "reached arr s f j"
  shows "\<exists>f'. visit fp cm arr (blockend s) (blockstart s + j) j f = Inr (blockstart s + j + 1, f') \<and> pass_ok fp arr s f' \<and>
    f_hash f' = f_hash f \<and> (\<forall>t. reached arr s f t \<longrightarrow> reached arr s f' t) \<and> reached arr s f' (j + 1) \<and>
    (\<forall>k. 3 \<le> k \<and> k \<le> block_length arr s (blockstart s + j) \<longrightarrow> reached arr s f' (j + k))"
proof -
  let ?i = "blockstart s + j" and ?n = "blockend s - blockstart s" and ?l = "block_length arr s (blockstart s + j)"
  have st: "block_ok arr (f_state f)" "same_block s (f_state f)" "length (f_sublen f) = 259" using ok by (auto simp: pass_ok_def)
  note frame = same_block_facts [OF st(2)]
  obtain s' sl' d leng where find: "ZopfliFindLongestMatch (f_state f) (f_hash f) arr ?i (blockend s) 258 (Some (f_sublen f)) = Inr (s', Some sl', d, leng)"
      "block_ok arr s'" "same_block (f_state f) s'" "?i + leng \<le> blockend s" "length sl' = 259"
      "if 3 \<le> ?l then leng = min 258 ?l else leng < 3" "\<forall>x. 3 \<le> x \<and> x \<le> leng \<longrightarrow> sl' ! x = block_dist arr s ?i x"
    using FindLongestMatch_answer [OF st(1), of ?i 258 "Some (f_sublen f)"] st(3) i h
    by (auto simp: frame answer_def option_rel_Some1)
  have l: "?l \<le> 258" "?i + ?l \<le> blockend s" "\<And>x. 2 \<le> x \<Longrightarrow> x \<le> ?l \<Longrightarrow> lz_match arr ?i (block_dist arr s ?i x) x"
    using block_length_bound [OF st(1), of ?i] i by (simp_all add: frame)
  have lens: "k \<in> set [3..<Suc (min leng (blockend s - ?i))] \<longleftrightarrow> 3 \<le> k \<and> k \<le> ?l" for k
    using find(4,6) l(1) by (auto split: if_splits)
  let ?f = "f\<lparr>f_state := s', f_sublen := sl'\<rparr>"
  have f: "table_ok fp arr s ?f" "reached arr s ?f j" "\<And>t. reached arr s f t \<Longrightarrow> reached arr s ?f t"
    using ok j by (auto simp: pass_ok_def table_ok_def reached_def)
  have byte: "unat (arr ! ?i) < 256" using unsigned_less [of "arr ! ?i"] by simp
  have room: "j + 1 \<le> ?n" using i by linarith
  have "0 \<le> cm (unat (arr ! ?i)) 0" "cm (unat (arr ! ?i)) 0 \<le> 2 ^ 20" using cm byte unfolding cost_ok_def by blast+
  then obtain f1 where f1: "try_cost fp (cm (unat (arr ! ?i)) 0) j 1 ?f = Inr f1" "table_ok fp arr s f1" "extends arr s ?f f1"
      "reached arr s f1 (j + 1)"
    using try_cost_reaches [OF fp f(1,2) room _ _ step_ok_literal] by auto
  have ks: "\<forall>k \<in> set [3..<Suc (min leng (blockend s - ?i))]. 3 \<le> k \<and> k \<le> 258 \<and> j + k \<le> ?n \<and> step_ok arr s (j + k) k \<and>
      1 \<le> f_sublen f1 ! k \<and> f_sublen f1 ! k \<le> 32768"
  proof
    fix k
    assume "k \<in> set [3..<Suc (min leng (blockend s - ?i))]"
    then have k: "3 \<le> k" "k \<le> ?l" using lens by auto
    have "k \<le> leng" using k find(6) l(1) by auto
    then have "f_sublen f1 ! k = block_dist arr s ?i k" using f1(3) find(7) k(1) by (simp add: extends_def)
    moreover have "1 \<le> block_dist arr s ?i k \<and> block_dist arr s ?i k \<le> 32768"
      using l(3) [of k] k by (auto simp: lz_match_def ZOPFLI_WINDOW_SIZE_def)
    moreover have "k \<le> 258" "j + k \<le> ?n" using k(2) l(1,2) by linarith+
    ultimately show "3 \<le> k \<and> k \<le> 258 \<and> j + k \<le> ?n \<and> step_ok arr s (j + k) k \<and> 1 \<le> f_sublen f1 ! k \<and> f_sublen f1 ! k \<le> 32768"
      using k step_ok_length by simp
  qed
  have j1: "reached arr s f1 j" using f1(3) f(2) by (simp add: extends_def)
  obtain f2 where f2: "try_lengths fp cm (GetCostModelMinCost cm) j [3..<Suc (min leng (blockend s - ?i))] f1 = Inr f2"
      "table_ok fp arr s f2" "extends arr s f1 f2" "\<forall>k \<in> set [3..<Suc (min leng (blockend s - ?i))]. reached arr s f2 (j + k)"
    using try_lengths_reaches [OF fp cm f1(2) j1 ks] by blast
  have ext: "extends arr s ?f f2" by (rule extends_trans [OF f1(3) f2(3)])
  have "visit fp cm arr (blockend s) ?i j f = Inr (?i + 1, f2)"
    using i f1(1) f2(1) unfolding visit_def find(1) and_then.simps prod.case option.sel Let_def by simp
  moreover have "pass_ok fp arr s f2"
    using f2(2) ext find(2,3,5) same_block_trans [OF st(2)] by (simp add: pass_ok_def extends_def)
  moreover have "\<forall>k. 3 \<le> k \<and> k \<le> ?l \<longrightarrow> reached arr s f2 (j + k)" using f2(4) lens by blast
  moreover have "reached arr s f2 (j + 1)" using f1(4) f2(3) by (simp add: extends_def)
  ultimately show ?thesis using ext f(3) by (auto simp: extends_def)
qed

section \<open>Long repetitions\<close>

lemma long_run_bytes:
  assumes ok: "block_ok arr s" and i: "blockstart s \<le> i" "i < blockend s"
    and run: "in_long_run (block_hash arr s i) (blockstart s) (blockend s) i" and x: "i - 258 \<le> x" "x \<le> i + 517"
  shows "arr ! x = arr ! i"
proof -
  let ?h = "block_hash arr s i"
  obtain hv where fin: "finder_ok ?h arr (windowstart (blockstart s)) i (blockend s) hv" using block_finder [OF ok i] by blast
  have r: "same ?h ! slot i > 516" "i > blockstart s + 259" "same ?h ! slot (i - 258) > 258" using run by (simp_all add: in_long_run_def)
  have ws: "windowstart (blockstart s) \<le> i - 258" using windowstart_le [of "blockstart s"] r(2) by linarith
  have "run_of arr (blockend s) i (same ?h ! slot i)" using finder_chain(4) [OF fin, of i] ws by simp
  then have after: "arr ! (i + y) = arr ! i" if "y \<le> 517" for y using that r(1) by (simp add: run_of_def)
  have "i < i - 258 + ZOPFLI_WINDOW_SIZE" using r(2) by (simp add: ZOPFLI_WINDOW_SIZE_def)
  then have "run_of arr (blockend s) (i - 258) (same ?h ! slot (i - 258))" using finder_chain(4) [OF fin ws] by simp
  then have before: "arr ! (i - 258 + y) = arr ! (i - 258)" if "y \<le> 259" for y using that r(3) by (simp add: run_of_def)
  show ?thesis
  proof (cases "i \<le> x")
    case True
    then show ?thesis using after [of "x - i"] x(2) by simp
  next
    case False
    then show ?thesis using before [of "x - (i - 258)"] before [of 258] x(1) r(2) by simp
  qed
qed

lemma long_run_lengths:
  assumes ok: "block_ok arr s" and i: "blockstart s \<le> i" "i < blockend s"
    and run: "in_long_run (block_hash arr s i) (blockstart s) (blockend s) i" and p: "i - 2 \<le> p" "p \<le> i + 257"
  shows "block_length arr s p = 258"
proof -
  have r: "i > blockstart s + 259" "i + 517 < blockend s" using run by (simp_all add: in_long_run_def)
  have "arr ! (p - 1 + y) = arr ! (p - 1)" if "y \<le> 258" for y
  proof -
    have "i - 258 \<le> p - 1 + y" "p - 1 + y \<le> i + 517" "i - 258 \<le> p - 1" "p - 1 \<le> i + 517" using that p r(1) by linarith+
    then have "arr ! (p - 1 + y) = arr ! i" "arr ! (p - 1) = arr ! i" using long_run_bytes [OF ok i run] by blast+
    then show ?thesis by simp
  qed
  then show ?thesis using p r by (intro block_length_run [OF ok]) auto
qed

lemma skip_run_reaches:
  assumes fp: "fp_ok fp" and c: "0 \<le> c" "c \<le> 2 ^ 20" and ok: "pass_ok fp arr s f" and room: "j + n + 257 \<le> blockend s - blockstart s"
    and lens: "\<forall>p. blockstart s + j \<le> p \<and> p < blockstart s + j + n \<longrightarrow> block_length arr s p = 258"
    and h: "f_hash f = hash_at arr (blockstart s) (blockend s) (Suc (blockstart s + j))" and rch: "\<forall>t \<le> j + 257. reached arr s f t"
  shows "\<exists>f'. skip_run n fp arr (blockend s) c (blockstart s + j) j f = (blockstart s + j + n, j + n, f') \<and> pass_ok fp arr s f' \<and>
    f_hash f' = hash_at arr (blockstart s) (blockend s) (Suc (blockstart s + j + n)) \<and> (\<forall>t \<le> j + n + 257. reached arr s f' t)"
  using ok room lens h rch
proof (induction n arbitrary: j f)
  case 0
  then show ?case by auto
next
  case (Suc n)
  let ?i = "blockstart s + j"
  define f1 where "f1 = f\<lparr>f_costs := (f_costs f)[j + 258 := rnd32 fp (rnd64 fp (f_costs f ! j + c))], f_lengths := (f_lengths f)[j + 258 := 258]\<rparr>"
  define f2 where "f2 = f1\<lparr>f_hash := ZopfliUpdateHash arr (?i + 1) (blockend s) (f_hash f)\<rparr>"
  have len: "windowstart (blockstart s) + 1 < length arr" using Suc.prems(1) same_block_facts [of s "f_state f"] by (auto simp: pass_ok_def block_ok_def)
  have j: "0 \<le> f_costs f ! j" "f_costs f ! j \<le> 2 ^ 45" using Suc.prems(5) by (auto simp: reached_def)
  have "step_ok arr s (j + 258) 258" using Suc.prems(3) by (intro step_ok_length) auto
  then have r: "table_ok fp arr s f1" "extends arr s f f1" "reached arr s f1 (j + 258)"
    using reach [of fp arr s f "j + 258" "rnd32 fp (rnd64 fp (f_costs f ! j + c))" 258] step_cost(3,4) [OF fp j c] Suc.prems(1,2)
    by (auto simp: f1_def pass_ok_def)
  have ok2: "pass_ok fp arr s f2" using r(1,2) Suc.prems(1) by (simp add: pass_ok_def f2_def extends_def)
  have h2: "f_hash f2 = hash_at arr (blockstart s) (blockend s) (Suc (blockstart s + (j + 1)))"
    using Suc.prems(4) hash_at_Suc [OF len, of "Suc ?i" "blockend s"] by (simp add: f2_def)
  have reach2: "\<forall>t \<le> j + 1 + 257. reached arr s f2 t"
  proof (intro allI impI)
    fix t
    assume "t \<le> j + 1 + 257"
    then show "reached arr s f2 t" using Suc.prems(5) r(2,3) by (cases "t = j + 258") (auto simp: f2_def extends_def)
  qed
  have "skip_run (Suc n) fp arr (blockend s) c ?i j f = skip_run n fp arr (blockend s) c (blockstart s + (j + 1)) (j + 1) f2"
    by (simp add: f1_def f2_def)
  then show ?case using Suc.IH [OF ok2 _ _ h2 reach2] Suc.prems(2,3) by auto
qed

section \<open>The invariant of the pass\<close>

text \<open>
  Every byte up to the current one is reached, and so is what the two positions before it reach: that is what the shortcut
  builds on.
\<close>

definition forward_inv :: "fp \<Rightarrow> byte list \<Rightarrow> ZopfliBlockState \<Rightarrow> nat \<Rightarrow> forward \<Rightarrow> bool" where
  "forward_inv fp arr s j f \<longleftrightarrow> pass_ok fp arr s f \<and> j \<le> blockend s - blockstart s \<and>
     f_hash f = hash_at arr (blockstart s) (blockend s) (blockstart s + j) \<and> (\<forall>t \<le> j. reached arr s f t) \<and>
     (1 \<le> j \<longrightarrow> (\<forall>k. 3 \<le> k \<and> k \<le> block_length arr s (blockstart s + j - 1) \<longrightarrow> reached arr s f (j - 1 + k))) \<and>
     (2 \<le> j \<longrightarrow> 3 \<le> block_length arr s (blockstart s + j - 2) \<longrightarrow> reached arr s f (j + 1))"

lemma forward_round_visit:
  "forward_round fp cm (GetCostModelMinCost cm) arr instart inend i0 f0 =
     (let h = ZopfliUpdateHash arr i0 inend (f_hash f0);
          (i, j, f) = (if in_long_run h instart inend i0
                       then skip_run 258 fp arr inend (cm 258 1) i0 (i0 - instart) (f0\<lparr>f_hash := h\<rparr>)
                       else (i0, i0 - instart, f0\<lparr>f_hash := h\<rparr>))
      in visit fp cm arr inend i j f)"
  by (simp add: forward_round_def visit_def Let_def split: prod.split)

lemma visit_inv:
  assumes fp: "fp_ok fp" and cm: "cost_ok cm" and ok: "pass_ok fp arr s f" and i: "blockstart s + j < blockend s"
    and h: "f_hash f = block_hash arr s (blockstart s + j)" and reach: "\<forall>t \<le> j. reached arr s f t"
    and before: "1 \<le> j \<longrightarrow> 3 \<le> block_length arr s (blockstart s + j - 1) \<longrightarrow> reached arr s f (j + 2)"
  shows "\<exists>f'. visit fp cm arr (blockend s) (blockstart s + j) j f = Inr (blockstart s + (j + 1), f') \<and> forward_inv fp arr s (j + 1) f'"
proof -
  obtain f' where f': "visit fp cm arr (blockend s) (blockstart s + j) j f = Inr (blockstart s + j + 1, f')" "pass_ok fp arr s f'"
      "f_hash f' = f_hash f" "\<forall>t. reached arr s f t \<longrightarrow> reached arr s f' t" "reached arr s f' (j + 1)"
      "\<forall>k. 3 \<le> k \<and> k \<le> block_length arr s (blockstart s + j) \<longrightarrow> reached arr s f' (j + k)"
    using visit_reaches [OF fp cm ok i h] reach by auto
  have "reached arr s f' t" if "t \<le> j + 1" for t using that f'(4,5) reach by (cases "t = j + 1") auto
  moreover have "j + 1 \<le> blockend s - blockstart s" using i by linarith
  ultimately have "forward_inv fp arr s (j + 1) f'"
    using f'(2-4,6) h before by (simp add: forward_inv_def block_hash_def)
  then show ?thesis using f'(1) by (simp add: add.assoc)
qed

lemma forward_round_inv:
  assumes fp: "fp_ok fp" and cm: "cost_ok cm" and inv: "forward_inv fp arr s j f" and j: "j < blockend s - blockstart s" and ok: "block_ok arr s"
  shows "\<exists>j' f'. forward_round fp cm (GetCostModelMinCost cm) arr (blockstart s) (blockend s) (blockstart s + j) f =
      Inr (blockstart s + j', f') \<and> j < j' \<and> forward_inv fp arr s j' f'"
proof -
  let ?i = "blockstart s + j" and ?e = "blockend s"
  let ?h = "block_hash arr s ?i" and ?f = "f\<lparr>f_hash := block_hash arr s ?i\<rparr>"
  have len: "windowstart (blockstart s) + 1 < length arr" using ok by (simp add: block_ok_def)
  have i: "blockstart s \<le> ?i" "?i < ?e" using j by auto
  have h: "ZopfliUpdateHash arr ?i ?e (f_hash f) = ?h"
    using inv hash_at_Suc [OF len, of ?i ?e] by (simp add: forward_inv_def block_hash_def)
  have ok1: "pass_ok fp arr s ?f" using inv by (simp add: forward_inv_def pass_ok_def)
  show ?thesis
  proof (cases "in_long_run ?h (blockstart s) ?e ?i")
    case False
    have "reached arr s f (j + 2)" if "1 \<le> j" "3 \<le> block_length arr s (blockstart s + j - 1)"
    proof -
      have "reached arr s f (j - 1 + 3)" using inv that unfolding forward_inv_def by blast
      moreover have "j - 1 + 3 = j + 2" using that(1) by simp
      ultimately show ?thesis by simp
    qed
    then obtain f' where f': "visit fp cm arr ?e ?i j ?f = Inr (blockstart s + (j + 1), f')" "forward_inv fp arr s (j + 1) f'"
      using visit_inv [OF fp cm ok1 i(2)] inv by (auto simp: forward_inv_def)
    have "forward_round fp cm (GetCostModelMinCost cm) arr (blockstart s) ?e ?i f = Inr (blockstart s + (j + 1), f')"
      unfolding forward_round_visit h Let_def using False f'(1) by simp
    with f'(2) show ?thesis by (intro exI [of _ "j + 1"] exI [of _ f']) simp
  next
    case True
    have r: "j > 259" "j + 517 < ?e - blockstart s" using True by (auto simp: in_long_run_def)
    have lens: "block_length arr s p = 258" if "?i - 2 \<le> p" "p \<le> ?i + 257" for p using long_run_lengths [OF ok i True that] .
    have reach: "\<forall>t \<le> j + 257. reached arr s ?f t"
    proof (intro allI impI)
      fix t
      assume t: "t \<le> j + 257"
      consider "t \<le> j" | "t = j + 1" | "j + 2 \<le> t" by linarith
      then show "reached arr s ?f t"
      proof cases
        case 1
        then show ?thesis using inv by (simp add: forward_inv_def)
      next
        case 2
        then show ?thesis using inv lens [of "?i - 2"] r(1) by (simp add: forward_inv_def)
      next
        case 3
        then have k: "3 \<le> t - (j - 1)" "t - (j - 1) \<le> 258" "j - 1 + (t - (j - 1)) = t" using t r(1) by auto
        have "block_length arr s (?i - 1) = 258" by (rule lens) (use r(1) in auto)
        then have "reached arr s f (j - 1 + (t - (j - 1)))"
          using inv k(1,2) r(1) unfolding forward_inv_def by (metis One_nat_def Suc_leI less_trans zero_less_numeral)
        then show ?thesis using k(3) by simp
      qed
    qed
    have c: "0 \<le> cm 258 1" "cm 258 1 \<le> 2 ^ 20" using cm unfolding cost_ok_def by auto
    have "\<forall>p. blockstart s + j \<le> p \<and> p < blockstart s + j + 258 \<longrightarrow> block_length arr s p = 258" using lens by auto
    moreover have "j + 258 + 257 \<le> ?e - blockstart s" using r(2) by simp
    ultimately obtain f1 where f1: "skip_run 258 fp arr ?e (cm 258 1) ?i j ?f = (?i + 258, j + 258, f1)" "pass_ok fp arr s f1"
        "f_hash f1 = block_hash arr s (?i + 258)" "\<forall>t \<le> j + 258 + 257. reached arr s f1 t"
      using skip_run_reaches [OF fp c ok1 _ _ _ reach, of 258] by (auto simp: block_hash_def)
    define J where "J = j + 258"
    have J: "blockstart s + J < ?e" "f_hash f1 = block_hash arr s (blockstart s + J)" "\<forall>t \<le> J + 257. reached arr s f1 t"
      using r(2) f1(3,4) by (auto simp: J_def add.assoc)
    then obtain f' where f': "visit fp cm arr ?e (blockstart s + J) J f1 = Inr (blockstart s + (J + 1), f')" "forward_inv fp arr s (J + 1) f'"
      using visit_inv [OF fp cm f1(2) J(1,2)] by auto
    have "forward_round fp cm (GetCostModelMinCost cm) arr (blockstart s) ?e ?i f = Inr (blockstart s + (J + 1), f')"
      unfolding forward_round_visit h Let_def using True f1(1) f'(1) by (simp add: J_def add.assoc)
    with f'(2) show ?thesis by (intro exI [of _ "J + 1"] exI [of _ f']) (simp add: J_def)
  qed
qed

lemma forward_loop_inv:
  assumes fp: "fp_ok fp" and cm: "cost_ok cm" and ok: "block_ok arr s" and "forward_inv fp arr s j f"
  shows "\<exists>f'. forward_loop fp cm (GetCostModelMinCost cm) arr (blockstart s) (blockend s) (blockstart s + j) f = Inr f' \<and>
    forward_inv fp arr s (blockend s - blockstart s) f'"
  using assms(4)
proof (induction "blockend s - blockstart s - j" arbitrary: j f rule: less_induct)
  case less
  show ?case
  proof (cases "j < blockend s - blockstart s")
    case True
    then obtain j' f' where r: "forward_round fp cm (GetCostModelMinCost cm) arr (blockstart s) (blockend s) (blockstart s + j) f =
        Inr (blockstart s + j', f')" "j < j'" "forward_inv fp arr s j' f'"
      using forward_round_inv [OF fp cm less.prems _ ok] by blast
    have "forward_loop fp cm (GetCostModelMinCost cm) arr (blockstart s) (blockend s) (blockstart s + j) f =
        forward_loop fp cm (GetCostModelMinCost cm) arr (blockstart s) (blockend s) (blockstart s + j') f'"
      using True r(1) by (subst forward_loop.simps) (simp add: less_diff_conv add.commute)
    moreover have "blockend s - blockstart s - j' < blockend s - blockstart s - j" using r(2) True by linarith
    ultimately show ?thesis using less.hyps r(3) by simp
  next
    case False
    then have "j = blockend s - blockstart s" using less.prems by (simp add: forward_inv_def)
    moreover then have "forward_loop fp cm (GetCostModelMinCost cm) arr (blockstart s) (blockend s) (blockstart s + j) f = Inr f"
      using ok by (subst forward_loop.simps) (simp add: block_ok_def)
    ultimately show ?thesis using less.prems by auto
  qed
qed

lemma GetBestLengths_steps:
  assumes fp: "fp_ok fp" and cm: "cost_ok cm" and ok: "block_ok arr s" and sub: "length sublen = 259"
    and la: "length la = blockend s - blockstart s + 1"
  shows "\<exists>s' cost la'. GetBestLengths fp sublen s arr (blockstart s) (blockend s) cm la = Inr (s', cost, la') \<and> block_ok arr s' \<and>
    same_block s s' \<and> length la' = length la \<and> cost < ZOPFLI_LARGE_FLOAT \<and>
    (\<forall>t. 0 < t \<and> t \<le> blockend s - blockstart s \<longrightarrow> step_ok arr s t (la' ! t))"
proof (cases "blockstart s = blockend s")
  case True
  then show ?thesis using ok by (simp add: GetBestLengths_def Let_def ZOPFLI_LARGE_FLOAT_def)
next
  case False
  let ?n = "blockend s - blockstart s"
  let ?f = "\<lparr>f_hash = hash_at arr (blockstart s) (blockend s) (blockstart s), f_state = s, f_sublen = sublen,
    f_costs = (replicate (?n + 1) (rnd32 fp ZOPFLI_LARGE_FLOAT))[0 := 0], f_lengths = la[0 := 0]\<rparr>"
  have len: "windowstart (blockstart s) + 1 < length arr" using ok by (simp add: block_ok_def)
  have zero: "reached arr s ?f 0" by (simp add: reached_def)
  have "f_costs ?f ! t = unreached fp" if "0 < t" "t \<le> ?n" for t using that by (simp add: unreached_def nth_list_update del: replicate_Suc)
  then have "table_ok fp arr s ?f" using zero la unfolding table_ok_def by (metis (no_types, lifting) forward.select_convs(4,5)
      gr0I length_list_update length_replicate)
  then have "forward_inv fp arr s 0 ?f" using ok sub zero by (simp add: forward_inv_def pass_ok_def)
  then obtain f' where f': "forward_loop fp cm (GetCostModelMinCost cm) arr (blockstart s) (blockend s) (blockstart s) ?f = Inr f'"
      "forward_inv fp arr s ?n f'"
    using forward_loop_inv [OF fp cm ok, of 0] by auto
  have all: "reached arr s f' t" if "t \<le> ?n" for t using f'(2) that by (simp add: forward_inv_def)
  have cost: "0 \<le> f_costs f' ! ?n" "f_costs f' ! ?n < ZOPFLI_LARGE_FLOAT"
    using all [of ?n] by (auto simp: reached_def ZOPFLI_LARGE_FLOAT_def)
  have "GetBestLengths fp sublen s arr (blockstart s) (blockend s) cm la = Inr (f_state f', f_costs f' ! ?n, f_lengths f')"
    using False f'(1) cost(1) unfolding GetBestLengths_def Let_def window_hash_hash_at [OF len, of "blockend s"] by simp
  then show ?thesis using all cost(2) f'(2) la by (auto simp: forward_inv_def pass_ok_def table_ok_def reached_def)
qed

section \<open>One run of the optimal compressor\<close>

lemma LZ77OptimalRun_encodes:
  assumes fp: "fp_ok fp" and cm: "cost_ok cm" and ok: "block_ok arr s" and sub: "length sublen = 259"
    and la: "length la = blockend s - blockstart s + 1" and store: "encodes arr (blockstart s) (blockstart s) store"
  shows "\<exists>s' la' store'. LZ77OptimalRun fp sublen s arr (blockstart s) (blockend s) la cm store = Inr (s', la', store') \<and>
    block_ok arr s' \<and> same_block s s' \<and> length la' = length la \<and> encodes arr (blockstart s) (blockend s) store'"
proof -
  obtain s1 cost la' where g: "GetBestLengths fp sublen s arr (blockstart s) (blockend s) cm la = Inr (s1, cost, la')" "block_ok arr s1"
      "same_block s s1" "length la' = length la" "cost < ZOPFLI_LARGE_FLOAT"
      "\<And>t. 0 < t \<Longrightarrow> t \<le> blockend s - blockstart s \<Longrightarrow> step_ok arr s t (la' ! t)"
    using GetBestLengths_steps [OF fp cm ok sub la] by blast
  obtain path where p: "TraceBackwards (blockend s - blockstart s) la' = Inr path" "path_ok arr s 0 path"
    using TraceBackwards_path [OF ok g(6)] by blast
  note frame = same_block_facts [OF g(3)]
  obtain s2 store' where "FollowPath s1 arr (blockstart s) (blockend s) path store = Inr (s2, store')" "block_ok arr s2" "same_block s1 s2"
      "encodes arr (blockstart s) (blockend s) store'"
    using FollowPath_encodes [OF g(2), of path store] p(2) path_ok_frame [OF g(3)] store by (auto simp: frame)
  then show ?thesis using g p(1) same_block_trans [OF g(3)] by (auto simp: LZ77OptimalRun_def)
qed

end
