(* ===== verification/Zopfli_Katajainen.thy ===== *)
theory Zopfli_Katajainen
  imports Zopfli_Tree "HOL-Library.Multiset"
begin

text \<open>
  Length-limited Huffman code lengths by boundary package-merge (\<^verbatim>\<open>katajainen.cc\<close>) and what makes them a
  code: the lengths satisfy the Kraft equation, stay within the limit, and every symbol in use gets
  one. Nodes are not changed after they are initialised, so a chain is a value here; that the pool which
  recycles the nodes no list refers to any more does not show is proved in \<open>Zopfli_Pool\<close>. \<^verbatim>\<open>qsort\<close> leaves the order of equal
  elements open and is an argument.
\<close>

section \<open>Operations\<close>

datatype Node = Node (weight: nat) (tail: "Node option") (count: nat)

text \<open>
  One step in the list \<open>index\<close>: \<^verbatim>\<open>lists[index]\<close> is the pair of its lookahead chains.
\<close>

function BoundaryPM :: "Node list \<Rightarrow> nat \<Rightarrow> bool \<Rightarrow> (Node \<times> Node) list \<Rightarrow> (Node \<times> Node) list" where
  "BoundaryPM leaves index final ls =
     (let numsymbols = length leaves;
          oldchain = snd (ls ! index);
          lastcount = count oldchain
      in if index = 0 \<and> lastcount \<ge> numsymbols then ls
         else if index = 0
         then ls[index := (oldchain, Node (weight (leaves ! lastcount)) None (lastcount + 1))]
         else let sum = (weight (fst (ls ! (index - 1))) + weight (snd (ls ! (index - 1)))) mod 2 ^ 64
              in if lastcount < numsymbols \<and> sum > weight (leaves ! lastcount)
                 then ls[index := (oldchain, Node (weight (leaves ! lastcount)) (tail oldchain) (lastcount + 1))]
                 else let ls = ls[index := (oldchain, Node sum (Some (snd (ls ! (index - 1)))) lastcount)]
                      in if \<not> final
                         then BoundaryPM leaves (index - 1) False (BoundaryPM leaves (index - 1) False ls)
                         else ls)"
  by pat_completeness auto
termination by (relation "measure (\<lambda>(leaves, index, final, ls). index)") auto

declare BoundaryPM.simps [simp del]

definition InitLists :: "Node list \<Rightarrow> nat \<Rightarrow> (Node \<times> Node) list" where
  "InitLists leaves maxbits =
     (let node0 = Node (weight (leaves ! 0)) None 1;
          node1 = Node (weight (leaves ! 1)) None 2
      in replicate maxbits (node0, node1))"

text \<open>The inner loop of \<^verbatim>\<open>ExtractBitLengths\<close>, and the loop over the chain.\<close>

fun count_leaves :: "Node list \<Rightarrow> nat \<Rightarrow> nat list \<Rightarrow> nat list" where
  "count_leaves leaves 0 bitlengths = bitlengths"
| "count_leaves leaves (Suc i) bitlengths =
     (let s = count (leaves ! i); bitlengths = count_leaves leaves i bitlengths
      in bitlengths[s := bitlengths ! s + 1])"

fun ExtractBitLengths :: "Node \<Rightarrow> Node list \<Rightarrow> nat list \<Rightarrow> nat list" where
  "ExtractBitLengths (Node w t c) leaves bitlengths =
     (let bitlengths = count_leaves leaves c bitlengths
      in case t of Some node \<Rightarrow> ExtractBitLengths node leaves bitlengths | None \<Rightarrow> bitlengths)"

text \<open>The difference of two 64-bit weights, converted to an \<^verbatim>\<open>int\<close>.\<close>

definition LeafComparator :: "Node \<Rightarrow> Node \<Rightarrow> int" where
  "LeafComparator a b = sint (ucast (of_nat (weight a) - of_nat (weight b) :: size_t) :: uint32)"

fun used_leaves :: "nat \<Rightarrow> nat list \<Rightarrow> Node list" where
  "used_leaves i [] = []"
| "used_leaves i (f # fs) = (if f \<noteq> 0 then Node f None i # used_leaves (i + 1) fs else used_leaves (i + 1) fs)"

text \<open>The calls in the last list; only the last one is final.\<close>

fun run_BoundaryPM :: "Node list \<Rightarrow> nat \<Rightarrow> nat \<Rightarrow> (Node \<times> Node) list \<Rightarrow> (Node \<times> Node) list" where
  "run_BoundaryPM leaves maxbits 0 ls = ls"
| "run_BoundaryPM leaves maxbits (Suc runs) ls =
     run_BoundaryPM leaves maxbits runs (BoundaryPM leaves (maxbits - 1) (runs = 0) ls)"

text \<open>The error code and the bit lengths.\<close>

definition ZopfliLengthLimitedCodeLengths ::
  "(Node list \<Rightarrow> Node list) \<Rightarrow> nat list \<Rightarrow> nat \<Rightarrow> nat \<times> nat list" where
  "ZopfliLengthLimitedCodeLengths qsort frequencies maxbits =
     (let bitlengths = replicate (length frequencies) 0;
          leaves = used_leaves 0 frequencies;
          numsymbols = length leaves
      in if 2 ^ maxbits < numsymbols then (1, bitlengths)
         else if numsymbols = 0 then (0, bitlengths)
         else if numsymbols = 1 then (0, bitlengths[count (leaves ! 0) := 1])
         else let leaves = qsort leaves;
                  ls = InitLists leaves maxbits;
                  ls = run_BoundaryPM leaves maxbits (2 * numsymbols - 4) ls
              in (0, ExtractBitLengths (snd (ls ! (maxbits - 1))) leaves bitlengths))"

definition ZopfliCalculateBitLengths :: "(Node list \<Rightarrow> Node list) \<Rightarrow> nat list \<Rightarrow> nat \<Rightarrow> failure + nat list" where
  "ZopfliCalculateBitLengths qsort counts maxbits =
     (case ZopfliLengthLimitedCodeLengths qsort counts maxbits of
        (error, bitlengths) \<Rightarrow> if error = 0 then Inr bitlengths else Inl Assertion_failed)"

section \<open>The lists of chains\<close>

text \<open>
  List \<open>j\<close> merges the leaves with the packages of list \<open>j - 1\<close>, lightest first. A chain stands for the first
  \<open>m\<close> elements of its list: its node counts the leaves among them, and its tail is the chain of the
  elements of the previous list its packages are made of.
\<close>

fun stands_for :: "nat \<Rightarrow> nat \<Rightarrow> nat \<Rightarrow> Node \<Rightarrow> bool" where
  "stands_for n k m (Node w t c) \<longleftrightarrow> c \<le> n \<and> c \<le> m \<and>
     (case t of None \<Rightarrow> m = c
      | Some t' \<Rightarrow> c < m \<and> 0 < k \<and> count t' \<le> c \<and> stands_for n (k - 1) (2 * (m - c)) t')"

text \<open>The number of elements of a list.\<close>

fun list_size :: "nat \<Rightarrow> nat \<Rightarrow> nat" where
  "list_size n 0 = n"
| "list_size n (Suc k) = n + list_size n k div 2"

definition leaves_ok :: "nat \<Rightarrow> Node list \<Rightarrow> bool" where
  "leaves_ok W leaves \<longleftrightarrow> 2 \<le> length leaves \<and> sorted (map weight leaves) \<and> (\<forall>l \<in> set leaves. 0 < weight l \<and> weight l \<le> W)"

text \<open>The lookahead pair of list \<open>j\<close> ends at its element number \<open>m\<close>.\<close>

definition pair_inv :: "Node list \<Rightarrow> nat \<Rightarrow> nat \<Rightarrow> nat \<Rightarrow> Node \<times> Node \<Rightarrow> bool" where
  "pair_inv leaves W j m p \<longleftrightarrow>
     (let a = fst p; b = snd p; n = length leaves in
        0 < weight a \<and> weight a \<le> weight b \<and> weight b \<le> 2 ^ j * W \<and> count b \<le> n \<and> count b \<le> m \<and>
        (\<forall>i < count b. weight (leaves ! i) \<le> weight b) \<and>
        (count b < n \<longrightarrow> weight b \<le> weight (leaves ! count b)) \<and>
        (if m \<le> list_size n j then stands_for n j m b else count b = n))"

definition pair_sum :: "Node \<times> Node \<Rightarrow> nat" where
  "pair_sum p = weight (fst p) + weight (snd p)"

definition lists_inv :: "Node list \<Rightarrow> nat \<Rightarrow> nat \<Rightarrow> (nat \<Rightarrow> nat) \<Rightarrow> (Node \<times> Node) list \<Rightarrow> bool" where
  "lists_inv leaves W k m ls \<longleftrightarrow> k < length ls \<and>
     (\<forall>j \<le> k. pair_inv leaves W j (m j) (ls ! j)) \<and>
     (\<forall>j < k. weight (snd (ls ! Suc j)) \<le> pair_sum (ls ! j) \<and>
        m j = 2 * (m (Suc j) - count (snd (ls ! Suc j))) + 2)"

subsection \<open>One more element of a list\<close>

lemma leaf_order: "leaves_ok W leaves \<Longrightarrow> i \<le> j \<Longrightarrow> j < length leaves \<Longrightarrow> weight (leaves ! i) \<le> weight (leaves ! j)"
  unfolding leaves_ok_def using sorted_nth_mono [of "map weight leaves" i j] by simp

lemma leaf_bounds: "leaves_ok W leaves \<Longrightarrow> i < length leaves \<Longrightarrow> 0 < weight (leaves ! i) \<and> weight (leaves ! i) \<le> W"
  by (simp add: leaves_ok_def)

lemma stands_for_size: "stands_for n k m nd \<Longrightarrow> m + n \<le> count nd + list_size n k"
proof (induction n k m nd rule: stands_for.induct)
  case (1 n k m w t c)
  have "n \<le> list_size n k" by (cases k) simp_all
  with 1 show ?case by (cases k; cases t) fastforce+
qed

lemma pair_inv_leaf:
  assumes ok: "leaves_ok W leaves" and p: "pair_inv leaves W j m p" and c: "count (snd p) < length leaves"
    and t: "t = tail (snd p)"
  shows "pair_inv leaves W j (m + 1) (snd p, Node (weight (leaves ! count (snd p))) t (count (snd p) + 1))"
proof -
  let ?n = "length leaves" and ?c = "count (snd p)"
  obtain w t0 c0 where b: "snd p = Node w t0 c0" by (cases "snd p") auto
  have "weight (leaves ! ?c) \<le> W" using leaf_bounds [OF ok c] by simp
  also have "W \<le> 2 ^ j * W" by simp
  finally have bound: "weight (leaves ! ?c) \<le> 2 ^ j * W" .
  have m: "m \<le> list_size ?n j" and st: "stands_for ?n j m (snd p)"
    using p c by (auto simp: pair_inv_def Let_def split: if_splits)
  have size: "m + 1 \<le> list_size ?n j" using stands_for_size [OF st] c by simp
  have new: "stands_for ?n j (m + 1) (Node (weight (leaves ! ?c)) t (?c + 1))"
    using st b c t by (auto split: option.splits)
  show ?thesis
    using p c bound new size leaf_order [OF ok] by (auto simp: pair_inv_def Let_def less_Suc_eq_le)
qed

lemma pair_inv_first:
  assumes ok: "leaves_ok W leaves" and p: "pair_inv leaves W 0 m p" and c: "\<not> count (snd p) < length leaves"
  shows "pair_inv leaves W 0 (m + 1) p"
proof -
  obtain w t0 c0 where b: "snd p = Node w t0 c0" by (cases "snd p") auto
  show ?thesis using p c b by (auto simp: pair_inv_def Let_def split: if_splits option.splits)
qed

lemma pair_inv_package:
  assumes ok: "leaves_ok W leaves" and p: "pair_inv leaves W (Suc j) m p" and q: "pair_inv leaves W j m' q"
    and le: "weight (snd p) \<le> pair_sum q" and m': "m' = 2 * (m - count (snd p)) + 2"
    and c: "count (snd p) < length leaves \<Longrightarrow> pair_sum q \<le> weight (leaves ! count (snd p))"
  shows "pair_inv leaves W (Suc j) (m + 1) (snd p, Node (pair_sum q) (Some (snd q)) (count (snd p)))"
proof -
  let ?n = "length leaves" and ?c = "count (snd p)"
  have q': "0 < weight (fst q)" "weight (fst q) \<le> weight (snd q)" "weight (snd q) \<le> 2 ^ j * W" "count (snd q) \<le> ?n"
    "\<forall>i < count (snd q). weight (leaves ! i) \<le> weight (snd q)"
    using q by (simp_all add: pair_inv_def Let_def)
  have p': "0 < weight (fst p)" "weight (fst p) \<le> weight (snd p)" "?c \<le> ?n" "?c \<le> m" "\<forall>i < ?c. weight (leaves ! i) \<le> weight (snd p)"
    using p by (simp_all add: pair_inv_def Let_def)
  have more: "count (snd q) \<le> ?c"
  proof (rule ccontr)
    assume "\<not> count (snd q) \<le> ?c"
    then have "weight (leaves ! ?c) \<le> weight (snd q)" "?c < ?n" using q'(4,5) by auto
    with c q'(1) show False by (simp add: pair_sum_def)
  qed
  have "if m + 1 \<le> list_size ?n (Suc j) then stands_for ?n (Suc j) (m + 1) (Node (pair_sum q) (Some (snd q)) ?c) else ?c = ?n"
  proof (cases "m' \<le> list_size ?n j")
    case True
    then have "stands_for ?n j m' (snd q)" using q by (simp add: pair_inv_def Let_def)
    moreover have "m + 1 \<le> list_size ?n (Suc j)" using True m' p'(3,4) by simp
    ultimately show ?thesis using p'(3,4) m' more by (auto simp: Suc_diff_le)
  next
    case False
    then have "count (snd q) = ?n" using q by (simp add: pair_inv_def Let_def)
    then have "?c = ?n" using more p'(3) by simp
    moreover from this have "\<not> m + 1 \<le> list_size ?n (Suc j)" using False m' p'(4) by simp
    ultimately show ?thesis by simp
  qed
  moreover have "pair_sum q \<le> 2 ^ Suc j * W" using q'(2,3) by (simp add: pair_sum_def)
  ultimately show ?thesis using p' le c by (auto simp: pair_inv_def Let_def)
qed

subsection \<open>The recursion\<close>

lemma BoundaryPM_0:
  "BoundaryPM leaves 0 final ls =
     (let b = snd (ls ! 0) in if count b < length leaves
      then ls[0 := (b, Node (weight (leaves ! count b)) None (count b + 1))] else ls)"
  by (subst BoundaryPM.simps) (simp add: Let_def)

text \<open>A weight is at most \<open>2\<^sup>k * W\<close>, so that no sum of two of them wraps around.\<close>

lemma BoundaryPM_Suc:
  assumes "pair_sum (ls ! k) < 2 ^ 64"
  shows "BoundaryPM leaves (Suc k) final ls =
     (let b = snd (ls ! Suc k); q = ls ! k in
      if count b < length leaves \<and> weight (leaves ! count b) < pair_sum q
      then ls[Suc k := (b, Node (weight (leaves ! count b)) (tail b) (count b + 1))]
      else let ls = ls[Suc k := (b, Node (pair_sum q) (Some (snd q)) (count b))]
           in if final then ls else BoundaryPM leaves k False (BoundaryPM leaves k False ls))"
  using assms by (subst BoundaryPM.simps) (auto simp: Let_def pair_sum_def)

lemma pair_sum_bound:
  assumes "pair_inv leaves W j m p" and "W < 2 ^ 32" and "j \<le> 30"
  shows "pair_sum p < 2 ^ 64"
proof -
  have "pair_sum p \<le> 2 * (2 ^ j * W)" using assms(1) by (simp add: pair_inv_def pair_sum_def Let_def)
  also have "\<dots> \<le> 2 * (2 ^ 30 * W)" using assms(3) by (intro mult_le_mono2 mult_le_mono1 power_increasing) simp_all
  also have "\<dots> < 2 ^ 64" using assms(2) by simp
  finally show ?thesis .
qed

lemma lists_inv_Suc:
  "lists_inv leaves W (Suc k) m ls \<longleftrightarrow> lists_inv leaves W k m ls \<and> Suc k < length ls \<and>
     pair_inv leaves W (Suc k) (m (Suc k)) (ls ! Suc k) \<and> weight (snd (ls ! Suc k)) \<le> pair_sum (ls ! k) \<and>
     m k = 2 * (m (Suc k) - count (snd (ls ! Suc k))) + 2"
  by (auto simp: lists_inv_def le_Suc_eq less_Suc_eq)

lemma pair_inv_BoundaryPM:
  assumes ok: "leaves_ok W leaves" and W: "W < 2 ^ 32" "k \<le> 30" and inv: "lists_inv leaves W k m ls"
  shows "pair_inv leaves W k (m k + 1) (BoundaryPM leaves k True ls ! k)"
proof (cases k)
  case 0
  have "pair_inv leaves W 0 (m 0) (ls ! 0)" "0 < length ls" using inv 0 by (simp_all add: lists_inv_def)
  then obtain p: "pair_inv leaves W 0 (m 0) (ls ! 0)" and len: "0 < length ls" by blast
  have "tail (snd (ls ! 0)) = None" if "count (snd (ls ! 0)) < length leaves"
    using p that by (cases "snd (ls ! 0)") (auto simp: pair_inv_def Let_def split: if_splits option.splits)
  with pair_inv_leaf [OF ok p] pair_inv_first [OF ok p] len 0 show ?thesis
    by (simp add: BoundaryPM_0 Let_def)
next
  case (Suc j)
  then have "\<forall>i \<le> Suc j. pair_inv leaves W i (m i) (ls ! i)" using inv by (simp add: lists_inv_def)
  then have p: "pair_inv leaves W (Suc j) (m (Suc j)) (ls ! Suc j)" and q: "pair_inv leaves W j (m j) (ls ! j)"
    by simp_all
  have link: "weight (snd (ls ! Suc j)) \<le> pair_sum (ls ! j)" "m j = 2 * (m (Suc j) - count (snd (ls ! Suc j))) + 2"
    and len: "Suc j < length ls"
    using inv Suc by (simp_all add: lists_inv_Suc)
  have "pair_sum (ls ! j) < 2 ^ 64" using W Suc by (intro pair_sum_bound [OF q]) simp_all
  then show ?thesis
    using pair_inv_leaf [OF ok p _ refl] pair_inv_package [OF ok p q link] len Suc
    by (simp add: BoundaryPM_Suc Let_def not_less)
qed

lemma lists_inv_cong:
  assumes "lists_inv leaves W k m ls" and "length ls' = length ls" and "\<And>j. j \<le> k \<Longrightarrow> ls' ! j = ls ! j"
  shows "lists_inv leaves W k m ls'"
  using assms by (auto simp: lists_inv_def)

lemma BoundaryPM_frame:
  "length (BoundaryPM leaves k final ls) = length ls \<and> (\<forall>j > k. BoundaryPM leaves k final ls ! j = ls ! j)"
proof (induction k arbitrary: final ls)
  case (Suc k)
  then show ?case by (subst (1 2) BoundaryPM.simps) (simp add: Let_def)
qed (simp add: BoundaryPM_0 Let_def)

lemma BoundaryPM_final: "BoundaryPM leaves k final ls ! k = BoundaryPM leaves k True ls ! k"
proof (cases k)
  case (Suc j)
  then show ?thesis by (subst (1 2) BoundaryPM.simps) (simp add: Let_def BoundaryPM_frame)
qed (simp add: BoundaryPM_0)

lemma BoundaryPM_pair:
  assumes "k < length ls"
  shows "BoundaryPM leaves k True ls ! k = ls ! k \<or> fst (BoundaryPM leaves k True ls ! k) = snd (ls ! k)"
  using assms by (subst (1 2) BoundaryPM.simps) (auto simp: Let_def)

lemma BoundaryPM_sum:
  assumes "leaves_ok W leaves" "W < 2 ^ 32" "k \<le> 30" "lists_inv leaves W k m ls"
  shows "pair_sum (ls ! k) \<le> pair_sum (BoundaryPM leaves k final ls ! k)"
proof -
  have "k < length ls" "pair_inv leaves W k (m k) (ls ! k)" using assms(4) by (simp_all add: lists_inv_def)
  then show ?thesis
    using BoundaryPM_pair [of k ls leaves] pair_inv_BoundaryPM [OF assms] BoundaryPM_final [of leaves k final ls]
    by (auto simp: pair_sum_def pair_inv_def Let_def)
qed

lemma lists_inv_BoundaryPM:
  assumes ok: "leaves_ok W leaves" and W: "W < 2 ^ 32"
  shows "k \<le> 30 \<Longrightarrow> lists_inv leaves W k m ls \<Longrightarrow>
    \<exists>m'. m' k = m k + 1 \<and> lists_inv leaves W k m' (BoundaryPM leaves k False ls)"
proof (induction k arbitrary: m ls)
  case 0
  with pair_inv_BoundaryPM [OF ok W 0] show ?case
    by (intro exI [of _ "\<lambda>_. m 0 + 1"]) (simp add: lists_inv_def BoundaryPM_final [of _ _ False] BoundaryPM_frame)
next
  case (Suc k)
  let ?b = "snd (ls ! Suc k)" and ?q = "ls ! k" and ?new = "BoundaryPM leaves (Suc k) False ls"
  have low: "lists_inv leaves W k m ls" and len: "Suc k < length ls"
    and p: "pair_inv leaves W (Suc k) (m (Suc k)) (ls ! Suc k)" and le: "weight ?b \<le> pair_sum ?q"
    and m: "m k = 2 * (m (Suc k) - count ?b) + 2"
    using Suc.prems(2) unfolding lists_inv_Suc by simp_all
  have top: "pair_inv leaves W (Suc k) (m (Suc k) + 1) (?new ! Suc k)"
    unfolding BoundaryPM_final [of _ _ False] by (rule pair_inv_BoundaryPM [OF ok W Suc.prems])
  have c: "count ?b \<le> m (Suc k)" using p by (simp add: pair_inv_def Let_def)
  have k: "k \<le> 30" using Suc.prems(1) by simp
  have "pair_inv leaves W k (m k) ?q" using low by (simp add: lists_inv_def)
  note step = BoundaryPM_Suc [OF pair_sum_bound [OF this W k], of leaves False]
  show ?case
  proof (cases "count ?b < length leaves \<and> weight (leaves ! count ?b) < pair_sum ?q")
    case True
    let ?m = "m(Suc k := m (Suc k) + 1)"
    have new: "?new = ls[Suc k := (?b, Node (weight (leaves ! count ?b)) (tail ?b) (count ?b + 1))]"
      using True by (simp add: step Let_def)
    have "lists_inv leaves W k ?m ?new"
      by (rule lists_inv_cong [where ls = ls]) (use low in \<open>simp_all add: new lists_inv_def\<close>)
    moreover have "weight (snd (?new ! Suc k)) \<le> pair_sum (?new ! k)"
      "?m k = 2 * (?m (Suc k) - count (snd (?new ! Suc k))) + 2"
      using True len c m by (simp_all add: new)
    ultimately have "lists_inv leaves W (Suc k) ?m ?new"
      unfolding lists_inv_Suc using top len by (auto simp: BoundaryPM_frame)
    moreover have "?m (Suc k) = m (Suc k) + 1" by simp
    ultimately show ?thesis by blast
  next
    case False
    let ?ls = "ls[Suc k := (?b, Node (pair_sum ?q) (Some (snd ?q)) (count ?b))]"
    let ?one = "BoundaryPM leaves k False ?ls"
    have new: "?new = BoundaryPM leaves k False ?one" using False by (auto simp: step Let_def)
    have inv: "lists_inv leaves W k m ?ls" by (rule lists_inv_cong [OF low]) simp_all
    obtain m1 where m1: "m1 k = m k + 1" "lists_inv leaves W k m1 ?one"
      using Suc.IH [OF k inv] by blast
    obtain m2 where m2: "m2 k = m1 k + 1" "lists_inv leaves W k m2 ?new"
      using Suc.IH [OF k m1(2)] new by auto
    let ?m = "m2(Suc k := m (Suc k) + 1)"
    have "pair_sum ?q \<le> pair_sum (?new ! k)"
      using BoundaryPM_sum [OF ok W k inv, of False] BoundaryPM_sum [OF ok W k m1(2), of False] new by simp
    moreover have "?new ! Suc k = (?b, Node (pair_sum ?q) (Some (snd ?q)) (count ?b))"
      using len by (simp add: new BoundaryPM_frame)
    moreover have "lists_inv leaves W k ?m ?new" using m2(2) by (simp add: lists_inv_def)
    ultimately have "lists_inv leaves W (Suc k) ?m ?new"
      unfolding lists_inv_Suc using top len m c m1(1) m2(1) by (auto simp: BoundaryPM_frame Suc_diff_le)
    moreover have "?m (Suc k) = m (Suc k) + 1" by simp
    ultimately show ?thesis by blast
  qed
qed

section \<open>The runs\<close>

lemma lists_inv_InitLists:
  assumes ok: "leaves_ok W leaves" and k: "k < maxbits"
  shows "lists_inv leaves W k (\<lambda>_. 2) (InitLists leaves maxbits)"
proof -
  let ?n = "length leaves" and ?p = "(Node (weight (leaves ! 0)) None 1, Node (weight (leaves ! 1)) None 2)"
  have n: "2 \<le> ?n" using ok by (simp add: leaves_ok_def)
  have size: "2 \<le> list_size ?n j" for j using n by (cases j) simp_all
  have w: "0 < weight (leaves ! 0)" "weight (leaves ! 0) \<le> weight (leaves ! 1)" "weight (leaves ! 1) \<le> W"
    "2 < ?n \<Longrightarrow> weight (leaves ! 1) \<le> weight (leaves ! 2)"
    using leaf_bounds [OF ok, of 0] leaf_bounds [OF ok, of 1] leaf_order [OF ok, of 0 1] leaf_order [OF ok, of 1 2] n
    by linarith+
  have "W \<le> 2 ^ j * W" for j :: nat by simp
  then have "weight (leaves ! 1) \<le> 2 ^ j * W" for j :: nat using w(3) order_trans by blast
  then have "pair_inv leaves W j 2 ?p" for j
    using n size [of j] w by (auto simp: pair_inv_def Let_def numeral_2_eq_2 less_Suc_eq)
  with k show ?thesis by (auto simp: lists_inv_def InitLists_def Let_def pair_sum_def)
qed

lemma run_BoundaryPM_pair:
  assumes ok: "leaves_ok W leaves" and W: "W < 2 ^ 32" and K: "0 < maxbits" "maxbits \<le> 31"
  shows "lists_inv leaves W (maxbits - 1) m ls \<Longrightarrow>
    pair_inv leaves W (maxbits - 1) (m (maxbits - 1) + runs) (run_BoundaryPM leaves maxbits runs ls ! (maxbits - 1))"
proof (induction runs arbitrary: m ls)
  case 0
  then show ?case using K by (simp add: lists_inv_def)
next
  case (Suc runs)
  let ?k = "maxbits - 1"
  have k: "?k \<le> 30" using K by simp
  show ?case
  proof (cases runs)
    case 0
    with pair_inv_BoundaryPM [OF ok W k Suc.prems] show ?thesis by simp
  next
    case (Suc r)
    obtain m' where "m' ?k = m ?k + 1" "lists_inv leaves W ?k m' (BoundaryPM leaves ?k False ls)"
      using lists_inv_BoundaryPM [OF ok W k \<open>lists_inv leaves W ?k m ls\<close>] by blast
    with Suc.IH [of m' "BoundaryPM leaves ?k False ls"] Suc show ?thesis by simp
  qed
qed

lemma list_size_bound: "n \<le> 2 ^ (k + j) \<Longrightarrow> 2 * n \<le> list_size n k + 2 ^ j"
proof (induction k arbitrary: j)
  case (Suc k)
  then have "2 * n \<le> list_size n k + 2 ^ Suc j" using Suc.IH [of "Suc j"] by simp
  then show ?case by simp
qed simp

text \<open>With enough bits, the last list has the elements the runs ask for.\<close>

lemma last_chain:
  assumes ok: "leaves_ok W leaves" and W: "W < 2 ^ 32" and K: "length leaves \<le> 2 ^ maxbits" "maxbits \<le> 31"
  defines "n \<equiv> length leaves"
  shows "stands_for n (maxbits - 1) (2 * n - 2)
    (snd (run_BoundaryPM leaves maxbits (2 * n - 4) (InitLists leaves maxbits) ! (maxbits - 1)))"
proof -
  have n: "2 \<le> n" using ok by (simp add: leaves_ok_def n_def)
  have K0: "0 < maxbits" using K n by (cases maxbits) (simp_all add: n_def)
  have "lists_inv leaves W (maxbits - 1) (\<lambda>_. 2) (InitLists leaves maxbits)"
    using K0 by (intro lists_inv_InitLists [OF ok]) simp
  then have "pair_inv leaves W (maxbits - 1) (2 + (2 * n - 4))
      (run_BoundaryPM leaves maxbits (2 * n - 4) (InitLists leaves maxbits) ! (maxbits - 1))"
    by (rule run_BoundaryPM_pair [OF ok W K0 K(2)])
  moreover have "2 + (2 * n - 4) = 2 * n - 2" using n by simp
  moreover have "2 * n - 2 \<le> list_size n (maxbits - 1)"
    using list_size_bound [of n "maxbits - 1" 1] K(1) K0 by (simp add: n_def)
  ultimately show ?thesis by (simp add: pair_inv_def Let_def n_def)
qed

section \<open>The Kraft equation\<close>

text \<open>The number of nodes of a chain that count leaf \<open>i\<close> in: the bit length of its symbol.\<close>

fun depth :: "Node \<Rightarrow> nat \<Rightarrow> nat" where
  "depth (Node w t c) i = of_bool (i < c) + (case t of None \<Rightarrow> 0 | Some t' \<Rightarrow> depth t' i)"

lemma depth_bound: "stands_for n k m nd \<Longrightarrow> depth nd i \<le> Suc k"
proof (induction n k m nd rule: stands_for.induct)
  case (1 n k m w t c)
  then show ?case by (cases t) fastforce+
qed

lemma depth_0: "stands_for n k m nd \<Longrightarrow> count nd \<le> i \<Longrightarrow> depth nd i = 0"
proof (induction n k m nd rule: stands_for.induct)
  case (1 n k m w t c)
  then show ?case by (cases t) fastforce+
qed

lemma chain_kraft:
  "stands_for n k m nd \<Longrightarrow> (\<Sum>i<n. 2 ^ (Suc k - depth nd i)) + m * 2 ^ k = n * 2 ^ Suc k"
proof (induction n k m nd rule: stands_for.induct)
  case (1 n k m w t c)
  have split: "(\<Sum>i<n. f i) = (\<Sum>i<c. f i) + (\<Sum>i=c..<n. f i)" for f :: "nat \<Rightarrow> nat"
    using 1 by (simp add: sum.atLeastLessThan_concat lessThan_atLeast0)
  show ?case
  proof (cases t)
    case None
    then have "(\<Sum>i<n. 2 ^ (Suc k - depth (Node w t c) i)) = (\<Sum>i<c. 2 ^ k) + (\<Sum>i=c..<n. 2 ^ Suc k :: nat)"
      unfolding split by (intro arg_cong2 [of _ _ _ _ plus] sum.cong) auto
    with None 1 show ?thesis by (simp add: algebra_simps)
  next
    case (Some t')
    then obtain k' where k: "k = Suc k'" using 1 by (cases k) auto
    have st: "stands_for n k' (2 * (m - c)) t'" "count t' \<le> c" using 1 Some k by simp_all
    have zero: "depth t' i = 0" if "c \<le> i" for i using depth_0 [OF st(1)] st(2) that by simp
    have "(\<Sum>i<n. 2 ^ (Suc k - depth (Node w t c) i)) =
        (\<Sum>i<c. 2 ^ (Suc k' - depth t' i)) + (\<Sum>i=c..<n. 2 ^ Suc k :: nat)"
      unfolding split by (intro arg_cong2 [of _ _ _ _ plus] sum.cong) (auto simp: Some k zero)
    moreover have "(\<Sum>i<c. 2 ^ (Suc k' - depth t' i)) + (n - c) * 2 ^ Suc k' + 2 * (m - c) * 2 ^ k' = n * 2 ^ Suc k'"
      using 1 Some k split [of "\<lambda>i. 2 ^ (Suc k' - depth t' i)"] by (simp add: zero)
    moreover obtain d e where "m = c + d" "n = c + e"
      using 1 by (metis le_Suc_ex stands_for.simps)
    ultimately show ?thesis using k by (simp add: algebra_simps)
  qed
qed

lemma chain_code:
  assumes st: "stands_for n k (2 * n - 2) nd" and n: "2 \<le> n"
  shows "(\<Sum>i<n. 2 ^ (Suc k - depth nd i)) = (2 ^ Suc k :: nat)" and "i < n \<Longrightarrow> 0 < depth nd i"
proof -
  obtain r where r: "n = Suc (Suc r)" using n by (metis add_2_eq_Suc le_Suc_ex)
  show sum: "(\<Sum>i<n. 2 ^ (Suc k - depth nd i)) = (2 ^ Suc k :: nat)"
    using chain_kraft [OF st] r by (simp add: algebra_simps)
  show "0 < depth nd i" if i: "i < n"
  proof (rule ccontr)
    assume "\<not> 0 < depth nd i"
    define j where "j = (if i = 0 then 1 else 0 :: nat)"
    then have j: "j < n" "j \<noteq> i" using n by simp_all
    have "(2 :: nat) ^ Suc k + 2 ^ (Suc k - depth nd j) = (\<Sum>i\<in>{i, j}. 2 ^ (Suc k - depth nd i))"
      using \<open>\<not> 0 < depth nd i\<close> j by simp
    also have "\<dots> \<le> (\<Sum>i<n. 2 ^ (Suc k - depth nd i))" using i j by (intro sum_mono2) auto
    finally show False using sum by simp
  qed
qed

section \<open>From leaves to symbols\<close>

definition symbols_ok :: "Node list \<Rightarrow> nat list \<Rightarrow> bool" where
  "symbols_ok leaves bitlengths \<longleftrightarrow> distinct (map count leaves) \<and> (\<forall>l \<in> set leaves. count l < length bitlengths)"

lemma length_count_leaves [simp]: "length (count_leaves leaves c bl) = length bl"
  by (induction c) (simp_all add: Let_def)

lemma count_leaves_nth:
  assumes "symbols_ok leaves bl" and "c \<le> length leaves" and "i < length leaves"
  shows "count_leaves leaves c bl ! count (leaves ! i) = bl ! count (leaves ! i) + of_bool (i < c)"
  using assms(2)
proof (induction c)
  case (Suc c)
  have "count (leaves ! i) = count (leaves ! c) \<longleftrightarrow> i = c"
    using assms(1,3) Suc.prems nth_eq_iff_index_eq [of "map count leaves" i c] by (simp add: symbols_ok_def)
  moreover have "count (leaves ! i) < length bl" using assms(1,3) by (simp add: symbols_ok_def)
  ultimately show ?case using Suc by (auto simp: Let_def nth_list_update)
qed simp

lemma count_leaves_other:
  "s \<notin> count ` set leaves \<Longrightarrow> c \<le> length leaves \<Longrightarrow> count_leaves leaves c bl ! s = bl ! s"
proof (induction c)
  case (Suc c)
  then have "count (leaves ! c) \<noteq> s" by auto
  with Suc show ?case by (simp add: Let_def)
qed simp

lemma ExtractBitLengths_length [simp]: "length (ExtractBitLengths nd leaves bl) = length bl"
  by (induction nd leaves bl rule: ExtractBitLengths.induct) (auto simp: Let_def split: option.split)

lemma ExtractBitLengths_nth:
  assumes "symbols_ok leaves bl" and "stands_for (length leaves) k m nd" and "i < length leaves"
  shows "ExtractBitLengths nd leaves bl ! count (leaves ! i) = bl ! count (leaves ! i) + depth nd i"
  using assms
proof (induction nd leaves bl arbitrary: k m rule: ExtractBitLengths.induct)
  case (1 w t c leaves bl)
  have "symbols_ok leaves (count_leaves leaves c bl)" using 1(2) by (simp add: symbols_ok_def)
  with 1 show ?case by (cases t) (auto simp: count_leaves_nth)
qed

lemma ExtractBitLengths_other:
  assumes "stands_for (length leaves) k m nd" and "s \<notin> count ` set leaves"
  shows "ExtractBitLengths nd leaves bl ! s = bl ! s"
  using assms
proof (induction nd leaves bl arbitrary: k m rule: ExtractBitLengths.induct)
  case (1 w t c leaves bl)
  then show ?case by (cases t) (auto simp: count_leaves_other)
qed

lemma used_leaves_eq: "used_leaves i fs = map (\<lambda>s. Node (fs ! s) None (i + s)) (filter (\<lambda>s. fs ! s \<noteq> 0) [0..<length fs])"
proof (induction fs arbitrary: i)
  case (Cons f fs)
  have "[0..<length (f # fs)] = 0 # map Suc [0..<length fs]"
    by (simp add: upt_conv_Cons map_Suc_upt del: upt_Suc)
  with Cons show ?case by (simp add: filter_map o_def del: upt_Suc)
qed simp

definition used_symbols :: "nat list \<Rightarrow> nat list" where
  "used_symbols fs = filter (\<lambda>s. fs ! s \<noteq> 0) [0..<length fs]"

text \<open>What \<^verbatim>\<open>qsort\<close> promises, where the comparison it is given is an order.\<close>

definition qsort_ok :: "(Node list \<Rightarrow> Node list) \<Rightarrow> bool" where
  "qsort_ok qsort \<longleftrightarrow> (\<forall>ls. (\<forall>l \<in> set ls. weight l < 2 ^ 31) \<longrightarrow>
     mset (qsort ls) = mset ls \<and> sorted_wrt (\<lambda>a b. LeafComparator a b \<le> 0) (qsort ls))"

lemma LeafComparator_diff:
  assumes "weight a < 2 ^ 31" and "weight b < 2 ^ 31"
  shows "LeafComparator a b = int (weight a) - int (weight b)"
proof -
  let ?d = "int (weight a) - int (weight b)"
  have "of_nat (weight a) - of_nat (weight b) = (word_of_int ?d :: size_t)" by simp
  moreover have "ucast (word_of_int d :: size_t) = (word_of_int d :: uint32)" for d
    by (rule bit_word_eqI) (simp add: bit_simps)
  moreover have "sint (word_of_int ?d :: uint32) = ?d"
    unfolding sint_sbintrunc' by (rule signed_take_bit_int_eq_self) (use assms in simp_all)
  ultimately show ?thesis unfolding LeafComparator_def by presburger
qed

lemma qsort_ok_sort_key: "qsort_ok (sort_key weight)"
  unfolding qsort_ok_def
proof (intro allI impI conjI)
  fix ls :: "Node list"
  assume small: "\<forall>l \<in> set ls. weight l < 2 ^ 31"
  have "sorted_wrt (\<lambda>a b. weight a \<le> weight b) (sort_key weight ls)"
    using sorted_sort_key [of weight ls] by (simp add: sorted_map)
  then show "sorted_wrt (\<lambda>a b. LeafComparator a b \<le> 0) (sort_key weight ls)"
    by (rule sorted_wrt_mono_rel [rotated]) (use small in \<open>simp add: LeafComparator_diff\<close>)
qed simp

lemma qsort_leaves:
  assumes q: "qsort_ok qsort" and fs: "\<forall>f \<in> set fs. f < 2 ^ 31"
  defines "leaves \<equiv> qsort (used_leaves 0 fs)"
  shows "sorted (map weight leaves)" and "length leaves = length (used_symbols fs)"
    and "distinct (map count leaves)" and "count ` set leaves = set (used_symbols fs)"
    and "\<forall>l \<in> set leaves. 0 < weight l \<and> weight l < 2 ^ 31"
proof -
  have used: "used_leaves 0 fs = map (\<lambda>s. Node (fs ! s) None s) (used_symbols fs)"
    by (simp add: used_leaves_eq used_symbols_def)
  have small: "\<forall>l \<in> set (used_leaves 0 fs). 0 < weight l \<and> weight l < 2 ^ 31"
    using fs by (auto simp: used used_symbols_def)
  then have perm: "mset leaves = mset (used_leaves 0 fs)"
    and sorted: "sorted_wrt (\<lambda>a b. LeafComparator a b \<le> 0) leaves"
    using q unfolding qsort_ok_def leaves_def by blast+
  have set: "set leaves = set (used_leaves 0 fs)" using perm by (rule mset_eq_setD)
  then show weights: "\<forall>l \<in> set leaves. 0 < weight l \<and> weight l < 2 ^ 31" using small by simp
  have "sorted_wrt (\<lambda>a b. weight a \<le> weight b) leaves"
    using sorted by (rule sorted_wrt_mono_rel [rotated]) (use weights in \<open>simp add: LeafComparator_diff\<close>)
  then show "sorted (map weight leaves)" by (simp add: sorted_map)
  have "length leaves = length (used_leaves 0 fs)" using perm by (rule mset_eq_length)
  then show "length leaves = length (used_symbols fs)" by (simp add: used)
  have "mset (map count leaves) = mset (map count (used_leaves 0 fs))" using perm by simp
  then have "mset (map count leaves) = mset (used_symbols fs)" by (simp add: used o_def)
  moreover have "distinct (used_symbols fs)" by (simp add: used_symbols_def)
  ultimately show "distinct (map count leaves)" by (metis mset_eq_imp_distinct_iff)
  show "count ` set leaves = set (used_symbols fs)" unfolding set by (simp add: used image_image)
qed

section \<open>The lengths are those of a code\<close>

lemma extracted_kraft:
  assumes sym: "symbols_ok leaves bl" and bl: "bl = replicate N 0"
    and st: "stands_for (length leaves) k (2 * length leaves - 2) nd" and n: "2 \<le> length leaves"
  shows "kraft_sum (Suc k) (ExtractBitLengths nd leaves bl) = 2 ^ Suc k"
proof -
  let ?bl = "ExtractBitLengths nd leaves bl" and ?n = "length leaves"
  let ?f = "\<lambda>s. if ?bl ! s = 0 then 0 else 2 ^ (Suc k - ?bl ! s) :: nat" and ?c = "\<lambda>i. count (leaves ! i)"
  have len: "length bl = N" by (simp add: bl)
  have cN: "?c i < N" if "i < ?n" for i using that sym by (simp add: symbols_ok_def bl)
  have at: "?bl ! ?c i = depth nd i" if "i < ?n" for i
    using ExtractBitLengths_nth [OF sym st that] cN [OF that] by (simp add: bl)
  have other: "?bl ! s = 0" if "s < N" "s \<notin> ?c ` {..<?n}" for s
  proof -
    have "s \<notin> count ` set leaves" using that(2) by (auto simp: in_set_conv_nth)
    then show ?thesis using ExtractBitLengths_other [OF st, of s bl] that(1) by (simp add: bl)
  qed
  have inj: "inj_on ?c {..<?n}"
    using sym nth_eq_iff_index_eq [of "map count leaves"] by (auto simp: symbols_ok_def inj_on_def)
  have "kraft_sum (Suc k) ?bl = (\<Sum>s<N. ?f s)"
    by (simp add: kraft_sum_def sum_list_sum_nth len atLeast0LessThan)
  also have "\<dots> = (\<Sum>s\<in>?c ` {..<?n}. ?f s)"
    using cN other by (intro sum.mono_neutral_right) auto
  also have "\<dots> = (\<Sum>i<?n. ?f (?c i))" by (simp add: sum.reindex [OF inj])
  also have "\<dots> = (\<Sum>i<?n. 2 ^ (Suc k - depth nd i))"
    using chain_code(2) [OF st n] by (intro sum.cong) (simp_all add: at)
  also have "\<dots> = 2 ^ Suc k" by (rule chain_code(1) [OF st n])
  finally show ?thesis .
qed

lemma extracted_lengths:
  assumes sym: "symbols_ok leaves bl" and bl: "bl = replicate N 0"
    and st: "stands_for (length leaves) k (2 * length leaves - 2) nd" and n: "2 \<le> length leaves" and s: "s < N"
  shows "ExtractBitLengths nd leaves bl ! s \<le> Suc k"
    and "0 < ExtractBitLengths nd leaves bl ! s \<longleftrightarrow> s \<in> count ` set leaves"
proof -
  consider i where "i < length leaves" "s = count (leaves ! i)" | "s \<notin> count ` set leaves"
    by (metis imageE in_set_conv_nth)
  then have "ExtractBitLengths nd leaves bl ! s \<le> Suc k \<and>
    (0 < ExtractBitLengths nd leaves bl ! s \<longleftrightarrow> s \<in> count ` set leaves)"
  proof cases
    case 1
    with ExtractBitLengths_nth [OF sym st] depth_bound [OF st] chain_code(2) [OF st n] s show ?thesis
      by (simp add: bl)
  next
    case 2
    with ExtractBitLengths_other [OF st 2] s show ?thesis by (simp add: bl)
  qed
  then show "ExtractBitLengths nd leaves bl ! s \<le> Suc k"
    and "0 < ExtractBitLengths nd leaves bl ! s \<longleftrightarrow> s \<in> count ` set leaves" by simp_all
qed

text \<open>Bit lengths for a table of frequencies: a code for exactly the symbols in use.\<close>

definition is_code_for :: "nat \<Rightarrow> nat list \<Rightarrow> nat list \<Rightarrow> bool" where
  "is_code_for maxbits fs bl \<longleftrightarrow> length bl = length fs \<and> code_lengths_ok maxbits bl \<and>
     (\<forall>s < length fs. 0 < bl ! s \<longleftrightarrow> fs ! s \<noteq> 0) \<and>
     (2 \<le> length (used_symbols fs) \<longrightarrow> kraft_sum maxbits bl = 2 ^ maxbits)"

lemma is_code_for_many:
  assumes q: "qsort_ok qsort" and fs: "\<forall>f \<in> set fs. f < 2 ^ 31" and K: "maxbits \<le> 31"
    and n: "2 \<le> length (used_symbols fs)" "length (used_symbols fs) \<le> 2 ^ maxbits"
  shows "is_code_for maxbits fs
    (let leaves = qsort (used_leaves 0 fs); n = length (used_symbols fs)
     in ExtractBitLengths (snd (run_BoundaryPM leaves maxbits (2 * n - 4) (InitLists leaves maxbits) ! (maxbits - 1)))
          leaves (replicate (length fs) 0))"
proof -
  define leaves where "leaves = qsort (used_leaves 0 fs)"
  let ?nd = "snd (run_BoundaryPM leaves maxbits (2 * length leaves - 4) (InitLists leaves maxbits) ! (maxbits - 1))"
  let ?zero = "replicate (length fs) 0" let ?bl = "ExtractBitLengths ?nd leaves ?zero"
  note props = qsort_leaves [OF q fs, folded leaves_def]
  obtain k where k: "maxbits = Suc k" using n by (cases maxbits) simp_all
  have ok: "leaves_ok (2 ^ 31) leaves" using props n(1) by (auto simp: leaves_ok_def)
  have st: "stands_for (length leaves) k (2 * length leaves - 2) ?nd"
    using last_chain [OF ok, of maxbits] props(2) n(2) K k by simp
  have sym: "symbols_ok leaves ?zero" using props(3,4) by (auto simp: symbols_ok_def used_symbols_def)
  have two: "2 \<le> length leaves" using n(1) props(2) by simp
  have "kraft_sum maxbits ?bl = 2 ^ maxbits" using extracted_kraft [OF sym refl st two] k by simp
  moreover have "?bl ! s \<le> maxbits" "0 < ?bl ! s \<longleftrightarrow> fs ! s \<noteq> 0" if "s < length fs" for s
    using extracted_lengths [OF sym refl st two that] props(4) that by (simp_all add: k used_symbols_def)
  ultimately have "is_code_for maxbits fs ?bl"
    by (auto simp: is_code_for_def code_lengths_ok_def in_set_conv_nth)
  then show ?thesis by (simp add: leaves_def Let_def props(2) [unfolded leaves_def])
qed

lemma used_leaves_length: "length (used_leaves 0 fs) = length (used_symbols fs)"
  by (simp add: used_leaves_eq used_symbols_def)

lemma used_symbols_0: "length (used_symbols fs) = 0 \<Longrightarrow> s < length fs \<Longrightarrow> fs ! s = 0"
  by (auto simp: used_symbols_def filter_empty_conv)

lemma used_symbols_1:
  assumes "length (used_symbols fs) = 1"
  obtains t where "used_symbols fs = [t]" "t < length fs" "\<And>s. s < length fs \<Longrightarrow> fs ! s \<noteq> 0 \<longleftrightarrow> s = t"
proof -
  obtain t where t: "used_symbols fs = [t]" using assms by (auto simp: length_Suc_conv)
  then have "set (used_symbols fs) = {t}" by simp
  then have "\<And>s. s < length fs \<and> fs ! s \<noteq> 0 \<longleftrightarrow> s = t" by (auto simp: used_symbols_def)
  with t show ?thesis using that by blast
qed

lemma kraft_sum_replicate [simp]: "kraft_sum M (replicate N 0) = 0"
  by (simp add: kraft_sum_def sum_list_replicate)

lemma is_code_for_none: "length (used_symbols fs) = 0 \<Longrightarrow> is_code_for maxbits fs (replicate (length fs) 0)"
  using used_symbols_0 [of fs] by (simp add: is_code_for_def code_lengths_ok_def)

lemma kraft_sum_single: "t < N \<Longrightarrow> kraft_sum M ((replicate N 0)[t := 1]) = 2 ^ (M - 1)"
proof -
  assume t: "t < N"
  have "(replicate N (0 :: nat))[t := 1] = replicate t 0 @ 1 # replicate (N - Suc t) 0"
    using t by (simp add: upd_conv_take_nth_drop)
  then show ?thesis by (simp add: kraft_sum_def sum_list_replicate)
qed

lemma is_code_for_one:
  assumes "length (used_symbols fs) = 1" and "0 < maxbits"
  shows "is_code_for maxbits fs ((replicate (length fs) 0)[count (used_leaves 0 fs ! 0) := 1])"
proof -
  obtain t where t: "used_symbols fs = [t]" "t < length fs" "\<And>s. s < length fs \<Longrightarrow> fs ! s \<noteq> 0 \<longleftrightarrow> s = t"
    using used_symbols_1 [OF assms(1)] by metis
  then have "count (used_leaves 0 fs ! 0) = t" unfolding used_leaves_eq used_symbols_def [symmetric] by simp
  moreover have "(2 :: nat) ^ (maxbits - 1) \<le> 2 ^ maxbits" by (intro power_increasing) simp_all
  ultimately show ?thesis
    using t assms set_update_subset_insert [of "replicate (length fs) 0" t "1 :: nat"] kraft_sum_single [OF t(2), of maxbits]
    by (auto simp: is_code_for_def code_lengths_ok_def nth_list_update)
qed

lemma CalculateBitLengths_code:
  assumes "qsort_ok qsort" and "\<forall>f \<in> set fs. f < 2 ^ 31" and "0 < maxbits" and "maxbits \<le> 31"
    and "length (used_symbols fs) \<le> 2 ^ maxbits"
  shows "\<exists>bl. ZopfliCalculateBitLengths qsort fs maxbits = Inr bl \<and> is_code_for maxbits fs bl"
proof -
  consider "length (used_symbols fs) = 0" | "length (used_symbols fs) = 1" | "2 \<le> length (used_symbols fs)" by linarith
  then show ?thesis
  proof cases
    case 3
    with is_code_for_many [OF assms(1,2,4) 3 assms(5)] assms(5) show ?thesis
      by (auto simp: ZopfliCalculateBitLengths_def ZopfliLengthLimitedCodeLengths_def used_leaves_length Let_def)
  qed (use assms(3,5) is_code_for_none is_code_for_one in
    \<open>auto simp: ZopfliCalculateBitLengths_def ZopfliLengthLimitedCodeLengths_def used_leaves_length Let_def\<close>)
qed

lemma CalculateBitLengths_aborts:
  assumes "2 ^ maxbits < length (used_symbols fs)"
  shows "ZopfliCalculateBitLengths qsort fs maxbits = Inl Assertion_failed"
  using assms by (simp add: ZopfliCalculateBitLengths_def ZopfliLengthLimitedCodeLengths_def used_leaves_length Let_def)

text \<open>
  C12. For any frequencies below \<open>2\<^sup>3\<^sup>1\<close> with at most \<open>2\<^sup>m\<^sup>a\<^sup>x\<^sup>b\<^sup>i\<^sup>t\<^sup>s\<close> symbols in use, \<^verbatim>\<open>ZopfliCalculateBitLengths\<close> returns
  lengths of at most \<open>maxbits\<close> bits, positive for exactly the symbols in use, that satisfy the Kraft
  inequality, and the Kraft equation where there are at least two symbols in use (a lone one gets length 1); and with the codes
  \<^verbatim>\<open>ZopfliLengthsToSymbols\<close> assigns to them, the code of every symbol in use decodes to that symbol
  whatever bits follow.
\<close>

theorem huffman_code_decodes:
  assumes "qsort_ok qsort" and "\<forall>f \<in> set fs. f < 2 ^ 31" and "0 < maxbits" and "maxbits \<le> 15"
    and "length (used_symbols fs) \<le> 2 ^ maxbits"
  shows "\<exists>bl symbols. ZopfliCalculateBitLengths qsort fs maxbits = Inr bl \<and> is_code_for maxbits fs bl \<and>
    ZopfliLengthsToSymbols bl maxbits = Inr symbols \<and>
    (\<forall>s < length fs. fs ! s \<noteq> 0 \<longrightarrow>
      (\<forall>rest. decode_symbol bl (msb_bits (symbols ! s) (bl ! s) @ rest) = Some (s, rest)))"
proof -
  obtain bl where bl: "ZopfliCalculateBitLengths qsort fs maxbits = Inr bl" "is_code_for maxbits fs bl"
    using CalculateBitLengths_code [OF assms(1-3) _ assms(5)] assms(4) by auto
  then have ok: "code_lengths_ok maxbits bl" by (simp add: is_code_for_def)
  let ?symbols = "map (\<lambda>i. if bl ! i = 0 then 0 else of_nat (canonical_code bl i)) [0..<length bl]"
  have "decode_symbol bl (msb_bits (?symbols ! s) (bl ! s) @ rest) = Some (s, rest)"
    if "s < length fs" "fs ! s \<noteq> 0" for s rest
    using decode_symbol_code [OF ok assms(4), of s rest] that bl(2) by (auto simp: is_code_for_def code_word_def)
  with bl LengthsToSymbols_canonical [OF ok assms(3,4)] show ?thesis by blast
qed

theorem huffman_code_decodes_witness:
  "\<exists>bl symbols. ZopfliCalculateBitLengths (sort_key weight) [5, 0, 1, 1, 9] 15 = Inr bl \<and> is_code_for 15 [5, 0, 1, 1, 9] bl \<and>
    ZopfliLengthsToSymbols bl 15 = Inr symbols \<and>
    (\<forall>s < length [5, 0, 1, 1, 9 :: nat]. [5, 0, 1, 1, 9] ! s \<noteq> (0 :: nat) \<longrightarrow>
      (\<forall>rest. decode_symbol bl (msb_bits (symbols ! s) (bl ! s) @ rest) = Some (s, rest)))"
  by (rule huffman_code_decodes [OF qsort_ok_sort_key]) (simp_all add: used_symbols_def upt_rec)

end
