(* ===== verification/Zopfli_Tree_Header.thy ===== *)
theory Zopfli_Tree_Header
  imports Zopfli_Store Zopfli_Katajainen
begin

text \<open>
  The header of a block with dynamic trees (\<^verbatim>\<open>deflate.cc\<close>): the code lengths of the two trees, run-length
  encoded and written with a Huffman code of their own, and that a decoder reads the same lengths
  back.
\<close>

section \<open>Operations\<close>

text \<open>The loop over the first 30 lengths, which stops at the second code.\<close>

fun num_dist_codes :: "nat list \<Rightarrow> nat \<Rightarrow> nat" where
  "num_dist_codes [] n = n"
| "num_dist_codes (l # ls) n = (let n = (if l \<noteq> 0 then n + 1 else n) in if n \<ge> 2 then n else num_dist_codes ls n)"

definition PatchDistanceCodesForBuggyDecoders :: "nat list \<Rightarrow> nat list" where
  "PatchDistanceCodesForBuggyDecoders d_lengths =
     (let n = num_dist_codes (take 30 d_lengths) 0
      in if n \<ge> 2 then d_lengths
         else if n = 0 then d_lengths[1 := 1, 0 := 1]
         else d_lengths[(if d_lengths ! 0 \<noteq> 0 then 1 else 0) := 1])"

definition cl_order :: "nat list" where
  "cl_order = [16, 17, 18, 0, 8, 7, 9, 6, 10, 5, 11, 4, 12, 3, 13, 2, 14, 1, 15]"

text \<open>The loops that trim zeros: \<open>trim f n\<close> lowers \<open>n\<close> while the last element is zero.\<close>

fun trim :: "(nat \<Rightarrow> nat) \<Rightarrow> nat \<Rightarrow> nat" where
  "trim f 0 = 0"
| "trim f (Suc n) = (if f n = 0 then trim f n else Suc n)"

text \<open>The runs of one length: a symbol and its extra bits each.\<close>

function emit_repeat :: "nat \<Rightarrow> nat \<Rightarrow> (nat \<times> nat) list" where
  "emit_repeat l rep =
     (if rep \<ge> 6 then (16, 6 - 3) # emit_repeat l (rep - 6)
      else if rep \<ge> 3 then (16, 3 - 3) # replicate (rep - 3) (l, 0)
      else replicate rep (l, 0))"
  by pat_completeness auto
termination by (relation "measure snd") auto

declare emit_repeat.simps [simp del]

definition run_length :: "nat list \<Rightarrow> nat" where
  "run_length ls = length (takeWhile (\<lambda>l. l = hd ls) ls)"

lemma run_length_pos [simp]: "0 < run_length (l # ls)"
  by (simp add: run_length_def)

function rle_encode :: "nat list \<Rightarrow> (nat \<times> nat) list" where
  "rle_encode [] = []"
| "rle_encode (l # ls) =
     (let cnt = run_length (l # ls)
      in if cnt \<ge> 4 \<or> cnt \<ge> 3 \<and> l = 0
         then if l = 0
              then if cnt > 10
                   then let cnt = (if cnt > 138 then 138 else cnt) in (18, cnt - 11) # rle_encode (drop cnt (l # ls))
                   else (17, cnt - 3) # rle_encode (drop cnt (l # ls))
              else (l, 0) # emit_repeat l (cnt - 1) @ rle_encode (drop cnt (l # ls))
         else (l, 0) # rle_encode ls)"
  by pat_completeness auto
termination by (relation "measure length") auto

declare rle_encode.simps(2) [simp del]

fun cl_counts :: "(nat \<times> nat) list \<Rightarrow> nat list \<Rightarrow> nat list" where
  "cl_counts [] counts = counts"
| "cl_counts ((s, e) # rle) counts = cl_counts rle (counts[s := counts ! s + 1])"

definition add_rle_symbol :: "nat list \<Rightarrow> uint32 list \<Rightarrow> nat \<times> nat \<Rightarrow> writer \<Rightarrow> writer" where
  "add_rle_symbol clcl clsymbols p w =
     (case p of (s, e) \<Rightarrow>
        let w = AddHuffmanBits (clsymbols ! s) (clcl ! s) w
        in if s = 16 then AddBits (of_nat e) 2 w
           else if s = 17 then AddBits (of_nat e) 3 w
           else if s = 18 then AddBits (of_nat e) 7 w
           else w)"

definition lld_lengths :: "nat list \<Rightarrow> nat list \<Rightarrow> nat \<Rightarrow> nat \<Rightarrow> nat list" where
  "lld_lengths ll_lengths d_lengths hlit hdist =
     map (\<lambda>i. if i < 257 + hlit then ll_lengths ! i else d_lengths ! (i - 257 - hlit)) [0..<hlit + 257 + hdist + 1]"

definition AddDynamicTree :: "(Node list \<Rightarrow> Node list) \<Rightarrow> nat list \<Rightarrow> nat list \<Rightarrow> writer \<Rightarrow> failure + writer" where
  "AddDynamicTree qsort ll_lengths d_lengths w =
     (let hlit = trim (\<lambda>h. ll_lengths ! (257 + h)) 29;
          hdist = trim (\<lambda>h. d_lengths ! (1 + h)) 29;
          lld = lld_lengths ll_lengths d_lengths hlit hdist
      in and_then (assertion (list_all (\<lambda>l. l < 16) lld)) (\<lambda>_.
         let rle = rle_encode lld
         in and_then (assertion (list_all (\<lambda>p. fst p \<le> 18) rle)) (\<lambda>_.
            let clcounts = cl_counts rle (replicate 19 0)
            in and_then (ZopfliCalculateBitLengths qsort clcounts 7) (\<lambda>clcl.
               and_then (ZopfliLengthsToSymbols clcl 7) (\<lambda>clsymbols.
               let hclen = trim (\<lambda>h. clcounts ! (cl_order ! (h + 4))) 15;
                   w = AddBits (of_nat hlit) 5 w;
                   w = AddBits (of_nat hdist) 5 w;
                   w = AddBits (of_nat hclen) 4 w;
                   w = fold (\<lambda>i. AddBits (of_nat (clcl ! (cl_order ! i))) 3) [0..<hclen + 4] w
               in Inr (fold (add_rle_symbol clcl clsymbols) rle w))))))"

definition CalculateTreeSize :: "(Node list \<Rightarrow> Node list) \<Rightarrow> nat list \<Rightarrow> nat list \<Rightarrow> failure + nat" where
  "CalculateTreeSize qsort ll_lengths d_lengths =
     and_then (AddDynamicTree qsort ll_lengths d_lengths new_writer) (\<lambda>w.
       Inr (length (out w) * 8 + unat (bp w AND 7)))"

section \<open>Run lengths\<close>

fun expand_all :: "(nat \<times> nat) list \<Rightarrow> nat list \<Rightarrow> nat list option" where
  "expand_all [] acc = Some acc"
| "expand_all (p # ps) acc = Option.bind (expand_length p acc) (expand_all ps)"

lemma expand_all_append: "expand_all (ps @ qs) acc = Option.bind (expand_all ps acc) (expand_all qs)"
proof (induction ps arbitrary: acc)
  case (Cons p ps)
  then show ?case by (cases "expand_length p acc") simp_all
qed simp

lemma expand_literals: "l < 16 \<Longrightarrow> expand_all (replicate n (l, 0)) acc = Some (acc @ replicate n l)"
  by (induction n arbitrary: acc) (simp_all add: expand_length_def)

lemma expand_repeat:
  "l < 16 \<Longrightarrow> acc \<noteq> [] \<Longrightarrow> List.last acc = l \<Longrightarrow> expand_all (emit_repeat l rep) acc = Some (acc @ replicate rep l)"
proof (induction l rep arbitrary: acc rule: emit_repeat.induct)
  case (1 l rep)
  show ?case
  proof (cases "6 \<le> rep")
    case True
    then have "replicate 6 l @ replicate (rep - 6) l = replicate rep l" by (simp flip: replicate_add)
    with True 1 show ?thesis
      by (subst emit_repeat.simps) (simp add: expand_length_def numeral_eq_Suc)
  next
    case False
    have "3 \<le> rep \<Longrightarrow> replicate 3 l @ replicate (rep - 3) l = replicate rep l" by (simp flip: replicate_add)
    with False 1 show ?thesis
      by (subst emit_repeat.simps) (auto simp: expand_length_def expand_literals)
  qed
qed

lemma run_prefix:
  assumes "n \<le> run_length ls" and "ls \<noteq> []"
  shows "ls = replicate n (hd ls) @ drop n ls"
proof -
  let ?t = "takeWhile (\<lambda>l. l = hd ls) ls"
  have "?t = replicate (run_length ls) (hd ls)"
    unfolding run_length_def by (rule replicate_length_same [symmetric]) (auto dest: set_takeWhileD)
  then have "take n ?t = replicate n (hd ls)" using assms(1) by (simp add: min_def)
  moreover have "take n ls = take n ?t"
    using assms(1) takeWhile_eq_take [of "\<lambda>l. l = hd ls" ls, folded run_length_def]
    by (metis min.absorb1 take_take)
  ultimately show ?thesis by (metis append_take_drop_id)
qed

text \<open>The symbols and extra bits of an encoding are those the format has.\<close>

definition rle_pair_ok :: "nat \<times> nat \<Rightarrow> bool" where
  "rle_pair_ok p \<longleftrightarrow> fst p \<le> 18 \<and> snd p < 2 ^ length_extra_bits (fst p)"

lemma emit_repeat_ok: "l < 16 \<Longrightarrow> (\<forall>p \<in> set (emit_repeat l rep). rle_pair_ok p) \<and> length (emit_repeat l rep) \<le> rep"
proof (induction l rep rule: emit_repeat.induct)
  case (1 l rep)
  show ?case
  proof (cases "6 \<le> rep")
    case True
    with 1 have "\<forall>p \<in> set (emit_repeat l (rep - 6)). rle_pair_ok p" "length (emit_repeat l (rep - 6)) \<le> rep - 6" by simp_all
    with True show ?thesis by (subst (1 2) emit_repeat.simps) (simp add: rle_pair_ok_def length_extra_bits_def)
  next
    case False
    with 1(2) show ?thesis by (subst (1 2) emit_repeat.simps) (auto simp: rle_pair_ok_def length_extra_bits_def)
  qed
qed

text \<open>One turn of the loop encodes the next \<open>n\<close> lengths.\<close>

lemma rle_step:
  assumes "l < 16"
  obtains n ps where "0 < n" "n \<le> run_length (l # ls)" "rle_encode (l # ls) = ps @ rle_encode (drop n (l # ls))"
    "\<And>acc. expand_all ps acc = Some (acc @ replicate n l)" "\<forall>p \<in> set ps. rle_pair_ok p" "length ps \<le> n" "ps \<noteq> []"
proof -
  let ?n = "run_length (l # ls)"
  let ?m = "if ?n > 138 then 138 else ?n"
  note def = rle_encode.simps(2) Let_def expand_length_def rle_pair_ok_def length_extra_bits_def
  consider (zeros) "?n > 10" "l = 0" | (few) "?n \<ge> 3" "?n \<le> 10" "l = 0" | (repeat) "?n \<ge> 4" "l \<noteq> 0"
    | (single) "\<not> (?n \<ge> 4 \<or> ?n \<ge> 3 \<and> l = 0)"
    by linarith
  then show ?thesis
  proof cases
    case zeros
    then show ?thesis by (intro that [of ?m "[(18, ?m - 11)]"]) (auto simp: def)
  next
    case few
    then show ?thesis by (intro that [of ?n "[(17, ?n - 3)]"]) (simp_all add: def)
  next
    case repeat
    then have "l # replicate (?n - 1) l = replicate ?n l" by (simp flip: replicate_Suc)
    with repeat assms emit_repeat_ok [OF assms, of "?n - 1"] expand_repeat [OF assms, of "_ @ [l]" "?n - 1"]
    show ?thesis by (intro that [of ?n "(l, 0) # emit_repeat l (?n - 1)"]) (auto simp: def)
  next
    case single
    with assms show ?thesis
      by (intro that [of 1 "[(l, 0)]"]) (auto simp: def Suc_le_eq)
  qed
qed

lemma rle_encode_expand:
  "\<forall>l \<in> set ls. l < 16 \<Longrightarrow> expand_all (rle_encode ls) acc = Some (acc @ ls) \<and>
     (\<forall>p \<in> set (rle_encode ls). rle_pair_ok p) \<and> length (rle_encode ls) \<le> length ls"
proof (induction "length ls" arbitrary: ls acc rule: less_induct)
  case less
  show ?case
  proof (cases ls)
    case (Cons l tl)
    with less.prems have "l < 16" by simp
    from rle_step [OF this, of tl] obtain n ps where n: "0 < n" "n \<le> run_length ls"
        "rle_encode ls = ps @ rle_encode (drop n ls)" "\<And>acc. expand_all ps acc = Some (acc @ replicate n l)"
        "\<forall>p \<in> set ps. rle_pair_ok p" "length ps \<le> n"
      unfolding Cons by metis
    have split: "ls = replicate n l @ drop n ls" using run_prefix [OF n(2)] Cons by simp
    have len: "length ls = n + length (drop n ls)" by (subst split) simp
    moreover have "\<forall>l \<in> set (drop n ls). l < 16" using less.prems in_set_dropD by fast
    ultimately have IH: "expand_all (rle_encode (drop n ls)) (acc @ replicate n l) = Some ((acc @ replicate n l) @ drop n ls) \<and>
        (\<forall>p \<in> set (rle_encode (drop n ls)). rle_pair_ok p) \<and> length (rle_encode (drop n ls)) \<le> length (drop n ls)"
      using n(1) by (intro less.hyps) simp_all
    then have "expand_all (ps @ rle_encode (drop n ls)) acc = Some ((acc @ replicate n l) @ drop n ls)"
      unfolding expand_all_append n(4) by simp
    also have "(acc @ replicate n l) @ drop n ls = acc @ ls" by (simp only: append_assoc split [symmetric])
    finally have "expand_all (ps @ rle_encode (drop n ls)) acc = Some (acc @ ls)" .
    moreover have "length (ps @ rle_encode (drop n ls)) \<le> length ls"
      unfolding length_append using IH n(6) len by linarith
    ultimately show ?thesis using IH n(5) unfolding n(3) set_append by blast
  qed simp
qed

section \<open>Writing and reading the lengths\<close>

lemma represents_fold:
  assumes "\<And>x w bs. x \<in> set xs \<Longrightarrow> represents w bs \<Longrightarrow> represents (f x w) (bs @ g x)" and "represents w bs"
  shows "represents (fold f xs w) (bs @ concat (map g xs))"
  using assms
proof (induction xs arbitrary: w bs)
  case (Cons x xs)
  have "represents (f x w) (bs @ g x)" using Cons.prems by simp
  from Cons.IH [OF _ this] Cons.prems(1) show ?case by simp
qed simp

definition rle_symbol_bits :: "nat list \<Rightarrow> uint32 list \<Rightarrow> nat \<times> nat \<Rightarrow> bool list" where
  "rle_symbol_bits clcl clsymbols p =
     msb_bits (clsymbols ! fst p) (clcl ! fst p) @ lsb_bits (of_nat (snd p)) (length_extra_bits (fst p))"

lemma represents_rle_symbol:
  "represents w bs \<Longrightarrow> represents (add_rle_symbol clcl clsymbols p w) (bs @ rle_symbol_bits clcl clsymbols p)"
  unfolding add_rle_symbol_def rle_symbol_bits_def length_extra_bits_def
  by (auto split: prod.splits simp: Let_def lsb_bits_def simp flip: append_assoc
      intro!: represents_AddBits [unfolded lsb_bits_def] represents_AddHuffmanBits)

definition canonical_symbols :: "nat list \<Rightarrow> uint32 list" where
  "canonical_symbols clcl = map (\<lambda>i. if clcl ! i = 0 then 0 else of_nat (canonical_code clcl i)) [0..<length clcl]"

lemma expand_length_grows: "expand_length p acc = Some acc' \<Longrightarrow> length acc < length acc'"
  by (auto simp: expand_length_def split: prod.splits if_splits)

lemma expand_all_grows: "expand_all ps acc = Some acc' \<Longrightarrow> length acc + length ps \<le> length acc'"
proof (induction ps arbitrary: acc)
  case (Cons p ps)
  then obtain acc2 where "expand_length p acc = Some acc2" "expand_all ps acc2 = Some acc'"
    by (auto simp: bind_eq_Some_conv)
  with Cons.IH [of acc2] expand_length_grows [of p acc acc2] show ?case by simp
qed simp

lemma read_lengths_rle:
  assumes cl: "code_lengths_ok 7 clcl" "length clcl = 19"
    and ps: "\<forall>p \<in> set ps. rle_pair_ok p \<and> 0 < clcl ! fst p" and full: "expand_all ps acc = Some lens"
  shows "read_lengths clcl (length lens) (concat (map (rle_symbol_bits clcl (canonical_symbols clcl)) ps) @ rest) acc = Some (lens, rest)"
  using ps full
proof (induction ps arbitrary: acc)
  case Nil
  then show ?case by (subst read_lengths.simps) simp
next
  case (Cons p ps)
  obtain s e where p: "p = (s, e)" by (cases p)
  have s: "s < length clcl" "0 < clcl ! s" "e < 2 ^ length_extra_bits s" "length_extra_bits s \<le> 32"
    using Cons.prems(1) cl(2) by (auto simp: p rle_pair_ok_def length_extra_bits_def)
  obtain acc2 where acc2: "expand_length p acc = Some acc2" "expand_all ps acc2 = Some lens"
    using Cons.prems(2) by (auto simp: bind_eq_Some_conv)
  have more: "length acc < length lens"
    using expand_length_grows [OF acc2(1)] expand_all_grows [OF acc2(2)] by simp
  have word: "msb_bits (canonical_symbols clcl ! s) (clcl ! s) = code_word clcl s"
    using s by (simp add: canonical_symbols_def code_word_def)
  have "decode_symbol clcl (code_word clcl s @ bs) = Some (s, bs)" for bs
    by (rule decode_symbol_code [OF cl(1)]) (use s in simp_all)
  moreover have "rle_symbol_bits clcl (canonical_symbols clcl) p = code_word clcl s @ lsb_bits (of_nat e) (length_extra_bits s)"
    by (simp add: p rle_symbol_bits_def word)
  ultimately show ?case using more s acc2 Cons by (subst read_lengths.simps) (simp add: p)
qed

lemma cl_counts_nth:
  "\<forall>p \<in> set rle. fst p < length counts \<Longrightarrow> s < length counts \<Longrightarrow>
     length (cl_counts rle counts) = length counts \<and> cl_counts rle counts ! s = counts ! s + count_list (map fst rle) s"
  by (induction rle counts rule: cl_counts.induct) (auto simp: nth_list_update)

lemma trim_bound: "trim f n \<le> n"
  by (induction n) simp_all

lemma trim_zero: "trim f n \<le> i \<Longrightarrow> i < n \<Longrightarrow> f i = 0"
  by (induction n) (auto simp: less_Suc_eq split: if_splits)

lemma read_code_lengths_bits:
  assumes "\<forall>j \<in> set js. f j < 8"
  shows "read_code_lengths js (concat (map (\<lambda>j. lsb_bits (of_nat (f j)) 3) js) @ rest) cl =
    Some (fold (\<lambda>j cl. cl[j := f j]) js cl, rest)"
  using assms by (induction js arbitrary: cl) simp_all

lemma fold_update_nth:
  "j < length cl \<Longrightarrow> fold (\<lambda>j cl. cl[j := f j]) js cl ! j = (if j \<in> set js then f j else cl ! j)"
  by (induction js arbitrary: cl) (auto simp: nth_list_update)

lemma fold_update_length [simp]: "length (fold (\<lambda>j cl. cl[j := f j]) js cl) = length cl"
  by (induction js arbitrary: cl) simp_all

lemma cl_order_all: "j < 19 \<Longrightarrow> \<exists>i < 19. cl_order ! i = j"
proof -
  have "set cl_order = {..<19}" by (simp add: cl_order_def lessThan_nat_numeral lessThan_Suc) auto
  moreover have "length cl_order = 19" by (simp add: cl_order_def)
  moreover assume "j < 19"
  ultimately show ?thesis by (metis in_set_conv_nth lessThan_iff)
qed

lemma read_trimmed_code_lengths:
  assumes len: "length clcl = 19" and small: "\<forall>l \<in> set clcl. l \<le> 7" and h: "h \<le> 15"
    and zero: "\<And>i. h \<le> i \<Longrightarrow> i < 15 \<Longrightarrow> clcl ! (cl_order ! (i + 4)) = 0"
  shows "read_code_lengths (take (h + 4) code_length_order)
      (concat (map (\<lambda>i. lsb_bits (of_nat (clcl ! (cl_order ! i))) 3) [0..<h + 4]) @ rest) (replicate 19 0) = Some (clcl, rest)"
proof -
  let ?js = "take (h + 4) cl_order"
  have olen: "length cl_order = 19" by (simp add: cl_order_def)
  have order: "code_length_order = cl_order" by (simp add: cl_order_def code_length_order_def)
  have js: "?js = map (\<lambda>i. cl_order ! i) [0..<h + 4]"
    by (rule nth_equalityI) (use h olen in \<open>simp_all del: upt_Suc\<close>)
  have "set cl_order \<subseteq> {..<19}" by (simp add: cl_order_def)
  then have range: "\<forall>j \<in> set ?js. j < 19" by (auto dest!: in_set_takeD)
  have "clcl ! j < 8" if "j < 19" for j using small len that nth_mem [of j clcl] by fastforce
  then have "read_code_lengths ?js (concat (map (\<lambda>j. lsb_bits (of_nat (clcl ! j)) 3) ?js) @ rest) (replicate 19 0) =
      Some (fold (\<lambda>j cl. cl[j := clcl ! j]) ?js (replicate 19 0), rest)"
    using range by (intro read_code_lengths_bits) auto
  moreover have "fold (\<lambda>j cl. cl[j := clcl ! j]) ?js (replicate 19 0) = clcl"
  proof (rule nth_equalityI)
    fix j
    assume "j < length (fold (\<lambda>j cl. cl[j := clcl ! j]) ?js (replicate 19 0))"
    then have j: "j < 19" by simp
    obtain i where i: "i < 19" "cl_order ! i = j" using cl_order_all [OF j] by blast
    have "clcl ! j = 0" if "j \<notin> set ?js"
    proof -
      have "h + 4 \<le> i"
        using that i olen by (metis in_set_conv_nth length_take min_less_iff_conj not_less nth_take)
      then show ?thesis using zero [of "i - 4"] i by simp
    qed
    then show "fold (\<lambda>j cl. cl[j := clcl ! j]) ?js (replicate 19 0) ! j = clcl ! j"
      using j by (simp add: fold_update_nth)
  qed (simp add: len)
  moreover have "map (\<lambda>i. lsb_bits (of_nat (clcl ! (cl_order ! i))) 3) [0..<h + 4] = map (\<lambda>j. lsb_bits (of_nat (clcl ! j)) 3) ?js"
    unfolding js by simp
  ultimately show ?thesis unfolding order by simp
qed

lemma lld_lengths_eq:
  assumes "length ll = 288" and "length dl = 32" and "hlit \<le> 29" and "hdist \<le> 29"
  shows "lld_lengths ll dl hlit hdist = take (hlit + 257) ll @ take (hdist + 1) dl"
  by (rule nth_equalityI) (use assms in \<open>simp_all add: lld_lengths_def nth_append add.commute del: upt_Suc\<close>)

lemma pad_trimmed:
  assumes "\<And>i. k \<le> i \<Longrightarrow> i < length ls \<Longrightarrow> ls ! i = 0" and "length ls = n"
  shows "pad_lengths n (take k ls) = ls"
  by (rule nth_equalityI) (use assms in \<open>auto simp: pad_lengths_def nth_append min_def\<close>)

section \<open>The header as a whole\<close>

text \<open>Lengths a header can hold: the symbols the format does not define have no code.\<close>

definition tree_lengths_ok :: "nat list \<Rightarrow> nat list \<Rightarrow> bool" where
  "tree_lengths_ok ll dl \<longleftrightarrow> length ll = 288 \<and> length dl = 32 \<and> (\<forall>l \<in> set ll \<union> set dl. l < 16) \<and>
     ll ! 286 = 0 \<and> ll ! 287 = 0 \<and> dl ! 30 = 0 \<and> dl ! 31 = 0"

lemma trimmed_lengths:
  assumes "tree_lengths_ok ll dl"
  defines "hlit \<equiv> trim (\<lambda>h. ll ! (257 + h)) 29" and "hdist \<equiv> trim (\<lambda>h. dl ! (1 + h)) 29"
  shows "hlit \<le> 29" and "hdist \<le> 29"
    and "pad_lengths 288 (take (hlit + 257) (lld_lengths ll dl hlit hdist)) = ll"
    and "pad_lengths 32 (drop (hlit + 257) (lld_lengths ll dl hlit hdist)) = dl"
    and "\<forall>l \<in> set (lld_lengths ll dl hlit hdist). l < 16"
    and "length (lld_lengths ll dl hlit hdist) = hlit + 257 + hdist + 1"
proof -
  show h: "hlit \<le> 29" "hdist \<le> 29" by (simp_all add: hlit_def hdist_def trim_bound)
  have len: "length ll = 288" "length dl = 32" using assms(1) by (simp_all add: tree_lengths_ok_def)
  note eq = lld_lengths_eq [OF len h]
  show "length (lld_lengths ll dl hlit hdist) = hlit + 257 + hdist + 1" by (simp add: lld_lengths_def)
  have "ll ! i = 0" if "hlit + 257 \<le> i" "i < 288" for i
  proof (cases "i < 286")
    case True
    with that trim_zero [of "\<lambda>h. ll ! (257 + h)" 29 "i - 257", folded hlit_def] show ?thesis by simp
  next
    case False
    with that have "i = 286 \<or> i = 287" by auto
    with assms(1) show ?thesis by (auto simp: tree_lengths_ok_def)
  qed
  then have "pad_lengths 288 (take (hlit + 257) ll) = ll" by (intro pad_trimmed) (simp_all add: len)
  then show "pad_lengths 288 (take (hlit + 257) (lld_lengths ll dl hlit hdist)) = ll"
    using h by (simp add: eq len)
  have "dl ! i = 0" if "hdist + 1 \<le> i" "i < 32" for i
  proof (cases "i < 30")
    case True
    with that trim_zero [of "\<lambda>h. dl ! (1 + h)" 29 "i - 1", folded hdist_def] show ?thesis by simp
  next
    case False
    with that have "i = 30 \<or> i = 31" by auto
    with assms(1) show ?thesis by (auto simp: tree_lengths_ok_def)
  qed
  then have "pad_lengths 32 (take (hdist + 1) dl) = dl" by (intro pad_trimmed) (simp_all add: len)
  then show "pad_lengths 32 (drop (hlit + 257) (lld_lengths ll dl hlit hdist)) = dl"
    using h by (simp add: eq len)
  show "\<forall>l \<in> set (lld_lengths ll dl hlit hdist). l < 16"
    using assms(1) unfolding eq tree_lengths_ok_def by (auto dest!: in_set_takeD)
qed

text \<open>The code of the code lengths.\<close>

lemma cl_code_exists:
  assumes q: "qsort_ok qsort" and ps: "\<forall>p \<in> set rle. rle_pair_ok p" "length rle < 2 ^ 31"
  obtains clcl where "ZopfliCalculateBitLengths qsort (cl_counts rle (replicate 19 0)) 7 = Inr clcl"
    "ZopfliLengthsToSymbols clcl 7 = Inr (canonical_symbols clcl)" "code_lengths_ok 7 clcl" "length clcl = 19"
    "\<forall>p \<in> set rle. 0 < clcl ! fst p" "\<And>s. s < 19 \<Longrightarrow> cl_counts rle (replicate 19 0) ! s = 0 \<Longrightarrow> clcl ! s = 0"
proof -
  let ?counts = "cl_counts rle (replicate 19 0)"
  have range: "\<forall>p \<in> set rle. fst p < length (replicate 19 (0 :: nat))" using ps(1) by (auto simp: rle_pair_ok_def)
  have len: "length ?counts = 19" using cl_counts_nth [OF range, of 0] by simp
  have nth: "?counts ! s = count_list (map fst rle) s" if "s < 19" for s
    using cl_counts_nth [OF range, of s] that by simp
  have "f < 2 ^ 31" if f: "f \<in> set ?counts" for f
  proof -
    obtain s where "s < 19" "f = count_list (map fst rle) s" using f len nth by (auto simp: in_set_conv_nth)
    then have "f \<le> length rle" using count_le_length [of "map fst rle" s] by simp
    with ps(2) show ?thesis by simp
  qed
  moreover have "length (used_symbols ?counts) \<le> 2 ^ 7"
    using length_filter_le [of "\<lambda>s. ?counts ! s \<noteq> 0" "[0..<19]"] by (simp add: used_symbols_def len)
  ultimately obtain clcl where clcl: "ZopfliCalculateBitLengths qsort ?counts 7 = Inr clcl" "is_code_for 7 ?counts clcl"
    using CalculateBitLengths_code [OF q, of ?counts 7] by auto
  show ?thesis
  proof (rule that [OF clcl(1)])
    show ok: "code_lengths_ok 7 clcl" "length clcl = 19" using clcl(2) len by (simp_all add: is_code_for_def)
    show "ZopfliLengthsToSymbols clcl 7 = Inr (canonical_symbols clcl)"
      unfolding canonical_symbols_def by (rule LengthsToSymbols_canonical [OF ok(1)]) simp_all
    show "\<forall>p \<in> set rle. 0 < clcl ! fst p"
    proof
      fix p
      assume p: "p \<in> set rle"
      then have "fst p < 19" "count_list (map fst rle) (fst p) \<noteq> 0"
        using ps(1) by (auto simp: rle_pair_ok_def count_list_0_iff)
      then show "0 < clcl ! fst p" using clcl(2) nth len by (simp add: is_code_for_def)
    qed
    show "clcl ! s = 0" if "s < 19" "?counts ! s = 0" for s
      using clcl(2) that len by (auto simp: is_code_for_def)
  qed
qed

lemma AddDynamicTree_decodes:
  assumes q: "qsort_ok qsort" and ok: "tree_lengths_ok ll dl"
  shows "\<exists>tb. (\<forall>w. \<exists>w'. AddDynamicTree qsort ll dl w = Inr w' \<and> (\<forall>bs. represents w bs \<longrightarrow> represents w' (bs @ tb))) \<and>
    (\<forall>rest. inflate_trees (tb @ rest) = Some ((ll, dl), rest))"
proof -
  define hlit hdist where "hlit = trim (\<lambda>h. ll ! (257 + h)) 29" and "hdist = trim (\<lambda>h. dl ! (1 + h)) 29"
  note t = trimmed_lengths [OF ok, folded hlit_def hdist_def]
  let ?lld = "lld_lengths ll dl hlit hdist"
  define rle where "rle = rle_encode ?lld"
  have rle: "expand_all rle [] = Some ?lld" "\<forall>p \<in> set rle. rle_pair_ok p" "length rle \<le> length ?lld"
    using rle_encode_expand [OF t(5), of "[]"] by (simp_all add: rle_def)
  have "length rle < 2 ^ 31" using rle(3) t(1,2,6) by simp
  then obtain clcl where clcl: "ZopfliCalculateBitLengths qsort (cl_counts rle (replicate 19 0)) 7 = Inr clcl"
      "ZopfliLengthsToSymbols clcl 7 = Inr (canonical_symbols clcl)" "code_lengths_ok 7 clcl" "length clcl = 19"
      "\<forall>p \<in> set rle. 0 < clcl ! fst p" "\<And>s. s < 19 \<Longrightarrow> cl_counts rle (replicate 19 0) ! s = 0 \<Longrightarrow> clcl ! s = 0"
    using cl_code_exists [OF q rle(2)] by metis
  define hclen where "hclen = trim (\<lambda>h. cl_counts rle (replicate 19 0) ! (cl_order ! (h + 4))) 15"
  have hclen: "hclen \<le> 15" by (simp add: hclen_def trim_bound)
  let ?lens = "concat (map (\<lambda>i. lsb_bits (of_nat (clcl ! (cl_order ! i))) 3) [0..<hclen + 4])"
  let ?rle = "concat (map (rle_symbol_bits clcl (canonical_symbols clcl)) rle)"
  let ?tb = "lsb_bits (of_nat hlit) 5 @ lsb_bits (of_nat hdist) 5 @ lsb_bits (of_nat hclen) 4 @ ?lens @ ?rle"
  let ?w = "\<lambda>w. fold (add_rle_symbol clcl (canonical_symbols clcl)) rle
      (fold (\<lambda>i. AddBits (of_nat (clcl ! (cl_order ! i))) 3) [0..<hclen + 4]
        (AddBits (of_nat hclen) 4 (AddBits (of_nat hdist) 5 (AddBits (of_nat hlit) 5 w))))"
  have "list_all (\<lambda>l. l < 16) ?lld" "list_all (\<lambda>p. fst p \<le> 18) rle"
    using t(5) rle(2) by (auto simp: list_all_iff rle_pair_ok_def)
  then have run: "AddDynamicTree qsort ll dl w = Inr (?w w)" for w
    using clcl(1,2) unfolding AddDynamicTree_def Let_def hlit_def [symmetric] hdist_def [symmetric]
      rle_def [symmetric] hclen_def [symmetric]
    by (simp del: upt_Suc)
  have "represents (?w w) (((((bs @ lsb_bits (of_nat hlit) 5) @ lsb_bits (of_nat hdist) 5) @ lsb_bits (of_nat hclen) 4) @ ?lens) @ ?rle)"
    if "represents w bs" for w bs
    by (intro represents_fold represents_rle_symbol represents_AddBits that)
  then have written: "represents (?w w) (bs @ ?tb)" if "represents w bs" for w bs using that by simp
  have zero: "clcl ! (cl_order ! (i + 4)) = 0" if i: "hclen \<le> i" "i < 15" for i
  proof (rule clcl(6))
    have "set cl_order \<subseteq> {..<19}" "length cl_order = 19" by (simp_all add: cl_order_def)
    moreover from this have "cl_order ! (i + 4) \<in> set cl_order" using i(2) by (intro nth_mem) simp
    ultimately show "cl_order ! (i + 4) < 19" by blast
    show "cl_counts rle (replicate 19 0) ! (cl_order ! (i + 4)) = 0"
      using trim_zero i unfolding hclen_def by blast
  qed
  have "\<forall>l \<in> set clcl. l \<le> 7" using clcl(3) by (simp add: code_lengths_ok_def)
  note cls = read_trimmed_code_lengths [OF clcl(4) this hclen zero]
  have "\<forall>p \<in> set rle. rle_pair_ok p \<and> 0 < clcl ! fst p" using rle(2) clcl(5) by blast
  note lens = read_lengths_rle [OF clcl(3,4) this rle(1), unfolded t(6)]
  have "hlit < 2 ^ 5" "hdist < 2 ^ 5" "hclen < 2 ^ 4" using t(1,2) hclen by simp_all
  then have "inflate_trees (?tb @ rest) = Some ((ll, dl), rest)" for rest
    using cls [of "?rle @ rest"] lens [of rest] t(3,4)
    by (simp add: inflate_trees_def del: upt_Suc add_Suc_right)
  with run written show ?thesis by (intro exI [of _ ?tb]) blast
qed

text \<open>
  The size a header is given: the comment calls it exact, but the last byte is counted in full and its
  used bits once more, unless the header ends with a full byte.
\<close>

lemma CalculateTreeSize_bits:
  assumes q: "qsort_ok qsort" and ok: "tree_lengths_ok ll dl"
  shows "\<exists>tb. (\<forall>rest. inflate_trees (tb @ rest) = Some ((ll, dl), rest)) \<and>
    CalculateTreeSize qsort ll dl = Inr (length tb + (if length tb mod 8 = 0 then 0 else 8))"
proof -
  obtain tb w where tb: "AddDynamicTree qsort ll dl new_writer = Inr w" "represents w tb"
      "\<forall>rest. inflate_trees (tb @ rest) = Some ((ll, dl), rest)"
    using AddDynamicTree_decodes [OF q ok] represents_new by (metis append_Nil)
  have "length (out w) = (length tb + 7) div 8" "unat (bp w AND 7) = length tb mod 8"
    using tb(2) by (simp_all add: represents_def and_7)
  then have "length (out w) * 8 + unat (bp w AND 7) = length tb + (if length tb mod 8 = 0 then 0 else 8)"
    unfolding bytes_needed by (simp add: add.assoc)
  with tb show ?thesis by (auto simp: CalculateTreeSize_def)
qed

section \<open>Two distance codes\<close>

lemma num_dist_codes_eq:
  "n < 2 \<Longrightarrow> num_dist_codes ls n = min 2 (n + length (filter (\<lambda>l. l \<noteq> 0) ls))"
  by (induction ls n rule: num_dist_codes.induct) (auto simp: Let_def min_def)

lemma filter_zero_tail:
  assumes "\<And>i. k \<le> i \<Longrightarrow> i < length ls \<Longrightarrow> ls ! i = (0 :: nat)"
  shows "filter (\<lambda>l. l \<noteq> 0) (take k ls) = filter (\<lambda>l. l \<noteq> 0) ls"
proof -
  have "filter (\<lambda>l. l \<noteq> 0) (drop k ls) = []"
    using assms by (auto simp: filter_empty_conv in_set_conv_nth)
  then show ?thesis by (metis append_Nil2 append_take_drop_id filter_append)
qed

lemma kraft_sum_none: "filter (\<lambda>l. l \<noteq> 0) ls = [] \<Longrightarrow> kraft_sum M ls = 0"
  by (induction ls) (auto split: if_splits)

lemma kraft_sum_le_one:
  "length (filter (\<lambda>l. l \<noteq> 0) ls) \<le> 1 \<Longrightarrow> kraft_sum 15 ls \<le> 2 ^ 14"
proof (induction ls)
  case (Cons l ls)
  show ?case
  proof (cases "l = 0")
    case False
    with Cons.prems have "kraft_sum 15 ls = 0" by (intro kraft_sum_none) simp
    moreover have "(2 :: nat) ^ (15 - l) \<le> 2 ^ 14" using False by (intro power_increasing) simp_all
    ultimately show ?thesis using False by simp
  qed (use Cons in simp)
qed simp

lemma Patch_code:
  assumes ok: "code_lengths_ok 15 dl" and len: "length dl = 32" and zero: "dl ! 30 = 0" "dl ! 31 = 0"
  defines "dl' \<equiv> PatchDistanceCodesForBuggyDecoders dl"
  shows "code_lengths_ok 15 dl'" and "length dl' = 32" and "dl' ! 30 = 0" and "dl' ! 31 = 0"
    and "s < 32 \<Longrightarrow> 0 < dl ! s \<Longrightarrow> 0 < dl' ! s"
    and "2 \<le> length (filter (\<lambda>l. l \<noteq> 0) dl')"
proof -
  obtain x y r where dl: "dl = x # y # r" using len by (cases dl; cases "tl dl") auto
  have "i = 30 \<or> i = 31" if "30 \<le> i" "i < length dl" for i using that len by auto
  then have "filter (\<lambda>l. l \<noteq> 0) (take 30 dl) = filter (\<lambda>l. l \<noteq> 0) dl"
    using zero by (intro filter_zero_tail) metis
  define n where "n = length (filter (\<lambda>l. l \<noteq> 0) dl)"
  with \<open>filter _ (take 30 dl) = _\<close> have "num_dist_codes (take 30 dl) 0 = min 2 n"
    by (simp add: num_dist_codes_eq)
  then have patched: "dl' = (if 2 \<le> n then dl else if n = 0 then 1 # 1 # r else if x \<noteq> 0 then x # 1 # r else 1 # y # r)"
    by (simp add: dl'_def PatchDistanceCodesForBuggyDecoders_def dl min_def)
  have cases: "2 \<le> n \<and> dl' = dl \<or> n = 1 \<and> x \<noteq> 0 \<and> dl' = x # 1 # r \<or> n = 1 \<and> x = 0 \<and> dl' = 1 # y # r \<or>
      n = 0 \<and> dl' = 1 # 1 # r"
    unfolding patched by auto
  have lens: "\<forall>l \<in> set dl. l \<le> 15" using ok by (simp add: code_lengths_ok_def)
  have "kraft_sum 15 dl' \<le> 2 ^ 15"
    using cases
  proof (elim disjE conjE)
    assume "n = 1" "x \<noteq> 0" "dl' = x # 1 # r"
    moreover from this have "kraft_sum 15 dl \<le> 2 ^ 14" unfolding n_def by (intro kraft_sum_le_one) simp
    moreover have "y = 0" using \<open>n = 1\<close> \<open>x \<noteq> 0\<close> by (auto simp: n_def dl split: if_splits)
    ultimately show ?thesis by (simp add: dl)
  next
    assume "n = 1" "x = 0" "dl' = 1 # y # r"
    moreover from this have "kraft_sum 15 dl \<le> 2 ^ 14" unfolding n_def by (intro kraft_sum_le_one) simp
    ultimately show ?thesis by (simp add: dl)
  next
    assume "n = 0" "dl' = 1 # 1 # r"
    moreover from this have "kraft_sum 15 dl = 0" unfolding n_def by (intro kraft_sum_none) simp
    ultimately show ?thesis by (simp add: dl split: if_splits)
  qed (use ok in \<open>simp add: code_lengths_ok_def\<close>)
  moreover have "\<forall>l \<in> set dl'. l \<le> 15" using cases lens by (auto simp: dl)
  ultimately show "code_lengths_ok 15 dl'" by (simp add: code_lengths_ok_def)
  show "length dl' = 32" "dl' ! 30 = 0" "dl' ! 31 = 0" using cases len zero by (auto simp: dl)
  show "0 < dl' ! s" if "s < 32" "0 < dl ! s" using cases that by (auto simp: dl nth_Cons split: nat.splits)
  show "2 \<le> length (filter (\<lambda>l. l \<noteq> 0) dl')" using cases by (auto simp: dl n_def split: if_splits)
qed

section \<open>Properties\<close>

text \<open>
  C14. The header of a dynamic block round-trips: for any two tables of code lengths below 16 in which the
  symbols the format leaves out have none, \<^verbatim>\<open>AddDynamicTree\<close> returns, the bits it appends do not depend on
  what was written before, and a decoder reads exactly the two tables back from them, leaving
  the bits that follow.
\<close>

theorem dynamic_tree_roundtrip:
  assumes "qsort_ok qsort" and "tree_lengths_ok ll dl"
  shows "\<exists>tb. (\<forall>w. \<exists>w'. AddDynamicTree qsort ll dl w = Inr w' \<and> (\<forall>bs. represents w bs \<longrightarrow> represents w' (bs @ tb))) \<and>
    (\<forall>rest. inflate_trees (tb @ rest) = Some ((ll, dl), rest))"
  by (rule AddDynamicTree_decodes [OF assms])

theorem dynamic_tree_roundtrip_witness:
  "\<exists>tb. (\<forall>w. \<exists>w'. AddDynamicTree (sort_key weight) (replicate 286 8 @ [0, 0]) (replicate 30 5 @ [0, 0]) w = Inr w' \<and>
      (\<forall>bs. represents w bs \<longrightarrow> represents w' (bs @ tb))) \<and>
    (\<forall>rest. inflate_trees (tb @ rest) = Some ((replicate 286 8 @ [0, 0], replicate 30 5 @ [0, 0]), rest))"
  by (rule dynamic_tree_roundtrip [OF qsort_ok_sort_key]) (simp add: tree_lengths_ok_def nth_append)

text \<open>
  The size of a header is not exact, as the comment of \<^verbatim>\<open>CalculateTreeSize\<close> has it: for a header of \<open>n\<close> bits it
  is \<open>n\<close> where \<open>n\<close> is a multiple of 8 and \<open>n + 8\<close> otherwise.
\<close>

theorem tree_size_overcounts:
  assumes "qsort_ok qsort" and "tree_lengths_ok ll dl"
  shows "\<exists>tb. (\<forall>rest. inflate_trees (tb @ rest) = Some ((ll, dl), rest)) \<and>
    CalculateTreeSize qsort ll dl = Inr (length tb + (if length tb mod 8 = 0 then 0 else 8))"
  by (rule CalculateTreeSize_bits [OF assms])

theorem tree_size_overcounts_witness:
  "\<exists>tb. (\<forall>rest. inflate_trees (tb @ rest) = Some ((replicate 286 8 @ [0, 0], replicate 30 5 @ [0, 0]), rest)) \<and>
    CalculateTreeSize (sort_key weight) (replicate 286 8 @ [0, 0]) (replicate 30 5 @ [0, 0]) =
      Inr (length tb + (if length tb mod 8 = 0 then 0 else 8))"
  by (rule tree_size_overcounts [OF qsort_ok_sort_key]) (simp add: tree_lengths_ok_def nth_append)

end
