(* ===== verification/Zopfli_Blocks.thy ===== *)
theory Zopfli_Blocks
  imports Zopfli_Tree_Header
begin

text \<open>
  Single DEFLATE blocks (\<^verbatim>\<open>deflate.cc\<close>): the data of an LZ77 block, blocks with fixed and with dynamic trees,
  stored blocks, and the size a block is estimated at; and that a decoder turns each block into the
  bytes it stands for. Messages of the verbose mode are left out.
\<close>

section \<open>Operations\<close>

fun AddLZ77Data_loop :: "(nat \<times> nat) list \<Rightarrow> uint32 list \<Rightarrow> nat list \<Rightarrow> uint32 list \<Rightarrow> nat list \<Rightarrow> nat \<Rightarrow> writer \<Rightarrow>
    failure + nat \<times> writer" where
  "AddLZ77Data_loop [] ll_symbols ll_lengths d_symbols d_lengths testlength w = Inr (testlength, w)"
| "AddLZ77Data_loop ((litlen, dist) # items) ll_symbols ll_lengths d_symbols d_lengths testlength w =
     (if dist = 0
      then and_then (assertion (litlen < 256)) (\<lambda>_.
           and_then (assertion (ll_lengths ! litlen > 0)) (\<lambda>_.
           AddLZ77Data_loop items ll_symbols ll_lengths d_symbols d_lengths (testlength + 1)
             (AddHuffmanBits (ll_symbols ! litlen) (ll_lengths ! litlen) w)))
      else if litlen \<ge> 259 then Inl Out_of_range
      else let lls = ZopfliGetLengthSymbol litlen;
               ds = nat (ZopfliGetDistSymbol (int dist))
           in and_then (assertion (litlen \<ge> 3 \<and> litlen \<le> 288)) (\<lambda>_.
              and_then (assertion (ll_lengths ! lls > 0)) (\<lambda>_.
              and_then (assertion (d_lengths ! ds > 0)) (\<lambda>_.
              let w = AddHuffmanBits (ll_symbols ! lls) (ll_lengths ! lls) w;
                  w = AddBits (of_nat (ZopfliGetLengthExtraBitsValue litlen)) (ZopfliGetLengthExtraBits litlen) w;
                  w = AddHuffmanBits (d_symbols ! ds) (d_lengths ! ds) w;
                  w = AddBits (of_int (ZopfliGetDistExtraBitsValue (int dist))) (nat (ZopfliGetDistExtraBits (int dist))) w
              in AddLZ77Data_loop items ll_symbols ll_lengths d_symbols d_lengths (testlength + litlen) w))))"

definition AddLZ77Data :: "nat list \<Rightarrow> nat list \<Rightarrow> nat \<Rightarrow> nat \<Rightarrow> nat \<Rightarrow> uint32 list \<Rightarrow> nat list \<Rightarrow> uint32 list \<Rightarrow> nat list \<Rightarrow>
    writer \<Rightarrow> failure + writer" where
  "AddLZ77Data lls ds lstart lend expected_data_size ll_symbols ll_lengths d_symbols d_lengths w =
     and_then (AddLZ77Data_loop (lz_items lls ds lstart lend) ll_symbols ll_lengths d_symbols d_lengths 0 w) (\<lambda>(testlength, w).
     and_then (assertion (expected_data_size = 0 \<or> testlength = expected_data_size)) (\<lambda>_. Inr w))"

definition GetFixedTree :: "nat list \<times> nat list" where
  "GetFixedTree =
     (map (\<lambda>i. if i < 144 then 8 else if i < 256 then 9 else if i < 280 then 7 else 8) [0..<288], map (\<lambda>i. 5) [0..<32])"

fun symbol_size_loop :: "(nat \<times> nat) list \<Rightarrow> nat list \<Rightarrow> nat list \<Rightarrow> nat \<Rightarrow> failure + nat" where
  "symbol_size_loop [] ll_lengths d_lengths result = Inr result"
| "symbol_size_loop ((litlen, dist) # items) ll_lengths d_lengths result =
     (if dist = 0
      then if litlen < 288 then symbol_size_loop items ll_lengths d_lengths (result + ll_lengths ! litlen)
           else Inl Out_of_range
      else if litlen \<ge> 259 then Inl Out_of_range
      else symbol_size_loop items ll_lengths d_lengths
        (result + ll_lengths ! ZopfliGetLengthSymbol litlen + d_lengths ! nat (ZopfliGetDistSymbol (int dist)) +
         ZopfliGetLengthExtraBits litlen + nat (ZopfliGetDistExtraBits (int dist))))"

definition CalculateBlockSymbolSize :: "nat list \<Rightarrow> nat list \<Rightarrow> nat list \<Rightarrow> nat list \<Rightarrow> nat \<Rightarrow> nat \<Rightarrow> failure + nat" where
  "CalculateBlockSymbolSize ll_lengths d_lengths lls ds lstart lend =
     and_then (symbol_size_loop (lz_items lls ds lstart lend) ll_lengths d_lengths 0) (\<lambda>result.
       Inr (result + ll_lengths ! 256))"

text \<open>The code lengths of a dynamic block: of its counts, the second patched.\<close>

definition dynamic_lengths :: "(Node list \<Rightarrow> Node list) \<Rightarrow> nat list \<Rightarrow> nat list \<Rightarrow> nat \<Rightarrow> nat \<Rightarrow>
    failure + (nat list \<times> nat list) \<times> nat list \<times> nat list" where
  "dynamic_lengths qsort lls ds lstart lend =
     and_then (ZopfliLZ77Counts lls ds lstart lend) (\<lambda>(ll_counts, d_counts).
     and_then (ZopfliCalculateBitLengths qsort ll_counts 15) (\<lambda>ll_lengths.
     and_then (ZopfliCalculateBitLengths qsort d_counts 15) (\<lambda>d_lengths.
       Inr ((ll_counts, d_counts), ll_lengths, PatchDistanceCodesForBuggyDecoders d_lengths))))"

text \<open>The size is a \<^verbatim>\<open>double\<close> that holds a whole number.\<close>

definition ZopfliCalculateBlockSize :: "(Node list \<Rightarrow> Node list) \<Rightarrow> nat list \<Rightarrow> nat list \<Rightarrow> nat \<Rightarrow> nat \<Rightarrow> nat \<Rightarrow> failure + nat" where
  "ZopfliCalculateBlockSize qsort lls ds lstart lend btype =
     and_then (assertion (btype = 1 \<or> btype = 2)) (\<lambda>_.
     and_then (if btype = 1 then Inr (GetFixedTree, 3)
               else and_then (dynamic_lengths qsort lls ds lstart lend) (\<lambda>(_, ll_lengths, d_lengths).
                    and_then (CalculateTreeSize qsort ll_lengths d_lengths) (\<lambda>treesize.
                      Inr ((ll_lengths, d_lengths), 3 + treesize)))) (\<lambda>((ll_lengths, d_lengths), result).
     and_then (CalculateBlockSymbolSize ll_lengths d_lengths lls ds lstart lend) (\<lambda>size. Inr (result + size))))"

definition AddLZ77Block :: "(Node list \<Rightarrow> Node list) \<Rightarrow> nat \<Rightarrow> bool \<Rightarrow> nat list \<Rightarrow> nat list \<Rightarrow> nat \<Rightarrow> nat \<Rightarrow> nat \<Rightarrow> writer \<Rightarrow>
    failure + writer" where
  "AddLZ77Block qsort btype final lls ds lstart lend expected_data_size w =
     (let w = AddBit (of_bool final) w;
          w = AddBit (of_nat (btype AND 1)) w;
          w = AddBit (of_nat (drop_bit 1 (btype AND 2))) w
      in and_then (if btype = 1 then Inr (GetFixedTree, w)
                   else and_then (assertion (btype = 2)) (\<lambda>_.
                        and_then (dynamic_lengths qsort lls ds lstart lend) (\<lambda>((ll_counts, d_counts), ll_lengths, d_lengths).
                        and_then (AddDynamicTree qsort ll_lengths d_lengths w) (\<lambda>w.
                        and_then (assertion (list_all (\<lambda>i. ll_counts ! i = 0 \<or> ll_lengths ! i > 0) [0..<288])) (\<lambda>_.
                        and_then (assertion (list_all (\<lambda>i. d_counts ! i = 0 \<or> d_lengths ! i > 0) [0..<32])) (\<lambda>_.
                          Inr ((ll_lengths, d_lengths), w)))))))
         (\<lambda>((ll_lengths, d_lengths), w).
          and_then (ZopfliLengthsToSymbols ll_lengths 15) (\<lambda>ll_symbols.
          and_then (ZopfliLengthsToSymbols d_lengths 15) (\<lambda>d_symbols.
          and_then (AddLZ77Data lls ds lstart lend expected_data_size ll_symbols ll_lengths d_symbols d_lengths w) (\<lambda>w.
            Inr (AddHuffmanBits (ll_symbols ! 256) (ll_lengths ! 256) w))))))"

definition DeflateNonCompressedBlock :: "bool \<Rightarrow> byte list \<Rightarrow> nat \<Rightarrow> nat \<Rightarrow> writer \<Rightarrow> failure + writer" where
  "DeflateNonCompressedBlock final data instart inend w =
     (let blocksize = inend - instart;
          nlen = NOT (of_nat blocksize :: 16 word)
      in and_then (assertion (blocksize < 65536)) (\<lambda>_.
         let w = AddBit (of_bool final) w;
             w = AddBit 0 w;
             w = AddBit 0 w;
             w = w\<lparr>bp := 0\<rparr>;
             w = append_data (of_nat (blocksize mod 256)) w;
             w = append_data (of_nat (blocksize div 256 mod 256)) w;
             w = append_data (of_nat (unat nlen mod 256)) w;
             w = append_data (of_nat (unat nlen div 256 mod 256)) w
         in Inr (fold (\<lambda>i. append_data (data ! i)) [instart..<inend] w)))"

section \<open>The data of a block\<close>

definition length_extra :: "nat \<Rightarrow> bool list" where
  "length_extra l = lsb_bits (of_nat (ZopfliGetLengthExtraBitsValue l)) (ZopfliGetLengthExtraBits l)"

definition dist_extra :: "nat \<Rightarrow> bool list" where
  "dist_extra d = lsb_bits (of_int (ZopfliGetDistExtraBitsValue (int d))) (nat (ZopfliGetDistExtraBits (int d)))"

definition item_bits :: "nat list \<Rightarrow> nat list \<Rightarrow> nat \<times> nat \<Rightarrow> bool list" where
  "item_bits ll dl p =
     (if snd p = 0 then code_word ll (ll_symbol p)
      else code_word ll (ll_symbol p) @ length_extra (fst p) @ code_word dl (d_symbol p) @ dist_extra (snd p))"

definition item_size :: "nat \<times> nat \<Rightarrow> nat" where
  "item_size p = (if snd p = 0 then 1 else fst p)"

text \<open>Trees that have a code for every symbol of the data and for the end of the block.\<close>

definition trees_ok :: "nat list \<Rightarrow> nat list \<Rightarrow> (nat \<times> nat) list \<Rightarrow> bool" where
  "trees_ok ll dl items \<longleftrightarrow> code_lengths_ok 15 ll \<and> code_lengths_ok 15 dl \<and> length ll = 288 \<and> length dl = 32 \<and>
     0 < ll ! 256 \<and> (\<forall>p \<in> set items. 0 < ll ! ll_symbol p \<and> (snd p \<noteq> 0 \<longrightarrow> 0 < dl ! d_symbol p))"

lemma trees_ok_Cons: "trees_ok ll dl (p # items) \<Longrightarrow> trees_ok ll dl items"
  by (simp add: trees_ok_def)

lemma canonical_word:
  assumes "s < length ls" and "0 < ls ! s"
  shows "msb_bits (canonical_symbols ls ! s) (ls ! s) = code_word ls s"
  using assms by (simp add: canonical_symbols_def code_word_def)

text \<open>The sizes of the items make up the length of the decoded bytes.\<close>

lemma length_lz_step: "length (lz_step p bytes) = length bytes + item_size p"
  by (simp add: lz_step_def item_size_def split: prod.splits)

lemma length_lz_decode: "length (lz_decode items bytes) = length bytes + sum_list (map item_size items)"
  by (induction items arbitrary: bytes) (simp_all add: length_lz_step)

lemma AddLZ77Data_loop_bits:
  assumes "trees_ok ll dl items" and "\<forall>p \<in> set items. lz_item_ok p"
  shows "\<exists>w'. AddLZ77Data_loop items (canonical_symbols ll) ll (canonical_symbols dl) dl t w =
      Inr (t + sum_list (map item_size items), w') \<and>
    (\<forall>bs. represents w bs \<longrightarrow> represents w' (bs @ concat (map (item_bits ll dl) items)))"
  using assms
proof (induction items arbitrary: t w)
  case (Cons p items)
  obtain l d where p: "p = (l, d)" by (cases p)
  have ok: "lz_item_ok p" using Cons.prems by simp
  note tree = Cons.prems(1) [unfolded trees_ok_def]
  have ll: "ll_symbol p < length ll" "0 < ll ! ll_symbol p" using tree ll_symbol_range [OF ok] by simp_all
  have step: ?case
    if bits: "\<And>bs. represents w bs \<Longrightarrow> represents w1 (bs @ item_bits ll dl p)"
      and run: "AddLZ77Data_loop (p # items) (canonical_symbols ll) ll (canonical_symbols dl) dl t w =
        AddLZ77Data_loop items (canonical_symbols ll) ll (canonical_symbols dl) dl (t + item_size p) w1" for w1
  proof -
    have "\<forall>p \<in> set items. lz_item_ok p" using Cons.prems(2) by simp
    then obtain w' where w': "AddLZ77Data_loop items (canonical_symbols ll) ll (canonical_symbols dl) dl (t + item_size p) w1 =
          Inr (t + item_size p + sum_list (map item_size items), w')"
        "\<And>bs. represents w1 bs \<Longrightarrow> represents w' (bs @ concat (map (item_bits ll dl) items))"
      using Cons.IH trees_ok_Cons [OF Cons.prems(1)] by blast
    have "represents w' (bs @ concat (map (item_bits ll dl) (p # items)))" if "represents w bs" for bs
      using w'(2) [OF bits [OF that]] by simp
    then show ?thesis unfolding run using w'(1) by (auto simp: add.assoc)
  qed
  show ?case
  proof (cases "d = 0")
    case True
    let ?w = "AddHuffmanBits (canonical_symbols ll ! l) (ll ! l) w"
    have "represents ?w (bs @ item_bits ll dl p)" if "represents w bs" for bs
      using represents_AddHuffmanBits [OF that, of "canonical_symbols ll ! l" "ll ! l"] canonical_word [OF ll] True
      by (simp add: item_bits_def p ll_symbol_def)
    moreover have "AddLZ77Data_loop (p # items) (canonical_symbols ll) ll (canonical_symbols dl) dl t w =
        AddLZ77Data_loop items (canonical_symbols ll) ll (canonical_symbols dl) dl (t + item_size p) ?w"
      using ok ll True by (simp add: p lz_item_ok_def ll_symbol_def item_size_def)
    ultimately show ?thesis by (rule step)
  next
    case False
    have dl: "d_symbol p < length dl" "0 < dl ! d_symbol p"
      using tree d_symbol_range [OF ok] False by (simp_all add: p)
    have l: "3 \<le> l" "l \<le> 258" "l < 259" "l \<le> 288" using ok False by (simp_all add: p lz_item_ok_def)
    let ?w = "AddBits (of_int (ZopfliGetDistExtraBitsValue (int d))) (nat (ZopfliGetDistExtraBits (int d)))
        (AddHuffmanBits (canonical_symbols dl ! d_symbol p) (dl ! d_symbol p)
          (AddBits (of_nat (ZopfliGetLengthExtraBitsValue l)) (ZopfliGetLengthExtraBits l)
            (AddHuffmanBits (canonical_symbols ll ! ll_symbol p) (ll ! ll_symbol p) w)))"
    have "represents ?w ((((bs @ code_word ll (ll_symbol p)) @ length_extra l) @ code_word dl (d_symbol p)) @ dist_extra d)"
      if "represents w bs" for bs
      unfolding length_extra_def dist_extra_def canonical_word [OF ll, symmetric] canonical_word [OF dl, symmetric]
      by (intro represents_AddBits represents_AddHuffmanBits that)
    then have bits: "represents ?w (bs @ item_bits ll dl p)" if "represents w bs" for bs
      using that False by (simp add: item_bits_def p)
    have "AddLZ77Data_loop (p # items) (canonical_symbols ll) ll (canonical_symbols dl) dl t w =
        AddLZ77Data_loop items (canonical_symbols ll) ll (canonical_symbols dl) dl (t + item_size p) ?w"
      using False l ll dl by (simp add: p ll_symbol_def d_symbol_def Let_def item_size_def)
    with bits show ?thesis by (rule step)
  qed
qed simp

lemma of_int_dist_value: "1 \<le> d \<Longrightarrow> d \<le> 32768 \<Longrightarrow>
    (of_int (ZopfliGetDistExtraBitsValue (int d)) :: uint32) = of_nat (nat (ZopfliGetDistExtraBitsValue (int d)))"
  using dist_symbol_row [of d] by (simp add: of_nat_nat)

lemma extra_bits_small:
  "i < 29 \<Longrightarrow> rfc_length_extra ! i \<le> 32" "j < 30 \<Longrightarrow> rfc_dist_extra ! j \<le> 32"
proof -
  have "\<forall>e \<in> set rfc_length_extra \<union> set rfc_dist_extra. e \<le> 32" "length rfc_length_extra = 29" "length rfc_dist_extra = 30"
    by (simp_all add: rfc_length_extra_def rfc_dist_extra_def)
  then show "i < 29 \<Longrightarrow> rfc_length_extra ! i \<le> 32" "j < 30 \<Longrightarrow> rfc_dist_extra ! j \<le> 32" by simp_all
qed

lemma inflate_codes_items:
  assumes "trees_ok ll dl items" and "lz_valid items bytes"
  shows "inflate_codes ll dl (concat (map (item_bits ll dl) items) @ code_word ll 256 @ rest) bytes =
    Some (lz_decode items bytes, rest)"
  using assms
proof (induction items arbitrary: bytes)
  case Nil
  then have "decode_symbol ll (code_word ll 256 @ rest) = Some (256, rest)"
    by (intro decode_symbol_code [where M = 15]) (simp_all add: trees_ok_def)
  then show ?case by (subst inflate_codes.simps) simp
next
  case (Cons p items)
  obtain l d where p: "p = (l, d)" by (cases p)
  have ok: "lz_item_ok p" and d: "d \<le> length bytes" and valid: "lz_valid items (lz_step p bytes)"
    using Cons.prems(2) by (simp_all add: p)
  note tree = Cons.prems(1) [unfolded trees_ok_def]
  let ?rest = "concat (map (item_bits ll dl) items) @ code_word ll 256 @ rest"
  have ll: "decode_symbol ll (code_word ll (ll_symbol p) @ bs) = Some (ll_symbol p, bs)" for bs
    using tree ll_symbol_range [OF ok] by (intro decode_symbol_code [where M = 15]) simp_all
  have IH: "inflate_codes ll dl ?rest (lz_step p bytes) = Some (lz_decode items (lz_step p bytes), rest)"
    using Cons.IH trees_ok_Cons [OF Cons.prems(1)] valid by blast
  show ?case
  proof (cases "d = 0")
    case True
    then have "ll_symbol p = l" "l < 256" using ok by (simp_all add: p ll_symbol_def lz_item_ok_def)
    with ll [of ?rest] IH True show ?thesis
      by (subst inflate_codes.simps) (simp add: p item_bits_def lz_step_def)
  next
    case False
    then have l: "3 \<le> l" "l \<le> 258" and d': "1 \<le> d" "d \<le> 32768" using ok by (simp_all add: p lz_item_ok_def)
    have s: "ll_symbol p = ZopfliGetLengthSymbol l" using False by (simp add: p ll_symbol_def)
    have ds: "d_symbol p = nat (ZopfliGetDistSymbol (int d))" by (simp add: p d_symbol_def)
    note lrow = length_symbol_row [OF l, unfolded length_row_ok_def, folded s]
    note drow = dist_symbol_row [OF d', unfolded dist_row_ok_def, folded ds]
    have dl: "decode_symbol dl (code_word dl (d_symbol p) @ bs) = Some (d_symbol p, bs)" for bs
      using tree d_symbol_range [OF ok] False by (intro decode_symbol_code [where M = 15]) (simp_all add: p)
    have le: "read_bits (rfc_length_extra ! (ll_symbol p - 257)) (length_extra l @ bs) = Some (ZopfliGetLengthExtraBitsValue l, bs)" for bs
      using lrow extra_bits_small(1) [of "ll_symbol p - 257"] by (auto simp: length_extra_def)
    have de: "read_bits (rfc_dist_extra ! d_symbol p) (dist_extra d @ bs) = Some (nat (ZopfliGetDistExtraBitsValue (int d)), bs)" for bs
    proof -
      have "dist_extra d = lsb_bits (of_nat (nat (ZopfliGetDistExtraBitsValue (int d)))) (rfc_dist_extra ! d_symbol p)"
        unfolding dist_extra_def of_int_dist_value [OF d'] using drow by argo
      then show ?thesis using drow extra_bits_small(2) [of "d_symbol p"] by (metis read_bits_lsb)
    qed
    have range: "\<not> ll_symbol p < 256" "ll_symbol p \<noteq> 256" "ll_symbol p \<le> 285" "d_symbol p < 30" using lrow drow by auto
    have copy: "lz_step p bytes = copy_match l d bytes" using False by (simp add: p lz_step_def)
    have bits: "item_bits ll dl p = code_word ll (ll_symbol p) @ length_extra l @ code_word dl (d_symbol p) @ dist_extra d"
      using False by (simp add: item_bits_def p)
    show ?thesis
      using lrow drow d range IH
      by (subst inflate_codes.simps) (simp add: bits copy ll le dl de Let_def)
  qed
qed

text \<open>The estimated size of the data is the number of bits written.\<close>

lemma length_item_bits:
  assumes "lz_item_ok p"
  shows "length (item_bits ll dl p) = (if snd p = 0 then ll ! fst p
    else ll ! ZopfliGetLengthSymbol (fst p) + dl ! nat (ZopfliGetDistSymbol (int (snd p))) +
      ZopfliGetLengthExtraBits (fst p) + nat (ZopfliGetDistExtraBits (int (snd p))))"
  by (cases p) (simp add: item_bits_def ll_symbol_def d_symbol_def code_word_def length_extra_def dist_extra_def)

lemma symbol_size_loop_bits:
  assumes "\<forall>p \<in> set items. lz_item_ok p"
  shows "symbol_size_loop items ll dl r = Inr (r + length (concat (map (item_bits ll dl) items)))"
  using assms
proof (induction items arbitrary: r)
  case (Cons p items)
  obtain l d where p: "p = (l, d)" by (cases p)
  have "lz_item_ok (l, d)" using Cons.prems p by simp
  then have "d = 0 \<Longrightarrow> l < 288" "d \<noteq> 0 \<Longrightarrow> l < 259" by (auto simp: lz_item_ok_def)
  with Cons length_item_bits [OF \<open>lz_item_ok (l, d)\<close>, of ll dl] show ?case by (cases "d = 0") (simp_all add: p)
qed simp

section \<open>Blocks decode\<close>

text \<open>What holds of a writer's step that appends bits whatever was written before.\<close>

definition appends :: "(writer \<Rightarrow> failure + writer) \<Rightarrow> bool list \<Rightarrow> bool" where
  "appends f bits \<longleftrightarrow> (\<forall>w. \<exists>w'. f w = Inr w' \<and> (\<forall>bs. represents w bs \<longrightarrow> represents w' (bs @ bits)))"

lemma appends_Inr: "(\<And>w bs. represents w bs \<Longrightarrow> represents (f w) (bs @ bits)) \<Longrightarrow> appends (\<lambda>w. Inr (f w)) bits"
  by (simp add: appends_def)

lemma appends_then:
  assumes "appends f a" and "appends g b"
  shows "appends (\<lambda>w. and_then (f w) g) (a @ b)"
  unfolding appends_def
proof
  fix w
  obtain w1 where w1: "f w = Inr w1" "\<forall>bs. represents w bs \<longrightarrow> represents w1 (bs @ a)"
    using assms(1) unfolding appends_def by blast
  obtain w2 where "g w1 = Inr w2" "\<forall>bs. represents w1 bs \<longrightarrow> represents w2 (bs @ b)"
    using assms(2) unfolding appends_def by blast
  with w1 show "\<exists>w'. and_then (f w) g = Inr w' \<and> (\<forall>bs. represents w bs \<longrightarrow> represents w' (bs @ a @ b))"
    by (metis and_then.simps(2) append_assoc)
qed

lemma appends_fun: "appends f bits \<Longrightarrow> (\<And>w. g w = f w) \<Longrightarrow> appends g bits"
  by (simp add: appends_def)

text \<open>The three header bits.\<close>

lemma appends_header:
  "appends (\<lambda>w. Inr (AddBit (of_nat (drop_bit 1 (btype AND 2))) (AddBit (of_nat (btype AND 1)) (AddBit (of_bool final) w))))
     [final, odd btype, odd (btype div 2)]"
proof (rule appends_Inr)
  fix w bs
  assume w: "represents w bs"
  have "btype AND 1 = of_bool (odd btype)" "drop_bit 1 (btype AND 2) = (of_bool (odd (btype div 2)) :: nat)"
    by (auto simp: bit_eq_iff bit_simps bit_1_iff drop_bit_Suc)
  then have bits: "(of_nat (btype AND 1) :: uint32) = of_bool (odd btype)"
      "(of_nat (drop_bit 1 (btype AND 2)) :: uint32) = of_bool (odd (btype div 2))"
    by simp_all
  have "represents (AddBit (of_bool (odd (btype div 2))) (AddBit (of_bool (odd btype)) (AddBit (of_bool final) w)))
      (((bs @ [final]) @ [odd btype]) @ [odd (btype div 2)])"
    by (intro represents_AddBit w)
  then show "represents (AddBit (of_nat (drop_bit 1 (btype AND 2))) (AddBit (of_nat (btype AND 1)) (AddBit (of_bool final) w)))
      (bs @ [final, odd btype, odd (btype div 2)])"
    unfolding bits by simp
qed

text \<open>The part of a block after its trees.\<close>

definition lz_data_bits :: "nat list \<Rightarrow> nat list \<Rightarrow> (nat \<times> nat) list \<Rightarrow> bool list" where
  "lz_data_bits ll dl items = concat (map (item_bits ll dl) items) @ code_word ll 256"

lemma appends_lz_data:
  assumes trees: "trees_ok ll dl items" and items: "items = lz_items lls ds a b" "\<forall>p \<in> set items. lz_item_ok p"
    and size: "expected = 0 \<or> expected = sum_list (map item_size items)"
  shows "appends (\<lambda>w.
      and_then (ZopfliLengthsToSymbols ll 15) (\<lambda>ll_symbols.
      and_then (ZopfliLengthsToSymbols dl 15) (\<lambda>d_symbols.
      and_then (AddLZ77Data lls ds a b expected ll_symbols ll d_symbols dl w) (\<lambda>w.
        Inr (AddHuffmanBits (ll_symbols ! 256) (ll ! 256) w)))))
    (lz_data_bits ll dl items)"
proof -
  have ok: "code_lengths_ok 15 ll" "code_lengths_ok 15 dl" "256 < length ll" "0 < ll ! 256" using trees by (simp_all add: trees_ok_def)
  have symbols: "ZopfliLengthsToSymbols ll 15 = Inr (canonical_symbols ll)" "ZopfliLengthsToSymbols dl 15 = Inr (canonical_symbols dl)"
    unfolding canonical_symbols_def by (intro LengthsToSymbols_canonical ok; simp)+
  have "appends (AddLZ77Data lls ds a b expected (canonical_symbols ll) ll (canonical_symbols dl) dl)
      (concat (map (item_bits ll dl) items))"
    unfolding appends_def
  proof
    fix w
    obtain w' where "AddLZ77Data_loop items (canonical_symbols ll) ll (canonical_symbols dl) dl 0 w =
          Inr (sum_list (map item_size items), w')"
        "\<forall>bs. represents w bs \<longrightarrow> represents w' (bs @ concat (map (item_bits ll dl) items))"
      using AddLZ77Data_loop_bits [OF trees items(2), of 0 w] by auto
    then show "\<exists>w'. AddLZ77Data lls ds a b expected (canonical_symbols ll) ll (canonical_symbols dl) dl w = Inr w' \<and>
        (\<forall>bs. represents w bs \<longrightarrow> represents w' (bs @ concat (map (item_bits ll dl) items)))"
      using size items(1) by (auto simp: AddLZ77Data_def)
  qed
  moreover have "appends (\<lambda>w. Inr (AddHuffmanBits (canonical_symbols ll ! 256) (ll ! 256) w)) (code_word ll 256)"
    unfolding canonical_word [OF ok(3,4), symmetric] by (intro appends_Inr represents_AddHuffmanBits)
  ultimately have "appends (\<lambda>w. and_then (AddLZ77Data lls ds a b expected (canonical_symbols ll) ll (canonical_symbols dl) dl w)
      (\<lambda>w. Inr (AddHuffmanBits (canonical_symbols ll ! 256) (ll ! 256) w))) (lz_data_bits ll dl items)"
    unfolding lz_data_bits_def by (rule appends_then)
  then show ?thesis by (rule appends_fun) (simp add: symbols)
qed

lemma inflate_lz_data:
  assumes "trees_ok ll dl items" and "lz_valid items bytes"
  shows "inflate_codes ll dl (lz_data_bits ll dl items @ rest) bytes = Some (lz_decode items bytes, rest)"
  using inflate_codes_items [OF assms] by (simp add: lz_data_bits_def)

subsection \<open>Fixed trees\<close>

lemma GetFixedTree_rfc: "GetFixedTree = (rfc_fixed_ll, rfc_fixed_d)"
proof -
  have "map (\<lambda>i. if i < 144 then 8 else if i < 256 then 9 else if i < 280 then 7 else 8 :: nat) [0..<288] = rfc_fixed_ll"
    by (rule nth_equalityI) (auto simp: rfc_fixed_ll_def nth_append)
  moreover have "map (\<lambda>i. 5 :: nat) [0..<32] = rfc_fixed_d"
    by (rule nth_equalityI) (simp_all add: rfc_fixed_d_def)
  ultimately show ?thesis by (simp only: GetFixedTree_def)
qed

lemma fixed_lengths_ok: "code_lengths_ok 15 rfc_fixed_ll" "code_lengths_ok 15 rfc_fixed_d"
  by (simp_all add: code_lengths_ok_def kraft_sum_def rfc_fixed_ll_def rfc_fixed_d_def sum_list_replicate
      set_replicate_conv_if ball_Un)

lemma fixed_lengths_pos: "s < 288 \<Longrightarrow> 0 < rfc_fixed_ll ! s" "s < 32 \<Longrightarrow> 0 < rfc_fixed_d ! s"
  by (auto simp: rfc_fixed_ll_def rfc_fixed_d_def nth_append)

lemma fixed_trees_ok:
  assumes "\<forall>p \<in> set items. lz_item_ok p"
  shows "trees_ok rfc_fixed_ll rfc_fixed_d items"
proof -
  have "0 < rfc_fixed_ll ! ll_symbol p \<and> (snd p \<noteq> 0 \<longrightarrow> 0 < rfc_fixed_d ! d_symbol p)" if "p \<in> set items" for p
    using assms that ll_symbol_range [of p] d_symbol_range [of p] by (auto intro: fixed_lengths_pos)
  moreover have "length rfc_fixed_ll = 288" "length rfc_fixed_d = 32" by (simp_all add: rfc_fixed_ll_def rfc_fixed_d_def)
  ultimately show ?thesis using fixed_lengths_ok fixed_lengths_pos(1) [of 256] by (simp add: trees_ok_def)
qed

subsection \<open>Dynamic trees\<close>

lemma dynamic_lengths_trees:
  assumes q: "qsort_ok qsort" and items: "items = lz_items lls ds a b" "\<forall>p \<in> set items. lz_item_ok p" "length items < 2 ^ 31"
  shows "\<exists>ll_counts d_counts ll dl. dynamic_lengths qsort lls ds a b = Inr ((ll_counts, d_counts), ll, dl) \<and>
    trees_ok ll dl items \<and> tree_lengths_ok ll dl \<and>
    (\<forall>i < 288. ll_counts ! i = 0 \<or> 0 < ll ! i) \<and> (\<forall>i < 32. d_counts ! i = 0 \<or> 0 < dl ! i)"
proof -
  let ?lsyms = "map ll_symbol items" and ?dsyms = "map d_symbol (matches items)"
  obtain lc dc where counts: "ZopfliLZ77Counts lls ds a b = Inr (lc, dc)" "length lc = 288" "length dc = 32"
      "\<forall>s < 288. lc ! s = (if s = 256 then 1 else count_list ?lsyms s)" "\<forall>s < 32. dc ! s = count_list ?dsyms s"
    using LZ77Counts_eq [of lls ds a b] items by auto
  have small: "\<forall>f \<in> set lc. f < 2 ^ 31" "\<forall>f \<in> set dc. f < 2 ^ 31"
  proof -
    have "count_list ?lsyms s < 2 ^ 31" "count_list ?dsyms s < 2 ^ 31" for s
      using count_le_length [of ?lsyms s] count_le_length [of ?dsyms s] items(3) length_filter_le [of "\<lambda>p. snd p \<noteq> 0" items]
      unfolding length_map by linarith+
    then show "\<forall>f \<in> set lc. f < 2 ^ 31" "\<forall>f \<in> set dc. f < 2 ^ 31"
      using counts(2-5) by (auto simp: in_set_conv_nth)
  qed
  have few: "length (used_symbols lc) \<le> 2 ^ 15" "length (used_symbols dc) \<le> 2 ^ 15"
    using length_filter_le [of "\<lambda>s. lc ! s \<noteq> 0" "[0..<288]"] length_filter_le [of "\<lambda>s. dc ! s \<noteq> 0" "[0..<32]"] counts(2,3)
    by (simp_all add: used_symbols_def)
  obtain ll where ll: "ZopfliCalculateBitLengths qsort lc 15 = Inr ll" "is_code_for 15 lc ll"
    using CalculateBitLengths_code [OF q small(1) _ _ few(1)] by auto
  obtain dl0 where dl0: "ZopfliCalculateBitLengths qsort dc 15 = Inr dl0" "is_code_for 15 dc dl0"
    using CalculateBitLengths_code [OF q small(2) _ _ few(2)] by auto
  define dl where "dl = PatchDistanceCodesForBuggyDecoders dl0"
  have none: "count_list ?lsyms s = 0" if "286 \<le> s" for s
    using that ll_symbol_range items(2) by (fastforce simp: count_list_0_iff)
  have nod: "count_list ?dsyms s = 0" if "30 \<le> s" for s
    using that d_symbol_range items(2) by (fastforce simp: count_list_0_iff)
  have llen: "length ll = 288" "code_lengths_ok 15 ll" and lpos: "s < 288 \<Longrightarrow> 0 < ll ! s \<longleftrightarrow> lc ! s \<noteq> 0" for s
    using ll(2) counts(2) by (simp_all add: is_code_for_def)
  have dlen: "length dl0 = 32" "code_lengths_ok 15 dl0" and dpos: "s < 32 \<Longrightarrow> 0 < dl0 ! s \<longleftrightarrow> dc ! s \<noteq> 0" for s
    using dl0(2) counts(3) by (simp_all add: is_code_for_def)
  have dzero: "dl0 ! 30 = 0" "dl0 ! 31 = 0" using dpos [of 30] dpos [of 31] counts(5) nod by simp_all
  note patched = Patch_code [OF dlen(2,1) dzero, folded dl_def]
  have "0 < ll ! ll_symbol p \<and> (snd p \<noteq> 0 \<longrightarrow> 0 < dl ! d_symbol p)" if p: "p \<in> set items" for p
  proof -
    have "lz_item_ok p" using items(2) p by blast
    note range = ll_symbol_range [OF this] d_symbol_range [OF this]
    have "count_list ?lsyms (ll_symbol p) \<noteq> 0" using p by (auto simp: count_list_0_iff)
    moreover have "snd p \<noteq> 0 \<Longrightarrow> count_list ?dsyms (d_symbol p) \<noteq> 0" using p by (auto simp: count_list_0_iff)
    ultimately show ?thesis
      using range lpos [of "ll_symbol p"] dpos [of "d_symbol p"] patched(5) [of "d_symbol p"] counts(4,5)
      by (cases "snd p = 0") simp_all
  qed
  moreover have "0 < ll ! 256" using lpos [of 256] counts(4) by simp
  ultimately have trees: "trees_ok ll dl items" using llen patched(1,2) by (simp add: trees_ok_def)
  have "ll ! 286 = 0" "ll ! 287 = 0" using lpos [of 286] lpos [of 287] counts(4) none by simp_all
  moreover have "\<forall>l \<in> set ll \<union> set dl. l < 16" using llen(2) patched(1) by (auto simp: code_lengths_ok_def less_Suc_eq_le)
  ultimately have "tree_lengths_ok ll dl" using llen(1) patched(2-4) by (simp add: tree_lengths_ok_def)
  moreover have "dynamic_lengths qsort lls ds a b = Inr ((lc, dc), ll, dl)"
    by (simp add: dynamic_lengths_def counts(1) ll(1) dl0(1) dl_def)
  moreover have "lc ! i = 0 \<or> 0 < ll ! i" if "i < 288" for i using lpos [OF that] by auto
  moreover have "dc ! i = 0 \<or> 0 < dl ! i" if "i < 32" for i using dpos [OF that] patched(5) [OF that] by auto
  ultimately show ?thesis using trees by (intro exI [of _ lc] exI [of _ dc] exI [of _ ll] exI [of _ dl]) simp
qed

subsection \<open>A whole block\<close>

lemma read_bits_cons [simp]:
  "read_bits (Suc 0) (a # bs) = Some (of_bool a, bs)" "read_bits 2 (a # b # bs) = Some (of_bool a + 2 * of_bool b, bs)"
  by (simp_all add: read_bits_def numeral_2_eq_2)

lemma inflate_block_fixed:
  assumes "trees_ok rfc_fixed_ll rfc_fixed_d items" and "lz_valid items bytes"
  shows "inflate_block ([final, odd (1 :: nat), odd (1 div 2 :: nat)] @ lz_data_bits rfc_fixed_ll rfc_fixed_d items @ rest) bytes =
    Some (final, lz_decode items bytes, rest)"
  using inflate_lz_data [OF assms] by (simp add: inflate_block_def)

lemma inflate_block_dynamic:
  assumes "trees_ok ll dl items" and "lz_valid items bytes" and "\<forall>rest. inflate_trees (tb @ rest) = Some ((ll, dl), rest)"
  shows "inflate_block ([final, odd (2 :: nat), odd (2 div 2 :: nat)] @ tb @ lz_data_bits ll dl items @ rest) bytes =
    Some (final, lz_decode items bytes, rest)"
  using inflate_lz_data [OF assms(1,2)] assms(3) by (simp add: inflate_block_def)

lemma AddLZ77Block_decodes:
  assumes q: "qsort_ok qsort" and btype: "btype = 1 \<or> btype = 2"
    and items: "items = lz_items lls ds a b" "\<forall>p \<in> set items. lz_item_ok p" "length items < 2 ^ 31"
    and size: "expected = 0 \<or> expected = sum_list (map item_size items)"
  shows "\<exists>bb. appends (AddLZ77Block qsort btype final lls ds a b expected) bb \<and>
    (\<forall>bytes rest. lz_valid items bytes \<longrightarrow> inflate_block (bb @ rest) bytes = Some (final, lz_decode items bytes, rest))"
  using btype
proof
  assume b: "btype = 1"
  have trees: "trees_ok rfc_fixed_ll rfc_fixed_d items" by (rule fixed_trees_ok [OF items(2)])
  have "appends (AddLZ77Block qsort btype final lls ds a b expected)
      ([final, odd btype, odd (btype div 2)] @ lz_data_bits rfc_fixed_ll rfc_fixed_d items)"
    by (rule appends_fun [OF appends_then [OF appends_header appends_lz_data [OF trees items(1,2) size]]])
      (simp add: AddLZ77Block_def b GetFixedTree_rfc)
  with inflate_block_fixed [OF trees] show ?thesis unfolding b by (metis append_assoc)
next
  assume b: "btype = 2"
  obtain lc dc ll dl where dyn: "dynamic_lengths qsort lls ds a b = Inr ((lc, dc), ll, dl)" "trees_ok ll dl items"
      "tree_lengths_ok ll dl" "\<forall>i < 288. lc ! i = 0 \<or> 0 < ll ! i" "\<forall>i < 32. dc ! i = 0 \<or> 0 < dl ! i"
    using dynamic_lengths_trees [OF q items] by blast
  obtain tb where tb: "appends (AddDynamicTree qsort ll dl) tb" "\<forall>rest. inflate_trees (tb @ rest) = Some ((ll, dl), rest)"
    using AddDynamicTree_decodes [OF q dyn(3)] unfolding appends_def by blast
  have "list_all (\<lambda>i. lc ! i = 0 \<or> ll ! i > 0) [0..<288]" "list_all (\<lambda>i. dc ! i = 0 \<or> dl ! i > 0) [0..<32]"
    using dyn(4,5) by (simp_all add: list_all_iff)
  then have "AddLZ77Block qsort btype final lls ds a b expected w =
      and_then (Inr (AddBit (of_nat (drop_bit 1 (btype AND 2))) (AddBit (of_nat (btype AND 1)) (AddBit (of_bool final) w)))) (\<lambda>w.
      and_then (AddDynamicTree qsort ll dl w) (\<lambda>w.
      and_then (ZopfliLengthsToSymbols ll 15) (\<lambda>ll_symbols.
      and_then (ZopfliLengthsToSymbols dl 15) (\<lambda>d_symbols.
      and_then (AddLZ77Data lls ds a b expected ll_symbols ll d_symbols dl w) (\<lambda>w.
        Inr (AddHuffmanBits (ll_symbols ! 256) (ll ! 256) w))))))" for w
    unfolding AddLZ77Block_def b
    by (cases "AddDynamicTree qsort ll dl (AddBit (of_nat (drop_bit 1 (2 AND 2))) (AddBit (of_nat (2 AND 1)) (AddBit (of_bool final) w)))")
      (simp_all add: dyn(1) Let_def)
  then have "appends (AddLZ77Block qsort btype final lls ds a b expected)
      ([final, odd btype, odd (btype div 2)] @ tb @ lz_data_bits ll dl items)"
    by (rule appends_fun [OF appends_then [OF appends_header appends_then [OF tb(1) appends_lz_data [OF dyn(2) items(1,2) size]]]])
  with inflate_block_dynamic [OF dyn(2) _ tb(2)] show ?thesis unfolding b by (metis append_assoc)
qed

section \<open>Stored blocks\<close>

lemma byte_value: "horner_sum of_bool 2 (bits_of_byte a) = unat a"
proof -
  have "bits_of_byte a = map (bit (unat a)) [0..<8]" by (simp add: bits_of_byte_def bit_unsigned_iff)
  then have "horner_sum of_bool 2 (bits_of_byte a) = take_bit 8 (unat a)"
    unfolding horner_sum_bit_eq_take_bit [symmetric] by simp
  also have "\<dots> = unat a" using unsigned_less [of a, where ?'a = nat] by (simp add: take_bit_nat_eq_self)
  finally show ?thesis .
qed

lemma read_bits_16: "read_bits 16 (bits_of_byte a @ bits_of_byte b @ rest) = Some (unat a + 256 * unat b, rest)"
  by (simp add: read_bits_def horner_sum_append byte_value)

lemma bits_of_append [simp]: "bits_of (xs @ ys) = bits_of xs @ bits_of ys"
  by (simp add: bits_of_def)

lemma bits_of_Cons [simp]: "bits_of (x # xs) = bits_of_byte x @ bits_of xs" "bits_of [] = []"
  by (simp_all add: bits_of_def)

lemma length_bits_of [simp]: "length (bits_of xs) = 8 * length xs"
  by (induction xs) simp_all

lemma pack_bits_of [simp]: "pack (bits_of xs) = xs"
  using pack_append_bytes [of "[]" xs] by (simp add: pack_def)

lemma represents_append_bytes:
  assumes "represents w bs" and "length bs mod 8 = 0"
  shows "represents (fold append_data xs w) (bs @ bits_of xs)"
  using assms
proof (induction xs arbitrary: w bs)
  case (Cons x xs)
  have "represents (append_data x w) (bs @ bits_of_byte x)" by (rule represents_append_data [OF Cons.prems])
  from Cons.IH [OF this] Cons.prems(2) show ?case by simp
qed simp

text \<open>The two numbers in front of the bytes: the length and its complement.\<close>

definition stored_header :: "nat \<Rightarrow> byte list" where
  "stored_header n =
     [of_nat (n mod 256), of_nat (n div 256 mod 256), of_nat ((65535 - n) mod 256), of_nat ((65535 - n) div 256 mod 256)]"

lemma unat_not_16: "n < 65536 \<Longrightarrow> unat (NOT (of_nat n) :: 16 word) = 65535 - n"
proof -
  assume n: "n < 65536"
  have "NOT (of_nat n) = (of_nat (65535 - n) :: 16 word)"
    using n by (simp add: not_eq_complement of_nat_diff)
  moreover have "unat (of_nat (65535 - n) :: 16 word) = 65535 - n" unfolding unat_of_nat by simp
  ultimately show ?thesis by simp
qed

lemma byte_split: "n < 65536 \<Longrightarrow> unat (of_nat (n mod 256) :: byte) + 256 * unat (of_nat (n div 256 mod 256) :: byte) = n"
  by (simp add: unat_of_nat less_mult_imp_div_less)

lemma inflate_stored_block:
  assumes n: "length data < 65536" and rest: "length rest mod 8 = 0" and pad: "k < 8"
  shows "inflate_block ([final, False, False] @ replicate k False @ bits_of (stored_header (length data) @ data) @ rest) bytes =
    Some (final, bytes @ data, rest)"
proof -
  let ?n = "length data"
  let ?body = "bits_of (stored_header ?n @ data) @ rest"
  have "length (replicate k False @ ?body) mod 8 = k" using rest pad by (simp add: stored_header_def) presburger
  then have "drop (length (replicate k False @ ?body) mod 8) (replicate k False @ ?body) = ?body" by simp
  moreover have "read_bits 16 ?body = Some (?n, drop 16 ?body)"
    using byte_split [OF n] by (simp add: stored_header_def read_bits_16)
  moreover have "read_bits 16 (drop 16 ?body) = Some (65535 - ?n, bits_of data @ rest)"
    using byte_split [of "65535 - ?n"] by (simp add: stored_header_def read_bits_16)
  ultimately have "inflate_stored (replicate k False @ ?body) bytes = Some (bytes @ data, rest)"
    using n by (simp add: inflate_stored_def Let_def del: drop_append length_append) simp
  then show ?thesis by (simp add: inflate_block_def)
qed

definition slice :: "byte list \<Rightarrow> nat \<Rightarrow> nat \<Rightarrow> byte list" where
  "slice data a b = map (\<lambda>i. data ! i) [a..<b]"

lemma DeflateNonCompressedBlock_decodes:
  assumes n: "inend - instart < 65536" and w: "represents w bs"
  shows "\<exists>w' bb. DeflateNonCompressedBlock final data instart inend w = Inr w' \<and> represents w' (bs @ bb) \<and>
    length (bs @ bb) mod 8 = 0 \<and>
    (\<forall>bytes rest. length rest mod 8 = 0 \<longrightarrow>
       inflate_block (bb @ rest) bytes = Some (final, bytes @ slice data instart inend, rest))"
proof -
  let ?n = "inend - instart" and ?hdr = "bs @ [final, False, False]" and ?data = "slice data instart inend"
  let ?pad = "replicate (padding (length ?hdr)) False"
  have "represents (AddBit (of_bool False) (AddBit (of_bool False) (AddBit (of_bool final) w))) (((bs @ [final]) @ [False]) @ [False])"
    by (intro represents_AddBit w)
  then have w3: "represents (AddBit 0 (AddBit 0 (AddBit (of_bool final) w))) ?hdr" by simp
  note aligned = represents_align [OF w3]
  have mod: "length (?hdr @ ?pad) mod 8 = 0" using padding_total [of "length ?hdr"] by (simp only: length_append length_replicate) simp
  have "DeflateNonCompressedBlock final data instart inend w =
      Inr (fold append_data (stored_header ?n @ ?data) ((AddBit 0 (AddBit 0 (AddBit (of_bool final) w)))\<lparr>bp := 0\<rparr>))"
    using n unat_not_16 [OF n]
    by (simp add: DeflateNonCompressedBlock_def stored_header_def slice_def Let_def fold_map o_def)
  moreover have "represents (fold append_data (stored_header ?n @ ?data) ((AddBit 0 (AddBit 0 (AddBit (of_bool final) w)))\<lparr>bp := 0\<rparr>))
      ((?hdr @ ?pad) @ bits_of (stored_header ?n @ ?data))"
    by (rule represents_append_bytes [OF aligned mod])
  moreover have "padding (length ?hdr) < 8" by (simp add: padding_def)
  moreover have "length (bs @ [final, False, False] @ ?pad @ bits_of (stored_header ?n @ ?data)) mod 8 = 0"
  proof -
    have "length (bs @ [final, False, False] @ ?pad @ bits_of (stored_header ?n @ ?data)) =
        length (?hdr @ ?pad) + 8 * length (stored_header ?n @ ?data)" by simp
    then show ?thesis using mod by presburger
  qed
  moreover have "length ?data = ?n" by (simp add: slice_def)
  ultimately show ?thesis
    using inflate_stored_block [of ?data _ "padding (length ?hdr)" final] n mod
    by (intro exI [of _ "fold append_data (stored_header ?n @ ?data) ((AddBit 0 (AddBit 0 (AddBit (of_bool final) w)))\<lparr>bp := 0\<rparr>)"]
          exI [of _ "[final, False, False] @ ?pad @ bits_of (stored_header ?n @ ?data)"]) (simp del: bits_of_append length_append)
qed

section \<open>Properties\<close>

text \<open>
  C11. An LZ77 block round-trips: for block type 1 or 2 and a part of the arrays whose items the format allows,
  fewer than \<open>2\<^sup>3\<^sup>1\<close> of them, \<^verbatim>\<open>AddLZ77Block\<close> returns, appending the same bits whatever was written
  before, and a decoder that has produced any bytes the matches can refer to turns the block into
  the bytes the items stand for, reports the final bit, and leaves the bits that follow.
\<close>

theorem lz77_block_roundtrip:
  assumes "qsort_ok qsort" and "btype = 1 \<or> btype = 2" and "lz_valid (lz_items lls ds lstart lend) bytes"
    and "lend - lstart < 2 ^ 31"
  shows "\<exists>bb. appends (AddLZ77Block qsort btype final lls ds lstart lend
        (length (lz_decode (lz_items lls ds lstart lend) bytes) - length bytes)) bb \<and>
    (\<forall>rest. inflate_block (bb @ rest) bytes = Some (final, lz_decode (lz_items lls ds lstart lend) bytes, rest))"
proof -
  let ?items = "lz_items lls ds lstart lend"
  have "length (lz_decode ?items bytes) - length bytes = sum_list (map item_size ?items)"
    by (simp add: length_lz_decode)
  then show ?thesis
    using AddLZ77Block_decodes [OF assms(1,2) refl, of lls ds lstart lend "sum_list (map item_size ?items)" final]
      assms(3,4) lz_valid_items [OF assms(3)]
    by (auto simp: lz_items_def)
qed

theorem lz77_block_roundtrip_witness:
  "\<exists>bb. appends (AddLZ77Block (sort_key weight) 2 True [104, 105, 4] [0, 0, 2] 0 3
        (length (lz_decode (lz_items [104, 105, 4] [0, 0, 2] 0 3) []) - length ([] :: byte list))) bb \<and>
    (\<forall>rest. inflate_block (bb @ rest) [] = Some (True, lz_decode (lz_items [104, 105, 4] [0, 0, 2] 0 3) [], rest))"
  by (rule lz77_block_roundtrip [OF qsort_ok_sort_key])
    (simp_all add: lz_items_def upt_rec lz_item_ok_def lz_step_def)

text \<open>
  A stored block round-trips: for at most 65535 bytes, whatever was written before,
  \<^verbatim>\<open>DeflateNonCompressedBlock\<close> returns, ends at a byte boundary, and a decoder copies exactly those bytes.
  For more bytes the assertion fails.
\<close>

theorem stored_block_roundtrip:
  assumes "inend - instart < 65536" and "represents w bs"
  shows "\<exists>w' bb. DeflateNonCompressedBlock final data instart inend w = Inr w' \<and> represents w' (bs @ bb) \<and>
    length (bs @ bb) mod 8 = 0 \<and>
    (\<forall>bytes rest. length rest mod 8 = 0 \<longrightarrow>
       inflate_block (bb @ rest) bytes = Some (final, bytes @ slice data instart inend, rest))"
  by (rule DeflateNonCompressedBlock_decodes [OF assms])

theorem stored_block_roundtrip_witness:
  "\<exists>w' bb. DeflateNonCompressedBlock True [1, 2, 3] 0 3 new_writer = Inr w' \<and> represents w' ([] @ bb) \<and>
    length ([] @ bb) mod 8 = 0 \<and>
    (\<forall>bytes rest. length rest mod 8 = 0 \<longrightarrow> inflate_block (bb @ rest) bytes = Some (True, bytes @ slice [1, 2, 3] 0 3, rest))"
  by (rule stored_block_roundtrip [OF _ represents_new]) simp

end
