(* ===== verification/Zopfli_Optimal.thy ===== *)
theory Zopfli_Optimal
  imports Zopfli_Forward Zopfli_Blocks
begin

text \<open>
  \<^verbatim>\<open>ZopfliLZ77Optimal\<close> and \<^verbatim>\<open>ZopfliLZ77OptimalFixed\<close> of \<^verbatim>\<open>squeeze.cc\<close>: repeated runs of the optimal compressor with the
  statistics of the previous run, keeping the best. The interface to the rest of the compressor is that the store
  encodes the bytes of the block.
\<close>

section \<open>Operations\<close>

text \<open>
  What is read before it is written: the local arrays of distances of each run, and the allocated array of lengths. The
  statistics of the best run are not initialised either.
\<close>

record uninit =
  u_sublen :: "nat \<Rightarrow> nat list"
  u_lengths :: "nat \<Rightarrow> nat list"
  u_stats :: SymbolStats

record optimal =
  o_state :: ZopfliBlockState
  o_lengths :: "nat list"
  o_store :: ZopfliLZ77Store
  o_stats :: SymbolStats
  beststats :: SymbolStats
  bestcost :: nat
  lastcost :: nat
  ran_state :: RanState
  lastrandomstep :: int

definition keep_best :: "nat \<Rightarrow> ZopfliLZ77Store \<Rightarrow> optimal \<Rightarrow> optimal" where
  "keep_best cost currentstore st =
     (if cost < bestcost st
      then st\<lparr>o_store := ZopfliCopyLZ77Store currentstore, beststats := CopyStats (o_stats st), bestcost := cost\<rparr>
      else st)"

definition optimal_iteration :: "fp \<Rightarrow> (Node list \<Rightarrow> Node list) \<Rightarrow> uninit \<Rightarrow> byte list \<Rightarrow> nat \<Rightarrow> nat \<Rightarrow> nat \<Rightarrow> optimal \<Rightarrow> failure + optimal" where
  "optimal_iteration fp qsort u arr instart inend i st =
     and_then (LZ77OptimalRun fp (u_sublen u (i + 1)) (o_state st) arr instart inend (o_lengths st) (GetCostStat fp (o_stats st))
       ZopfliInitLZ77Store) (\<lambda>(s, length_array, currentstore).
     and_then (ZopfliCalculateBlockSize qsort (litlens currentstore) (dists currentstore) 0 (store_size currentstore) 2) (\<lambda>cost.
     let st = st\<lparr>o_state := s, o_lengths := length_array\<rparr>;
         st = keep_best cost currentstore st;
         laststats = CopyStats (o_stats st)
     in and_then (GetStatistics fp currentstore (ClearStatFreqs (o_stats st))) (\<lambda>stats.
        and_then (if lastrandomstep st \<noteq> -1
                  then CalculateStatistics fp (AddWeighedStatFreqs fp stats 1 laststats (1 / 2) stats)
                  else Inr stats) (\<lambda>stats.
        and_then (if i > 5 \<and> cost = lastcost st
                  then let (ran, stats) = RandomizeStatFreqs (ran_state st) (CopyStats (beststats st))
                       in and_then (CalculateStatistics fp stats) (\<lambda>stats.
                            Inr (st\<lparr>o_stats := stats, ran_state := ran, lastrandomstep := int i\<rparr>))
                  else Inr (st\<lparr>o_stats := stats\<rparr>)) (\<lambda>st.
          Inr (st\<lparr>lastcost := cost\<rparr>))))))"

fun optimal_loop :: "fp \<Rightarrow> (Node list \<Rightarrow> Node list) \<Rightarrow> uninit \<Rightarrow> byte list \<Rightarrow> nat \<Rightarrow> nat \<Rightarrow> nat list \<Rightarrow> optimal \<Rightarrow> failure + optimal" where
  "optimal_loop fp qsort u arr instart inend [] st = Inr st"
| "optimal_loop fp qsort u arr instart inend (i # is) st =
     and_then (optimal_iteration fp qsort u arr instart inend i st) (optimal_loop fp qsort u arr instart inend is)"

text \<open>Costs are whole numbers; \<open>bestcost\<close> starts with \<^verbatim>\<open>ZOPFLI_LARGE_FLOAT\<close>.\<close>

definition ZopfliLZ77Optimal :: "fp \<Rightarrow> (Node list \<Rightarrow> Node list) \<Rightarrow> uninit \<Rightarrow> ZopfliBlockState \<Rightarrow> byte list \<Rightarrow> nat \<Rightarrow> nat \<Rightarrow>
    ZopfliLZ77Store \<Rightarrow> failure + ZopfliBlockState \<times> ZopfliLZ77Store" where
  "ZopfliLZ77Optimal fp qsort u s arr instart inend store =
     and_then (ZopfliLZ77Greedy (u_sublen u 0) s arr instart inend ZopfliInitLZ77Store) (\<lambda>(s, currentstore).
     and_then (GetStatistics fp currentstore InitStats) (\<lambda>stats.
     and_then (optimal_loop fp qsort u arr instart inend [0..<nat (numiterations (options s))]
       \<lparr>o_state = s, o_lengths = u_lengths u (inend - instart + 1), o_store = store, o_stats = stats, beststats = u_stats u,
        bestcost = 10 ^ 30, lastcost = 0, ran_state = InitRanState, lastrandomstep = -1\<rparr>) (\<lambda>st.
       Inr (o_state st, o_store st))))"

definition ZopfliLZ77OptimalFixed :: "fp \<Rightarrow> uninit \<Rightarrow> ZopfliBlockState \<Rightarrow> byte list \<Rightarrow> nat \<Rightarrow> nat \<Rightarrow> ZopfliLZ77Store \<Rightarrow>
    failure + ZopfliBlockState \<times> ZopfliLZ77Store" where
  "ZopfliLZ77OptimalFixed fp u s arr instart inend store =
     and_then (LZ77OptimalRun fp (u_sublen u 0) (s\<lparr>blockstart := instart, blockend := inend\<rparr>) arr instart inend
       (u_lengths u (inend - instart + 1)) (GetCostFixed fp) store) (\<lambda>(s, _, store). Inr (s, store))"

section \<open>The size of a block\<close>

text \<open>What a decoder takes for the trees is bounded, so the estimate of their size is.\<close>

lemma decode_symbol_taken: "decode_symbol ls bs = Some (i, bs') \<Longrightarrow> \<forall>l \<in> set ls. l \<le> M \<Longrightarrow> length bs \<le> length bs' + M"
proof -
  assume d: "decode_symbol ls bs = Some (i, bs')" and M: "\<forall>l \<in> set ls. l \<le> M"
  then have "i < length ls" "bs' = drop (ls ! i) bs" by (auto simp: decode_symbol_def find_Some_iff)
  moreover from this have "ls ! i \<le> M" using M by simp
  ultimately show ?thesis by simp
qed

lemma expand_length_grows': "expand_length p acc = Some acc' \<Longrightarrow> length acc < length acc'"
  by (auto simp: expand_length_def split: prod.splits if_splits)

lemma read_lengths_taken:
  assumes "\<forall>l \<in> set cl. l \<le> 7"
  shows "read_lengths cl n bs acc = Some (lens, bs') \<Longrightarrow> length bs \<le> length bs' + 14 * (n - length acc)"
proof (induction "length bs" arbitrary: bs acc rule: less_induct)
  case less
  note step = less.prems [unfolded read_lengths.simps [of cl n bs acc]]
  show ?case
  proof (cases "length acc = n")
    case False
    with step obtain s bs1 e bs2 acc2 where s: "decode_symbol cl bs = Some (s, bs1)"
        "read_bits (length_extra_bits s) bs1 = Some (e, bs2)" "expand_length (s, e) acc = Some acc2"
        "read_lengths cl n bs2 acc2 = Some (lens, bs')" "length acc < n"
      by (auto simp: bind_eq_Some_conv split: if_splits)
    have "length bs2 < length bs" using s(1,2) by (auto dest!: read_bits_length decode_symbol_length)
    then have "length bs2 \<le> length bs' + 14 * (n - length acc2)" using less.hyps s(4) by blast
    moreover have "length bs \<le> length bs1 + 7" using decode_symbol_taken [OF s(1) assms] .
    moreover have "length bs1 \<le> length bs2 + 7" using read_bits_length [OF s(2)] by (simp add: length_extra_bits_def split: if_splits)
    moreover have "14 * (n - length acc2) + 14 \<le> 14 * (n - length acc)" using expand_length_grows' [OF s(3)] s(5) by simp
    ultimately show ?thesis by linarith
  qed (use step in simp)
qed

lemma read_bits_less: "read_bits n bs = Some (v, bs') \<Longrightarrow> v < 2 ^ n"
  using horner_sum_bound [of "take n bs", where ?'a = nat] by (auto simp: read_bits_def split: if_splits)

lemma read_code_lengths_taken:
  "read_code_lengths order bs cl = Some (cl', bs') \<Longrightarrow> \<forall>l \<in> set cl. l \<le> 7 \<Longrightarrow>
   length bs = length bs' + 3 * length order \<and> (\<forall>l \<in> set cl'. l \<le> 7)"
proof (induction order bs cl rule: read_code_lengths.induct)
  case (2 i order bs cl)
  then obtain l bs1 where l: "read_bits 3 bs = Some (l, bs1)" "read_code_lengths order bs1 (cl[i := l]) = Some (cl', bs')"
    by (auto simp: bind_eq_Some_conv)
  have "l \<le> 7" using read_bits_less [OF l(1)] by simp
  then have "\<forall>l \<in> set (cl[i := l]). l \<le> 7" using 2(3) set_update_subset_insert [of cl i l] by blast
  with 2(1) l have "length bs1 = length bs' + 3 * length order \<and> (\<forall>l \<in> set cl'. l \<le> 7)" by blast
  with read_bits_length [OF l(1)] show ?case by simp
qed simp

lemma inflate_trees_taken:
  assumes "inflate_trees bs = Some (trees, bs')"
  shows "length bs \<le> length bs' + 4551"
proof -
  obtain hlit bs1 hdist bs2 hclen bs3 cl bs4 lens where s: "read_bits 5 bs = Some (hlit, bs1)" "read_bits 5 bs1 = Some (hdist, bs2)"
      "read_bits 4 bs2 = Some (hclen, bs3)"
      "read_code_lengths (take (hclen + 4) code_length_order) bs3 (replicate 19 0) = Some (cl, bs4)"
      "read_lengths cl (hlit + 257 + hdist + 1) bs4 [] = Some (lens, bs')"
    using assms by (auto simp: inflate_trees_def bind_eq_Some_conv)
  have cl: "length bs3 = length bs4 + 3 * length (take (hclen + 4) code_length_order) \<and> (\<forall>l \<in> set cl. l \<le> 7)"
    by (rule read_code_lengths_taken [OF s(4)]) simp
  then have "length bs4 \<le> length bs' + 14 * (hlit + 257 + hdist + 1)"
    using read_lengths_taken [of cl "hlit + 257 + hdist + 1" bs4 "[]" lens bs'] s(5) by simp
  moreover have "hlit \<le> 31" "hdist \<le> 31" using read_bits_less [OF s(1)] read_bits_less [OF s(2)] by simp_all
  moreover have "length (take (hclen + 4) code_length_order) \<le> 19" by (simp add: code_length_order_def)
  moreover note cl [THEN conjunct1] read_bits_length [OF s(1)] read_bits_length [OF s(2)] read_bits_length [OF s(3)]
  ultimately show ?thesis by (simp only: add_mult_distrib2)
qed

text \<open>The size of a block is far below \<^verbatim>\<open>ZOPFLI_LARGE_FLOAT\<close>.\<close>

lemma item_bits_bound:
  assumes "trees_ok ll dl items" and "p \<in> set items" and ok: "lz_item_ok p"
  shows "length (item_bits ll dl p) \<le> 48"
proof -
  note tree = assms(1) [unfolded trees_ok_def code_lengths_ok_def]
  have "ll ! ll_symbol p \<le> 15" using tree ll_symbol_range [OF ok] by simp
  moreover have "dl ! d_symbol p \<le> 15" if "snd p \<noteq> 0" using tree d_symbol_range [OF ok that] by simp
  moreover have "ZopfliGetLengthExtraBits (fst p) \<le> 5" "nat (ZopfliGetDistExtraBits (int (snd p))) \<le> 13" if "snd p \<noteq> 0"
    using extra_bits_bound [of "fst p" "snd p"] ok that by (auto simp: lz_item_ok_def split: if_splits prod.splits)
  ultimately show ?thesis
    unfolding length_item_bits [OF ok] by (cases p) (auto simp: ll_symbol_def d_symbol_def)
qed

lemma symbol_size_bound:
  assumes "trees_ok ll dl items" and "items = lz_items lls ds a b" and "\<forall>p \<in> set items. lz_item_ok p"
  shows "\<exists>c. CalculateBlockSymbolSize ll dl lls ds a b = Inr c \<and> c \<le> 48 * length items + 15"
proof -
  have "length (concat (map (item_bits ll dl) items)) \<le> 48 * length items"
    using sum_list_mono [of items "\<lambda>p. length (item_bits ll dl p)" "\<lambda>_. 48"] item_bits_bound [OF assms(1)] assms(3)
    by (simp add: length_concat sum_list_triv o_def mult.commute)
  moreover have "ll ! 256 \<le> 15" using assms(1) by (simp add: trees_ok_def code_lengths_ok_def)
  ultimately show ?thesis
    using symbol_size_loop_bits [OF assms(3), of ll dl 0] by (simp add: CalculateBlockSymbolSize_def assms(2))
qed

lemma ZopfliCalculateBlockSize_bound:
  assumes q: "qsort_ok qsort" and btype: "btype = 1 \<or> btype = 2"
    and items: "items = lz_items lls ds a b" "\<forall>p \<in> set items. lz_item_ok p" "length items < 2 ^ 31"
  shows "\<exists>c. ZopfliCalculateBlockSize qsort lls ds a b btype = Inr c \<and> c \<le> 4577 + 48 * length items"
  using btype
proof
  assume b: "btype = 1"
  obtain c where "CalculateBlockSymbolSize rfc_fixed_ll rfc_fixed_d lls ds a b = Inr c" "c \<le> 48 * length items + 15"
    using symbol_size_bound [OF fixed_trees_ok [OF items(2)] items(1,2)] by blast
  then show ?thesis by (simp add: ZopfliCalculateBlockSize_def b GetFixedTree_rfc)
next
  assume b: "btype = 2"
  obtain lc dc ll dl where dyn: "dynamic_lengths qsort lls ds a b = Inr ((lc, dc), ll, dl)" "trees_ok ll dl items" "tree_lengths_ok ll dl"
    using dynamic_lengths_trees [OF q items] by blast
  obtain tb where tb: "\<forall>rest. inflate_trees (tb @ rest) = Some ((ll, dl), rest)"
      "CalculateTreeSize qsort ll dl = Inr (length tb + (if length tb mod 8 = 0 then 0 else 8))"
    using CalculateTreeSize_bits [OF q dyn(3)] by blast
  have "length tb \<le> 4551" using inflate_trees_taken [of "tb @ []"] tb(1) by fastforce
  moreover obtain c where "CalculateBlockSymbolSize ll dl lls ds a b = Inr c" "c \<le> 48 * length items + 15"
    using symbol_size_bound [OF dyn(2) items(1,2)] by blast
  ultimately show ?thesis using dyn(1) tb(2) by (simp add: ZopfliCalculateBlockSize_def b)
qed

section \<open>The store\<close>

lemma lz_items_store: "store_wf store \<Longrightarrow> lz_items (litlens store) (dists store) 0 (store_size store) = store_items store"
  by (rule nth_equalityI) (simp_all add: lz_items_def store_items_def store_wf_def store_size_def)

lemma ZopfliCopyLZ77Store_id: "store_wf store \<Longrightarrow> ZopfliCopyLZ77Store store = store"
  by (cases store) (simp add: ZopfliCopyLZ77Store_def store_wf_def store_size_def map_nth, metis map_nth)

lemma length_le_sizes: "\<forall>p \<in> set items. lz_item_ok p \<Longrightarrow> length items \<le> sum_list (map item_size items)"
  by (induction items) (auto simp: item_size_def lz_item_ok_def split: prod.splits if_splits)

lemma encodes_size:
  assumes "encodes arr a b store" and "a \<le> b" and "b \<le> length arr"
  shows "store_size store \<le> b - a"
proof -
  note enc = assms(1) [unfolded encodes_def]
  have ok: "\<forall>p \<in> set (store_items store). lz_item_ok p" using lz_valid_items enc by blast
  have "length (store_items store) \<le> sum_list (map item_size (store_items store))"
    by (rule length_le_sizes [OF ok])
  also have "\<dots> = b - a" using arg_cong [OF enc [THEN conjunct2, THEN conjunct2], of length] assms(2,3) by (simp add: length_lz_decode)
  finally show ?thesis using enc by (simp add: store_items_def store_size_def store_wf_def)
qed

lemma encodes_items:
  "encodes arr a b store \<Longrightarrow> \<forall>p \<in> set (lz_items (litlens store) (dists store) 0 (store_size store)). lz_item_ok p"
  using lz_valid_items by (auto simp: encodes_def lz_items_store)

section \<open>The iterations\<close>

definition best_ok :: "byte list \<Rightarrow> ZopfliBlockState \<Rightarrow> nat \<Rightarrow> optimal \<Rightarrow> bool" where
  "best_ok arr s K st \<longleftrightarrow> bestcost st < 10 ^ 30 \<and> counts_ok K (beststats st) \<and> costs_ok (beststats st) \<and>
     encodes arr (blockstart s) (blockend s) (o_store st)"

definition optimal_ok :: "byte list \<Rightarrow> ZopfliBlockState \<Rightarrow> nat \<Rightarrow> optimal \<Rightarrow> bool" where
  "optimal_ok arr s K st \<longleftrightarrow> block_ok arr (o_state st) \<and> same_block s (o_state st) \<and>
     length (o_lengths st) = blockend s - blockstart s + 1 \<and> counts_ok K (o_stats st) \<and> costs_ok (o_stats st)"

definition uninit_ok :: "uninit \<Rightarrow> bool" where
  "uninit_ok u \<longleftrightarrow> (\<forall>k. length (u_sublen u k) = 259) \<and> (\<forall>n. length (u_lengths u n) = n)"

lemma run_cost:
  assumes fp: "fp_ok fp" and q: "qsort_ok qsort" and N: "blockend s - blockstart s \<le> N" "1 \<le> N" "576 * N < 2 ^ 32"
    and block: "block_ok arr s" and enc: "encodes arr (blockstart s) (blockend s) store" and stats: "counts_ok 0 stats"
  shows "\<exists>cost stats'. ZopfliCalculateBlockSize qsort (litlens store) (dists store) 0 (store_size store) 2 = Inr cost \<and> cost < 10 ^ 30 \<and>
    GetStatistics fp store stats = Inr stats' \<and> counts_ok N stats' \<and> costs_ok stats'"
proof -
  have size: "store_size store \<le> N" using encodes_size [OF enc] block N(1) by (simp add: block_ok_def)
  have n: "length (lz_items (litlens store) (dists store) 0 (store_size store)) = store_size store" by (simp add: lz_items_def)
  obtain cost where "ZopfliCalculateBlockSize qsort (litlens store) (dists store) 0 (store_size store) 2 = Inr cost"
      "cost \<le> 4577 + 48 * store_size store"
    using ZopfliCalculateBlockSize_bound [OF q _ refl encodes_items [OF enc], of 2] size N(3) unfolding n by auto
  moreover obtain stats' where "GetStatistics fp store stats = Inr stats'" "counts_ok N stats'" "costs_ok stats'"
    using GetStatistics_ok [OF fp stats encodes_items [OF enc] size N(2)] N(3) by auto
  ultimately show ?thesis using size N(3) by auto
qed

lemma optimal_iteration_ok:
  assumes fp: "fp_ok fp" and q: "qsort_ok qsort" and u: "uninit_ok u"
    and N: "blockend s - blockstart s \<le> N" "1 \<le> N" "576 * N < 2 ^ 32"
    and st: "optimal_ok arr s (2 * N) st" and best: "bestcost st = 10 ^ 30 \<or> best_ok arr s (2 * N) st"
  shows "\<exists>st'. optimal_iteration fp qsort u arr (blockstart s) (blockend s) i st = Inr st' \<and>
    optimal_ok arr s (2 * N) st' \<and> best_ok arr s (2 * N) st'"
proof -
  note st = st [unfolded optimal_ok_def]
  have frame: "blockstart (o_state st) = blockstart s" "blockend (o_state st) = blockend s" using st by (auto simp: same_block_def)
  obtain s1 la store where run: "LZ77OptimalRun fp (u_sublen u (i + 1)) (o_state st) arr (blockstart s) (blockend s) (o_lengths st)
        (GetCostStat fp (o_stats st)) ZopfliInitLZ77Store = Inr (s1, la, store)"
      "block_ok arr s1" "same_block (o_state st) s1" "length la = length (o_lengths st)" "encodes arr (blockstart s) (blockend s) store"
    using LZ77OptimalRun_encodes [OF fp GetCostStat_ok [OF fp], of "o_stats st" arr "o_state st" "u_sublen u (i + 1)" "o_lengths st" ZopfliInitLZ77Store]
      st u encodes_init frame by (auto simp: uninit_ok_def)
  have s1: "blockstart s1 = blockstart s" "blockend s1 = blockend s" "same_block s s1"
    using run(3) frame same_block_trans [of s "o_state st" s1] st by (auto simp: same_block_def)
  obtain cost stats where c: "ZopfliCalculateBlockSize qsort (litlens store) (dists store) 0 (store_size store) 2 = Inr cost" "cost < 10 ^ 30"
      "GetStatistics fp store (ClearStatFreqs (o_stats st)) = Inr stats" "counts_ok N stats" "costs_ok stats"
    using run_cost [OF fp q N(1)[folded s1(1,2)] N(2,3) run(2) _ ClearStatFreqs_counts] run(5) s1 by fastforce
  define st1 where "st1 = keep_best cost store (st\<lparr>o_state := s1, o_lengths := la\<rparr>)"
  have copy: "CopyStats (o_stats st) = o_stats st" using CopyStats_id st by blast
  have wf: "store_wf store" using run(5) by (simp add: encodes_def)
  have st1: "o_stats st1 = o_stats st" "ran_state st1 = ran_state st" "lastcost st1 = lastcost st" "o_state st1 = s1" "o_lengths st1 = la"
    by (simp_all add: st1_def keep_best_def)
  have best1: "best_ok arr s (2 * N) st1"
    using best c(2) st run(5) by (auto simp: st1_def best_ok_def keep_best_def copy ZopfliCopyLZ77Store_id [OF wf])
  then have copy1: "CopyStats (beststats st1) = beststats st1" using CopyStats_id by (auto simp: best_ok_def)
  obtain stats2 where s2: "(if lastrandomstep st1 \<noteq> -1 then CalculateStatistics fp (AddWeighedStatFreqs fp stats 1 (o_stats st) (1 / 2) stats)
        else Inr stats) = Inr stats2" "counts_ok (2 * N) stats2" "costs_ok stats2"
    using CalculateStatistics_ok [OF fp AddWeighedStatFreqs_ok [OF fp c(4), of "o_stats st" stats]] st N(2,3) c(5) counts_ok_mono [OF c(4), of "2 * N"]
    by (cases "lastrandomstep st1 = -1") auto
  obtain ran stats3 where r: "RandomizeStatFreqs (ran_state st1) (beststats st1) = (ran, stats3)" by fastforce
  have "counts_ok (2 * N) stats3" using RandomizeStatFreqs_ok [of "2 * N" "beststats st1" "ran_state st1"] r best1 N(2) by (auto simp: best_ok_def)
  then obtain stats4 where s4: "CalculateStatistics fp stats3 = Inr stats4" "counts_ok (2 * N) stats4" "costs_ok stats4"
    using CalculateStatistics_ok [OF fp] N(3) by fastforce
  define st2 where "st2 = (if i > 5 \<and> cost = lastcost st
    then st1\<lparr>o_stats := stats4, ran_state := ran, lastrandomstep := int i\<rparr> else st1\<lparr>o_stats := stats2\<rparr>)\<lparr>lastcost := cost\<rparr>"
  have "optimal_iteration fp qsort u arr (blockstart s) (blockend s) i st = Inr st2"
    unfolding optimal_iteration_def Let_def run(1) c(1) and_then.simps prod.case st1_def [symmetric]
    using c(3) s2(1) s4(1) r copy copy1 st1 by (cases "lastrandomstep st1 = -1") (simp_all add: st2_def)
  moreover have "optimal_ok arr s (2 * N) st2 \<and> best_ok arr s (2 * N) st2"
    using best1 s2 s4 st1 run s1 st by (auto simp: optimal_ok_def best_ok_def st2_def)
  ultimately show ?thesis by blast
qed

lemma optimal_loop_ok:
  assumes "fp_ok fp" and "qsort_ok qsort" and "uninit_ok u"
    and "blockend s - blockstart s \<le> N" "1 \<le> N" "576 * N < 2 ^ 32"
    and "optimal_ok arr s (2 * N) st" and "bestcost st = 10 ^ 30 \<and> is \<noteq> [] \<or> best_ok arr s (2 * N) st"
  shows "\<exists>st'. optimal_loop fp qsort u arr (blockstart s) (blockend s) is st = Inr st' \<and>
    optimal_ok arr s (2 * N) st' \<and> best_ok arr s (2 * N) st'"
  using assms(7,8)
proof (induction "is" arbitrary: st)
  case (Cons i "is")
  obtain st1 where st1: "optimal_iteration fp qsort u arr (blockstart s) (blockend s) i st = Inr st1"
      "optimal_ok arr s (2 * N) st1" "best_ok arr s (2 * N) st1"
    using optimal_iteration_ok [OF assms(1-6) Cons.prems(1)] Cons.prems(2) by blast
  from Cons.IH [OF st1(2)] st1(1,3) show ?case by simp
qed simp

lemma ZopfliLZ77Optimal_encodes:
  assumes fp: "fp_ok fp" and q: "qsort_ok qsort" and u: "uninit_ok u" and ok: "block_ok arr s"
    and iterations: "1 \<le> numiterations (options s)" and small: "blockend s - blockstart s \<le> 7000000"
  shows "\<exists>s' store'. ZopfliLZ77Optimal fp qsort u s arr (blockstart s) (blockend s) store = Inr (s', store') \<and>
    block_ok arr s' \<and> same_block s s' \<and> encodes arr (blockstart s) (blockend s) store'"
proof -
  define N where "N = max 1 (blockend s - blockstart s)"
  have N: "blockend s - blockstart s \<le> N" "1 \<le> N" "576 * N < 2 ^ 32" using small by (auto simp: N_def)
  obtain s1 gstore where g: "ZopfliLZ77Greedy (u_sublen u 0) s arr (blockstart s) (blockend s) ZopfliInitLZ77Store = Inr (s1, gstore)"
      "block_ok arr s1" "same_block s s1" "encodes arr (blockstart s) (blockend s) gstore"
    using ZopfliLZ77Greedy_encodes [OF ok _ encodes_init, of "u_sublen u 0"] u by (auto simp: uninit_ok_def)
  have "counts_ok 0 InitStats" by (simp add: counts_ok_def InitStats_def)
  then obtain stats where stats: "GetStatistics fp gstore InitStats = Inr stats" "counts_ok N stats" "costs_ok stats"
    using run_cost [OF fp q N ok g(4)] by blast
  let ?st = "\<lparr>o_state = s1, o_lengths = u_lengths u (blockend s - blockstart s + 1), o_store = store, o_stats = stats, beststats = u_stats u,
      bestcost = 10 ^ 30, lastcost = 0, ran_state = InitRanState, lastrandomstep = -1\<rparr>"
  have "optimal_ok arr s (2 * N) ?st"
    using g stats u counts_ok_mono [OF stats(2), of "2 * N"] by (simp add: optimal_ok_def uninit_ok_def)
  moreover have "[0..<nat (numiterations (options s1))] \<noteq> []" using g(3) iterations by (simp add: same_block_def)
  moreover have "bestcost ?st = 10 ^ 30" by simp
  ultimately obtain st where "optimal_loop fp qsort u arr (blockstart s) (blockend s) [0..<nat (numiterations (options s1))] ?st = Inr st"
      "optimal_ok arr s (2 * N) st" "best_ok arr s (2 * N) st"
    using optimal_loop_ok [OF fp q u N] by blast
  then show ?thesis using g(1) stats(1) by (simp add: ZopfliLZ77Optimal_def optimal_ok_def best_ok_def)
qed

lemma ZopfliLZ77OptimalFixed_encodes:
  assumes fp: "fp_ok fp" and u: "uninit_ok u" and ok: "block_ok arr s" and store: "encodes arr (blockstart s) (blockstart s) store"
  shows "\<exists>s' store'. ZopfliLZ77OptimalFixed fp u s arr (blockstart s) (blockend s) store = Inr (s', store') \<and>
    block_ok arr s' \<and> same_block s s' \<and> encodes arr (blockstart s) (blockend s) store'"
proof -
  have "s\<lparr>blockstart := blockstart s, blockend := blockend s\<rparr> = s" by (cases s) simp
  with LZ77OptimalRun_encodes [OF fp GetCostFixed_ok [OF fp] ok _ _ store, of "u_sublen u 0" "u_lengths u (blockend s - blockstart s + 1)"] u
  show ?thesis by (auto simp: ZopfliLZ77OptimalFixed_def uninit_ok_def)
qed

section \<open>Properties\<close>

definition zero_uninit :: uninit where
  "zero_uninit = \<lparr>u_sublen = (\<lambda>_. replicate 259 0), u_lengths = (\<lambda>n. replicate n 0), u_stats = InitStats\<rparr>"

lemma zero_uninit_ok: "uninit_ok zero_uninit"
  by (simp add: uninit_ok_def zero_uninit_def)

text \<open>
  C10. The squeezing pass round-trips: over a block of at most 7000000 bytes, with at least one iteration and whatever
  the memory held before, \<^verbatim>\<open>ZopfliLZ77Optimal\<close> returns, and the store of the best of its runs decodes to exactly the
  bytes of the block. The arithmetic on \<^verbatim>\<open>double\<close> and \<^verbatim>\<open>float\<close> enters only through what \<open>fp_ok\<close> says of rounding and of
  the logarithm: the shortest path never ends in a position that was not reached, which an assertion checks.
\<close>

theorem optimal_roundtrip:
  assumes "fp_ok fp" and "qsort_ok qsort" and "uninit_ok u" and "block_ok arr s" and "1 \<le> numiterations (options s)"
    and "blockend s - blockstart s \<le> 7000000"
  shows "\<exists>s' store'. ZopfliLZ77Optimal fp qsort u s arr (blockstart s) (blockend s) store = Inr (s', store') \<and>
    lz_valid (store_items store') (take (blockstart s) arr) \<and> lz_decode (store_items store') (take (blockstart s) arr) = take (blockend s) arr"
  using ZopfliLZ77Optimal_encodes [OF assms, of store] by (auto simp: encodes_def)

theorem optimal_roundtrip_witness:
  "\<exists>s' store'. ZopfliLZ77Optimal exact_fp (sort_key weight) zero_uninit \<lparr>options = ZopfliInitOptions, lmc = None, blockstart = 2, blockend = 6\<rparr>
      [1, 2, 3, 1, 2, 3] 2 6 ZopfliInitLZ77Store = Inr (s', store') \<and>
    lz_valid (store_items store') [1, 2] \<and> lz_decode (store_items store') [1, 2] = [1, 2, 3, 1, 2, 3]"
proof -
  let ?s = "\<lparr>options = ZopfliInitOptions, lmc = None, blockstart = 2, blockend = 6\<rparr>"
  have "block_ok [1, 2, 3, 1, 2, 3] ?s" by (simp add: block_ok_def windowstart_def ZOPFLI_WINDOW_SIZE_def)
  from optimal_roundtrip [OF exact_fp_ok qsort_ok_sort_key zero_uninit_ok this] show ?thesis by (simp add: ZopfliInitOptions_def)
qed

end
