(* ===== verification/Zopfli_Splitter.thy ===== *)
theory Zopfli_Splitter
  imports Zopfli_Optimal
begin

text \<open>
  The block splitter (\<^verbatim>\<open>blocksplitter.cc\<close>): the search for a point where two blocks cost less than one, the list of
  split points, and the positions in the data they stand for. Costs are whole numbers; \<open>ZOPFLI_LARGE_FLOAT\<close> is \<open>10\<^sup>3\<^sup>0\<close>.
  Differences of positions are taken where the first is not the smaller one.
\<close>

section \<open>Operations\<close>

subsection \<open>The search for the minimum\<close>

fun scan_minimum :: "(nat \<Rightarrow> failure + nat) \<Rightarrow> nat list \<Rightarrow> nat \<Rightarrow> nat \<Rightarrow> failure + nat" where
  "scan_minimum f [] best result = Inr result"
| "scan_minimum f (i # is) best result =
     and_then (f i) (\<lambda>v. if v < best then scan_minimum f is v i else scan_minimum f is best result)"

fun try_points :: "(nat \<Rightarrow> failure + nat) \<Rightarrow> nat list \<Rightarrow> failure + nat list" where
  "try_points f [] = Inr []"
| "try_points f (p # ps) = and_then (f p) (\<lambda>v. and_then (try_points f ps) (\<lambda>vs. Inr (v # vs)))"

definition best_point :: "nat list \<Rightarrow> nat \<times> nat" where
  "best_point vp = fold (\<lambda>i (besti, best). if vp ! i < best then (i, vp ! i) else (besti, best)) [1..<9] (0, vp ! 0)"

definition search_points :: "nat \<Rightarrow> nat \<Rightarrow> nat list" where
  "search_points start stop = map (\<lambda>i. start + (i + 1) * ((stop - start) div 10)) [0..<9]"

lemma best_point_less: "fst (best_point vp) < 9"
proof -
  have "fst (fold (\<lambda>i (besti, best). if vp ! i < best then (i, vp ! i) else (besti, best)) is st) < 9"
    if "\<forall>i \<in> set is. i < 9" "fst st < 9" for "is" and st :: "nat \<times> nat"
    using that by (induction "is" arbitrary: st) (auto split: prod.splits)
  then show ?thesis by (auto simp: best_point_def)
qed

lemma search_points_nth: "i < 9 \<Longrightarrow> search_points start stop ! i = start + (i + 1) * ((stop - start) div 10)"
  by (simp add: search_points_def del: upt_Suc)

text \<open>The new range is shorter.\<close>

lemma narrower:
  assumes "9 < stop - start" and "b < 9"
  shows "(if b = 8 then stop else search_points start stop ! (b + 1)) - (if b = 0 then start else search_points start stop ! (b - 1)) <
    stop - start"
proof -
  define d where "d = (stop - start) div 10"
  have d: "0 < d" "10 * d \<le> stop - start" using assms(1) by (auto simp: d_def)
  have p: "search_points start stop ! i = start + (i + 1) * d" if "i < 9" for i
    using that by (simp add: search_points_nth d_def)
  consider "b = 0" | "b = 8" | "0 < b" "b < 8" using assms(2) by linarith
  then show ?thesis
  proof cases
    case 1
    then show ?thesis using d p [of 1] by simp
  next
    case 2
    then show ?thesis using d p [of 7] by simp
  next
    case 3
    then obtain c where c: "b = Suc c" "c < 7" by (cases b) auto
    have "start + (c + 2 + 1) * d - (start + (c + 1) * d) = 2 * d" by (simp add: add_mult_distrib)
    then show ?thesis using c d p [of "c + 2"] p [of c] by simp
  qed
qed

function narrow :: "(nat \<Rightarrow> failure + nat) \<Rightarrow> nat \<Rightarrow> nat \<Rightarrow> nat \<Rightarrow> nat \<Rightarrow> failure + nat" where
  "narrow f start stop pos lastbest =
     (if stop - start \<le> 9 then Inr pos
      else let p = search_points start stop
           in and_then (try_points f p) (\<lambda>vp.
              let besti = fst (best_point vp);
                  best = snd (best_point vp)
              in if best > lastbest then Inr pos
                 else narrow f (if besti = 0 then start else p ! (besti - 1)) (if besti = 8 then stop else p ! (besti + 1))
                   (p ! besti) best))"
  by pat_completeness auto
termination
proof (relation "measure (\<lambda>(f, start, stop, pos, lastbest). stop - start)", goal_cases)
  case (2 f start stop pos lastbest p vp besti best)
  then show ?case using narrower [of stop start "fst (best_point vp)"] best_point_less by (simp only: in_measure prod.case)
qed simp

declare narrow.simps [simp del]

definition FindMinimum :: "(nat \<Rightarrow> failure + nat) \<Rightarrow> nat \<Rightarrow> nat \<Rightarrow> failure + nat" where
  "FindMinimum f start stop =
     (if stop - start < 1024 then scan_minimum f [start..<stop] (10 ^ 30) start
      else narrow f start stop start (10 ^ 30))"

subsection \<open>Split points\<close>

definition EstimateCost :: "(Node list \<Rightarrow> Node list) \<Rightarrow> nat list \<Rightarrow> nat list \<Rightarrow> nat \<Rightarrow> nat \<Rightarrow> failure + nat" where
  "EstimateCost qsort lls ds lstart lend = ZopfliCalculateBlockSize qsort lls ds lstart lend 2"

definition SplitCost :: "(Node list \<Rightarrow> Node list) \<Rightarrow> nat list \<Rightarrow> nat list \<Rightarrow> nat \<Rightarrow> nat \<Rightarrow> nat \<Rightarrow> failure + nat" where
  "SplitCost qsort lls ds lstart lend i =
     and_then (EstimateCost qsort lls ds lstart i) (\<lambda>left.
     and_then (EstimateCost qsort lls ds i lend) (\<lambda>right. Inr (left + right)))"

definition shift_up :: "nat \<Rightarrow> nat list \<Rightarrow> nat list" where
  "shift_up i points = fold (\<lambda>j points. points[j := points ! (j - 1)]) (rev [i + 1..<length points]) points"

definition AddSorted :: "nat \<Rightarrow> nat list \<Rightarrow> nat list" where
  "AddSorted v points =
     (let points = points @ [v]
      in case List.find (\<lambda>i. points ! i > v) [0..<length points - 1] of
           None \<Rightarrow> points
         | Some i \<Rightarrow> (shift_up i points)[i := v])"

text \<open>The positions in the data at which the items of the split points start.\<close>

fun split_positions :: "(nat \<times> nat) list \<Rightarrow> nat \<Rightarrow> nat \<Rightarrow> nat list \<Rightarrow> nat list \<Rightarrow> nat list" where
  "split_positions [] i pos lz77splitpoints splitpoints = splitpoints"
| "split_positions ((litlen, distance) # items) i pos lz77splitpoints splitpoints =
     (let len = (if distance = 0 then 1 else litlen)
      in if lz77splitpoints ! length splitpoints = i
         then let splitpoints = splitpoints @ [pos]
              in if length splitpoints = length lz77splitpoints then splitpoints
                 else split_positions items (i + 1) (pos + len) lz77splitpoints splitpoints
         else split_positions items (i + 1) (pos + len) lz77splitpoints splitpoints)"

text \<open>What is printed is left out; the conversion and its assertion are not.\<close>

definition PrintBlockSplitPoints :: "nat list \<Rightarrow> nat list \<Rightarrow> nat \<Rightarrow> nat list \<Rightarrow> failure + unit" where
  "PrintBlockSplitPoints lls ds llsize lz77splitpoints =
     (let splitpoints = (if length lz77splitpoints > 0 then split_positions (lz_items lls ds 0 llsize) 0 0 lz77splitpoints [] else [])
      in assertion (length splitpoints = length lz77splitpoints))"

definition FindLargestSplittableBlock :: "nat \<Rightarrow> bool list \<Rightarrow> nat list \<Rightarrow> (nat \<times> nat) option" where
  "FindLargestSplittableBlock llsize finished splitpoints =
     snd (fold (\<lambda>i (longest, found).
         let start = (if i = 0 then 0 else splitpoints ! (i - 1));
             stop = (if i = length splitpoints then llsize - 1 else splitpoints ! i)
         in if \<not> finished ! start \<and> stop - start > longest then (stop - start, Some (start, stop)) else (longest, found))
       [0..<length splitpoints + 1] (0, None))"

text \<open>One round either gives a block up or splits it.\<close>

fun split_loop :: "(Node list \<Rightarrow> Node list) \<Rightarrow> nat list \<Rightarrow> nat list \<Rightarrow> nat \<Rightarrow> nat \<Rightarrow> nat \<Rightarrow> bool list \<Rightarrow> nat list \<Rightarrow> nat \<Rightarrow> nat \<Rightarrow> nat \<Rightarrow>
    failure + nat list" where
  "split_loop qsort lls ds llsize maxblocks 0 finished points numblocks lstart lend = Inl Out_of_fuel"
| "split_loop qsort lls ds llsize maxblocks (Suc fuel) finished points numblocks lstart lend =
     (if maxblocks > 0 \<and> numblocks \<ge> maxblocks then Inr points
      else and_then (assertion (lstart < lend)) (\<lambda>_.
           and_then (FindMinimum (SplitCost qsort lls ds lstart lend) (lstart + 1) lend) (\<lambda>llpos.
           and_then (assertion (llpos > lstart)) (\<lambda>_.
           and_then (assertion (llpos < lend)) (\<lambda>_.
           and_then (SplitCost qsort lls ds lstart lend llpos) (\<lambda>splitcost.
           and_then (EstimateCost qsort lls ds lstart lend) (\<lambda>origcost.
           let giveup = (splitcost > origcost \<or> llpos = lstart + 1 \<or> llpos = lend);
               finished = (if giveup then finished[lstart := True] else finished);
               points = (if giveup then points else AddSorted llpos points);
               numblocks = (if giveup then numblocks else numblocks + 1)
           in case FindLargestSplittableBlock llsize finished points of
                None \<Rightarrow> Inr points
              | Some (lstart, lend) \<Rightarrow>
                  if lend - lstart < 10 then Inr points
                  else split_loop qsort lls ds llsize maxblocks fuel finished points numblocks lstart lend)))))))"

definition ZopfliBlockSplitLZ77 :: "(Node list \<Rightarrow> Node list) \<Rightarrow> ZopfliOptions \<Rightarrow> nat list \<Rightarrow> nat list \<Rightarrow> nat \<Rightarrow> nat \<Rightarrow> nat list \<Rightarrow>
    failure + nat list" where
  "ZopfliBlockSplitLZ77 qsort opts lls ds llsize maxblocks splitpoints =
     (if llsize < 10 then Inr splitpoints
      else and_then (split_loop qsort lls ds llsize maxblocks (2 * llsize + 1) (replicate llsize False) splitpoints 1 0 llsize)
        (\<lambda>splitpoints.
           if verbose opts then and_then (PrintBlockSplitPoints lls ds llsize splitpoints) (\<lambda>_. Inr splitpoints)
           else Inr splitpoints))"

definition ZopfliBlockSplit :: "(Node list \<Rightarrow> Node list) \<Rightarrow> nat list \<Rightarrow> ZopfliOptions \<Rightarrow> byte list \<Rightarrow> nat \<Rightarrow> nat \<Rightarrow> nat \<Rightarrow>
    failure + nat list" where
  "ZopfliBlockSplit qsort dummysublen opts arr instart inend maxblocks =
     and_then (ZopfliLZ77Greedy dummysublen \<lparr>options = opts, lmc = None, blockstart = instart, blockend = inend\<rparr> arr instart inend
       ZopfliInitLZ77Store) (\<lambda>(s, store).
     and_then (ZopfliBlockSplitLZ77 qsort opts (litlens store) (dists store) (store_size store) maxblocks []) (\<lambda>lz77splitpoints.
     let splitpoints = (if length lz77splitpoints > 0
           then split_positions (lz_items (litlens store) (dists store) 0 (store_size store)) 0 instart lz77splitpoints []
           else [])
     in and_then (assertion (length splitpoints = length lz77splitpoints)) (\<lambda>_. Inr splitpoints)))"

fun BlockSplitSimple_loop :: "nat \<Rightarrow> nat \<Rightarrow> nat \<Rightarrow> nat \<Rightarrow> nat list \<Rightarrow> failure + nat list" where
  "BlockSplitSimple_loop 0 i inend blocksize splitpoints = Inl Out_of_fuel"
| "BlockSplitSimple_loop (Suc fuel) i inend blocksize splitpoints =
     (if i < inend then BlockSplitSimple_loop fuel (i + blocksize) inend blocksize (splitpoints @ [i]) else Inr splitpoints)"

definition ZopfliBlockSplitSimple :: "nat \<Rightarrow> nat \<Rightarrow> nat \<Rightarrow> nat list \<Rightarrow> failure + nat list" where
  "ZopfliBlockSplitSimple instart inend blocksize splitpoints =
     BlockSplitSimple_loop (inend - instart + 1) instart inend blocksize splitpoints"

section \<open>The search for the minimum\<close>

text \<open>A cost that is defined from \<open>a\<close> to \<open>b\<close> and below \<^verbatim>\<open>ZOPFLI_LARGE_FLOAT\<close>.\<close>

definition cost_fun :: "(nat \<Rightarrow> failure + nat) \<Rightarrow> nat \<Rightarrow> nat \<Rightarrow> bool" where
  "cost_fun f a b \<longleftrightarrow> (\<forall>i. a \<le> i \<and> i < b \<longrightarrow> (\<exists>v < 10 ^ 30. f i = Inr v))"

lemma scan_minimum_least:
  assumes "\<forall>i \<in> set is. \<exists>v. f i = Inr v"
  shows "\<exists>r. scan_minimum f is best result = Inr r \<and> (r = result \<and> (\<forall>i \<in> set is. \<forall>v. f i = Inr v \<longrightarrow> best \<le> v) \<or>
    r \<in> set is \<and> (\<exists>m. f r = Inr m \<and> m < best \<and> (\<forall>i \<in> set is. \<forall>v. f i = Inr v \<longrightarrow> m \<le> v)))"
  using assms
proof (induction "is" arbitrary: best result)
  case (Cons i "is")
  then obtain v where v: "f i = Inr v" by auto
  show ?case
  proof (cases "v < best")
    case True
    with Cons.IH [of v i] Cons.prems v show ?thesis by (force dest: less_trans)
  next
    case False
    with Cons.IH [of best result] Cons.prems v show ?thesis by force
  qed
qed simp

lemma try_points_total: "\<forall>p \<in> set ps. \<exists>v. f p = Inr v \<Longrightarrow> \<exists>vs. try_points f ps = Inr vs"
  by (induction ps) force+

lemma search_points_range:
  assumes "9 < stop - start" and "i < 9"
  shows "start \<le> search_points start stop ! i" "search_points start stop ! i < stop"
proof -
  have "(i + 1) * ((stop - start) div 10) \<le> 9 * ((stop - start) div 10)" using assms(2) by (intro mult_right_mono) auto
  moreover have "10 * ((stop - start) div 10) \<le> stop - start" "0 < (stop - start) div 10" using assms(1) by simp_all
  ultimately have "(i + 1) * ((stop - start) div 10) < stop - start" by linarith
  then show "start \<le> search_points start stop ! i" "search_points start stop ! i < stop"
    unfolding search_points_nth [OF assms(2)] by linarith+
qed

lemma narrow_range:
  "cost_fun f start stop \<Longrightarrow> a \<le> start \<Longrightarrow> stop \<le> b \<Longrightarrow> a \<le> pos \<Longrightarrow> pos < b \<Longrightarrow> \<exists>r. narrow f start stop pos lastbest = Inr r \<and> a \<le> r \<and> r < b"
proof (induction f start stop pos lastbest rule: narrow.induct)
  case (1 f start stop pos lastbest)
  note def = narrow.simps [of f start stop pos lastbest]
  show ?case
  proof (cases "stop - start \<le> 9")
    case False
    let ?p = "search_points start stop"
    have range: "start \<le> ?p ! i \<and> ?p ! i < stop" if "i < 9" for i using search_points_range that False by simp
    have "length ?p = 9" by (simp add: search_points_def)
    then have points: "\<exists>i < 9. q = ?p ! i" if "q \<in> set ?p" for q using that by (metis in_set_conv_nth)
    have "\<exists>v. f q = Inr v" if "q \<in> set ?p" for q
    proof -
      from points [OF that] obtain i where "i < 9" "q = ?p ! i" by blast
      with range 1(2) show ?thesis unfolding cost_fun_def by blast
    qed
    then obtain vp where vp: "try_points f ?p = Inr vp" using try_points_total [of ?p f] by blast
    let ?i = "fst (best_point vp)"
    let ?lo = "if ?i = 0 then start else ?p ! (?i - 1)" and ?hi = "if ?i = 8 then stop else ?p ! (?i + 1)"
    show ?thesis
    proof (cases "snd (best_point vp) > lastbest")
      case True
      then show ?thesis using False vp 1(5,6) by (simp add: def)
    next
      case better: False
      have i: "?i < 9" by (rule best_point_less)
      have bounds: "start \<le> ?lo" "?hi \<le> stop"
        using range [of "?i - 1"] range [of "?i + 1"] i by (auto simp: less_imp_le)
      have "cost_fun f ?lo ?hi" using 1(2) bounds by (auto simp: cost_fun_def)
      then have "\<exists>r. narrow f ?lo ?hi (?p ! ?i) (snd (best_point vp)) = Inr r \<and> a \<le> r \<and> r < b"
        using bounds 1(3,4) range [OF i] by (intro 1(1) [OF False refl vp refl refl better]) auto
      then show ?thesis using False vp better by (simp add: def Let_def)
    qed
  qed (use 1 in \<open>simp add: def\<close>)
qed

lemma FindMinimum_range:
  assumes "cost_fun f start stop" and "start < stop"
  shows "\<exists>r. FindMinimum f start stop = Inr r \<and> start \<le> r \<and> r < stop"
proof (cases "stop - start < 1024")
  case True
  have "\<forall>i \<in> set [start..<stop]. \<exists>v. f i = Inr v" using assms(1) by (auto simp: cost_fun_def)
  from scan_minimum_least [OF this, of "10 ^ 30" start] assms True show ?thesis by (auto simp: FindMinimum_def)
next
  case False
  then show ?thesis using narrow_range [OF assms(1) order_refl order_refl order_refl assms(2)] by (simp add: FindMinimum_def)
qed

text \<open>Over short ranges the result is a minimum.\<close>

lemma FindMinimum_least:
  assumes "cost_fun f start stop" and "start < stop" and "stop - start < 1024"
  shows "\<exists>r v. FindMinimum f start stop = Inr r \<and> start \<le> r \<and> r < stop \<and> f r = Inr v \<and>
    (\<forall>i w. start \<le> i \<and> i < stop \<and> f i = Inr w \<longrightarrow> v \<le> w)"
proof -
  have total: "\<forall>i \<in> set [start..<stop]. \<exists>v. f i = Inr v" using assms(1) by (auto simp: cost_fun_def)
  obtain v where v: "f start = Inr v" "v < 10 ^ 30" using assms by (auto simp: cost_fun_def)
  then have "\<not> (\<forall>i \<in> set [start..<stop]. \<forall>v. f i = Inr v \<longrightarrow> 10 ^ 30 \<le> v)" using assms(2) by (auto intro!: bexI [of _ start])
  with scan_minimum_least [OF total, of "10 ^ 30" start] assms(3) show ?thesis by (auto simp: FindMinimum_def)
qed

section \<open>The list of split points\<close>

lemma shift_up_nth:
  assumes "k \<le> length points" "0 < k"
  shows "length (fold (\<lambda>j points. points[j := points ! (j - 1)]) (rev [k..<length points]) points) = length points \<and>
    (\<forall>j < length points. fold (\<lambda>j points. points[j := points ! (j - 1)]) (rev [k..<length points]) points ! j =
       (if k \<le> j then points ! (j - 1) else points ! j))"
  using assms
proof (induction "length points - k" arbitrary: k)
  case (Suc n)
  have "[k..<length points] = k # [Suc k..<length points]" using Suc(2) by (simp add: upt_conv_Cons)
  moreover note Suc(1) [of "Suc k"]
  ultimately show ?case using Suc(2-4) by (auto simp: nth_list_update)
qed simp

lemma insert_at_sorted:
  assumes "sorted points" and "i < length points" and "v < points ! i" and "\<forall>j < i. points ! j \<le> v"
  shows "take i points @ v # drop i points = insort v (points :: nat list)"
proof -
  have "\<forall>x \<in> set (take i points). x \<le> v" using assms(2,4) by (auto simp: in_set_conv_nth)
  moreover have "\<forall>x \<in> set (drop i points). v \<le> x"
  proof -
    have "drop i points = points ! i # drop (Suc i) points" "sorted (drop i points)"
      using assms(1,2) by (simp_all add: Cons_nth_drop_Suc sorted_wrt_drop)
    then show ?thesis using assms(3) by auto
  qed
  ultimately have "sorted (take i points @ v # drop i points)"
    using assms(1) by (fastforce simp: sorted_append sorted_wrt_take sorted_wrt_drop)
  moreover have "mset (take i points @ v # drop i points) = mset (v # points)"
    using union_code [of "take i points" "drop i points"] by simp
  ultimately have "sort (v # points) = take i points @ v # drop i points" by (intro properties_for_sort)
  then show ?thesis using assms(1) by (simp add: sorted_sort_id)
qed

lemma AddSorted_insort:
  assumes "sorted points"
  shows "AddSorted v points = insort v points"
proof (cases "List.find (\<lambda>i. (points @ [v]) ! i > v) [0..<length (points @ [v]) - 1]")
  case None
  then have "\<forall>i < length points. points ! i \<le> v"
    unfolding find_None_iff by (metis atLeast_upt diff_add_inverse2 length_append_singleton lessThan_iff not_less nth_append plus_1_eq_Suc add.commute)
  then have "\<forall>x \<in> set points. x \<le> v" by (auto simp: in_set_conv_nth)
  then show ?thesis using None sorted_insort_is_snoc [OF assms, of v] by (simp add: AddSorted_def)
next
  case (Some i)
  then have find: "i < length points" "(points @ [v]) ! i > v" "\<forall>j < i. \<not> (points @ [v]) ! ([0..<length points] ! j) > v"
    by (auto simp: find_Some_iff)
  have "points ! j \<le> v" if "j < i" for j using find(1) find(3) [rule_format, OF that] that by (simp add: nth_append)
  then have i: "i < length points" "points ! i > v" "\<forall>j < i. points ! j \<le> v" using find(1,2) by (simp_all add: nth_append)
  have shift: "length (shift_up i (points @ [v])) = length points + 1"
      "\<And>j. j \<le> length points \<Longrightarrow> shift_up i (points @ [v]) ! j = (if i < j then (points @ [v]) ! (j - 1) else (points @ [v]) ! j)"
    using shift_up_nth [of "i + 1" "points @ [v]"] i(1) by (auto simp: shift_up_def Suc_le_eq less_Suc_eq_le)
  have "(shift_up i (points @ [v]))[i := v] = take i points @ v # drop i points"
  proof (rule nth_equalityI)
    fix j
    assume "j < length ((shift_up i (points @ [v]))[i := v])"
    then show "(shift_up i (points @ [v]))[i := v] ! j = (take i points @ v # drop i points) ! j"
      using shift i(1) by (auto simp: nth_list_update nth_append nth_Cons' min_def)
  qed (use shift i(1) in simp)
  then show ?thesis using Some insert_at_sorted [OF assms i] by (simp add: AddSorted_def)
qed

text \<open>Split points are strictly between 0 and the number of items, and ascend strictly.\<close>

definition points_ok :: "nat \<Rightarrow> nat \<Rightarrow> nat list \<Rightarrow> bool" where
  "points_ok a b points \<longleftrightarrow> sorted_wrt (<) points \<and> (\<forall>p \<in> set points. a < p \<and> p < b)"

lemma points_ok_length: "points_ok a b points \<Longrightarrow> a < b \<Longrightarrow> length points < b - a"
proof -
  assume ok: "points_ok a b points" and "a < b"
  then have "distinct points" by (simp add: points_ok_def strict_sorted_iff)
  moreover have "card (set points) \<le> card {a<..<b}" using ok by (intro card_mono) (auto simp: points_ok_def)
  ultimately show ?thesis using \<open>a < b\<close> by (simp add: distinct_card)
qed

lemma points_ok_insort:
  assumes "points_ok a b points" and "a < v" and "v < b" and "v \<notin> set points"
  shows "AddSorted v points = insort v points" "points_ok a b (AddSorted v points)" "length (AddSorted v points) = Suc (length points)"
proof -
  have s: "sorted points" "distinct points" using assms(1) by (simp_all add: points_ok_def strict_sorted_iff)
  show eq: "AddSorted v points = insort v points" by (rule AddSorted_insort [OF s(1)])
  show "points_ok a b (AddSorted v points)" "length (AddSorted v points) = Suc (length points)"
    using assms s by (auto simp: eq points_ok_def strict_sorted_iff set_insort_key sorted_insort distinct_insort)
qed

text \<open>A block between two neighbouring points, or an end of the list.\<close>

definition gap :: "nat \<Rightarrow> nat list \<Rightarrow> nat \<Rightarrow> nat \<Rightarrow> bool" where
  "gap llsize points lstart lend \<longleftrightarrow> lstart < lend \<and> lend \<le> llsize \<and> (\<forall>p \<in> set points. p \<le> lstart \<or> lend \<le> p)"

lemma gap_between:
  assumes ok: "points_ok 0 llsize points" and i: "i \<le> length points"
    and bounds: "start = (if i = 0 then 0 else points ! (i - 1))" "stop = (if i = length points then llsize - 1 else points ! i)"
    and "start < stop"
  shows "gap llsize points start stop"
proof -
  have s: "\<And>i j. i < j \<Longrightarrow> j < length points \<Longrightarrow> points ! i < points ! j" "\<And>p. p \<in> set points \<Longrightarrow> 0 < p \<and> p < llsize"
    using ok by (auto simp: points_ok_def sorted_wrt_iff_nth_less)
  have "points ! j \<le> start \<or> stop \<le> points ! j" if j: "j < length points" for j
  proof (cases "j < i")
    case True
    then have "j = i - 1 \<or> j < i - 1 \<and> i - 1 < length points" using i by auto
    then show ?thesis using True s(1) [of j "i - 1"] bounds by auto
  next
    case False
    then have "j = i \<or> i < j" "i \<noteq> length points" using j by auto
    then show ?thesis using s(1) [of i j] j bounds by auto
  qed
  moreover have "stop \<le> llsize" using s(2) i bounds by (auto simp: less_imp_le)
  ultimately show ?thesis using \<open>start < stop\<close> by (auto simp: gap_def all_set_conv_all_nth)
qed

lemma FindLargestSplittableBlock_gap:
  assumes ok: "points_ok 0 llsize points" and found: "FindLargestSplittableBlock llsize finished points = Some (lstart, lend)"
  shows "gap llsize points lstart lend" "\<not> finished ! lstart"
proof -
  let ?step = "\<lambda>i (longest, found).
         let start = (if i = 0 then 0 else points ! (i - 1));
             stop = (if i = length points then llsize - 1 else points ! i)
         in if \<not> finished ! start \<and> stop - start > longest then (stop - start, Some (start, stop)) else (longest, found)"
  let ?good = "\<lambda>found. \<forall>a b. found = Some (a, b) \<longrightarrow> gap llsize points a b \<and> \<not> finished ! a"
  have step: "?good (snd (?step i (longest, found)))" if "i \<le> length points" "?good found" for i longest found
  proof -
    define start stop where "start = (if i = 0 then 0 else points ! (i - 1))" and "stop = (if i = length points then llsize - 1 else points ! i)"
    then have "?step i (longest, found) = (if \<not> finished ! start \<and> stop - start > longest then (stop - start, Some (start, stop)) else (longest, found))"
      by (simp add: Let_def)
    then show ?thesis using gap_between [OF ok that(1) start_def stop_def] that(2) by auto
  qed
  have fold: "?good (snd (fold ?step is st))" if "\<forall>i \<in> set is. i \<le> length points" "?good (snd st)" for "is" st
    using that
  proof (induction "is" arbitrary: st)
    case (Cons i "is")
    have "?good (snd (?step i (fst st, snd st)))" by (rule step) (use Cons.prems in auto)
    then have good: "?good (snd (?step i st))" unfolding prod.collapse .
    have "\<forall>i \<in> set is. i \<le> length points" using Cons.prems(1) by simp
    from Cons.IH [OF this good] show ?case unfolding fold_simps .
  qed simp
  have "?good (FindLargestSplittableBlock llsize finished points)"
    unfolding FindLargestSplittableBlock_def by (rule fold) (simp_all add: less_Suc_eq_le del: upt_Suc)
  with found show "gap llsize points lstart lend" "\<not> finished ! lstart" by blast+
qed

section \<open>The loop\<close>

lemma finish_fewer: "i < length finished \<Longrightarrow> \<not> finished ! i \<Longrightarrow> length (filter Not (finished[i := True])) < length (filter Not finished)"
  by (subst (2) id_take_nth_drop [of i finished]) (simp_all add: upd_conv_take_nth_drop)

definition costs_total :: "(Node list \<Rightarrow> Node list) \<Rightarrow> nat list \<Rightarrow> nat list \<Rightarrow> nat \<Rightarrow> bool" where
  "costs_total qsort lls ds llsize \<longleftrightarrow>
     (\<forall>a b. a \<le> b \<and> b \<le> llsize \<longrightarrow> (\<exists>c. EstimateCost qsort lls ds a b = Inr c \<and> 2 * c < 10 ^ 30))"

lemma SplitCost_total:
  assumes "costs_total qsort lls ds llsize" and "lstart \<le> i" and "i \<le> lend" and "lend \<le> llsize"
  shows "\<exists>c < 10 ^ 30. SplitCost qsort lls ds lstart lend i = Inr c"
proof -
  obtain a b where "EstimateCost qsort lls ds lstart i = Inr a" "2 * a < 10 ^ 30" "EstimateCost qsort lls ds i lend = Inr b" "2 * b < 10 ^ 30"
    using assms unfolding costs_total_def by (meson le_trans)
  then show ?thesis by (simp add: SplitCost_def)
qed

definition split_inv :: "nat \<Rightarrow> nat \<Rightarrow> bool list \<Rightarrow> nat list \<Rightarrow> nat \<Rightarrow> nat \<Rightarrow> bool" where
  "split_inv llsize maxblocks finished points lstart lend \<longleftrightarrow> points_ok 0 llsize points \<and> length finished = llsize \<and>
     gap llsize points lstart lend \<and> 10 \<le> lend - lstart \<and> \<not> finished ! lstart \<and> (0 < maxblocks \<longrightarrow> length points + 1 \<le> maxblocks)"

lemma split_point:
  assumes "costs_total qsort lls ds llsize" and "split_inv llsize maxblocks finished points lstart lend"
  shows "\<exists>llpos splitcost origcost. FindMinimum (SplitCost qsort lls ds lstart lend) (lstart + 1) lend = Inr llpos \<and>
    lstart < llpos \<and> llpos < lend \<and> SplitCost qsort lls ds lstart lend llpos = Inr splitcost \<and>
    EstimateCost qsort lls ds lstart lend = Inr origcost"
proof -
  note inv = assms(2) [unfolded split_inv_def gap_def]
  have f: "cost_fun (SplitCost qsort lls ds lstart lend) (lstart + 1) lend"
    using SplitCost_total [OF assms(1)] inv by (simp add: cost_fun_def)
  have "lstart + 1 < lend" using inv by linarith
  then obtain llpos where pos: "FindMinimum (SplitCost qsort lls ds lstart lend) (lstart + 1) lend = Inr llpos" "lstart < llpos" "llpos < lend"
    using FindMinimum_range [OF f] by (auto simp: Suc_le_eq)
  moreover obtain c where "SplitCost qsort lls ds lstart lend llpos = Inr c"
    using SplitCost_total [OF assms(1), of lstart llpos lend] pos inv by auto
  moreover obtain c' where "EstimateCost qsort lls ds lstart lend = Inr c'"
    using assms(1) inv unfolding costs_total_def by (meson less_imp_le)
  ultimately show ?thesis by blast
qed

lemma split_inv_next:
  assumes inv: "split_inv llsize maxblocks finished points lstart lend"
    and pos: "lstart < llpos" "llpos < lend"
    and new: "finished' = (if giveup then finished[lstart := True] else finished)" "points' = (if giveup then points else AddSorted llpos points)"
    and more: "0 < maxblocks \<longrightarrow> length points + 1 < maxblocks"
  shows "points_ok 0 llsize points'" "length finished' = llsize" "0 < maxblocks \<longrightarrow> length points' + 1 \<le> maxblocks"
    "length (filter Not finished') + (llsize - length points') < length (filter Not finished) + (llsize - length points)"
    "(if giveup then length points + 1 else length points + 1 + 1) = length points' + 1"
proof -
  note inv = inv [unfolded split_inv_def gap_def]
  have llpos: "0 < llpos" "llpos < llsize" "llpos \<notin> set points" using inv pos by auto
  note add = points_ok_insort [OF inv [THEN conjunct1] llpos]
  show ok: "points_ok 0 llsize points'" using add(2) inv new by simp
  show "length finished' = llsize" using inv new by simp
  show "0 < maxblocks \<longrightarrow> length points' + 1 \<le> maxblocks" using more add(3) new by auto
  have "length points < llsize" "length points' < llsize" using points_ok_length [OF _, of 0 llsize] ok inv llpos by auto
  then show "length (filter Not finished') + (llsize - length points') < length (filter Not finished) + (llsize - length points)"
    using finish_fewer [of lstart finished] inv new add(3) by auto
  show "(if giveup then length points + 1 else length points + 1 + 1) = length points' + 1" using add(3) new by simp
qed

lemma split_loop_points:
  assumes "costs_total qsort lls ds llsize"
  shows "split_inv llsize maxblocks finished points lstart lend \<Longrightarrow> length (filter Not finished) + (llsize - length points) < fuel \<Longrightarrow>
    \<exists>points'. split_loop qsort lls ds llsize maxblocks fuel finished points (length points + 1) lstart lend = Inr points' \<and>
      points_ok 0 llsize points' \<and> (0 < maxblocks \<longrightarrow> length points' + 1 \<le> maxblocks)"
proof (induction fuel arbitrary: finished points lstart lend)
  case (Suc fuel)
  note inv = Suc.prems(1)
  show ?case
  proof (cases "0 < maxblocks \<and> length points + 1 \<ge> maxblocks")
    case True
    then show ?thesis using inv by (simp add: split_inv_def)
  next
    case False
    obtain llpos splitcost origcost where p: "FindMinimum (SplitCost qsort lls ds lstart lend) (lstart + 1) lend = Inr llpos"
        "lstart < llpos" "llpos < lend" "SplitCost qsort lls ds lstart lend llpos = Inr splitcost"
        "EstimateCost qsort lls ds lstart lend = Inr origcost"
      using split_point [OF assms inv] by blast
    have gap: "lstart < lend" using inv by (simp add: split_inv_def gap_def)
    define giveup finished' points' where "giveup = (splitcost > origcost \<or> llpos = lstart + 1 \<or> llpos = lend)"
      and "finished' = (if giveup then finished[lstart := True] else finished)"
      and "points' = (if giveup then points else AddSorted llpos points)"
    have "0 < maxblocks \<longrightarrow> length points + 1 < maxblocks" using False by auto
    note new = split_inv_next [OF inv p(2,3) finished'_def points'_def this]
    have run: "split_loop qsort lls ds llsize maxblocks (Suc fuel) finished points (length points + 1) lstart lend =
        (case FindLargestSplittableBlock llsize finished' points' of None \<Rightarrow> Inr points'
         | Some (lstart, lend) \<Rightarrow> if lend - lstart < 10 then Inr points'
             else split_loop qsort lls ds llsize maxblocks fuel finished' points' (length points' + 1) lstart lend)"
      unfolding split_loop.simps(2) using False p gap unfolding new(5) [symmetric]
      by (simp only: and_then.simps assertion_iff if_False Let_def finished'_def points'_def giveup_def)
    show ?thesis
    proof (cases "FindLargestSplittableBlock llsize finished' points'")
      case None
      then show ?thesis using run new by simp
    next
      case (Some block)
      obtain a b where block: "block = (a, b)" by fastforce
      note largest = FindLargestSplittableBlock_gap [OF new(1) Some [unfolded block]]
      show ?thesis
      proof (cases "b - a < 10")
        case True
        then show ?thesis using run new Some block by simp
      next
        case False
        then have "split_inv llsize maxblocks finished' points' a b" using new(1-3) largest by (simp add: split_inv_def)
        with Suc.IH [OF this] new(4) Suc.prems(2) run Some block False show ?thesis by simp
      qed
    qed
  qed
qed simp

lemma lz_items_part: "a \<le> b \<Longrightarrow> b \<le> n \<Longrightarrow> set (lz_items lls ds a b) \<subseteq> set (lz_items lls ds 0 n)"
  by (auto simp: lz_items_def)

lemma costs_totalI:
  assumes q: "qsort_ok qsort" and ok: "\<forall>p \<in> set (lz_items lls ds 0 llsize). lz_item_ok p" and small: "llsize < 2 ^ 31"
  shows "costs_total qsort lls ds llsize"
  unfolding costs_total_def
proof (intro allI impI)
  fix a b
  assume ab: "a \<le> b \<and> b \<le> llsize"
  then have "\<forall>p \<in> set (lz_items lls ds a b). lz_item_ok p" using ok lz_items_part by blast
  moreover have n: "length (lz_items lls ds a b) = b - a" by (simp add: lz_items_def)
  moreover have "b - a < 2 ^ 31" using ab small by linarith
  ultimately obtain c where "EstimateCost qsort lls ds a b = Inr c" "c \<le> 4577 + 48 * (b - a)"
    using ZopfliCalculateBlockSize_bound [OF q _ refl, of 2 lls ds a b] ab small by (auto simp: EstimateCost_def)
  then show "\<exists>c. EstimateCost qsort lls ds a b = Inr c \<and> 2 * c < 10 ^ 30" using ab small by auto
qed

section \<open>Positions in the data\<close>

definition item_pos :: "(nat \<times> nat) list \<Rightarrow> nat \<Rightarrow> nat" where
  "item_pos items p = sum_list (map item_size (take p items))"

lemma split_positions_map:
  "sorted_wrt (<) ps \<Longrightarrow> ps \<noteq> [] \<Longrightarrow> \<forall>p \<in> set ps. i \<le> p \<and> p < i + length items \<Longrightarrow> length qs = length points \<Longrightarrow>
   split_positions items i pos (qs @ ps) points = points @ map (\<lambda>p. pos + item_pos items (p - i)) ps"
proof (induction items arbitrary: i pos qs ps points)
  case Nil
  then show ?case by (cases ps) auto
next
  case (Cons item items)
  obtain l d where item: "item = (l, d)" by fastforce
  obtain p ps' where ps: "ps = p # ps'" using Cons.prems(2) by (cases ps) auto
  have len: "(if d = 0 then 1 else l) = item_size item" by (simp add: item item_size_def)
  have cons: "item_pos (item # items) (q - i) = item_size item + item_pos items (q - Suc i)" if "i < q" for q
  proof -
    have "q - i = Suc (q - Suc i)" using that by simp
    then show ?thesis by (simp add: item_pos_def)
  qed
  note run = split_positions.simps(2) [of l d items i pos "qs @ ps" points, folded item, unfolded len Let_def]
  show ?case
  proof (cases "p = i")
    case True
    have later: "\<forall>q \<in> set ps'. Suc i \<le> q \<and> q < Suc i + length items" "sorted_wrt (<) ps'"
      using Cons.prems(1,3) True by (auto simp: ps)
    have head: "(qs @ ps) ! length points = i" using Cons.prems(4) True by (simp add: ps nth_append)
    show ?thesis
    proof (cases "ps' = []")
      case True': True
      then show ?thesis using run head Cons.prems(4) True by (simp add: ps item_pos_def)
    next
      case False
      have "split_positions items (Suc i) (pos + item_size item) ((qs @ [p]) @ ps') (points @ [pos]) =
          (points @ [pos]) @ map (\<lambda>p. pos + item_size item + item_pos items (p - Suc i)) ps'"
        by (rule Cons.IH) (use later False Cons.prems(4) in auto)
      moreover have "length (points @ [pos]) \<noteq> length (qs @ ps)" using False Cons.prems(4) by (cases ps') (auto simp: ps)
      ultimately show ?thesis using run head True cons later(1) by (auto simp: ps item_pos_def Suc_le_eq)
    qed
  next
    case False
    then have later: "\<forall>q \<in> set ps. Suc i \<le> q \<and> q < Suc i + length items" using Cons.prems(1,3) by (fastforce simp: ps)
    have "(qs @ ps) ! length points \<noteq> i" using Cons.prems(4) False by (simp add: ps nth_append)
    moreover have "split_positions items (Suc i) (pos + item_size item) (qs @ ps) points =
        points @ map (\<lambda>p. pos + item_size item + item_pos items (p - Suc i)) ps"
      by (rule Cons.IH) (use later Cons.prems in auto)
    ultimately show ?thesis using run cons later by (auto simp: Suc_le_eq)
  qed
qed

lemma split_positions_0:
  assumes "points_ok 0 (length items) points" and "points \<noteq> []"
  shows "split_positions items 0 pos points [] = map (\<lambda>p. pos + item_pos items p) points"
  using split_positions_map [of points 0 items "[]" "[]" pos] assms by (auto simp: points_ok_def)

lemma item_pos_mono:
  assumes ok: "\<forall>p \<in> set items. lz_item_ok p" and "a < b" and "b \<le> length items"
  shows "item_pos items a < item_pos items b"
proof -
  have "take b items = take a items @ take (b - a) (drop a items)" using assms(2) by (metis le_add_diff_inverse less_imp_le take_add)
  then have "item_pos items b = item_pos items a + sum_list (map item_size (take (b - a) (drop a items)))" by (simp add: item_pos_def)
  moreover have "\<forall>p \<in> set (take (b - a) (drop a items)). lz_item_ok p" using ok by (meson in_set_dropD in_set_takeD)
  from length_le_sizes [OF this] have "b - a \<le> sum_list (map item_size (take (b - a) (drop a items)))" using assms by simp
  ultimately show ?thesis using assms(2) by simp
qed

lemma points_ok_map:
  assumes ok: "\<forall>p \<in> set items. lz_item_ok p" and points: "points_ok 0 (length items) points"
  shows "points_ok a (a + item_pos items (length items)) (map (\<lambda>p. a + item_pos items p) points)"
proof -
  have "item_pos items 0 = 0" by (simp add: item_pos_def)
  then have "0 < item_pos items p \<and> item_pos items p < item_pos items (length items)" if "p \<in> set points" for p
    using item_pos_mono [OF ok, of 0 p] item_pos_mono [OF ok, of p "length items"] points that by (simp add: points_ok_def less_imp_le)
  moreover have "sorted_wrt (\<lambda>p q. item_pos items p < item_pos items q) points"
    by (rule sorted_wrt_mono_rel [of _ "(<)"]) (use points item_pos_mono [OF ok] in \<open>auto simp: points_ok_def less_imp_le\<close>)
  ultimately show ?thesis by (auto simp: points_ok_def sorted_wrt_map)
qed

section \<open>The splitters\<close>

lemma ZopfliBlockSplitLZ77_points:
  assumes q: "qsort_ok qsort" and ok: "\<forall>p \<in> set (lz_items lls ds 0 llsize). lz_item_ok p" and small: "llsize < 2 ^ 31"
  shows "\<exists>points. ZopfliBlockSplitLZ77 qsort opts lls ds llsize maxblocks [] = Inr points \<and> points_ok 0 llsize points \<and>
    (0 < maxblocks \<longrightarrow> length points + 1 \<le> maxblocks)"
proof (cases "llsize < 10")
  case True
  then show ?thesis by (simp add: ZopfliBlockSplitLZ77_def points_ok_def Suc_le_eq)
next
  case False
  have "split_inv llsize maxblocks (replicate llsize False) [] 0 llsize"
    using False by (simp add: split_inv_def points_ok_def gap_def Suc_le_eq)
  from split_loop_points [OF costs_totalI [OF q ok small] this, of "2 * llsize + 1"]
  obtain points where points: "split_loop qsort lls ds llsize maxblocks (2 * llsize + 1) (replicate llsize False) [] 1 0 llsize = Inr points"
      "points_ok 0 llsize points" "0 < maxblocks \<longrightarrow> length points + 1 \<le> maxblocks"
    by (auto simp del: split_loop.simps)
  have "PrintBlockSplitPoints lls ds llsize points = Inr ()"
    using split_positions_0 [of "lz_items lls ds 0 llsize" points 0] points(2) by (simp add: PrintBlockSplitPoints_def lz_items_def)
  then show ?thesis using points False by (simp add: ZopfliBlockSplitLZ77_def del: split_loop.simps)
qed

lemma encodes_sum:
  assumes "encodes arr a b store" and "a \<le> b" and "b \<le> length arr"
  shows "sum_list (map item_size (store_items store)) = b - a"
proof -
  have "length (lz_decode (store_items store) (take a arr)) = length (take b arr)" using assms(1) by (simp add: encodes_def)
  then show ?thesis using assms(2,3) by (simp add: length_lz_decode)
qed

lemma ZopfliBlockSplit_points:
  assumes q: "qsort_ok qsort" and sub: "length dummysublen = 259" and arr: "windowstart instart + 1 < length arr"
    and range: "instart \<le> inend" "inend \<le> length arr" and small: "inend - instart < 2 ^ 31"
  shows "\<exists>points. ZopfliBlockSplit qsort dummysublen opts arr instart inend maxblocks = Inr points \<and> points_ok instart inend points \<and>
    (0 < maxblocks \<longrightarrow> length points + 1 \<le> maxblocks)"
proof -
  let ?s = "\<lparr>options = opts, lmc = None, blockstart = instart, blockend = inend\<rparr>"
  have "block_ok arr ?s" using arr range by (simp add: block_ok_def)
  from ZopfliLZ77Greedy_encodes [OF this sub encodes_init]
  obtain s store where g: "ZopfliLZ77Greedy dummysublen ?s arr instart inend ZopfliInitLZ77Store = Inr (s, store)" "encodes arr instart inend store"
    by auto
  let ?items = "lz_items (litlens store) (dists store) 0 (store_size store)"
  have items: "length ?items = store_size store" "\<forall>p \<in> set ?items. lz_item_ok p" using encodes_items [OF g(2)] by (simp_all add: lz_items_def)
  have "store_size store < 2 ^ 31" using encodes_size [OF g(2) range] small by simp
  from ZopfliBlockSplitLZ77_points [OF q items(2) this]
  obtain lz where lz: "ZopfliBlockSplitLZ77 qsort opts (litlens store) (dists store) (store_size store) maxblocks [] = Inr lz"
      "points_ok 0 (length ?items) lz" "0 < maxblocks \<longrightarrow> length lz + 1 \<le> maxblocks"
    unfolding items(1) by blast
  have "instart + item_pos ?items (length ?items) = inend"
    using encodes_sum [OF g(2) range] g(2) range by (simp add: item_pos_def lz_items_store encodes_def)
  then have "points_ok instart inend (map (\<lambda>p. instart + item_pos ?items p) lz)" using points_ok_map [OF items(2) lz(2), of instart] by simp
  then show ?thesis using g(1) lz split_positions_0 [OF lz(2), of instart] by (cases "lz = []") (simp_all add: ZopfliBlockSplit_def)
qed

lemma simple_count:
  assumes "0 < (x :: nat)" and "0 < n"
  shows "(x + n - 1) div n = Suc ((x - n + n - 1) div n)"
proof -
  obtain y where y: "x = Suc y" using assms(1) by (cases x) auto
  have "(y + n) div n = Suc (y div n)" using assms(2) by simp
  moreover have "y div n = (x - n + n - 1) div n" using y assms(2) by (cases "n \<le> x") auto
  ultimately show ?thesis using y by simp
qed

lemma BlockSplitSimple_loop_points:
  assumes "0 < blocksize"
  shows "inend - i < fuel \<Longrightarrow> BlockSplitSimple_loop fuel i inend blocksize points =
    Inr (points @ map (\<lambda>k. i + k * blocksize) [0..<(inend - i + blocksize - 1) div blocksize])"
proof (induction fuel arbitrary: i points)
  case (Suc fuel)
  show ?case
  proof (cases "i < inend")
    case True
    let ?n = "(inend - (i + blocksize) + blocksize - 1) div blocksize"
    have n: "(inend - i + blocksize - 1) div blocksize = Suc ?n" using simple_count [of "inend - i" blocksize] True assms by simp
    have "[0..<Suc ?n] = 0 # map Suc [0..<?n]" by (simp add: upt_conv_Cons map_Suc_upt del: upt_Suc)
    then have "map (\<lambda>k. i + k * blocksize) [0..<Suc ?n] = i # map (\<lambda>k. i + blocksize + k * blocksize) [0..<?n]"
      by (simp add: add.assoc o_def del: upt_Suc)
    moreover have "inend - (i + blocksize) < fuel" using Suc.prems True assms by linarith
    ultimately show ?thesis using Suc.IH [of "i + blocksize" "points @ [i]"] True unfolding n by simp
  next
    case False
    then show ?thesis using assms by simp
  qed
qed simp

section \<open>Properties\<close>

text \<open>
  C17. The splitter ends and its points are usable: over any part of the data of less than \<open>2\<^sup>3\<^sup>1\<close> bytes
  \<^verbatim>\<open>ZopfliBlockSplit\<close> returns within the rounds its loop is given, with no assertion failing, the points ascend
  strictly between start and end, and there are never more blocks than asked for (0 stands for any number).
\<close>

theorem split_points_ascend:
  assumes "qsort_ok qsort" and "length dummysublen = 259" and "windowstart instart + 1 < length arr"
    and "instart \<le> inend" and "inend \<le> length arr" and "inend - instart < 2 ^ 31"
  shows "\<exists>points. ZopfliBlockSplit qsort dummysublen opts arr instart inend maxblocks = Inr points \<and> sorted_wrt (<) points \<and>
    (\<forall>p \<in> set points. instart < p \<and> p < inend) \<and> (0 < maxblocks \<longrightarrow> length points + 1 \<le> maxblocks)"
  using ZopfliBlockSplit_points [OF assms, of opts maxblocks] by (auto simp: points_ok_def)

theorem split_points_ascend_witness:
  "\<exists>points. ZopfliBlockSplit (sort_key weight) (replicate 259 0) ZopfliInitOptions (replicate 100 7) 10 90 15 = Inr points \<and> sorted_wrt (<) points \<and>
    (\<forall>p \<in> set points. 10 < p \<and> p < 90) \<and> (0 < (15 :: nat) \<longrightarrow> length points + 1 \<le> 15)"
  by (rule split_points_ascend [OF qsort_ok_sort_key]) (simp_all add: windowstart_def ZOPFLI_WINDOW_SIZE_def)

end
