(* ===== verification/Zopfli_Checksum.thy ===== *)
theory Zopfli_Checksum
  imports Zopfli_Bits
begin

text \<open>
  The checksums of the container formats: the CRC-32 of \<^verbatim>\<open>gzip_container.cc\<close>, computed with a table of 256
  entries, and the Adler-32 of \<^verbatim>\<open>zlib_container.cc\<close>, which reduces its sums only once per 5550 bytes.
  Each is shown to be the checksum of its specification (RFC 1952, RFC 1950), the second without an
  overflow of its 32-bit sums.
\<close>

section \<open>CRC-32\<close>

text \<open>\<^verbatim>\<open>unsigned long\<close> has 64 bits. The table is computed once, on first use.\<close>

definition crc_shift :: "size_t \<Rightarrow> size_t" where
  "crc_shift c = (if c AND 1 \<noteq> 0 then 0xedb88320 XOR drop_bit 1 c else drop_bit 1 c)"

definition MakeCRCTable :: "size_t list" where
  "MakeCRCTable = map (\<lambda>n. (crc_shift ^^ 8) (of_nat n)) [0..<256]"

definition crc_update :: "byte \<Rightarrow> size_t \<Rightarrow> size_t" where
  "crc_update b c = MakeCRCTable ! unat ((c XOR ucast b) AND 0xff) XOR drop_bit 8 c"

definition UpdateCRC :: "size_t \<Rightarrow> byte list \<Rightarrow> size_t" where
  "UpdateCRC crc buf = fold crc_update buf (crc XOR 0xffffffff) XOR 0xffffffff"

text \<open>
  The length is passed as an \<^verbatim>\<open>int\<close> and widened again: a negative one sends the loop past the end of
  the buffer.
\<close>

definition CRC :: "byte list \<Rightarrow> failure + size_t" where
  "CRC buf =
     (let len = sint (of_nat (length buf) :: uint32)
      in if len < 0 then Inl Out_of_range else Inr (UpdateCRC 0 (take (nat len) buf)))"

subsection \<open>The bit by bit definition\<close>

definition crc_bit :: "bool \<Rightarrow> size_t \<Rightarrow> size_t" where
  "crc_bit b c = (if odd c \<noteq> b then 0xedb88320 XOR drop_bit 1 c else drop_bit 1 c)"

definition crc32 :: "byte list \<Rightarrow> size_t" where
  "crc32 bytes = fold crc_bit (bits_of bytes) 0xffffffff XOR 0xffffffff"

lemma and_1_odd: "c AND 1 \<noteq> (0 :: size_t) \<longleftrightarrow> odd c"
  by (simp add: and_one_eq mod_2_eq_odd)

lemma odd_xor: "odd (a XOR b :: size_t) \<longleftrightarrow> (odd a \<noteq> odd b)"
  by (simp add: even_xor_iff)

lemma crc_shift_xor: "crc_shift (a XOR b) = crc_shift a XOR crc_shift b"
  unfolding crc_shift_def and_1_odd odd_xor by (rule bit_word_eqI) (auto simp: bit_simps)

lemma crc_shift_pow_xor: "(crc_shift ^^ n) (a XOR b) = (crc_shift ^^ n) a XOR (crc_shift ^^ n) b"
  by (induction n) (simp_all add: crc_shift_xor)

lemma crc_shift_even: "even c \<Longrightarrow> crc_shift c = drop_bit 1 c"
  unfolding crc_shift_def and_1_odd by simp

lemma crc_shift_zeros: "n \<le> 8 \<Longrightarrow> (crc_shift ^^ n) (push_bit n x) = (drop_bit n (push_bit n x))"
proof (induction n arbitrary: x)
  case (Suc n)
  have "(crc_shift ^^ n) (push_bit n (push_bit 1 x)) = drop_bit n (push_bit n (push_bit 1 x))"
    using Suc by simp
  moreover have "push_bit n (push_bit 1 x) = push_bit (Suc n) x" by (simp add: push_bit_push_bit)
  moreover have "even (drop_bit n (push_bit (Suc n) x))" by (simp add: even_drop_bit_iff_not_bit bit_push_bit_iff del: push_bit_Suc)
  ultimately have "(crc_shift ^^ Suc n) (push_bit (Suc n) x) = drop_bit 1 (drop_bit n (push_bit (Suc n) x))"
    by (simp only: funpow.simps o_apply crc_shift_even)
  then show ?case by (simp only: drop_bit_drop_bit add.commute plus_1_eq_Suc)
qed simp

lemma low_byte: "(0xff :: size_t) = mask 8"
  by (simp add: mask_eq_exp_minus_1)

lemma low_byte_less: "unat (x AND 0xff :: size_t) < 256"
proof -
  have "x AND 0xff = take_bit 8 x" unfolding low_byte by (simp add: take_bit_eq_mask)
  then have "unat (x AND 0xff) = take_bit 8 (unat x)" by (simp only: unsigned_take_bit_eq)
  also have "\<dots> < 2 ^ 8" by (rule take_bit_nat_less_exp)
  finally show ?thesis by simp
qed

lemma crc_shift_high: "(crc_shift ^^ 8) (c AND NOT 0xff) = drop_bit 8 c"
proof -
  have high: "c AND NOT 0xff = push_bit 8 (drop_bit 8 c)"
    unfolding low_byte by (rule bit_word_eqI) (auto simp: bit_simps)
  have "drop_bit 8 (push_bit 8 (drop_bit 8 c)) = drop_bit 8 c"
    by (rule bit_word_eqI) (auto simp: bit_simps dest: bit_imp_le_length)
  then show ?thesis unfolding high using crc_shift_zeros [of 8 "drop_bit 8 c"] by simp
qed

text \<open>One table entry stands for eight steps.\<close>

lemma crc_update_shift: "crc_update b c = (crc_shift ^^ 8) (c XOR ucast b)"
proof -
  let ?x = "c XOR ucast b"
  have split: "?x = (?x AND 0xff) XOR (?x AND NOT 0xff)" by (rule bit_word_eqI) (auto simp: bit_simps)
  have high: "drop_bit 8 ?x = drop_bit 8 c"
    by (rule bit_word_eqI) (auto simp: bit_simps dest: bit_imp_le_length)
  have "(crc_shift ^^ 8) ?x = (crc_shift ^^ 8) (?x AND 0xff) XOR drop_bit 8 ?x"
    by (subst split) (simp only: crc_shift_pow_xor crc_shift_high)
  then show ?thesis unfolding crc_update_def MakeCRCTable_def using low_byte_less [of ?x] high by simp
qed

lemma crc_bit_shift: "crc_bit b c = crc_shift (c XOR of_bool b)"
proof -
  have "drop_bit 1 (c XOR of_bool b) = drop_bit 1 c" by (rule bit_word_eqI) (auto simp: bit_simps)
  then show ?thesis by (simp add: crc_bit_def crc_shift_def and_1_odd odd_xor)
qed

text \<open>The bits of a message may be added all at once, ahead of the steps that shift them out.\<close>

lemma fold_crc_bit:
  assumes "length bs \<le> 64"
  shows "fold crc_bit bs c = (crc_shift ^^ length bs) (c XOR horner_sum of_bool 2 bs)"
  using assms
proof (induction bs arbitrary: c)
  case (Cons b bs)
  let ?h = "horner_sum of_bool 2 bs :: size_t"
  have even: "\<not> bit (2 * ?h) 0" by (simp add: bit_0)
  have sum: "of_bool b + 2 * ?h = of_bool b XOR 2 * ?h"
    by (cases b) (simp_all add: one_xor_eq)
  have bs: "length bs < 64" using Cons.prems by simp
  have "crc_shift (2 * ?h) = ?h"
  proof -
    have "drop_bit k (push_bit k ?h) = ?h" if "k + length bs \<le> 64" for k
      by (rule bit_word_eqI) (use that in \<open>auto simp: bit_simps bit_horner_sum_bit_word_iff\<close>)
    from this [of 1] bs show ?thesis by (simp add: crc_shift_def and_1_odd push_bit_eq_mult mult.commute)
  qed
  then have "crc_shift (c XOR (of_bool b + 2 * ?h)) = crc_bit b c XOR ?h"
    unfolding sum crc_bit_shift by (simp only: crc_shift_xor xor.assoc [symmetric])
  moreover have "fold crc_bit bs (crc_bit b c) = (crc_shift ^^ length bs) (crc_bit b c XOR ?h)"
    using Cons.IH bs by simp
  ultimately show ?case by (simp add: funpow_swap1)
qed simp

lemma fold_crc_byte: "fold crc_bit (bits_of_byte b) c = crc_update b c"
proof -
  have "(horner_sum of_bool 2 (bits_of_byte b) :: size_t) = ucast b"
  proof (rule bit_word_eqI)
    fix n
    have "bit b n \<Longrightarrow> n < 8" using bit_imp_le_length [of b n] by simp
    then show "bit (horner_sum of_bool 2 (bits_of_byte b) :: size_t) n = bit (ucast b :: size_t) n" if "n < LENGTH(64)"
      using that by (cases "n < 8") (auto simp: bit_simps bit_horner_sum_bit_word_iff bits_of_byte_def)
  qed
  then show ?thesis using fold_crc_bit [of "bits_of_byte b" c] by (simp add: crc_update_shift)
qed

lemma UpdateCRC_eq: "UpdateCRC 0 buf = crc32 buf"
proof -
  have "fold crc_update buf c = fold crc_bit (bits_of buf) c" for c
    by (induction buf arbitrary: c) (simp_all add: bits_of_def fold_crc_byte)
  then show ?thesis by (simp add: UpdateCRC_def crc32_def)
qed

text \<open>A checksum can be computed in parts.\<close>

lemma UpdateCRC_append: "UpdateCRC (UpdateCRC crc xs) ys = UpdateCRC crc (xs @ ys)"
proof -
  have "(a XOR 0xffffffff) XOR 0xffffffff = a" for a :: size_t by (simp add: xor.assoc)
  then show ?thesis by (simp add: UpdateCRC_def)
qed

lemma CRC_eq: "length buf < 2 ^ 31 \<Longrightarrow> CRC buf = Inr (crc32 buf)"
proof -
  assume "length buf < 2 ^ 31"
  then have "sint (of_nat (length buf) :: uint32) = int (length buf)"
    using sint_sbintrunc' [of "int (length buf)", where 'a = 32] by (simp add: signed_take_bit_int_eq_self)
  then show ?thesis by (simp add: CRC_def UpdateCRC_eq)
qed

section \<open>Adler-32\<close>

fun adler_sums :: "byte list \<Rightarrow> uint32 \<Rightarrow> uint32 \<Rightarrow> uint32 \<times> uint32" where
  "adler_sums [] s1 s2 = (s1, s2)"
| "adler_sums (b # bs) s1 s2 = (let s1 = s1 + ucast b; s2 = s2 + s1 in adler_sums bs s1 s2)"

function adler_loop :: "byte list \<Rightarrow> uint32 \<Rightarrow> uint32 \<Rightarrow> uint32 \<times> uint32" where
  "adler_loop data s1 s2 =
     (if data = [] then (s1, s2)
      else let amount = (if length data > 5550 then 5550 else length data)
           in case adler_sums (take amount data) s1 s2 of
                (s1, s2) \<Rightarrow> adler_loop (drop amount data) (s1 mod 65521) (s2 mod 65521))"
  by pat_completeness auto
termination by (relation "measure (\<lambda>(data, s1, s2). length data)") auto

declare adler_loop.simps [simp del]

text \<open>The size is converted to an \<^verbatim>\<open>unsigned\<close> by the caller.\<close>

definition adler32 :: "byte list \<Rightarrow> uint32" where
  "adler32 data =
     (case adler_loop (take (length data mod 2 ^ 32) data) 1 (drop_bit 16 1) of (s1, s2) \<Rightarrow> push_bit 16 s2 OR s1)"

subsection \<open>The specification\<close>

definition adler_step :: "byte \<Rightarrow> nat \<times> nat \<Rightarrow> nat \<times> nat" where
  "adler_step b s = (case s of (s1, s2) \<Rightarrow> let s1 = (s1 + unat b) mod 65521 in (s1, (s2 + s1) mod 65521))"

definition rfc_adler32 :: "byte list \<Rightarrow> nat" where
  "rfc_adler32 data = (case fold adler_step data (1, 0) of (s1, s2) \<Rightarrow> s2 * 65536 + s1)"

fun adler_nat :: "byte list \<Rightarrow> nat \<Rightarrow> nat \<Rightarrow> nat \<times> nat" where
  "adler_nat [] s1 s2 = (s1, s2)"
| "adler_nat (b # bs) s1 s2 = adler_nat bs (s1 + unat b) (s2 + (s1 + unat b))"

lemma byte_le: "unat (b :: byte) \<le> 255"
  using unsigned_less [of b, where 'a = nat] by simp

text \<open>How far the sums can get, and that they stay below \<open>2\<^sup>3\<^sup>2\<close> for 5550 bytes.\<close>

lemma adler_nat_bound:
  "fst (adler_nat bs s1 s2) \<le> s1 + 255 * length bs"
  "snd (adler_nat bs s1 s2) \<le> s2 + length bs * s1 + 255 * (length bs * Suc (length bs) div 2)"
proof (induction bs arbitrary: s1 s2)
  case (Cons b bs)
  let ?n = "length bs"
  have tri: "Suc ?n * Suc (Suc ?n) div 2 = ?n * Suc ?n div 2 + Suc ?n" by (simp add: algebra_simps)
  {
    case 1
    show ?case using Cons(1) [of "s1 + unat b" "s2 + (s1 + unat b)"] byte_le [of b] by simp
  next
    case 2
    have "snd (adler_nat bs (s1 + unat b) (s2 + (s1 + unat b))) \<le>
        s2 + (s1 + unat b) + ?n * (s1 + unat b) + 255 * (?n * Suc ?n div 2)"
      by (rule Cons(2))
    also have "\<dots> \<le> s2 + (s1 + 255) + ?n * (s1 + 255) + 255 * (?n * Suc ?n div 2)"
      using byte_le [of b] by (intro add_mono mult_le_mono) simp_all
    also have "\<dots> = s2 + Suc ?n * s1 + 255 * (Suc ?n * Suc (Suc ?n) div 2)" unfolding tri by (simp add: algebra_simps)
    finally show ?case by simp
  }
qed simp_all

lemma adler_nat_no_overflow:
  assumes "length bs \<le> 5550" and "s1 < 65521" and "s2 < 65521"
  shows "fst (adler_nat bs s1 s2) < 2 ^ 32" and "snd (adler_nat bs s1 s2) < 2 ^ 32"
proof -
  have "fst (adler_nat bs s1 s2) \<le> s1 + 255 * length bs" by (rule adler_nat_bound)
  then show "fst (adler_nat bs s1 s2) < 2 ^ 32" using assms by simp
  have "length bs * Suc (length bs) \<le> 5550 * 5551" using assms(1) by (intro mult_le_mono) simp_all
  then have "length bs * Suc (length bs) div 2 \<le> 15404025" by simp
  moreover have "length bs * s1 \<le> 5550 * 65520" using assms by (intro mult_le_mono) simp_all
  moreover have "snd (adler_nat bs s1 s2) \<le> s2 + length bs * s1 + 255 * (length bs * Suc (length bs) div 2)"
    by (rule adler_nat_bound)
  ultimately show "snd (adler_nat bs s1 s2) < 2 ^ 32" using assms(3) by simp
qed

lemma adler_sums_nat:
  "adler_sums bs (of_nat s1) (of_nat s2) = map_prod of_nat of_nat (adler_nat bs s1 s2)"
proof (induction bs arbitrary: s1 s2)
  case (Cons b bs)
  have "(of_nat s1 + ucast b :: uint32) = of_nat (s1 + unat b)" by simp
  then show ?case using Cons [of "s1 + unat b" "s2 + (s1 + unat b)"] by (simp add: Let_def)
qed simp

lemma adler_nat_steps:
  "fold adler_step bs (s1 mod 65521, s2 mod 65521) = map_prod (\<lambda>s. s mod 65521) (\<lambda>s. s mod 65521) (adler_nat bs s1 s2)"
proof (induction bs arbitrary: s1 s2)
  case (Cons b bs)
  have "adler_step b (s1 mod 65521, s2 mod 65521) = ((s1 + unat b) mod 65521, (s2 + (s1 + unat b)) mod 65521)"
    using mod_add_eq [of s2 65521 "s1 + unat b"] mod_add_left_eq [of s1 65521 "unat b"]
    by (simp only: adler_step_def Let_def prod.case)
  then show ?case using Cons [of "s1 + unat b" "s2 + (s1 + unat b)"] by simp
qed simp

lemma of_nat_mod_adler: "x < 2 ^ 32 \<Longrightarrow> (of_nat x :: uint32) mod 65521 = of_nat (x mod 65521)"
  unfolding word_arith_nat_mod by (simp add: unat_of_nat)

lemma adler_loop_spec:
  assumes "s1 < 65521" and "s2 < 65521"
  shows "adler_loop data (of_nat s1) (of_nat s2) = map_prod of_nat of_nat (fold adler_step data (s1, s2))"
  using assms
proof (induction "length data" arbitrary: data s1 s2 rule: less_induct)
  case less
  show ?case
  proof (cases "data = []")
    case True
    then show ?thesis by (simp add: adler_loop.simps)
  next
    case False
    let ?n = "if length data > 5550 then 5550 else length data"
    obtain a b where ab: "adler_nat (take ?n data) s1 s2 = (a, b)" by (cases "adler_nat (take ?n data) s1 s2")
    have "a < 2 ^ 32" "b < 2 ^ 32" using adler_nat_no_overflow [of "take ?n data" s1 s2] less.prems ab by simp_all
    then have "adler_loop data (of_nat s1) (of_nat s2) = adler_loop (drop ?n data) (of_nat (a mod 65521)) (of_nat (b mod 65521))"
      using False by (subst adler_loop.simps) (simp add: Let_def adler_sums_nat ab of_nat_mod_adler)
    also have "\<dots> = map_prod of_nat of_nat (fold adler_step (drop ?n data) (a mod 65521, b mod 65521))"
      using False by (intro less.hyps) simp_all
    also have "(a mod 65521, b mod 65521) = fold adler_step (take ?n data) (s1, s2)"
      using adler_nat_steps [of "take ?n data" s1 s2] less.prems ab by simp
    also have "fold adler_step (drop ?n data) (fold adler_step (take ?n data) (s1, s2)) = fold adler_step data (s1, s2)"
      by (metis append_take_drop_id comp_apply fold_append)
    finally show ?thesis .
  qed
qed

lemma adler_steps_bound:
  "fst s < 65521 \<Longrightarrow> snd s < 65521 \<Longrightarrow> fst (fold adler_step data s) < 65521 \<and> snd (fold adler_step data s) < 65521"
proof (induction data arbitrary: s)
  case (Cons b data)
  have "fst (adler_step b s) < 65521" "snd (adler_step b s) < 65521"
    by (simp_all add: adler_step_def Let_def split: prod.splits)
  with Cons.IH show ?case by simp
qed simp

lemma adler32_spec:
  assumes "length data < 2 ^ 32"
  shows "unat (adler32 data) = rfc_adler32 data"
proof -
  obtain a b where ab: "fold adler_step data (1, 0) = (a, b)" by (cases "fold adler_step data (1, 0)")
  have small: "a < 65536" "b < 65536" using adler_steps_bound [of "(1, 0)" data] ab by simp_all
  have "adler_loop data 1 (drop_bit 16 1) = (of_nat a, of_nat b)"
    using adler_loop_spec [of 1 0 data] ab by simp
  then have "adler32 data = push_bit 16 (of_nat b) OR of_nat a" using assms by (simp add: adler32_def)
  also have "\<dots> = push_bit 16 (of_nat b) + of_nat a"
  proof (rule disjunctive_add [symmetric])
    fix n
    show "\<not> bit (push_bit 16 (of_nat b) :: uint32) n \<or> \<not> bit (of_nat a :: uint32) n"
    proof (cases "n < 16")
      case False
      then have "(2 :: nat) ^ 16 \<le> 2 ^ n" by (intro power_increasing) simp_all
      then have "a div 2 ^ n = 0" using small(1) by simp
      then have "\<not> bit a n" by (simp add: bit_iff_odd)
      then show ?thesis by (simp add: bit_simps)
    qed (simp add: bit_simps)
  qed
  also have "\<dots> = of_nat (b * 65536 + a)" by (simp add: push_bit_eq_mult)
  finally have "adler32 data = of_nat (b * 65536 + a)" .
  moreover have "unat (of_nat (b * 65536 + a) :: uint32) = b * 65536 + a" unfolding unat_of_nat using small by simp
  ultimately show ?thesis using ab by (simp add: rfc_adler32_def)
qed

section \<open>Properties\<close>

text \<open>
  C15. For data of less than \<open>2\<^sup>3\<^sup>1\<close> bytes the table-driven \<^verbatim>\<open>CRC\<close> returns the CRC-32 defined bit by bit, and
  \<^verbatim>\<open>adler32\<close>, which reduces its two 32-bit sums once per 5550 bytes, returns the Adler-32 that reduces
  after every byte: the sums never wrap around.
\<close>

theorem checksums_correct:
  assumes "length data < 2 ^ 31"
  shows "CRC data = Inr (crc32 data) \<and> unat (adler32 data) = rfc_adler32 data"
  using CRC_eq [OF assms] adler32_spec [of data] assms by simp

theorem checksums_correct_witness:
  "CRC [97, 98, 99] = Inr (crc32 [97, 98, 99]) \<and> unat (adler32 [97, 98, 99]) = rfc_adler32 [97, 98, 99]"
  by (rule checksums_correct) simp

end
