(* ===== verification/Zopfli_Deflate.thy ===== *)
theory Zopfli_Deflate
  imports Zopfli_Splitter Zopfli_Checksum
begin

text \<open>
  The compressor as a whole: blocks of each type, the two orders of splitting and squeezing, the master blocks of
  \<^verbatim>\<open>ZopfliDeflate\<close> (\<^verbatim>\<open>deflate.cc\<close>), the containers (\<^verbatim>\<open>gzip_container.cc\<close>, \<^verbatim>\<open>zlib_container.cc\<close>) and \<^verbatim>\<open>ZopfliCompress\<close>
  (\<^verbatim>\<open>zopfli_lib.cc\<close>). The array holds all memory that may be read from the start of the data on; the data is its first
  part. What a call finds in memory it has not written is given by \<open>mem\<close>, from the kind of call and the start of its
  block. Messages of the verbose mode are left out.
\<close>

section \<open>Operations\<close>

type_synonym memory = "nat \<Rightarrow> nat \<Rightarrow> uninit"

definition cached_state :: "ZopfliOptions \<Rightarrow> nat \<Rightarrow> nat \<Rightarrow> ZopfliBlockState" where
  "cached_state opts instart inend =
     \<lparr>options = opts, lmc = Some (ZopfliInitCache (inend - instart)), blockstart = instart, blockend = inend\<rparr>"

definition DeflateDynamicBlock :: "fp \<Rightarrow> (Node list \<Rightarrow> Node list) \<Rightarrow> memory \<Rightarrow> ZopfliOptions \<Rightarrow> bool \<Rightarrow> byte list \<Rightarrow> nat \<Rightarrow> nat \<Rightarrow>
    writer \<Rightarrow> failure + writer" where
  "DeflateDynamicBlock fp qsort mem opts final arr instart inend w =
     (let blocksize = inend - instart
      in and_then (ZopfliLZ77Optimal fp qsort (mem 1 instart) (cached_state opts instart inend) arr instart inend ZopfliInitLZ77Store)
        (\<lambda>(s, store).
         and_then (if store_size store < 1000
                   then and_then (ZopfliLZ77OptimalFixed fp (mem 2 instart) s arr instart inend ZopfliInitLZ77Store) (\<lambda>(s, fixedstore).
                        and_then (ZopfliCalculateBlockSize qsort (litlens store) (dists store) 0 (store_size store) 2) (\<lambda>dyncost.
                        and_then (ZopfliCalculateBlockSize qsort (litlens fixedstore) (dists fixedstore) 0 (store_size fixedstore) 1)
                          (\<lambda>fixedcost. if fixedcost < dyncost then Inr (1, fixedstore) else Inr (2, store))))
                   else Inr (2, store)) (\<lambda>(btype, store).
           AddLZ77Block qsort btype final (litlens store) (dists store) 0 (store_size store) blocksize w)))"

definition DeflateFixedBlock :: "fp \<Rightarrow> (Node list \<Rightarrow> Node list) \<Rightarrow> memory \<Rightarrow> ZopfliOptions \<Rightarrow> bool \<Rightarrow> byte list \<Rightarrow> nat \<Rightarrow> nat \<Rightarrow>
    writer \<Rightarrow> failure + writer" where
  "DeflateFixedBlock fp qsort mem opts final arr instart inend w =
     (let blocksize = inend - instart
      in and_then (ZopfliLZ77OptimalFixed fp (mem 2 instart) (cached_state opts instart inend) arr instart inend ZopfliInitLZ77Store)
        (\<lambda>(s, store). AddLZ77Block qsort 1 final (litlens store) (dists store) 0 (store_size store) blocksize w))"

definition DeflateBlock :: "fp \<Rightarrow> (Node list \<Rightarrow> Node list) \<Rightarrow> memory \<Rightarrow> ZopfliOptions \<Rightarrow> nat \<Rightarrow> bool \<Rightarrow> byte list \<Rightarrow> nat \<Rightarrow> nat \<Rightarrow>
    writer \<Rightarrow> failure + writer" where
  "DeflateBlock fp qsort mem opts btype final arr instart inend w =
     (if btype = 0 then DeflateNonCompressedBlock final arr instart inend w
      else if btype = 1 then DeflateFixedBlock fp qsort mem opts final arr instart inend w
      else and_then (assertion (btype = 2)) (\<lambda>_. DeflateDynamicBlock fp qsort mem opts final arr instart inend w))"

text \<open>The loop over the blocks between split points, shared by both orders of splitting.\<close>

fun blocks_loop :: "(bool \<Rightarrow> nat \<Rightarrow> nat \<Rightarrow> writer \<Rightarrow> failure + writer) \<Rightarrow> bool \<Rightarrow> nat \<Rightarrow> nat \<Rightarrow> nat list \<Rightarrow> nat list \<Rightarrow> writer \<Rightarrow> failure + writer" where
  "blocks_loop block final first stop_all splitpoints [] w = Inr w"
| "blocks_loop block final first stop_all splitpoints (i # is) w =
     (let start = (if i = 0 then first else splitpoints ! (i - 1));
          stop = (if i = length splitpoints then stop_all else splitpoints ! i)
      in and_then (block (i = length splitpoints \<and> final) start stop w) (blocks_loop block final first stop_all splitpoints is))"

definition size_of_int :: "int \<Rightarrow> nat" where
  "size_of_int n = nat (n mod 2 ^ 64)"

definition DeflateSplittingFirst :: "fp \<Rightarrow> (Node list \<Rightarrow> Node list) \<Rightarrow> memory \<Rightarrow> ZopfliOptions \<Rightarrow> nat \<Rightarrow> bool \<Rightarrow> byte list \<Rightarrow> nat \<Rightarrow> nat \<Rightarrow>
    writer \<Rightarrow> failure + writer" where
  "DeflateSplittingFirst fp qsort mem opts btype final arr instart inend w =
     and_then (if btype = 0 then ZopfliBlockSplitSimple instart inend 65535 []
               else if btype = 1 then Inr []
               else ZopfliBlockSplit qsort (u_sublen (mem 0 instart) 0) opts arr instart inend (size_of_int (blocksplittingmax opts)))
       (\<lambda>splitpoints.
          blocks_loop (\<lambda>final start stop. DeflateBlock fp qsort mem opts btype final arr start stop) final instart inend splitpoints
            [0..<length splitpoints + 1] w)"

definition DeflateSplittingLast :: "fp \<Rightarrow> (Node list \<Rightarrow> Node list) \<Rightarrow> memory \<Rightarrow> ZopfliOptions \<Rightarrow> nat \<Rightarrow> bool \<Rightarrow> byte list \<Rightarrow> nat \<Rightarrow> nat \<Rightarrow>
    writer \<Rightarrow> failure + writer" where
  "DeflateSplittingLast fp qsort mem opts btype final arr instart inend w =
     and_then (if btype = 0 then DeflateSplittingFirst fp qsort mem opts btype final arr instart inend w else Inr w) (\<lambda>w.
     and_then (assertion (btype = 1 \<or> btype = 2)) (\<lambda>_.
     and_then (if btype = 2
               then ZopfliLZ77Optimal fp qsort (mem 1 instart) (cached_state opts instart inend) arr instart inend ZopfliInitLZ77Store
               else ZopfliLZ77OptimalFixed fp (mem 2 instart) (cached_state opts instart inend) arr instart inend ZopfliInitLZ77Store)
       (\<lambda>(s, store).
     and_then (if btype = 1 then Inr []
               else ZopfliBlockSplitLZ77 qsort opts (litlens store) (dists store) (store_size store) (size_of_int (blocksplittingmax opts)) [])
       (\<lambda>splitpoints.
          blocks_loop (\<lambda>final start stop. AddLZ77Block qsort btype final (litlens store) (dists store) start stop 0) final 0 (store_size store)
            splitpoints [0..<length splitpoints + 1] w))))"

definition ZopfliDeflatePart :: "fp \<Rightarrow> (Node list \<Rightarrow> Node list) \<Rightarrow> memory \<Rightarrow> ZopfliOptions \<Rightarrow> nat \<Rightarrow> bool \<Rightarrow> byte list \<Rightarrow> nat \<Rightarrow> nat \<Rightarrow>
    writer \<Rightarrow> failure + writer" where
  "ZopfliDeflatePart fp qsort mem opts btype final arr instart inend w =
     (if blocksplitting opts
      then if blocksplittinglast opts then DeflateSplittingLast fp qsort mem opts btype final arr instart inend w
           else DeflateSplittingFirst fp qsort mem opts btype final arr instart inend w
      else DeflateBlock fp qsort mem opts btype final arr instart inend w)"

definition ZOPFLI_MASTER_BLOCK_SIZE :: nat where
  "ZOPFLI_MASTER_BLOCK_SIZE = 20000000"

function deflate_loop :: "fp \<Rightarrow> (Node list \<Rightarrow> Node list) \<Rightarrow> memory \<Rightarrow> ZopfliOptions \<Rightarrow> nat \<Rightarrow> bool \<Rightarrow> byte list \<Rightarrow> nat \<Rightarrow> nat \<Rightarrow>
    writer \<Rightarrow> failure + writer" where
  "deflate_loop fp qsort mem opts btype final arr insize i w =
     (if i < insize
      then let masterfinal = (i + ZOPFLI_MASTER_BLOCK_SIZE \<ge> insize);
               final2 = (final \<and> masterfinal);
               size = (if masterfinal then insize - i else ZOPFLI_MASTER_BLOCK_SIZE)
           in and_then (ZopfliDeflatePart fp qsort mem opts btype final2 arr i (i + size) w) (\<lambda>w.
                deflate_loop fp qsort mem opts btype final arr insize (i + size) w)
      else Inr w)"
  by pat_completeness auto
termination
  by (relation "measure (\<lambda>(fp, qsort, mem, opts, btype, final, arr, insize, i, w). insize - i)")
    (auto simp: ZOPFLI_MASTER_BLOCK_SIZE_def)

declare deflate_loop.simps [simp del]

definition ZopfliDeflate :: "fp \<Rightarrow> (Node list \<Rightarrow> Node list) \<Rightarrow> memory \<Rightarrow> ZopfliOptions \<Rightarrow> nat \<Rightarrow> bool \<Rightarrow> byte list \<Rightarrow> nat \<Rightarrow>
    writer \<Rightarrow> failure + writer" where
  "ZopfliDeflate fp qsort mem opts btype final arr insize w = deflate_loop fp qsort mem opts btype final arr insize 0 w"

section \<open>What a step of the compressor emits\<close>

text \<open>
  A step that, whatever was written before, returns and appends bits that a decoder that holds the bytes before \<open>a\<close>
  reads as the bytes up to \<open>b\<close>. The final bit of the last block tells whether the decoder goes on. The stream in the end
  consists of whole bytes.
\<close>

definition emits :: "(writer \<Rightarrow> failure + writer) \<Rightarrow> bool \<Rightarrow> byte list \<Rightarrow> nat \<Rightarrow> nat \<Rightarrow> bool" where
  "emits f final arr a b \<longleftrightarrow> (\<forall>w bs. represents w bs \<longrightarrow>
     (\<exists>w' bb. f w = Inr w' \<and> represents w' (bs @ bb) \<and>
        (\<forall>rest. length (bs @ bb @ rest) mod 8 = 0 \<longrightarrow> inflate_blocks (bb @ rest) (take a arr) =
           (if final then Some (take b arr, rest) else inflate_blocks rest (take b arr)))))"

lemma emitsE:
  assumes "emits f final arr a b" and "represents w bs"
  obtains w' bb where "f w = Inr w'" "represents w' (bs @ bb)"
    "\<And>rest. length (bs @ bb @ rest) mod 8 = 0 \<Longrightarrow> inflate_blocks (bb @ rest) (take a arr) =
      (if final then Some (take b arr, rest) else inflate_blocks rest (take b arr))"
  using assms unfolding emits_def by blast

lemma emits_then:
  assumes "emits f False arr a b" and "emits g final arr b c"
  shows "emits (\<lambda>w. and_then (f w) g) final arr a c"
  unfolding emits_def
proof (intro allI impI)
  fix w bs
  assume w: "represents w bs"
  obtain w1 b1 where 1: "f w = Inr w1" "represents w1 (bs @ b1)"
      "\<And>rest. length (bs @ b1 @ rest) mod 8 = 0 \<Longrightarrow> inflate_blocks (b1 @ rest) (take a arr) = inflate_blocks rest (take b arr)"
    by (rule emitsE [OF assms(1) w]) auto
  obtain w2 b2 where 2: "g w1 = Inr w2" "represents w2 ((bs @ b1) @ b2)"
      "\<And>rest. length ((bs @ b1) @ b2 @ rest) mod 8 = 0 \<Longrightarrow> inflate_blocks (b2 @ rest) (take b arr) =
        (if final then Some (take c arr, rest) else inflate_blocks rest (take c arr))"
    by (rule emitsE [OF assms(2) 1(2)]) blast
  have "inflate_blocks ((b1 @ b2) @ rest) (take a arr) = (if final then Some (take c arr, rest) else inflate_blocks rest (take c arr))"
    if "length (bs @ (b1 @ b2) @ rest) mod 8 = 0" for rest
    using 1(3) [of "b2 @ rest"] 2(3) [of rest] that by simp
  with 1(1) 2(1,2) show "\<exists>w' bb. and_then (f w) g = Inr w' \<and> represents w' (bs @ bb) \<and>
      (\<forall>rest. length (bs @ bb @ rest) mod 8 = 0 \<longrightarrow> inflate_blocks (bb @ rest) (take a arr) =
         (if final then Some (take c arr, rest) else inflate_blocks rest (take c arr)))"
    by (intro exI [of _ w2] exI [of _ "b1 @ b2"]) simp
qed

lemma emits_fun: "emits f final arr a b \<Longrightarrow> (\<And>w. g w = f w) \<Longrightarrow> emits g final arr a b"
  by (simp add: emits_def)

text \<open>One block.\<close>

lemma emits_block:
  assumes "\<And>w bs. represents w bs \<Longrightarrow> \<exists>w' bb. f w = Inr w' \<and> represents w' (bs @ bb) \<and>
    (\<forall>rest. length (bs @ bb @ rest) mod 8 = 0 \<longrightarrow> inflate_block (bb @ rest) (take a arr) = Some (final, take b arr, rest))"
  shows "emits f final arr a b"
  unfolding emits_def
proof (intro allI impI)
  fix w bs
  assume "represents w bs"
  then obtain w' bb where "f w = Inr w'" "represents w' (bs @ bb)"
      "\<forall>rest. length (bs @ bb @ rest) mod 8 = 0 \<longrightarrow> inflate_block (bb @ rest) (take a arr) = Some (final, take b arr, rest)"
    using assms by blast
  then show "\<exists>w' bb. f w = Inr w' \<and> represents w' (bs @ bb) \<and>
      (\<forall>rest. length (bs @ bb @ rest) mod 8 = 0 \<longrightarrow> inflate_blocks (bb @ rest) (take a arr) =
         (if final then Some (take b arr, rest) else inflate_blocks rest (take b arr)))"
    by (intro exI [of _ w'] exI [of _ bb]) (simp add: inflate_blocks.simps [of "bb @ _"])
qed

lemma emits_stored:
  assumes "a \<le> b" and "b \<le> length arr" and "b - a < 65536"
  shows "emits (DeflateNonCompressedBlock final arr a b) final arr a b"
proof (rule emits_block)
  fix w bs
  assume "represents w bs"
  from DeflateNonCompressedBlock_decodes [OF assms(3) this, of final arr]
  obtain w' bb where w': "DeflateNonCompressedBlock final arr a b w = Inr w'" "represents w' (bs @ bb)" "length (bs @ bb) mod 8 = 0"
      "\<forall>bytes rest. length rest mod 8 = 0 \<longrightarrow> inflate_block (bb @ rest) bytes = Some (final, bytes @ Zopfli_Blocks.slice arr a b, rest)"
    by (elim exE conjE) (rule that)
  have "take a arr @ Zopfli_Blocks.slice arr a b = take b arr"
    using assms by (intro nth_equalityI) (auto simp: Zopfli_Blocks.slice_def nth_append)
  moreover have "length rest mod 8 = 0" if "length (bs @ bb @ rest) mod 8 = 0" for rest
    using that w'(3) by (simp add: mod_eq_0_iff_dvd) (metis add.assoc dvd_add_right_iff)
  ultimately show "\<exists>w' bb. DeflateNonCompressedBlock final arr a b w = Inr w' \<and> represents w' (bs @ bb) \<and>
      (\<forall>rest. length (bs @ bb @ rest) mod 8 = 0 \<longrightarrow> inflate_block (bb @ rest) (take a arr) = Some (final, take b arr, rest))"
    using w' by (intro exI [of _ w'] exI [of _ bb]) simp
qed

lemma emits_items:
  assumes q: "qsort_ok qsort" and btype: "btype = 1 \<or> btype = 2" and items: "items = lz_items lls ds start stop" "length items < 2 ^ 31"
    and valid: "lz_valid items (take a arr)" "lz_decode items (take a arr) = take b arr"
    and size: "expected = 0 \<or> expected = sum_list (map item_size items)"
  shows "emits (AddLZ77Block qsort btype final lls ds start stop expected) final arr a b"
proof (rule emits_block)
  fix w bs
  assume w: "represents w bs"
  have "\<forall>p \<in> set items. lz_item_ok p" using lz_valid_items valid(1) by blast
  from AddLZ77Block_decodes [OF q btype items(1) this items(2) size, of final]
  obtain bb where bb: "appends (AddLZ77Block qsort btype final lls ds start stop expected) bb"
      "\<And>bytes rest. lz_valid items bytes \<Longrightarrow> inflate_block (bb @ rest) bytes = Some (final, lz_decode items bytes, rest)"
    by blast
  then obtain w' where "AddLZ77Block qsort btype final lls ds start stop expected w = Inr w'" "represents w' (bs @ bb)"
    using w unfolding appends_def by blast
  then show "\<exists>w' bb. AddLZ77Block qsort btype final lls ds start stop expected w = Inr w' \<and> represents w' (bs @ bb) \<and>
      (\<forall>rest. length (bs @ bb @ rest) mod 8 = 0 \<longrightarrow> inflate_block (bb @ rest) (take a arr) = Some (final, take b arr, rest))"
    using bb(2) [OF valid(1)] valid(2) by auto
qed

text \<open>A store that encodes the bytes from \<open>a\<close> to \<open>b\<close>, written as one block.\<close>

lemma emits_store:
  assumes "qsort_ok qsort" and "btype = 1 \<or> btype = 2" and enc: "encodes arr a b store" and range: "a \<le> b" "b \<le> length arr" "b - a < 2 ^ 31"
  shows "emits (AddLZ77Block qsort btype final (litlens store) (dists store) 0 (store_size store) (b - a)) final arr a b"
proof (rule emits_items [OF assms(1,2) refl])
  have items: "lz_items (litlens store) (dists store) 0 (store_size store) = store_items store"
    using enc by (simp add: encodes_def lz_items_store)
  show "length (lz_items (litlens store) (dists store) 0 (store_size store)) < 2 ^ 31"
    using encodes_size [OF enc range(1,2)] range(3) by (simp add: lz_items_def)
  show "lz_valid (lz_items (litlens store) (dists store) 0 (store_size store)) (take a arr)"
      "lz_decode (lz_items (litlens store) (dists store) 0 (store_size store)) (take a arr) = take b arr"
    using enc by (simp_all add: items encodes_def)
  show "b - a = 0 \<or> b - a = sum_list (map item_size (lz_items (litlens store) (dists store) 0 (store_size store)))"
    using encodes_sum [OF enc range(1,2)] by (simp add: items)
qed

section \<open>The interface to the LZ77 passes\<close>

text \<open>What the block writers rely on: a pass over a block returns a store that encodes the bytes of the block.\<close>

locale lz77_pass =
  fixes run :: "ZopfliBlockState \<Rightarrow> byte list \<Rightarrow> failure + ZopfliBlockState \<times> ZopfliLZ77Store"
    and pre :: "ZopfliBlockState \<Rightarrow> bool"
  assumes run_encodes: "block_ok arr s \<Longrightarrow> pre s \<Longrightarrow> \<exists>s' store. run s arr = Inr (s', store) \<and> block_ok arr s' \<and> same_block s s' \<and>
    encodes arr (blockstart s) (blockend s) store"
begin

lemma emits_run:
  assumes ok: "block_ok arr s" "pre s" and q: "qsort_ok qsort" and btype: "btype = 1 \<or> btype = 2"
    and size: "blockend s - blockstart s < 2 ^ 31"
  shows "emits (\<lambda>w. and_then (run s arr) (\<lambda>(s', store).
      AddLZ77Block qsort btype final (litlens store) (dists store) 0 (store_size store) (blockend s - blockstart s) w)) final arr
    (blockstart s) (blockend s)"
proof -
  obtain s' store where run: "run s arr = Inr (s', store)" "encodes arr (blockstart s) (blockend s) store"
    using run_encodes [OF ok] by blast
  have "blockstart s \<le> blockend s" "blockend s \<le> length arr" using ok(1) by (simp_all add: block_ok_def)
  from emits_store [OF q btype run(2) this size, of final] show ?thesis by (rule emits_fun) (simp add: run(1))
qed

end

interpretation greedy_pass: lz77_pass "\<lambda>s arr. ZopfliLZ77Greedy dummysublen s arr (blockstart s) (blockend s) ZopfliInitLZ77Store"
  "\<lambda>s. length dummysublen = 259" for dummysublen
  by unfold_locales (use ZopfliLZ77Greedy_encodes encodes_init in blast)

interpretation optimal_pass: lz77_pass "\<lambda>s arr. ZopfliLZ77Optimal fp qsort u s arr (blockstart s) (blockend s) ZopfliInitLZ77Store"
  "\<lambda>s. fp_ok fp \<and> qsort_ok qsort \<and> uninit_ok u \<and> 1 \<le> numiterations (options s) \<and> blockend s - blockstart s \<le> 7000000" for fp qsort u
  by unfold_locales (use ZopfliLZ77Optimal_encodes in blast)

interpretation fixed_pass: lz77_pass "\<lambda>s arr. ZopfliLZ77OptimalFixed fp u s arr (blockstart s) (blockend s) ZopfliInitLZ77Store"
  "\<lambda>s. fp_ok fp \<and> uninit_ok u" for fp u
  by unfold_locales (use ZopfliLZ77OptimalFixed_encodes encodes_init in blast)

section \<open>Single blocks\<close>

text \<open>What the compressor is given: the hypotheses of all results below.\<close>

definition setting_ok :: "fp \<Rightarrow> (Node list \<Rightarrow> Node list) \<Rightarrow> memory \<Rightarrow> ZopfliOptions \<Rightarrow> byte list \<Rightarrow> bool" where
  "setting_ok fp qsort mem opts arr \<longleftrightarrow> fp_ok fp \<and> qsort_ok qsort \<and> (\<forall>k n. uninit_ok (mem k n)) \<and> 1 \<le> numiterations opts \<and> 2 \<le> length arr"

definition range_ok :: "nat \<Rightarrow> byte list \<Rightarrow> nat \<Rightarrow> nat \<Rightarrow> bool" where
  "range_ok btype arr a b \<longleftrightarrow> a \<le> b \<and> b \<le> length arr \<and> b - a < 2 ^ 31 \<and> (btype = 2 \<longrightarrow> b - a \<le> 7000000)"

lemma cached_block_ok:
  assumes "setting_ok fp qsort mem opts arr" and "range_ok btype arr a b"
  shows "block_ok arr (cached_state opts a b)"
proof -
  have "windowstart a + 1 < length arr" using assms by (auto simp: setting_ok_def range_ok_def windowstart_def ZOPFLI_WINDOW_SIZE_def)
  moreover have "cache_ok arr (cached_state opts a b) (ZopfliInitCache (b - a))"
    using cache_ok_init [of arr "cached_state opts a b"] by (simp add: cached_state_def)
  ultimately show ?thesis using assms(2) by (simp add: block_ok_def cached_state_def range_ok_def)
qed

lemma emits_DeflateFixedBlock:
  assumes "setting_ok fp qsort mem opts arr" and "range_ok btype arr a b"
  shows "emits (DeflateFixedBlock fp qsort mem opts final arr a b) final arr a b"
proof -
  have "emits (\<lambda>w. and_then (ZopfliLZ77OptimalFixed fp (mem 2 a) (cached_state opts a b) arr (blockstart (cached_state opts a b))
        (blockend (cached_state opts a b)) ZopfliInitLZ77Store) (\<lambda>(s', store). AddLZ77Block qsort 1 final (litlens store) (dists store) 0 (store_size store)
        (blockend (cached_state opts a b) - blockstart (cached_state opts a b)) w)) final arr
      (blockstart (cached_state opts a b)) (blockend (cached_state opts a b))"
    by (rule fixed_pass.emits_run [OF cached_block_ok [OF assms]])
      (use assms in \<open>simp_all add: setting_ok_def range_ok_def cached_state_def\<close>)
  then show ?thesis by (simp add: cached_state_def DeflateFixedBlock_def [abs_def] Let_def)
qed

lemma emits_DeflateDynamicBlock:
  assumes ok: "setting_ok fp qsort mem opts arr" and range: "range_ok 2 arr a b"
  shows "emits (DeflateDynamicBlock fp qsort mem opts final arr a b) final arr a b"
proof -
  let ?s = "cached_state opts a b"
  note ok' = ok [unfolded setting_ok_def] and range' = range [unfolded range_ok_def]
  have s [simp]: "blockstart ?s = a" "blockend ?s = b" "options ?s = opts" by (simp_all add: cached_state_def)
  obtain s1 store where opt: "ZopfliLZ77Optimal fp qsort (mem 1 a) ?s arr a b ZopfliInitLZ77Store = Inr (s1, store)"
      "block_ok arr s1" "same_block ?s s1" "encodes arr a b store"
    using optimal_pass.run_encodes [OF cached_block_ok [OF ok range], of fp qsort "mem 1 a"] ok' range' by auto
  have s1: "blockstart s1 = a" "blockend s1 = b" using opt(3) by (auto simp: same_block_def)
  obtain s2 fixedstore where fixed: "ZopfliLZ77OptimalFixed fp (mem 2 a) s1 arr a b ZopfliInitLZ77Store = Inr (s2, fixedstore)"
      "encodes arr a b fixedstore"
    using fixed_pass.run_encodes [OF opt(2), of fp "mem 2 a"] ok' s1 by auto
  have cost: "\<exists>c. ZopfliCalculateBlockSize qsort (litlens st) (dists st) 0 (store_size st) bt = Inr c"
    if "encodes arr a b st" "bt = 1 \<or> bt = 2" for st bt
  proof -
    have "length (lz_items (litlens st) (dists st) 0 (store_size st)) < 2 ^ 31"
      using encodes_size [OF that(1)] range' by (simp add: lz_items_def)
    with ZopfliCalculateBlockSize_bound [OF _ that(2) refl encodes_items [OF that(1)]] ok' show ?thesis by blast
  qed
  obtain dyncost where dyn: "ZopfliCalculateBlockSize qsort (litlens store) (dists store) 0 (store_size store) 2 = Inr dyncost"
    using cost [OF opt(4)] by blast
  obtain fixedcost where fcost: "ZopfliCalculateBlockSize qsort (litlens fixedstore) (dists fixedstore) 0 (store_size fixedstore) 1 = Inr fixedcost"
    using cost [OF fixed(2)] by blast
  define bt st where "bt = (if store_size store < 1000 \<and> fixedcost < dyncost then 1 else 2 :: nat)"
    and "st = (if store_size store < 1000 \<and> fixedcost < dyncost then fixedstore else store)"
  have "DeflateDynamicBlock fp qsort mem opts final arr a b w =
      AddLZ77Block qsort bt final (litlens st) (dists st) 0 (store_size st) (b - a) w" for w
    using opt(1) fixed(1) dyn fcost by (simp add: DeflateDynamicBlock_def Let_def bt_def st_def)
  moreover have "encodes arr a b st" "bt = 1 \<or> bt = 2" using opt(4) fixed(2) by (auto simp: bt_def st_def)
  ultimately show ?thesis using emits_store [of qsort bt arr a b st final] ok' range' by (simp add: emits_def)
qed

lemma emits_DeflateBlock:
  assumes "setting_ok fp qsort mem opts arr" and "range_ok btype arr a b" and "btype \<in> {0, 1, 2}" and "btype = 0 \<longrightarrow> b - a < 65536"
  shows "emits (DeflateBlock fp qsort mem opts btype final arr a b) final arr a b"
  using assms emits_stored [of a b arr final] emits_DeflateFixedBlock [OF assms(1,2), of final]
    emits_DeflateDynamicBlock [OF assms(1), of a b final]
  by (auto simp: DeflateBlock_def [abs_def] range_ok_def)

section \<open>Blocks between split points\<close>

lemma and_then_return [simp]: "and_then r Inr = r"
  by (cases r) simp_all

lemma blocks_loop_emits:
  assumes "qs = first # points @ [stop_all]"
    and block: "\<And>i. i \<le> length points \<Longrightarrow> emits (block (i = length points \<and> final) (qs ! i) (qs ! (i + 1))) (i = length points \<and> final) arr
      (pos (qs ! i)) (pos (qs ! (i + 1)))"
  shows "k \<le> length points \<Longrightarrow> emits (blocks_loop block final first stop_all points [k..<length points + 1]) final arr (pos (qs ! k)) (pos stop_all)"
proof (induction "length points - k" arbitrary: k)
  case 0
  then have k: "k = length points" by simp
  have "emits (block final (qs ! k) (qs ! (k + 1))) final arr (pos (qs ! k)) (pos (qs ! (k + 1)))" using block [of k] k by simp
  moreover have "blocks_loop block final first stop_all points [k..<length points + 1] w = block final (qs ! k) (qs ! (k + 1)) w" for w
  proof -
    have "[k..<length points + 1] = [k]" by (simp add: k)
    moreover have "blocks_loop block final first stop_all points [] = Inr" by auto
    moreover have "(if k = 0 then first else points ! (k - 1)) = qs ! k" "stop_all = qs ! (k + 1)"
      using k by (simp_all add: assms(1) nth_append nth_Cons')
    ultimately show ?thesis by (simp only: blocks_loop.simps Let_def and_then_return) (use k in auto)
  qed
  ultimately show ?case using k by (simp add: emits_def assms(1) nth_append)
next
  case (Suc n)
  then have k: "k < length points" by simp
  have list: "[k..<length points + 1] = k # [k + 1..<length points + 1]" using k by (simp add: upt_conv_Cons)
  have "emits (block False (qs ! k) (qs ! (k + 1))) False arr (pos (qs ! k)) (pos (qs ! (k + 1)))" using block [of k] k by simp
  moreover have "emits (blocks_loop block final first stop_all points [k + 1..<length points + 1]) final arr (pos (qs ! (k + 1))) (pos stop_all)"
    by (rule Suc(1)) (use Suc(2) k in linarith)+
  ultimately have "emits (\<lambda>w. and_then (block False (qs ! k) (qs ! (k + 1)) w)
      (blocks_loop block final first stop_all points [k + 1..<length points + 1])) final arr (pos (qs ! k)) (pos stop_all)"
    by (rule emits_then)
  then show ?case
  proof (rule emits_fun)
    fix w
    have "(if k = 0 then first else points ! (k - 1)) = qs ! k" "points ! k = qs ! (k + 1)" using k by (auto simp: assms(1) nth_append nth_Cons')
    then show "blocks_loop block final first stop_all points [k..<length points + 1] w = and_then (block False (qs ! k) (qs ! (k + 1)) w)
        (blocks_loop block final first stop_all points [k + 1..<length points + 1])"
      using k unfolding list by (simp add: Let_def)
  qed
qed

lemmas blocks_loop_emits_0 = blocks_loop_emits [where k = 0, OF _ _ le0]

lemma points_sorted:
  assumes "points_ok a b points" and "a \<le> b" and "i \<le> length points" and "qs = a # points @ [b]"
  shows "a \<le> qs ! i" "qs ! i \<le> qs ! (i + 1)" "qs ! (i + 1) \<le> b"
proof -
  have "sorted points" using assms(1) by (simp add: points_ok_def strict_sorted_iff)
  then have s: "sorted qs" "\<forall>q \<in> set qs. a \<le> q \<and> q \<le> b" using assms by (auto simp: points_ok_def sorted_append less_imp_le)
  moreover have "i + 1 < length qs" using assms(3,4) by simp
  ultimately show "a \<le> qs ! i" "qs ! i \<le> qs ! (i + 1)" "qs ! (i + 1) \<le> b"
    using sorted_nth_mono [OF s(1), of i "i + 1"] by auto
qed

lemma range_part: "range_ok btype arr a b \<Longrightarrow> a \<le> p \<Longrightarrow> p \<le> q \<Longrightarrow> q \<le> b \<Longrightarrow> range_ok btype arr p q"
  by (auto simp: range_ok_def)

lemma emits_blocks_dynamic:
  assumes ok: "setting_ok fp qsort mem opts arr" and range: "range_ok btype arr a b" and btype: "btype = 1 \<or> btype = 2"
    and points: "points_ok a b points"
  shows "emits (blocks_loop (\<lambda>final start stop. DeflateBlock fp qsort mem opts btype final arr start stop) final a b points
    [0..<length points + 1]) final arr a b"
proof -
  have ab: "a \<le> b" using range by (simp add: range_ok_def)
  have "emits (DeflateBlock fp qsort mem opts btype f arr ((a # points @ [b]) ! i) ((a # points @ [b]) ! (i + 1))) f arr
      ((a # points @ [b]) ! i) ((a # points @ [b]) ! (i + 1))" if "i \<le> length points" for i f
    using emits_DeflateBlock [OF ok range_part [OF range points_sorted [OF points ab that refl]]] btype by auto
  from blocks_loop_emits_0 [where pos = "\<lambda>p. p" and block = "\<lambda>final start stop. DeflateBlock fp qsort mem opts btype final arr start stop", OF refl this]
  show ?thesis by simp
qed

text \<open>Stored blocks: the first one is empty, as the list of split points starts with the start of the data.\<close>

lemma emits_blocks_stored:
  assumes ok: "setting_ok fp qsort mem opts arr" and range: "range_ok 0 arr a b"
  shows "\<exists>points. ZopfliBlockSplitSimple a b 65535 [] = Inr points \<and>
    emits (blocks_loop (\<lambda>final start stop. DeflateBlock fp qsort mem opts 0 final arr start stop) final a b points
      [0..<length points + 1]) final arr a b"
proof -
  define n where "n = (b - a + 65535 - 1) div 65535"
  define points where "points = map (\<lambda>k. a + k * 65535) [0..<n]"
  have run: "ZopfliBlockSplitSimple a b 65535 [] = Inr points"
    using BlockSplitSimple_loop_points [of 65535 b a "b - a + 1" "[]"] by (simp add: ZopfliBlockSplitSimple_def points_def n_def)
  have ab: "a \<le> b" using range by (simp add: range_ok_def)
  have n: "k < n \<Longrightarrow> k * 65535 < b - a" "b - a \<le> n * 65535" for k unfolding n_def by linarith+
  have len: "length points = n" by (simp add: points_def)
  let ?qs = "a # points @ [b]"
  have q: "a \<le> ?qs ! i \<and> ?qs ! i \<le> ?qs ! (i + 1) \<and> ?qs ! (i + 1) \<le> b \<and> ?qs ! (i + 1) - ?qs ! i < 65536" if "i \<le> n" for i
  proof -
    have hi: "?qs ! (i + 1) = (if i = n then b else a + i * 65535)" using that by (simp add: points_def nth_append)
    have lo: "?qs ! i = (if i = 0 then a else a + (i - 1) * 65535)"
      using that by (cases i) (auto simp: points_def nth_append)
    show ?thesis using n(1) [of i] n(1) [of "i - 1"] n(2) ab that unfolding hi lo by (cases i) auto
  qed
  have "emits (DeflateBlock fp qsort mem opts 0 f arr (?qs ! i) (?qs ! (i + 1))) f arr (?qs ! i) (?qs ! (i + 1))"
    if "i \<le> length points" for i f
    using emits_DeflateBlock [OF ok range_part [OF range, of "?qs ! i" "?qs ! (i + 1)"]] q [of i] that len by auto
  from blocks_loop_emits_0 [where pos = "\<lambda>p. p" and block = "\<lambda>final start stop. DeflateBlock fp qsort mem opts 0 final arr start stop", OF refl this]
  show ?thesis using run by simp
qed

lemma emits_DeflateSplittingFirst:
  assumes ok: "setting_ok fp qsort mem opts arr" and range: "range_ok btype arr a b" and btype: "btype \<in> {0, 1, 2}"
  shows "emits (DeflateSplittingFirst fp qsort mem opts btype final arr a b) final arr a b"
proof -
  consider "btype = 0" | "btype = 1" | "btype = 2" using btype by auto
  then show ?thesis
  proof cases
    case 1
    obtain points where "ZopfliBlockSplitSimple a b 65535 [] = Inr points" "emits (blocks_loop (\<lambda>final start stop.
        DeflateBlock fp qsort mem opts 0 final arr start stop) final a b points [0..<length points + 1]) final arr a b"
      using emits_blocks_stored [OF ok, of a b final] range 1 by blast
    then show ?thesis using 1 by (simp add: DeflateSplittingFirst_def [abs_def])
  next
    case 2
    then show ?thesis using emits_blocks_dynamic [OF ok range, of "[]" final]
      by (simp add: DeflateSplittingFirst_def [abs_def] points_ok_def del: blocks_loop.simps)
  next
    case 3
    have "block_ok arr (cached_state opts a b)" by (rule cached_block_ok [OF ok range])
    then have arr: "windowstart a + 1 < length arr" "a \<le> b" "b \<le> length arr" by (simp_all add: block_ok_def cached_state_def)
    obtain points where "ZopfliBlockSplit qsort (u_sublen (mem 0 a) 0) opts arr a b (size_of_int (blocksplittingmax opts)) = Inr points"
        "points_ok a b points"
      using ZopfliBlockSplit_points [of qsort "u_sublen (mem 0 a) 0" a arr b opts "size_of_int (blocksplittingmax opts)"] ok range arr
      by (auto simp: setting_ok_def uninit_ok_def range_ok_def)
    with emits_blocks_dynamic [OF ok range, of points final] 3 show ?thesis
      by (simp add: DeflateSplittingFirst_def [abs_def])
  qed
qed

section \<open>Splitting a store\<close>

lemma copy_match_extends: "\<exists>ext. copy_match n d bytes = bytes @ ext"
proof (induction n arbitrary: bytes)
  case (Suc n)
  from Suc [of "bytes @ [bytes ! (length bytes - d)]"] show ?case by auto
qed simp

lemma lz_decode_extends: "\<exists>ext. lz_decode items bytes = bytes @ ext"
proof (induction items arbitrary: bytes)
  case (Cons p items)
  have "\<exists>ext. lz_step p bytes = bytes @ ext" using copy_match_extends by (auto simp: lz_step_def split: prod.splits)
  then show ?case using Cons [of "lz_step p bytes"] by auto
qed simp

lemma lz_decode_prefix:
  assumes "lz_decode items (take a arr) = take b arr" and "a \<le> b" and "b \<le> length arr"
  shows "lz_decode (take p items) (take a arr) = take (a + item_pos items p) arr"
proof -
  obtain ext where "lz_decode (drop p items) (lz_decode (take p items) (take a arr)) = lz_decode (take p items) (take a arr) @ ext"
    using lz_decode_extends by blast
  then have ext: "take b arr = lz_decode (take p items) (take a arr) @ ext"
    using assms(1) by (metis append_take_drop_id lz_decode_simps(3))
  moreover have len: "length (lz_decode (take p items) (take a arr)) = a + item_pos items p"
    using assms(2,3) by (simp add: length_lz_decode item_pos_def)
  ultimately have "take (a + item_pos items p) (take b arr) = lz_decode (take p items) (take a arr)" by simp
  moreover have "a + item_pos items p \<le> b" using arg_cong [OF ext, of length] len assms(3) by simp
  ultimately show ?thesis by (simp add: min_absorb1)
qed

lemma lz_items_slice: "q \<le> n \<Longrightarrow> lz_items lls ds p q = drop p (take q (lz_items lls ds 0 n))"
  by (simp add: lz_items_def take_map drop_map)

lemma emits_store_part:
  assumes q: "qsort_ok qsort" and btype: "btype = 1 \<or> btype = 2" and enc: "encodes arr a b store"
    and range: "a \<le> b" "b \<le> length arr" "b - a < 2 ^ 31" and part: "start \<le> stop" "stop \<le> store_size store"
  shows "emits (AddLZ77Block qsort btype final (litlens store) (dists store) start stop 0) final arr
    (a + item_pos (store_items store) start) (a + item_pos (store_items store) stop)"
proof (rule emits_items [OF q btype refl])
  let ?items = "store_items store"
  let ?part = "lz_items (litlens store) (dists store) start stop"
  have items: "?items = lz_items (litlens store) (dists store) 0 (store_size store)" using enc by (simp add: encodes_def lz_items_store)
  have eq: "?part = drop start (take stop ?items)" unfolding items by (rule lz_items_slice [OF part(2)])
  have "take stop ?items = take start ?items @ ?part" using part(1) unfolding eq by (metis append_take_drop_id min_absorb1 take_take)
  note split = this
  note dec = enc [unfolded encodes_def, THEN conjunct2, THEN conjunct2]
  have valid: "lz_valid (take stop ?items) (take a arr)"
    using enc lz_valid_append [of "take stop ?items" "drop stop ?items" "take a arr"] by (simp add: encodes_def)
  show "length ?part < 2 ^ 31" using encodes_size [OF enc range(1,2)] part(2) range(3) by (simp add: lz_items_def)
  show "lz_valid ?part (take (a + item_pos ?items start) arr)"
    using valid lz_decode_prefix [OF dec range(1,2), of start] by (simp add: split)
  show "lz_decode ?part (take (a + item_pos ?items start) arr) = take (a + item_pos ?items stop) arr"
    using lz_decode_prefix [OF dec range(1,2), of start] lz_decode_prefix [OF dec range(1,2), of stop] by (simp add: split)
qed simp

lemma emits_DeflateSplittingLast:
  assumes ok: "setting_ok fp qsort mem opts arr" and range: "range_ok btype arr a b" and btype: "btype = 1 \<or> btype = 2"
  shows "emits (DeflateSplittingLast fp qsort mem opts btype final arr a b) final arr a b"
proof -
  let ?s = "cached_state opts a b"
  note ok' = ok [unfolded setting_ok_def] and range' = range [unfolded range_ok_def]
  have s [simp]: "blockstart ?s = a" "blockend ?s = b" "options ?s = opts" by (simp_all add: cached_state_def)
  note block = cached_block_ok [OF ok range]
  obtain s1 store where run: "(if btype = 2 then ZopfliLZ77Optimal fp qsort (mem 1 a) ?s arr a b ZopfliInitLZ77Store
        else ZopfliLZ77OptimalFixed fp (mem 2 a) ?s arr a b ZopfliInitLZ77Store) = Inr (s1, store)" "encodes arr a b store"
    using optimal_pass.run_encodes [OF block, of fp qsort "mem 1 a"] fixed_pass.run_encodes [OF block, of fp "mem 2 a"] ok' range'
    by (cases "btype = 2") auto
  let ?n = "store_size store" and ?pos = "\<lambda>p. a + item_pos (store_items store) p"
  have small: "?n < 2 ^ 31" using encodes_size [OF run(2)] range' by simp
  obtain points where points: "(if btype = 1 then Inr [] else ZopfliBlockSplitLZ77 qsort opts (litlens store) (dists store) ?n
        (size_of_int (blocksplittingmax opts)) []) = Inr points" "points_ok 0 ?n points"
  proof (cases "btype = 1")
    case True
    then show thesis using that [of "[]"] by (simp add: points_ok_def)
  next
    case False
    obtain points where "ZopfliBlockSplitLZ77 qsort opts (litlens store) (dists store) ?n (size_of_int (blocksplittingmax opts)) [] = Inr points"
        "points_ok 0 ?n points"
      using ZopfliBlockSplitLZ77_points [OF _ encodes_items [OF run(2)] small] ok' by blast
    then show thesis using that False by simp
  qed
  have "emits (AddLZ77Block qsort btype f (litlens store) (dists store) ((0 # points @ [?n]) ! i) ((0 # points @ [?n]) ! (i + 1)) 0) f arr
      (?pos ((0 # points @ [?n]) ! i)) (?pos ((0 # points @ [?n]) ! (i + 1)))" if "i \<le> length points" for i f
    using points_sorted [OF points(2) le0 that refl] ok' range' by (intro emits_store_part [OF _ btype run(2)]) auto
  from blocks_loop_emits_0 [where pos = ?pos and block = "\<lambda>final start stop. AddLZ77Block qsort btype final (litlens store) (dists store) start stop 0",
      OF refl this]
  have "emits (blocks_loop (\<lambda>final start stop. AddLZ77Block qsort btype final (litlens store) (dists store) start stop 0) final 0 ?n points
      [0..<length points + 1]) final arr (?pos 0) (?pos ?n)" by simp
  moreover have "?pos 0 = a" by (simp add: item_pos_def)
  moreover have "?pos ?n = b"
    using encodes_sum [OF run(2)] range' run(2) by (simp add: item_pos_def encodes_def store_wf_def store_items_def store_size_def)
  moreover have "DeflateSplittingLast fp qsort mem opts btype final arr a b w = blocks_loop (\<lambda>final start stop.
      AddLZ77Block qsort btype final (litlens store) (dists store) start stop 0) final 0 ?n points [0..<length points + 1] w" for w
    using btype run(1) points(1) by (auto simp: DeflateSplittingLast_def simp del: blocks_loop.simps)
  ultimately show ?thesis by (simp add: emits_def del: blocks_loop.simps)
qed

section \<open>The whole compressor\<close>

text \<open>
  The options under which the compressor can write blocks of a type: stored blocks hold at most 65535 bytes, so they
  have to be split, and splitting after squeezing fails an assertion for them.
\<close>

definition mode_ok :: "ZopfliOptions \<Rightarrow> nat \<Rightarrow> nat \<Rightarrow> bool" where
  "mode_ok opts btype n \<longleftrightarrow> btype \<in> {0, 1, 2} \<and>
     (btype = 0 \<longrightarrow> (if blocksplitting opts then \<not> blocksplittinglast opts else n < 65536))"

lemma emits_ZopfliDeflatePart:
  assumes "setting_ok fp qsort mem opts arr" and "range_ok btype arr a b" and "mode_ok opts btype (b - a)"
  shows "emits (ZopfliDeflatePart fp qsort mem opts btype final arr a b) final arr a b"
proof (cases "blocksplitting opts \<and> blocksplittinglast opts")
  case True
  then have "btype = 1 \<or> btype = 2" using assms(3) by (auto simp: mode_ok_def)
  from emits_DeflateSplittingLast [OF assms(1,2) this] True show ?thesis by (simp add: ZopfliDeflatePart_def [abs_def])
next
  case False
  then show ?thesis
    using emits_DeflateSplittingFirst [OF assms(1,2), of final] emits_DeflateBlock [OF assms(1,2), of final] assms(3)
    by (cases "blocksplitting opts") (auto simp: ZopfliDeflatePart_def [abs_def] mode_ok_def)
qed

lemma deflate_loop_emits:
  assumes ok: "setting_ok fp qsort mem opts arr" and size: "insize \<le> length arr" "btype = 2 \<longrightarrow> insize \<le> 7000000"
    and mode: "mode_ok opts btype insize"
  shows "i < insize \<Longrightarrow> emits (deflate_loop fp qsort mem opts btype final arr insize i) final arr i insize"
proof (induction "insize - i" arbitrary: i rule: less_induct)
  case less
  let ?M = ZOPFLI_MASTER_BLOCK_SIZE
  have mode': "mode_ok opts btype n" if "n \<le> insize" for n using mode that by (auto simp: mode_ok_def split: if_splits)
  show ?case
  proof (cases "i + ?M \<ge> insize")
    case True
    have "range_ok btype arr i insize" using less.prems size True by (auto simp: range_ok_def ZOPFLI_MASTER_BLOCK_SIZE_def)
    from emits_ZopfliDeflatePart [OF ok this mode', of final]
    have "emits (ZopfliDeflatePart fp qsort mem opts btype final arr i insize) final arr i insize" by simp
    moreover have "deflate_loop fp qsort mem opts btype final arr insize insize = Inr"
      by (rule ext) (simp add: deflate_loop.simps)
    then have "deflate_loop fp qsort mem opts btype final arr insize i w = ZopfliDeflatePart fp qsort mem opts btype final arr i insize w" for w
      using less.prems True by (simp add: deflate_loop.simps [of _ _ _ _ _ _ _ _ i] Let_def)
    ultimately show ?thesis by (simp add: emits_def)
  next
    case False
    have "range_ok btype arr i (i + ?M)" using less.prems size False by (auto simp: range_ok_def ZOPFLI_MASTER_BLOCK_SIZE_def)
    from emits_ZopfliDeflatePart [OF ok this mode', of False]
    have part: "emits (ZopfliDeflatePart fp qsort mem opts btype False arr i (i + ?M)) False arr i (i + ?M)" using False by simp
    have "emits (deflate_loop fp qsort mem opts btype final arr insize (i + ?M)) final arr (i + ?M) insize"
      by (rule less.hyps) (use False less.prems in \<open>auto simp: ZOPFLI_MASTER_BLOCK_SIZE_def\<close>)
    from emits_then [OF part this] show ?thesis
      by (rule emits_fun) (use less.prems False in \<open>simp add: deflate_loop.simps [of _ _ _ _ _ _ _ _ i] Let_def\<close>)
  qed
qed

lemma ZopfliDeflate_emits:
  assumes "setting_ok fp qsort mem opts arr" and "insize \<le> length arr" "btype = 2 \<longrightarrow> insize \<le> 7000000"
    and "mode_ok opts btype insize" and "0 < insize"
  shows "emits (ZopfliDeflate fp qsort mem opts btype final arr insize) final arr 0 insize"
  using deflate_loop_emits [OF assms] by (simp add: ZopfliDeflate_def [abs_def])

text \<open>The stream after any whole bytes, and the bits left in its last byte.\<close>

lemma ZopfliDeflate_stream:
  assumes "setting_ok fp qsort mem opts (data @ extra)" and "btype = 2 \<longrightarrow> length data \<le> 7000000"
    and "mode_ok opts btype (length data)" and "data \<noteq> []"
  shows "\<exists>w' stream. ZopfliDeflate fp qsort mem opts btype True (data @ extra) (length data) \<lparr>bp = 0, out = before\<rparr> = Inr w' \<and>
    out w' = before @ stream \<and>
    (\<forall>after. \<exists>pad. length pad < 8 \<and> inflate_blocks (bits_of (stream @ after)) [] = Some (data, pad @ bits_of after))"
proof -
  have rep: "represents \<lparr>bp = 0, out = before\<rparr> (bits_of before)" by (simp add: represents_def)
  obtain w' bb where w': "ZopfliDeflate fp qsort mem opts btype True (data @ extra) (length data) \<lparr>bp = 0, out = before\<rparr> = Inr w'"
      "represents w' (bits_of before @ bb)"
      "\<And>rest. length (bits_of before @ bb @ rest) mod 8 = 0 \<Longrightarrow> inflate_blocks (bb @ rest) [] = Some (data, rest)"
    by (rule emitsE [OF ZopfliDeflate_emits [OF assms(1) _ assms(2,3), of True] rep]) (use assms(4) in auto)
  have "pack (bits_of before @ bb) = before @ pack bb"
  proof -
    have "bits_of (pack (bits_of before @ bb)) = bits_of (before @ pack bb)"
      unfolding bits_of_pack bits_of_append by (simp add: padding_def)
    then show ?thesis by (metis pack_bits_of)
  qed
  then have out: "out w' = before @ pack bb" using w'(2) by (simp add: represents_def)
  have "\<exists>pad. length pad < 8 \<and> inflate_blocks (bits_of (pack bb @ after)) [] = Some (data, pad @ bits_of after)" for after
  proof -
    let ?pad = "replicate (padding (length bb)) False"
    have "length (bits_of before @ bb @ ?pad @ bits_of after) mod 8 = 0"
      using padding_total [of "length bb"] by (simp add: add.assoc [symmetric])
    from w'(3) [OF this] show ?thesis
      by (intro exI [of _ ?pad]) (simp add: bits_of_pack padding_def)
  qed
  with w'(1) out show ?thesis by blast
qed

end
