(* ===== verification/Zopfli_Container.thy ===== *)
theory Zopfli_Container
  imports Zopfli_Deflate
begin

text \<open>
  The containers of the compressor (\<^verbatim>\<open>gzip_container.cc\<close>, \<^verbatim>\<open>zlib_container.cc\<close>) and \<^verbatim>\<open>ZopfliCompress\<close>
  (\<^verbatim>\<open>zopfli_lib.cc\<close>), and that a reader of each format gets the data back.
\<close>

section \<open>Operations\<close>

text \<open>The bytes of a number, the least significant first; an \<^verbatim>\<open>unsigned char\<close> takes the low 8 bits.\<close>

definition low_bytes :: "'a :: len word \<Rightarrow> nat list \<Rightarrow> byte list" where
  "low_bytes v shifts = map (\<lambda>k. of_nat (unat (drop_bit k v) mod 256)) shifts"

definition ZopfliGzipCompress :: "fp \<Rightarrow> (Node list \<Rightarrow> Node list) \<Rightarrow> memory \<Rightarrow> ZopfliOptions \<Rightarrow> byte list \<Rightarrow> nat \<Rightarrow> byte list \<Rightarrow>
    failure + byte list" where
  "ZopfliGzipCompress fp qsort mem opts arr insize out0 =
     and_then (CRC (take insize arr)) (\<lambda>crcvalue.
     let out1 = out0 @ [31, 139, 8, 0, 0, 0, 0, 0, 2, 3]
     in and_then (ZopfliDeflate fp qsort mem opts 2 True arr insize \<lparr>bp = 0, out = out1\<rparr>) (\<lambda>w.
        Inr (out w @ low_bytes crcvalue [0, 8, 16, 24] @ low_bytes (of_nat insize :: size_t) [0, 8, 16, 24])))"

definition ZopfliZlibCompress :: "fp \<Rightarrow> (Node list \<Rightarrow> Node list) \<Rightarrow> memory \<Rightarrow> ZopfliOptions \<Rightarrow> byte list \<Rightarrow> nat \<Rightarrow> byte list \<Rightarrow>
    failure + byte list" where
  "ZopfliZlibCompress fp qsort mem opts arr insize out0 =
     (let checksum = adler32 (take insize arr);
          cmf = 120 :: uint32;
          flevel = 0;
          fdict = 0;
          cmfflg = 256 * cmf + fdict * 32 + flevel * 64;
          fcheck = 31 - cmfflg mod 31;
          cmfflg = cmfflg + fcheck;
          out1 = out0 @ [ucast (cmfflg div 256), ucast (cmfflg mod 256)]
      in and_then (ZopfliDeflate fp qsort mem opts 2 True arr insize \<lparr>bp = 0, out = out1\<rparr>) (\<lambda>w.
           Inr (out w @ low_bytes checksum [24, 16, 8, 0])))"

text \<open>\<^verbatim>\<open>assert(0)\<close> is left for values that are none of the enumeration.\<close>

fun ZopfliCompress :: "fp \<Rightarrow> (Node list \<Rightarrow> Node list) \<Rightarrow> memory \<Rightarrow> ZopfliOptions \<Rightarrow> ZopfliFormat \<Rightarrow> byte list \<Rightarrow> nat \<Rightarrow> byte list \<Rightarrow>
    failure + byte list" where
  "ZopfliCompress fp qsort mem opts ZOPFLI_FORMAT_GZIP arr insize out0 = ZopfliGzipCompress fp qsort mem opts arr insize out0"
| "ZopfliCompress fp qsort mem opts ZOPFLI_FORMAT_ZLIB arr insize out0 = ZopfliZlibCompress fp qsort mem opts arr insize out0"
| "ZopfliCompress fp qsort mem opts ZOPFLI_FORMAT_DEFLATE arr insize out0 =
     and_then (ZopfliDeflate fp qsort mem opts 2 True arr insize \<lparr>bp = 0, out = out0\<rparr>) (\<lambda>w. Inr (out w))"

section \<open>Readers\<close>

text \<open>A number from its bytes, the least significant first.\<close>

fun number_of :: "byte list \<Rightarrow> nat" where
  "number_of [] = 0"
| "number_of (b # bs) = unat b + 256 * number_of bs"

text \<open>The data of a DEFLATE stream and the whole bytes that follow it.\<close>

definition inflate_prefix :: "byte list \<Rightarrow> (byte list \<times> byte list) option" where
  "inflate_prefix stream = map_option (\<lambda>(bytes, bs). (bytes, pack (drop (length bs mod 8) bs))) (inflate_blocks (bits_of stream) [])"

text \<open>A gzip member without optional fields (RFC 1952): its header, the data, its CRC-32 and its length.\<close>

definition gunzip :: "byte list \<Rightarrow> byte list option" where
  "gunzip stream =
     (if length stream < 10 \<or> take 4 stream \<noteq> [31, 139, 8, 0] then None
      else do {
        (bytes, trailer) \<leftarrow> inflate_prefix (drop 10 stream);
        if length trailer = 8 \<and> number_of (take 4 trailer) = unat (crc32 bytes) \<and> number_of (drop 4 trailer) = length bytes mod 2 ^ 32
        then Some bytes else None
      })"

text \<open>A zlib stream without a dictionary (RFC 1950): two bytes whose value is a multiple of 31, the data, its Adler-32.\<close>

definition zlib_read :: "byte list \<Rightarrow> byte list option" where
  "zlib_read stream =
     (case stream of
        cmf # flg # rest \<Rightarrow>
          if unat cmf mod 16 \<noteq> 8 \<or> unat cmf div 16 > 7 \<or> (unat cmf * 256 + unat flg) mod 31 \<noteq> 0 \<or> bit flg 5 then None
          else do {
            (bytes, trailer) \<leftarrow> inflate_prefix rest;
            if length trailer = 4 \<and> number_of (rev trailer) = rfc_adler32 bytes then Some bytes else None
          }
      | _ \<Rightarrow> None)"

fun decompress :: "ZopfliFormat \<Rightarrow> byte list \<Rightarrow> byte list option" where
  "decompress ZOPFLI_FORMAT_GZIP stream = gunzip stream"
| "decompress ZOPFLI_FORMAT_ZLIB stream = zlib_read stream"
| "decompress ZOPFLI_FORMAT_DEFLATE stream = inflate stream"

section \<open>Round trips\<close>

lemma inflate_prefix_stream:
  assumes "\<forall>after. \<exists>pad. length pad < 8 \<and> inflate_blocks (bits_of (stream @ after)) [] = Some (data, pad @ bits_of after)"
  shows "inflate_prefix (stream @ after) = Some (data, after)" "inflate stream = Some data"
proof -
  obtain pad where pad: "length pad < 8" "inflate_blocks (bits_of (stream @ after)) [] = Some (data, pad @ bits_of after)"
    using assms by blast
  have "length (pad @ bits_of after) mod 8 = length pad" using pad(1) by simp
  then have "drop (length (pad @ bits_of after) mod 8) (pad @ bits_of after) = bits_of after" by simp
  then show "inflate_prefix (stream @ after) = Some (data, after)" using pad(2) by (simp add: inflate_prefix_def del: bits_of_append)
  show "inflate stream = Some data" using assms [rule_format, of "[]"] by (auto simp: inflate_def)
qed

lemma number_of_bytes:
  assumes "v < 2 ^ 32"
  shows "number_of (map (\<lambda>k. of_nat (v div 2 ^ k mod 256)) [0, 8, 16, 24]) = v"
proof -
  have "unat (of_nat (x mod 256) :: byte) = x mod 256" for x by (simp add: unat_of_nat)
  then have "number_of (map (\<lambda>k. of_nat (v div 2 ^ k mod 256)) [0, 8, 16, 24]) =
      v mod 256 + 256 * (v div 256 mod 256 + 256 * (v div 65536 mod 256 + 256 * (v div 16777216 mod 256)))"
    by simp
  also have "\<dots> = v"
  proof -
    have div: "v div 65536 = v div 256 div 256" "v div 16777216 = v div 256 div 256 div 256" by (simp_all flip: div_mult2_eq)
    have "v div 256 div 256 div 256 < 256" using assms by (simp flip: div_mult2_eq)
    then show ?thesis
      unfolding div using div_mult_mod_eq [of v 256] div_mult_mod_eq [of "v div 256" 256] div_mult_mod_eq [of "v div 256 div 256" 256]
      by (simp del: div_mult_mod_eq)
  qed
  finally show ?thesis .
qed

lemma low_bytes_number:
  assumes "unat v < 2 ^ 32"
  shows "number_of (low_bytes v [0, 8, 16, 24]) = unat v" "number_of (rev (low_bytes v [24, 16, 8, 0])) = unat v"
proof -
  have "unat (drop_bit k v) = unat v div 2 ^ k" for k by (metis drop_bit_eq_div unat_drop_bit_eq)
  then show "number_of (low_bytes v [0, 8, 16, 24]) = unat v" "number_of (rev (low_bytes v [24, 16, 8, 0])) = unat v"
    using number_of_bytes [OF assms] by (simp_all only: low_bytes_def rev_map rev.simps append.simps)
qed

lemma crc32_less: "unat (crc32 bytes) < 2 ^ 32"
proof -
  define small where "small c \<longleftrightarrow> (\<forall>n \<ge> 32. \<not> bit (c :: size_t) n)" for c
  have poly: "small 0xedb88320" "small 0xffffffff"
  proof -
    have "(0xedb88320 :: size_t) = take_bit 32 0xedb88320" "(0xffffffff :: size_t) = take_bit 32 0xffffffff" by (simp_all add: take_bit_eq_mod)
    then show "small 0xedb88320" "small 0xffffffff" by (metis small_def bit_take_bit_iff not_less)+
  qed
  have xor: "small (a XOR b)" if "small a" "small b" for a b using that by (simp add: small_def bit_xor_iff)
  have shift: "small (drop_bit 1 c)" if "small c" for c using that by (simp add: small_def bit_drop_bit_eq)
  have "small (fold crc_bit bs c)" if "small c" for bs c
    using that
  proof (induction bs arbitrary: c)
    case (Cons b bs)
    have "small (crc_bit b c)" using poly(1) xor shift Cons.prems by (simp add: crc_bit_def)
    then show ?case using Cons.IH by simp
  qed simp
  then have "small (crc32 bytes)" using poly(2) xor by (simp add: crc32_def)
  then have "take_bit 32 (crc32 bytes) = crc32 bytes" by (intro bit_word_eqI) (auto simp: bit_take_bit_iff small_def not_le)
  then have "unat (crc32 bytes) = take_bit 32 (unat (crc32 bytes))" by (metis unsigned_take_bit_eq)
  then show ?thesis by (metis take_bit_nat_less_exp)
qed

lemma low_bytes_length [simp]: "length (low_bytes v shifts) = length shifts"
  by (simp add: low_bytes_def)

lemma mode_dynamic: "mode_ok opts 2 n"
  by (simp add: mode_ok_def)

lemma gzip_roundtrip_lemma:
  assumes ok: "setting_ok fp qsort mem opts (data @ extra)" and size: "length data \<le> 7000000" and "data \<noteq> []"
  shows "\<exists>stream. ZopfliGzipCompress fp qsort mem opts (data @ extra) (length data) out0 = Inr (out0 @ stream) \<and> gunzip stream = Some data"
proof -
  let ?header = "[31, 139, 8, 0, 0, 0, 0, 0, 2, 3] :: byte list"
  let ?trailer = "low_bytes (crc32 data) [0, 8, 16, 24] @ low_bytes (of_nat (length data) :: size_t) [0, 8, 16, 24]"
  obtain w' stream where w': "ZopfliDeflate fp qsort mem opts 2 True (data @ extra) (length data) \<lparr>bp = 0, out = out0 @ ?header\<rparr> = Inr w'"
      "out w' = (out0 @ ?header) @ stream"
      "\<forall>after. \<exists>pad. length pad < 8 \<and> inflate_blocks (bits_of (stream @ after)) [] = Some (data, pad @ bits_of after)"
    using ZopfliDeflate_stream [OF ok _ mode_dynamic assms(3)] size by blast
  have crc: "CRC data = Inr (crc32 data)" using size by (intro CRC_eq) simp
  have len: "unat (of_nat (length data) :: size_t) = length data" using size by (simp add: unat_of_nat)
  have "ZopfliGzipCompress fp qsort mem opts (data @ extra) (length data) out0 = Inr (out0 @ (?header @ stream @ ?trailer))"
    using w'(1,2) crc by (simp add: ZopfliGzipCompress_def Let_def)
  moreover have "gunzip (?header @ stream @ ?trailer) = Some data"
    using inflate_prefix_stream(1) [OF w'(3), of ?trailer] low_bytes_number(1) [OF crc32_less, of data]
      low_bytes_number(1) [of "of_nat (length data) :: size_t"] len size
    by (simp add: gunzip_def)
  ultimately show ?thesis by blast
qed

lemma zlib_roundtrip_lemma:
  assumes ok: "setting_ok fp qsort mem opts (data @ extra)" and size: "length data \<le> 7000000" and "data \<noteq> []"
  shows "\<exists>stream. ZopfliZlibCompress fp qsort mem opts (data @ extra) (length data) out0 = Inr (out0 @ stream) \<and> zlib_read stream = Some data"
proof -
  let ?header = "[120, 1] :: byte list" and ?trailer = "low_bytes (adler32 data) [24, 16, 8, 0]"
  obtain w' stream where w': "ZopfliDeflate fp qsort mem opts 2 True (data @ extra) (length data) \<lparr>bp = 0, out = out0 @ ?header\<rparr> = Inr w'"
      "out w' = (out0 @ ?header) @ stream"
      "\<forall>after. \<exists>pad. length pad < 8 \<and> inflate_blocks (bits_of (stream @ after)) [] = Some (data, pad @ bits_of after)"
    using ZopfliDeflate_stream [OF ok _ mode_dynamic assms(3)] size by blast
  have "ZopfliZlibCompress fp qsort mem opts (data @ extra) (length data) out0 = Inr (out0 @ (?header @ stream @ ?trailer))"
    using w'(1,2) by (simp add: ZopfliZlibCompress_def Let_def)
  moreover have "zlib_read (?header @ stream @ ?trailer) = Some data"
    using inflate_prefix_stream(1) [OF w'(3), of ?trailer] low_bytes_number(2) [of "adler32 data"] adler32_spec [of data] size
      unsigned_less [of "adler32 data", where ?'a = nat]
    by (simp add: zlib_read_def bit_numeral_rec)
  ultimately show ?thesis by blast
qed

lemma ZopfliCompress_decompress:
  assumes "setting_ok fp qsort mem opts (data @ extra)" and "length data \<le> 7000000" and "data \<noteq> []"
  shows "\<exists>stream. ZopfliCompress fp qsort mem opts output_type (data @ extra) (length data) out0 = Inr (out0 @ stream) \<and>
    decompress output_type stream = Some data"
proof (cases output_type)
  case ZOPFLI_FORMAT_DEFLATE
  obtain w' stream where w': "ZopfliDeflate fp qsort mem opts 2 True (data @ extra) (length data) \<lparr>bp = 0, out = out0\<rparr> = Inr w'"
      "out w' = out0 @ stream"
      "\<forall>after. \<exists>pad. length pad < 8 \<and> inflate_blocks (bits_of (stream @ after)) [] = Some (data, pad @ bits_of after)"
    using ZopfliDeflate_stream [OF assms(1) _ mode_dynamic assms(3)] assms(2) by blast
  then show ?thesis using inflate_prefix_stream(2) [OF w'(3)] ZOPFLI_FORMAT_DEFLATE by simp
qed (use gzip_roundtrip_lemma [OF assms] zlib_roundtrip_lemma [OF assms] in simp_all)

text \<open>A stream that starts with three zero bytes and ends soon is none: it asks for a stored block of zero bytes.\<close>

lemma read_bits_zeros: "n \<le> m \<Longrightarrow> read_bits n (replicate m False @ xs) = Some (0, replicate (m - n) False @ xs)"
proof -
  have "horner_sum of_bool 2 (replicate n False) = (0 :: nat)" by (induction n) simp_all
  then show "n \<le> m \<Longrightarrow> ?thesis" by (simp add: read_bits_def)
qed

lemma inflate_prefix_zeros:
  assumes "after = [1] \<or> after = [0, 0, 0, 0, 0]"
  shows "inflate_prefix ([0, 0, 0] @ after) = None"
proof -
  have zero: "bits_of_byte 0 = replicate 8 False" by (rule nth_equalityI) (simp_all add: bits_of_byte_def)
  have bits: "bits_of ([0, 0, 0] @ after) = replicate 24 False @ bits_of after"
    by (simp add: zero replicate_add [symmetric] flip: append_assoc)
  have three: "inflate_block (replicate 24 False @ bits_of after) [] = map_option (\<lambda>(bytes, bs). (False, bytes, bs))
      (inflate_stored (replicate 21 False @ bits_of after) [])"
    by (simp add: inflate_block_def read_bits_zeros split: Option.bind_split)
  have "inflate_stored (replicate 21 False @ bits_of after) [] = None"
    using assms
  proof
    assume "after = [0, 0, 0, 0, 0]"
    then have "replicate 21 False @ bits_of after = replicate 61 False @ []"
      by (simp add: zero replicate_add [symmetric] flip: append_assoc)
    then show ?thesis by (simp add: inflate_stored_def read_bits_zeros [of _ _ "[]", simplified])
  next
    assume "after = [1]"
    then show ?thesis by (simp add: inflate_stored_def read_bits_zeros) (simp add: read_bits_def)
  qed
  then have "inflate_blocks (replicate 24 False @ bits_of after) [] = None" using three by (simp add: inflate_blocks.simps)
  then show ?thesis unfolding inflate_prefix_def bits by simp
qed

section \<open>A setting in which the hypotheses hold\<close>

text \<open>Exact arithmetic, a stable sort and memory full of zeros.\<close>

definition zero_memory :: memory where
  "zero_memory k n = zero_uninit"

lemma exact_setting: "2 \<le> length arr \<Longrightarrow> setting_ok exact_fp (sort_key weight) zero_memory ZopfliInitOptions arr"
  by (simp add: setting_ok_def exact_fp_ok qsort_ok_sort_key zero_uninit_ok zero_memory_def ZopfliInitOptions_def)

section \<open>Properties\<close>

text \<open>
  C5. What \<^verbatim>\<open>ZopfliCompress\<close> makes of data can be read back: for each of the three formats, all options with
  at least one iteration, and any data of 1 to 7000000 bytes that is followed by at least one readable byte or has at
  least two itself, it returns (no assertion fails, no array is read out of bounds, every loop ends), it appends to what
  the output held before, and a reader of the format, which checks header, checksum and length, recovers exactly the data.
\<close>

theorem compress_roundtrip:
  assumes "setting_ok fp qsort mem opts (data @ extra)" and "length data \<le> 7000000" and "data \<noteq> []"
  shows "\<exists>stream. ZopfliCompress fp qsort mem opts output_type (data @ extra) (length data) out0 = Inr (out0 @ stream) \<and>
    decompress output_type stream = Some data"
  by (rule ZopfliCompress_decompress [OF assms])

theorem compress_roundtrip_witness:
  "\<exists>stream. ZopfliCompress exact_fp (sort_key weight) zero_memory ZopfliInitOptions ZOPFLI_FORMAT_GZIP ([97, 98, 97] @ [0]) (length [97, 98, 97 :: byte])
      [] = Inr ([] @ stream) \<and> decompress ZOPFLI_FORMAT_GZIP stream = Some [97, 98, 97]"
  by (rule compress_roundtrip [OF exact_setting]) simp_all

text \<open>
  C9. The deflate stream can be read back, with every combination of the splitting options for fixed and dynamic blocks,
  and with stored blocks (type 0) when the data is split before squeezing, or not at all and has less than 65536 bytes:
  with \<open>final\<close> set and at least one iteration, \<^verbatim>\<open>ZopfliDeflate\<close> returns after any whole bytes and a decoder recovers
  exactly the data from what it appended. Dynamic blocks (type 2) need at most 7000000 bytes, and data of one byte a
  readable byte after it. Stored blocks with splitting after squeezing fail an assertion (\<open>splitting_last_stored_fails\<close>).
\<close>

theorem deflate_roundtrip:
  assumes "setting_ok fp qsort mem opts (data @ extra)" and "btype = 2 \<longrightarrow> length data \<le> 7000000"
    and "mode_ok opts btype (length data)" and "data \<noteq> []"
  shows "\<exists>w' stream. ZopfliDeflate fp qsort mem opts btype True (data @ extra) (length data) \<lparr>bp = 0, out = before\<rparr> = Inr w' \<and>
    out w' = before @ stream \<and> inflate stream = Some data"
proof -
  obtain w' stream where "ZopfliDeflate fp qsort mem opts btype True (data @ extra) (length data) \<lparr>bp = 0, out = before\<rparr> = Inr w'"
      "out w' = before @ stream"
      "\<forall>after. \<exists>pad. length pad < 8 \<and> inflate_blocks (bits_of (stream @ after)) [] = Some (data, pad @ bits_of after)"
    using ZopfliDeflate_stream [OF assms] by blast
  then show ?thesis using inflate_prefix_stream(2) by blast
qed

theorem deflate_roundtrip_witness:
  "\<exists>w' stream. ZopfliDeflate exact_fp (sort_key weight) zero_memory ZopfliInitOptions 1 True ([97, 97, 97, 97] @ []) (length [97, 97, 97, 97 :: byte])
      \<lparr>bp = 0, out = [7]\<rparr> = Inr w' \<and> out w' = [7] @ stream \<and> inflate stream = Some [97, 97, 97, 97]"
  by (rule deflate_roundtrip [OF exact_setting]) (simp_all add: mode_ok_def)

text \<open>
  C40. Of empty data \<^verbatim>\<open>ZopfliCompress\<close> makes a stream that no reader accepts: \<^verbatim>\<open>ZopfliDeflate\<close> writes no block at all,
  so that the containers hold a header and a trailer with nothing in between, and the bare stream is empty.
\<close>

theorem empty_input_unreadable:
  "\<exists>stream. ZopfliCompress fp qsort mem opts output_type arr 0 out0 = Inr (out0 @ stream) \<and> decompress output_type stream = None"
proof -
  have run: "ZopfliDeflate fp qsort mem opts 2 True arr 0 w = Inr w" for w by (simp add: ZopfliDeflate_def deflate_loop.simps)
  show ?thesis
  proof (cases output_type)
    case ZOPFLI_FORMAT_GZIP
    have "CRC [] = Inr 0" by (simp add: CRC_def UpdateCRC_def)
    moreover have "inflate_prefix [0, 0, 0, 0, 0, 0, 0, 0] = None" using inflate_prefix_zeros [of "[0, 0, 0, 0, 0]"] by simp
    ultimately show ?thesis using run ZOPFLI_FORMAT_GZIP
      by (simp add: ZopfliGzipCompress_def gunzip_def low_bytes_def Let_def)
  next
    case ZOPFLI_FORMAT_ZLIB
    have "adler32 [] = 1" by (simp add: adler32_def adler_loop.simps)
    moreover have "inflate_prefix [0, 0, 0, 1] = None" using inflate_prefix_zeros [of "[1]"] by simp
    ultimately show ?thesis using run ZOPFLI_FORMAT_ZLIB
      by (simp add: ZopfliZlibCompress_def zlib_read_def low_bytes_def Let_def)
  next
    case ZOPFLI_FORMAT_DEFLATE
    have "inflate [] = None" by (simp add: inflate_def inflate_blocks.simps inflate_block_def read_bits_def)
    then show ?thesis using run ZOPFLI_FORMAT_DEFLATE by simp
  qed
qed

text \<open>
  Splitting after squeezing cannot store data uncompressed: for block type 0 \<^verbatim>\<open>DeflateSplittingLast\<close> has the
  other order of splitting write the blocks but then does not return: it goes on to an assertion that fails.
\<close>

theorem splitting_last_stored_fails:
  assumes "setting_ok fp qsort mem opts arr" and "range_ok 0 arr instart inend" and "represents w bs"
  shows "DeflateSplittingLast fp qsort mem opts 0 final arr instart inend w = Inl Assertion_failed"
proof -
  obtain w' where "DeflateSplittingFirst fp qsort mem opts 0 final arr instart inend w = Inr w'"
    by (rule emitsE [OF emits_DeflateSplittingFirst [OF assms(1,2)] assms(3), of final]) auto
  then show ?thesis by (simp add: DeflateSplittingLast_def assertion_def)
qed

theorem splitting_last_stored_fails_witness:
  "DeflateSplittingLast exact_fp (sort_key weight) zero_memory ZopfliInitOptions 0 True [1, 2, 3] 0 3 new_writer = Inl Assertion_failed"
  by (rule splitting_last_stored_fails [OF exact_setting _ represents_new]) (simp_all add: range_ok_def)

end
