(* ===== verification/Compressed_Reply.thy ===== *)
theory Compressed_Reply
  imports Request_Handler Zopfli_Container
begin

text \<open>
  The request handler together with the compressor it calls: what \<^verbatim>\<open>handle_get\<close> sends to a client that accepts a
  compressed reply, and that the client recovers the blob from it.
\<close>

section \<open>Operations\<close>

definition byte_of_char :: "char \<Rightarrow> byte" where
  "byte_of_char c = of_nat (of_char c)"

definition char_of_byte :: "byte \<Rightarrow> char" where
  "char_of_byte b = char_of (unat b)"

text \<open>
  The call of \<^verbatim>\<open>ZopfliCompress\<close>: the array is the \<^verbatim>\<open>c_str\<close> of the content, whose last byte is NUL, and the content is
  replaced by the output.
\<close>

definition compress_content :: "fp \<Rightarrow> (Node list \<Rightarrow> Node list) \<Rightarrow> memory \<Rightarrow> ZopfliFormat \<Rightarrow> string \<Rightarrow> failure + string" where
  "compress_content fp qsort mem output_type content =
     and_then (ZopfliCompress fp qsort mem ZopfliInitOptions output_type (map byte_of_char content @ [0]) (length content) [])
       (\<lambda>outp. Inr (map char_of_byte outp))"

section \<open>Compressed downloads\<close>

lemma char_of_byte_inverse: "byte_of_char (char_of_byte b) = b"
  using unsigned_less [of b, where ?'a = nat] by (simp add: byte_of_char_def char_of_byte_def of_char_of take_bit_nat_eq_self)

lemma compress_content_roundtrip:
  assumes "fp_ok fp" and "qsort_ok qsort" and "\<forall>k n. uninit_ok (mem k n)" and "content \<noteq> []" and "length content \<le> 7000000"
  shows "\<exists>txt_out. compress_content fp qsort mem output_type content = Inr txt_out \<and>
    decompress output_type (map byte_of_char txt_out) = Some (map byte_of_char content)"
proof -
  have "setting_ok fp qsort mem ZopfliInitOptions (map byte_of_char content @ [0])"
    using assms by (cases content) (simp_all add: setting_ok_def ZopfliInitOptions_def)
  from ZopfliCompress_decompress [OF this, of output_type "[]"] assms(4,5) show ?thesis
    by (auto simp: compress_content_def char_of_byte_inverse o_def)
qed

text \<open>The handler's compressor is this one.\<close>

definition compresses_with :: "fp \<Rightarrow> (Node list \<Rightarrow> Node list) \<Rightarrow> memory \<Rightarrow> env \<Rightarrow> bool" where
  "compresses_with fp qsort mem env \<longleftrightarrow>
     fp_ok fp \<and> qsort_ok qsort \<and> (\<forall>k n. uninit_ok (mem k n)) \<and>
     zopfli env = compress_content fp qsort mem"

lemma handle_get_compressed:
  assumes "plain_paths env" and "index_ok (host env) (config env) st" and "create_blob_key r = Some k"
    and "output_type_for (handler_get_header (req_headers req) ''Accept-Encoding'') = Some f" and "contents st k = Some x"
    and "zopfli env f x = Inr body"
  shows "handle_get env (''/'' @ r) req (fresh_reply s) st =
    Inr (push_header ''Content-Encoding'' (encoding_name f) (octet_reply body))"
proof -
  obtain b where b: "get_blob st r = Some b" "files st (filePath (heap st ! b)) = Some x"
    using assms(5) by (auto simp: contents_get_blob [OF assms(3)] split: option.splits)
  then have "map_find (blobs st) k = Some b" using assms(3) by (simp add: get_blob_def)
  from index_ok_entry [OF assms(2) this] obtain y
    where "filePath (heap st ! b) = blob_path (config env) (Sha256 (host env) y)"
    by (auto simp: Blob_Index.entry_ok_def)
  then have "read_file st (filePath (heap st ! b)) = Some x"
    using c_str_blob_path [OF assms(1)] b(2) by (simp add: read_file_def)
  with b(1) assms(4,6) show ?thesis
    by (simp add: handle_get_def finish_get_def Let_def fresh_reply_def octet_reply_def with_length_def push_header_def)
qed

section \<open>Properties\<close>

text \<open>
  C2. What was uploaded can be downloaded in compressed form: when a form of ASCII parts is posted to the upload URL, whose
  nonempty payloads do not collide (in their digests, which are of the bytes up to the first NUL, among them or with the
  file of their digest), on a platform that lets the server write, the upload is answered 200, and a GET of a reference of
  a nonempty payload of at most 7000000 bytes whose \<^verbatim>\<open>Accept-Encoding\<close> names one of the formats answers 200 with a content
  that a reader of that format turns into exactly the payload's bytes, with the length of the compressed content and
  with the format in the header \<^verbatim>\<open>Content-Encoding\<close>. Uploads may be larger; nothing is said of those.
\<close>

theorem upload_then_compressed_download:
  assumes "qi_engine (engine env)" and "plain_paths env" and "writable env"
    and "index_ok (host env) (config env) st" and "backed st"
    and "wf_boundary b" and "ps \<noteq> []" and "\<forall>p \<in> set ps. wf_part b p"
    and "storable env (nonempty (map snd ps)) st"
    and "req_method up \<in> {''PUT'', ''POST''}" and "req_uri up = ''/upload''"
    and "handler_get_header (req_headers up) ''Content-Type'' = form_type b"
    and "req_content up = render_form b ps"
    and "x \<in> set (map snd ps)" and "x \<noteq> []" and "length x \<le> 7000000"
    and "req_method down = ''GET''" and "req_uri down = ''/'' @ blobref (key_for (host env) x t)"
    and "output_type_for (handler_get_header (req_headers down) ''Accept-Encoding'') = Some f"
    and "compresses_with fp qsort mem env"
  shows "\<exists>st' body. handle_request env up rep st = (Inr (rep\<lparr>rep_status := ok\<rparr>), st') \<and>
    handle_request env down (fresh_reply s) st' =
      (Inr (push_header ''Content-Encoding'' (encoding_name f) (octet_reply body)), st') \<and>
    decompress f (map byte_of_char body) = Some (map byte_of_char x)"
proof -
  obtain st' where st': "handle_request env up rep st = (Inr (rep\<lparr>rep_status := ok\<rparr>), st')"
      "index_ok (host env) (config env) st'"
      "contents st' = fold (abs_store (host env)) (nonempty (map snd ps)) (contents st)"
    using handle_upload [OF assms(1,3-13)] by blast
  have x: "contents st' (key_for (host env) x t) = Some x"
    unfolding st'(3) by (rule contents_uploaded [OF _ storable_keys [OF assms(9)]]) (use assms(14,15) in simp)
  have "create_blob_key (blobref (key_for (host env) x t)) = Some (key_for (host env) x t)"
    by (rule create_blob_key_keys_of [OF key_for_in_keys_of])
  moreover have "hex_digests (host env)" using assms(2) by (simp add: plain_paths_def)
  moreover obtain body where body: "zopfli env f x = Inr body" "decompress f (map byte_of_char body) = Some (map byte_of_char x)"
    using compress_content_roundtrip [of fp qsort mem x f] assms(15,16,20) by (auto simp: compresses_with_def)
  ultimately have "handle_request env down (fresh_reply s) st' =
      (Inr (push_header ''Content-Encoding'' (encoding_name f) (octet_reply body)), st')"
    using handle_get_compressed [OF assms(2) st'(2) _ assms(19) x body(1)]
    by (simp add: handle_request_blob [OF _ assms(18)] assms(17,18) del: key_for.simps append.simps)
  with body(2) show ?thesis using st'(1) by blast
qed

definition compressing_env :: env where
  "compressing_env = sample_env\<lparr>zopfli := compress_content exact_fp (sort_key weight) zero_memory\<rparr>"

theorem upload_then_compressed_download_witness:
  "\<exists>st' body. handle_request compressing_env sample_upload (fresh_reply ok) (empty_store (\<lambda>_. None)) = (Inr (fresh_reply ok), st') \<and>
    handle_request compressing_env
      (simple_request ''GET'' (''/'' @ blobref (key_for sample_host (snd sample_part) sha1)) [make_header ''accept-encoding'' ''gzip''] [])
      (fresh_reply ok) st' = (Inr (push_header ''Content-Encoding'' ''gzip'' (octet_reply body)), st') \<and>
    decompress ZOPFLI_FORMAT_GZIP (map byte_of_char body) = Some (map byte_of_char (snd sample_part))"
proof -
  have env: "engine compressing_env = engine sample_env" "host compressing_env = host sample_env" "config compressing_env = config sample_env"
    by (simp_all add: compressing_env_def)
  have "qi_engine (engine compressing_env)" "plain_paths compressing_env" "writable compressing_env"
      "index_ok (host compressing_env) (config compressing_env) (empty_store (\<lambda>_. None))" "backed (empty_store (\<lambda>_. None))"
      "storable compressing_env (nonempty (map snd [sample_part])) (empty_store (\<lambda>_. None))"
    using sample_env_ok sample_env_ok(6) [of "snd sample_part"]
    by (simp_all add: env plain_paths_def writable_def storable_def sample_part_def)
  note ok = this
  have "compresses_with exact_fp (sort_key weight) zero_memory compressing_env"
    using exact_setting [of "[0, 0]"] by (simp add: compresses_with_def compressing_env_def setting_ok_def)
  moreover have "to_lower_copy ''Accept-Encoding'' = ''accept-encoding''" "to_lower_copy ''accept-encoding'' = ''accept-encoding''" by code_simp+
  moreover have "host compressing_env = sample_host" by (simp add: env sample_env_def)
  ultimately show ?thesis
    using upload_then_compressed_download [OF ok(1-5) sample_upload_ok(5) _ _ ok(6) sample_upload_ok(1-4),
        where x = "snd sample_part" and rep = "fresh_reply ok" and s = ok and t = sha1 and f = ZOPFLI_FORMAT_GZIP and
        down = "simple_request ''GET'' (''/'' @ blobref (key_for sample_host (snd sample_part) sha1)) [make_header ''accept-encoding'' ''gzip''] []"
        and fp = exact_fp and qsort = "sort_key weight" and mem = zero_memory]
      sample_part_wf
    by (simp add: sample_part_def simple_request_def handler_get_header_def output_type_for_def fresh_reply_def del: key_for.simps)
qed

end
