(* ===== verification/Zopfli_Bin.thy ===== *)
theory Zopfli_Bin
  imports Zopfli_Container
begin

text \<open>
  The command line of the compressor (\<^verbatim>\<open>zopfli_bin.cc\<close>): a file is loaded, compressed in memory and saved beside its
  source, for every argument that is no option. The C library is reached through the directory of files, which says what
  a stream opened for reading reports and delivers, and through \<open>platform\<close>.
\<close>

section \<open>The C library\<close>

text \<open>A file: the position \<^verbatim>\<open>ftell\<close> reports at its end, -1 when it cannot, and the bytes \<^verbatim>\<open>fread\<close> can deliver.\<close>

record stream_file =
  tell_end :: int
  deliverable :: "byte list"

definition regular :: "byte list \<Rightarrow> stream_file" where
  "regular bytes = \<lparr>tell_end = int (length bytes), deliverable = bytes\<rparr>"

text \<open>
  What the platform decides: whether \<^verbatim>\<open>malloc\<close> delivers a size, whether a name opens for writing, how many bytes of an
  \<^verbatim>\<open>fwrite\<close> reach the file, the floating point arithmetic, the sort, and the uninitialised memory a compression finds.
\<close>

record platform =
  malloc_ok :: "nat \<Rightarrow> bool"
  opens_wb :: "string \<Rightarrow> bool"
  fwrite_count :: "string \<Rightarrow> byte list \<Rightarrow> nat"
  arith :: fp
  sorts :: "Node list \<Rightarrow> Node list"
  memory_at :: "nat \<Rightarrow> memory"

record console =
  disk :: "string \<rightharpoonup> stream_file"
  std_out :: "byte list"
  std_err :: string

text \<open>
  A run that fails leaves everything as it was at that moment. The messages the library prints in verbose mode are not
  part of \<open>std_err\<close>.
\<close>

type_synonym outcome = "failure option \<times> console"

definition print_err :: "string \<Rightarrow> console \<Rightarrow> console" where
  "print_err msg wd = wd\<lparr>std_err := std_err wd @ msg\<rparr>"

section \<open>Operations\<close>

text \<open>
  The array is \<open>None\<close> for the null pointer. The closing \<^verbatim>\<open>assert(!(*outsize) || out)\<close> tests the address of the result
  and always holds.
\<close>

definition LoadFile :: "platform \<Rightarrow> (string \<rightharpoonup> stream_file) \<Rightarrow> string \<Rightarrow> byte list option \<times> nat" where
  "LoadFile pl d filename =
     (case d filename of
        None \<Rightarrow> (None, 0)
      | Some f \<Rightarrow>
          let outsize = nat (tell_end f mod 2 ^ 64)
          in if malloc_ok pl outsize
             then if outsize \<noteq> 0
                  then let testsize = min outsize (length (deliverable f))
                       in if testsize \<noteq> outsize then (None, 0) else (Some (take outsize (deliverable f)), outsize)
                  else (Some [], outsize)
             else (None, outsize))"

definition SaveFile :: "platform \<Rightarrow> string \<Rightarrow> byte list \<Rightarrow> console \<Rightarrow> outcome" where
  "SaveFile pl filename bytes wd =
     (if opens_wb pl filename
      then (None, wd\<lparr>disk := (disk wd)(filename \<mapsto> regular (take (fwrite_count pl filename bytes) bytes))\<rparr>)
      else (Some Assertion_failed, wd))"

text \<open>
  The null pointer of a failed \<^verbatim>\<open>malloc\<close> is read by the compressor, as the size is not 0. \<open>k\<close> numbers the
  compressions of a run.
\<close>

definition CompressFile :: "platform \<Rightarrow> nat \<Rightarrow> ZopfliOptions \<Rightarrow> ZopfliFormat \<Rightarrow> string \<Rightarrow> string option \<Rightarrow> console \<Rightarrow> outcome" where
  "CompressFile pl k opts output_type infilename outfilename wd =
     (let (inp, insize) = LoadFile pl (disk wd) infilename
      in if insize = 0 then (None, print_err (''Invalid filename: '' @ infilename @ [LF]) wd)
         else case inp of
           None \<Rightarrow> (Some Out_of_range, wd)
         | Some arr \<Rightarrow>
             (case ZopfliCompress (arith pl) (sorts pl) (memory_at pl k) opts output_type arr insize [] of
                Inl e \<Rightarrow> (Some e, wd)
              | Inr outp \<Rightarrow>
                  (case outfilename of
                     Some outname \<Rightarrow> SaveFile pl outname outp wd
                   | None \<Rightarrow> (None, wd\<lparr>std_out := std_out wd @ outp\<rparr>))))"

definition AddStrings :: "string \<Rightarrow> string \<Rightarrow> string" where
  "AddStrings str1 str2 = str1 @ str2"

definition StringsEqual :: "string \<Rightarrow> string \<Rightarrow> bool" where
  "StringsEqual str1 str2 \<longleftrightarrow> str1 = str2"

record settings =
  cl_options :: ZopfliOptions
  cl_format :: ZopfliFormat
  output_to_stdout :: bool

definition new_settings :: settings where
  "new_settings = \<lparr>cl_options = ZopfliInitOptions, cl_format = ZOPFLI_FORMAT_GZIP, output_to_stdout = False\<rparr>"

definition set_iterations :: "int \<Rightarrow> settings \<Rightarrow> settings" where
  "set_iterations n st = st\<lparr>cl_options := (cl_options st)\<lparr>numiterations := n\<rparr>\<rparr>"

text \<open>The options before \<^verbatim>\<open>-h\<close> in the chain of comparisons.\<close>

definition read_option :: "string \<Rightarrow> settings \<Rightarrow> settings" where
  "read_option a st =
     (if StringsEqual a ''-v'' then st\<lparr>cl_options := (cl_options st)\<lparr>verbose := True\<rparr>\<rparr>
      else if StringsEqual a ''-c'' then st\<lparr>output_to_stdout := True\<rparr>
      else if StringsEqual a ''--deflate'' then st\<lparr>cl_format := ZOPFLI_FORMAT_DEFLATE\<rparr>
      else if StringsEqual a ''--zlib'' then st\<lparr>cl_format := ZOPFLI_FORMAT_ZLIB\<rparr>
      else if StringsEqual a ''--gzip'' then st\<lparr>cl_format := ZOPFLI_FORMAT_GZIP\<rparr>
      else if StringsEqual a ''--i5'' then set_iterations 5 st
      else if StringsEqual a ''--i10'' then set_iterations 10 st
      else if StringsEqual a ''--i15'' then set_iterations 15 st
      else if StringsEqual a ''--i25'' then set_iterations 25 st
      else if StringsEqual a ''--i50'' then set_iterations 50 st
      else if StringsEqual a ''--i100'' then set_iterations 100 st
      else if StringsEqual a ''--i250'' then set_iterations 250 st
      else if StringsEqual a ''--i500'' then set_iterations 500 st
      else if StringsEqual a ''--i1000'' then set_iterations 1000 st
      else st)"

text \<open>The first loop of \<^verbatim>\<open>main\<close>; \<open>None\<close> is the early return after the help text.\<close>

fun read_arguments :: "string list \<Rightarrow> settings \<Rightarrow> settings option" where
  "read_arguments [] st = Some st"
| "read_arguments (a # as) st = (if StringsEqual a ''-h'' then None else read_arguments as (read_option a st))"

definition usage :: string where
  "usage =
     ''Usage: zopfli [OPTION]... FILE'' @ [LF] @
     ''  -h    gives this help'' @ [LF] @
     ''  -c    write the result on standard output, instead of disk filename + '' @ [CHR 0x27] @ ''.gz'' @ [CHR 0x27] @ [LF] @
     ''  -v    verbose mode'' @ [LF] @
     ''  --gzip  output to gzip format (default)'' @ [LF] @
     ''  --deflate  output to deflate format instead of gzip'' @ [LF] @
     ''  --zlib  output to zlib format instead of gzip'' @ [LF] @
     ''  --i5  less compression, but faster'' @ [LF] @
     ''  --i10  less compression, but faster'' @ [LF] @
     ''  --i15  default compression, 15 iterations'' @ [LF] @
     ''  --i25  more compression, but slower'' @ [LF] @
     ''  --i50  more compression, but slower'' @ [LF] @
     ''  --i100  more compression, but slower'' @ [LF] @
     ''  --i250  more compression, but slower'' @ [LF] @
     ''  --i500  more compression, but slower'' @ [LF] @
     ''  --i1000  more compression, but slower'' @ [LF]"

text \<open>An argument is a file name when its first character, NUL for the empty string, is not a dash.\<close>

definition is_filename :: "string \<Rightarrow> bool" where
  "is_filename a \<longleftrightarrow> (case a of [] \<Rightarrow> True | c # _ \<Rightarrow> c \<noteq> CHR ''-'')"

fun suffix_for :: "ZopfliFormat \<Rightarrow> string" where
  "suffix_for ZOPFLI_FORMAT_GZIP = ''.gz''"
| "suffix_for ZOPFLI_FORMAT_ZLIB = ''.zlib''"
| "suffix_for ZOPFLI_FORMAT_DEFLATE = ''.deflate''"

definition outfilename_for :: "settings \<Rightarrow> string \<Rightarrow> string option" where
  "outfilename_for st filename =
     (if output_to_stdout st then None else Some (AddStrings filename (suffix_for (cl_format st))))"

text \<open>The second loop: one compression for each name; the first failure ends the program.\<close>

fun compress_files :: "platform \<Rightarrow> settings \<Rightarrow> nat \<Rightarrow> string list \<Rightarrow> console \<Rightarrow> outcome" where
  "compress_files pl st k [] wd = (None, wd)"
| "compress_files pl st k (a # as) wd =
     (if is_filename a
      then let outfilename = outfilename_for st a;
               wd = (case outfilename of
                       Some outname \<Rightarrow> if verbose (cl_options st) then print_err (''Saving to: '' @ outname @ [LF]) wd else wd
                     | None \<Rightarrow> wd)
           in case CompressFile pl k (cl_options st) (cl_format st) a outfilename wd of
                (Some e, wd) \<Rightarrow> (Some e, wd)
              | (None, wd) \<Rightarrow> compress_files pl st (k + 1) as wd
      else compress_files pl st (k + 1) as wd)"

text \<open>The result is the exit status, or the failure that ended the program.\<close>

definition zopfli_main :: "platform \<Rightarrow> string \<Rightarrow> string list \<Rightarrow> console \<Rightarrow> (failure + int) \<times> console" where
  "zopfli_main pl program args wd =
     (case read_arguments args new_settings of
        None \<Rightarrow> (Inr 0, print_err usage wd)
      | Some st \<Rightarrow>
          (case compress_files pl st 1 args wd of
             (Some e, wd) \<Rightarrow> (Inl e, wd)
           | (None, wd) \<Rightarrow>
               (Inr 0, if \<not> (\<exists>a \<in> set args. is_filename a)
                       then print_err (''Please provide filename'' @ [LF] @ ''For help, type: '' @ program @ '' -h'' @ [LF]) wd
                       else wd)))"

section \<open>What a run does\<close>

definition platform_ok :: "platform \<Rightarrow> bool" where
  "platform_ok pl \<longleftrightarrow> fp_ok (arith pl) \<and> qsort_ok (sorts pl) \<and> (\<forall>i k n. uninit_ok (memory_at pl i k n))"

text \<open>A file the program can compress, and a name it can save to.\<close>

definition loadable :: "platform \<Rightarrow> byte list \<Rightarrow> bool" where
  "loadable pl bytes \<longleftrightarrow> 2 \<le> length bytes \<and> length bytes \<le> 7000000 \<and> malloc_ok pl (length bytes)"

definition savable :: "platform \<Rightarrow> string \<Rightarrow> bool" where
  "savable pl filename \<longleftrightarrow> opens_wb pl filename \<and> (\<forall>bytes. length bytes \<le> fwrite_count pl filename bytes)"

lemma read_option_iterations: "1 \<le> numiterations (cl_options st) \<Longrightarrow> 1 \<le> numiterations (cl_options (read_option a st))"
  by (simp add: read_option_def set_iterations_def)

lemma read_arguments_iterations:
  "read_arguments args st = Some st' \<Longrightarrow> 1 \<le> numiterations (cl_options st) \<Longrightarrow> 1 \<le> numiterations (cl_options st')"
  by (induction args arbitrary: st) (auto simp: read_option_iterations split: if_splits)

lemma LoadFile_regular:
  assumes "d filename = Some (regular bytes)" and "loadable pl bytes"
  shows "LoadFile pl d filename = (Some bytes, length bytes)"
proof -
  have "nat (int (length bytes) mod 2 ^ 64) = length bytes" using assms(2) by (simp add: loadable_def)
  then show ?thesis using assms by (auto simp: LoadFile_def regular_def loadable_def Let_def)
qed

lemma CompressFile_regular:
  assumes pl: "platform_ok pl" and load: "loadable pl bytes" and "1 \<le> numiterations opts"
    and f: "disk wd filename = Some (regular bytes)"
  shows "\<exists>stream. decompress output_type stream = Some bytes \<and>
    CompressFile pl k opts output_type filename outname wd =
      (case outname of Some n \<Rightarrow> SaveFile pl n stream wd | None \<Rightarrow> (None, wd\<lparr>std_out := std_out wd @ stream\<rparr>))"
proof -
  have ok: "setting_ok (arith pl) (sorts pl) (memory_at pl k) opts (bytes @ [])"
    using pl load assms(3) by (simp add: setting_ok_def platform_ok_def loadable_def)
  have nonempty: "bytes \<noteq> []" using load by (auto simp: loadable_def)
  obtain stream where "ZopfliCompress (arith pl) (sorts pl) (memory_at pl k) opts output_type bytes (length bytes) [] = Inr stream"
      "decompress output_type stream = Some bytes"
    using ZopfliCompress_decompress [OF ok, of output_type "[]"] load nonempty by (auto simp: loadable_def)
  then show ?thesis using LoadFile_regular [of "disk wd", OF f load] nonempty by (auto simp: CompressFile_def split: option.split)
qed

text \<open>What the loop over the arguments leaves behind for one of them.\<close>

definition saved :: "ZopfliFormat \<Rightarrow> (string \<rightharpoonup> stream_file) \<Rightarrow> string \<Rightarrow> byte list \<Rightarrow> bool" where
  "saved output_type d filename bytes \<longleftrightarrow>
     (\<exists>stream. d (AddStrings filename (suffix_for output_type)) = Some (regular stream) \<and> decompress output_type stream = Some bytes)"

lemma compress_files_saves:
  assumes pl: "platform_ok pl" and st: "\<not> output_to_stdout st" "1 \<le> numiterations (cl_options st)"
    and outs: "\<forall>f \<in> set args. is_filename f \<longrightarrow> savable pl (AddStrings f (suffix_for (cl_format st))) \<and> loadable pl (data f)"
    and apart: "\<forall>f \<in> set args. is_filename f \<longrightarrow> AddStrings f (suffix_for (cl_format st)) \<notin> set args"
    and files: "\<forall>f \<in> set args. is_filename f \<longrightarrow> disk wd f = Some (regular (data f))"
  shows "\<exists>wd'. compress_files pl st k args wd = (None, wd') \<and> std_out wd' = std_out wd \<and>
    (\<forall>f \<in> set args. is_filename f \<longrightarrow> saved (cl_format st) (disk wd') f (data f)) \<and>
    (\<forall>n. n \<notin> (\<lambda>f. AddStrings f (suffix_for (cl_format st))) ` {f \<in> set args. is_filename f} \<longrightarrow> disk wd' n = disk wd n)"
  using outs apart files
proof (induction args arbitrary: k wd)
  case (Cons a as)
  let ?out = "\<lambda>f. AddStrings f (suffix_for (cl_format st))"
  show ?case
  proof (cases "is_filename a")
    case False
    then have "{f \<in> set (a # as). is_filename f} = {f \<in> set as. is_filename f}" by auto
    then show ?thesis using Cons.IH [of wd "k + 1"] Cons.prems False by simp
  next
    case True
    define wd1 where "wd1 = (if verbose (cl_options st) then print_err (''Saving to: '' @ ?out a @ [LF]) wd else wd)"
    have wd1: "disk wd1 = disk wd" "std_out wd1 = std_out wd" by (simp_all add: wd1_def print_err_def)
    then have a: "disk wd1 a = Some (regular (data a))" using Cons.prems(3) True by simp
    have load: "loadable pl (data a)" using Cons.prems(1) True by simp
    obtain stream where stream: "decompress (cl_format st) stream = Some (data a)"
        "CompressFile pl k (cl_options st) (cl_format st) a (Some (?out a)) wd1 = SaveFile pl (?out a) stream wd1"
      using CompressFile_regular [OF pl load st(2) a, of "cl_format st" k "Some (?out a)"] by auto
    define wd2 where "wd2 = wd1\<lparr>disk := (disk wd1)(?out a \<mapsto> regular stream)\<rparr>"
    have "SaveFile pl (?out a) stream wd1 = (None, wd2)"
      using Cons.prems(1) True by (simp add: SaveFile_def savable_def wd2_def)
    then have step: "compress_files pl st k (a # as) wd = compress_files pl st (k + 1) as wd2"
      using True stream(2) st(1) by (simp add: outfilename_for_def wd1_def Let_def split: prod.split)
    have "?out a \<notin> set as" using Cons.prems(2) True by simp
    then have "\<forall>f \<in> set as. is_filename f \<longrightarrow> disk wd2 f = Some (regular (data f))"
      using Cons.prems(3) by (auto simp: wd2_def wd1)
    from Cons.IH [OF _ _ this, of "k + 1"] Cons.prems(1,2) obtain wd' where wd':
        "compress_files pl st (k + 1) as wd2 = (None, wd')" "std_out wd' = std_out wd2"
        "\<forall>f \<in> set as. is_filename f \<longrightarrow> saved (cl_format st) (disk wd') f (data f)"
        "\<forall>n. n \<notin> ?out ` {f \<in> set as. is_filename f} \<longrightarrow> disk wd' n = disk wd2 n"
      by auto
    have "saved (cl_format st) (disk wd') a (data a)"
    proof (cases "a \<in> set as")
      case True
      then show ?thesis using wd'(3) \<open>is_filename a\<close> by blast
    next
      case False
      then have "disk wd' (?out a) = disk wd2 (?out a)" using wd'(4) by (auto simp: AddStrings_def)
      then show ?thesis using stream(1) by (auto simp: saved_def wd2_def)
    qed
    moreover have "disk wd' n = disk wd n" if "n \<notin> ?out ` {f \<in> set (a # as). is_filename f}" for n
    proof -
      have "n \<noteq> ?out a" "n \<notin> ?out ` {f \<in> set as. is_filename f}" using that True by auto
      then show ?thesis using wd'(4) by (simp add: wd2_def wd1)
    qed
    ultimately show ?thesis using step wd'(1-3) by (auto simp: wd2_def wd1)
  qed
qed simp

text \<open>A run writes nothing but the files it names, however it ends.\<close>

lemma SaveFile_disk: "n \<noteq> filename \<Longrightarrow> disk (snd (SaveFile pl filename bytes wd)) n = disk wd n"
  by (simp add: SaveFile_def)

lemma CompressFile_disk: "outname \<noteq> Some n \<Longrightarrow> disk (snd (CompressFile pl k opts output_type filename outname wd)) n = disk wd n"
  by (auto simp: CompressFile_def print_err_def SaveFile_disk split: option.split sum.split prod.split)

lemma compress_files_disk:
  assumes "\<forall>f \<in> set args. is_filename f \<longrightarrow> outfilename_for st f \<noteq> Some n"
  shows "disk (snd (compress_files pl st k args wd)) n = disk wd n"
  using assms
proof (induction args arbitrary: k wd)
  case (Cons a as)
  show ?case
  proof (cases "is_filename a")
    case True
    then have out: "outfilename_for st a \<noteq> Some n" using Cons.prems by simp
    let ?wd1 = "case outfilename_for st a of
        Some outname \<Rightarrow> if verbose (cl_options st) then print_err (''Saving to: '' @ outname @ [LF]) wd else wd | None \<Rightarrow> wd"
    obtain r wd2 where run: "CompressFile pl k (cl_options st) (cl_format st) a (outfilename_for st a) ?wd1 = (r, wd2)" by fastforce
    have "disk wd2 n = disk ?wd1 n"
      using CompressFile_disk [OF out, of pl k "cl_options st" "cl_format st" a ?wd1] run by simp
    also have "disk ?wd1 = disk wd" by (simp add: print_err_def split: option.split)
    finally have "disk wd2 n = disk wd n" .
    then show ?thesis using Cons.IH [of "k + 1" wd2] Cons.prems True run by (cases r) (simp_all add: Let_def)
  qed (use Cons in simp)
qed simp

text \<open>The second byte of a one-byte array.\<close>

lemma ZopfliDeflate_one_byte:
  assumes "blocksplitting opts" and "\<not> blocksplittinglast opts"
  shows "ZopfliDeflate fp qsort mem opts 2 True [b] 1 w = Inl Out_of_range"
  using assms
  by (subst ZopfliDeflate_def, subst deflate_loop.simps) (simp add: ZopfliDeflatePart_def DeflateSplittingFirst_def ZopfliBlockSplit_def
      ZopfliLZ77Greedy_def window_hash_def ZopfliWarmupHash_def windowstart_def ZOPFLI_MASTER_BLOCK_SIZE_def Let_def)

lemma ZopfliCompress_one_byte:
  assumes "blocksplitting opts" and "\<not> blocksplittinglast opts"
  shows "ZopfliCompress fp qsort mem opts output_type [b] 1 out0 = Inl Out_of_range"
  using ZopfliDeflate_one_byte [OF assms] CRC_eq [of "[b]"]
  by (cases output_type) (simp_all add: ZopfliGzipCompress_def ZopfliZlibCompress_def Let_def)

lemma read_filename: "is_filename f \<Longrightarrow> read_option f st = st" "is_filename f \<Longrightarrow> \<not> StringsEqual f ''-h''"
  by (cases f; simp add: is_filename_def read_option_def StringsEqual_def)+

section \<open>Properties\<close>

text \<open>
  C6. The command line compresses the files it is given: called with options and names of existing regular files of 2 to
  7000000 bytes, without \<^verbatim>\<open>-h\<close> and \<^verbatim>\<open>-c\<close>, no argument being the name of an output, on a platform that gives it the memory
  and takes the output, the program exits with 0, beside each file there is one with the suffix of the chosen format from
  which a reader of that format recovers the file's bytes, and no other file has changed.
\<close>

theorem zopfli_main_roundtrip:
  assumes "platform_ok pl" and "read_arguments args new_settings = Some st" and "\<not> output_to_stdout st"
    and "\<forall>f \<in> set args. is_filename f \<longrightarrow> savable pl (AddStrings f (suffix_for (cl_format st))) \<and> loadable pl (data f)"
    and "\<forall>f \<in> set args. is_filename f \<longrightarrow> AddStrings f (suffix_for (cl_format st)) \<notin> set args"
    and "\<forall>f \<in> set args. is_filename f \<longrightarrow> disk wd f = Some (regular (data f))"
  shows "\<exists>wd'. zopfli_main pl program args wd = (Inr 0, wd') \<and> std_out wd' = std_out wd \<and>
    (\<forall>f \<in> set args. is_filename f \<longrightarrow> saved (cl_format st) (disk wd') f (data f)) \<and>
    (\<forall>n. n \<notin> (\<lambda>f. AddStrings f (suffix_for (cl_format st))) ` {f \<in> set args. is_filename f} \<longrightarrow> disk wd' n = disk wd n)"
proof -
  have "1 \<le> numiterations (cl_options st)"
    using read_arguments_iterations [OF assms(2)] by (simp add: new_settings_def ZopfliInitOptions_def)
  from compress_files_saves [OF assms(1,3) this assms(4-6), of 1] obtain wd' where
      "compress_files pl st 1 args wd = (None, wd')" "std_out wd' = std_out wd"
      "\<forall>f \<in> set args. is_filename f \<longrightarrow> saved (cl_format st) (disk wd') f (data f)"
      "\<forall>n. n \<notin> (\<lambda>f. AddStrings f (suffix_for (cl_format st))) ` {f \<in> set args. is_filename f} \<longrightarrow> disk wd' n = disk wd n"
    by blast
  then show ?thesis using assms(2) by (simp add: zopfli_main_def print_err_def)
qed

definition sample_platform :: platform where
  "sample_platform = \<lparr>malloc_ok = (\<lambda>_. True), opens_wb = (\<lambda>_. True), fwrite_count = (\<lambda>_. length), arith = exact_fp,
     sorts = sort_key weight, memory_at = (\<lambda>_. zero_memory)\<rparr>"

definition sample_console :: "byte list \<Rightarrow> console" where
  "sample_console bytes = \<lparr>disk = [''a'' \<mapsto> regular bytes], std_out = [], std_err = []\<rparr>"

lemma sample_platform_ok: "platform_ok sample_platform"
  using exact_setting [of "[0, 0]"] by (simp add: platform_ok_def sample_platform_def setting_ok_def)

theorem zopfli_main_roundtrip_witness:
  "\<exists>wd'. zopfli_main sample_platform ''zopfli'' [''--zlib'', ''a''] (sample_console [97, 98, 97]) = (Inr 0, wd') \<and>
    saved ZOPFLI_FORMAT_ZLIB (disk wd') ''a'' [97, 98, 97] \<and> disk wd' ''a'' = Some (regular [97, 98, 97])"
proof -
  define st where "st = new_settings\<lparr>cl_format := ZOPFLI_FORMAT_ZLIB\<rparr>"
  have st: "read_arguments [''--zlib'', ''a''] new_settings = Some st" "\<not> output_to_stdout st" "cl_format st = ZOPFLI_FORMAT_ZLIB"
    by (simp_all add: st_def read_option_def StringsEqual_def new_settings_def)
  have names: "\<not> is_filename ''--zlib''" "is_filename ''a''" by (simp_all add: is_filename_def)
  have "\<exists>wd'. zopfli_main sample_platform ''zopfli'' [''--zlib'', ''a''] (sample_console [97, 98, 97]) = (Inr 0, wd') \<and>
      std_out wd' = std_out (sample_console [97, 98, 97]) \<and>
      (\<forall>f \<in> set [''--zlib'', ''a'']. is_filename f \<longrightarrow> saved (cl_format st) (disk wd') f [97, 98, 97]) \<and>
      (\<forall>n. n \<notin> (\<lambda>f. AddStrings f (suffix_for (cl_format st))) ` {f \<in> set [''--zlib'', ''a'']. is_filename f} \<longrightarrow>
        disk wd' n = disk (sample_console [97, 98, 97]) n)"
    by (rule zopfli_main_roundtrip [OF sample_platform_ok st(1,2)])
      (use names in \<open>simp_all add: sample_platform_def savable_def loadable_def AddStrings_def sample_console_def st(3)\<close>)
  then show ?thesis using names by (auto simp: st(3) AddStrings_def sample_console_def)
qed

text \<open>
  C37. However the command line is called and however it ends, a file is touched only if it is the output file of one of
  the arguments: on any platform, a name whose contents differ afterwards is that of a non-option argument with the
  suffix of the chosen format, and neither \<^verbatim>\<open>-h\<close> nor \<^verbatim>\<open>-c\<close> was given.
\<close>

theorem zopfli_main_touches_outputs:
  assumes "disk (snd (zopfli_main pl program args wd)) n \<noteq> disk wd n"
  shows "\<exists>st f. read_arguments args new_settings = Some st \<and> \<not> output_to_stdout st \<and> f \<in> set args \<and> is_filename f \<and>
    n = AddStrings f (suffix_for (cl_format st))"
proof (cases "read_arguments args new_settings")
  case None
  then show ?thesis using assms by (simp add: zopfli_main_def print_err_def)
next
  case (Some st)
  then have "disk (snd (zopfli_main pl program args wd)) = disk (snd (compress_files pl st 1 args wd))"
    by (auto simp: zopfli_main_def print_err_def split: prod.split option.split)
  then have "\<not> (\<forall>f \<in> set args. is_filename f \<longrightarrow> outfilename_for st f \<noteq> Some n)"
    using assms compress_files_disk [of args st n pl 1 wd] by metis
  then show ?thesis using Some by (auto simp: outfilename_for_def split: if_splits)
qed

theorem zopfli_main_touches_outputs_witness:
  "\<exists>st f. read_arguments [''a''] new_settings = Some st \<and> \<not> output_to_stdout st \<and> f \<in> set [''a''] \<and> is_filename f \<and>
    ''a.gz'' = AddStrings f (suffix_for (cl_format st))"
proof (rule zopfli_main_touches_outputs [of sample_platform "''zopfli''" _ "sample_console [97, 98]"])
  have st: "read_arguments [''a''] new_settings = Some new_settings" "is_filename ''a''"
    by (simp_all add: read_option_def StringsEqual_def is_filename_def)
  obtain stream where "CompressFile sample_platform 1 ZopfliInitOptions ZOPFLI_FORMAT_GZIP ''a'' (Some ''a.gz'') (sample_console [97, 98]) =
      SaveFile sample_platform ''a.gz'' stream (sample_console [97, 98])"
    using CompressFile_regular [OF sample_platform_ok, of "[97, 98]" ZopfliInitOptions "sample_console [97, 98]" "''a''" ZOPFLI_FORMAT_GZIP 1 "Some ''a.gz''"]
    by (auto simp: loadable_def sample_platform_def ZopfliInitOptions_def sample_console_def)
  then show "disk (snd (zopfli_main sample_platform ''zopfli'' [''a''] (sample_console [97, 98]))) ''a.gz'' \<noteq>
      disk (sample_console [97, 98]) ''a.gz''"
    using st by (simp add: zopfli_main_def outfilename_for_def new_settings_def AddStrings_def SaveFile_def Let_def sample_platform_def)
      (simp add: ZopfliInitOptions_def sample_console_def)
qed

text \<open>
  A file of one byte cannot be compressed from the command line: \<^verbatim>\<open>LoadFile\<close> allocates exactly that byte, and the
  compressor reads one past the end of the array when it warms up its hash.
\<close>

theorem one_byte_file_overruns:
  assumes "disk wd filename = Some (regular [b])" and "malloc_ok pl 1" and "is_filename filename"
  shows "zopfli_main pl program [filename] wd = (Inl Out_of_range, wd)"
proof -
  have "LoadFile pl (disk wd) filename = (Some [b], 1)"
    using assms(1,2) by (simp add: LoadFile_def regular_def Let_def)
  then have "CompressFile pl k ZopfliInitOptions output_type filename outname wd = (Some Out_of_range, wd)" for k output_type outname
    using ZopfliCompress_one_byte [of ZopfliInitOptions] by (simp add: CompressFile_def ZopfliInitOptions_def)
  then show ?thesis
    using read_filename [OF assms(3)] assms(3)
    by (simp add: zopfli_main_def new_settings_def outfilename_for_def Let_def) (simp add: ZopfliInitOptions_def)
qed

theorem one_byte_file_overruns_witness:
  "zopfli_main sample_platform ''zopfli'' [''a''] (sample_console [97]) = (Inl Out_of_range, sample_console [97])"
  by (rule one_byte_file_overruns) (simp_all add: sample_console_def sample_platform_def is_filename_def)

end
