(* ===== verification/Zopfli_Pool.thy ===== *)
theory Zopfli_Pool
  imports Zopfli_Katajainen
begin

text \<open>
  The memory pool of \<^verbatim>\<open>katajainen.cc\<close>: nodes in an array that are linked by pointers, and recycled by a mark-and-sweep
  collection when the search for a free node comes to the end of the array. The operations on pointers refine those on
  chains of \<open>Zopfli_Katajainen\<close>: the search always ends, it never hands out a node that is still in use, and the
  bit lengths are the same.
\<close>

section \<open>Operations\<close>

text \<open>A pointer is an index into the array of the pool, \<open>None\<close> is the null pointer.\<close>

record pool_node =
  pn_weight :: nat
  pn_tail :: "nat option"
  pn_count :: nat
  inuse :: bool

record NodePool =
  pool_nodes :: "pool_node list"
  pool_next :: nat

text \<open>The lookahead chains of the lists as pointers, and the pool.\<close>

record pool_state =
  chain_ptrs :: "(nat \<times> nat) list"
  pool :: NodePool

definition InitNode :: "nat \<Rightarrow> nat \<Rightarrow> nat option \<Rightarrow> nat \<Rightarrow> NodePool \<Rightarrow> NodePool" where
  "InitNode w c t node p =
     p\<lparr>pool_nodes := (pool_nodes p)[node := \<lparr>pn_weight = w, pn_tail = t, pn_count = c, inuse = True\<rparr>]\<rparr>"

text \<open>
  The loop that marks a chain. The fuel bounds the number of nodes of a chain; reading past the array is
  \<open>Out_of_range\<close>.
\<close>

fun mark_chain :: "nat \<Rightarrow> nat option \<Rightarrow> pool_node list \<Rightarrow> failure + pool_node list" where
  "mark_chain fuel None ns = Inr ns"
| "mark_chain 0 (Some node) ns = Inl Out_of_fuel"
| "mark_chain (Suc fuel) (Some node) ns =
     (if node < length ns then mark_chain fuel (pn_tail (ns ! node)) (ns[node := (ns ! node)\<lparr>inuse := True\<rparr>])
      else Inl Out_of_range)"

fun mark_chains :: "nat list \<Rightarrow> pool_node list \<Rightarrow> failure + pool_node list" where
  "mark_chains [] ns = Inr ns"
| "mark_chains (p # ptrs) ns = and_then (mark_chain (length ns) (Some p) ns) (mark_chains ptrs)"

text \<open>The pointers in the order \<^verbatim>\<open>lists[i / 2][i % 2]\<close> has.\<close>

definition all_ptrs :: "(nat \<times> nat) list \<Rightarrow> nat list" where
  "all_ptrs ls = concat (map (\<lambda>(a, b). [a, b]) ls)"

definition collect_garbage :: "(nat \<times> nat) list option \<Rightarrow> NodePool \<Rightarrow> failure + NodePool" where
  "collect_garbage ls p =
     (let ns = map (\<lambda>n. n\<lparr>inuse := False\<rparr>) (pool_nodes p)
      in and_then (case ls of Some ls \<Rightarrow> mark_chains (all_ptrs ls) ns | None \<Rightarrow> Inr ns) (\<lambda>ns.
           Inr \<lparr>pool_nodes = ns, pool_next = 0\<rparr>))"

text \<open>The search for a free node. When every node is in use it would not end, which is the lack of fuel here.\<close>

fun free_loop :: "nat \<Rightarrow> (nat \<times> nat) list option \<Rightarrow> NodePool \<Rightarrow> failure + nat \<times> NodePool" where
  "free_loop 0 ls p = Inl Out_of_fuel"
| "free_loop (Suc fuel) ls p =
     and_then (if pool_next p \<ge> length (pool_nodes p) then collect_garbage ls p else Inr p) (\<lambda>p.
       if pool_next p \<ge> length (pool_nodes p) then Inl Out_of_range
       else if \<not> inuse (pool_nodes p ! pool_next p) then Inr (pool_next p, p\<lparr>pool_next := pool_next p + 1\<rparr>)
       else free_loop fuel ls (p\<lparr>pool_next := pool_next p + 1\<rparr>))"

definition GetFreeNode :: "(nat \<times> nat) list option \<Rightarrow> NodePool \<Rightarrow> failure + nat \<times> NodePool" where
  "GetFreeNode ls p = free_loop (2 * length (pool_nodes p) + 1) ls p"

definition node_at :: "pool_state \<Rightarrow> nat \<Rightarrow> pool_node" where
  "node_at st p = pool_nodes (pool st) ! p"

text \<open>
  \<^verbatim>\<open>BoundaryPM\<close>. The new node is entered in the lists before it is initialised, and initialised before the next
  allocation.
\<close>

fun BoundaryPM_pool :: "Node list \<Rightarrow> nat \<Rightarrow> bool \<Rightarrow> pool_state \<Rightarrow> failure + pool_state" where
  "BoundaryPM_pool leaves 0 final st =
     (let numsymbols = length leaves;
          lastcount = pn_count (node_at st (snd (chain_ptrs st ! 0)))
      in if lastcount \<ge> numsymbols then Inr st
         else and_then (GetFreeNode (Some (chain_ptrs st)) (pool st)) (\<lambda>(newchain, p).
           let oldchain = snd (chain_ptrs st ! 0);
               st = st\<lparr>pool := p, chain_ptrs := (chain_ptrs st)[0 := (oldchain, newchain)]\<rparr>
           in Inr (st\<lparr>pool := InitNode (weight (leaves ! lastcount)) (lastcount + 1) None newchain (pool st)\<rparr>)))"
| "BoundaryPM_pool leaves (Suc index) final st =
     (let numsymbols = length leaves;
          lastcount = pn_count (node_at st (snd (chain_ptrs st ! Suc index)))
      in and_then (GetFreeNode (Some (chain_ptrs st)) (pool st)) (\<lambda>(newchain, p).
           let oldchain = snd (chain_ptrs st ! Suc index);
               st = st\<lparr>pool := p, chain_ptrs := (chain_ptrs st)[Suc index := (oldchain, newchain)]\<rparr>;
               sum = (pn_weight (node_at st (fst (chain_ptrs st ! index))) +
                      pn_weight (node_at st (snd (chain_ptrs st ! index)))) mod 2 ^ 64
           in if lastcount < numsymbols \<and> sum > weight (leaves ! lastcount)
              then Inr (st\<lparr>pool := InitNode (weight (leaves ! lastcount)) (lastcount + 1) (pn_tail (node_at st oldchain))
                          newchain (pool st)\<rparr>)
              else let st = st\<lparr>pool := InitNode sum lastcount (Some (snd (chain_ptrs st ! index))) newchain (pool st)\<rparr>
                   in if \<not> final
                      then and_then (BoundaryPM_pool leaves index False st) (BoundaryPM_pool leaves index False)
                      else Inr st))"

definition InitLists_pool :: "Node list \<Rightarrow> nat \<Rightarrow> NodePool \<Rightarrow> failure + pool_state" where
  "InitLists_pool leaves maxbits p =
     and_then (GetFreeNode None p) (\<lambda>(node0, p).
     and_then (GetFreeNode None p) (\<lambda>(node1, p).
     let p = InitNode (weight (leaves ! 0)) 1 None node0 p;
         p = InitNode (weight (leaves ! 1)) 2 None node1 p
     in Inr \<lparr>chain_ptrs = replicate maxbits (node0, node1), pool = p\<rparr>))"

fun run_BoundaryPM_pool :: "Node list \<Rightarrow> nat \<Rightarrow> nat \<Rightarrow> pool_state \<Rightarrow> failure + pool_state" where
  "run_BoundaryPM_pool leaves maxbits 0 st = Inr st"
| "run_BoundaryPM_pool leaves maxbits (Suc runs) st =
     and_then (BoundaryPM_pool leaves (maxbits - 1) (runs = 0) st) (run_BoundaryPM_pool leaves maxbits runs)"

fun ExtractBitLengths_pool :: "nat \<Rightarrow> nat option \<Rightarrow> pool_node list \<Rightarrow> Node list \<Rightarrow> nat list \<Rightarrow> failure + nat list" where
  "ExtractBitLengths_pool fuel None ns leaves bitlengths = Inr bitlengths"
| "ExtractBitLengths_pool 0 (Some node) ns leaves bitlengths = Inl Out_of_fuel"
| "ExtractBitLengths_pool (Suc fuel) (Some node) ns leaves bitlengths =
     (if node < length ns
      then ExtractBitLengths_pool fuel (pn_tail (ns ! node)) ns leaves (count_leaves leaves (pn_count (ns ! node)) bitlengths)
      else Inl Out_of_range)"

definition pool_size :: "nat \<Rightarrow> nat" where
  "pool_size maxbits = 2 * maxbits * (maxbits + 1)"

text \<open>The array \<open>garbage\<close> that \<^verbatim>\<open>malloc\<close> delivers holds anything; \<^verbatim>\<open>inuse\<close> is cleared.\<close>

definition LengthLimitedCodeLengths_pool ::
  "(Node list \<Rightarrow> Node list) \<Rightarrow> pool_node list \<Rightarrow> nat list \<Rightarrow> nat \<Rightarrow> failure + nat \<times> nat list" where
  "LengthLimitedCodeLengths_pool qsort garbage frequencies maxbits =
     (let bitlengths = replicate (length frequencies) 0;
          leaves = used_leaves 0 frequencies;
          numsymbols = length leaves
      in if 2 ^ maxbits < numsymbols then Inr (1, bitlengths)
         else if numsymbols = 0 then Inr (0, bitlengths)
         else if numsymbols = 1 then Inr (0, bitlengths[count (leaves ! 0) := 1])
         else let leaves = qsort leaves;
                  p = \<lparr>pool_nodes = map (\<lambda>n. n\<lparr>inuse := False\<rparr>) (take (pool_size maxbits) garbage), pool_next = 0\<rparr>
              in and_then (InitLists_pool leaves maxbits p) (\<lambda>st.
                 and_then (run_BoundaryPM_pool leaves maxbits (2 * numsymbols - 4) st) (\<lambda>st.
                 and_then (ExtractBitLengths_pool (length (pool_nodes (pool st))) (Some (snd (chain_ptrs st ! (maxbits - 1))))
                   (pool_nodes (pool st)) leaves bitlengths) (\<lambda>bitlengths.
                 Inr (0, bitlengths)))))"

section \<open>Chains in the pool\<close>

text \<open>A pointer leads to a chain, and the nodes on the way.\<close>

fun leads_to :: "pool_node list \<Rightarrow> nat \<Rightarrow> Node \<Rightarrow> bool" where
  "leads_to ns p (Node w t c) \<longleftrightarrow> p < length ns \<and> pn_weight (ns ! p) = w \<and> pn_count (ns ! p) = c \<and>
     (case t of None \<Rightarrow> pn_tail (ns ! p) = None | Some t' \<Rightarrow> (\<exists>q. pn_tail (ns ! p) = Some q \<and> leads_to ns q t'))"

fun addresses :: "pool_node list \<Rightarrow> nat \<Rightarrow> Node \<Rightarrow> nat list" where
  "addresses ns p (Node w t c) = p # (case t of None \<Rightarrow> [] | Some t' \<Rightarrow> addresses ns (the (pn_tail (ns ! p))) t')"

fun chain_length :: "Node \<Rightarrow> nat" where
  "chain_length (Node w t c) = Suc (case t of None \<Rightarrow> 0 | Some t' \<Rightarrow> chain_length t')"

lemma addresses_length: "length (addresses ns p nd) = chain_length nd"
  by (induction ns p nd rule: addresses.induct) (simp split: option.split)

lemma addresses_range: "leads_to ns p nd \<Longrightarrow> a \<in> set (addresses ns p nd) \<Longrightarrow> a < length ns"
  by (induction ns p nd rule: addresses.induct) (auto split: option.splits)

lemma leads_toD: "leads_to ns p nd \<Longrightarrow> p < length ns \<and> pn_weight (ns ! p) = weight nd \<and> pn_count (ns ! p) = count nd"
  by (cases nd) simp

text \<open>Nodes that agree in all but the marks, and a node off the chain, make no difference.\<close>

definition same_links :: "pool_node list \<Rightarrow> pool_node list \<Rightarrow> bool" where
  "same_links ns ns' \<longleftrightarrow> length ns' = length ns \<and>
     (\<forall>i < length ns. pn_weight (ns' ! i) = pn_weight (ns ! i) \<and> pn_tail (ns' ! i) = pn_tail (ns ! i) \<and> pn_count (ns' ! i) = pn_count (ns ! i))"

lemma same_links_refl [simp]: "same_links ns ns"
  by (simp add: same_links_def)

lemma same_links_trans: "same_links ns ns' \<Longrightarrow> same_links ns' ns'' \<Longrightarrow> same_links ns ns''"
  by (simp add: same_links_def)

lemma same_links_mark [simp]: "same_links ns (ns[a := (ns ! a)\<lparr>inuse := b\<rparr>])"
  by (cases "a < length ns") (auto simp: same_links_def nth_list_update)

lemma same_links_clear: "same_links ns (map (\<lambda>n. n\<lparr>inuse := b\<rparr>) ns)"
  by (simp add: same_links_def)

lemma same_links_chain:
  assumes "same_links ns ns'"
  shows "leads_to ns p nd \<Longrightarrow> leads_to ns' p nd \<and> addresses ns' p nd = addresses ns p nd"
  using assms by (induction ns p nd rule: addresses.induct) (auto simp: same_links_def split: option.splits)

lemma off_chain:
  assumes "a \<notin> set (addresses ns p nd)"
  shows "leads_to ns p nd \<Longrightarrow> leads_to (ns[a := n]) p nd \<and> addresses (ns[a := n]) p nd = addresses ns p nd"
  using assms by (induction ns p nd rule: addresses.induct) (auto split: option.splits)

section \<open>Garbage collection\<close>

lemma mark_chain_marks:
  assumes "leads_to ns p nd" and "chain_length nd \<le> fuel"
  shows "\<exists>ns'. mark_chain fuel (Some p) ns = Inr ns' \<and> same_links ns ns' \<and>
    (\<forall>i < length ns. inuse (ns' ! i) \<longleftrightarrow> inuse (ns ! i) \<or> i \<in> set (addresses ns p nd))"
  using assms
proof (induction nd arbitrary: fuel p ns)
  case (Node w t c)
  obtain fuel' where fuel: "fuel = Suc fuel'" using Node.prems(2) by (cases fuel) simp_all
  let ?ns = "ns[p := (ns ! p)\<lparr>inuse := True\<rparr>]"
  have p: "p < length ns" using Node.prems(1) by simp
  show ?case
  proof (cases t)
    case None
    then show ?thesis using Node.prems(1) p by (cases fuel') (auto simp: fuel nth_list_update)
  next
    case (Some t')
    then obtain q where q: "pn_tail (ns ! p) = Some q" "leads_to ns q t'" using Node.prems(1) by auto
    note chain = same_links_chain [OF same_links_mark [of ns p True] q(2)]
    have "chain_length t' \<le> fuel'" using Node.prems(2) fuel Some by simp
    from Node.IH [OF _ conjunct1 [OF chain] this] Some obtain ns' where
        "mark_chain fuel' (Some q) ?ns = Inr ns'" "same_links ?ns ns'"
        "\<forall>i < length ns. inuse (ns' ! i) \<longleftrightarrow> inuse (?ns ! i) \<or> i \<in> set (addresses ns q t')"
      using chain by auto
    note marked = this
    have "mark_chain fuel (Some p) ns = Inr ns'" using marked(1) p q(1) by (simp add: fuel)
    moreover have "same_links ns ns'" by (rule same_links_trans [OF same_links_mark marked(2)])
    moreover have "addresses ns p (Node w t c) = p # addresses ns q t'" using Some q(1) by simp
    ultimately show ?thesis using marked(3) p by (auto simp: nth_list_update)
  qed
qed

text \<open>All chains: \<open>nds\<close> are the chains the pointers lead to.\<close>

definition reached :: "pool_node list \<Rightarrow> nat list \<Rightarrow> Node list \<Rightarrow> nat set" where
  "reached ns ptrs nds = (\<Union>(p, nd) \<in> set (zip ptrs nds). set (addresses ns p nd))"

lemma reached_Cons [simp]: "reached ns (p # ptrs) (nd # nds) = set (addresses ns p nd) \<union> reached ns ptrs nds"
  by (simp add: reached_def)

lemma reached_same:
  assumes "list_all2 (leads_to ns) ptrs nds" and "same_links ns ns'"
  shows "reached ns' ptrs nds = reached ns ptrs nds"
  using assms(1) unfolding reached_def by (intro SUP_cong) (auto simp: list_all2_iff same_links_chain [OF assms(2)])

lemma mark_chains_marks:
  assumes "list_all2 (leads_to ns) ptrs nds" and "\<forall>nd \<in> set nds. chain_length nd \<le> length ns"
  shows "\<exists>ns'. mark_chains ptrs ns = Inr ns' \<and> same_links ns ns' \<and>
    (\<forall>i < length ns. inuse (ns' ! i) \<longleftrightarrow> inuse (ns ! i) \<or> i \<in> reached ns ptrs nds)"
  using assms
proof (induction ptrs arbitrary: nds ns)
  case (Cons p ptrs)
  then obtain nd nds' where nds: "nds = nd # nds'" "leads_to ns p nd" "list_all2 (leads_to ns) ptrs nds'"
    by (auto simp: list_all2_Cons1)
  obtain ns1 where ns1: "mark_chain (length ns) (Some p) ns = Inr ns1" "same_links ns ns1"
      "\<forall>i < length ns. inuse (ns1 ! i) \<longleftrightarrow> inuse (ns ! i) \<or> i \<in> set (addresses ns p nd)"
    using mark_chain_marks [OF nds(2), of "length ns"] Cons.prems(2) nds(1) by auto
  have len: "length ns1 = length ns" using ns1(2) by (simp add: same_links_def)
  have rest: "list_all2 (leads_to ns1) ptrs nds'"
    by (rule list.rel_mono_strong [OF nds(3)]) (use same_links_chain [OF ns1(2)] in blast)
  note same = reached_same [OF nds(3) ns1(2)]
  from Cons.IH [OF rest] Cons.prems(2) nds(1) len obtain ns' where
      "mark_chains ptrs ns1 = Inr ns'" "same_links ns1 ns'"
      "\<forall>i < length ns. inuse (ns' ! i) \<longleftrightarrow> inuse (ns1 ! i) \<or> i \<in> reached ns1 ptrs nds'"
    by auto
  then show ?case using ns1 nds(1) same same_links_trans [OF ns1(2)] by auto
qed (simp add: reached_def)

section \<open>The state\<close>

text \<open>
  The lists as values: every pointer leads to its chain, a chain of list \<open>i\<close> has at most \<open>i + 1\<close> nodes, and a node
  of one is either before the next candidate or marked.
\<close>

definition value_chains :: "(Node \<times> Node) list \<Rightarrow> Node list" where
  "value_chains ls = concat (map (\<lambda>(a, b). [a, b]) ls)"

definition in_use :: "(nat \<times> nat) list \<Rightarrow> (Node \<times> Node) list \<Rightarrow> pool_node list \<Rightarrow> nat set" where
  "in_use ptrs ls ns = reached ns (all_ptrs ptrs) (value_chains ls)"

definition links_ok :: "(nat \<times> nat) list \<Rightarrow> (Node \<times> Node) list \<Rightarrow> pool_node list \<Rightarrow> bool" where
  "links_ok ptrs ls ns \<longleftrightarrow> list_all2 (\<lambda>p v. leads_to ns (fst p) (fst v) \<and> leads_to ns (snd p) (snd v)) ptrs ls \<and>
     (\<forall>i < length ls. chain_length (fst (ls ! i)) \<le> i + 1 \<and> chain_length (snd (ls ! i)) \<le> i + 1) \<and>
     length ns = pool_size (length ls)"

definition pool_inv :: "(Node \<times> Node) list \<Rightarrow> pool_state \<Rightarrow> bool" where
  "pool_inv ls st \<longleftrightarrow> links_ok (chain_ptrs st) ls (pool_nodes (pool st)) \<and> pool_next (pool st) \<le> length (pool_nodes (pool st)) \<and>
     (\<forall>a \<in> in_use (chain_ptrs st) ls (pool_nodes (pool st)). a < pool_next (pool st) \<or> inuse (pool_nodes (pool st) ! a))"

lemma links_ok_chains:
  assumes "links_ok ptrs ls ns"
  shows "list_all2 (leads_to ns) (all_ptrs ptrs) (value_chains ls)"
proof -
  have "list_all2 (\<lambda>p v. leads_to ns (fst p) (fst v) \<and> leads_to ns (snd p) (snd v)) ptrs ls" using assms by (simp add: links_ok_def)
  then show ?thesis
    by (induction rule: list_all2_induct) (auto simp: all_ptrs_def value_chains_def)
qed

lemma links_okD:
  assumes "links_ok ptrs ls ns" and "i < length ls"
  shows "leads_to ns (fst (ptrs ! i)) (fst (ls ! i))" "leads_to ns (snd (ptrs ! i)) (snd (ls ! i))"
    "chain_length (fst (ls ! i)) \<le> i + 1" "chain_length (snd (ls ! i)) \<le> i + 1" "length ptrs = length ls"
  using assms by (auto simp: links_ok_def list_all2_conv_all_nth)

lemma value_chain_short:
  assumes "links_ok ptrs ls ns" and "nd \<in> set (value_chains ls)"
  shows "chain_length nd \<le> length ns"
proof -
  obtain i where i: "i < length ls" "nd = fst (ls ! i) \<or> nd = snd (ls ! i)"
    using assms(2) by (auto simp: value_chains_def in_set_conv_nth case_prod_unfold)
  then have "chain_length nd \<le> length ls" using links_okD(3,4) [OF assms(1) i(1)] by auto
  also have "\<dots> \<le> pool_size (length ls)" by (simp add: pool_size_def)
  finally show ?thesis using assms(1) by (simp add: links_ok_def)
qed

lemma in_use_Cons:
  "in_use (p # ptrs) (v # ls) ns = set (addresses ns (fst p) (fst v)) \<union> set (addresses ns (snd p) (snd v)) \<union> in_use ptrs ls ns"
  by (cases p; cases v) (simp add: in_use_def all_ptrs_def value_chains_def Un_assoc)

lemma in_use_iff:
  assumes "length ptrs = length ls"
  shows "a \<in> in_use ptrs ls ns \<longleftrightarrow> (\<exists>i < length ls.
    a \<in> set (addresses ns (fst (ptrs ! i)) (fst (ls ! i))) \<or> a \<in> set (addresses ns (snd (ptrs ! i)) (snd (ls ! i))))"
proof -
  have "in_use ptrs ls ns = (\<Union>(p, v) \<in> set (zip ptrs ls). set (addresses ns (fst p) (fst v)) \<union> set (addresses ns (snd p) (snd v)))"
    using assms by (induction ptrs ls rule: list_induct2) (simp_all add: in_use_Cons, simp add: in_use_def all_ptrs_def reached_def)
  then have "a \<in> in_use ptrs ls ns \<longleftrightarrow> (\<exists>x \<in> set (zip ptrs ls).
      a \<in> set (addresses ns (fst (fst x)) (fst (snd x))) \<or> a \<in> set (addresses ns (snd (fst x)) (snd (snd x))))"
    by (simp add: split_def)
  moreover have "(\<exists>x \<in> set (zip ptrs ls). P x) \<longleftrightarrow> (\<exists>i < length ls. P (ptrs ! i, ls ! i))" for P
    using assms by (metis in_set_conv_nth length_zip min.idem nth_zip)
  ultimately show ?thesis by simp
qed

lemma in_use_range:
  assumes "links_ok ptrs ls ns" and "a \<in> in_use ptrs ls ns"
  shows "a < length ns"
proof -
  have "length ptrs = length ls" using assms(1) by (auto simp: links_ok_def dest: list_all2_lengthD)
  from assms(2) [unfolded in_use_iff [OF this]] show ?thesis using links_okD(1,2) [OF assms(1)] addresses_range by blast
qed

lemma in_use_same: "links_ok ptrs ls ns \<Longrightarrow> same_links ns ns' \<Longrightarrow> in_use ptrs ls ns' = in_use ptrs ls ns"
  unfolding in_use_def by (intro reached_same links_ok_chains)

lemma links_ok_same:
  assumes "links_ok ptrs ls ns" and "same_links ns ns'"
  shows "links_ok ptrs ls ns'"
proof -
  have "length ns' = length ns" using assms(2) by (simp add: same_links_def)
  then show ?thesis using assms(1) same_links_chain [OF assms(2)] by (auto simp: links_ok_def list_all2_conv_all_nth)
qed

text \<open>The nodes in use are fewer than half of the pool.\<close>

lemma card_reached: "card (reached ns ptrs nds) \<le> sum_list (map chain_length nds)"
proof (induction ptrs arbitrary: nds)
  case (Cons p ptrs)
  show ?case
  proof (cases nds)
    case (Cons nd nds')
    have "card (reached ns (p # ptrs) nds) \<le> card (set (addresses ns p nd)) + card (reached ns ptrs nds')"
      using card_Un_le by (simp add: Cons)
    also have "card (set (addresses ns p nd)) \<le> chain_length nd" by (metis card_length addresses_length)
    finally show ?thesis using Cons.IH [of nds'] by (simp add: \<open>nds = nd # nds'\<close>)
  qed (simp add: reached_def)
qed (simp add: reached_def)

lemma chain_lengths_bound:
  assumes "\<forall>i < length ls. chain_length (fst (ls ! i)) \<le> i + 1 \<and> chain_length (snd (ls ! i)) \<le> i + 1"
  shows "sum_list (map chain_length (value_chains ls)) \<le> length ls * (length ls + 1)"
  using assms
proof (induction ls rule: rev_induct)
  case (snoc v ls)
  have "chain_length (fst v) \<le> length ls + 1" "chain_length (snd v) \<le> length ls + 1"
    using snoc.prems by (auto dest: spec [of _ "length ls"])
  moreover have "\<forall>i < length ls. chain_length (fst (ls ! i)) \<le> i + 1 \<and> chain_length (snd (ls ! i)) \<le> i + 1"
  proof (intro allI impI)
    fix i
    assume "i < length ls"
    then show "chain_length (fst (ls ! i)) \<le> i + 1 \<and> chain_length (snd (ls ! i)) \<le> i + 1"
      using snoc.prems [rule_format, of i] by (simp add: nth_append)
  qed
  ultimately show ?case using snoc.IH by (simp add: value_chains_def case_prod_unfold)
qed (simp add: value_chains_def)

lemma free_node_exists:
  assumes "links_ok ptrs ls ns" and "ls \<noteq> []"
  shows "\<exists>a < length ns. a \<notin> in_use ptrs ls ns"
proof -
  have finite: "finite (in_use ptrs ls ns)" by (simp add: in_use_def reached_def split_def)
  have "card (in_use ptrs ls ns) \<le> length ls * (length ls + 1)"
    using card_reached [of ns "all_ptrs ptrs" "value_chains ls"] chain_lengths_bound [of ls] assms(1)
    by (simp add: in_use_def links_ok_def)
  also have "\<dots> < length ns" using assms by (cases ls) (simp_all add: links_ok_def pool_size_def)
  finally have "card (in_use ptrs ls ns) < card {..<length ns}" by simp
  then have "\<not> {..<length ns} \<subseteq> in_use ptrs ls ns"
    using card_mono [of "in_use ptrs ls ns" "{..<length ns}"] finite by linarith
  then show ?thesis by auto
qed

section \<open>The search\<close>

lemma free_loop_finds:
  assumes "pool_next p \<le> a" and "a < length (pool_nodes p)" and "\<not> inuse (pool_nodes p ! a)"
    and "\<forall>i. pool_next p \<le> i \<and> i < a \<longrightarrow> inuse (pool_nodes p ! i)" and "a - pool_next p < fuel"
  shows "free_loop fuel ls p = Inr (a, p\<lparr>pool_next := a + 1\<rparr>)"
  using assms
proof (induction fuel arbitrary: p)
  case (Suc fuel)
  show ?case
  proof (cases "pool_next p = a")
    case False
    then have "inuse (pool_nodes p ! pool_next p)" using Suc.prems by simp
    moreover have "free_loop fuel ls (p\<lparr>pool_next := pool_next p + 1\<rparr>) = Inr (a, p\<lparr>pool_next := a + 1\<rparr>)"
      using Suc.IH [of "p\<lparr>pool_next := pool_next p + 1\<rparr>"] Suc.prems False by simp
    ultimately show ?thesis using Suc.prems False by simp
  qed (use Suc.prems in simp)
qed simp

lemma free_loop_skips:
  assumes "pool_next p \<le> length (pool_nodes p)" and "\<forall>i. pool_next p \<le> i \<and> i < length (pool_nodes p) \<longrightarrow> inuse (pool_nodes p ! i)"
  shows "free_loop (length (pool_nodes p) - pool_next p + fuel) ls p = free_loop fuel ls (p\<lparr>pool_next := length (pool_nodes p)\<rparr>)"
  using assms
proof (induction "length (pool_nodes p) - pool_next p" arbitrary: p)
  case (Suc k)
  let ?p = "p\<lparr>pool_next := pool_next p + 1\<rparr>"
  have k: "length (pool_nodes p) - pool_next p = Suc k" "length (pool_nodes ?p) - pool_next ?p = k" using Suc.hyps(2) by simp_all
  have lt: "pool_next p < length (pool_nodes p)" using k(1) by linarith
  then have "inuse (pool_nodes p ! pool_next p)" using Suc.prems(2) by simp
  then have "free_loop (Suc (k + fuel)) ls p = free_loop (k + fuel) ls ?p" using lt by simp
  also have "\<dots> = free_loop fuel ls (?p\<lparr>pool_next := length (pool_nodes ?p)\<rparr>)"
    using Suc.hyps(1) [of ?p] Suc.prems lt unfolding k(2) by simp
  finally show ?case unfolding k(1) by simp
qed simp

lemma collect_garbage_marks:
  assumes "links_ok ptrs ls (pool_nodes p)"
  shows "\<exists>ns. collect_garbage (Some ptrs) p = Inr \<lparr>pool_nodes = ns, pool_next = 0\<rparr> \<and> same_links (pool_nodes p) ns \<and>
    (\<forall>i < length ns. inuse (ns ! i) \<longleftrightarrow> i \<in> in_use ptrs ls (pool_nodes p))"
proof -
  let ?ns = "map (\<lambda>n. n\<lparr>inuse := False\<rparr>) (pool_nodes p)"
  have same: "same_links (pool_nodes p) ?ns" by (rule same_links_clear)
  have chains: "list_all2 (leads_to (pool_nodes p)) (all_ptrs ptrs) (value_chains ls)" by (rule links_ok_chains [OF assms])
  then have "list_all2 (leads_to ?ns) (all_ptrs ptrs) (value_chains ls)"
    by (rule list.rel_mono_strong) (use same_links_chain [OF same] in blast)
  moreover have "\<forall>nd \<in> set (value_chains ls). chain_length nd \<le> length ?ns"
    using value_chain_short [OF assms] by simp
  ultimately obtain ns where "mark_chains (all_ptrs ptrs) ?ns = Inr ns" "same_links ?ns ns"
      "\<forall>i < length ?ns. inuse (ns ! i) \<longleftrightarrow> inuse (?ns ! i) \<or> i \<in> reached ?ns (all_ptrs ptrs) (value_chains ls)"
    using mark_chains_marks by blast
  moreover have "reached ?ns (all_ptrs ptrs) (value_chains ls) = in_use ptrs ls (pool_nodes p)"
    unfolding in_use_def by (rule reached_same [OF chains same])
  ultimately show ?thesis using same_links_trans [OF same] by (auto simp: collect_garbage_def same_links_def)
qed

lemma GetFreeNode_free:
  assumes inv: "pool_inv ls st" and "ls \<noteq> []"
  shows "\<exists>a p. GetFreeNode (Some (chain_ptrs st)) (pool st) = Inr (a, p) \<and> same_links (pool_nodes (pool st)) (pool_nodes p) \<and>
    a < length (pool_nodes p) \<and> a \<notin> in_use (chain_ptrs st) ls (pool_nodes p) \<and> pool_next p = a + 1 \<and> pool_inv ls (st\<lparr>pool := p\<rparr>)"
proof -
  let ?ptrs = "chain_ptrs st" and ?p = "pool st" and ?ns = "pool_nodes (pool st)"
  let ?N = "length ?ns"
  let ?free = "\<lambda>a. pool_next ?p \<le> a \<and> a < ?N \<and> \<not> inuse (?ns ! a)"
  have links: "links_ok ?ptrs ls ?ns" and le: "pool_next ?p \<le> ?N"
    and use: "\<forall>a \<in> in_use ?ptrs ls ?ns. a < pool_next ?p \<or> inuse (?ns ! a)"
    using inv by (simp_all add: pool_inv_def)
  show ?thesis
  proof (cases "\<exists>a. ?free a")
    case True
    define a where "a = (LEAST a. ?free a)"
    have a: "?free a" unfolding a_def by (rule LeastI_ex [OF True])
    have before: "\<forall>i. pool_next ?p \<le> i \<and> i < a \<longrightarrow> inuse (?ns ! i)"
      using a not_less_Least [of _ ?free] unfolding a_def by (metis (mono_tags, lifting) less_trans)
    have "GetFreeNode (Some ?ptrs) ?p = Inr (a, ?p\<lparr>pool_next := a + 1\<rparr>)"
      unfolding GetFreeNode_def by (rule free_loop_finds) (use a before in auto)
    moreover have "a \<notin> in_use ?ptrs ls ?ns" using use a by auto
    moreover have "\<forall>b \<in> in_use ?ptrs ls ?ns. b < a + 1 \<or> inuse (?ns ! b)" using use a by force
    ultimately show ?thesis using a links by (auto simp: pool_inv_def)
  next
    case False
    obtain ns where ns: "collect_garbage (Some ?ptrs) (?p\<lparr>pool_next := ?N\<rparr>) = Inr \<lparr>pool_nodes = ns, pool_next = 0\<rparr>" "same_links ?ns ns"
        "\<forall>i < length ns. inuse (ns ! i) \<longleftrightarrow> i \<in> in_use ?ptrs ls ?ns"
      using collect_garbage_marks [of ?ptrs ls "?p\<lparr>pool_next := ?N\<rparr>"] links by auto
    let ?q = "\<lparr>pool_nodes = ns, pool_next = 0\<rparr>"
    have len: "length ns = ?N" using ns(2) by (simp add: same_links_def)
    define a where "a = (LEAST a. a < ?N \<and> a \<notin> in_use ?ptrs ls ?ns)"
    have a: "a < ?N \<and> a \<notin> in_use ?ptrs ls ?ns"
      unfolding a_def by (rule LeastI_ex) (use free_node_exists [OF links assms(2)] in blast)
    have before: "\<forall>i < a. inuse (ns ! i)"
      using a not_less_Least [of _ "\<lambda>a. a < ?N \<and> a \<notin> in_use ?ptrs ls ?ns"] ns(3) len unfolding a_def by (metis less_trans)
    have "GetFreeNode (Some ?ptrs) ?p = free_loop (?N - pool_next ?p + Suc (?N + pool_next ?p)) (Some ?ptrs) ?p"
      using le by (simp add: GetFreeNode_def mult_2)
    also have "\<dots> = free_loop (Suc (?N + pool_next ?p)) (Some ?ptrs) (?p\<lparr>pool_next := ?N\<rparr>)"
      by (rule free_loop_skips [OF le]) (use False in auto)
    also have "\<dots> = free_loop (Suc (?N + pool_next ?p)) (Some ?ptrs) ?q" using ns(1) a len by (auto simp: less_le_trans)
    also have "\<dots> = Inr (a, ?q\<lparr>pool_next := a + 1\<rparr>)"
      by (rule free_loop_finds) (use a before ns(3) len in auto)
    finally have "GetFreeNode (Some ?ptrs) ?p = Inr (a, \<lparr>pool_nodes = ns, pool_next = a + 1\<rparr>)" by simp
    moreover have "in_use ?ptrs ls ns = in_use ?ptrs ls ?ns" by (rule in_use_same [OF links ns(2)])
    moreover have "\<forall>b \<in> in_use ?ptrs ls ?ns. inuse (ns ! b)"
      using ns(3) in_use_range [OF links] by (simp add: len)
    ultimately show ?thesis using a len ns(2) links_ok_same [OF links ns(2)] by (auto simp: pool_inv_def)
  qed
qed

section \<open>Refinement\<close>

lemma pool_inv_links: "pool_inv ls st \<Longrightarrow> links_ok (chain_ptrs st) ls (pool_nodes (pool st))"
  by (simp add: pool_inv_def)

lemma in_use_chains:
  assumes "links_ok ptrs ls ns" and "i < length ls"
  shows "set (addresses ns (fst (ptrs ! i)) (fst (ls ! i))) \<subseteq> in_use ptrs ls ns"
    "set (addresses ns (snd (ptrs ! i)) (snd (ls ! i))) \<subseteq> in_use ptrs ls ns"
  using assms(2) in_use_iff [OF links_okD(5) [OF assms]] by blast+

text \<open>A tail a new node may get: that of a chain in use.\<close>

definition tail_ok :: "(nat \<times> nat) list \<Rightarrow> (Node \<times> Node) list \<Rightarrow> pool_node list \<Rightarrow> nat option \<Rightarrow> Node option \<Rightarrow> bool" where
  "tail_ok ptrs ls ns q t \<longleftrightarrow>
     (case t of None \<Rightarrow> q = None | Some t' \<Rightarrow> (\<exists>r. q = Some r \<and> leads_to ns r t' \<and> set (addresses ns r t') \<subseteq> in_use ptrs ls ns))"

lemma tail_ok_chain:
  assumes "links_ok ptrs ls ns" and "i < length ls"
  shows "tail_ok ptrs ls ns (Some (snd (ptrs ! i))) (Some (snd (ls ! i)))"
    "tail_ok ptrs ls ns (pn_tail (ns ! snd (ptrs ! i))) (tail (snd (ls ! i)))"
proof -
  note chain = links_okD(2) [OF assms] in_use_chains(2) [OF assms]
  show "tail_ok ptrs ls ns (Some (snd (ptrs ! i))) (Some (snd (ls ! i)))" using chain by (simp add: tail_ok_def)
  show "tail_ok ptrs ls ns (pn_tail (ns ! snd (ptrs ! i))) (tail (snd (ls ! i)))"
    using chain by (cases "snd (ls ! i)") (auto simp: tail_ok_def split: option.splits)
qed

text \<open>A node that is not in use becomes the head of a new chain of list \<open>i\<close>.\<close>

lemma pool_inv_new:
  assumes inv: "pool_inv ls st" and a: "a < length (pool_nodes (pool st))" "a \<notin> in_use (chain_ptrs st) ls (pool_nodes (pool st))"
      "a < pool_next (pool st)"
    and i: "i < length ls" and short: "chain_length (Node w t c) \<le> i + 1"
    and tl: "tail_ok (chain_ptrs st) ls (pool_nodes (pool st)) q t"
  shows "pool_inv (ls[i := (snd (ls ! i), Node w t c)])
    (st\<lparr>chain_ptrs := (chain_ptrs st)[i := (snd (chain_ptrs st ! i), a)], pool := InitNode w c q a (pool st)\<rparr>)"
proof -
  let ?ptrs = "chain_ptrs st" and ?ns = "pool_nodes (pool st)"
  let ?ns' = "?ns[a := \<lparr>pn_weight = w, pn_tail = q, pn_count = c, inuse = True\<rparr>]"
  let ?ptrs' = "?ptrs[i := (snd (?ptrs ! i), a)]" and ?ls' = "ls[i := (snd (ls ! i), Node w t c)]"
  have links: "links_ok ?ptrs ls ?ns" by (rule pool_inv_links [OF inv])
  have len: "length ?ptrs = length ls" by (rule links_okD(5) [OF links i])
  have keep: "leads_to ?ns' r nd \<and> addresses ?ns' r nd = addresses ?ns r nd"
    if "leads_to ?ns r nd" "set (addresses ?ns r nd) \<subseteq> in_use ?ptrs ls ?ns" for r nd
    using off_chain [OF _ that(1), of a] that(2) a(2) by blast
  have new: "leads_to ?ns' a (Node w t c) \<and> set (addresses ?ns' a (Node w t c)) \<subseteq> insert a (in_use ?ptrs ls ?ns)"
    using tl a(1) keep by (cases t) (auto simp: tail_ok_def)
  have old: "leads_to ?ns' (fst (?ptrs ! j)) (fst (ls ! j)) \<and> addresses ?ns' (fst (?ptrs ! j)) (fst (ls ! j)) = addresses ?ns (fst (?ptrs ! j)) (fst (ls ! j))"
      "leads_to ?ns' (snd (?ptrs ! j)) (snd (ls ! j)) \<and> addresses ?ns' (snd (?ptrs ! j)) (snd (ls ! j)) = addresses ?ns (snd (?ptrs ! j)) (snd (ls ! j))"
    if "j < length ls" for j
    using keep links_okD(1,2) [OF links that] in_use_chains [OF links that] by blast+
  have links': "links_ok ?ptrs' ?ls' ?ns'"
    unfolding links_ok_def list_all2_conv_all_nth
    using links_okD(3,4) [OF links] short old new i len links by (auto simp: nth_list_update links_ok_def)
  have "in_use ?ptrs' ?ls' ?ns' \<subseteq> insert a (in_use ?ptrs ls ?ns)"
  proof
    fix b
    assume "b \<in> in_use ?ptrs' ?ls' ?ns'"
    then obtain j where "j < length ls"
        "b \<in> set (addresses ?ns' (fst (?ptrs' ! j)) (fst (?ls' ! j))) \<or> b \<in> set (addresses ?ns' (snd (?ptrs' ! j)) (snd (?ls' ! j)))"
      using len by (auto simp: in_use_iff)
    then show "b \<in> insert a (in_use ?ptrs ls ?ns)"
      using old [of j] old [OF i] new in_use_chains [OF links, of j] len by (cases "j = i") auto
  qed
  then have "b < pool_next (pool st) \<or> inuse (?ns' ! b)" if "b \<in> in_use ?ptrs' ?ls' ?ns'" for b
    using that inv a(3) by (cases "b = a") (auto simp: pool_inv_def)
  then show ?thesis using links' inv by (simp add: pool_inv_def InitNode_def)
qed

text \<open>One allocation together with the new chain.\<close>

lemma new_chain:
  assumes inv: "pool_inv ls st" and i: "i < length ls"
  obtains a p where "GetFreeNode (Some (chain_ptrs st)) (pool st) = Inr (a, p)" and "links_ok (chain_ptrs st) ls (pool_nodes p)"
    and "\<And>w t c q. chain_length (Node w t c) \<le> i + 1 \<Longrightarrow> tail_ok (chain_ptrs st) ls (pool_nodes p) q t \<Longrightarrow>
      pool_inv (ls[i := (snd (ls ! i), Node w t c)])
        (st\<lparr>chain_ptrs := (chain_ptrs st)[i := (snd (chain_ptrs st ! i), a)], pool := InitNode w c q a p\<rparr>)"
proof -
  have "ls \<noteq> []" using i by auto
  then obtain a p where p: "GetFreeNode (Some (chain_ptrs st)) (pool st) = Inr (a, p)" "a < length (pool_nodes p)"
      "a \<notin> in_use (chain_ptrs st) ls (pool_nodes p)" "pool_next p = a + 1" "pool_inv ls (st\<lparr>pool := p\<rparr>)"
    using GetFreeNode_free [OF inv] by blast
  show thesis
  proof (rule that [OF p(1)])
    show "links_ok (chain_ptrs st) ls (pool_nodes p)" using pool_inv_links [OF p(5)] by simp
    show "pool_inv (ls[i := (snd (ls ! i), Node w t c)])
        (st\<lparr>chain_ptrs := (chain_ptrs st)[i := (snd (chain_ptrs st ! i), a)], pool := InitNode w c q a p\<rparr>)"
      if "chain_length (Node w t c) \<le> i + 1" "tail_ok (chain_ptrs st) ls (pool_nodes p) q t" for w t c q
      using pool_inv_new [OF p(5) _ _ _ i that(1), of a q] p(2-4) that(2) by simp
  qed
qed

lemma BoundaryPM_pool_refines:
  assumes "pool_inv ls st" and "index < length ls"
  shows "\<exists>st'. BoundaryPM_pool leaves index final st = Inr st' \<and> pool_inv (BoundaryPM leaves index final ls) st'"
  using assms
proof (induction index arbitrary: final ls st)
  case 0
  note links = pool_inv_links [OF 0(1)]
  have count: "pn_count (node_at st (snd (chain_ptrs st ! 0))) = count (snd (ls ! 0))"
    using leads_toD [OF links_okD(2) [OF links 0(2)]] by (simp add: node_at_def)
  obtain a p where p: "GetFreeNode (Some (chain_ptrs st)) (pool st) = Inr (a, p)" "links_ok (chain_ptrs st) ls (pool_nodes p)"
      "\<And>w t c q. chain_length (Node w t c) \<le> 0 + 1 \<Longrightarrow> tail_ok (chain_ptrs st) ls (pool_nodes p) q t \<Longrightarrow>
        pool_inv (ls[0 := (snd (ls ! 0), Node w t c)])
          (st\<lparr>chain_ptrs := (chain_ptrs st)[0 := (snd (chain_ptrs st ! 0), a)], pool := InitNode w c q a p\<rparr>)"
    by (rule new_chain [OF 0]; rule that; assumption)
  let ?c = "count (snd (ls ! 0))"
  have spec: "BoundaryPM leaves 0 final ls =
      (if length leaves \<le> ?c then ls else ls[0 := (snd (ls ! 0), Node (weight (leaves ! ?c)) None (?c + 1))])"
    by (subst BoundaryPM.simps) (simp add: Let_def)
  have "pool_inv (ls[0 := (snd (ls ! 0), Node (weight (leaves ! ?c)) None (?c + 1))])
      (st\<lparr>chain_ptrs := (chain_ptrs st)[0 := (snd (chain_ptrs st ! 0), a)], pool := InitNode (weight (leaves ! ?c)) (?c + 1) None a p\<rparr>)"
    by (rule p(3)) (simp_all add: tail_ok_def)
  then show ?case using 0 p(1) by (simp add: count spec Let_def)
next
  case (Suc index)
  have i: "index < length ls" using Suc.prems(2) by simp
  note links = pool_inv_links [OF Suc.prems(1)]
  let ?old = "snd (ls ! Suc index)"
  have count: "pn_count (pool_nodes (pool st) ! snd (chain_ptrs st ! Suc index)) = count ?old"
    using leads_toD [OF links_okD(2) [OF links Suc.prems(2)]] by simp
  obtain a p where p: "GetFreeNode (Some (chain_ptrs st)) (pool st) = Inr (a, p)" "links_ok (chain_ptrs st) ls (pool_nodes p)"
      "\<And>w t c q. chain_length (Node w t c) \<le> Suc index + 1 \<Longrightarrow> tail_ok (chain_ptrs st) ls (pool_nodes p) q t \<Longrightarrow>
        pool_inv (ls[Suc index := (?old, Node w t c)])
          (st\<lparr>chain_ptrs := (chain_ptrs st)[Suc index := (snd (chain_ptrs st ! Suc index), a)], pool := InitNode w c q a p\<rparr>)"
    by (rule new_chain [OF Suc.prems]; rule that; assumption)
  let ?st1 = "st\<lparr>pool := p, chain_ptrs := (chain_ptrs st)[Suc index := (snd (chain_ptrs st ! Suc index), a)]\<rparr>"
  define sum where "sum = (weight (fst (ls ! index)) + weight (snd (ls ! index))) mod 2 ^ 64"
  have sum: "(pn_weight (pool_nodes p ! fst (chain_ptrs st ! index)) + pn_weight (pool_nodes p ! snd (chain_ptrs st ! index))) mod 2 ^ 64 = sum"
    using leads_toD [OF links_okD(1) [OF p(2) i]] leads_toD [OF links_okD(2) [OF p(2) i]] by (simp add: sum_def)
  note tails = tail_ok_chain(2) [OF p(2) Suc.prems(2)] tail_ok_chain(1) [OF p(2) i]
  show ?case
  proof (cases "count ?old < length leaves \<and> weight (leaves ! count ?old) < sum")
    case True
    have "chain_length (Node w (tail ?old) c) = chain_length ?old" for w c by (cases ?old) simp
    then have "pool_inv (ls[Suc index := (?old, Node (weight (leaves ! count ?old)) (tail ?old) (count ?old + 1))])
        (?st1\<lparr>pool := InitNode (weight (leaves ! count ?old)) (count ?old + 1) (pn_tail (pool_nodes p ! snd (chain_ptrs st ! Suc index))) a p\<rparr>)"
      using p(3) [OF _ tails(1)] links_okD(4) [OF p(2) Suc.prems(2)] by simp
    moreover have "BoundaryPM leaves (Suc index) final ls =
        ls[Suc index := (?old, Node (weight (leaves ! count ?old)) (tail ?old) (count ?old + 1))]"
      using True by (subst BoundaryPM.simps) (simp add: Let_def sum_def)
    ultimately show ?thesis using True p(1) by (simp add: count sum [simplified] Let_def node_at_def)
  next
    case False
    let ?ls = "ls[Suc index := (?old, Node sum (Some (snd (ls ! index))) (count ?old))]"
    let ?st = "?st1\<lparr>pool := InitNode sum (count ?old) (Some (snd (chain_ptrs st ! index))) a p\<rparr>"
    have inv: "pool_inv ?ls ?st" using p(3) [OF _ tails(2)] links_okD(4) [OF p(2) i] by simp
    have step: "BoundaryPM_pool leaves (Suc index) final st =
        (if final then Inr ?st else and_then (BoundaryPM_pool leaves index False ?st) (BoundaryPM_pool leaves index False))"
      using False p(1) by (auto simp: count sum [simplified] Let_def node_at_def)
    have spec: "BoundaryPM leaves (Suc index) final ls =
        (if final then ?ls else BoundaryPM leaves index False (BoundaryPM leaves index False ?ls))"
      using False by (subst BoundaryPM.simps) (auto simp: Let_def sum_def)
    obtain st1 where "BoundaryPM_pool leaves index False ?st = Inr st1" "pool_inv (BoundaryPM leaves index False ?ls) st1"
      using Suc.IH [OF inv] i by auto
    moreover from Suc.IH [OF this(2)] obtain st2 where "BoundaryPM_pool leaves index False st1 = Inr st2"
        "pool_inv (BoundaryPM leaves index False (BoundaryPM leaves index False ?ls)) st2"
      using i by (auto simp: BoundaryPM_frame)
    ultimately show ?thesis using inv step spec by simp
  qed
qed

lemma run_BoundaryPM_pool_refines:
  assumes "pool_inv ls st" and "0 < length ls"
  shows "\<exists>st'. run_BoundaryPM_pool leaves (length ls) runs st = Inr st' \<and> pool_inv (run_BoundaryPM leaves (length ls) runs ls) st'"
  using assms
proof (induction runs arbitrary: ls st)
  case (Suc runs)
  obtain st1 where st1: "BoundaryPM_pool leaves (length ls - 1) (runs = 0) st = Inr st1"
      "pool_inv (BoundaryPM leaves (length ls - 1) (runs = 0) ls) st1"
    using BoundaryPM_pool_refines [OF Suc.prems(1), of "length ls - 1" leaves "runs = 0"] Suc.prems(2) by auto
  have "length (BoundaryPM leaves (length ls - 1) (runs = 0) ls) = length ls" by (simp add: BoundaryPM_frame)
  then show ?case using Suc.IH [OF st1(2)] Suc.prems(2) st1(1) by simp
qed simp

lemma ExtractBitLengths_pool_eq:
  assumes "leads_to ns p nd" and "chain_length nd \<le> fuel"
  shows "ExtractBitLengths_pool fuel (Some p) ns leaves bitlengths = Inr (ExtractBitLengths nd leaves bitlengths)"
  using assms
proof (induction nd arbitrary: fuel p bitlengths)
  case (Node w t c)
  obtain fuel' where "fuel = Suc fuel'" using Node.prems(2) by (cases fuel) simp_all
  then show ?case using Node by (cases t) (auto simp: Let_def)
qed

text \<open>The first two nodes of a cleared pool.\<close>

lemma GetFreeNode_cleared:
  assumes "pool_next p < length (pool_nodes p)" and "\<not> inuse (pool_nodes p ! pool_next p)"
  shows "GetFreeNode ls p = Inr (pool_next p, p\<lparr>pool_next := pool_next p + 1\<rparr>)"
  unfolding GetFreeNode_def by (rule free_loop_finds) (use assms in auto)

lemma InitLists_pool_refines:
  assumes "0 < maxbits" and "length ns = pool_size maxbits" and "\<forall>n \<in> set ns. \<not> inuse n"
  shows "\<exists>st. InitLists_pool leaves maxbits \<lparr>pool_nodes = ns, pool_next = 0\<rparr> = Inr st \<and> pool_inv (InitLists leaves maxbits) st"
proof -
  have size: "2 \<le> length ns" using assms(1,2) by (cases maxbits) (simp_all add: pool_size_def)
  then have free: "0 < length ns" "1 < length ns" "\<not> inuse (ns ! 0)" "\<not> inuse (ns ! 1)" using assms(3) by (auto intro!: nth_mem)
  let ?ns = "ns[0 := \<lparr>pn_weight = weight (leaves ! 0), pn_tail = None, pn_count = 1, inuse = True\<rparr>,
      1 := \<lparr>pn_weight = weight (leaves ! 1), pn_tail = None, pn_count = 2, inuse = True\<rparr>]"
  let ?st = "\<lparr>chain_ptrs = replicate maxbits (0, 1), pool = \<lparr>pool_nodes = ?ns, pool_next = 2\<rparr>\<rparr>"
  have "InitLists_pool leaves maxbits \<lparr>pool_nodes = ns, pool_next = 0\<rparr> = Inr ?st"
    using size free by (simp add: InitLists_pool_def GetFreeNode_cleared InitNode_def Let_def numeral_2_eq_2)
  moreover have "pool_inv (InitLists leaves maxbits) ?st"
    using size assms(2) by (auto simp: pool_inv_def links_ok_def in_use_iff InitLists_def Let_def list_all2_conv_all_nth)
  ultimately show ?thesis by blast
qed

lemma run_BoundaryPM_length: "length (run_BoundaryPM leaves maxbits runs ls) = length ls"
  by (induction runs arbitrary: ls) (simp_all add: BoundaryPM_frame)

lemma LengthLimitedCodeLengths_pool_eq:
  assumes "pool_size maxbits \<le> length garbage"
  shows "LengthLimitedCodeLengths_pool qsort garbage frequencies maxbits = Inr (ZopfliLengthLimitedCodeLengths qsort frequencies maxbits)"
proof (cases "2 ^ maxbits < length (used_leaves 0 frequencies) \<or> length (used_leaves 0 frequencies) \<le> 1")
  case True
  then show ?thesis
    by (auto simp: LengthLimitedCodeLengths_pool_def ZopfliLengthLimitedCodeLengths_def Let_def le_Suc_eq)
next
  case False
  define leaves where "leaves = qsort (used_leaves 0 frequencies)"
  define runs where "runs = 2 * length (used_leaves 0 frequencies) - 4"
  let ?ns = "map (\<lambda>n. n\<lparr>inuse := False\<rparr>) (take (pool_size maxbits) garbage)"
  have bits: "0 < maxbits" using False by (cases maxbits) auto
  obtain st0 where st0: "InitLists_pool leaves maxbits \<lparr>pool_nodes = ?ns, pool_next = 0\<rparr> = Inr st0" "pool_inv (InitLists leaves maxbits) st0"
    using InitLists_pool_refines [OF bits, of ?ns leaves] assms by auto
  have len: "length (InitLists leaves maxbits) = maxbits" by (simp add: InitLists_def Let_def)
  let ?ls = "run_BoundaryPM leaves maxbits runs (InitLists leaves maxbits)"
  obtain st where st: "run_BoundaryPM_pool leaves maxbits runs st0 = Inr st" "pool_inv ?ls st"
    using run_BoundaryPM_pool_refines [OF st0(2), of leaves runs] bits len by auto
  note links = pool_inv_links [OF st(2)]
  have i: "maxbits - 1 < length ?ls" using bits len by (simp add: run_BoundaryPM_length)
  have "chain_length (snd (?ls ! (maxbits - 1))) \<le> length (pool_nodes (pool st))"
    by (rule value_chain_short [OF links]) (use i in \<open>auto simp: value_chains_def split_def\<close>)
  from ExtractBitLengths_pool_eq [OF links_okD(2) [OF links i] this]
  show ?thesis using False st0(1) st(1)
    by (simp add: LengthLimitedCodeLengths_pool_def ZopfliLengthLimitedCodeLengths_def Let_def flip: leaves_def runs_def)
qed

section \<open>Properties\<close>

text \<open>
  C13. The memory pool with its garbage collector does not show: on an array of \<^verbatim>\<open>2 * maxbits * (maxbits + 1)\<close> nodes with any
  contents, \<^verbatim>\<open>ZopfliLengthLimitedCodeLengths\<close> with pointers into the pool returns, never runs out of free nodes, never
  reads outside the array or overwrites a node that a chain still uses, and gives exactly the error code and the bit lengths of
  the algorithm on chains that are values.
\<close>

theorem pool_refines_chains:
  assumes "pool_size maxbits \<le> length garbage"
  shows "LengthLimitedCodeLengths_pool qsort garbage frequencies maxbits = Inr (ZopfliLengthLimitedCodeLengths qsort frequencies maxbits)"
  by (rule LengthLimitedCodeLengths_pool_eq [OF assms])

theorem pool_refines_chains_witness:
  "LengthLimitedCodeLengths_pool (sort_key weight) (replicate 24 \<lparr>pn_weight = 7, pn_tail = Some 99, pn_count = 3, inuse = True\<rparr>) [4, 0, 1, 9, 2] 3 =
     Inr (ZopfliLengthLimitedCodeLengths (sort_key weight) [4, 0, 1, 9, 2] 3)"
  by (rule pool_refines_chains) (simp add: pool_size_def)

end
