(* ===== verification/Json_Stream.thy ===== *)
theory Json_Stream
  imports Json_Reader
begin

text \<open>
  The other entry points of the JSON reader (\<^verbatim>\<open>json_spirit_reader.cc\<close>): from a range, from a stream, and the variants
  that let exceptions through; and \<^verbatim>\<open>Stream_reader\<close> (\<^verbatim>\<open>json_spirit_stream_reader.h\<close>), which reads one value after another
  from a stream. Of an \<^verbatim>\<open>Error_position\<close> the reason is kept, not the line and the column.
\<close>

section \<open>Operations\<close>

text \<open>
  \<^verbatim>\<open>read_range\<close> moves \<^verbatim>\<open>begin\<close> past what was read, and leaves it where it was when an exception was caught.
\<close>

definition read_range :: "classic \<Rightarrow> string \<Rightarrow> json \<Rightarrow> failure + bool \<times> string \<times> json" where
  "read_range classic s v =
     (case read_range_or_throw classic s v of
        (Inr rest, v') \<Rightarrow> Inr (True, rest, v')
      | (Inl (Runtime_error m), v') \<Rightarrow> Inr (False, s, v')
      | (Inl f, v') \<Rightarrow> Inl f)"

definition add_posn_iter_and_read_range_or_throw :: "classic \<Rightarrow> string \<Rightarrow> json \<Rightarrow> failure option \<times> json" where
  "add_posn_iter_and_read_range_or_throw classic s v =
     (case read_range_or_throw classic s v of (Inr rest, v') \<Rightarrow> (None, v') | (Inl f, v') \<Rightarrow> (Some f, v'))"

definition read_string_or_throw :: "classic \<Rightarrow> string \<Rightarrow> json \<Rightarrow> failure option \<times> json" where
  "read_string_or_throw classic s v = add_posn_iter_and_read_range_or_throw classic s v"

text \<open>
  The iterators deliver the characters of the stream, white space included; a stream is the text that is still to be read.
  How far the multi-pass iterator reads ahead of the value is not modelled, so that nothing is said of the stream after
  \<^verbatim>\<open>read_stream\<close>.
\<close>

definition Multi_pass_iters :: "string \<Rightarrow> string" where
  "Multi_pass_iters is = is"

definition read_stream :: "classic \<Rightarrow> string \<Rightarrow> json \<Rightarrow> failure + bool \<times> json" where
  "read_stream classic is v = map_sum id (\<lambda>(b, rest, v'). (b, v')) (read_range classic (Multi_pass_iters is) v)"

definition read_stream_or_throw :: "classic \<Rightarrow> string \<Rightarrow> json \<Rightarrow> failure option \<times> json" where
  "read_stream_or_throw classic is v = add_posn_iter_and_read_range_or_throw classic (Multi_pass_iters is) v"

definition json_read_or_throw :: "classic \<Rightarrow> string \<Rightarrow> json \<Rightarrow> failure option \<times> json" where
  "json_read_or_throw classic s v = read_string_or_throw classic s v"

definition json_read_stream :: "classic \<Rightarrow> string \<Rightarrow> json \<Rightarrow> failure + bool \<times> json" where
  "json_read_stream classic is v = read_stream classic is v"

definition json_read_stream_or_throw :: "classic \<Rightarrow> string \<Rightarrow> json \<Rightarrow> failure option \<times> json" where
  "json_read_stream_or_throw classic is v = read_stream_or_throw classic is v"

definition json_read_range :: "classic \<Rightarrow> string \<Rightarrow> json \<Rightarrow> failure + bool \<times> string \<times> json" where
  "json_read_range classic s v = read_range classic s v"

text \<open>The iterator is assigned only when nothing was thrown.\<close>

definition json_read_range_or_throw :: "classic \<Rightarrow> string \<Rightarrow> json \<Rightarrow> failure option \<times> string \<times> json" where
  "json_read_range_or_throw classic s v =
     (case read_range_or_throw classic s v of (Inr rest, v') \<Rightarrow> (None, rest, v') | (Inl f, v') \<Rightarrow> (Some f, s, v'))"

section \<open>Reading value after value\<close>

text \<open>The reader is the iterator at which the next value is expected.\<close>

definition Stream_reader :: "string \<Rightarrow> string" where
  "Stream_reader is = Multi_pass_iters is"

definition read_next :: "classic \<Rightarrow> string \<Rightarrow> json \<Rightarrow> failure + bool \<times> string \<times> json" where
  "read_next classic iters v = read_range classic iters v"

definition Stream_reader_thrower :: "string \<Rightarrow> string" where
  "Stream_reader_thrower is = Multi_pass_iters is"

definition read_next_or_throw :: "classic \<Rightarrow> string \<Rightarrow> json \<Rightarrow> failure option \<times> string \<times> json" where
  "read_next_or_throw classic posn_begin v =
     (case read_range_or_throw classic posn_begin v of
        (Inr rest, v') \<Rightarrow> (None, rest, v')
      | (Inl f, v') \<Rightarrow> (Some f, posn_begin, v'))"

text \<open>A client that reads until a read fails, \<^verbatim>\<open>while( reader.read_next( value ) ) values.push_back( value );\<close>\<close>

fun read_values :: "classic \<Rightarrow> nat \<Rightarrow> string \<Rightarrow> json \<Rightarrow> failure + json list" where
  "read_values classic 0 iters v = Inl Out_of_fuel"
| "read_values classic (Suc fuel) iters v =
     (case read_next classic iters v of
        Inl f \<Rightarrow> Inl f
      | Inr (False, iters', v') \<Rightarrow> Inr []
      | Inr (True, iters', v') \<Rightarrow> map_sum id (Cons v') (read_values classic fuel iters' v'))"

section \<open>The next value of a stream\<close>

text \<open>At the end of the text no value begins.\<close>

lemma spirit_nothing:
  "spirit True (C_ch c) [] = Some ([], None)" "t \<noteq> [] \<Longrightarrow> spirit True (C_str t) [] = Some ([], None)"
  "spirit True C_int64 [] = Some ([], None)" "spirit True C_uint64 [] = Some ([], None)" "spirit True C_strict_real [] = Some ([], None)"
  "spirit True (C_lexeme (C_confix a C_lex_escape_ch b)) [] = Some ([], None)"
  by (subst spirit.simps; simp add: after_text_def starts_with_def match_int_def no_real_def)+
    (simp add: spirit_terminals confix_def)

lemma spirit_json_end: "spirit True (C_nt N_json) [] = Some ([Ev T_throw_not_value []], Some [])"
proof -
  have fails: "spirit True (C_act t a) [] = Some ([], None)" if "spirit True a [] = Some ([], None)" for t a
    using that by (intro spirit_act(2)) simp
  have alt: "spirit True (C_alt a b) [] = Some ([], None)" if "spirit True a [] = Some ([], None)" "spirit True b [] = Some ([], None)" for a b
    using spirit_alt(2) [OF that] by simp
  have "spirit True (C_nt N_value) [] = Some ([], None)"
    by (simp add: spirit_terminals, intro alt fails spirit_nothing spirit_seq(2)) 
      (simp_all add: spirit_terminals(4), (intro alt fails spirit_nothing spirit_seq(2); simp)+)
  moreover have "spirit True (C_act T_throw_not_value C_eps) [] = Some ([] @ [Ev T_throw_not_value []], Some [])"
    by (intro spirit_act(1)) (simp_all add: spirit_terminals)
  ultimately show ?thesis using spirit_alt(2) by (fastforce simp: spirit_terminals(4) [of True N_json])
qed

text \<open>The next value of a stream, and its end.\<close>

lemma read_next_value:
  assumes "classic_engine classic" and "list_all is_space_char ws" and "readable v" and "no_number rest"
  shows "read_next classic (ws @ write_string v pretty @ rest) v0 = Inr (True, rest, v)"
  using json_read_string [OF assms] by (simp add: read_next_def read_range_def)

lemma read_next_end:
  assumes "classic_engine classic" and "list_all is_space_char ws"
  shows "read_next classic ws v0 = Inr (False, ws, v0)"
proof -
  have "spirit True (C_nt N_json) (ws @ []) = Some ([Ev T_throw_not_value []], Some [])"
    unfolding skips_spaces [OF skips_json assms(2)] by (rule spirit_json_end)
  then have "classic (C_nt N_json) ws = ([Ev T_throw_not_value []], Some [])"
    using assms(1) by (simp add: classic_engine_def)
  then show ?thesis by (simp add: read_next_def read_range_def read_range_or_throw_def Semantic_actions_def)
qed

text \<open>Values with the white space before each, all in the one layout or the other.\<close>

definition stream_text :: "bool \<Rightarrow> (string \<times> json) list \<Rightarrow> string \<Rightarrow> string" where
  "stream_text pretty items after = concat (map (\<lambda>(ws, v). ws @ write_string v pretty) items) @ after"

text \<open>A number must not run into the next one.\<close>

fun separated :: "bool \<Rightarrow> (string \<times> json) list \<Rightarrow> string \<Rightarrow> bool" where
  "separated pretty [] after \<longleftrightarrow> list_all is_space_char after"
| "separated pretty ((ws, v) # items) after \<longleftrightarrow>
     list_all is_space_char ws \<and> readable v \<and> no_number (stream_text pretty items after) \<and> separated pretty items after"

section \<open>Properties\<close>

text \<open>
  C28. A stream reader delivers every value of a stream: of the written texts of values without reals and unsigned
  integers, compact or formatted, following each other directly or with white space in between as long as no number runs
  into the next one, repeated \<^verbatim>\<open>read_next\<close> returns exactly these values in their order, and false at the end of the stream.
\<close>

theorem stream_reader_roundtrip:
  assumes "classic_engine classic" and "separated pretty items after"
  shows "read_values classic (length items + 1) (Stream_reader (stream_text pretty items after)) v0 = Inr (map snd items)"
  using assms(2)
proof (induction items arbitrary: v0)
  case Nil
  then show ?case using read_next_end [OF assms(1)] by (simp add: stream_text_def Stream_reader_def Multi_pass_iters_def)
next
  case (Cons item items)
  obtain ws v where item: "item = (ws, v)" by fastforce
  let ?rest = "stream_text pretty items after"
  have "read_next classic (ws @ write_string v pretty @ ?rest) v0 = Inr (True, ?rest, v)"
    using Cons.prems item by (intro read_next_value [OF assms(1)]) simp_all
  moreover have "stream_text pretty (item # items) after = ws @ write_string v pretty @ ?rest"
    by (simp add: item stream_text_def)
  ultimately show ?case using Cons by (simp add: item Stream_reader_def Multi_pass_iters_def)
qed

theorem stream_reader_roundtrip_witness:
  "read_values spirit_engine (Suc (Suc (Suc (Suc 0))))
     (Stream_reader (stream_text True [([], Obj []), ([], Arr [JNull]), ('' '', value_of_int 7)] [LF])) JNull =
   Inr [Obj [], Arr [JNull], value_of_int 7]"
proof -
  have "separated True [([], Obj []), ([], Arr [JNull]), ('' '', value_of_int 7)] [LF]"
    by (simp add: stream_text_def no_number_def is_space_char_def is_digit_char_def value_of_int_def write_string_def
        output_array_or_obj_def)
  from stream_reader_roundtrip [OF classic_engine_spirit this, of JNull] show ?thesis
    by (simp del: read_values.simps)
qed

end
