(* ===== verification/Json_Values.thy ===== *)
theory Json_Values
  imports Complex_Main Json_Reader Containers
begin

text \<open>
  The rest of \<^verbatim>\<open>json_spirit_value.h\<close> and \<^verbatim>\<open>json_spirit_utils.h\<close>: the constructors, assignment and equality of values, the
  members of objects under both configurations (vectors of pairs and maps), \<^verbatim>\<open>get_value\<close>, and the conversion
  between the two kinds of object.
\<close>

section \<open>Construction\<close>

text \<open>\<^verbatim>\<open>to_str\<close> and the constructor from a \<^verbatim>\<open>const char*\<close> read up to the first NUL of the array.\<close>

fun to_str_loop :: "string \<Rightarrow> string \<Rightarrow> string" where
  "to_str_loop [] result = result"
| "to_str_loop (p # ps) result = (if p = NUL then result else to_str_loop ps (result @ [p]))"

definition to_str :: "string \<Rightarrow> string" where
  "to_str arr = to_str_loop arr []"

definition value_null :: json where
  "value_null = JNull"

definition value_of_c_str :: "string \<Rightarrow> json" where
  "value_of_c_str arr = JStr (takeWhile (\<lambda>c. c \<noteq> NUL) arr)"

definition value_of_string :: "string \<Rightarrow> json" where
  "value_of_string s = JStr s"

definition value_of_object :: "(string \<times> json) list \<Rightarrow> json" where
  "value_of_object obj = Obj obj"

definition value_of_array :: "json list \<Rightarrow> json" where
  "value_of_array a = Arr a"

definition value_of_bool :: "bool \<Rightarrow> json" where
  "value_of_bool b = JBool b"

definition value_of_double :: "double \<Rightarrow> json" where
  "value_of_double d = JReal d"

section \<open>Equality\<close>

text \<open>\<^verbatim>\<open>==\<close> on doubles: NaN equals nothing, the zeros are equal, and \<open>m * 2 ^ e\<close> is compared as a number.\<close>

fun double_eq :: "double \<Rightarrow> double \<Rightarrow> bool" where
  "double_eq (Finite n m e) (Finite n' m' e') \<longleftrightarrow>
     m = 0 \<and> m' = 0 \<or> n = n' \<and> m * 2 ^ nat (e - min e e') = m' * 2 ^ nat (e' - min e e')"
| "double_eq (Infinite n) (Infinite n') \<longleftrightarrow> n = n'"
| "double_eq _ _ \<longleftrightarrow> False"

text \<open>
  \<^verbatim>\<open>operator==\<close> of two different objects: the types, then the variants. \<^verbatim>\<open>is_uint64_\<close> is not compared. A null value
  holds the variant's default, an empty string.
\<close>

fun value_eq :: "json \<Rightarrow> json \<Rightarrow> bool" where
  "value_eq (Obj ms) (Obj ms') \<longleftrightarrow> list_all2 (\<lambda>p q. fst p = fst q \<and> value_eq (snd p) (snd q)) ms ms'"
| "value_eq (Arr xs) (Arr ys) \<longleftrightarrow> list_all2 value_eq xs ys"
| "value_eq (JStr s) (JStr t) \<longleftrightarrow> s = t"
| "value_eq (JBool b) (JBool c) \<longleftrightarrow> b = c"
| "value_eq (JInt i u) (JInt j w) \<longleftrightarrow> i = j"
| "value_eq (JReal d) (JReal e) \<longleftrightarrow> double_eq d e"
| "value_eq JNull JNull \<longleftrightarrow> True"
| "value_eq _ _ \<longleftrightarrow> False"

definition pair_eq :: "string \<times> json \<Rightarrow> string \<times> json \<Rightarrow> bool" where
  "pair_eq p q \<longleftrightarrow> fst p = fst q \<and> value_eq (snd p) (snd q)"

text \<open>Assignment swaps a copy of the right-hand side in; the result is the new left-hand side.\<close>

definition assign_value :: "json \<Rightarrow> json \<Rightarrow> json" where
  "assign_value this lhs = (let tmp = lhs; (this, tmp) = (tmp, this) in this)"

section \<open>Objects\<close>

text \<open>
  \<^verbatim>\<open>Config_vector\<close>: \<^verbatim>\<open>add\<close> appends and returns a reference to the value of the last pair, its index here.
\<close>

definition vector_add :: "(string \<times> json) list \<Rightarrow> string \<Rightarrow> json \<Rightarrow> nat \<times> (string \<times> json) list" where
  "vector_add obj name v = (length obj, obj @ [(name, v)])"

definition vector_get_name :: "string \<times> json \<Rightarrow> string" where
  "vector_get_name pair = fst pair"

definition vector_get_value :: "string \<times> json \<Rightarrow> json" where
  "vector_get_value pair = snd pair"

text \<open>\<^verbatim>\<open>Config_map\<close>: \<^verbatim>\<open>add\<close> replaces the value of a name that is present and returns a reference to it, its key here.\<close>

definition map_add :: "(string \<times> 'v) list \<Rightarrow> string \<Rightarrow> 'v \<Rightarrow> string \<times> (string \<times> 'v) list" where
  "map_add obj name v = (name, map_put name v obj)"

definition map_get_name :: "string \<times> 'v \<Rightarrow> string" where
  "map_get_name pair = fst pair"

definition map_get_value :: "string \<times> 'v \<Rightarrow> 'v" where
  "map_get_value pair = snd pair"

definition obj_to_map :: "(string \<times> json) list \<Rightarrow> (string \<times> json) list" where
  "obj_to_map obj = fold (\<lambda>(name, v) mp_obj. map_put name v mp_obj) obj []"

definition map_to_obj :: "(string \<times> json) list \<Rightarrow> (string \<times> json) list" where
  "map_to_obj mp_obj = fold (\<lambda>(name, v) obj. obj @ [(name, v)]) mp_obj []"

section \<open>\<^verbatim>\<open>get_value\<close>\<close>

text \<open>The type argument selects an overload through \<^verbatim>\<open>Type_to_type\<close>.\<close>

datatype type_argument = Get_int | Get_int64 | Get_uint64 | Get_double | Get_string | Get_array | Get_object | Get_bool

datatype got = Got_int uint32 | Got_int64 size_t | Got_uint64 size_t | Got_double double | Got_string string
  | Got_array "json list" | Got_object "(string \<times> json) list" | Got_bool bool

fun get_value :: "type_argument \<Rightarrow> json \<Rightarrow> failure + got" where
  "get_value Get_int v = map_sum id Got_int (get_int v)"
| "get_value Get_int64 v = map_sum id Got_int64 (get_int64 v)"
| "get_value Get_uint64 v = map_sum id Got_uint64 (get_uint64 v)"
| "get_value Get_double v = map_sum id Got_double (get_real v)"
| "get_value Get_string v = map_sum id Got_string (get_str v)"
| "get_value Get_array v = map_sum id Got_array (get_array v)"
| "get_value Get_object v = map_sum id Got_object (get_obj v)"
| "get_value Get_bool v = map_sum id Got_bool (get_bool v)"

section \<open>Lemmas\<close>

lemma to_str_eq: "to_str arr = takeWhile (\<lambda>c. c \<noteq> NUL) arr"
proof -
  have "to_str_loop arr result = result @ takeWhile (\<lambda>c. c \<noteq> NUL) arr" for result
    by (induction arr arbitrary: result) simp_all
  then show ?thesis by (simp add: to_str_def)
qed

text \<open>Equality of doubles is equality of the numbers they stand for.\<close>

fun double_number :: "double \<Rightarrow> rat" where
  "double_number (Finite n m e) = (if n then - 1 else 1) * of_nat m * 2 powi e"
| "double_number _ = 0"

lemma double_eq_number:
  "double_eq (Finite n m e) (Finite n' m' e') \<longleftrightarrow> double_number (Finite n m e) = double_number (Finite n' m' e')"
proof -
  let ?k = "min e e'"
  have scale: "of_nat m * 2 powi e = of_nat (m * 2 ^ nat (e - ?k)) * (2 powi ?k :: rat)" if "?k \<le> e" for m e
  proof -
    have "(2 :: rat) powi e = 2 powi (e - ?k) * 2 powi ?k" by (simp flip: power_int_add)
    also have "(2 :: rat) powi (e - ?k) = 2 ^ nat (e - ?k)" using that by (simp add: power_int_def)
    finally show ?thesis by (simp add: mult.assoc)
  qed
  have pos: "(0 :: rat) < 2 powi ?k" by simp
  have neg: "- rat_of_nat a = rat_of_nat b \<longleftrightarrow> a = 0 \<and> b = 0" for a b
  proof
    have "0 \<le> rat_of_nat a" "0 \<le> rat_of_nat b" by simp_all
    then show "a = 0 \<and> b = 0" if "- rat_of_nat a = rat_of_nat b" using that by (simp flip: of_nat_0_eq_iff [where ?'a = rat])
  qed simp
  have "double_number (Finite n m e) = double_number (Finite n' m' e') \<longleftrightarrow>
      (if n then - 1 else 1) * rat_of_nat (m * 2 ^ nat (e - ?k)) = (if n' then - 1 else 1) * rat_of_nat (m' * 2 ^ nat (e' - ?k))"
    using pos unfolding double_number.simps mult.assoc scale [of e m, OF min.cobounded1] scale [of e' m', OF min.cobounded2]
    by (simp flip: mult.assoc)
  also have "\<dots> \<longleftrightarrow> double_eq (Finite n m e) (Finite n' m' e')"
    by (cases n; cases n')
      (simp_all add: neg [of "m * _"] neg [of "m' * _", simplified eq_commute [of "- _"]] del: of_nat_mult of_nat_power, auto)
  finally show ?thesis by simp
qed

lemma double_eq_equivalence:
  "d \<noteq> NaN \<Longrightarrow> double_eq d d" "double_eq d e \<Longrightarrow> double_eq e d" "double_eq d e \<Longrightarrow> double_eq e f \<Longrightarrow> double_eq d f"
proof -
  show "d \<noteq> NaN \<Longrightarrow> double_eq d d" by (cases d) simp_all
  show "double_eq d e \<Longrightarrow> double_eq e d" by (cases d; cases e) (auto simp: double_eq_number simp del: double_eq.simps(1))
  show "double_eq d e \<Longrightarrow> double_eq e f \<Longrightarrow> double_eq d f"
    by (cases d; cases e; cases f) (auto simp: double_eq_number simp del: double_eq.simps(1))
qed

text \<open>Values that hold no NaN.\<close>

fun no_NaN :: "json \<Rightarrow> bool" where
  "no_NaN (Obj ms) \<longleftrightarrow> (\<forall>m \<in> set ms. no_NaN (snd m))"
| "no_NaN (Arr xs) \<longleftrightarrow> (\<forall>x \<in> set xs. no_NaN x)"
| "no_NaN (JReal d) \<longleftrightarrow> d \<noteq> NaN"
| "no_NaN _ \<longleftrightarrow> True"

lemma value_eq_refl: "no_NaN v \<Longrightarrow> value_eq v v"
  by (induction v) (auto simp: list_all2_same snds.simps double_eq_equivalence(1))

lemma value_eq_sym: "value_eq v w \<Longrightarrow> value_eq w v"
proof (induction v w rule: value_eq.induct)
  case (1 ms ms')
  have "list_all2 (\<lambda>p q. fst q = fst p \<and> value_eq (snd q) (snd p)) ms ms'"
    by (rule list.rel_mono_strong [OF 1(2) [unfolded value_eq.simps]]) (use 1(1) in auto)
  then show ?case by (simp add: list_all2_conv_all_nth)
next
  case (2 xs ys)
  have "list_all2 (\<lambda>x y. value_eq y x) xs ys"
    by (rule list.rel_mono_strong [OF 2(2) [unfolded value_eq.simps]]) (use 2(1) in auto)
  then show ?case by (simp add: list_all2_conv_all_nth)
qed (auto simp: double_eq_equivalence(2))

lemma value_eq_inv:
  "value_eq (Obj ms) w \<longleftrightarrow> (\<exists>ns. w = Obj ns \<and> list_all2 (\<lambda>p q. fst p = fst q \<and> value_eq (snd p) (snd q)) ms ns)"
  "value_eq (Arr xs) w \<longleftrightarrow> (\<exists>ys. w = Arr ys \<and> list_all2 value_eq xs ys)"
  "value_eq (JStr s) w \<longleftrightarrow> w = JStr s" "value_eq (JBool b) w \<longleftrightarrow> w = JBool b"
  "value_eq (JInt i u) w \<longleftrightarrow> (\<exists>u'. w = JInt i u')"
  "value_eq (JReal d) w \<longleftrightarrow> (\<exists>e. w = JReal e \<and> double_eq d e)" "value_eq JNull w \<longleftrightarrow> w = JNull"
  by (cases w; auto)+

lemma value_eq_trans: "value_eq v w \<Longrightarrow> value_eq w x \<Longrightarrow> value_eq v x"
proof (induction v arbitrary: w x)
  case (Obj ms)
  then obtain ns ks where eq: "w = Obj ns" "x = Obj ks" by (auto simp only: value_eq_inv(1))
  have "fst (ms ! i) = fst (ks ! i) \<and> value_eq (snd (ms ! i)) (snd (ks ! i))" if "i < length ms" for i
    using Obj.prems that Obj.IH [of "ms ! i" "snd (ms ! i)" "snd (ns ! i)" "snd (ks ! i)"]
    by (auto simp: eq list_all2_conv_all_nth snds.simps)
  then show ?case using Obj.prems by (auto simp: eq list_all2_conv_all_nth)
next
  case (Arr xs)
  then obtain ys zs where eq: "w = Arr ys" "x = Arr zs" by (auto simp only: value_eq_inv(2))
  have "value_eq (xs ! i) (zs ! i)" if "i < length xs" for i
    using Arr.prems that Arr.IH [of "xs ! i" "ys ! i" "zs ! i"] by (auto simp: eq list_all2_conv_all_nth)
  then show ?case using Arr.prems by (auto simp: eq list_all2_conv_all_nth)
qed (use double_eq_equivalence(3) in \<open>auto simp: value_eq_inv\<close>)

text \<open>Without reals and unsigned integers, equal values are the same.\<close>

lemma value_eq_readable: "readable v \<Longrightarrow> readable w \<Longrightarrow> value_eq v w \<longleftrightarrow> v = w"
proof (induction v w rule: value_eq.induct)
  case (1 ms ms')
  have "list_all2 (\<lambda>p q. fst p = fst q \<and> value_eq (snd p) (snd q)) ms ms' \<longleftrightarrow> list_all2 (=) ms ms'"
    by (rule iffI; erule list.rel_mono_strong) (use 1 in \<open>auto simp: prod_eq_iff\<close>)
  then show ?case by (simp add: list.rel_eq)
next
  case (2 xs ys)
  have "list_all2 value_eq xs ys \<longleftrightarrow> list_all2 (=) xs ys"
    by (rule iffI; erule list.rel_mono_strong) (use 2 in auto)
  then show ?case by (simp add: list.rel_eq)
qed simp_all

text \<open>A map keeps the last value of a name, a lookup in the vector finds the first.\<close>

lemma obj_to_map_snoc: "obj_to_map (obj @ [(n, v)]) = map_put n v (obj_to_map obj)"
  by (simp add: obj_to_map_def)

lemma obj_to_map_ok: "map_ok (obj_to_map obj)"
  by (induction obj rule: rev_induct) (auto simp: obj_to_map_snoc, simp add: obj_to_map_def)

lemma find_obj_to_map: "map_find (obj_to_map obj) name = map_of (rev obj) name"
  by (induction obj rule: rev_induct) (auto simp: obj_to_map_snoc map_find_put, simp add: obj_to_map_def)

lemma find_value_map_of: "find_value obj name = (case map_of obj name of None \<Rightarrow> JNull | Some v \<Rightarrow> v)"
  by (induction obj name rule: find_value.induct) simp_all

lemma map_to_obj_id: "map_to_obj mp_obj = mp_obj"
proof -
  have "fold (\<lambda>(name, v) obj. obj @ [(name, v)]) mp_obj obj = obj @ mp_obj" for obj
    by (induction mp_obj arbitrary: obj) auto
  then show ?thesis by (simp add: map_to_obj_def)
qed

lemma map_put_last: "\<forall>x \<in> set m. fst x < k \<Longrightarrow> map_put k v m = m @ [(k, v)]"
  by (induction k v m rule: map_put.induct) (auto simp: less_not_sym)

text \<open>The conversions are inverse to each other on maps, and agree on lookups when no name occurs twice.\<close>

lemma map_obj_roundtrip: "map_ok mp_obj \<Longrightarrow> obj_to_map (map_to_obj mp_obj) = mp_obj"
proof (induction mp_obj rule: rev_induct)
  case (snoc p mp_obj)
  have "\<forall>x \<in> set mp_obj. fst x < fst p" "map_ok mp_obj" using snoc.prems by (auto simp: map_ok_def sorted_wrt_append)
  then show ?case using snoc.IH obj_to_map_snoc [of mp_obj "fst p" "snd p"] map_put_last [of mp_obj "fst p" "snd p"]
    by (simp add: map_to_obj_id)
qed (simp add: obj_to_map_def map_to_obj_def)

lemma find_value_agrees:
  assumes "distinct (map fst obj)"
  shows "find_value obj name = (case map_find (obj_to_map obj) name of None \<Rightarrow> JNull | Some v \<Rightarrow> v)"
proof -
  have "map_of (rev obj) = map_of obj" using assms by (subst map_of_inject_set) (simp_all add: rev_map [symmetric])
  then show ?thesis by (simp add: find_obj_to_map find_value_map_of)
qed

lemma find_value_repeated: "find_value [(n, v), (n, w)] n = v" "map_find (obj_to_map [(n, v), (n, w)]) n = Some w"
  by (simp_all add: obj_to_map_def)

text \<open>What was read back compares equal to what was written.\<close>

lemma json_read_value_eq:
  assumes "classic_engine classic" and "readable v" and "no_number rest"
  shows "\<exists>w. json_read classic (json_write v @ rest) v0 = Inr (True, w) \<and> value_eq v w"
  using json_read_write [OF assms] value_eq_readable [of v v] assms(2) by auto

text \<open>\<^verbatim>\<open>get_value\<close> gives back what a constructor was called with.\<close>

lemma get_value_constructed [simp]:
  "get_value Get_int (value_of_int i) = Inr (Got_int i)" "get_value Get_int64 (value_of_int64 j) = Inr (Got_int64 j)"
  "get_value Get_uint64 (value_of_uint64 j) = Inr (Got_uint64 j)" "get_value Get_string (value_of_string s) = Inr (Got_string s)"
  "get_value Get_array (value_of_array xs) = Inr (Got_array xs)" "get_value Get_object (value_of_object obj) = Inr (Got_object obj)"
  "get_value Get_bool (value_of_bool b) = Inr (Got_bool b)" "get_value Get_double (value_of_double d) = Inr (Got_double d)"
  by (simp_all add: value_of_int64_def value_of_uint64_def get_uint64_def value_of_string_def value_of_array_def
      value_of_object_def value_of_bool_def value_of_double_def get_real_def checked_def check_type_def)

end
