(* ===== verification/Diagnostics.thy ===== *)
theory Diagnostics
  imports Blob_Key Http_Message Multipart
begin

text \<open>
  The text forms of objects for the log: the printer of containers (\<^verbatim>\<open>prettyprint.hpp\<close>) and the \<^verbatim>\<open>dump\<close> members, which are
  compiled in with \<^verbatim>\<open>ENABLE_DUMP\<close>. Streams of narrow characters; what is written is the text appended.
\<close>

section \<open>Printing containers\<close>

text \<open>A delimiter that is a null pointer is not printed.\<close>

record delimiters_values =
  pp_prefix :: "string option"
  pp_delimiter :: "string option"
  pp_postfix :: "string option"

definition print_delimiter :: "string option \<Rightarrow> string" where
  "print_delimiter d = (case d of Some s \<Rightarrow> s | None \<Rightarrow> [])"

definition default_delimiters :: delimiters_values where
  "default_delimiters = \<lparr>pp_prefix = Some ''['', pp_delimiter = Some '', '', pp_postfix = Some '']''\<rparr>"

definition set_delimiters :: delimiters_values where
  "set_delimiters = \<lparr>pp_prefix = Some ''{'', pp_delimiter = Some '', '', pp_postfix = Some ''}''\<rparr>"

definition pair_delimiters :: delimiters_values where
  "pair_delimiters = \<lparr>pp_prefix = Some ''('', pp_delimiter = Some '', '', pp_postfix = Some '')''\<rparr>"

text \<open>The loop that leaves in the middle, before the delimiter.\<close>

fun print_loop :: "delimiters_values \<Rightarrow> ('a \<Rightarrow> string) \<Rightarrow> 'a \<Rightarrow> 'a list \<Rightarrow> string" where
  "print_loop ds print x [] = print x"
| "print_loop ds print x (y # it) = print x @ print_delimiter (pp_delimiter ds) @ print_loop ds print y it"

definition print_container_helper :: "delimiters_values \<Rightarrow> ('a \<Rightarrow> string) \<Rightarrow> 'a list \<Rightarrow> string" where
  "print_container_helper ds print container =
     print_delimiter (pp_prefix ds) @
     (case container of [] \<Rightarrow> [] | x # it \<Rightarrow> print_loop ds print x it) @
     print_delimiter (pp_postfix ds)"

definition print_pair :: "('a \<Rightarrow> string) \<Rightarrow> ('b \<Rightarrow> string) \<Rightarrow> 'a \<times> 'b \<Rightarrow> string" where
  "print_pair print1 print2 p =
     print_delimiter (pp_prefix pair_delimiters) @ print1 (fst p) @ print_delimiter (pp_delimiter pair_delimiters) @
     print2 (snd p) @ print_delimiter (pp_postfix pair_delimiters)"

text \<open>The elements of a tuple, already printed; the template recurses on their number down to one.\<close>

fun pretty_tuple_helper :: "nat \<Rightarrow> string list \<Rightarrow> string" where
  "pretty_tuple_helper 0 vs = []"
| "pretty_tuple_helper (Suc 0) vs = vs ! 0"
| "pretty_tuple_helper (Suc n) vs = pretty_tuple_helper n vs @ print_delimiter (pp_delimiter pair_delimiters) @ vs ! n"

definition print_tuple :: "string list \<Rightarrow> string" where
  "print_tuple vs =
     print_delimiter (pp_prefix pair_delimiters) @ pretty_tuple_helper (length vs) vs @ print_delimiter (pp_postfix pair_delimiters)"

text \<open>The wrapper of an array of \<open>n\<close> elements has the iterators of its first \<open>n\<close>.\<close>

definition pretty_print_array :: "('a \<Rightarrow> string) \<Rightarrow> 'a list \<Rightarrow> nat \<Rightarrow> string" where
  "pretty_print_array print a n = print_container_helper default_delimiters print (take n a)"

text \<open>
  A tuple prints like a container with the delimiters of pairs, a pair like a tuple of two, and a set of custom delimiters
  only changes the texts around and between the elements.
\<close>

fun joined :: "string \<Rightarrow> string list \<Rightarrow> string" where
  "joined sep [] = []"
| "joined sep [x] = x"
| "joined sep (x # y # xs) = x @ sep @ joined sep (y # xs)"

lemma joined_snoc: "xs \<noteq> [] \<Longrightarrow> joined sep (xs @ [x]) = joined sep xs @ sep @ x"
  by (induction sep xs rule: joined.induct) simp_all

lemma print_loop_joined: "print_loop ds print x it = joined (print_delimiter (pp_delimiter ds)) (map print (x # it))"
  by (induction it arbitrary: x) simp_all

lemma print_container_joined:
  "print_container_helper ds print container =
     print_delimiter (pp_prefix ds) @ joined (print_delimiter (pp_delimiter ds)) (map print container) @ print_delimiter (pp_postfix ds)"
  by (cases container) (simp_all add: print_container_helper_def print_loop_joined del: list.simps(9))

lemma pretty_tuple_joined:
  "n \<le> length vs \<Longrightarrow> pretty_tuple_helper n vs = joined (print_delimiter (pp_delimiter pair_delimiters)) (take n vs)"
proof (induction n vs rule: pretty_tuple_helper.induct)
  case (2 vs)
  then show ?case by (cases vs) simp_all
next
  case (3 n vs)
  then have "take (Suc (Suc n)) vs = take (Suc n) vs @ [vs ! Suc n]" by (simp add: take_Suc_conv_app_nth)
  moreover have "take (Suc n) vs \<noteq> []" using 3(2) by auto
  ultimately show ?case using 3 by (simp add: joined_snoc)
qed simp

lemma print_tuple_container: "print_tuple vs = print_container_helper pair_delimiters id vs"
  by (simp add: print_tuple_def pretty_tuple_joined print_container_joined)

lemma print_pair_tuple: "print_pair print1 print2 (a, b) = print_tuple [print1 a, print2 b]"
  by (simp add: print_pair_def print_tuple_def numeral_2_eq_2)

section \<open>Dumps\<close>

abbreviation quote :: char where "quote \<equiv> CHR 0x27"

definition http_header_dump :: "header \<Rightarrow> string" where
  "http_header_dump h = ''header{key='' @ [quote] @ hdr_name h @ [quote] @ '' value='' @ [quote] @ hdr_value h @ [quote] @ ''}''"

text \<open>The loop with the flag \<open>first\<close>.\<close>

fun dump_hashes :: "bool \<Rightarrow> string list \<Rightarrow> string" where
  "dump_hashes first [] = []"
| "dump_hashes first (h # hs) = (if \<not> first then '', '' else []) @ h @ dump_hashes False hs"

definition Blob_dump :: "Blob \<Rightarrow> string" where
  "Blob_dump b =
     ''Blob{filePath='' @ [quote] @ filePath b @ [quote] @ '' size='' @ show_int (sint (blob_size b)) @
     '' hashes=['' @ dump_hashes True (hashes b) @ '']}''"

text \<open>The loops that compare their iterator with \<^verbatim>\<open>begin()\<close>: \<open>i\<close> is the position.\<close>

fun dump_attributes :: "nat \<Rightarrow> (string \<times> string) list \<Rightarrow> string" where
  "dump_attributes i [] = []"
| "dump_attributes i ((k, v) # attrs) =
     (if i \<noteq> 0 then '', '' else []) @ k @ (if v \<noteq> [] then ''='' @ v else []) @ dump_attributes (i + 1) attrs"

definition Header_dump :: "form_header \<Rightarrow> string" where
  "Header_dump h =
     ''Header{'' @ '' name='' @ [quote] @ fh_name h @ [quote] @ '' attributes=['' @ dump_attributes 0 (fh_attributes h) @ '']'' @ ''}''"

fun dump_headers :: "nat \<Rightarrow> form_header list \<Rightarrow> string" where
  "dump_headers i [] = []"
| "dump_headers i (h # hdrs) = (if i \<noteq> 0 then '', '' else []) @ Header_dump h @ dump_headers (i + 1) hdrs"

definition Part_dump :: "part \<Rightarrow> string" where
  "Part_dump p =
     ''Part{'' @ '' payload='' @ [quote] @ part_payload p @ [quote] @ '' headers=['' @ dump_headers 0 (part_headers p) @ '']'' @ ''}''"

fun dump_parts :: "part list \<Rightarrow> string" where
  "dump_parts [] = []"
| "dump_parts (p # ps) = '' '' @ Part_dump p @ [LF] @ dump_parts ps"

definition MultiPartFormData_dump :: "form_data \<Rightarrow> string" where
  "MultiPartFormData_dump f =
     ''MultiPartFormData{ boundry='' @ [quote] @ boundry f @ [quote] @ '' parts=['' @ [LF] @ dump_parts (parts f) @ '']'' @ [LF] @ ''}''"

text \<open>The three loops print the same way: the elements with \<open>, \<close> in between, as the printer of containers does.\<close>

lemma dump_hashes_joined: "dump_hashes True hs = joined '', '' hs"
proof -
  have "dump_hashes False hs = (if hs = [] then [] else '', '' @ joined '', '' hs)" for hs
    by (induction hs) (auto simp: neq_Nil_conv)
  then show ?thesis by (cases hs) (auto simp: neq_Nil_conv)
qed

lemma dump_headers_joined: "dump_headers 0 hdrs = joined '', '' (map Header_dump hdrs)"
proof -
  have "dump_headers (Suc i) hdrs = (if hdrs = [] then [] else '', '' @ joined '', '' (map Header_dump hdrs))" for i hdrs
    by (induction hdrs arbitrary: i) (auto simp: neq_Nil_conv)
  then show ?thesis by (cases hdrs) (auto simp: neq_Nil_conv)
qed

lemma Blob_dump_container: "''['' @ dump_hashes True hs @ '']'' = print_container_helper default_delimiters id hs"
  by (simp add: print_container_joined dump_hashes_joined default_delimiters_def print_delimiter_def)

end
