(* ===== verification/Spec2Isabelle.thy ===== *)
theory Spec2Isabelle
  imports Daemon Compressed_Reply Zopfli_Bin Zopfli_Pool Json_Stream Json_Values Diagnostics
begin

text \<open>
  A verification development for camlispp, a Camlistore blob server in C++: a content-addressed store of blobs behind
  HTTP, which synchronises with other servers of its kind and compresses what it sends.

  \<^bold>\<open>The program and its model.\<close> Paths are relative to \<^verbatim>\<open>src/blobserver/src\<close>, \<^verbatim>\<open>src/3rd/json\<close> and \<^verbatim>\<open>src/3rd/zopfli\<close>.

  \<^item> \<open>Prelude\<close>: machine types (LP64), the ways an operation ends other than by returning (type \<open>failure\<close>; results
    are \<open>failure + 'a\<close> and \<open>and_then\<close> is the sequence of statements), \<^verbatim>\<open>std::string\<close> and C library routines.
  \<^item> \<open>Containers\<close>: \<^verbatim>\<open>std::map\<close> as a sorted association list, and the locales its clients rely on.
  \<^item> \<open>Config\<close>, \<open>Blob_Key\<close>, \<open>Blob_Index\<close>: \<^verbatim>\<open>Config\<close>, \<^verbatim>\<open>BlobKey\<close>, \<^verbatim>\<open>Hash\<close>, \<^verbatim>\<open>Blob\<close>, \<^verbatim>\<open>BlobIndex\<close> and the configuration
    \<^verbatim>\<open>blobserver.cpp\<close> builds. The state is a record of the index (a map from references to addresses), the heap of blob
    objects and the files. \<open>index_ok\<close> is the invariant; the abstract specification is a map from references to bytes
    (\<open>contents\<close>), which \<open>add_blob\<close> refines by \<open>abs_store\<close>.
  \<^item> \<open>Http_Message\<close>, \<open>Request_Parser\<close>, \<open>Qi\<close>, \<open>Multipart\<close>: \<^verbatim>\<open>header\<close>, \<^verbatim>\<open>request\<close>, \<^verbatim>\<open>reply\<close>, \<^verbatim>\<open>mime_types\<close>; the character machine
    of \<^verbatim>\<open>request_parser.cpp\<close>; the grammars of \<^verbatim>\<open>boost-multipart-form.h\<close> over a Spirit.Qi engine.
  \<^item> \<open>Json\<close>, \<open>Json_Values\<close>, \<open>Json_Reader\<close>, \<open>Json_Stream\<close>: values, writer and reader of json\_spirit, from strings, ranges and
    streams.
  \<^item> \<open>Request_Handler\<close>: \<^verbatim>\<open>request_handler.cpp\<close>, one definition per handler, over index and files, each with the failures it can
    meet (\<^verbatim>\<open>substr\<close> out of range, \<^verbatim>\<open>add_blob\<close>, the compressor). \<open>Handler_Steps\<close>: the same handlers as resumptions, in the pieces that
    the locking of the index leaves them; run without interruption they are the handlers (\<open>run_request_prog\<close>).
  \<^item> \<open>Connection\<close>: \<^verbatim>\<open>connection.cpp\<close> and \<^verbatim>\<open>server.cpp\<close>: the completion handlers, and the server as an inductive step relation over all
    interleavings of the events of its connections and of the pieces of their handlers. What is written is a list of
    buffers, of live strings or of temporaries that are gone when the socket reads them (\<open>const_buffer\<close>); \<open>sent\<close> says which bytes
    can then go out.
  \<^item> \<open>Sync\<close>: \<^verbatim>\<open>Sync.cpp\<close>: pulling from and pushing to peers.
  \<^item> \<open>Daemon\<close>: \<^verbatim>\<open>main\<close> of \<^verbatim>\<open>blobserver.cpp\<close>: start-up, and the server and the synchronisation thread as one step relation, labelled
    with what a step is about, over the index they share; exceptions and failed assertions of either end it.
  \<^item> \<open>Diagnostics\<close>: the \<^verbatim>\<open>dump\<close> members and the printer of containers of \<^verbatim>\<open>prettyprint.hpp\<close>.
  \<^item> The compressor, bottom up: \<open>Zopfli_Options\<close> (\<^verbatim>\<open>zopfli.h\<close>), \<open>Zopfli_Util\<close> (\<^verbatim>\<open>util.cc\<close>), \<open>Zopfli_Bits\<close> (the bit writer of
    \<^verbatim>\<open>deflate.cc\<close>), \<open>Zopfli_Tree\<close>, \<open>Zopfli_Katajainen\<close> and \<open>Zopfli_Pool\<close> (\<^verbatim>\<open>tree.cc\<close>, \<^verbatim>\<open>katajainen.cc\<close>), \<open>Zopfli_Store\<close>,
    \<open>Zopfli_Tree_Header\<close> and \<open>Zopfli_Blocks\<close> (blocks of \<^verbatim>\<open>deflate.cc\<close>), \<open>Zopfli_Hash\<close>, \<open>Zopfli_Cache\<close>, \<open>Zopfli_Lz77\<close>, \<open>Zopfli_Match\<close> and
    \<open>Zopfli_Greedy\<close> (\<^verbatim>\<open>hash.cc\<close>, \<^verbatim>\<open>cache.cc\<close>, \<^verbatim>\<open>lz77.cc\<close>), \<open>Zopfli_Runs\<close>, \<open>Zopfli_Costs\<close>, \<open>Zopfli_Squeeze\<close>, \<open>Zopfli_Forward\<close> and
    \<open>Zopfli_Optimal\<close> (\<^verbatim>\<open>squeeze.cc\<close>), \<open>Zopfli_Splitter\<close> (\<^verbatim>\<open>blocksplitter.cc\<close>), \<open>Zopfli_Deflate\<close> (the rest of \<^verbatim>\<open>deflate.cc\<close>),
    \<open>Zopfli_Checksum\<close> and \<open>Zopfli_Container\<close> (\<^verbatim>\<open>gzip_container.cc\<close>, \<^verbatim>\<open>zlib_container.cc\<close>, \<^verbatim>\<open>zopfli_lib.cc\<close>).
  \<^item> \<open>Compressed_Reply\<close>: the request handler with this compressor. \<open>Zopfli_Bin\<close>: its command line (\<^verbatim>\<open>zopfli_bin.cc\<close>).

  \<^bold>\<open>How the parts meet.\<close> A connection feeds the parser and hands each request to the handler, which reads the index, adds
  to it, or answers from files; a synchronisation thread calls the index and, at the peer, the handler; the handler
  compresses the content of a reply. The interfaces are locales: ordered maps and paged listings (\<open>Containers\<close>), the
  parser engines (\<open>Qi\<close>, \<open>Json_Reader\<close>), and passes that turn a block into an LZ77 store (\<open>lz77_pass\<close> of \<open>Zopfli_Deflate\<close>,
  interpreted on the greedy, the squeezing and the fixed-tree pass).

  \<^bold>\<open>What is shown.\<close>

  \<^item> Server: what is uploaded can be downloaded, plain or compressed; uploads and \<open>add_blob\<close> refine the content-addressed map;
    every state the daemon can reach, with clients and peers at work at the same time, satisfies its invariant, and every
    step that ends the process has one of the listed causes; what is served under a SHA-256 reference never changes; what it was
    told to load at its start it serves; a request is answered however its bytes are cut; files
    outside the static directory and the store are not read; what is served under a SHA-256 reference has that digest, as
    the server computes it, or was a file at its path before the start; pulling from a peer that runs this program fetches
    everything, pushing ends. The theorems on uploads and loaded files are for contents that do not collide (\<open>storable\<close>; digests
    are of the bytes up to the first NUL), those on forms for parts of 7-bit characters.
  \<^item> Formats: requests, replies, forms, references, JSON values (compact or formatted) and streams of them round-trip; what the parsers reject and
    accept.
  \<^item> Compressor: for every format and all options with at least one iteration, of 1 to 7000000 bytes in an array with two
    readable bytes, \<^verbatim>\<open>ZopfliCompress\<close> returns and a decoder written from RFC 1950, 1951 and 1952
    (\<open>Zopfli_Inflate\<close>, \<open>Zopfli_Container\<close>) recovers the data. On the way: the code lengths are a prefix code, complete for two or more symbols
    (\<open>huffman_code_decodes\<close>), tree headers and blocks decode, the hash chains only lead back in the data, the cache of longest
    matches, filled and read by any sequence of calls, changes no match that is used, the garbage-collected pool of nodes refines immutable chains, the shortest path stays on steps that are matches, split points ascend, checksums equal
    their definitions. The command line, without \<^verbatim>\<open>-c\<close>, writes for files of 2 to 7000000 bytes one that decompresses to its source, and touches
    nothing else.
  \<^item> Where the program fails: empty input of the compressor, stored blocks split last, a file of one byte on the command line, bytes
    after a NUL, uploads that are not ASCII, empty bodies from a peer, answers of a peer with members of the wrong type
    or without an end (\<open>endless_peer_blocks\<close>), empty files at start-up, header fields sent from dangling buffers (\<open>stale_header_sent\<close>).

  \<^bold>\<open>Parameters and hypotheses.\<close> Code outside of the repository is an argument of the definitions. The digests of Crypto++
  and the outcomes of file operations are the record \<open>host\<close>; where needed digests are hexadecimal (\<open>hex_digests\<close>) or do not
  collide (\<open>storable\<close>). Spirit.Qi and Spirit.Classic are engines with the documented meaning of their combinators; a
  parsing expression machine (\<open>peg\<close>) is the instance in the witnesses. libcurl and Asio enter as the results and events they deliver, Boost.Program\_options and Boost.Serialization as the
  parsed options and the text of an archive (record \<open>launcher\<close>), the C library of the command line as the record \<open>platform\<close>. In
  the compressor: \<open>qsort\<close> sorts by the comparator where that is an order (\<open>qsort_ok\<close>); rounding to \<^verbatim>\<open>double\<close> and \<^verbatim>\<open>float\<close> and the logarithm
  are the record \<open>fp\<close>, of which \<open>fp_ok\<close> demands what IEEE 754 gives (monotonic, exact on small halves and powers of two); what
  uninitialised memory holds is the argument \<open>mem\<close> or \<open>u\<close>, of which only the sizes are known.

  \<^bold>\<open>Bounds and fuel.\<close> Integers keep their width where they can wrap around (body lengths, positions in references, the sums of
  checksums and entropies, hash values, \<^verbatim>\<open>size_t\<close> conversions of options) and are \<open>nat\<close> or \<open>int\<close> where the invariants keep
  them in range. \<open>Out_of_fuel\<close> stands for not returning: the loop of the block splitter gets \<open>2 n + 1\<close> rounds for \<open>n\<close> items, enough as each
  round gives a block up or adds a point, and \<open>ZopfliBlockSplitSimple\<close> one round per byte; the search for a free node gets \<open>2 n + 1\<close>
  rounds for a pool of \<open>n\<close> nodes, once to its end and, after the collection, once more; a chain has no more nodes than the pool. The theorems say that these
  loops return. Dynamic blocks are limited to 7000000 bytes: above, the 32-bit sum of randomised counts may overflow.

  \<^bold>\<open>Not modelled.\<close> The mutex of the index itself (each locked call is one step of its thread; \<^verbatim>\<open>paginate\<close>, which takes no lock, reads the map
  at one moment, although C++ leaves undefined what it does while another thread changes it), what reading a destroyed
  string does beyond delivering bytes, the thread pool, signals and sockets; the log macros, and the type
  traits, custom delimiters and bucket printing of \<^verbatim>\<open>prettyprint.hpp\<close>; the wide-character and map configurations of json\_spirit, which are the
  same templates at other types, its error positions, and how far its stream iterators read ahead; freeing memory and failed
  allocations other than of a loaded file; messages of the compressor's verbose mode.
\<close>

end
